(* ===== verification/Prelude.thy ===== *)
theory Prelude
  imports Main "HOL-Library.Word" "HOL-Library.Multiset"
begin

text \<open>
  Shared vocabulary of the development: the machine types of the crate
  (\<open>usize\<close> and file offsets are naturals with their 64-bit bound written out
  in every checked operation, the fixed-width values that are stored or wrapped are words),
  the result type of fallible code, slices, little-endian encodings, and the binary search
  loop that several components run over a monotone predicate.
\<close>

unbundle bit_operations_syntax

named_theorems res_simps \<open>equations of the result monad\<close>
named_theorems slice_simps \<open>equations on slices and chunks\<close>

section \<open>Machine types\<close>

type_synonym u8 = "8 word"
type_synonym u16 = "16 word"
type_synonym u32 = "32 word"
type_synonym u64 = "64 word"
type_synonym i32 = "32 word"
type_synonym i64 = "64 word"
type_synonym bytes = "u8 list"

section \<open>Results\<close>

text \<open>
  \<open>io::Result\<close>: the error is the \<open>io::ErrorKind\<close> of the source (its message text is
  not modelled). A failed assertion, an \<open>expect\<close> or an index out of range is \<open>Panic\<close>. A loop that
  makes no progress is \<open>Diverge\<close>: it is what a loop modelled with fuel gives when the fuel runs out.
\<close>

datatype error_kind = InvalidInput | InvalidData | UnexpectedEof | Unsupported | OutOfMemory | OtherError

datatype failure = Err error_kind | Panic | Diverge

type_synonym 'a res = "failure + 'a"

definition bind_res :: "'a res \<Rightarrow> ('a \<Rightarrow> 'b res) \<Rightarrow> 'b res" where
  "bind_res r f = (case r of Inl e \<Rightarrow> Inl e | Inr x \<Rightarrow> f x)"

lemma bind_res_Inr [simp, res_simps]: "bind_res (Inr x) f = f x"
  by (simp add: bind_res_def)

lemma bind_res_Inl [simp, res_simps]: "bind_res (Inl e) f = Inl e"
  by (simp add: bind_res_def)

lemma bind_res_eq_Inr [res_simps]:
  "bind_res r f = Inr y \<longleftrightarrow> (\<exists>x. r = Inr x \<and> f x = Inr y)"
  by (cases r) auto

lemma bind_res_eq_Inl:
  "bind_res r f = Inl e \<longleftrightarrow> r = Inl e \<or> (\<exists>x. r = Inr x \<and> f x = Inl e)"
  by (cases r) auto

lemma bind_res_cong [fundef_cong]:
  "r = s \<Longrightarrow> (\<And>x. s = Inr x \<Longrightarrow> f x = g x) \<Longrightarrow> bind_res r f = bind_res s g"
  by (cases s) auto

lemma bind_res_assoc: "bind_res (bind_res r f) g = bind_res r (\<lambda>x. bind_res (f x) g)"
  by (cases r) auto

definition ok_or :: "failure \<Rightarrow> 'a option \<Rightarrow> 'a res" where
  "ok_or e x = (case x of None \<Rightarrow> Inl e | Some v \<Rightarrow> Inr v)"

lemma ok_or_simps [simp, res_simps]: "ok_or e None = Inl e" "ok_or e (Some v) = Inr v"
  by (simp_all add: ok_or_def)

lemma ok_or_eq_Inr [simp, res_simps]: "ok_or e x = Inr v \<longleftrightarrow> x = Some v"
  by (cases x) auto

text \<open>\<open>collect::<io::Result<Vec<_>>>\<close>: the first error in order wins.\<close>

fun map_res :: "('a \<Rightarrow> 'b res) \<Rightarrow> 'a list \<Rightarrow> 'b list res" where
  "map_res f [] = Inr []"
| "map_res f (x # xs) = bind_res (f x) (\<lambda>y. bind_res (map_res f xs) (\<lambda>ys. Inr (y # ys)))"

text \<open>A \<open>for\<close> loop whose body updates a state and may return early with an error.\<close>

fun fold_res :: "('a \<Rightarrow> 's \<Rightarrow> 's res) \<Rightarrow> 'a list \<Rightarrow> 's \<Rightarrow> 's res" where
  "fold_res f [] s = Inr s"
| "fold_res f (x # xs) s = bind_res (f x s) (\<lambda>s'. fold_res f xs s')"

lemma map_res_cong [fundef_cong]:
  "xs = ys \<Longrightarrow> (\<And>x. x \<in> set ys \<Longrightarrow> f x = g x) \<Longrightarrow> map_res f xs = map_res g ys"
  by (induction ys arbitrary: xs) auto

lemma fold_res_cong [fundef_cong]:
  "xs = ys \<Longrightarrow> s = t \<Longrightarrow> (\<And>x u. x \<in> set ys \<Longrightarrow> f x u = g x u) \<Longrightarrow> fold_res f xs s = fold_res g ys t"
proof (induction ys arbitrary: xs s t)
  case (Cons y ys)
  then show ?case by (cases "g y t") auto
qed simp

lemma map_res_Inr_map: "(\<And>x. x \<in> set xs \<Longrightarrow> f x = Inr (g x)) \<Longrightarrow> map_res f xs = Inr (map g xs)"
  by (induction xs) auto

lemma map_res_map: "map_res f (map g xs) = map_res (\<lambda>x. f (g x)) xs"
  by (induction xs) auto

lemma map_res_eq_InrD:
  "map_res f xs = Inr ys \<Longrightarrow> length ys = length xs \<and> (\<forall>i<length xs. f (xs ! i) = Inr (ys ! i))"
  by (induction xs arbitrary: ys) (auto simp: bind_res_eq_Inr nth_Cons split: nat.splits)

lemma fold_res_append:
  "fold_res f (xs @ ys) s = bind_res (fold_res f xs s) (fold_res f ys)"
proof (induction xs arbitrary: s)
  case (Cons x xs)
  then show ?case by (cases "f x s") auto
qed simp

lemma fold_res_map: "fold_res f (map g xs) s = fold_res (\<lambda>x. f (g x)) xs s"
proof (induction xs arbitrary: s)
  case (Cons x xs)
  then show ?case by (cases "f (g x) s") simp_all
qed simp

lemma bind_fold_Nil [simp]: "bind_res x (fold_res f []) = x"
  by (cases x) simp_all

text \<open>A loop body that cannot fail: the loop is an ordinary fold.\<close>

lemma fold_res_Inr:
  "(\<And>x t. x \<in> set xs \<Longrightarrow> f x t = Inr (g x t)) \<Longrightarrow> fold_res f xs s = Inr (fold g xs s)"
  by (induction xs arbitrary: s) auto

text \<open>A loop invariant: every iteration that succeeds keeps it.\<close>

lemma fold_res_invariant:
  assumes "fold_res f xs s = Inr t" and "I s"
    and "\<And>x u v. x \<in> set xs \<Longrightarrow> I u \<Longrightarrow> f x u = Inr v \<Longrightarrow> I v"
  shows "I t"
  using assms
proof (induction xs arbitrary: s)
  case (Cons x xs)
  from Cons.prems(1) obtain s' where s': "f x s = Inr s'" "fold_res f xs s' = Inr t"
    by (auto simp: bind_res_eq_Inr)
  have "I s'" using Cons.prems(3)[of x s s'] Cons.prems(2) s'(1) by simp
  then show ?case using Cons.IH[OF s'(2)] Cons.prems(3) by (metis list.set_intros(2))
qed simp

section \<open>Checked and saturating arithmetic on usize\<close>

abbreviation USIZE_MAX :: nat where "USIZE_MAX \<equiv> 2 ^ 64 - 1"
abbreviation I32_MAX :: nat where "I32_MAX \<equiv> 2 ^ 31 - 1"
abbreviation I64_MAX :: nat where "I64_MAX \<equiv> 2 ^ 63 - 1"

definition checked_add :: "nat \<Rightarrow> nat \<Rightarrow> nat option" where
  "checked_add a b = (if a + b < 2 ^ 64 then Some (a + b) else None)"

definition checked_sub :: "nat \<Rightarrow> nat \<Rightarrow> nat option" where
  "checked_sub a b = (if b \<le> a then Some (a - b) else None)"

definition checked_mul :: "nat \<Rightarrow> nat \<Rightarrow> nat option" where
  "checked_mul a b = (if a * b < 2 ^ 64 then Some (a * b) else None)"

definition saturating_add :: "nat \<Rightarrow> nat \<Rightarrow> nat" where
  "saturating_add a b = min (a + b) USIZE_MAX"

definition saturating_sub :: "nat \<Rightarrow> nat \<Rightarrow> nat" where
  "saturating_sub a b = a - b"

definition saturating_mul :: "nat \<Rightarrow> nat \<Rightarrow> nat" where
  "saturating_mul a b = min (a * b) USIZE_MAX"

definition div_ceil :: "nat \<Rightarrow> nat \<Rightarrow> nat" where
  "div_ceil a b = (if a mod b = 0 then a div b else a div b + 1)"

lemma checked_add_Some [simp]: "checked_add a b = Some c \<longleftrightarrow> c = a + b \<and> a + b < 2 ^ 64"
  by (auto simp: checked_add_def)

lemma checked_sub_Some [simp]: "checked_sub a b = Some c \<longleftrightarrow> c = a - b \<and> b \<le> a"
  by (auto simp: checked_sub_def)

lemma checked_mul_Some [simp]: "checked_mul a b = Some c \<longleftrightarrow> c = a * b \<and> a * b < 2 ^ 64"
  by (auto simp: checked_mul_def)

lemma div_ceil_mult_ge:
  assumes "0 < b"
  shows "a \<le> div_ceil a b * b"
proof (cases "a mod b = 0")
  case True
  then show ?thesis using div_mult_mod_eq[of a b] by (simp add: div_ceil_def)
next
  case False
  have "a mod b < b" using assms by simp
  then have "a \<le> a div b * b + b" using div_mult_mod_eq[of a b] by linarith
  then show ?thesis using False by (simp add: div_ceil_def)
qed

lemma div_ceil_le:
  assumes b: "0 < b" and a: "a \<le> n * b"
  shows "div_ceil a b \<le> n"
proof (cases "a mod b = 0")
  case True
  then show ?thesis using div_le_mono[OF a, of b] b by (simp add: div_ceil_def)
next
  case False
  then have "a div b * b < a" using div_mult_mod_eq[of a b] by linarith
  then have "a div b * b < n * b" using a by linarith
  then have "a div b < n" using b by simp
  then show ?thesis using False by (simp add: div_ceil_def)
qed

section \<open>Slices, chunks and vectors\<close>

text \<open>\<open>xs[a..b]\<close> where the source has established \<open>a \<le> b \<le> len\<close>.\<close>

definition slice :: "nat \<Rightarrow> nat \<Rightarrow> 'a list \<Rightarrow> 'a list" where
  "slice a b xs = take (b - a) (drop a xs)"

text \<open>\<open>xs[i]\<close> and \<open>xs[a..b]\<close> as they are written: out of range is a panic.\<close>

definition idx :: "'a list \<Rightarrow> nat \<Rightarrow> 'a res" where
  "idx xs i = (if i < length xs then Inr (xs ! i) else Inl Panic)"

text \<open>\<open>xs[a..b].copy_from_slice(ys)\<close>.\<close>

definition copy_from_slice :: "nat \<Rightarrow> nat \<Rightarrow> 'a list \<Rightarrow> 'a list \<Rightarrow> 'a list res" where
  "copy_from_slice a b ys xs =
     (if a \<le> b \<and> b \<le> length xs \<and> length ys = b - a then Inr (take a xs @ ys @ drop b xs) else Inl Panic)"

definition set_idx :: "'a list \<Rightarrow> nat \<Rightarrow> 'a \<Rightarrow> 'a list res" where
  "set_idx xs i x = (if i < length xs then Inr (xs[i := x]) else Inl Panic)"

definition subslice :: "nat \<Rightarrow> nat \<Rightarrow> 'a list \<Rightarrow> 'a list res" where
  "subslice a b xs = (if a \<le> b \<and> b \<le> length xs then Inr (slice a b xs) else Inl Panic)"

text \<open>\<open>Vec::resize\<close>.\<close>

definition resize :: "nat \<Rightarrow> 'a \<Rightarrow> 'a list \<Rightarrow> 'a list" where
  "resize n x xs = take n xs @ replicate (n - length xs) x"

text \<open>\<open>chunks_exact\<close>: the whole chunks of length \<open>n\<close>, a shorter rest is dropped.\<close>

function chunks_exact :: "nat \<Rightarrow> 'a list \<Rightarrow> 'a list list" where
  "chunks_exact n xs =
     (if n = 0 \<or> length xs < n then [] else take n xs # chunks_exact n (drop n xs))"
  by pat_completeness auto
termination
  by (relation "measure (\<lambda>(n, xs). length xs)") auto

declare chunks_exact.simps [simp del]

lemma drop_eq_ConsD:
  assumes "drop n xs = y # ys"
  shows "n < length xs" and "xs ! n = y" and "drop (n + 1) xs = ys"
proof -
  show n: "n < length xs"
  proof (rule ccontr)
    assume "\<not> n < length xs"
    then have "drop n xs = []" by simp
    then show False using assms by simp
  qed
  have "xs ! n # drop (Suc n) xs = y # ys" using Cons_nth_drop_Suc[OF n] assms by simp
  then show "xs ! n = y" and "drop (n + 1) xs = ys" by simp_all
qed

lemma drop_eq_appendD: "drop n xs = ys @ zs \<Longrightarrow> drop (n + length ys) xs = zs"
  by (metis add.commute append_eq_conv_conj drop_drop)

lemma length_slice [simp, slice_simps]: "b \<le> length xs \<Longrightarrow> length (slice a b xs) = b - a"
  by (simp add: slice_def)

lemma slice_append_left [slice_simps]: "b \<le> length xs \<Longrightarrow> slice a b (xs @ ys) = slice a b xs"
  by (simp add: slice_def)

lemma slice_append_right [slice_simps]:
  "length xs \<le> a \<Longrightarrow> slice a b (xs @ ys) = slice (a - length xs) (b - length xs) ys"
  by (simp add: slice_def)

lemma slice_all: "slice 0 (length xs) xs = xs"
  by (simp add: slice_def)

lemma slice_0_eq [slice_simps]: "n = length xs \<Longrightarrow> slice 0 n (xs @ ys) = xs"
  by (simp add: slice_def)

lemma slice_empty [simp, slice_simps]: "slice a a xs = []"
  by (simp add: slice_def)

lemma slice_slice:
  assumes "b \<le> d - c"
  shows "slice a b (slice c d xs) = slice (c + a) (c + b) xs"
proof (cases "a \<le> b")
  case True
  then have "min (b - a) (d - c - a) = b - a" using assms by simp
  then show ?thesis by (simp add: slice_def drop_take add.commute)
qed (simp add: slice_def)

lemma nth_slice: "i < b - a \<Longrightarrow> b \<le> length xs \<Longrightarrow> slice a b xs ! i = xs ! (a + i)"
  by (simp add: slice_def)

lemma slice_Suc: "a \<le> b \<Longrightarrow> b < length xs \<Longrightarrow> slice a (Suc b) xs = slice a b xs @ [xs ! b]"
  by (simp add: slice_def Suc_diff_le take_Suc_conv_app_nth)

lemma chunks_exact_Nil [simp]: "chunks_exact n [] = []"
  by (subst chunks_exact.simps) auto

lemma chunks_exact_append:
  "0 < n \<Longrightarrow> length xs = n \<Longrightarrow> chunks_exact n (xs @ ys) = xs # chunks_exact n ys"
  by (subst chunks_exact.simps) simp

lemma chunks_exact_concat:
  assumes "0 < n" and "\<And>x. x \<in> set xss \<Longrightarrow> length x = n"
  shows "chunks_exact n (concat xss) = xss"
  using assms(2)
proof (induction xss)
  case (Cons x xss)
  then have "length x = n" "chunks_exact n (concat xss) = xss" by auto
  then show ?case using chunks_exact_append[OF assms(1), of x "concat xss"] by simp
qed simp

lemma slice_concat_rows:
  assumes "\<And>x. x \<in> set xss \<Longrightarrow> length x = d" and "i < length xss"
  shows "slice (i * d) (Suc i * d) (concat xss) = xss ! i"
  using assms
proof (induction xss arbitrary: i)
  case (Cons x xss)
  then have x: "length x = d" by simp
  show ?case
  proof (cases i)
    case 0
    then show ?thesis using x by (simp add: slice_def)
  next
    case (Suc j)
    have "slice (i * d) (Suc i * d) (x @ concat xss) = slice (j * d) (Suc j * d) (concat xss)"
      using Suc x by (simp add: slice_append_right)
    then show ?thesis using Suc Cons.IH[of j] Cons.prems by simp
  qed
qed simp

lemma length_concat_rows:
  "(\<And>x. x \<in> set xss \<Longrightarrow> length x = d) \<Longrightarrow> length (concat xss) = length xss * d"
  by (induction xss) auto

text \<open>Row \<open>i\<close> of a flat matrix with rows of length \<open>d\<close>.\<close>

definition row_of :: "nat \<Rightarrow> 'a list \<Rightarrow> nat \<Rightarrow> 'a list" where
  "row_of d vectors i = slice (i * d) ((i + 1) * d) vectors"

lemma length_row_of [simp]: "length vectors = n * d \<Longrightarrow> i < n \<Longrightarrow> length (row_of d vectors i) = d"
proof -
  assume a: "length vectors = n * d" "i < n"
  then have "(i + 1) * d \<le> length vectors" by (metis Suc_eq_plus1 Suc_leI mult_le_mono1)
  then show ?thesis by (simp add: row_of_def)
qed

lemma subslice_row_of:
  assumes "length vectors = n * d" "i < n"
  shows "subslice (i * d) ((i + 1) * d) vectors = Inr (row_of d vectors i)"
proof -
  have "(i + 1) * d \<le> length vectors" using assms by (metis Suc_eq_plus1 Suc_leI mult_le_mono1)
  then show ?thesis by (simp add: subslice_def row_of_def)
qed

section \<open>Little-endian encodings\<close>

fun le_bytes :: "nat \<Rightarrow> nat \<Rightarrow> bytes" where
  "le_bytes 0 v = []"
| "le_bytes (Suc n) v = word_of_nat v # le_bytes n (v div 256)"

fun from_le :: "bytes \<Rightarrow> nat" where
  "from_le [] = 0"
| "from_le (b # bs) = unat b + 256 * from_le bs"

definition u32_to_le_bytes :: "u32 \<Rightarrow> bytes" where
  "u32_to_le_bytes w = le_bytes 4 (unat w)"

definition u64_to_le_bytes :: "u64 \<Rightarrow> bytes" where
  "u64_to_le_bytes w = le_bytes 8 (unat w)"

definition u32_from_le_bytes :: "bytes \<Rightarrow> u32" where
  "u32_from_le_bytes bs = word_of_nat (from_le bs)"

definition u64_from_le_bytes :: "bytes \<Rightarrow> u64" where
  "u64_from_le_bytes bs = word_of_nat (from_le bs)"

lemma length_le_bytes [simp]: "length (le_bytes n v) = n"
  by (induction n arbitrary: v) auto

lemma length_u32_le [simp]: "length (u32_to_le_bytes w) = 4"
  by (simp add: u32_to_le_bytes_def)

lemma length_u64_le [simp]: "length (u64_to_le_bytes w) = 8"
  by (simp add: u64_to_le_bytes_def)

lemma from_le_le_bytes: "from_le (le_bytes n v) = v mod 256 ^ n"
proof (induction n arbitrary: v)
  case (Suc n)
  have "unat (word_of_nat v :: u8) = v mod 256" by (simp add: unat_of_nat)
  then show ?case using Suc by (simp add: mod_mult2_eq)
qed simp

lemma u32_le_roundtrip [simp]: "u32_from_le_bytes (u32_to_le_bytes w) = w"
proof -
  have "unat w < 2 ^ 32" using unsigned_less[of w] by simp
  then show ?thesis by (simp add: u32_from_le_bytes_def u32_to_le_bytes_def from_le_le_bytes)
qed

lemma u64_le_roundtrip [simp]: "u64_from_le_bytes (u64_to_le_bytes w) = w"
proof -
  have "unat w < 2 ^ 64" using unsigned_less[of w] by simp
  then show ?thesis by (simp add: u64_from_le_bytes_def u64_to_le_bytes_def from_le_le_bytes)
qed

section \<open>Binary search over a monotone predicate\<close>

text \<open>
  \<^verbatim>\<open>while low < high { mid = low + (high - low) / 2;
    if p(mid) { high = mid } else { low = mid + 1 } }\<close>: the loop of the cut finders.
\<close>

function bsearch :: "(nat \<Rightarrow> bool) \<Rightarrow> nat \<Rightarrow> nat \<Rightarrow> nat" where
  "bsearch p low high =
     (if low < high then
        (let middle = low + (high - low) div 2 in
         if p middle then bsearch p low middle else bsearch p (middle + 1) high)
      else low)"
  by pat_completeness auto
termination
  by (relation "measure (\<lambda>(p, low, high). high - low)") (auto simp: Let_def)

declare bsearch.simps [simp del]

definition rising :: "(nat \<Rightarrow> bool) \<Rightarrow> nat \<Rightarrow> nat \<Rightarrow> bool" where
  "rising p low high \<longleftrightarrow> (\<forall>a b. low \<le> a \<longrightarrow> a \<le> b \<longrightarrow> b \<le> high \<longrightarrow> p a \<longrightarrow> p b)"

lemma bsearch_bounds: "low \<le> high \<Longrightarrow> low \<le> bsearch p low high \<and> bsearch p low high \<le> high"
proof (induction p low high rule: bsearch.induct)
  case (1 p low high)
  show ?case
  proof (cases "low < high")
    case True
    define m where "m = low + (high - low) div 2"
    have m: "low \<le> m" "m < high" using True by (auto simp: m_def)
    have eq: "bsearch p low high = (if p m then bsearch p low m else bsearch p (m + 1) high)"
      using True by (simp add: bsearch.simps[of p low high] m_def)
    show ?thesis
    proof (cases "p m")
      case pm: True
      show ?thesis using "1.IH"(1)[OF True m_def pm m(1)] eq pm m by simp
    next
      case npm: False
      show ?thesis using "1.IH"(2)[OF True m_def npm] eq npm m by simp
    qed
  next
    case False
    then show ?thesis using "1.prems" by (subst (1 2) bsearch.simps) simp
  qed
qed

text \<open>On a predicate that stays true once true, the loop finds the first true position.\<close>

lemma bsearch_least:
  assumes "low \<le> high" and "p high" and "rising p low high"
  shows "p (bsearch p low high) \<and> (\<forall>c. low \<le> c \<and> c < bsearch p low high \<longrightarrow> \<not> p c)"
  using assms
proof (induction p low high rule: bsearch.induct)
  case (1 p low high)
  show ?case
  proof (cases "low < high")
    case True
    define m where "m = low + (high - low) div 2"
    have m: "low \<le> m" "m < high" using True by (auto simp: m_def)
    show ?thesis
    proof (cases "p m")
      case pm: True
      have mono: "rising p low m"
        using "1.prems"(3) m unfolding rising_def by (meson less_imp_le order_trans)
      have "bsearch p low high = bsearch p low m"
        using True pm by (simp add: bsearch.simps[of p low high] m_def)
      then show ?thesis using "1.IH"(1)[OF True m_def pm m(1) pm mono] by simp
    next
      case npm: False
      have mono: "rising p (m + 1) high"
        using "1.prems"(3) m unfolding rising_def by (meson le_trans le_add1)
      have eq: "bsearch p low high = bsearch p (m + 1) high"
        using True npm by (simp add: bsearch.simps[of p low high] m_def)
      have below: "\<not> p c" if "low \<le> c" "c \<le> m" for c
        using "1.prems"(3) that m npm unfolding rising_def by (meson less_imp_le)
      have "m + 1 \<le> high" using m by simp
      from "1.IH"(2)[OF True m_def npm this "1.prems"(2) mono]
      show ?thesis using below eq by (metis not_less_eq_eq Suc_eq_plus1)
    qed
  next
    case False
    then have "bsearch p low high = high" using "1.prems"(1) by (subst bsearch.simps) simp
    then show ?thesis using "1.prems"(1,2) False by auto
  qed
qed

lemma bsearch_le_iff:
  assumes "low \<le> high" and "p high" and "rising p low high" and "low \<le> c" and "c \<le> high"
  shows "bsearch p low high \<le> c \<longleftrightarrow> p c"
proof
  assume le: "bsearch p low high \<le> c"
  have "p (bsearch p low high)" "low \<le> bsearch p low high"
    using bsearch_least[of low high p] bsearch_bounds[of low high p] assms(1-3) by auto
  then show "p c" using le assms(3,5) unfolding rising_def by blast
next
  assume "p c"
  then show "bsearch p low high \<le> c"
    using bsearch_least[of low high p] assms(1-4) by (meson not_less)
qed

end
