(* ===== verification/Float32.thy ===== *)
theory Float32
  imports Prelude
begin

text \<open>
  The floating-point types of the crate, bit for bit: an \<open>f32\<close> is its 32-bit pattern, an
  \<open>f64\<close> its 64-bit pattern. A finite magnitude is an integer multiple of the format's
  smallest subnormal (\<open>2^-149\<close> for \<open>f32\<close>, \<open>2^-1074\<close> for \<open>f64\<close>), so the exact results of
  the IEEE 754 operations are ratios of integers (or square roots of them) and rounding to
  nearest, ties to even, is a search for the right magnitude code. Everything is
  executable. Arithmetic returns one canonical NaN; Rust leaves the payload unspecified,
  and nothing below depends on it.
\<close>

section \<open>Magnitude codes\<close>

text \<open>
  With \<open>F\<close> fraction bits, the code \<open>c\<close> (the bit pattern without its sign) has exponent
  field \<open>c div 2^F\<close> and fraction \<open>c mod 2^F\<close>; \<open>mag F c\<close> is its value in units of the
  smallest subnormal.
\<close>

definition mag :: "nat \<Rightarrow> nat \<Rightarrow> nat" where
  "mag F c = (if c div 2 ^ F = 0 then c else (2 ^ F + c mod 2 ^ F) * 2 ^ (c div 2 ^ F - 1))"

lemma mag_0 [simp]: "mag F 0 = 0"
  by (simp add: mag_def)

lemma mag_Suc: "mag F (Suc c) = mag F c + 2 ^ (c div 2 ^ F - 1)"
proof (cases "Suc (c mod 2 ^ F) < 2 ^ F")
  case True
  then have m: "Suc c mod 2 ^ F = Suc (c mod 2 ^ F)" by (simp add: mod_Suc)
  then have d: "Suc c div 2 ^ F = c div 2 ^ F" by (simp add: div_Suc)
  show ?thesis using m d by (auto simp: mag_def algebra_simps)
next
  case False
  have "c mod 2 ^ F < 2 ^ F" by simp
  then have cm: "Suc (c mod 2 ^ F) = 2 ^ F" using False by linarith
  then have m: "Suc c mod 2 ^ F = 0" by (simp add: mod_Suc)
  have d: "Suc c div 2 ^ F = Suc (c div 2 ^ F)" using m by (simp add: div_Suc)
  show ?thesis
  proof (cases "c div 2 ^ F = 0")
    case True
    then have "c = c mod 2 ^ F" using div_mult_mod_eq[of c "2 ^ F"] by simp
    then show ?thesis using True m d cm by (simp add: mag_def)
  next
    case False
    then obtain e where e: "c div 2 ^ F = Suc e" by (cases "c div 2 ^ F") auto
    have "2 ^ e * Suc (c mod 2 ^ F) = 2 ^ e * 2 ^ F" using cm by simp
    then show ?thesis using e m d by (simp add: mag_def algebra_simps)
  qed
qed

lemma mag_strict_mono: "a < b \<Longrightarrow> mag F a < mag F b"
  by (induction rule: strict_inc_induct) (auto simp: mag_Suc intro: less_trans)

lemma mag_mono: "a \<le> b \<Longrightarrow> mag F a \<le> mag F b"
  using mag_strict_mono by (metis le_less)

lemma mag_less_iff [simp]: "mag F a < mag F b \<longleftrightarrow> a < b"
  by (meson mag_mono mag_strict_mono not_less)

lemma mag_le_iff [simp]: "mag F a \<le> mag F b \<longleftrightarrow> a \<le> b"
  by (meson mag_less_iff not_less)

lemma mag_eq_iff [simp]: "mag F a = mag F b \<longleftrightarrow> a = b"
  by (metis mag_less_iff nat_neq_iff)

lemma mag_eq_0_iff [simp]: "mag F c = 0 \<longleftrightarrow> c = 0"
  by (metis mag_0 mag_eq_iff)

text \<open>Every integer with a significand of at most \<open>F + 1\<close> bits is a magnitude.\<close>

lemma mag_represents: "a < 2 ^ (F + 1) \<Longrightarrow> \<exists>c. mag F c = a * 2 ^ s \<and> c < (s + 2) * 2 ^ F"
proof (induction s arbitrary: a)
  case 0
  have "mag F a = a"
  proof (cases "a < 2 ^ F")
    case False
    then have "a = 2 ^ F + (a - 2 ^ F)" "a - 2 ^ F < 2 ^ F" using 0 by auto
    then have "a div 2 ^ F = 1" "a mod 2 ^ F = a - 2 ^ F"
      by (metis div_add_self1 div_less power_not_zero zero_neq_numeral add_0 One_nat_def plus_1_eq_Suc,
          metis mod_add_self1 mod_less)
    then show ?thesis using False by (simp add: mag_def)
  qed (simp add: mag_def)
  then show ?case using 0 by (auto intro!: exI[of _ a])
next
  case (Suc s)
  show ?case
  proof (cases "a < 2 ^ F")
    case True
    then obtain c where "mag F c = (2 * a) * 2 ^ s" "c < (s + 2) * 2 ^ F"
      using Suc.IH[of "2 * a"] by auto
    then show ?thesis by (auto intro!: exI[of _ c] simp: algebra_simps)
  next
    case False
    define f where "f = a - 2 ^ F"
    have f: "a = 2 ^ F + f" "f < 2 ^ F" using False Suc.prems by (auto simp: f_def)
    have "(k * 2 ^ F + f) div 2 ^ F = k" "(k * 2 ^ F + f) mod 2 ^ F = f" for k
      using f(2) by simp_all
    then have d: "((s + 2) * 2 ^ F + f) div 2 ^ F = s + 2" and m: "((s + 2) * 2 ^ F + f) mod 2 ^ F = f"
      by blast+
    have "mag F ((s + 2) * 2 ^ F + f) = a * 2 ^ Suc s" using d m f(1) by (simp add: mag_def)
    then show ?thesis using f(2) by (auto intro!: exI[of _ "(s + 2) * 2 ^ F + f"])
  qed
qed

section \<open>Rounding to nearest, ties to even\<close>

text \<open>
  A non-negative exact value \<open>q\<close> is given by two tests on integers, \<open>2 q < m\<close> and
  \<open>2 q = m\<close>. The rounded code is the first one whose upper midpoint lies above \<open>q\<close>, or at
  \<open>q\<close> when the code is even; the code of infinity takes everything beyond the last
  midpoint.
\<close>

definition takes :: "nat \<Rightarrow> nat \<Rightarrow> (nat \<Rightarrow> bool) \<Rightarrow> (nat \<Rightarrow> bool) \<Rightarrow> nat \<Rightarrow> bool" where
  "takes F ic lt eq c \<longleftrightarrow>
     ic \<le> c \<or> lt (mag F c + mag F (Suc c)) \<or> (eq (mag F c + mag F (Suc c)) \<and> even c)"

definition round_code :: "nat \<Rightarrow> nat \<Rightarrow> (nat \<Rightarrow> bool) \<Rightarrow> (nat \<Rightarrow> bool) \<Rightarrow> nat" where
  "round_code F ic lt eq = bsearch (takes F ic lt eq) 0 ic"

text \<open>Rounding of the ratio \<open>n / d\<close> and of the square root of \<open>n\<close>.\<close>

definition round_ratio :: "nat \<Rightarrow> nat \<Rightarrow> nat \<Rightarrow> nat \<Rightarrow> nat" where
  "round_ratio F ic n d = round_code F ic (\<lambda>m. 2 * n < m * d) (\<lambda>m. 2 * n = m * d)"

definition round_root :: "nat \<Rightarrow> nat \<Rightarrow> nat \<Rightarrow> nat" where
  "round_root F ic n = round_code F ic (\<lambda>m. 4 * n < m * m) (\<lambda>m. 4 * n = m * m)"

definition cut :: "(nat \<Rightarrow> bool) \<Rightarrow> (nat \<Rightarrow> bool) \<Rightarrow> bool" where
  "cut lt eq \<longleftrightarrow> (\<forall>m m'. m < m' \<longrightarrow> lt m \<or> eq m \<longrightarrow> lt m')"

lemma midpoint_less: "c < c' \<Longrightarrow> mag F c + mag F (Suc c) < mag F c' + mag F (Suc c')"
  by (meson Suc_less_eq add_strict_mono mag_strict_mono)

lemma takes_rising:
  assumes "cut lt eq"
  shows "rising (takes F ic lt eq) 0 ic"
  unfolding rising_def
proof (intro allI impI)
  fix a b assume ab: "a \<le> b" and t: "takes F ic lt eq a"
  show "takes F ic lt eq b"
  proof (cases "a = b")
    case False
    then have "mag F a + mag F (Suc a) < mag F b + mag F (Suc b)" using ab midpoint_less by simp
    then show ?thesis using t assms ab unfolding takes_def cut_def by (meson le_trans)
  qed (use t in simp)
qed

lemma round_code_le_iff:
  assumes "cut lt eq" and "c \<le> ic"
  shows "round_code F ic lt eq \<le> c \<longleftrightarrow> takes F ic lt eq c"
  unfolding round_code_def
  by (rule bsearch_le_iff) (use assms takes_rising in \<open>auto simp: takes_def\<close>)

lemma round_code_le_inf: "round_code F ic lt eq \<le> ic"
  unfolding round_code_def using bsearch_bounds by simp

lemma cut_ratio: "0 < d \<Longrightarrow> cut (\<lambda>m. 2 * n < m * d) (\<lambda>m. 2 * n = m * d)"
  unfolding cut_def by (metis (no_types, lifting) less_trans mult_less_mono1)

lemma cut_root: "cut (\<lambda>m. 4 * n < m * m) (\<lambda>m. 4 * n = m * m)"
  unfolding cut_def by (metis (no_types, lifting) less_trans mult_strict_mono' zero_le)

lemma round_ratio_le_inf: "round_ratio F ic n d \<le> ic"
  by (simp add: round_ratio_def round_code_le_inf)

lemma round_root_le_inf: "round_root F ic n \<le> ic"
  by (simp add: round_root_def round_code_le_inf)

lemma round_ratio_mono:
  assumes "0 < d" and "0 < d'" and "n * d' \<le> n' * d"
  shows "round_ratio F ic n d \<le> round_ratio F ic n' d'"
proof -
  let ?c = "round_ratio F ic n' d'"
  have c: "?c \<le> ic" by (rule round_ratio_le_inf)
  have key: "2 * n < m * d \<or> (2 * n = m * d \<and> m * d' = 2 * n')" if "2 * n' < m * d' \<or> 2 * n' = m * d'" for m
  proof -
    have "2 * n * d' \<le> 2 * n' * d" using assms(3) by simp
    also have "\<dots> \<le> m * d' * d" using that by (auto intro: mult_right_mono)
    finally have le: "2 * n * d' \<le> m * d * d'" by (simp add: ac_simps)
    show ?thesis
    proof (cases "2 * n < m * d")
      case False
      then have "m * d * d' \<le> 2 * n * d'" by simp
      then have "2 * n * d' = m * d * d'" using le by (metis le_antisym)
      then have eq: "2 * n = m * d" using assms(2) by (metis mult_right_cancel not_gr_zero)
      moreover have "m * d' = 2 * n'"
      proof -
        have "m * d * d' \<le> 2 * n' * d" using assms(3) eq by (metis mult.assoc mult_le_mono2)
        then have "m * d' \<le> 2 * n'" using assms(1) by (metis mult.assoc mult.commute nat_mult_le_cancel1)
        then show ?thesis using that by auto
      qed
      ultimately show ?thesis by simp
    qed simp
  qed
  have t: "takes F ic (\<lambda>m. 2 * n' < m * d') (\<lambda>m. 2 * n' = m * d') ?c"
    using round_code_le_iff[OF cut_ratio[OF assms(2), of n'] c, of F] by (simp add: round_ratio_def)
  then have "takes F ic (\<lambda>m. 2 * n < m * d) (\<lambda>m. 2 * n = m * d) ?c"
    unfolding takes_def using key by (metis less_irrefl)
  then show ?thesis using round_code_le_iff[OF cut_ratio[OF assms(1), of n] c, of F] by (simp add: round_ratio_def)
qed

lemma round_root_mono:
  assumes "n \<le> n'"
  shows "round_root F ic n \<le> round_root F ic n'"
proof -
  let ?c = "round_root F ic n'"
  have c: "?c \<le> ic" by (rule round_root_le_inf)
  have t: "takes F ic (\<lambda>m. 4 * n' < m * m) (\<lambda>m. 4 * n' = m * m) ?c"
    using round_code_le_iff[OF cut_root[of n'] c, of F] by (simp add: round_root_def)
  then have "takes F ic (\<lambda>m. 4 * n < m * m) (\<lambda>m. 4 * n = m * m) ?c"
    unfolding takes_def using assms
    by (metis (no_types, lifting) le_less_trans le_neq_implies_less mult_le_mono2)
  then show ?thesis using round_code_le_iff[OF cut_root[of n] c, of F] by (simp add: round_root_def)
qed

text \<open>A representable value rounds to itself.\<close>

lemma round_ratio_exact:
  assumes "c \<le> ic" and "0 < d" and "n = mag F c * d"
  shows "round_ratio F ic n d = c"
proof (rule antisym)
  have lt: "mag F c < mag F (Suc c)" by simp
  have "2 * n < (mag F c + mag F (Suc c)) * d" using assms(2,3) lt by (simp add: algebra_simps)
  then show "round_ratio F ic n d \<le> c"
    using round_code_le_iff[OF cut_ratio[OF assms(2)] assms(1)] by (simp add: round_ratio_def takes_def)
next
  show "c \<le> round_ratio F ic n d"
  proof (rule ccontr)
    assume "\<not> c \<le> round_ratio F ic n d"
    then obtain b where b: "c = Suc b" "round_ratio F ic n d \<le> b"
      by (metis Suc_le_D not_less_eq_eq)
    then have "takes F ic (\<lambda>m. 2 * n < m * d) (\<lambda>m. 2 * n = m * d) b"
      using round_code_le_iff[OF cut_ratio[OF assms(2)], of b ic] assms(1) by (simp add: round_ratio_def)
    moreover have "(mag F b + mag F (Suc b)) * d < 2 * n"
      using assms(2,3) b(1) mag_strict_mono[of b "Suc b" F] by (simp add: algebra_simps)
    ultimately show False using b(1) assms(1) unfolding takes_def by auto
  qed
qed

subsection \<open>Evaluation\<close>

text \<open>
  The rounded code of a ratio is the code just below it or the next one; the code below is
  read off the binary logarithm of the quotient. This is the form the simplifier evaluates.
\<close>

fun log2 :: "nat \<Rightarrow> nat" where
  "log2 n = (if n < 2 then 0 else if n < 0x10000 then log2 (n div 2) + 1 else log2 (n div 0x10000) + 16)"

declare log2.simps [simp del]

lemma log2_bounds: "0 < n \<Longrightarrow> 2 ^ log2 n \<le> n \<and> n < 2 * 2 ^ log2 n"
proof (induction n rule: log2.induct)
  case (1 n)
  have step: "2 ^ (k + j) \<le> n \<and> n < 2 * 2 ^ (k + j)"
    if "2 ^ k \<le> n div 2 ^ j" "n div 2 ^ j < 2 * 2 ^ k" for k j
  proof -
    have "2 ^ k * 2 ^ j \<le> n" using that(1) by (simp add: less_eq_div_iff_mult_less_eq)
    moreover have "n < 2 * 2 ^ k * 2 ^ j" using that(2) by (simp add: div_less_iff_less_mult)
    ultimately show ?thesis by (simp add: power_add)
  qed
  consider "n < 2" | "2 \<le> n" "n < 0x10000" | "0x10000 \<le> n" by linarith
  then show ?case
  proof cases
    case 1
    then show ?thesis using "1.prems" by (simp add: log2.simps[of n])
  next
    case 2
    then show ?thesis using "1.IH"(1) step[of "log2 (n div 2)" 1] by (simp add: log2.simps[of n])
  next
    case 3
    then show ?thesis using "1.IH"(2) step[of "log2 (n div 0x10000)" 16] by (simp add: log2.simps[of n])
  qed
qed

definition code_below :: "nat \<Rightarrow> nat \<Rightarrow> nat" where
  "code_below F q =
     (if q < 2 ^ F then q
      else (let s = log2 q - F in (s + 1) * 2 ^ F + (q div 2 ^ s - 2 ^ F)))"

lemma code_below_bounds: "mag F (code_below F q) \<le> q \<and> q < mag F (Suc (code_below F q))"
proof (cases "q < 2 ^ F")
  case True
  then show ?thesis by (simp add: code_below_def mag_Suc) (simp add: mag_def)
next
  case False
  then have q: "2 ^ F \<le> q" by simp
  then have "0 < q" by (metis gr0I not_less power_not_zero zero_less_power zero_neq_numeral le_zero_eq)
  then have l: "2 ^ log2 q \<le> q" "q < 2 * 2 ^ log2 q" using log2_bounds by auto
  have "2 ^ F < (2 :: nat) ^ Suc (log2 q)" using q l by simp
  then have "F < Suc (log2 q)" by (rule power_less_imp_less_exp[rotated]) simp
  then have F: "F \<le> log2 q" by simp
  define s where "s = log2 q - F"
  have ls: "2 ^ log2 q = 2 ^ F * (2 :: nat) ^ s" using F by (simp add: s_def flip: power_add)
  define f where "f = q div 2 ^ s - 2 ^ F"
  have ge: "2 ^ F \<le> q div 2 ^ s" using l(1) ls by (simp add: less_eq_div_iff_mult_less_eq)
  have "q div 2 ^ s < 2 * 2 ^ F" using l(2) ls by (simp add: div_less_iff_less_mult)
  then have f: "q div 2 ^ s = 2 ^ F + f" "f < 2 ^ F" using ge by (auto simp: f_def)
  have c: "code_below F q = (s + 1) * 2 ^ F + f" using False by (simp add: code_below_def s_def f_def Let_def)
  have "(k * 2 ^ F + f) div 2 ^ F = k" "(k * 2 ^ F + f) mod 2 ^ F = f" for k using f(2) by simp_all
  then have d: "code_below F q div 2 ^ F = s + 1" and m: "code_below F q mod 2 ^ F = f"
    unfolding c by blast+
  have mg: "mag F (code_below F q) = (q div 2 ^ s) * 2 ^ s"
    using d m f(1) by (simp add: mag_def)
  have "q mod 2 ^ s < 2 ^ s" by simp
  then have "q < (q div 2 ^ s) * 2 ^ s + 2 ^ s" using div_mult_mod_eq[of q "2 ^ s"] by linarith
  then show ?thesis using d mg by (simp add: mag_Suc)
qed

lemma round_ratio_eval:
  assumes "0 < d" and "code_below F (n div d) < ic"
  shows "round_ratio F ic n d =
    (let c = code_below F (n div d); m = (mag F c + mag F (Suc c)) * d in
     if 2 * n < m \<or> (2 * n = m \<and> even c) then c else Suc c)"
proof -
  define c where "c = code_below F (n div d)"
  have b: "mag F c \<le> n div d" "n div d < mag F (Suc c)" using code_below_bounds[of F "n div d"] by (auto simp: c_def)
  have lo: "mag F c * d \<le> n" using b(1) assms(1) by (simp add: less_eq_div_iff_mult_less_eq)
  have hi: "n < mag F (Suc c) * d" using b(2) assms(1) by (simp add: div_less_iff_less_mult)
  have iff: "round_ratio F ic n d \<le> k \<longleftrightarrow> takes F ic (\<lambda>m. 2 * n < m * d) (\<lambda>m. 2 * n = m * d) k"
    if "k \<le> ic" for k
    using round_code_le_iff[OF cut_ratio[OF assms(1)] that] by (simp add: round_ratio_def)
  have upper: "round_ratio F ic n d \<le> Suc c"
  proof -
    have "mag F (Suc c) * d < mag F (Suc (Suc c)) * d" using assms(1) by simp
    then have "2 * n < (mag F (Suc c) + mag F (Suc (Suc c))) * d" using hi unfolding add_mult_distrib by linarith
    then show ?thesis using iff[of "Suc c"] assms(2) by (simp add: takes_def c_def)
  qed
  have lower: "c \<le> round_ratio F ic n d"
  proof (rule ccontr)
    assume "\<not> c \<le> round_ratio F ic n d"
    then obtain k where k: "c = Suc k" "round_ratio F ic n d \<le> k" by (metis Suc_le_D not_less_eq_eq)
    have "mag F k * d < mag F c * d" using k(1) assms(1) by simp
    then have "(mag F k + mag F (Suc k)) * d < 2 * n" using lo unfolding k(1) add_mult_distrib by linarith
    then show False using iff[of k] k assms(2) by (auto simp: takes_def c_def)
  qed
  have "round_ratio F ic n d \<le> c \<longleftrightarrow> 2 * n < (mag F c + mag F (Suc c)) * d
      \<or> (2 * n = (mag F c + mag F (Suc c)) * d \<and> even c)"
    using iff[of c] assms(2) by (simp add: takes_def c_def)
  then show ?thesis using upper lower unfolding Let_def c_def[symmetric] by auto
qed

section \<open>f32\<close>

datatype f32 = F32 (to_bits: u32)

definition F32_INF_CODE :: nat where "F32_INF_CODE = 255 * 2 ^ 23"

definition sign :: "f32 \<Rightarrow> bool" where
  "sign x \<longleftrightarrow> 0x80000000 \<le> unat (to_bits x)"

definition code :: "f32 \<Rightarrow> nat" where
  "code x = unat (to_bits x) mod 0x80000000"

definition mk_f32 :: "bool \<Rightarrow> nat \<Rightarrow> f32" where
  "mk_f32 s c = F32 (word_of_nat (if s then 0x80000000 + c else c))"

definition f32_zero :: f32 where "f32_zero = F32 0"
definition f32_one :: f32 where "f32_one = F32 0x3F800000"
definition f32_two :: f32 where "f32_two = F32 0x40000000"
definition f32_INFINITY :: f32 where "f32_INFINITY = F32 0x7F800000"
definition f32_MAX :: f32 where "f32_MAX = F32 0x7F7FFFFF"
definition f32_NAN :: f32 where "f32_NAN = F32 0x7FC00000"
definition f32_EPSILON :: f32 where "f32_EPSILON = F32 0x34000000"

definition is_nan :: "f32 \<Rightarrow> bool" where
  "is_nan x \<longleftrightarrow> F32_INF_CODE < code x"

definition is_inf :: "f32 \<Rightarrow> bool" where
  "is_inf x \<longleftrightarrow> code x = F32_INF_CODE"

definition is_finite :: "f32 \<Rightarrow> bool" where
  "is_finite x \<longleftrightarrow> code x < F32_INF_CODE"

text \<open>The exact value of a finite number in units of \<open>2^-149\<close>.\<close>

definition f32_val :: "f32 \<Rightarrow> int" where
  "f32_val x = (if sign x then - int (mag 23 (code x)) else int (mag 23 (code x)))"

text \<open>Signed codes order the non-NaN numbers exactly as their values do.\<close>

definition scode :: "f32 \<Rightarrow> int" where
  "scode x = (if sign x then - int (code x) else int (code x))"

text \<open>The IEEE comparisons: false on NaN, and the two zeros are equal.\<close>

definition f32_lt :: "f32 \<Rightarrow> f32 \<Rightarrow> bool" where
  "f32_lt x y \<longleftrightarrow> \<not> is_nan x \<and> \<not> is_nan y \<and> scode x < scode y"

definition f32_le :: "f32 \<Rightarrow> f32 \<Rightarrow> bool" where
  "f32_le x y \<longleftrightarrow> \<not> is_nan x \<and> \<not> is_nan y \<and> scode x \<le> scode y"

definition f32_eq :: "f32 \<Rightarrow> f32 \<Rightarrow> bool" where
  "f32_eq x y \<longleftrightarrow> \<not> is_nan x \<and> \<not> is_nan y \<and> scode x = scode y"

text \<open>The key of \<open>total_cmp\<close>: all bits but the sign are flipped on negative patterns.\<close>

definition total_key :: "f32 \<Rightarrow> int" where
  "total_key x = (if sign x then - int (code x) - 1 else int (code x))"

subsection \<open>Fields and patterns\<close>

lemma code_less [simp]: "code x < 0x80000000"
  by (simp add: code_def)

lemma bits_less: "unat (w :: u32) < 0x100000000"
  using unsigned_less[of w] by simp

lemma bits_eq: "unat (to_bits x) = (if sign x then 0x80000000 + code x else code x)"
  using bits_less[of "to_bits x"] by (auto simp: sign_def code_def le_mod_geq mod_if)

lemma f32_eqI: "sign x = sign y \<Longrightarrow> code x = code y \<Longrightarrow> x = y"
  by (metis bits_eq f32.expand unsigned_word_eqI)

lemma mk_f32_fields [simp]:
  assumes "c < 0x80000000"
  shows "code (mk_f32 s c) = c" and "sign (mk_f32 s c) = s"
proof -
  have u: "unat (to_bits (mk_f32 s c)) = (if s then 0x80000000 + c else c)"
    using assms by (simp add: mk_f32_def unat_of_nat)
  show "code (mk_f32 s c) = c" using assms by (simp add: code_def u)
  show "sign (mk_f32 s c) = s" using assms by (simp add: sign_def u)
qed

lemma mk_f32_sign_code [simp]: "mk_f32 (sign x) (code x) = x"
  by (rule f32_eqI) simp_all

lemma inf_code_less [simp]: "F32_INF_CODE < 0x80000000"
  by (simp add: F32_INF_CODE_def)

lemma mk_f32_le_inf: "c \<le> F32_INF_CODE \<Longrightarrow> c < 0x80000000"
  using inf_code_less by linarith

lemma const_fields [simp]:
  "sign f32_zero = False" "code f32_zero = 0"
  "sign f32_INFINITY = False" "code f32_INFINITY = F32_INF_CODE"
  "sign f32_MAX = False" "code f32_MAX = F32_INF_CODE - 1"
  "sign f32_NAN = False" "code f32_NAN = 0x7FC00000"
  "sign f32_one = False" "code f32_one = 0x3F800000"
  by (simp_all add: sign_def code_def f32_zero_def f32_INFINITY_def f32_MAX_def
      f32_NAN_def f32_one_def F32_INF_CODE_def)

lemma class_cases: "is_nan x \<or> is_inf x \<or> is_finite x"
  by (auto simp: is_nan_def is_inf_def is_finite_def)

lemma finite_not_nan [simp]: "is_finite x \<Longrightarrow> \<not> is_nan x"
  by (simp add: is_finite_def is_nan_def)

lemma is_nan_NAN [simp]: "is_nan f32_NAN"
  by (simp add: is_nan_def F32_INF_CODE_def)

lemma finite_zero [simp]: "is_finite f32_zero"
  by (simp add: is_finite_def F32_INF_CODE_def)

lemma f32_val_le_iff: "f32_val x \<le> f32_val y \<longleftrightarrow> scode x \<le> scode y"
proof -
  have neg: "int a \<le> - int b \<longleftrightarrow> a = 0 \<and> b = 0" for a b by linarith
  show ?thesis by (auto simp: f32_val_def scode_def neg)
qed

lemma f32_val_less_iff: "f32_val x < f32_val y \<longleftrightarrow> scode x < scode y"
  using f32_val_le_iff[of y x] by linarith

subsection \<open>The total order\<close>

lemma total_key_eq_iff [simp]: "total_key x = total_key y \<longleftrightarrow> x = y"
  by (auto simp: total_key_def split: if_splits intro: f32_eqI)

lemma scode_total_key: "scode x < scode y \<Longrightarrow> total_key x < total_key y"
  by (auto simp: scode_def total_key_def split: if_splits)

text \<open>
  The order of the type is \<open>f32::total_cmp\<close>, so that the library's sorting and maxima on
  \<open>f32\<close> are the ones the source asks for with \<open>sort_by(|a, b| a.total_cmp(b))\<close>.
\<close>

instantiation f32 :: linorder
begin

definition less_eq_f32 :: "f32 \<Rightarrow> f32 \<Rightarrow> bool" where
  "x \<le> y \<longleftrightarrow> total_key x \<le> total_key y"

definition less_f32 :: "f32 \<Rightarrow> f32 \<Rightarrow> bool" where
  "x < y \<longleftrightarrow> total_key x < total_key y"

instance
  by standard (auto simp: less_eq_f32_def less_f32_def)

end

lemma f32_lt_less: "f32_lt x y \<Longrightarrow> x < y"
  by (simp add: f32_lt_def less_f32_def scode_total_key)

lemma less_not_f32_lt: "x \<le> y \<Longrightarrow> \<not> f32_lt y x"
  by (meson f32_lt_less leD)

subsection \<open>Arithmetic\<close>

definition f32_neg :: "f32 \<Rightarrow> f32" where
  "f32_neg x = mk_f32 (\<not> sign x) (code x)"

definition f32_add :: "f32 \<Rightarrow> f32 \<Rightarrow> f32" where
  "f32_add x y =
     (if is_nan x \<or> is_nan y then f32_NAN
      else if is_inf x then (if is_inf y \<and> sign x \<noteq> sign y then f32_NAN else x)
      else if is_inf y then y
      else (let n = f32_val x + f32_val y in
            if n = 0 then mk_f32 (sign x \<and> sign y) 0
            else mk_f32 (n < 0) (round_ratio 23 F32_INF_CODE (nat \<bar>n\<bar>) 1)))"

definition f32_sub :: "f32 \<Rightarrow> f32 \<Rightarrow> f32" where
  "f32_sub x y = f32_add x (f32_neg y)"

definition f32_mul :: "f32 \<Rightarrow> f32 \<Rightarrow> f32" where
  "f32_mul x y =
     (let s = (sign x \<noteq> sign y) in
      if is_nan x \<or> is_nan y then f32_NAN
      else if is_inf x \<or> is_inf y then
        (if code x = 0 \<or> code y = 0 then f32_NAN else mk_f32 s F32_INF_CODE)
      else mk_f32 s (round_ratio 23 F32_INF_CODE (mag 23 (code x) * mag 23 (code y)) (2 ^ 149)))"

definition f32_div :: "f32 \<Rightarrow> f32 \<Rightarrow> f32" where
  "f32_div x y =
     (let s = (sign x \<noteq> sign y) in
      if is_nan x \<or> is_nan y then f32_NAN
      else if is_inf x then (if is_inf y then f32_NAN else mk_f32 s F32_INF_CODE)
      else if is_inf y then mk_f32 s 0
      else if code y = 0 then (if code x = 0 then f32_NAN else mk_f32 s F32_INF_CODE)
      else mk_f32 s (round_ratio 23 F32_INF_CODE (mag 23 (code x) * 2 ^ 149) (mag 23 (code y))))"

definition f32_sqrt :: "f32 \<Rightarrow> f32" where
  "f32_sqrt x =
     (if is_nan x then f32_NAN
      else if code x = 0 then x
      else if sign x then f32_NAN
      else if is_inf x then x
      else mk_f32 False (round_root 23 F32_INF_CODE (mag 23 (code x) * 2 ^ 149)))"

text \<open>\<open>f32::max\<close> ignores a NaN operand.\<close>

definition f32_max :: "f32 \<Rightarrow> f32 \<Rightarrow> f32" where
  "f32_max x y = (if is_nan x then y else if is_nan y then x else if f32_lt x y then y else x)"

text \<open>\<open>n as f32\<close> for an unsigned integer.\<close>

definition f32_of_nat :: "nat \<Rightarrow> f32" where
  "f32_of_nat n = mk_f32 False (round_ratio 23 F32_INF_CODE (n * 2 ^ 149) 1)"

lemma round_f32_less [simp]:
  "round_ratio 23 F32_INF_CODE n d < 0x80000000" "round_root 23 F32_INF_CODE n < 0x80000000"
  by (simp_all add: mk_f32_le_inf round_ratio_le_inf round_root_le_inf)

lemma neg_fields [simp]: "sign (f32_neg x) = (\<not> sign x)" "code (f32_neg x) = code x"
  by (simp_all add: f32_neg_def)

lemma neg_neg [simp]: "f32_neg (f32_neg x) = x"
  by (rule f32_eqI) simp_all

lemma neg_class [simp]:
  "is_nan (f32_neg x) = is_nan x" "is_finite (f32_neg x) = is_finite x" "is_inf (f32_neg x) = is_inf x"
  by (simp_all add: is_nan_def is_finite_def is_inf_def)

lemma scode_neg [simp]: "scode (f32_neg x) = - scode x"
  by (simp add: scode_def)

lemma f32_val_neg [simp]: "f32_val (f32_neg x) = - f32_val x"
  by (simp add: f32_val_def)

subsection \<open>Sums of squares only grow\<close>

text \<open>
  A value that can occur in a sum of squares is NaN or has its sign bit clear. Its level is
  its magnitude code with all NaNs on top; addition on such values is monotone in the level
  and never below its operands.
\<close>

definition npos :: "f32 \<Rightarrow> bool" where
  "npos x \<longleftrightarrow> is_nan x \<or> \<not> sign x"

definition lev :: "f32 \<Rightarrow> nat" where
  "lev x = min (code x) (Suc F32_INF_CODE)"

lemma lev_nan_iff: "is_nan x \<longleftrightarrow> lev x = Suc F32_INF_CODE"
  by (auto simp: is_nan_def lev_def)

lemma lev_not_nan: "\<not> is_nan x \<Longrightarrow> lev x = code x"
  by (auto simp: is_nan_def lev_def)

lemma npos_zero [simp]: "npos f32_zero"
  by (simp add: npos_def)

lemma npos_NAN [simp]: "npos f32_NAN"
  by (simp add: npos_def)

lemma not_nan_mk [simp]: "c \<le> F32_INF_CODE \<Longrightarrow> \<not> is_nan (mk_f32 s c)"
  by (simp add: is_nan_def mk_f32_le_inf)

lemma npos_mk [simp]: "c \<le> F32_INF_CODE \<Longrightarrow> npos (mk_f32 s c) \<longleftrightarrow> \<not> s"
  by (simp add: npos_def mk_f32_le_inf)

lemma round_ratio_0: "0 < d \<Longrightarrow> round_ratio F ic 0 d = 0"
  by (rule round_ratio_exact) auto

lemma f32_add_npos_eq:
  assumes "npos x" "npos y" "\<not> is_nan x" "\<not> is_nan y"
  shows "f32_add x y = mk_f32 False (if is_inf x \<or> is_inf y then F32_INF_CODE
           else round_ratio 23 F32_INF_CODE (mag 23 (code x) + mag 23 (code y)) 1)"
proof -
  have s: "\<not> sign x" "\<not> sign y" using assms by (auto simp: npos_def)
  have x: "x = mk_f32 False F32_INF_CODE" if "is_inf x"
    using that s by (intro f32_eqI) (simp_all add: is_inf_def)
  have y: "y = mk_f32 False F32_INF_CODE" if "is_inf y"
    using that s by (intro f32_eqI) (simp_all add: is_inf_def)
  have n: "f32_val x + f32_val y = int (mag 23 (code x) + mag 23 (code y))"
    using s by (simp add: f32_val_def)
  show ?thesis
  proof (cases "is_inf x \<or> is_inf y")
    case True
    then show ?thesis using assms s x y by (auto simp: f32_add_def)
  next
    case False
    then show ?thesis using assms s unfolding f32_add_def n Let_def
      by (simp add: round_ratio_0 nat_int_add del: of_nat_add)
  qed
qed

lemma npos_add:
  assumes "npos x" "npos y"
  shows "npos (f32_add x y)"
proof (cases "is_nan x \<or> is_nan y")
  case True
  then show ?thesis by (auto simp: f32_add_def)
next
  case False
  then show ?thesis using f32_add_npos_eq[OF assms] by (simp add: round_ratio_le_inf)
qed

definition lev_sum :: "nat \<Rightarrow> nat \<Rightarrow> nat" where
  "lev_sum a b =
     (if F32_INF_CODE \<le> max a b then max a b
      else round_ratio 23 F32_INF_CODE (mag 23 a + mag 23 b) 1)"

lemma lev_cases:
  "is_nan x \<and> lev x = Suc F32_INF_CODE \<or> \<not> is_nan x \<and> is_inf x \<and> lev x = F32_INF_CODE
   \<or> \<not> is_nan x \<and> \<not> is_inf x \<and> lev x = code x \<and> code x < F32_INF_CODE"
  by (auto simp: is_nan_def is_inf_def lev_def)

lemma lev_add:
  assumes "npos x" "npos y"
  shows "lev (f32_add x y) = lev_sum (lev x) (lev y)"
proof (cases "is_nan x \<or> is_nan y")
  case True
  then have "lev (f32_add x y) = Suc F32_INF_CODE"
    by (simp add: f32_add_def lev_def F32_INF_CODE_def)
  moreover have "max (lev x) (lev y) = Suc F32_INF_CODE"
    using True by (auto simp: lev_def is_nan_def)
  ultimately show ?thesis by (simp add: lev_sum_def)
next
  case False
  then have nn: "\<not> is_nan x" "\<not> is_nan y" by auto
  show ?thesis
  proof (cases "is_inf x \<or> is_inf y")
    case True
    then have "max (lev x) (lev y) = F32_INF_CODE"
      using nn by (auto simp: lev_not_nan is_inf_def is_nan_def)
    then show ?thesis using True f32_add_npos_eq[OF assms nn] by (simp add: lev_sum_def lev_not_nan)
  next
    case False
    then have "lev x < F32_INF_CODE" "lev y < F32_INF_CODE"
      using nn by (auto simp: lev_not_nan is_inf_def is_nan_def)
    then show ?thesis using False f32_add_npos_eq[OF assms nn] nn
      by (simp add: lev_sum_def lev_not_nan round_ratio_le_inf le_max_iff_disj)
  qed
qed

lemma lev_sum_mono:
  assumes "a \<le> a'" "b \<le> b'"
  shows "lev_sum a b \<le> lev_sum a' b'"
proof -
  have r: "round_ratio 23 F32_INF_CODE (mag 23 a + mag 23 b) 1
      \<le> round_ratio 23 F32_INF_CODE (mag 23 a' + mag 23 b') 1"
    using assms by (intro round_ratio_mono) (simp_all add: add_mono)
  have m: "max a b \<le> max a' b'" using assms by (rule max.mono)
  have le: "round_ratio 23 F32_INF_CODE (mag 23 a + mag 23 b) 1 \<le> F32_INF_CODE"
    by (rule round_ratio_le_inf)
  have aux: "n \<le> n' \<Longrightarrow> k \<le> k' \<Longrightarrow> k \<le> i \<Longrightarrow> (if i \<le> n then n else k) \<le> (if i \<le> n' then n' else k')"
    for n n' k k' i :: nat by auto
  show ?thesis unfolding lev_sum_def by (rule aux[OF m r le])
qed

lemma lev_sum_ge: "a \<le> lev_sum a b"
proof (cases "F32_INF_CODE \<le> max a b")
  case False
  then have "round_ratio 23 F32_INF_CODE (mag 23 a) 1 = a" by (intro round_ratio_exact) auto
  moreover have "round_ratio 23 F32_INF_CODE (mag 23 a) 1
      \<le> round_ratio 23 F32_INF_CODE (mag 23 a + mag 23 b) 1"
    by (intro round_ratio_mono) auto
  ultimately show ?thesis using False by (simp add: lev_sum_def)
qed (simp add: lev_sum_def)

lemma lev_add_mono:
  assumes "npos x" "npos y" "npos x'" "npos y'" "lev x \<le> lev x'" "lev y \<le> lev y'"
  shows "lev (f32_add x y) \<le> lev (f32_add x' y')"
  using assms by (simp add: lev_add lev_sum_mono)

lemma lev_add_ge: "npos x \<Longrightarrow> npos y \<Longrightarrow> lev x \<le> lev (f32_add x y)"
  by (simp add: lev_add lev_sum_ge)

lemma npos_square: "npos (f32_mul x x)"
  by (auto simp: f32_mul_def Let_def round_ratio_le_inf)

lemma f32_lt_lev:
  assumes "f32_lt t x" "npos x" "npos y" "lev x \<le> lev y" "\<not> is_nan y"
  shows "f32_lt t y"
  using assms by (auto simp: f32_lt_def scode_def npos_def lev_not_nan split: if_splits)

subsection \<open>No NaN out of finite operands\<close>

lemma f32_add_finite_not_nan: "is_finite x \<Longrightarrow> is_finite y \<Longrightarrow> \<not> is_nan (f32_add x y)"
  by (auto simp: f32_add_def Let_def is_inf_def is_finite_def round_ratio_le_inf)

lemma f32_sub_finite_not_nan: "is_finite x \<Longrightarrow> is_finite y \<Longrightarrow> \<not> is_nan (f32_sub x y)"
  by (simp add: f32_sub_def f32_add_finite_not_nan)

lemma f32_square_not_nan: "\<not> is_nan x \<Longrightarrow> \<not> is_nan (f32_mul x x)"
  by (auto simp: f32_mul_def Let_def is_inf_def round_ratio_le_inf F32_INF_CODE_def)

lemma f32_add_npos_not_nan:
  "npos x \<Longrightarrow> npos y \<Longrightarrow> \<not> is_nan x \<Longrightarrow> \<not> is_nan y \<Longrightarrow> \<not> is_nan (f32_add x y)"
  by (simp add: f32_add_npos_eq round_ratio_le_inf)

subsection \<open>Square root\<close>

lemma sqrt_mono:
  assumes "\<not> sign x" "\<not> sign y" "\<not> is_nan x" "\<not> is_nan y" "code x \<le> code y"
  shows "\<not> sign (f32_sqrt x) \<and> \<not> sign (f32_sqrt y) \<and> \<not> is_nan (f32_sqrt x) \<and> \<not> is_nan (f32_sqrt y)
    \<and> code (f32_sqrt x) \<le> code (f32_sqrt y)"
proof -
  have r: "round_root 23 F32_INF_CODE (mag 23 (code x) * 2 ^ 149)
      \<le> round_root 23 F32_INF_CODE (mag 23 (code y) * 2 ^ 149)"
    using assms(5) by (intro round_root_mono) simp
  have i: "code x < F32_INF_CODE" if "\<not> is_inf x" using that assms(3) by (auto simp: is_nan_def is_inf_def)
  have j: "code y = F32_INF_CODE" if "is_inf y" using that by (simp add: is_inf_def)
  have k: "is_inf x \<Longrightarrow> is_inf y" using assms(3-5) by (auto simp: is_nan_def is_inf_def)
  show ?thesis using assms r i j k by (auto simp: f32_sqrt_def round_root_le_inf)
qed

section \<open>f64 and the widening conversion\<close>

datatype f64 = F64 (f64_bits: u64)

definition F64_INF_CODE :: nat where "F64_INF_CODE = 2047 * 2 ^ 52"

definition f64_sign :: "f64 \<Rightarrow> bool" where
  "f64_sign x \<longleftrightarrow> 0x8000000000000000 \<le> unat (f64_bits x)"

definition f64_code :: "f64 \<Rightarrow> nat" where
  "f64_code x = unat (f64_bits x) mod 0x8000000000000000"

definition mk_f64 :: "bool \<Rightarrow> nat \<Rightarrow> f64" where
  "mk_f64 s c = F64 (word_of_nat (if s then 0x8000000000000000 + c else c))"

definition f64_is_nan :: "f64 \<Rightarrow> bool" where
  "f64_is_nan x \<longleftrightarrow> F64_INF_CODE < f64_code x"

definition f64_is_finite :: "f64 \<Rightarrow> bool" where
  "f64_is_finite x \<longleftrightarrow> f64_code x < F64_INF_CODE"

definition f64_scode :: "f64 \<Rightarrow> int" where
  "f64_scode x = (if f64_sign x then - int (f64_code x) else int (f64_code x))"

definition f64_lt :: "f64 \<Rightarrow> f64 \<Rightarrow> bool" where
  "f64_lt x y \<longleftrightarrow> \<not> f64_is_nan x \<and> \<not> f64_is_nan y \<and> f64_scode x < f64_scode y"

definition f64_le :: "f64 \<Rightarrow> f64 \<Rightarrow> bool" where
  "f64_le x y \<longleftrightarrow> \<not> f64_is_nan x \<and> \<not> f64_is_nan y \<and> f64_scode x \<le> f64_scode y"

definition f64_neg :: "f64 \<Rightarrow> f64" where
  "f64_neg x = mk_f64 (\<not> f64_sign x) (f64_code x)"

text \<open>\<open>f64::from(f32)\<close>: the value is kept; \<open>2^925\<close> is the ratio of the two units.\<close>

definition f64_from :: "f32 \<Rightarrow> f64" where
  "f64_from x =
     (if is_nan x then mk_f64 False 0x7FF8000000000000
      else if is_inf x then mk_f64 (sign x) F64_INF_CODE
      else mk_f64 (sign x) (round_ratio 52 F64_INF_CODE (mag 23 (code x) * 2 ^ 925) 1))"

lemma f64_code_less [simp]: "f64_code x < 0x8000000000000000"
  by (simp add: f64_code_def)

lemma mk_f64_fields [simp]:
  assumes "c < 0x8000000000000000"
  shows "f64_code (mk_f64 s c) = c" and "f64_sign (mk_f64 s c) = s"
proof -
  have u: "unat (f64_bits (mk_f64 s c)) = (if s then 0x8000000000000000 + c else c)"
    using assms by (simp add: mk_f64_def unat_of_nat)
  show "f64_code (mk_f64 s c) = c" using assms by (simp add: f64_code_def u)
  show "f64_sign (mk_f64 s c) = s" using assms by (simp add: f64_sign_def u)
qed

lemma f64_neg_fields [simp]:
  "f64_code (f64_neg x) = f64_code x" "f64_sign (f64_neg x) = (\<not> f64_sign x)"
  by (simp_all add: f64_neg_def)

lemma f64_neg_simps [simp]:
  "f64_scode (f64_neg x) = - f64_scode x" "f64_is_nan (f64_neg x) = f64_is_nan x"
  "f64_is_finite (f64_neg x) = f64_is_finite x"
  by (simp_all add: f64_scode_def f64_is_nan_def f64_is_finite_def)

text \<open>The exact code of a widened finite magnitude.\<close>

lemma widen_code: "c < F32_INF_CODE \<Longrightarrow> \<exists>w < F64_INF_CODE. mag 52 w = mag 23 c * 2 ^ 925"
proof -
  assume c: "c < F32_INF_CODE"
  define e where "e = c div 2 ^ 23"
  have e: "e < 255" using c by (simp add: e_def F32_INF_CODE_def div_less_iff_less_mult)
  obtain a s where as: "mag 23 c = a * 2 ^ s" "a < 2 ^ 24" "s \<le> 254"
  proof (cases "e = 0")
    case True
    then have "c < 2 ^ 23" by (simp add: e_def div_eq_0_iff)
    then show ?thesis using that[of c 0] True by (simp add: mag_def e_def)
  next
    case False
    have "2 ^ 23 + c mod 2 ^ 23 < (2 ^ 24 :: nat)" using mod_less_divisor[of "2 ^ 23" c] by simp
    then show ?thesis using that[of "2 ^ 23 + c mod 2 ^ 23" "e - 1"] False e by (simp add: mag_def e_def)
  qed
  have "a < 2 ^ (52 + 1)" using as(2) by simp
  from mag_represents[OF this, of "s + 925"]
  obtain w where w: "mag 52 w = a * 2 ^ (s + 925)" "w < (s + 925 + 2) * 2 ^ 52" by auto
  have "(s + 925 + 2) * 2 ^ 52 \<le> (2047 :: nat) * 2 ^ 52" using as(3) by (intro mult_le_mono1) simp
  then have "w < F64_INF_CODE" using w(2) unfolding F64_INF_CODE_def by linarith
  moreover have "mag 52 w = mag 23 c * 2 ^ 925" using w(1) as(1) by (simp only: power_add mult.assoc)
  ultimately show ?thesis by blast
qed

lemma f64_inf_less [simp]: "F64_INF_CODE < 0x8000000000000000"
  by (simp add: F64_INF_CODE_def)

lemma f64_from_finite:
  assumes "is_finite x"
  shows "f64_is_finite (f64_from x) \<and> f64_sign (f64_from x) = sign x
    \<and> mag 52 (f64_code (f64_from x)) = mag 23 (code x) * 2 ^ 925"
proof -
  obtain w where w: "w < F64_INF_CODE" "mag 52 w = mag 23 (code x) * 2 ^ 925"
    using widen_code[of "code x"] assms by (auto simp: is_finite_def)
  have "round_ratio 52 F64_INF_CODE (mag 23 (code x) * 2 ^ 925) 1 = w"
    using w by (intro round_ratio_exact) auto
  moreover have "\<not> is_inf x" using assms by (simp add: is_inf_def is_finite_def)
  moreover have "w < 0x8000000000000000" using w(1) f64_inf_less by linarith
  ultimately show ?thesis using w assms by (simp add: f64_from_def f64_is_finite_def)
qed

lemma f64_from_mono:
  assumes "is_finite x" "is_finite y"
  shows "f64_scode (f64_from x) \<le> f64_scode (f64_from y) \<longleftrightarrow> scode x \<le> scode y"
proof -
  have x: "f64_sign (f64_from x) = sign x" "mag 52 (f64_code (f64_from x)) = mag 23 (code x) * 2 ^ 925"
    using f64_from_finite[OF assms(1)] by auto
  have y: "f64_sign (f64_from y) = sign y" "mag 52 (f64_code (f64_from y)) = mag 23 (code y) * 2 ^ 925"
    using f64_from_finite[OF assms(2)] by auto
  have le: "f64_code (f64_from a) \<le> f64_code (f64_from b) \<longleftrightarrow> code a \<le> code b"
    if "mag 52 (f64_code (f64_from a)) = mag 23 (code a) * 2 ^ 925"
       "mag 52 (f64_code (f64_from b)) = mag 23 (code b) * 2 ^ 925" for a b
  proof -
    have "f64_code (f64_from a) \<le> f64_code (f64_from b)
        \<longleftrightarrow> mag 23 (code a) * 2 ^ 925 \<le> mag 23 (code b) * (2 ^ 925 :: nat)"
      using that by (metis mag_le_iff)
    also have "\<dots> \<longleftrightarrow> code a \<le> code b" using mult_le_cancel2[of "mag 23 (code a)" "2 ^ 925" "mag 23 (code b)"] by simp
    finally show ?thesis .
  qed
  have z: "f64_code (f64_from a) = 0 \<longleftrightarrow> code a = 0"
    if "mag 52 (f64_code (f64_from a)) = mag 23 (code a) * 2 ^ 925" for a
    using that by (metis mag_eq_0_iff mult_is_0 power_not_zero zero_neq_numeral)
  have neg: "int a \<le> - int b \<longleftrightarrow> a = 0 \<and> b = 0" for a b by linarith
  show ?thesis
    using x(1) y(1) le[OF x(2) y(2)] le[OF y(2) x(2)] z[OF x(2)] z[OF y(2)]
    by (auto simp: f64_scode_def scode_def neg)
qed

section \<open>Exact results on small constants\<close>

text \<open>Equations that let concrete instances be computed without searching for codes.\<close>

named_theorems f32_eval \<open>exact arithmetic on zero and one\<close>

lemma mag_one: "mag 23 (code f32_one) = 2 ^ 149"
  by (simp add: mag_def)

lemma f32_add_zero_left [f32_eval]: "\<not> sign x \<Longrightarrow> \<not> is_nan x \<Longrightarrow> f32_add f32_zero x = x"
proof -
  assume x: "\<not> sign x" "\<not> is_nan x"
  have z: "\<not> is_inf f32_zero" by (simp add: is_inf_def F32_INF_CODE_def)
  have r: "round_ratio 23 F32_INF_CODE (mag 23 (code x)) 1 = code x" if "\<not> is_inf x"
    using that x by (intro round_ratio_exact) (auto simp: is_nan_def is_inf_def)
  have i: "x = mk_f32 False F32_INF_CODE" if "is_inf x"
    using that x by (intro f32_eqI) (simp_all add: is_inf_def)
  have "f32_add f32_zero x = mk_f32 False (if is_inf x then F32_INF_CODE else code x)"
    using f32_add_npos_eq[of f32_zero x] x z r by (simp add: npos_def)
  then show ?thesis using i x by (metis mk_f32_sign_code)
qed

lemma f32_sub_self [f32_eval]: "is_finite x \<Longrightarrow> f32_sub x x = f32_zero"
  by (rule f32_eqI) (auto simp: f32_sub_def f32_add_def is_inf_def is_finite_def is_nan_def)

lemma f32_sub_zero_right [f32_eval]: "\<not> sign x \<Longrightarrow> is_finite x \<Longrightarrow> f32_sub x f32_zero = x"
proof -
  assume x: "\<not> sign x" "is_finite x"
  have z: "is_finite (f32_neg f32_zero)" "\<not> is_inf (f32_neg f32_zero)"
    by (simp_all add: is_inf_def F32_INF_CODE_def)
  have v: "f32_val (f32_neg f32_zero) = 0" by (simp add: f32_val_def)
  have r: "round_ratio 23 F32_INF_CODE (mag 23 (code x)) 1 = code x"
    using x by (intro round_ratio_exact) (auto simp: is_finite_def)
  show ?thesis
  proof (cases "code x = 0")
    case True
    then show ?thesis using x z v by (intro f32_eqI) (simp_all add: f32_sub_def f32_add_def f32_val_def is_inf_def is_finite_def)
  next
    case False
    then show ?thesis using x z v r
      by (intro f32_eqI) (simp_all add: f32_sub_def f32_add_def f32_val_def is_inf_def is_finite_def)
  qed
qed

lemma f32_mul_zero [f32_eval]: "f32_mul f32_zero f32_zero = f32_zero"
  by (rule f32_eqI) (simp_all add: f32_mul_def is_nan_def is_inf_def F32_INF_CODE_def round_ratio_0)

lemma f32_mul_one [f32_eval]: "f32_mul f32_one f32_one = f32_one"
proof -
  have "round_ratio 23 F32_INF_CODE (mag 23 (code f32_one) * mag 23 (code f32_one)) (2 ^ 149) = code f32_one"
    by (rule round_ratio_exact) (simp add: F32_INF_CODE_def, simp, simp only: mag_one)
  then show ?thesis
    by (intro f32_eqI) (simp_all add: f32_mul_def is_nan_def is_inf_def F32_INF_CODE_def)
qed

lemma finite_one [simp]: "is_finite f32_one"
  by (simp add: is_finite_def F32_INF_CODE_def)

text \<open>Comparisons and classes of constants compute from the definitions.\<close>

lemmas f32_cmp_defs = f32_lt_def f32_le_def f32_eq_def scode_def is_nan_def is_inf_def is_finite_def F32_INF_CODE_def

lemma f32_lt_zero_one [f32_eval]: "f32_lt f32_zero f32_one" "\<not> f32_lt f32_one f32_one" "\<not> f32_lt f32_zero f32_zero"
  "f32_le f32_zero f32_one" "\<not> sign f32_one" "\<not> is_nan f32_one" "\<not> sign f32_zero" "\<not> is_nan f32_zero"
  by (simp_all add: f32_cmp_defs)

lemma f32_add_one_zero [f32_eval]: "f32_add f32_one f32_zero = f32_one"
proof -
  have "\<not> is_inf f32_one" "\<not> is_inf f32_zero" by (simp_all add: f32_cmp_defs)
  then have "f32_add f32_one f32_zero = f32_add f32_zero f32_one"
    by (simp add: f32_add_def Let_def add.commute conj_commute f32_eval)
  then show ?thesis by (simp add: f32_eval)
qed

end
