(* ===== verification/Codec.thy ===== *)
theory Codec
  imports Float32
begin

text \<open>
  \<open>core/src/index_io_util.rs\<close> and the reader interface of \<open>core/src/io.rs\<close>: positional
  reads, the batching of list payload reads, LEB128 and delta-varint row-id streams, f32
  sections and the size checks every index format shares.
\<close>

section \<open>Positional readers\<close>

text \<open>
  A reader over one immutable byte sequence. Every successful \<open>pread\<close> call is recorded
  with its ranges (position and length), so that statements about the issued I/O can be made.
\<close>

record read_capabilities =
  estimated_random_read_latency_nanos :: nat
  preferred_window_bytes :: nat
  max_ranges_per_pread :: nat

record seek_reader =
  file_bytes :: bytes
  capabilities :: read_capabilities
  preads :: "(nat \<times> nat) list list"

definition range_ok :: "bytes \<Rightarrow> nat \<times> nat \<Rightarrow> bool" where
  "range_ok bs r = (snd r = 0 \<or> fst r + snd r \<le> length bs)"

definition read_range :: "bytes \<Rightarrow> nat \<times> nat \<Rightarrow> bytes" where
  "read_range bs r = slice (fst r) (fst r + snd r) bs"

definition pread :: "(nat \<times> nat) list \<Rightarrow> seek_reader \<Rightarrow> (bytes list \<times> seek_reader) res" where
  "pread ranges r =
     (if list_all (range_ok (file_bytes r)) ranges
      then Inr (map (read_range (file_bytes r)) ranges, r\<lparr>preads := preads r @ [ranges]\<rparr>)
      else Inl (Err UnexpectedEof))"

text \<open>A \<open>PosWriter\<close> over an in-memory sink is the bytes written so far; its position is
  their number.\<close>

type_synonym pos_writer = bytes

definition write_all :: "pos_writer \<Rightarrow> bytes \<Rightarrow> pos_writer" where
  "write_all out buf = out @ buf"

definition writer_pos :: "pos_writer \<Rightarrow> nat" where
  "writer_pos out = length out"

section \<open>Bounds of a batch\<close>

definition MAX_IVF_BATCH_READ_BYTES :: nat where
  "MAX_IVF_BATCH_READ_BYTES = 64 * 1024 * 1024"

definition IVF_STREAM_ALLOCATION_SLACK :: nat where
  "IVF_STREAM_ALLOCATION_SLACK = 64"

definition ivf_payload_is_oversized :: "nat \<Rightarrow> bool" where
  "ivf_payload_is_oversized payload_len \<longleftrightarrow> payload_len > MAX_IVF_BATCH_READ_BYTES"

definition bounded_ivf_stream_chunk_rows :: "nat \<Rightarrow> nat \<Rightarrow> nat \<Rightarrow> nat \<Rightarrow> nat res" where
  "bounded_ivf_stream_chunk_rows remaining_rows row_bytes retained_id_bytes row_alignment =
     (if remaining_rows = 0 then Inr 0
      else if row_bytes = 0 \<or> row_alignment = 0 then Inl (Err InvalidData)
      else bind_res
        (ok_or (Err InvalidData)
          (Option.bind (checked_sub MAX_IVF_BATCH_READ_BYTES retained_id_bytes)
            (\<lambda>b. checked_sub b IVF_STREAM_ALLOCATION_SLACK)))
        (\<lambda>available.
          let rows0 = min (available div row_bytes) remaining_rows;
              rows = (if rows0 < remaining_rows \<and> 1 < row_alignment
                      then rows0 - rows0 mod row_alignment else rows0)
          in if rows = 0 then Inl (Err InvalidData) else Inr rows))"

definition max_ranges_of :: "nat \<Rightarrow> nat" where
  "max_ranges_of m = (if m = 0 then USIZE_MAX else m)"

text \<open>The scan of \<open>bounded_ivf_payload_batch_end\<close> from position \<open>index\<close>.\<close>

fun payload_batch_end :: "nat \<Rightarrow> nat list \<Rightarrow> nat \<Rightarrow> nat \<Rightarrow> nat \<Rightarrow> nat res" where
  "payload_batch_end max_ranges [] index ranges bytes = Inr index"
| "payload_batch_end max_ranges (payload_len # rest) index ranges bytes =
     (let next_ranges = ranges + (if payload_len \<noteq> 0 then 1 else 0) in
      bind_res (ok_or (Err InvalidData) (checked_add bytes payload_len)) (\<lambda>next_bytes.
        if index > 0 \<and> (next_ranges > max_ranges \<or> next_bytes > MAX_IVF_BATCH_READ_BYTES)
        then Inr index
        else payload_batch_end max_ranges rest (index + 1) next_ranges next_bytes))"

definition bounded_ivf_payload_batch_end :: "nat list \<Rightarrow> nat \<Rightarrow> nat res" where
  "bounded_ivf_payload_batch_end payload_lengths max_per_pread =
     (if payload_lengths = [] then Inr 0
      else payload_batch_end (max_ranges_of max_per_pread) payload_lengths 0 0 0)"

text \<open>The inner loop of \<open>pread_batched_slices_with_limit\<close>: how far one call extends.\<close>

function slices_batch_end :: "nat \<Rightarrow> nat \<Rightarrow> nat list \<Rightarrow> nat \<Rightarrow> nat \<Rightarrow> nat \<Rightarrow> nat res" where
  "slices_batch_end max_ranges limit lens start fin bytes =
     (if fin < length lens \<and> fin - start < max_ranges then
        bind_res (ok_or (Err InvalidData) (checked_add bytes (lens ! fin))) (\<lambda>next_bytes.
          if start < fin \<and> limit < next_bytes then Inr fin
          else slices_batch_end max_ranges limit lens start (fin + 1) next_bytes)
      else Inr fin)"
  by pat_completeness auto
termination
  by (relation "measure (\<lambda>(m, l, lens, s, f, b). length lens - f)") auto

declare slices_batch_end.simps [simp del]

lemma slices_batch_end_ge:
  "slices_batch_end max_ranges limit lens start fin bytes = Inr e \<Longrightarrow> fin \<le> e"
proof (induction max_ranges limit lens start fin bytes rule: slices_batch_end.induct)
  case (1 max_ranges limit lens start fin bytes)
  then show ?case
    by (auto simp: slices_batch_end.simps[of max_ranges limit lens start fin bytes]
        bind_res_eq_Inr split: if_splits)
qed

function pread_batched_from ::
  "nat \<Rightarrow> nat \<Rightarrow> nat list \<Rightarrow> nat list \<Rightarrow> nat \<Rightarrow> seek_reader \<Rightarrow> (bytes list \<times> seek_reader) res" where
  "pread_batched_from max_ranges limit offsets lens start r =
     (if start < length lens then
        bind_res (slices_batch_end max_ranges limit lens start start 0) (\<lambda>fin0.
          let fin = (if fin0 = start then fin0 + 1 else fin0) in
          bind_res (pread (zip (slice start fin offsets) (slice start fin lens)) r) (\<lambda>(bufs, r').
            bind_res (pread_batched_from max_ranges limit offsets lens fin r') (\<lambda>(rest, r'').
              Inr (bufs @ rest, r''))))
      else Inr ([], r))"
  by pat_completeness auto
termination
  by (relation "measure (\<lambda>(m, l, offs, lens, s, r). length lens - s)")
    (auto dest: slices_batch_end_ge)

declare pread_batched_from.simps [simp del]

definition pread_batched_slices_with_limit ::
  "nat list \<Rightarrow> nat list \<Rightarrow> nat \<Rightarrow> seek_reader \<Rightarrow> (bytes list \<times> seek_reader) res" where
  "pread_batched_slices_with_limit offsets lens max_batch_bytes r =
     (if length offsets \<noteq> length lens then Inl (Err InvalidInput)
      else pread_batched_from (max_ranges_of (max_ranges_per_pread (capabilities r)))
             max_batch_bytes offsets lens 0 r)"

definition pread_batched_slices ::
  "nat list \<Rightarrow> nat list \<Rightarrow> seek_reader \<Rightarrow> (bytes list \<times> seek_reader) res" where
  "pread_batched_slices offsets lens r =
     pread_batched_slices_with_limit offsets lens MAX_IVF_BATCH_READ_BYTES r"

section \<open>LEB128 varints\<close>

function write_u64_varint :: "u64 \<Rightarrow> bytes" where
  "write_u64_varint value =
     (if 0x80 \<le> value
      then ((ucast value AND 0x7F) OR 0x80) # write_u64_varint (drop_bit 7 value)
      else [ucast value])"
  by pat_completeness auto
termination
proof (relation "measure unat")
  fix v :: u64 assume "0x80 \<le> v"
  then have "0 < unat v" by (simp add: word_le_nat_alt)
  moreover have "unat (drop_bit 7 v) = unat v div 128"
    by (simp add: drop_bit_eq_div unat_div)
  ultimately show "(drop_bit 7 v, v) \<in> measure unat" by simp
qed simp

declare write_u64_varint.simps [simp del]

text \<open>The iterations \<open>for _ in 1..10\<close> of \<open>read_u64_varint\<close> that remain.\<close>

fun read_u64_varint_rest :: "nat \<Rightarrow> bytes \<Rightarrow> nat \<Rightarrow> u64 \<Rightarrow> nat \<Rightarrow> (u64 \<times> nat) res" where
  "read_u64_varint_rest 0 bs pos value shift = Inl (Err InvalidData)"
| "read_u64_varint_rest (Suc n) bs pos value shift =
     (if pos < length bs then
        (let byte = bs ! pos in
         if shift = 63 \<and> byte AND 0x7E \<noteq> 0 then Inl (Err InvalidData)
         else (let value' = value OR push_bit shift (ucast (byte AND 0x7F)) in
               if byte AND 0x80 = 0 then Inr (value', pos + 1)
               else read_u64_varint_rest n bs (pos + 1) value' (shift + 7)))
      else Inl (Err InvalidData))"

definition read_u64_varint :: "bytes \<Rightarrow> nat \<Rightarrow> (u64 \<times> nat) res" where
  "read_u64_varint bs pos =
     (if pos < length bs then
        (let first = bs ! pos in
         if first < 0x80 then Inr (ucast first, pos + 1)
         else read_u64_varint_rest 9 bs (pos + 1) (ucast (first AND 0x7F)) 7)
      else Inl (Err InvalidData))"

section \<open>Delta-varint row ids\<close>

fun encode_deltas :: "i64 \<Rightarrow> i64 list \<Rightarrow> bytes" where
  "encode_deltas prev [] = []"
| "encode_deltas prev (row # ids) = write_u64_varint (row - prev) @ encode_deltas row ids"

definition encode_delta_varint_ids :: "i64 list \<Rightarrow> i64 \<times> bytes" where
  "encode_delta_varint_ids ids =
     (case ids of [] \<Rightarrow> (0, []) | base # _ \<Rightarrow> (base, encode_deltas base ids))"

fun decode_deltas :: "nat \<Rightarrow> bytes \<Rightarrow> nat \<Rightarrow> u64 \<Rightarrow> i64 \<Rightarrow> (i64 list \<times> nat) res" where
  "decode_deltas 0 buf pos current prev_signed = Inr ([], pos)"
| "decode_deltas (Suc n) buf pos current prev_signed =
     bind_res (read_u64_varint buf pos) (\<lambda>(delta, pos').
       let row = current + delta in
       if row <s prev_signed then Inl (Err InvalidData)
       else bind_res (decode_deltas n buf pos' row row) (\<lambda>(ids, pos''). Inr (row # ids, pos'')))"

definition decode_delta_varint_ids :: "i64 \<Rightarrow> bytes \<Rightarrow> nat \<Rightarrow> i64 list res" where
  "decode_delta_varint_ids base buf cnt =
     bind_res (decode_deltas cnt buf 0 base base) (\<lambda>(ids, pos).
       if pos \<noteq> length buf then Inl (Err InvalidData) else Inr ids)"

definition read_delta_varint_ids_at ::
  "nat \<Rightarrow> nat \<Rightarrow> nat \<Rightarrow> seek_reader \<Rightarrow> (i64 list \<times> seek_reader) res" where
  "read_delta_varint_ids_at offset cnt id_bytes_len r =
     bind_res (ok_or (Err InvalidData) (checked_add 12 id_bytes_len)) (\<lambda>prefix_len.
     bind_res (ok_or (Err InvalidData) (checked_mul cnt 8)) (\<lambda>decoded_bytes.
     (case checked_add prefix_len decoded_bytes of
        None \<Rightarrow> Inl (Err InvalidData)
      | Some peak \<Rightarrow>
        (if MAX_IVF_BATCH_READ_BYTES < peak then Inl (Err InvalidData)
         else bind_res (pread [(offset, prefix_len)] r) (\<lambda>(bufs, r').
           let prefix = hd bufs;
               base_id = u64_from_le_bytes (slice 0 8 prefix);
               stored_id_bytes_len = u32_from_le_bytes (slice 8 12 prefix)
           in if sint stored_id_bytes_len < 0 \<or> nat (sint stored_id_bytes_len) \<noteq> id_bytes_len
              then Inl (Err InvalidData)
              else bind_res (decode_delta_varint_ids base_id (drop 12 prefix) cnt)
                     (\<lambda>ids. Inr (ids, r')))))))"

section \<open>Sections, shapes and header fields\<close>

definition validate_search_inputs :: "f32 list \<Rightarrow> nat \<Rightarrow> nat \<Rightarrow> nat \<Rightarrow> nat \<Rightarrow> unit res" where
  "validate_search_inputs queries nq d k nprobe =
     (if nq = 0 then Inl (Err InvalidInput)
      else bind_res (ok_or (Err InvalidInput) (checked_mul nq d)) (\<lambda>expected_query_len.
        if length queries \<noteq> expected_query_len then Inl (Err InvalidInput)
        else if k = 0 then Inl (Err InvalidInput)
        else if nprobe = 0 then Inl (Err InvalidInput)
        else Inr ()))"

definition validate_reserved_zero :: "bytes \<Rightarrow> unit res" where
  "validate_reserved_zero bs = (if list_ex (\<lambda>b. b \<noteq> 0) bs then Inl (Err InvalidData) else Inr ())"

definition f32_bytes :: "f32 list \<Rightarrow> bytes" where
  "f32_bytes data = concat (map (\<lambda>x. u32_to_le_bytes (to_bits x)) data)"

definition write_f32_slice :: "pos_writer \<Rightarrow> f32 list \<Rightarrow> pos_writer" where
  "write_f32_slice out data = write_all out (f32_bytes data)"

definition write_u32_le :: "pos_writer \<Rightarrow> u32 \<Rightarrow> pos_writer" where
  "write_u32_le out v = write_all out (u32_to_le_bytes v)"

definition write_i32_le :: "pos_writer \<Rightarrow> i32 \<Rightarrow> pos_writer" where
  "write_i32_le out v = write_all out (u32_to_le_bytes v)"

definition write_i64_le :: "pos_writer \<Rightarrow> i64 \<Rightarrow> pos_writer" where
  "write_i64_le out v = write_all out (u64_to_le_bytes v)"

definition bytes_to_f32_vec :: "bytes \<Rightarrow> f32 list res" where
  "bytes_to_f32_vec bs =
     (if length bs mod 4 \<noteq> 0 then Inl (Err InvalidData)
      else Inr (map (\<lambda>c. F32 (u32_from_le_bytes c)) (chunks_exact 4 bs)))"

definition validate_positive_i32 :: "i32 \<Rightarrow> i32 res" where
  "validate_positive_i32 v = (if sint v \<le> 0 then Inl (Err InvalidData) else Inr v)"

definition usize_to_i32 :: "nat \<Rightarrow> i32 res" where
  "usize_to_i32 value = (if I32_MAX < value then Inl (Err InvalidInput) else Inr (word_of_nat value))"

definition usize_to_i64 :: "nat \<Rightarrow> i64 res" where
  "usize_to_i64 value = (if I64_MAX < value then Inl (Err InvalidInput) else Inr (word_of_nat value))"

definition u64_to_i64 :: "nat \<Rightarrow> i64 res" where
  "u64_to_i64 value = (if I64_MAX < value then Inl (Err InvalidInput) else Inr (word_of_nat value))"

definition MAX_SECTION_ELEMENTS :: nat where
  "MAX_SECTION_ELEMENTS = 2 ^ 30"

definition checked_section_size :: "nat \<Rightarrow> nat \<Rightarrow> nat res" where
  "checked_section_size a b =
     bind_res (ok_or (Err InvalidData) (checked_mul a b)) (\<lambda>result.
       if MAX_SECTION_ELEMENTS < result then Inl (Err InvalidData) else Inr result)"

definition checked_list_offset :: "i64 \<Rightarrow> nat res" where
  "checked_list_offset offset = (if sint offset < 0 then Inl (Err InvalidData) else Inr (unat offset))"

definition checked_list_bytes :: "nat \<Rightarrow> nat \<Rightarrow> nat res" where
  "checked_list_bytes cnt bytes_per_entry =
     ok_or (Err InvalidData) (checked_mul cnt bytes_per_entry)"

section \<open>Varints round-trip\<close>

lemma byte_7F: "(0x7F :: u8) = mask 7"
  by (simp add: mask_eq_exp_minus_1)

lemma byte_80: "(0x80 :: u8) = push_bit 7 1"
  by simp

lemma take_bit_7_id: "(w :: 'a :: len word) < 0x80 \<Longrightarrow> 8 \<le> LENGTH('a) \<Longrightarrow> take_bit 7 w = w"
proof -
  assume w: "w < 0x80" and l: "8 \<le> LENGTH('a)"
  have "(2 :: nat) ^ 8 \<le> 2 ^ LENGTH('a)" using l by (rule power_increasing) simp
  then have "unat (0x80 :: 'a word) = 0x80" by (simp add: unat_numeral take_bit_eq_mod)
  then have "unat w < 128" using w by (simp add: word_less_nat_alt)
  moreover have "unat (take_bit 7 w) = unat w mod 2 ^ 7"
    unfolding unsigned_take_bit_eq by (rule take_bit_eq_mod)
  ultimately have "unat (take_bit 7 w) = unat w" by simp
  then show ?thesis by (rule unsigned_word_eqI)
qed

lemma more_byte:
  "((b AND 0x7F) OR 0x80 :: u8) AND 0x7F = b AND 0x7F"
  "((b AND 0x7F) OR 0x80 :: u8) AND 0x80 \<noteq> 0"
  "\<not> ((b AND 0x7F) OR 0x80 :: u8) < 0x80"
proof -
  show "((b AND 0x7F) OR 0x80 :: u8) AND 0x7F = b AND 0x7F"
    by (rule bit_eqI) (auto simp: bit_simps byte_7F byte_80 simp del: push_bit_of_1)
  have b7: "bit ((b AND 0x7F) OR 0x80 :: u8) 7" by (simp add: bit_simps)
  have "bit (((b AND 0x7F) OR 0x80 :: u8) AND 0x80) 7" by (simp add: bit_simps)
  then show "((b AND 0x7F) OR 0x80 :: u8) AND 0x80 \<noteq> 0" by (metis bit_0_eq bot_apply bot_bool_def)
  show "\<not> ((b AND 0x7F) OR 0x80 :: u8) < 0x80"
  proof
    assume "((b AND 0x7F) OR 0x80 :: u8) < 0x80"
    then have "take_bit 7 ((b AND 0x7F) OR 0x80 :: u8) = (b AND 0x7F) OR 0x80"
      by (rule take_bit_7_id) simp
    then show False using b7 by (metis bit_take_bit_iff less_irrefl)
  qed
qed

lemma last_byte: "b < 0x80 \<Longrightarrow> (b :: u8) AND 0x80 = 0" "b < 0x80 \<Longrightarrow> (b :: u8) AND 0x7F = b"
proof -
  assume "b < 0x80"
  then have b: "take_bit 7 b = b" by (rule take_bit_7_id) simp
  then show "b AND 0x7F = b" by (simp add: byte_7F take_bit_eq_mask)
  have "take_bit 7 b AND 0x80 = 0"
    by (rule bit_eqI) (auto simp: bit_simps byte_80 simp del: push_bit_of_1)
  then show "b AND 0x80 = 0" using b by simp
qed

lemma low_7: "ucast ((ucast w :: u8) AND 0x7F) = take_bit 7 (w :: u64)"
  by (rule bit_eqI) (auto simp: bit_simps byte_7F)

lemma low_7_small: "(w :: u64) < 0x80 \<Longrightarrow> ucast (ucast w :: u8) = w \<and> (ucast w :: u8) < 0x80"
proof -
  assume w: "w < 0x80"
  have t: "take_bit 7 w = w" using w by (rule take_bit_7_id) simp
  have "ucast (ucast w :: u8) = take_bit 8 w" by (rule bit_eqI) (auto simp: bit_simps)
  also have "take_bit 8 w = w"
  proof -
    have "take_bit 8 (take_bit 7 w) = take_bit 7 w" by simp
    then show ?thesis by (simp only: t)
  qed
  finally have u: "ucast (ucast w :: u8) = w" .
  have "unat (ucast w :: u8) = unat w"
    using w by (simp add: unsigned_ucast_eq take_bit_eq_mod word_less_nat_alt)
  then show ?thesis using u w by (simp add: word_less_nat_alt)
qed

lemma varint_accumulate:
  "take_bit s v OR push_bit s (take_bit 7 (drop_bit s v)) = take_bit (s + 7) (v :: u64)"
  by (rule bit_eqI) (auto simp: bit_simps)

lemma varint_complete: "take_bit s v OR push_bit s (drop_bit s v) = (v :: u64)"
proof (rule bit_eqI)
  fix n
  show "bit (take_bit s v OR push_bit s (drop_bit s v)) n = bit v n"
    by (cases "n < s") (auto simp: bit_simps dest: bit_imp_le_length)
qed

lemma drop_63_le: "drop_bit 63 (v :: u64) = 0 \<or> drop_bit 63 v = 1"
proof -
  have "unat (drop_bit 63 v) = unat v div 2 ^ 63" by (simp add: drop_bit_eq_div unat_div)
  moreover have "unat v < 2 ^ 64" using unsigned_less[of v] by simp
  then have "unat v div 2 ^ 63 < 2" by (simp add: div_less_iff_less_mult)
  ultimately have "unat (drop_bit 63 v) = 0 \<or> unat (drop_bit 63 v) = 1" by linarith
  then show ?thesis by (metis unsigned_0 unsigned_1 unsigned_word_eqI)
qed

lemma write_u64_varint_nonempty: "write_u64_varint v \<noteq> []"
  by (subst write_u64_varint.simps) simp

lemma read_rest_roundtrip:
  assumes "s + 7 * n = 70" "s \<le> 63" and "drop pos bs = write_u64_varint (drop_bit s v) @ post"
  shows "read_u64_varint_rest n bs pos (take_bit s v) s
    = Inr (v, pos + length (write_u64_varint (drop_bit s v)))"
  using assms
proof (induction n arbitrary: s pos)
  case (Suc n)
  let ?w = "drop_bit s v"
  show ?case
  proof (cases "0x80 \<le> ?w")
    case True
    have s63: "s \<noteq> 63" using drop_63_le[of v] True by (auto simp: word_le_nat_alt)
    then have s7: "s + 7 + 7 * n = 70" "s + 7 \<le> 63" using Suc.prems(1,2) by presburger+
    have w: "write_u64_varint ?w = ((ucast ?w AND 0x7F) OR 0x80) # write_u64_varint (drop_bit (s + 7) v)"
      using True by (subst write_u64_varint.simps) (simp add: drop_bit_drop_bit add.commute)
    have d: "drop pos bs = ((ucast ?w AND 0x7F) OR 0x80) # write_u64_varint (drop_bit (s + 7) v) @ post"
      using Suc.prems(3) w by simp
    note pos = drop_eq_ConsD(1)[OF d] and b = drop_eq_ConsD(2)[OF d] and rest = drop_eq_ConsD(3)[OF d]
    have v': "take_bit s v OR push_bit s (ucast (bs ! pos AND 0x7F)) = take_bit (s + 7) v"
      unfolding b by (simp only: more_byte(1) low_7 varint_accumulate)
    have "read_u64_varint_rest (Suc n) bs pos (take_bit s v) s
        = read_u64_varint_rest n bs (pos + 1) (take_bit (s + 7) v) (s + 7)"
      using pos s63 v' b more_byte(2)[of "ucast ?w"] by (simp add: Let_def)
    also have "\<dots> = Inr (v, pos + 1 + length (write_u64_varint (drop_bit (s + 7) v)))"
      by (rule Suc.IH[OF s7 rest])
    finally show ?thesis using w by simp
  next
    case False
    then have lt: "?w < 0x80" by simp
    have w: "write_u64_varint ?w = [ucast ?w]" using False by (subst write_u64_varint.simps) simp
    have d: "drop pos bs = ucast ?w # post" using Suc.prems(3) w by simp
    note pos = drop_eq_ConsD(1)[OF d] and b = drop_eq_ConsD(2)[OF d]
    have small: "ucast (bs ! pos) = ?w" "bs ! pos < 0x80" using low_7_small[OF lt] b by auto
    have s63: "bs ! pos AND 0x7E = 0" if "s = 63" using drop_63_le[of v] b that by auto
    have v': "take_bit s v OR push_bit s (ucast (bs ! pos AND 0x7F)) = v"
      using small last_byte(2)[OF small(2)] by (simp add: varint_complete)
    show ?thesis using pos s63 v' last_byte(1)[OF small(2)] w by (auto simp: Let_def)
  qed
qed simp

text \<open>Reading what \<open>write_u64_varint\<close> wrote, in any context, gives the value and its end.\<close>

lemma read_write_varint:
  assumes "drop pos bs = write_u64_varint v @ post"
  shows "read_u64_varint bs pos = Inr (v, pos + length (write_u64_varint v))"
proof (cases "0x80 \<le> v")
  case True
  have w: "write_u64_varint v = ((ucast v AND 0x7F) OR 0x80) # write_u64_varint (drop_bit 7 v)"
    using True by (subst write_u64_varint.simps) simp
  have d: "drop pos bs = ((ucast v AND 0x7F) OR 0x80) # write_u64_varint (drop_bit 7 v) @ post"
    using assms w by simp
  have "read_u64_varint bs pos = read_u64_varint_rest 9 bs (pos + 1) (take_bit 7 v) 7"
    using drop_eq_ConsD(1,2)[OF d] more_byte(1,3)[of "ucast v"]
    by (simp add: read_u64_varint_def Let_def low_7)
  also have "\<dots> = Inr (v, pos + 1 + length (write_u64_varint (drop_bit 7 v)))"
    by (rule read_rest_roundtrip[OF _ _ drop_eq_ConsD(3)[OF d]]) simp_all
  finally show ?thesis using w by simp
next
  case False
  then have w: "write_u64_varint v = [ucast v]" by (subst write_u64_varint.simps) simp
  then have "drop pos bs = ucast v # post" using assms by simp
  then show ?thesis using False low_7_small[of v] w drop_eq_ConsD(1,2)[of pos bs "ucast v" post]
    by (simp add: read_u64_varint_def Let_def)
qed

section \<open>Delta streams round-trip\<close>

fun signed_sorted :: "i64 list \<Rightarrow> bool" where
  "signed_sorted [] = True"
| "signed_sorted [x] = True"
| "signed_sorted (x # y # ys) = (x \<le>s y \<and> signed_sorted (y # ys))"

lemma signed_sorted_iff: "signed_sorted xs \<longleftrightarrow> sorted (map sint xs)"
  by (induction xs rule: signed_sorted.induct) (auto simp: word_sle_eq intro: order_trans)

lemma decode_encode_deltas:
  assumes "signed_sorted (prev # ids)" and "drop pos buf = encode_deltas prev ids @ post"
  shows "decode_deltas (length ids) buf pos prev prev = Inr (ids, pos + length (encode_deltas prev ids))"
  using assms
proof (induction ids arbitrary: prev pos)
  case (Cons row ids)
  let ?e = "write_u64_varint (row - prev)"
  have d: "drop pos buf = ?e @ (encode_deltas row ids @ post)" using Cons.prems(2) by simp
  have "\<not> row <s prev" using Cons.prems(1) by (auto simp: word_sle_eq word_sless_alt)
  then show ?case
    using read_write_varint[OF d] Cons.IH[of row, OF _ drop_eq_appendD[OF d]] Cons.prems(1) by simp
qed simp

lemma decode_encode_ids:
  assumes "signed_sorted ids"
  shows "decode_delta_varint_ids (fst (encode_delta_varint_ids ids)) (snd (encode_delta_varint_ids ids)) (length ids) = Inr ids"
proof (cases ids)
  case Nil
  then show ?thesis by (simp add: encode_delta_varint_ids_def decode_delta_varint_ids_def)
next
  case (Cons base rest)
  have s: "signed_sorted (base # ids)" using assms Cons by simp
  have "decode_deltas (length ids) (encode_deltas base ids) 0 base base = Inr (ids, length (encode_deltas base ids))"
    using decode_encode_deltas[OF s, of 0 "encode_deltas base ids" "[]"] by simp
  then show ?thesis using Cons by (simp add: encode_delta_varint_ids_def decode_delta_varint_ids_def)
qed

lemma decode_deltas_sorted:
  "decode_deltas n buf pos prev prev = Inr (ids, e) \<Longrightarrow> length ids = n \<and> signed_sorted (prev # ids)"
proof (induction n arbitrary: pos prev ids e)
  case (Suc n)
  then obtain delta pos' rest where
    "\<not> (prev + delta) <s prev" "decode_deltas n buf pos' (prev + delta) (prev + delta) = Inr (rest, e)"
    "ids = (prev + delta) # rest"
    by (auto simp: bind_res_eq_Inr Let_def split: if_splits)
  then show ?case using Suc.IH[of pos' "prev + delta" rest e] by (auto simp: word_sle_eq word_sless_alt)
qed simp

lemma decode_ids_sound:
  "decode_delta_varint_ids base buf n = Inr ids \<Longrightarrow> length ids = n \<and> signed_sorted (base # ids)"
  by (auto simp: decode_delta_varint_ids_def bind_res_eq_Inr split: if_splits dest: decode_deltas_sorted)

section \<open>f32 sections round-trip\<close>

lemma length_f32_bytes [simp]: "length (f32_bytes data) = 4 * length data"
  by (induction data) (auto simp: f32_bytes_def)

lemma f32_bytes_append: "f32_bytes (xs @ ys) = f32_bytes xs @ f32_bytes ys"
  by (simp add: f32_bytes_def)

lemma bytes_to_f32_vec_f32_bytes [simp]: "bytes_to_f32_vec (f32_bytes data) = Inr data"
proof -
  have "chunks_exact 4 (f32_bytes data) = map (\<lambda>x. u32_to_le_bytes (to_bits x)) data"
    unfolding f32_bytes_def by (rule chunks_exact_concat) auto
  then show ?thesis by (simp add: bytes_to_f32_vec_def comp_def)
qed

section \<open>Integer header fields\<close>

lemma sint_word_of_nat32: "n \<le> I32_MAX \<Longrightarrow> sint (word_of_nat n :: i32) = int n"
  by (simp add: sint_uint uint_nat unat_of_nat signed_take_bit_eq_if_positive bit_iff_odd
      take_bit_int_eq_self)

lemma sint_word_of_nat64: "n \<le> I64_MAX \<Longrightarrow> sint (word_of_nat n :: i64) = int n"
  by (simp add: sint_uint uint_nat unat_of_nat signed_take_bit_eq_if_positive bit_iff_odd
      take_bit_int_eq_self)

lemma unat_word_of_nat64: "n \<le> I64_MAX \<Longrightarrow> unat (word_of_nat n :: i64) = n"
  by (simp add: unat_of_nat)

lemma usize_to_i32_Inr: "usize_to_i32 n = Inr w \<longleftrightarrow> n \<le> I32_MAX \<and> w = word_of_nat n"
  by (auto simp: usize_to_i32_def)

lemma usize_to_i64_Inr: "usize_to_i64 n = Inr w \<longleftrightarrow> n \<le> I64_MAX \<and> w = word_of_nat n"
  by (auto simp: usize_to_i64_def)

lemma u64_to_i64_Inr: "u64_to_i64 n = Inr w \<longleftrightarrow> n \<le> I64_MAX \<and> w = word_of_nat n"
  by (auto simp: u64_to_i64_def)

lemma checked_section_size_Inr:
  "checked_section_size a b = Inr n \<longleftrightarrow> n = a * b \<and> a * b \<le> MAX_SECTION_ELEMENTS"
  by (auto simp: checked_section_size_def bind_res_eq_Inr MAX_SECTION_ELEMENTS_def)

lemma checked_list_bytes_Inr: "checked_list_bytes a b = Inr n \<longleftrightarrow> n = a * b \<and> a * b < 2 ^ 64"
  by (auto simp: checked_list_bytes_def)

section \<open>Streaming chunks\<close>

lemma stream_chunk_rows_bounds:
  assumes "bounded_ivf_stream_chunk_rows remaining row_bytes retained align = Inr rows" "0 < remaining"
  shows "0 < rows \<and> rows \<le> remaining
    \<and> retained + rows * row_bytes + IVF_STREAM_ALLOCATION_SLACK \<le> MAX_IVF_BATCH_READ_BYTES
    \<and> (rows < remaining \<longrightarrow> align dvd rows)"
proof -
  define avail where "avail = MAX_IVF_BATCH_READ_BYTES - retained - IVF_STREAM_ALLOCATION_SLACK"
  define rows0 where "rows0 = min (avail div row_bytes) remaining"
  have pos: "0 < row_bytes" "0 < align" and ret: "retained \<le> MAX_IVF_BATCH_READ_BYTES"
    "IVF_STREAM_ALLOCATION_SLACK \<le> MAX_IVF_BATCH_READ_BYTES - retained"
    and rows: "rows = (if rows0 < remaining \<and> 1 < align then rows0 - rows0 mod align else rows0)" "0 < rows"
    using assms
    by (auto simp: bounded_ivf_stream_chunk_rows_def bind_res_eq_Inr Option.bind_eq_Some_conv Let_def
        rows0_def avail_def split: if_splits)
  have le0: "rows \<le> rows0" using rows(1) by auto
  have "rows0 * row_bytes \<le> avail"
    by (rule le_trans[OF mult_le_mono1[of rows0 "avail div row_bytes" row_bytes]])
      (simp_all add: rows0_def)
  then have "rows * row_bytes \<le> avail" using le0 by (meson le_trans mult_le_mono1)
  then have "retained + rows * row_bytes + IVF_STREAM_ALLOCATION_SLACK \<le> MAX_IVF_BATCH_READ_BYTES"
    using ret by (simp add: avail_def)
  moreover have "align dvd rows" if "rows < remaining"
  proof (cases "1 < align")
    case True
    have "rows0 < remaining"
    proof (rule ccontr)
      assume "\<not> rows0 < remaining"
      then have "rows = remaining" using rows(1) by (simp add: rows0_def)
      then show False using that by simp
    qed
    then show ?thesis using rows(1) True by (simp add: dvd_minus_mod)
  next
    case False
    then have "align = 1" using pos(2) by simp
    then show ?thesis by simp
  qed
  moreover have "rows0 \<le> remaining" by (simp add: rows0_def)
  ultimately show ?thesis using rows(2) le0 by simp
qed

section \<open>Batches\<close>

definition nonzero_count :: "nat list \<Rightarrow> nat" where
  "nonzero_count xs = length (filter (\<lambda>x. x \<noteq> 0) xs)"

lemma payload_batch_end_spec:
  assumes "payload_batch_end max_ranges rest (length pre) (nonzero_count pre) (sum_list pre) = Inr e"
    and "length pre \<le> 1 \<or> nonzero_count pre \<le> max_ranges \<and> sum_list pre \<le> MAX_IVF_BATCH_READ_BYTES"
  shows "length pre \<le> e \<and> e \<le> length (pre @ rest) \<and> (pre @ rest \<noteq> [] \<longrightarrow> 1 \<le> e)
    \<and> (e \<le> 1 \<or> nonzero_count (take e (pre @ rest)) \<le> max_ranges
             \<and> sum_list (take e (pre @ rest)) \<le> MAX_IVF_BATCH_READ_BYTES)
    \<and> (e < length (pre @ rest) \<longrightarrow> nonzero_count (take (Suc e) (pre @ rest)) > max_ranges
             \<or> sum_list (take (Suc e) (pre @ rest)) > MAX_IVF_BATCH_READ_BYTES)"
  using assms
proof (induction rest arbitrary: pre)
  case Nil
  then show ?case by (auto simp: Suc_le_eq)
next
  case (Cons x rest)
  let ?nr = "nonzero_count (pre @ [x])" and ?nb = "sum_list (pre @ [x])"
  have nr: "nonzero_count pre + (if x \<noteq> 0 then 1 else 0) = ?nr" by (simp add: nonzero_count_def)
  have nb: "sum_list pre + x = ?nb" by simp
  have step: "payload_batch_end max_ranges (x # rest) (length pre) (nonzero_count pre) (sum_list pre)
      = (if \<not> ?nb < 2 ^ 64 then Inl (Err InvalidData)
         else if 0 < length pre \<and> (max_ranges < ?nr \<or> MAX_IVF_BATCH_READ_BYTES < ?nb)
         then Inr (length pre)
         else payload_batch_end max_ranges rest (length (pre @ [x])) ?nr ?nb)"
    by (simp add: Let_def checked_add_def nr[symmetric])
  show ?case
  proof (cases "0 < length pre \<and> (max_ranges < ?nr \<or> MAX_IVF_BATCH_READ_BYTES < ?nb)")
    case True
    then have "e = length pre" using Cons.prems(1) unfolding step by (simp split: if_splits)
    then show ?thesis using True Cons.prems(2) by (cases pre) auto
  next
    case False
    then have "payload_batch_end max_ranges rest (length (pre @ [x])) ?nr ?nb = Inr e"
      using Cons.prems(1) unfolding step by (simp split: if_splits)
    moreover have "length (pre @ [x]) \<le> 1 \<or> ?nr \<le> max_ranges \<and> ?nb \<le> MAX_IVF_BATCH_READ_BYTES"
      using False by auto
    ultimately show ?thesis using Cons.IH[of "pre @ [x]"] by auto
  qed
qed

text \<open>One \<open>pread\<close> call of a batched read: few enough ranges, and few enough bytes unless it
  is a single range.\<close>

definition call_ok :: "nat \<Rightarrow> nat \<Rightarrow> (nat \<times> nat) list \<Rightarrow> bool" where
  "call_ok max_ranges limit call \<longleftrightarrow>
     length call \<le> max_ranges \<and> (length call = 1 \<or> sum_list (map snd call) \<le> limit)"

lemma slices_batch_end_spec:
  assumes "start \<le> fin" "fin \<le> length lens" "sum_list lens < 2 ^ 64" "fin - start \<le> max_ranges"
    and "bytes = sum_list (slice start fin lens)" "fin \<le> Suc start \<or> bytes \<le> limit"
  shows "\<exists>e. slices_batch_end max_ranges limit lens start fin bytes = Inr e \<and> fin \<le> e \<and> e \<le> length lens
    \<and> e - start \<le> max_ranges \<and> (e \<le> Suc start \<or> sum_list (slice start e lens) \<le> limit)
    \<and> (fin = start \<and> fin < length lens \<and> 0 < max_ranges \<longrightarrow> start < e)"
  using assms
proof (induction max_ranges limit lens start fin bytes rule: slices_batch_end.induct)
  case (1 max_ranges limit lens start fin bytes)
  show ?case
  proof (cases "fin < length lens \<and> fin - start < max_ranges")
    case False
    then show ?thesis using "1.prems" by (auto simp: slices_batch_end.simps[of max_ranges])
  next
    case True
    have nb: "bytes + lens ! fin = sum_list (slice start (Suc fin) lens)"
      using "1.prems"(1,5) True by (simp add: slice_Suc)
    have "sum_list (slice start (Suc fin) lens) \<le> sum_list lens"
      unfolding slice_def by (metis append_take_drop_id le_add1 le_add2 le_trans sum_list_append)
    then have c: "checked_add bytes (lens ! fin) = Some (bytes + lens ! fin)"
      using nb "1.prems"(3) by (simp add: checked_add_def)
    show ?thesis
    proof (cases "start < fin \<and> limit < bytes + lens ! fin")
      case stop: True
      have "slices_batch_end max_ranges limit lens start fin bytes = Inr fin"
        using True stop by (subst slices_batch_end.simps) (simp add: c)
      then show ?thesis using stop "1.prems" by auto
    next
      case go: False
      have eq: "slices_batch_end max_ranges limit lens start fin bytes
          = slices_batch_end max_ranges limit lens start (fin + 1) (bytes + lens ! fin)"
        using True go by (subst slices_batch_end.simps) (auto simp: c)
      have "fin + 1 \<le> Suc start \<or> bytes + lens ! fin \<le> limit" using go "1.prems"(1) by auto
      moreover have "ok_or (Err InvalidData) (checked_add bytes (lens ! fin)) = Inr (bytes + lens ! fin)"
        by (simp add: c)
      ultimately show ?thesis using "1.IH"[OF True _ go] nb True "1.prems"(1-4)
        unfolding eq by fastforce
    qed
  qed
qed

lemma slice_zip: "slice a b (zip xs ys) = zip (slice a b xs) (slice a b ys)"
  by (simp add: slice_def drop_zip take_zip)

lemma slice_append_drop: "a \<le> b \<Longrightarrow> slice a b xs @ drop b xs = drop a xs"
  unfolding slice_def by (metis append_take_drop_id drop_drop le_add_diff_inverse2)

lemma pread_batched_from_spec:
  assumes "length offsets = length lens" "sum_list lens < 2 ^ 64" "0 < max_ranges"
    and "list_all (range_ok (file_bytes r)) (drop start (zip offsets lens))"
  shows "\<exists>calls. pread_batched_from max_ranges limit offsets lens start r
      = Inr (map (read_range (file_bytes r)) (drop start (zip offsets lens)),
             r\<lparr>preads := preads r @ calls\<rparr>)
    \<and> concat calls = drop start (zip offsets lens) \<and> list_all (call_ok max_ranges limit) calls"
  using assms
proof (induction max_ranges limit offsets lens start r rule: pread_batched_from.induct)
  case (1 max_ranges limit offsets lens start r)
  show ?case
  proof (cases "start < length lens")
    case False
    then show ?thesis by (intro exI[of _ "[]"]) (simp add: pread_batched_from.simps)
  next
    case True
    from slices_batch_end_spec[of start start lens max_ranges 0 limit] True "1.prems"
    obtain e where e: "slices_batch_end max_ranges limit lens start start 0 = Inr e" "start < e"
      "e \<le> length lens" "e - start \<le> max_ranges" "e \<le> Suc start \<or> sum_list (slice start e lens) \<le> limit"
      by (auto simp: slice_def)
    let ?call = "zip (slice start e offsets) (slice start e lens)"
    let ?r = "r\<lparr>preads := preads r @ [?call]\<rparr>"
    have split: "drop start (zip offsets lens) = ?call @ drop e (zip offsets lens)"
      using e(2) by (simp add: slice_append_drop flip: slice_zip)
    then have ok: "list_all (range_ok (file_bytes r)) ?call"
      "list_all (range_ok (file_bytes ?r)) (drop e (zip offsets lens))"
      using "1.prems"(4) by simp_all
    have pr: "pread ?call r = Inr (map (read_range (file_bytes r)) ?call, ?r)"
      using ok(1) by (simp add: pread_def)
    have "map snd ?call = slice start e lens" "length ?call = e - start"
      using e(3) "1.prems"(1) by (simp_all add: slice_def)
    then have "call_ok max_ranges limit ?call" using e(2,4,5) by (auto simp: call_ok_def)
    moreover have "e = (if e = start then e + 1 else e)" using e(2) by simp
    moreover from "1.IH"[OF True e(1) this pr refl "1.prems"(1-3) ok(2)]
    obtain calls where "pread_batched_from max_ranges limit offsets lens e ?r
        = Inr (map (read_range (file_bytes r)) (drop e (zip offsets lens)), ?r\<lparr>preads := preads ?r @ calls\<rparr>)"
      "concat calls = drop e (zip offsets lens)" "list_all (call_ok max_ranges limit) calls" by auto
    ultimately show ?thesis using True e(1,2) pr split
      by (intro exI[of _ "?call # calls"]) (subst pread_batched_from.simps, simp add: Let_def)
  qed
qed

section \<open>Properties\<close>

text \<open>C4: row ids in ascending signed order come back from their delta-varint encoding, however
  long the list and whatever the gaps, wrap-around of the differences included; and bytes after
  the last id are refused.\<close>

theorem delta_varint_ids_roundtrip:
  assumes "signed_sorted ids" and "encode_delta_varint_ids ids = (base, buf)"
  shows "decode_delta_varint_ids base buf (length ids) = Inr ids
    \<and> (junk \<noteq> [] \<longrightarrow> decode_delta_varint_ids base (buf @ junk) (length ids) = Inl (Err InvalidData))"
proof (cases ids)
  case Nil
  then show ?thesis using assms by (simp add: encode_delta_varint_ids_def decode_delta_varint_ids_def)
next
  case (Cons b rest)
  then have e: "base = b" "buf = encode_deltas b ids" using assms(2) by (auto simp: encode_delta_varint_ids_def)
  have "signed_sorted (b # ids)" using assms(1) Cons by simp
  from decode_encode_deltas[OF this, of 0 "buf @ post" post for post]
  have "decode_deltas (length ids) (buf @ post) 0 base base = Inr (ids, length buf)" for post using e by simp
  from this[of "[]"] this[of junk] show ?thesis by (simp add: decode_delta_varint_ids_def)
qed

theorem delta_varint_ids_roundtrip_witness:
  "signed_sorted [- 3, 5, 300] \<and> encode_delta_varint_ids [- 3, 5, 300] = (- 3, [0, 8, 0xA7, 2])
   \<and> decode_delta_varint_ids (- 3) [0, 8, 0xA7, 2] 3 = Inr [- 3, 5, 300]
   \<and> decode_delta_varint_ids (- 3) [0, 8, 0xA7, 2, 9] 3 = Inl (Err InvalidData)"
proof -
  have s: "signed_sorted [- 3, 5, 300]" by (simp add: signed_sorted_iff)
  have e: "encode_delta_varint_ids [- 3, 5, 300] = (- 3, [0, 8, 0xA7, 2])"
    by (simp add: encode_delta_varint_ids_def write_u64_varint.simps)
  show ?thesis using s e delta_varint_ids_roundtrip[OF s e, of "[9]"] by (simp add: numeral_3_eq_3)
qed

text \<open>C33: a list of row ids is only ever decoded to the requested number of ids in ascending
  signed order, none below the base.\<close>

theorem delta_varint_ids_sound:
  assumes "decode_delta_varint_ids base buf n = Inr ids"
  shows "length ids = n \<and> signed_sorted (base # ids)"
  using assms by (rule decode_ids_sound)

theorem delta_varint_ids_sound_witness:
  "decode_delta_varint_ids 7 [1, 0] 2 = Inr [8, 8] \<and> signed_sorted [7, 8, 8]"
proof -
  have d: "decode_delta_varint_ids 7 [1, 0] (Suc (Suc 0)) = Inr [8, 8]"
    by (simp add: decode_delta_varint_ids_def read_u64_varint_def Let_def)
  from delta_varint_ids_sound[OF d] d show ?thesis by (simp add: numeral_2_eq_2)
qed

text \<open>C24: a batched positioned read of ranges that lie in the file returns the bytes of every range
  in the order of the requests. It reads the ranges in order, each exactly once, in calls of at
  most \<open>max_ranges_per_pread\<close> ranges (0 for no limit) and, unless a call is one single range, of
  at most the byte limit.\<close>

theorem pread_batched_bounded:
  assumes "length offsets = length lens" "sum_list lens < 2 ^ 64"
    and "list_all (range_ok (file_bytes r)) (zip offsets lens)"
  shows "\<exists>calls. pread_batched_slices_with_limit offsets lens limit r
      = Inr (map (read_range (file_bytes r)) (zip offsets lens), r\<lparr>preads := preads r @ calls\<rparr>)
    \<and> concat calls = zip offsets lens
    \<and> list_all (call_ok (max_ranges_of (max_ranges_per_pread (capabilities r))) limit) calls"
proof -
  have "0 < max_ranges_of m" for m by (simp add: max_ranges_of_def)
  from pread_batched_from_spec[OF assms(1,2) this, of r 0] assms show ?thesis
    by (simp add: pread_batched_slices_with_limit_def)
qed

theorem pread_batched_bounded_witness:
  "\<exists>calls. pread_batched_slices_with_limit [2, 0, 3] [2, 1, 0] 2
      \<lparr>file_bytes = [10, 11, 12, 13], capabilities = \<lparr>estimated_random_read_latency_nanos = 0, preferred_window_bytes = 0, max_ranges_per_pread = 2\<rparr>, preads = []\<rparr>
    = Inr ([[12, 13], [10], []], \<lparr>file_bytes = [10, 11, 12, 13],
        capabilities = \<lparr>estimated_random_read_latency_nanos = 0, preferred_window_bytes = 0, max_ranges_per_pread = 2\<rparr>, preads = calls\<rparr>)
    \<and> concat calls = [(2, 2), (0, 1), (3, 0)] \<and> list_all (call_ok 2 2) calls"
  using pread_batched_bounded[of "[2, 0, 3]" "[2, 1, 0]"
      "\<lparr>file_bytes = [10, 11, 12, 13], capabilities = \<lparr>estimated_random_read_latency_nanos = 0, preferred_window_bytes = 0, max_ranges_per_pread = 2\<rparr>, preads = []\<rparr>" 2]
  by (simp add: range_ok_def read_range_def slice_def max_ranges_of_def)

text \<open>C31: a batch of list payloads is never empty, keeps within the range limit and the 64 MiB
  budget unless it is one list, and stops only where one more payload would break a limit.\<close>

theorem payload_batch_bounded:
  assumes "payload_lengths \<noteq> []" and "bounded_ivf_payload_batch_end payload_lengths m = Inr e"
  shows "1 \<le> e \<and> e \<le> length payload_lengths
    \<and> (e = 1 \<or> nonzero_count (take e payload_lengths) \<le> max_ranges_of m
             \<and> sum_list (take e payload_lengths) \<le> MAX_IVF_BATCH_READ_BYTES)
    \<and> (e < length payload_lengths \<longrightarrow>
         nonzero_count (take (Suc e) payload_lengths) > max_ranges_of m
         \<or> sum_list (take (Suc e) payload_lengths) > MAX_IVF_BATCH_READ_BYTES)"
proof -
  have "payload_batch_end (max_ranges_of m) payload_lengths (length ([] :: nat list)) (nonzero_count []) (sum_list []) = Inr e"
    using assms by (simp add: bounded_ivf_payload_batch_end_def nonzero_count_def)
  from payload_batch_end_spec[OF this] assms(1) show ?thesis by auto
qed

theorem payload_batch_bounded_witness:
  "bounded_ivf_payload_batch_end [40000000, 0, 20000000, 30000000] 0 = Inr 3
   \<and> sum_list (take 3 [40000000, 0, 20000000, 30000000 :: nat]) \<le> MAX_IVF_BATCH_READ_BYTES"
proof -
  have e: "bounded_ivf_payload_batch_end [40000000, 0, 20000000, 30000000] 0 = Inr 3"
    by (simp add: bounded_ivf_payload_batch_end_def max_ranges_of_def MAX_IVF_BATCH_READ_BYTES_def checked_add_def Let_def)
  show ?thesis using e payload_batch_bounded[OF _ e] by simp
qed

text \<open>C32: a streamed chunk of a list that is too large for one batch makes progress, holds whole
  aligned groups of rows until the last chunk, and fits the budget together with the retained ids
  and the allocation slack.\<close>

theorem stream_chunk_bounded:
  assumes "bounded_ivf_stream_chunk_rows remaining row_bytes retained align = Inr rows" "0 < remaining"
  shows "0 < rows \<and> rows \<le> remaining
    \<and> retained + rows * row_bytes + IVF_STREAM_ALLOCATION_SLACK \<le> MAX_IVF_BATCH_READ_BYTES
    \<and> (rows < remaining \<longrightarrow> align dvd rows)"
  using assms by (rule stream_chunk_rows_bounds)

theorem stream_chunk_bounded_witness:
  "bounded_ivf_stream_chunk_rows 100000 1024 8000000 32 = Inr 57696 \<and> (32 :: nat) dvd 57696"
proof -
  have e: "bounded_ivf_stream_chunk_rows 100000 1024 8000000 32 = Inr 57696"
    by (simp add: bounded_ivf_stream_chunk_rows_def MAX_IVF_BATCH_READ_BYTES_def IVF_STREAM_ALLOCATION_SLACK_def
        checked_sub_def ok_or_def Let_def min_def)
  show ?thesis using e stream_chunk_bounded[OF e] by simp
qed

end
