(* ===== verification/Distance.thy ===== *)
theory Distance
  imports Codec
begin

text \<open>
  \<open>core/src/distance.rs\<close>: the metrics and the distance kernels. A kernel is chosen by the
  target architecture and by the run-time AVX2 test, which is the argument of \<open>X86_64\<close>.
  A SIMD register is the list of its lanes, an index loop runs over the list of the indices it
  visits, and a loop with an early return is \<open>fold_until\<close>. The reductions follow the
  instructions: \<open>horizontal_sum_avx2\<close> adds the two halves, then the two pairs, then the two
  lanes left; \<open>vaddvq_f32\<close> is the pairwise AArch64 reduction. The multiply-add
  \<open>vmlaq_f32\<close> rounds the product and the sum separately.
\<close>

section \<open>Metrics\<close>

datatype MetricType = L2 | InnerProduct | Cosine

definition public_distance :: "MetricType \<Rightarrow> f32 \<Rightarrow> f64" where
  "public_distance metric d =
     f64_from (case metric of L2 \<Rightarrow> f32_sqrt d | Cosine \<Rightarrow> d | InnerProduct \<Rightarrow> f32_neg d)"

definition metric_code :: "MetricType \<Rightarrow> u32" where
  "metric_code metric = (case metric of L2 \<Rightarrow> 0 | InnerProduct \<Rightarrow> 1 | Cosine \<Rightarrow> 2)"

definition metric_from_code :: "u32 \<Rightarrow> MetricType option" where
  "metric_from_code c =
     (if c = 0 then Some L2 else if c = 1 then Some InnerProduct else if c = 2 then Some Cosine else None)"

definition metric_as_str :: "MetricType \<Rightarrow> string" where
  "metric_as_str metric = (case metric of L2 \<Rightarrow> ''l2'' | InnerProduct \<Rightarrow> ''inner_product'' | Cosine \<Rightarrow> ''cosine'')"

section \<open>Loops and lanes\<close>

datatype arch = X86_64 (avx2_detected: bool) | AArch64 | OtherArch

fun fold_until :: "('s \<Rightarrow> 'i \<Rightarrow> 's) \<Rightarrow> ('i \<Rightarrow> 's \<Rightarrow> bool) \<Rightarrow> 'i list \<Rightarrow> 's \<Rightarrow> 's option" where
  "fold_until step exits [] s = Some s"
| "fold_until step exits (i # is) s =
     (let s' = step s i in if exits i s' then None else fold_until step exits is s')"

text \<open>The starts \<open>0, w, 2 w, \<dots>\<close> of the whole blocks of \<open>while i + w <= n\<close>, and where that
  loop leaves \<open>i\<close>.\<close>

definition block_starts :: "nat \<Rightarrow> nat \<Rightarrow> nat list" where
  "block_starts w n = map (\<lambda>k. w * k) [0..<n div w]"

definition blocks_end :: "nat \<Rightarrow> nat \<Rightarrow> nat" where
  "blocks_end w n = w * (n div w)"

definition load :: "nat \<Rightarrow> f32 list \<Rightarrow> nat \<Rightarrow> f32 list" where
  "load w a i = slice i (i + w) a"

definition lanes_square_add :: "f32 list \<Rightarrow> f32 list \<Rightarrow> f32 list" where
  "lanes_square_add acc diff = map2 f32_add acc (map2 f32_mul diff diff)"

definition horizontal_sum_avx2 :: "f32 list \<Rightarrow> f32" where
  "horizontal_sum_avx2 acc =
     (let hi = drop 4 acc; lo = take 4 acc;
          sum128 = map2 f32_add lo hi;
          sum64 = map2 f32_add sum128 [sum128 ! 2, sum128 ! 3, sum128 ! 2, sum128 ! 3]
      in f32_add (sum64 ! 0) (sum64 ! 1))"

definition vaddvq_f32 :: "f32 list \<Rightarrow> f32" where
  "vaddvq_f32 v = f32_add (f32_add (v ! 0) (v ! 1)) (f32_add (v ! 2) (v ! 3))"

section \<open>Squared L2\<close>

definition l2_term :: "f32 list \<Rightarrow> f32 list \<Rightarrow> f32 \<Rightarrow> nat \<Rightarrow> f32" where
  "l2_term a b acc i = (let d = f32_sub (a ! i) (b ! i) in f32_add acc (f32_mul d d))"

definition fvec_l2sqr_scalar :: "f32 list \<Rightarrow> f32 list \<Rightarrow> f32" where
  "fvec_l2sqr_scalar a b = foldl (l2_term a b) f32_zero [0..<length a]"

definition l2_block :: "nat \<Rightarrow> f32 list \<Rightarrow> f32 list \<Rightarrow> f32 list \<Rightarrow> nat \<Rightarrow> f32 list" where
  "l2_block w a b acc i = lanes_square_add acc (map2 f32_sub (load w a i) (load w b i))"

definition fvec_l2sqr_avx2 :: "f32 list \<Rightarrow> f32 list \<Rightarrow> f32" where
  "fvec_l2sqr_avx2 a b =
     (let n = length a;
          acc = foldl (l2_block 8 a b) (replicate 8 f32_zero) (block_starts 8 n)
      in foldl (l2_term a b) (horizontal_sum_avx2 acc) [blocks_end 8 n..<n])"

text \<open>NEON keeps two accumulators of four lanes, for the lower and the upper half of a block.\<close>

definition l2_block_neon :: "f32 list \<Rightarrow> f32 list \<Rightarrow> f32 list \<times> f32 list \<Rightarrow> nat \<Rightarrow> f32 list \<times> f32 list" where
  "l2_block_neon a b sums i = (l2_block 4 a b (fst sums) i, l2_block 4 a b (snd sums) (i + 4))"

definition neon_reduce :: "f32 list \<times> f32 list \<Rightarrow> f32" where
  "neon_reduce sums = vaddvq_f32 (map2 f32_add (fst sums) (snd sums))"

definition neon_zero :: "f32 list \<times> f32 list" where
  "neon_zero = (replicate 4 f32_zero, replicate 4 f32_zero)"

definition fvec_l2sqr_neon :: "f32 list \<Rightarrow> f32 list \<Rightarrow> f32" where
  "fvec_l2sqr_neon a b =
     (let n = length a;
          sums = foldl (l2_block_neon a b) neon_zero (block_starts 8 n)
      in foldl (l2_term a b) (neon_reduce sums) [blocks_end 8 n..<n])"

definition fvec_l2sqr_simd :: "arch \<Rightarrow> f32 list \<Rightarrow> f32 list \<Rightarrow> f32" where
  "fvec_l2sqr_simd t a b =
     (case t of
        X86_64 avx2 \<Rightarrow> if avx2 \<and> 8 \<le> length a then fvec_l2sqr_avx2 a b else fvec_l2sqr_scalar a b
      | AArch64 \<Rightarrow> fvec_l2sqr_neon a b
      | OtherArch \<Rightarrow> fvec_l2sqr_scalar a b)"

definition fvec_l2sqr :: "arch \<Rightarrow> f32 list \<Rightarrow> f32 list \<Rightarrow> f32 res" where
  "fvec_l2sqr t a b =
     (if length a = length b then Inr (fvec_l2sqr_simd t a b) else Inl Panic)"

section \<open>Four candidates at once\<close>

definition fvec_l2sqr_four_scalar :: "f32 list \<Rightarrow> f32 list list \<Rightarrow> f32 list" where
  "fvec_l2sqr_four_scalar a candidates =
     foldl (\<lambda>sums i. map2 (\<lambda>b acc. l2_term a b acc i) candidates sums)
       (replicate 4 f32_zero) [0..<length a]"

definition fvec_l2sqr_four_avx2 :: "f32 list \<Rightarrow> f32 list list \<Rightarrow> f32 list" where
  "fvec_l2sqr_four_avx2 a candidates =
     (let n = length a;
          sums = foldl (\<lambda>sums i. map2 (\<lambda>b acc. l2_block 8 a b acc i) candidates sums)
                   (replicate 4 (replicate 8 f32_zero)) (block_starts 8 n)
      in foldl (\<lambda>results i. map2 (\<lambda>b r. l2_term a b r i) candidates results)
           (map horizontal_sum_avx2 sums) [blocks_end 8 n..<n])"

definition fvec_l2sqr_four_neon :: "f32 list \<Rightarrow> f32 list list \<Rightarrow> f32 list" where
  "fvec_l2sqr_four_neon a candidates =
     (let n = length a;
          sums = foldl (\<lambda>sums i. map2 (\<lambda>b acc. l2_block_neon a b acc i) candidates sums)
                   (replicate 4 neon_zero) (block_starts 8 n)
      in foldl (\<lambda>results i. map2 (\<lambda>b r. l2_term a b r i) candidates results)
           (map neon_reduce sums) [blocks_end 8 n..<n])"

definition fvec_l2sqr_four_simd :: "arch \<Rightarrow> f32 list \<Rightarrow> f32 list list \<Rightarrow> f32 list" where
  "fvec_l2sqr_four_simd t a candidates =
     (case t of
        X86_64 avx2 \<Rightarrow> if avx2 \<and> 8 \<le> length a then fvec_l2sqr_four_avx2 a candidates
                        else fvec_l2sqr_four_scalar a candidates
      | AArch64 \<Rightarrow> fvec_l2sqr_four_neon a candidates
      | OtherArch \<Rightarrow> fvec_l2sqr_four_scalar a candidates)"

definition fvec_l2sqr_four ::
  "arch \<Rightarrow> f32 list \<Rightarrow> f32 list \<Rightarrow> f32 list \<Rightarrow> f32 list \<Rightarrow> f32 list \<Rightarrow> f32 list res" where
  "fvec_l2sqr_four t a b0 b1 b2 b3 =
     (if list_all (\<lambda>b. length a = length b) [b0, b1, b2, b3]
      then Inr (fvec_l2sqr_four_simd t a [b0, b1, b2, b3]) else Inl Panic)"

section \<open>Squared L2 with early abandon\<close>

definition L2_PROBE_STRIDE :: nat where
  "L2_PROBE_STRIDE = 128"

text \<open>The outer loop of the scalar kernel runs while \<open>i + 128 < n\<close>.\<close>

definition fvec_l2sqr_unless_exceeds_scalar :: "f32 list \<Rightarrow> f32 list \<Rightarrow> f32 \<Rightarrow> f32 option" where
  "fvec_l2sqr_unless_exceeds_scalar a b threshold =
     (let n = length a in
      case fold_until (\<lambda>acc i. foldl (l2_term a b) acc [i..<i + L2_PROBE_STRIDE])
             (\<lambda>i acc. f32_lt threshold acc) (block_starts L2_PROBE_STRIDE (n - 1)) f32_zero of
        None \<Rightarrow> None
      | Some acc0 \<Rightarrow>
          (let acc = foldl (l2_term a b) acc0 [blocks_end L2_PROBE_STRIDE (n - 1)..<n]
           in if f32_lt threshold acc then None else Some acc))"

definition fvec_l2sqr_unless_exceeds_avx2 :: "f32 list \<Rightarrow> f32 list \<Rightarrow> f32 \<Rightarrow> f32 option" where
  "fvec_l2sqr_unless_exceeds_avx2 a b threshold =
     (let n = length a in
      case fold_until (l2_block 8 a b)
             (\<lambda>i acc. (i + 8) mod L2_PROBE_STRIDE = 0 \<and> f32_lt threshold (horizontal_sum_avx2 acc))
             (block_starts 8 n) (replicate 8 f32_zero) of
        None \<Rightarrow> None
      | Some acc \<Rightarrow>
          (let result = horizontal_sum_avx2 acc in
           if f32_lt threshold result then None
           else fold_until (l2_term a b) (\<lambda>i r. f32_lt threshold r) [blocks_end 8 n..<n] result))"

definition fvec_l2sqr_unless_exceeds_neon :: "f32 list \<Rightarrow> f32 list \<Rightarrow> f32 \<Rightarrow> f32 option" where
  "fvec_l2sqr_unless_exceeds_neon a b threshold =
     (let n = length a in
      case fold_until (l2_block_neon a b)
             (\<lambda>i sums. (i + 8) mod L2_PROBE_STRIDE = 0 \<and> f32_lt threshold (neon_reduce sums))
             (block_starts 8 n) neon_zero of
        None \<Rightarrow> None
      | Some sums \<Rightarrow>
          (let result = neon_reduce sums in
           if f32_lt threshold result then None
           else fold_until (l2_term a b) (\<lambda>i r. f32_lt threshold r) [blocks_end 8 n..<n] result))"

definition fvec_l2sqr_unless_exceeds_simd :: "arch \<Rightarrow> f32 list \<Rightarrow> f32 list \<Rightarrow> f32 \<Rightarrow> f32 option" where
  "fvec_l2sqr_unless_exceeds_simd t a b threshold =
     (case t of
        X86_64 avx2 \<Rightarrow> if avx2 \<and> 8 \<le> length a then fvec_l2sqr_unless_exceeds_avx2 a b threshold
                        else fvec_l2sqr_unless_exceeds_scalar a b threshold
      | AArch64 \<Rightarrow> fvec_l2sqr_unless_exceeds_neon a b threshold
      | OtherArch \<Rightarrow> fvec_l2sqr_unless_exceeds_scalar a b threshold)"

definition fvec_l2sqr_unless_exceeds ::
  "arch \<Rightarrow> f32 list \<Rightarrow> f32 list \<Rightarrow> f32 \<Rightarrow> f32 option res" where
  "fvec_l2sqr_unless_exceeds t a b threshold =
     (if length a \<noteq> length b then Inl Panic
      else if f32_lt threshold f32_zero then Inr None
      else if \<not> is_finite threshold then Inr (Some (fvec_l2sqr_simd t a b))
      else Inr (fvec_l2sqr_unless_exceeds_simd t a b threshold))"

section \<open>A scaled L2 test\<close>

definition fvec_l2sqr_scaled_exceeds_scalar :: "f32 list \<Rightarrow> f32 list \<Rightarrow> f32 \<Rightarrow> f32 \<Rightarrow> bool" where
  "fvec_l2sqr_scaled_exceeds_scalar a b scale threshold \<longleftrightarrow>
     fold_until (l2_term a b) (\<lambda>i acc. f32_lt threshold (f32_mul scale acc)) [0..<length a] f32_zero = None"

text \<open>A block of 128 elements in four accumulators of \<open>w\<close> lanes, added to the tot.\<close>

definition l2_block128 :: "nat \<Rightarrow> (f32 list \<Rightarrow> f32) \<Rightarrow> f32 list \<Rightarrow> f32 list \<Rightarrow> f32 \<Rightarrow> nat \<Rightarrow> f32" where
  "l2_block128 w reduce a b tot i =
     (let accs = foldl (\<lambda>accs j. map2 (\<lambda>offset acc. l2_block w a b acc (i + j + offset)) [0, w, 2 * w, 3 * w] accs)
                   (replicate 4 (replicate w f32_zero)) (block_starts (4 * w) 128);
          acc = map2 f32_add (map2 f32_add (accs ! 0) (accs ! 1)) (map2 f32_add (accs ! 2) (accs ! 3))
      in f32_add tot (reduce acc))"

definition fvec_l2sqr_scaled_exceeds_avx2 :: "f32 list \<Rightarrow> f32 list \<Rightarrow> f32 \<Rightarrow> f32 \<Rightarrow> bool" where
  "fvec_l2sqr_scaled_exceeds_avx2 a b scale threshold =
     (let n = length a; m = blocks_end 128 n;
          exceeds = (\<lambda>tot. f32_lt threshold (f32_mul scale tot))
      in case fold_until (l2_block128 8 horizontal_sum_avx2 a b) (\<lambda>i. exceeds) (block_starts 128 n) f32_zero of
           None \<Rightarrow> True
         | Some tot0 \<Rightarrow>
             (let tail_acc = foldl (l2_block 8 a b) (replicate 8 f32_zero) (map (\<lambda>i. m + i) (block_starts 8 (n - m)));
                  tot = f32_add tot0 (horizontal_sum_avx2 tail_acc)
              in if exceeds tot then True
                 else fold_until (l2_term a b) (\<lambda>i. exceeds) [m + blocks_end 8 (n - m)..<n] tot = None))"

definition fvec_l2sqr_scaled_exceeds_neon :: "f32 list \<Rightarrow> f32 list \<Rightarrow> f32 \<Rightarrow> f32 \<Rightarrow> bool" where
  "fvec_l2sqr_scaled_exceeds_neon a b scale threshold =
     (let n = length a; m = blocks_end 128 n;
          exceeds = (\<lambda>tot. f32_lt threshold (f32_mul scale tot))
      in case fold_until (l2_block128 4 vaddvq_f32 a b) (\<lambda>i. exceeds) (block_starts 128 n) f32_zero of
           None \<Rightarrow> True
         | Some tot0 \<Rightarrow>
             (let tail_accs = foldl (l2_block_neon a b) neon_zero (map (\<lambda>i. m + i) (block_starts 8 (n - m)));
                  tot = f32_add tot0 (neon_reduce tail_accs)
              in if exceeds tot then True
                 else fold_until (l2_term a b) (\<lambda>i. exceeds) [m + blocks_end 8 (n - m)..<n] tot = None))"

definition fvec_l2sqr_scaled_exceeds_simd :: "arch \<Rightarrow> f32 list \<Rightarrow> f32 list \<Rightarrow> f32 \<Rightarrow> f32 \<Rightarrow> bool" where
  "fvec_l2sqr_scaled_exceeds_simd t a b scale threshold =
     (case t of
        X86_64 avx2 \<Rightarrow> if avx2 \<and> 8 \<le> length a then fvec_l2sqr_scaled_exceeds_avx2 a b scale threshold
                        else fvec_l2sqr_scaled_exceeds_scalar a b scale threshold
      | AArch64 \<Rightarrow> fvec_l2sqr_scaled_exceeds_neon a b scale threshold
      | OtherArch \<Rightarrow> fvec_l2sqr_scaled_exceeds_scalar a b scale threshold)"

definition fvec_l2sqr_scaled_exceeds :: "arch \<Rightarrow> f32 list \<Rightarrow> f32 list \<Rightarrow> f32 \<Rightarrow> f32 \<Rightarrow> bool res" where
  "fvec_l2sqr_scaled_exceeds t a b scale threshold =
     (if length a \<noteq> length b then Inl Panic
      else if \<not> (is_finite scale \<and> f32_le f32_zero scale) then Inl Panic
      else if f32_lt threshold f32_zero then Inr True
      else Inr (fvec_l2sqr_scaled_exceeds_simd t a b scale threshold))"

definition fvec_l2sqr_sub :: "arch \<Rightarrow> f32 list \<Rightarrow> nat \<Rightarrow> f32 list \<Rightarrow> nat \<Rightarrow> nat \<Rightarrow> f32 res" where
  "fvec_l2sqr_sub t a a_off b b_off len =
     bind_res (subslice a_off (a_off + len) a) (\<lambda>sa.
     bind_res (subslice b_off (b_off + len) b) (\<lambda>sb. fvec_l2sqr t sa sb))"

section \<open>Inner product and norm\<close>

definition dot_term :: "f32 list \<Rightarrow> f32 list \<Rightarrow> f32 \<Rightarrow> nat \<Rightarrow> f32" where
  "dot_term a b acc i = f32_add acc (f32_mul (a ! i) (b ! i))"

definition dot_block :: "nat \<Rightarrow> f32 list \<Rightarrow> f32 list \<Rightarrow> f32 list \<Rightarrow> nat \<Rightarrow> f32 list" where
  "dot_block w a b acc i = map2 f32_add acc (map2 f32_mul (load w a i) (load w b i))"

definition fvec_inner_product_scalar :: "f32 list \<Rightarrow> f32 list \<Rightarrow> f32" where
  "fvec_inner_product_scalar a b = foldl (dot_term a b) f32_zero [0..<length a]"

definition fvec_inner_product_avx2 :: "f32 list \<Rightarrow> f32 list \<Rightarrow> f32" where
  "fvec_inner_product_avx2 a b =
     (let n = length a;
          acc = foldl (dot_block 8 a b) (replicate 8 f32_zero) (block_starts 8 n)
      in foldl (dot_term a b) (horizontal_sum_avx2 acc) [blocks_end 8 n..<n])"

definition dot_block_neon :: "f32 list \<Rightarrow> f32 list \<Rightarrow> f32 list \<times> f32 list \<Rightarrow> nat \<Rightarrow> f32 list \<times> f32 list" where
  "dot_block_neon a b accs i = (dot_block 4 a b (fst accs) i, dot_block 4 a b (snd accs) (i + 4))"

definition fvec_inner_product_neon :: "f32 list \<Rightarrow> f32 list \<Rightarrow> f32" where
  "fvec_inner_product_neon a b =
     (let n = length a;
          accs = foldl (dot_block_neon a b) neon_zero (block_starts 8 n)
      in foldl (dot_term a b) (neon_reduce accs) [blocks_end 8 n..<n])"

definition fvec_inner_product_simd :: "arch \<Rightarrow> f32 list \<Rightarrow> f32 list \<Rightarrow> f32" where
  "fvec_inner_product_simd t a b =
     (case t of
        X86_64 avx2 \<Rightarrow> if avx2 \<and> 8 \<le> length a then fvec_inner_product_avx2 a b
                        else fvec_inner_product_scalar a b
      | AArch64 \<Rightarrow> fvec_inner_product_neon a b
      | OtherArch \<Rightarrow> fvec_inner_product_scalar a b)"

text \<open>The length test is a \<open>debug_assert_eq!\<close>; the model has it as every caller keeps it.\<close>

definition fvec_inner_product :: "arch \<Rightarrow> f32 list \<Rightarrow> f32 list \<Rightarrow> f32 res" where
  "fvec_inner_product t a b =
     (if length a = length b then Inr (fvec_inner_product_simd t a b) else Inl Panic)"

definition fvec_norm_l2sqr_scalar :: "f32 list \<Rightarrow> f32" where
  "fvec_norm_l2sqr_scalar a = foldl (\<lambda>acc v. f32_add acc (f32_mul v v)) f32_zero a"

definition fvec_norm_l2sqr_avx2 :: "f32 list \<Rightarrow> f32" where
  "fvec_norm_l2sqr_avx2 a =
     (let n = length a;
          acc = foldl (\<lambda>acc i. lanes_square_add acc (load 8 a i)) (replicate 8 f32_zero) (block_starts 8 n)
      in foldl (\<lambda>acc i. f32_add acc (f32_mul (a ! i) (a ! i))) (horizontal_sum_avx2 acc) [blocks_end 8 n..<n])"

definition fvec_norm_l2sqr_neon :: "f32 list \<Rightarrow> f32" where
  "fvec_norm_l2sqr_neon a =
     (let n = length a;
          accs = foldl (\<lambda>accs i. (lanes_square_add (fst accs) (load 4 a i),
                                  lanes_square_add (snd accs) (load 4 a (i + 4)))) neon_zero (block_starts 8 n)
      in foldl (\<lambda>acc i. f32_add acc (f32_mul (a ! i) (a ! i))) (neon_reduce accs) [blocks_end 8 n..<n])"

definition fvec_norm_l2sqr :: "arch \<Rightarrow> f32 list \<Rightarrow> f32" where
  "fvec_norm_l2sqr t a =
     (case t of
        X86_64 avx2 \<Rightarrow> if avx2 \<and> 8 \<le> length a then fvec_norm_l2sqr_avx2 a else fvec_norm_l2sqr_scalar a
      | AArch64 \<Rightarrow> fvec_norm_l2sqr_neon a
      | OtherArch \<Rightarrow> fvec_norm_l2sqr_scalar a)"

definition fvec_normalize :: "arch \<Rightarrow> f32 list \<Rightarrow> f32 list \<times> f32" where
  "fvec_normalize t v =
     (let norm = f32_sqrt (fvec_norm_l2sqr t v) in
      if f32_lt f32_zero norm
      then (let inverse = f32_div f32_one norm in (map (\<lambda>x. f32_mul x inverse) v, norm))
      else (v, norm))"

section \<open>Distances\<close>

definition fvec_cosine_distance_with_norms ::
  "arch \<Rightarrow> f32 list \<Rightarrow> f32 list \<Rightarrow> f32 \<Rightarrow> f32 \<Rightarrow> f32 res" where
  "fvec_cosine_distance_with_norms t a b a_norm b_norm =
     (let denom = f32_mul a_norm b_norm in
      if f32_lt f32_zero denom
      then bind_res (fvec_inner_product t a b) (\<lambda>dot. Inr (f32_sub f32_one (f32_div dot denom)))
      else Inr f32_one)"

definition fvec_distance :: "arch \<Rightarrow> f32 list \<Rightarrow> f32 list \<Rightarrow> MetricType \<Rightarrow> f32 res" where
  "fvec_distance t query vector metric =
     (case metric of
        L2 \<Rightarrow> fvec_l2sqr t query vector
      | InnerProduct \<Rightarrow> bind_res (fvec_inner_product t query vector) (\<lambda>dot. Inr (f32_neg dot))
      | Cosine \<Rightarrow>
          (let nq = f32_sqrt (fvec_norm_l2sqr t query); nv = f32_sqrt (fvec_norm_l2sqr t vector)
           in fvec_cosine_distance_with_norms t query vector nq nv))"

record query_distance =
  qd_query :: "f32 list"
  qd_metric :: MetricType
  qd_query_norm :: f32

definition query_distance_new :: "arch \<Rightarrow> f32 list \<Rightarrow> MetricType \<Rightarrow> query_distance" where
  "query_distance_new t query metric =
     \<lparr>qd_query = query, qd_metric = metric,
      qd_query_norm = (if metric = Cosine then f32_sqrt (fvec_norm_l2sqr t query) else f32_zero)\<rparr>"

definition distance_to :: "arch \<Rightarrow> query_distance \<Rightarrow> f32 list \<Rightarrow> f32 option \<Rightarrow> f32 res" where
  "distance_to t qd vector vector_norm =
     (case qd_metric qd of
        L2 \<Rightarrow> fvec_l2sqr t (qd_query qd) vector
      | InnerProduct \<Rightarrow> bind_res (fvec_inner_product t (qd_query qd) vector) (\<lambda>dot. Inr (f32_neg dot))
      | Cosine \<Rightarrow>
          (let norm = (case vector_norm of Some v \<Rightarrow> v | None \<Rightarrow> f32_sqrt (fvec_norm_l2sqr t vector))
           in fvec_cosine_distance_with_norms t (qd_query qd) vector (qd_query_norm qd) norm))"

text \<open>\<open>chunks_mut(d)\<close> covers \<open>data[..n * d]\<close> in whole chunks; the parallel branch runs the same
  function on the same chunks.\<close>

definition preprocess_vectors :: "arch \<Rightarrow> f32 list \<Rightarrow> nat \<Rightarrow> nat \<Rightarrow> MetricType \<Rightarrow> f32 list res" where
  "preprocess_vectors t data n d metric =
     bind_res (subslice 0 (n * d) data) (\<lambda>processed.
       if metric = Cosine \<and> 0 < d
       then Inr (concat (map (\<lambda>vector. fst (fvec_normalize t vector)) (chunks_exact d processed)))
       else Inr processed)"

section \<open>Reading an accumulator\<close>

text \<open>An accumulator is read as one \<open>f32\<close>. Its reading is a NaN or not negative, and no
  step lowers it in the order that puts NaN on top; so a probe that finds the reading above a
  threshold has decided the final reading.\<close>

locale accumulator =
  fixes valid :: "'i \<Rightarrow> bool" and ok :: "'s \<Rightarrow> bool"
    and step :: "'s \<Rightarrow> 'i \<Rightarrow> 's" and reading :: "'s \<Rightarrow> f32"
  assumes reading_npos: "ok s \<Longrightarrow> npos (reading s)"
    and step_ok: "valid i \<Longrightarrow> ok s \<Longrightarrow> ok (step s i)"
    and step_lev: "valid i \<Longrightarrow> ok s \<Longrightarrow> lev (reading s) \<le> lev (reading (step s i))"
begin

lemma fold_ok: "list_all valid is \<Longrightarrow> ok s \<Longrightarrow> ok (foldl step s is)"
  by (induction "is" arbitrary: s) (simp_all add: step_ok)

lemma fold_lev: "list_all valid is \<Longrightarrow> ok s \<Longrightarrow> lev (reading s) \<le> lev (reading (foldl step s is))"
proof (induction "is" arbitrary: s)
  case (Cons i "is")
  then have "lev (reading s) \<le> lev (reading (step s i))"
    "lev (reading (step s i)) \<le> lev (reading (foldl step (step s i) is))"
    by (simp_all add: step_ok step_lev)
  then show ?case by simp
qed simp

lemma fold_until_Some: "fold_until step exits is s = Some r \<Longrightarrow> r = foldl step s is"
  by (induction "is" arbitrary: s) (auto simp: Let_def split: if_splits)

lemma fold_until_None:
  assumes "fold_until step exits is s = None" "list_all valid is" "ok s"
    and "\<And>i s. exits i s \<Longrightarrow> over (reading s)"
  shows "\<exists>m. npos m \<and> over m \<and> lev m \<le> lev (reading (foldl step s is))"
  using assms(1-3)
proof (induction "is" arbitrary: s)
  case (Cons i "is")
  let ?s = "step s i"
  have ok: "ok ?s" and v: "list_all valid is" using Cons.prems(2,3) step_ok by auto
  show ?case
  proof (cases "exits i ?s")
    case True
    then show ?thesis using assms(4) ok fold_lev[OF v ok] reading_npos by auto
  next
    case False
    then show ?thesis using Cons.IH[of ?s] Cons.prems(1) ok v by (simp add: Let_def)
  qed
qed simp

end

lemma foldl_mono_init:
  assumes "npos s" "npos s'" "lev s \<le> lev s'"
  shows "npos (foldl (l2_term a b) s is) \<and> npos (foldl (l2_term a b) s' is)
    \<and> lev (foldl (l2_term a b) s is) \<le> lev (foldl (l2_term a b) s' is)"
  using assms
proof (induction "is" arbitrary: s s')
  case (Cons i "is")
  then have "npos (l2_term a b s i)" "npos (l2_term a b s' i)" "lev (l2_term a b s i) \<le> lev (l2_term a b s' i)"
    by (simp_all add: l2_term_def Let_def npos_add npos_square lev_add_mono)
  from Cons.IH[OF this] show ?case by simp
qed simp

interpretation scalar_acc: accumulator "\<lambda>_. True" npos "l2_term a b" "\<lambda>s. s" for a b
  by unfold_locales (simp_all add: l2_term_def Let_def npos_add npos_square lev_add_ge)

text \<open>The lanes of a register of accumulators.\<close>

definition lanes_ok :: "nat \<Rightarrow> f32 list \<Rightarrow> bool" where
  "lanes_ok w xs \<longleftrightarrow> length xs = w \<and> list_all npos xs"

definition lanes_le :: "f32 list \<Rightarrow> f32 list \<Rightarrow> bool" where
  "lanes_le = list_all2 (\<lambda>x y. npos x \<and> npos y \<and> lev x \<le> lev y)"

lemma lanes_le_add:
  assumes "lanes_le xs xs'" "lanes_le ys ys'"
  shows "lanes_le (map2 f32_add xs ys) (map2 f32_add xs' ys')"
  using assms unfolding lanes_le_def
  by (auto simp: list_all2_conv_all_nth npos_add lev_add_mono)

lemma lanes_le_nth: "lanes_le xs ys \<Longrightarrow> i < length xs \<Longrightarrow> npos (xs ! i) \<and> npos (ys ! i) \<and> lev (xs ! i) \<le> lev (ys ! i)"
  by (auto simp: lanes_le_def list_all2_conv_all_nth)

lemma lanes_le_refl: "lanes_ok w xs \<Longrightarrow> lanes_le xs xs"
  by (auto simp: lanes_le_def lanes_ok_def list_all2_conv_all_nth list_all_length)

lemma lanes_le_ok: "lanes_le xs ys \<Longrightarrow> length xs = w \<Longrightarrow> lanes_ok w xs \<and> lanes_ok w ys"
  by (auto simp: lanes_le_def lanes_ok_def list_all2_conv_all_nth list_all_length)

lemma lanes_ok_add: "lanes_ok w xs \<Longrightarrow> lanes_ok w ys \<Longrightarrow> lanes_ok w (map2 f32_add xs ys)"
  by (auto simp: lanes_ok_def list_all_length npos_add)

lemma lanes_ok_square: "length diff = w \<Longrightarrow> lanes_ok w (map2 f32_mul diff diff)"
  by (auto simp: lanes_ok_def list_all_length npos_square)

lemma lanes_ok_zero [simp]: "lanes_ok w (replicate w f32_zero)"
  by (simp add: lanes_ok_def list_all_length)

lemma lanes_le_add_right: "lanes_ok w xs \<Longrightarrow> lanes_ok w ys \<Longrightarrow> lanes_le xs (map2 f32_add xs ys)"
  by (auto simp: lanes_le_def lanes_ok_def list_all2_conv_all_nth list_all_length npos_add lev_add_ge)

text \<open>A block is read where both vectors have a whole one.\<close>

definition block_at :: "nat \<Rightarrow> f32 list \<Rightarrow> f32 list \<Rightarrow> nat \<Rightarrow> bool" where
  "block_at w a b i \<longleftrightarrow> i + w \<le> length a \<and> i + w \<le> length b"

lemma length_block_diff:
  "block_at w a b i \<Longrightarrow> length (map2 f32_sub (load w a i) (load w b i)) = w"
  by (auto simp: block_at_def load_def slice_def)

lemma l2_block_ok: "block_at w a b i \<Longrightarrow> lanes_ok w acc \<Longrightarrow> lanes_ok w (l2_block w a b acc i)"
  unfolding l2_block_def lanes_square_add_def
  by (rule lanes_ok_add) (auto intro: lanes_ok_square length_block_diff)

lemma l2_block_le: "block_at w a b i \<Longrightarrow> lanes_ok w acc \<Longrightarrow> lanes_le acc (l2_block w a b acc i)"
  unfolding l2_block_def lanes_square_add_def
  by (rule lanes_le_add_right) (auto intro: lanes_ok_square length_block_diff)

lemma horizontal_sum_avx2_8:
  "length acc = 8 \<Longrightarrow> horizontal_sum_avx2 acc =
     f32_add (f32_add (f32_add (acc ! 0) (acc ! 4)) (f32_add (acc ! 2) (acc ! 6)))
             (f32_add (f32_add (acc ! 1) (acc ! 5)) (f32_add (acc ! 3) (acc ! 7)))"
  by (simp add: horizontal_sum_avx2_def Let_def)

lemma horizontal_sum_avx2_mono:
  assumes "lanes_le xs ys" "length xs = 8"
  shows "npos (horizontal_sum_avx2 xs) \<and> lev (horizontal_sum_avx2 xs) \<le> lev (horizontal_sum_avx2 ys)"
proof -
  have "length ys = 8" using assms by (simp add: lanes_le_def list_all2_lengthD)
  note sums = horizontal_sum_avx2_8[OF assms(2)] horizontal_sum_avx2_8[OF this]
  have "i < 8 \<Longrightarrow> npos (xs ! i)" "i < 8 \<Longrightarrow> npos (ys ! i)" "i < 8 \<Longrightarrow> lev (xs ! i) \<le> lev (ys ! i)" for i
    using lanes_le_nth[OF assms(1)] assms(2) by auto
  then show ?thesis unfolding sums by (intro conjI lev_add_mono npos_add) simp_all
qed

interpretation avx2_acc: accumulator "block_at 8 a b" "lanes_ok 8" "l2_block 8 a b" horizontal_sum_avx2 for a b
proof unfold_locales
  fix s assume "lanes_ok 8 s"
  then show "npos (horizontal_sum_avx2 s)"
    using horizontal_sum_avx2_mono[OF lanes_le_refl] by (auto simp: lanes_ok_def)
next
  fix i s assume "block_at 8 a b i" "lanes_ok 8 s"
  then show "lev (horizontal_sum_avx2 s) \<le> lev (horizontal_sum_avx2 (l2_block 8 a b s i))"
    using horizontal_sum_avx2_mono[OF l2_block_le] by (auto simp: lanes_ok_def)
qed (rule l2_block_ok)

definition neon_ok :: "f32 list \<times> f32 list \<Rightarrow> bool" where
  "neon_ok s \<longleftrightarrow> lanes_ok 4 (fst s) \<and> lanes_ok 4 (snd s)"

lemma neon_reduce_mono:
  assumes "lanes_le (fst s) (fst s')" "lanes_le (snd s) (snd s')" "neon_ok s" "neon_ok s'"
  shows "npos (neon_reduce s) \<and> lev (neon_reduce s) \<le> lev (neon_reduce s')"
proof -
  have "lanes_le (map2 f32_add (fst s) (snd s)) (map2 f32_add (fst s') (snd s'))"
    using assms(1,2) by (rule lanes_le_add)
  from lanes_le_nth[OF this] assms(3,4) show ?thesis unfolding neon_reduce_def vaddvq_f32_def
    by (intro conjI lev_add_mono npos_add) (auto simp del: nth_map nth_zip simp: neon_ok_def lanes_ok_def)
qed

interpretation neon_acc: accumulator "block_at 8 a b" neon_ok "l2_block_neon a b" neon_reduce for a b
proof unfold_locales
  fix s assume "neon_ok s"
  then show "npos (neon_reduce s)"
    using neon_reduce_mono[of s s] by (simp add: neon_ok_def lanes_le_refl[of 4])
next
  fix i s assume "block_at 8 a b i" and ok: "neon_ok s"
  then have b: "block_at 4 a b i" "block_at 4 a b (i + 4)" by (auto simp: block_at_def)
  show ok': "neon_ok (l2_block_neon a b s i)"
    using ok b by (simp add: neon_ok_def l2_block_neon_def l2_block_ok)
  show "lev (neon_reduce s) \<le> lev (neon_reduce (l2_block_neon a b s i))"
    using neon_reduce_mono[OF _ _ ok ok'] ok b by (simp add: neon_ok_def l2_block_neon_def l2_block_le)
qed

section \<open>The early-abandoning kernels agree with the plain ones\<close>

lemma block_starts_valid:
  assumes "length a = length b"
  shows "list_all (block_at w a b) (block_starts w (length a))"
proof -
  have "w * k + w \<le> length a" if "k < length a div w" for k
  proof -
    have "w * Suc k \<le> w * (length a div w)" using that by (intro mult_le_mono2) simp
    then show ?thesis using times_div_less_eq_dividend[of w "length a"] unfolding mult_Suc_right by linarith
  qed
  then show ?thesis using assms by (auto simp: block_starts_def block_at_def list_all_iff)
qed

lemma foldl_blocks:
  "foldl (\<lambda>s i. foldl f s [i..<i + w]) s (map (\<lambda>k. w * k) [0..<k]) = foldl f s [0..<w * k]"
proof (induction k)
  case (Suc k)
  have "[0..<w * Suc k] = [0..<w * k] @ [w * k..<w * k + w]"
    using upt_add_eq_append[of 0 "w * k" w] by (simp add: add.commute)
  then show ?case using Suc by simp
qed simp

lemma foldl_upt_split: "a \<le> b \<Longrightarrow> b \<le> c \<Longrightarrow> foldl f (foldl f s [a..<b]) [b..<c] = foldl f s [a..<c]"
  by (metis foldl_append le_add_diff_inverse upt_add_eq_append)

interpretation block_acc: accumulator "\<lambda>_. True" npos "\<lambda>s i. foldl (l2_term a b) s [i..<i + w]" "\<lambda>s. s" for a b w
  by unfold_locales (simp_all add: scalar_acc.fold_ok scalar_acc.fold_lev list_all_iff)

text \<open>What a probing kernel may answer when the plain kernel's value is \<open>d\<close>.\<close>

definition unless_spec :: "f32 \<Rightarrow> f32 \<Rightarrow> f32 option \<Rightarrow> bool" where
  "unless_spec threshold d r \<longleftrightarrow>
     (case r of None \<Rightarrow> is_nan d \<or> f32_lt threshold d | Some v \<Rightarrow> v = d \<and> \<not> f32_lt threshold d)"

lemma unless_spec_None:
  "npos m \<Longrightarrow> f32_lt threshold m \<Longrightarrow> lev m \<le> lev d \<Longrightarrow> npos d \<Longrightarrow> unless_spec threshold d None"
  by (auto simp: unless_spec_def intro: f32_lt_lev)

lemma unless_scalar_spec: "unless_spec threshold (fvec_l2sqr_scalar a b) (fvec_l2sqr_unless_exceeds_scalar a b threshold)"
proof -
  let ?n = "length a" let ?k = "(length a - 1) div L2_PROBE_STRIDE"
  let ?m = "blocks_end L2_PROBE_STRIDE (?n - 1)"
  let ?f = "l2_term a b" let ?s = "foldl ?f f32_zero [0..<?m]"
  have full: "foldl ?f ?s [?m..<?n] = fvec_l2sqr_scalar a b"
    unfolding fvec_l2sqr_scalar_def blocks_end_def
    by (rule foldl_upt_split) (use times_div_less_eq_dividend[of L2_PROBE_STRIDE "?n - 1"] in linarith)+
  have npos: "npos ?s" "npos (fvec_l2sqr_scalar a b)"
    by (simp_all add: fvec_l2sqr_scalar_def scalar_acc.fold_ok list_all_iff)
  have blocks: "foldl (\<lambda>s i. foldl ?f s [i..<i + L2_PROBE_STRIDE]) f32_zero (block_starts L2_PROBE_STRIDE (?n - 1)) = ?s"
    unfolding block_starts_def blocks_end_def by (rule foldl_blocks)
  show ?thesis
  proof (cases "fold_until (\<lambda>s i. foldl ?f s [i..<i + L2_PROBE_STRIDE]) (\<lambda>i s. f32_lt threshold s)
      (block_starts L2_PROBE_STRIDE (?n - 1)) f32_zero")
    case None
    from block_acc.fold_until_None[OF this, of "f32_lt threshold"] blocks
    obtain m where m: "npos m" "f32_lt threshold m" "lev m \<le> lev ?s" by (auto simp: list_all_iff)
    have "lev ?s \<le> lev (fvec_l2sqr_scalar a b)"
      using scalar_acc.fold_lev[of "[?m..<?n]" ?s a b] npos(1) full by (simp add: list_all_iff)
    then show ?thesis using None m npos(2)
      by (simp add: fvec_l2sqr_unless_exceeds_scalar_def unless_spec_None[of m])
  next
    case (Some r)
    from block_acc.fold_until_Some[OF this] blocks have "r = ?s" by simp
    then show ?thesis using Some full
      by (auto simp: fvec_l2sqr_unless_exceeds_scalar_def Let_def unless_spec_def)
  qed
qed

text \<open>The shape both vector kernels share: probed blocks, a probe of the reduction, and a tail
  probed at every element.\<close>

lemma unless_blocks_spec:
  assumes acc: "accumulator valid ok step reading"
    and valid: "list_all valid is" and ok: "ok s0"
    and exits: "\<And>i s. exits i s \<Longrightarrow> f32_lt threshold (reading s)"
  shows "unless_spec threshold (foldl (l2_term a b) (reading (foldl step s0 is)) js)
    (case fold_until step exits is s0 of
       None \<Rightarrow> None
     | Some s \<Rightarrow> (let result = reading s in
         if f32_lt threshold result then None
         else fold_until (l2_term a b) (\<lambda>i r. f32_lt threshold r) js result))"
    (is "unless_spec _ ?d _")
proof -
  let ?r = "reading (foldl step s0 is)"
  have r: "npos ?r" using accumulator.fold_ok[OF acc valid ok] by (rule accumulator.reading_npos[OF acc])
  then have d: "npos ?d" "lev ?r \<le> lev ?d" by (simp_all add: scalar_acc.fold_ok scalar_acc.fold_lev list_all_iff)
  have tail_None: "unless_spec threshold ?d None" if "fold_until (l2_term a b) (\<lambda>i r. f32_lt threshold r) js ?r = None"
    using scalar_acc.fold_until_None[OF that _ r, of "f32_lt threshold"] d(1) by (auto simp: list_all_iff intro: unless_spec_None)
  have last: "\<not> f32_lt threshold v" if "fold_until (l2_term a b) (\<lambda>i r. f32_lt threshold r) js r = Some v" "\<not> f32_lt threshold r" for r v
    using that by (induction js arbitrary: r) (auto simp: Let_def split: if_splits)
  show ?thesis
  proof (cases "fold_until step exits is s0")
    case None
    from accumulator.fold_until_None[OF acc this valid ok, of "f32_lt threshold"] exits
    obtain m where "npos m" "f32_lt threshold m" "lev m \<le> lev ?r" by blast
    then show ?thesis using None d by (auto intro: unless_spec_None[of m])
  next
    case (Some s)
    have s: "reading s = ?r" using accumulator.fold_until_Some[OF acc Some] by simp
    show ?thesis
    proof (cases "f32_lt threshold ?r")
      case True
      then show ?thesis using Some s r d by (auto simp: Let_def intro: unless_spec_None[of ?r])
    next
      case False
      then show ?thesis using Some s tail_None last[OF _ False] scalar_acc.fold_until_Some
        by (cases "fold_until (l2_term a b) (\<lambda>i r. f32_lt threshold r) js ?r")
          (fastforce simp: Let_def unless_spec_def)+
    qed
  qed
qed

lemma unless_avx2_spec:
  assumes "length a = length b"
  shows "unless_spec threshold (fvec_l2sqr_avx2 a b) (fvec_l2sqr_unless_exceeds_avx2 a b threshold)"
  unfolding fvec_l2sqr_avx2_def fvec_l2sqr_unless_exceeds_avx2_def Let_def[of "length a"] Let_def[of "foldl _ _ _"]
  by (rule unless_blocks_spec[OF avx2_acc.accumulator_axioms block_starts_valid[OF assms]]) simp_all

lemma unless_neon_spec:
  assumes "length a = length b"
  shows "unless_spec threshold (fvec_l2sqr_neon a b) (fvec_l2sqr_unless_exceeds_neon a b threshold)"
  unfolding fvec_l2sqr_neon_def fvec_l2sqr_unless_exceeds_neon_def Let_def[of "length a"] Let_def[of "foldl _ _ _"]
  by (rule unless_blocks_spec[OF neon_acc.accumulator_axioms block_starts_valid[OF assms]])
    (simp_all add: neon_ok_def neon_zero_def)

lemma unless_simd_spec:
  "length a = length b \<Longrightarrow> unless_spec threshold (fvec_l2sqr_simd t a b) (fvec_l2sqr_unless_exceeds_simd t a b threshold)"
  by (auto simp: fvec_l2sqr_simd_def fvec_l2sqr_unless_exceeds_simd_def unless_scalar_spec unless_avx2_spec
      unless_neon_spec split: arch.split)

section \<open>Finite operands give no NaN\<close>

definition clean :: "f32 \<Rightarrow> bool" where
  "clean x \<longleftrightarrow> npos x \<and> \<not> is_nan x"

lemma clean_zero [simp]: "clean f32_zero"
  by (simp add: clean_def)

lemma clean_add: "clean x \<Longrightarrow> clean y \<Longrightarrow> clean (f32_add x y)"
  by (simp add: clean_def npos_add f32_add_npos_not_nan)

lemma clean_square: "\<not> is_nan x \<Longrightarrow> clean (f32_mul x x)"
  by (simp add: clean_def npos_square f32_square_not_nan)

lemma foldl_invariant: "(\<And>i s. i \<in> set is \<Longrightarrow> P s \<Longrightarrow> P (f s i)) \<Longrightarrow> P s \<Longrightarrow> P (foldl f s is)"
  by (induction "is" arbitrary: s) simp_all

definition finite_vec :: "f32 list \<Rightarrow> bool" where
  "finite_vec = list_all is_finite"

lemma finite_vec_nth: "finite_vec a \<Longrightarrow> i < length a \<Longrightarrow> is_finite (a ! i)"
  by (simp add: finite_vec_def list_all_length)

lemma finite_vec_row_of: "finite_vec vectors \<Longrightarrow> finite_vec (row_of d vectors i)"
  by (auto simp: finite_vec_def row_of_def slice_def list_all_iff dest!: in_set_takeD in_set_dropD)

lemma l2_term_clean:
  "finite_vec a \<Longrightarrow> finite_vec b \<Longrightarrow> i < length a \<Longrightarrow> i < length b \<Longrightarrow> clean s \<Longrightarrow> clean (l2_term a b s i)"
  by (simp add: l2_term_def Let_def clean_add clean_square f32_sub_finite_not_nan finite_vec_nth)

definition lanes_clean :: "nat \<Rightarrow> f32 list \<Rightarrow> bool" where
  "lanes_clean w xs \<longleftrightarrow> length xs = w \<and> list_all clean xs"

lemma lanes_clean_add: "lanes_clean w xs \<Longrightarrow> lanes_clean w ys \<Longrightarrow> lanes_clean w (map2 f32_add xs ys)"
  by (auto simp: lanes_clean_def list_all_length clean_add)

lemma lanes_clean_zero [simp]: "lanes_clean w (replicate w f32_zero)"
  by (simp add: lanes_clean_def list_all_length)

lemma l2_block_clean:
  assumes "finite_vec a" "finite_vec b" "block_at w a b i" "lanes_clean w acc"
  shows "lanes_clean w (l2_block w a b acc i)"
  unfolding l2_block_def lanes_square_add_def
proof (rule lanes_clean_add[OF assms(4)])
  have "\<not> is_nan (f32_sub (load w a i ! k) (load w b i ! k))" if "k < w" for k
    using that assms by (simp add: load_def slice_def block_at_def f32_sub_finite_not_nan finite_vec_nth)
  then show "lanes_clean w (map2 f32_mul (map2 f32_sub (load w a i) (load w b i)) (map2 f32_sub (load w a i) (load w b i)))"
    using assms(3) by (auto simp: lanes_clean_def list_all_length load_def slice_def block_at_def clean_square)
qed

lemma horizontal_sum_clean: "lanes_clean 8 acc \<Longrightarrow> clean (horizontal_sum_avx2 acc)"
  by (simp add: lanes_clean_def horizontal_sum_avx2_8 list_all_length clean_add)

lemma vaddvq_clean: "lanes_clean 4 v \<Longrightarrow> clean (vaddvq_f32 v)"
  by (simp add: lanes_clean_def vaddvq_f32_def list_all_length clean_add)

lemma l2_tail_clean:
  assumes "finite_vec a" "finite_vec b" "length a = length b" "clean s"
  shows "clean (foldl (l2_term a b) s [m..<length a])"
  by (rule foldl_invariant[where P = clean]) (use assms in \<open>auto intro: l2_term_clean\<close>)

lemma block_starts_block_at: "length a = length b \<Longrightarrow> i \<in> set (block_starts w (length a)) \<Longrightarrow> block_at w a b i"
  using block_starts_valid[of a b w] by (simp add: list_all_iff)

lemma fvec_l2sqr_avx2_clean:
  assumes "finite_vec a" "finite_vec b" "length a = length b"
  shows "clean (fvec_l2sqr_avx2 a b)"
proof -
  have "lanes_clean 8 (foldl (l2_block 8 a b) (replicate 8 f32_zero) (block_starts 8 (length a)))"
    by (rule foldl_invariant[where P = "lanes_clean 8"])
      (simp_all add: l2_block_clean[OF assms(1,2)] block_starts_block_at[OF assms(3)])
  then show ?thesis unfolding fvec_l2sqr_avx2_def Let_def
    by (intro l2_tail_clean[OF assms] horizontal_sum_clean)
qed

lemma fvec_l2sqr_neon_clean:
  assumes "finite_vec a" "finite_vec b" "length a = length b"
  shows "clean (fvec_l2sqr_neon a b)"
proof -
  let ?P = "\<lambda>s. lanes_clean 4 (fst s) \<and> lanes_clean 4 (snd s)"
  let ?s = "foldl (l2_block_neon a b) neon_zero (block_starts 8 (length a))"
  have "?P ?s"
  proof (rule foldl_invariant[where P = ?P])
    fix i s assume "i \<in> set (block_starts 8 (length a))" "?P s"
    moreover from block_starts_block_at[OF assms(3) this(1)] have "block_at 4 a b i" "block_at 4 a b (i + 4)"
      by (auto simp: block_at_def)
    ultimately show "?P (l2_block_neon a b s i)"
      using assms by (simp add: l2_block_neon_def l2_block_clean)
  qed (simp add: neon_zero_def)
  then have "clean (neon_reduce ?s)" unfolding neon_reduce_def by (blast intro: vaddvq_clean lanes_clean_add)
  then show ?thesis unfolding fvec_l2sqr_neon_def Let_def by (rule l2_tail_clean[OF assms])
qed

lemma fvec_l2sqr_simd_clean:
  assumes "finite_vec a" "finite_vec b" "length a = length b"
  shows "clean (fvec_l2sqr_simd t a b)"
  using assms fvec_l2sqr_avx2_clean fvec_l2sqr_neon_clean l2_tail_clean[OF assms, of f32_zero 0]
  by (auto simp: fvec_l2sqr_simd_def fvec_l2sqr_scalar_def split: arch.split)

section \<open>Four candidates give the four single values\<close>

lemma foldl_map2:
  "length ss = length bs \<Longrightarrow>
   foldl (\<lambda>ss i. map2 (\<lambda>b s. f b s i) bs ss) ss is = map2 (\<lambda>b s. foldl (f b) s is) bs ss"
proof (induction "is" arbitrary: ss)
  case Nil
  then show ?case by (auto intro: nth_equalityI)
next
  case (Cons i "is")
  have "map2 (\<lambda>b s. foldl (f b) s is) bs (map2 (\<lambda>b s. f b s i) bs ss) = map2 (\<lambda>b s. foldl (f b) (f b s i) is) bs ss"
    using Cons.prems by (auto intro: nth_equalityI)
  then show ?case using Cons by simp
qed

lemma map2_replicate: "length bs = n \<Longrightarrow> map2 f bs (replicate n z) = map (\<lambda>b. f b z) bs"
  by (auto intro: nth_equalityI)

lemma four_simd: "length candidates = 4 \<Longrightarrow> fvec_l2sqr_four_simd t a candidates = map (fvec_l2sqr_simd t a) candidates"
proof -
  assume l: "length candidates = 4"
  have m2: "map2 f candidates (map (\<lambda>b. g b) candidates) = map (\<lambda>b. f b (g b)) candidates" for f :: "_ \<Rightarrow> 'b \<Rightarrow> 'c" and g
    by (auto intro: nth_equalityI)
  show ?thesis using l
    by (auto simp: fvec_l2sqr_four_simd_def fvec_l2sqr_simd_def fvec_l2sqr_four_scalar_def fvec_l2sqr_four_avx2_def
        fvec_l2sqr_four_neon_def fvec_l2sqr_scalar_def fvec_l2sqr_avx2_def fvec_l2sqr_neon_def Let_def
        foldl_map2 map2_replicate m2 comp_def split: arch.split)
qed

section \<open>The exits of the scaled test do not change its answer\<close>

lemma f32_mul_finite_npos:
  assumes "\<not> sign x" "is_finite x" "code x \<noteq> 0" "npos y"
  shows "npos (f32_mul x y)"
    and "lev (f32_mul x y) = (if F32_INF_CODE \<le> lev y then lev y
           else round_ratio 23 F32_INF_CODE (mag 23 (code x) * mag 23 (code y)) (2 ^ 149))"
  using assms le_SucI[OF round_ratio_le_inf, of 23 F32_INF_CODE]
  by (auto simp: f32_mul_def Let_def npos_def is_nan_def is_inf_def is_finite_def lev_def round_ratio_le_inf
      min_def mk_f32_le_inf F32_INF_CODE_def)

lemma scaled_lt_mono:
  assumes scale: "is_finite scale" "f32_le f32_zero scale" and t: "\<not> f32_lt threshold f32_zero"
    and x: "npos x" and y: "npos y" "\<not> is_nan y" and le: "lev x \<le> lev y"
    and lt: "f32_lt threshold (f32_mul scale x)"
  shows "f32_lt threshold (f32_mul scale y)"
proof (cases "code scale = 0")
  case True
  have "f32_mul scale x = f32_NAN \<or> code (f32_mul scale x) = 0"
    using True scale(1) by (auto simp: f32_mul_def Let_def is_finite_def is_inf_def is_nan_def round_ratio_0)
  then have "\<not> f32_lt threshold (f32_mul scale x)"
    using t by (auto simp: f32_lt_def scode_def is_nan_def F32_INF_CODE_def split: if_splits)
  then show ?thesis using lt by simp
next
  case False
  then have pos: "\<not> sign scale" using scale(2) by (auto simp: f32_le_def scode_def)
  note mul = f32_mul_finite_npos[OF pos scale(1) False]
  have fin: "code x \<le> code y" if "lev y < F32_INF_CODE"
    using that le by (auto simp: lev_def min_def split: if_splits)
  have r: "round_ratio 23 F32_INF_CODE (mag 23 (code scale) * mag 23 (code x)) (2 ^ 149)
      \<le> round_ratio 23 F32_INF_CODE (mag 23 (code scale) * mag 23 (code y)) (2 ^ 149)" if "lev y < F32_INF_CODE"
    by (rule round_ratio_mono) (simp_all add: fin[OF that] mag_mono)
  have "lev (f32_mul scale x) \<le> lev (f32_mul scale y)"
    unfolding mul(2)[OF x] mul(2)[OF y(1)] using le r
      order_trans[OF round_ratio_le_inf, of "F32_INF_CODE" "lev y"] by (auto simp: not_le)
  moreover have "\<not> is_nan (f32_mul scale y)"
    using mul(2)[OF y(1)] y(2) round_ratio_le_inf[of 23 F32_INF_CODE "mag 23 (code scale) * mag 23 (code y)" "2 ^ 149"]
    by (auto simp: lev_nan_iff not_le)
  ultimately show ?thesis using lt mul(1)[OF x] mul(1)[OF y(1)] by (blast intro: f32_lt_lev)
qed

text \<open>The totals the kernels form when no exit is taken.\<close>

definition l2_total_blocks ::
  "nat \<Rightarrow> (f32 list \<Rightarrow> f32) \<Rightarrow> (f32 list \<Rightarrow> f32 list \<Rightarrow> nat list \<Rightarrow> f32) \<Rightarrow> f32 list \<Rightarrow> f32 list \<Rightarrow> f32" where
  "l2_total_blocks w reduce tail a b =
     (let n = length a; m = blocks_end 128 n;
          tot = f32_add (foldl (l2_block128 w reduce a b) f32_zero (block_starts 128 n))
                  (tail a b (map (\<lambda>i. m + i) (block_starts 8 (n - m))))
      in foldl (l2_term a b) tot [m + blocks_end 8 (n - m)..<n])"

definition avx2_tail :: "f32 list \<Rightarrow> f32 list \<Rightarrow> nat list \<Rightarrow> f32" where
  "avx2_tail a b is = horizontal_sum_avx2 (foldl (l2_block 8 a b) (replicate 8 f32_zero) is)"

definition neon_tail :: "f32 list \<Rightarrow> f32 list \<Rightarrow> nat list \<Rightarrow> f32" where
  "neon_tail a b is = neon_reduce (foldl (l2_block_neon a b) neon_zero is)"

definition l2_total :: "arch \<Rightarrow> f32 list \<Rightarrow> f32 list \<Rightarrow> f32" where
  "l2_total t a b =
     (case t of
        X86_64 avx2 \<Rightarrow> if avx2 \<and> 8 \<le> length a then l2_total_blocks 8 horizontal_sum_avx2 avx2_tail a b
                        else fvec_l2sqr_scalar a b
      | AArch64 \<Rightarrow> l2_total_blocks 4 vaddvq_f32 neon_tail a b
      | OtherArch \<Rightarrow> fvec_l2sqr_scalar a b)"

text \<open>A test that stays true as a clean reading grows.\<close>

definition stays :: "(f32 \<Rightarrow> bool) \<Rightarrow> bool" where
  "stays over \<longleftrightarrow> (\<forall>x y. npos x \<longrightarrow> npos y \<longrightarrow> \<not> is_nan y \<longrightarrow> lev x \<le> lev y \<longrightarrow> over x \<longrightarrow> over y)"

lemma staysD: "stays over \<Longrightarrow> over x \<Longrightarrow> npos x \<Longrightarrow> clean y \<Longrightarrow> lev x \<le> lev y \<Longrightarrow> over y"
  unfolding stays_def clean_def by blast

lemma fold_until_last:
  "fold_until step (\<lambda>i. over) is s = Some v \<Longrightarrow> \<not> over s \<Longrightarrow> \<not> over v"
  by (induction "is" arbitrary: s) (auto simp: Let_def split: if_splits)

lemma tail_exits:
  assumes "stays over" "npos s" "clean (foldl (l2_term a b) s is)" "\<not> over s"
  shows "fold_until (l2_term a b) (\<lambda>i. over) is s = None \<longleftrightarrow> over (foldl (l2_term a b) s is)"
proof (cases "fold_until (l2_term a b) (\<lambda>i. over) is s")
  case None
  from scalar_acc.fold_until_None[OF this _ assms(2), of over]
  obtain m where "npos m" "over m" "lev m \<le> lev (foldl (l2_term a b) s is)" by (auto simp: list_all_iff)
  then show ?thesis using None staysD[OF assms(1)] assms(3) by blast
next
  case (Some v)
  then show ?thesis using fold_until_last[OF Some assms(4)] scalar_acc.fold_until_Some[OF Some] by simp
qed

lemma blocks_exits:
  assumes st: "stays over" and acc: "accumulator valid npos step (\<lambda>s. s)" and valid: "list_all valid is"
    and tail: "npos tv" and cl: "clean (foldl (l2_term a b) (f32_add (foldl step f32_zero is) tv) js)" (is "clean ?d")
  shows "(case fold_until step (\<lambda>i. over) is f32_zero of
       None \<Rightarrow> True
     | Some tot0 \<Rightarrow> (let tot = f32_add tot0 tv in
         if over tot then True else fold_until (l2_term a b) (\<lambda>i. over) js tot = None)) \<longleftrightarrow> over ?d"
proof -
  let ?b = "foldl step f32_zero is" let ?t = "f32_add ?b tv"
  have np: "npos ?b" "npos ?t" using accumulator.fold_ok[OF acc valid npos_zero] tail by (simp_all add: npos_add)
  have le: "lev ?b \<le> lev ?t" "lev ?t \<le> lev ?d"
    using np tail by (simp_all add: lev_add_ge scalar_acc.fold_lev list_all_iff)
  show ?thesis
  proof (cases "fold_until step (\<lambda>i. over) is f32_zero")
    case None
    from accumulator.fold_until_None[OF acc this valid npos_zero, of over]
    obtain m where "npos m" "over m" "lev m \<le> lev ?b" by blast
    then have "over ?d" using staysD[OF st _ _ cl, of m] le by simp
    then show ?thesis using None by simp
  next
    case (Some v)
    then have v: "v = ?b" using accumulator.fold_until_Some[OF acc Some] by simp
    have "over ?t \<Longrightarrow> over ?d" using staysD[OF st _ np(2) cl le(2)] .
    then show ?thesis using Some v tail_exits[OF st np(2) cl] by (simp add: Let_def)
  qed
qed

text \<open>A block of 128 elements adds a clean number when the vectors are finite, and a NaN or a
  number that is not negative in any case.\<close>

definition regs_all :: "(nat \<Rightarrow> f32 list \<Rightarrow> bool) \<Rightarrow> nat \<Rightarrow> f32 list list \<Rightarrow> bool" where
  "regs_all P w accs \<longleftrightarrow> length accs = 4 \<and> list_all (P w) accs"

lemma block128_at:
  assumes "block_at 128 a b i" "j \<in> set (block_starts (4 * w) 128)" "k < 4"
  shows "block_at w a b (i + j + [0, w, 2 * w, 3 * w] ! k)"
proof -
  obtain q where q: "j = 4 * w * q" "q < 128 div (4 * w)" using assms(2) by (simp add: block_starts_def image_iff Bex_def) blast
  have "4 * w * Suc q \<le> 4 * w * (128 div (4 * w))" using q(2) by (intro mult_le_mono2) simp
  then have "j + 4 * w \<le> 128"
    using times_div_less_eq_dividend[of "4 * w" 128] unfolding q(1) mult_Suc_right by linarith
  moreover have "[0, w, 2 * w, 3 * w] ! k \<le> 3 * w" using assms(3) by (auto simp: less_Suc_eq numeral_eq_Suc)
  ultimately show ?thesis using assms(1) by (simp add: block_at_def)
qed

lemma block128_reduce:
  assumes at: "block_at 128 a b i" and zero: "P w (replicate w f32_zero)"
    and step: "\<And>i acc. block_at w a b i \<Longrightarrow> P w acc \<Longrightarrow> P w (l2_block w a b acc i)"
    and add: "\<And>xs ys. P w xs \<Longrightarrow> P w ys \<Longrightarrow> P w (map2 f32_add xs ys)"
    and reduce: "\<And>v. P w v \<Longrightarrow> Q (reduce v)"
  shows "\<exists>v. Q v \<and> l2_block128 w reduce a b tot i = f32_add tot v"
proof -
  let ?step = "\<lambda>accs j. map2 (\<lambda>offset acc. l2_block w a b acc (i + j + offset)) [0, w, 2 * w, 3 * w] accs"
  let ?accs = "foldl ?step (replicate 4 (replicate w f32_zero)) (block_starts (4 * w) 128)"
  have "regs_all P w ?accs"
  proof (rule foldl_invariant[where P = "regs_all P w"])
    fix j accs assume j: "j \<in> set (block_starts (4 * w) 128)" and r: "regs_all P w accs"
    have "P w (?step accs j ! k)" if "k < 4" for k
      using step[OF block128_at[OF at j that], of "accs ! k"] r that
      by (simp add: regs_all_def list_all_length)
    then show "regs_all P w (?step accs j)" using r by (simp add: regs_all_def list_all_length)
  qed (simp add: regs_all_def zero list_all_iff)
  then have "P w (map2 f32_add (map2 f32_add (?accs ! 0) (?accs ! 1)) (map2 f32_add (?accs ! 2) (?accs ! 3)))"
    by (intro add) (simp_all add: regs_all_def list_all_length)
  from reduce[OF this] show ?thesis unfolding l2_block128_def Let_def by blast
qed

lemma vaddvq_npos: "lanes_ok 4 v \<Longrightarrow> npos (vaddvq_f32 v)"
  by (simp add: lanes_ok_def vaddvq_f32_def list_all_length npos_add)

lemma l2_block128_npos:
  assumes "block_at 128 a b i" "w = 8 \<and> reduce = horizontal_sum_avx2 \<or> w = 4 \<and> reduce = vaddvq_f32"
  shows "\<exists>v. npos v \<and> l2_block128 w reduce a b tot i = f32_add tot v"
  by (rule block128_reduce[where P = lanes_ok, OF assms(1)])
    (use assms(2) avx2_acc.reading_npos vaddvq_npos in \<open>auto intro: l2_block_ok lanes_ok_add\<close>)

lemma l2_block128_clean:
  assumes "finite_vec a" "finite_vec b" "block_at 128 a b i"
    and "w = 8 \<and> reduce = horizontal_sum_avx2 \<or> w = 4 \<and> reduce = vaddvq_f32"
  shows "\<exists>v. clean v \<and> l2_block128 w reduce a b tot i = f32_add tot v"
  by (rule block128_reduce[where P = lanes_clean, OF assms(3)])
    (use assms(4) horizontal_sum_clean vaddvq_clean in \<open>auto intro: l2_block_clean[OF assms(1,2)] lanes_clean_add\<close>)

interpretation block128_avx2: accumulator "block_at 128 a b" npos "l2_block128 8 horizontal_sum_avx2 a b" "\<lambda>s. s" for a b
proof unfold_locales
  fix i s assume i: "block_at 128 a b i" and s: "npos s"
  obtain v where "npos v" "l2_block128 8 horizontal_sum_avx2 a b s i = f32_add s v"
    using l2_block128_npos[OF i, of 8 horizontal_sum_avx2 s] by blast
  then show "npos (l2_block128 8 horizontal_sum_avx2 a b s i)"
    "lev s \<le> lev (l2_block128 8 horizontal_sum_avx2 a b s i)" using s by (simp_all add: npos_add lev_add_ge)
qed

interpretation block128_neon: accumulator "block_at 128 a b" npos "l2_block128 4 vaddvq_f32 a b" "\<lambda>s. s" for a b
proof unfold_locales
  fix i s assume i: "block_at 128 a b i" and s: "npos s"
  obtain v where "npos v" "l2_block128 4 vaddvq_f32 a b s i = f32_add s v"
    using l2_block128_npos[OF i, of 4 vaddvq_f32 s] by blast
  then show "npos (l2_block128 4 vaddvq_f32 a b s i)"
    "lev s \<le> lev (l2_block128 4 vaddvq_f32 a b s i)" using s by (simp_all add: npos_add lev_add_ge)
qed

lemma foldl_block128_clean:
  assumes fin: "finite_vec a" "finite_vec b" "length a = length b"
    and "w = 8 \<and> reduce = horizontal_sum_avx2 \<or> w = 4 \<and> reduce = vaddvq_f32"
  shows "clean (foldl (l2_block128 w reduce a b) f32_zero (block_starts 128 (length a)))"
proof (rule foldl_invariant[where P = clean])
  fix i s assume "i \<in> set (block_starts 128 (length a))" "clean s"
  then show "clean (l2_block128 w reduce a b s i)"
    using l2_block128_clean[OF fin(1,2) block_starts_block_at[OF fin(3)] assms(4)] clean_add by metis
qed simp

lemma tail_starts_valid:
  assumes "length a = length b"
  shows "list_all (block_at 8 a b) (map (\<lambda>i. blocks_end 128 (length a) + i)
    (block_starts 8 (length a - blocks_end 128 (length a))))"
proof -
  let ?m = "blocks_end 128 (length a)"
  have "?m \<le> length a" by (simp add: blocks_end_def)
  moreover have "list_all (block_at 8 (drop ?m a) (drop ?m b)) (block_starts 8 (length a - ?m))"
    using block_starts_valid[of "drop ?m a" "drop ?m b" 8] assms by simp
  ultimately show ?thesis using assms by (auto simp: list_all_iff block_at_def)
qed

lemma avx2_tail_clean:
  assumes "finite_vec a" "finite_vec b" "list_all (block_at 8 a b) is"
  shows "clean (avx2_tail a b is)"
  unfolding avx2_tail_def
  by (rule horizontal_sum_clean, rule foldl_invariant[where P = "lanes_clean 8"])
    (use assms in \<open>simp_all add: l2_block_clean list_all_iff\<close>)

lemma neon_tail_clean:
  assumes "finite_vec a" "finite_vec b" "list_all (block_at 8 a b) is"
  shows "clean (neon_tail a b is)"
proof -
  let ?P = "\<lambda>s. lanes_clean 4 (fst s) \<and> lanes_clean 4 (snd s)"
  have "?P (foldl (l2_block_neon a b) neon_zero is)"
  proof (rule foldl_invariant[where P = ?P])
    fix i s assume i: "i \<in> set is" and s: "?P s"
    from i assms(3) have "block_at 4 a b i" "block_at 4 a b (i + 4)" by (auto simp: list_all_iff block_at_def)
    then show "?P (l2_block_neon a b s i)" using s assms by (simp add: l2_block_neon_def l2_block_clean)
  qed (simp add: neon_zero_def)
  then show ?thesis unfolding neon_tail_def neon_reduce_def by (blast intro: vaddvq_clean lanes_clean_add)
qed

lemma l2_total_clean:
  assumes fin: "finite_vec a" "finite_vec b" "length a = length b"
  shows "clean (l2_total t a b)"
proof -
  note starts = block_starts_valid[OF fin(3), of 128] and tails = tail_starts_valid[OF fin(3)]
  note avx2 = avx2_tail_clean[OF fin(1,2) tails] and neon = neon_tail_clean[OF fin(1,2) tails]
  have "clean (fvec_l2sqr_scalar a b)" unfolding fvec_l2sqr_scalar_def by (rule l2_tail_clean[OF fin clean_zero])
  moreover have "clean (l2_total_blocks 8 horizontal_sum_avx2 avx2_tail a b)" unfolding l2_total_blocks_def Let_def
    by (auto intro!: l2_tail_clean[OF fin] clean_add avx2 foldl_block128_clean[OF fin])
  moreover have "clean (l2_total_blocks 4 vaddvq_f32 neon_tail a b)" unfolding l2_total_blocks_def Let_def
    by (auto intro!: l2_tail_clean[OF fin] clean_add neon foldl_block128_clean[OF fin])
  ultimately show ?thesis by (simp add: l2_total_def split: arch.split)
qed

text \<open>A product of a scale and a total is not below zero; it is a number unless zero meets infinity.\<close>

lemma scaled_sign:
  assumes "is_finite scale" "f32_le f32_zero scale" "clean tot" "f32_lt threshold f32_zero"
  shows "f32_lt threshold (f32_mul scale tot) \<longleftrightarrow> \<not> (f32_eq scale f32_zero \<and> is_inf tot)"
proof (cases "code scale = 0")
  case True
  then have eq: "f32_eq scale f32_zero" using assms(1) by (simp add: f32_eq_def scode_def is_nan_def is_finite_def)
  have "f32_mul scale tot = f32_NAN" if "is_inf tot"
    using True that assms(1) by (simp add: f32_mul_def Let_def)
  moreover have "f32_mul scale tot = mk_f32 (sign scale \<noteq> sign tot) 0" if "\<not> is_inf tot"
    using True that assms(1,3) by (simp add: f32_mul_def Let_def clean_def is_finite_def is_inf_def is_nan_def round_ratio_0)
  ultimately show ?thesis using assms(4) eq by (cases "is_inf tot") (simp_all add: f32_lt_def scode_def is_nan_def F32_INF_CODE_def)
next
  case False
  then have pos: "\<not> sign scale" "\<not> f32_eq scale f32_zero" using assms(1,2) by (auto simp: f32_le_def f32_eq_def scode_def)
  have tot: "npos tot" "\<not> is_nan tot" using assms(3) by (simp_all add: clean_def)
  note mul = f32_mul_finite_npos[OF pos(1) assms(1) False tot(1)]
  have "\<not> is_nan (f32_mul scale tot)"
    using mul(2) tot(2) round_ratio_le_inf[of 23 F32_INF_CODE "mag 23 (code scale) * mag 23 (code tot)" "2 ^ 149"]
    by (auto simp: lev_nan_iff not_le)
  then show ?thesis using mul(1) pos(2) assms(4) by (auto simp: f32_lt_def scode_def npos_def)
qed

lemma scaled_exceeds_simd:
  assumes fin: "finite_vec a" "finite_vec b" "length a = length b"
    and scale: "is_finite scale" "f32_le f32_zero scale" and t: "\<not> f32_lt threshold f32_zero"
  shows "fvec_l2sqr_scaled_exceeds_simd arch a b scale threshold \<longleftrightarrow> f32_lt threshold (f32_mul scale (l2_total arch a b))"
proof -
  let ?over = "\<lambda>x. f32_lt threshold (f32_mul scale x)"
  have st: "stays ?over" unfolding stays_def using scaled_lt_mono[OF scale t] by blast
  have "code (f32_mul scale f32_zero) = 0"
    using scale(1) by (simp add: f32_mul_def Let_def is_finite_def is_inf_def is_nan_def round_ratio_0)
  then have z: "\<not> ?over f32_zero" using t by (auto simp: f32_lt_def scode_def)
  note starts = block_starts_valid[OF fin(3), of 128] and tails = tail_starts_valid[OF fin(3)]
  note avx2 = avx2_tail_clean[OF fin(1,2) tails] and neon = neon_tail_clean[OF fin(1,2) tails]
  have s: "fvec_l2sqr_scaled_exceeds_scalar a b scale threshold \<longleftrightarrow> ?over (fvec_l2sqr_scalar a b)"
    unfolding fvec_l2sqr_scaled_exceeds_scalar_def fvec_l2sqr_scalar_def
    by (rule tail_exits[OF st npos_zero l2_tail_clean[OF fin clean_zero] z])
  have a: "fvec_l2sqr_scaled_exceeds_avx2 a b scale threshold
      \<longleftrightarrow> ?over (l2_total_blocks 8 horizontal_sum_avx2 avx2_tail a b)"
    unfolding fvec_l2sqr_scaled_exceeds_avx2_def l2_total_blocks_def Let_def[of "length a"]
      Let_def[of "blocks_end _ _"] Let_def[of "f32_add (foldl _ _ _) _"] Let_def[of ?over] Let_def[of "foldl _ _ _"]
      avx2_tail_def[symmetric]
    by (rule blocks_exits[OF st block128_avx2.accumulator_axioms starts])
      (use avx2 in \<open>auto simp: clean_def[of "avx2_tail _ _ _"] intro!: l2_tail_clean[OF fin] clean_add avx2 foldl_block128_clean[OF fin]\<close>)
  have n: "fvec_l2sqr_scaled_exceeds_neon a b scale threshold
      \<longleftrightarrow> ?over (l2_total_blocks 4 vaddvq_f32 neon_tail a b)"
    unfolding fvec_l2sqr_scaled_exceeds_neon_def l2_total_blocks_def Let_def[of "length a"]
      Let_def[of "blocks_end _ _"] Let_def[of "f32_add (foldl _ _ _) _"] Let_def[of ?over] Let_def[of "foldl _ _ _"]
      neon_tail_def[symmetric]
    by (rule blocks_exits[OF st block128_neon.accumulator_axioms starts])
      (use neon in \<open>auto simp: clean_def[of "neon_tail _ _ _"] intro!: l2_tail_clean[OF fin] clean_add neon foldl_block128_clean[OF fin]\<close>)
  show ?thesis using s a n
    by (auto simp: fvec_l2sqr_scaled_exceeds_simd_def l2_total_def split: arch.split)
qed

lemma unless_exceeds_eq:
  assumes "finite_vec a" "finite_vec b"
  shows "fvec_l2sqr_unless_exceeds t a b threshold =
    bind_res (fvec_l2sqr t a b) (\<lambda>d. Inr (if f32_lt threshold d then None else Some d))"
proof (cases "length a = length b")
  case True
  let ?d = "fvec_l2sqr_simd t a b"
  have c: "clean ?d" using assms True by (rule fvec_l2sqr_simd_clean)
  have "f32_lt threshold ?d" if "f32_lt threshold f32_zero"
    using that c by (auto simp: clean_def f32_lt_def scode_def npos_def)
  moreover have "\<not> f32_lt threshold ?d" if "\<not> is_finite threshold" "\<not> f32_lt threshold f32_zero"
    using that c class_cases[of threshold] by (auto simp: clean_def f32_lt_def scode_def npos_def is_inf_def is_nan_def)
  moreover have "unless_spec threshold ?d (fvec_l2sqr_unless_exceeds_simd t a b threshold)"
    using True by (rule unless_simd_spec)
  then have "fvec_l2sqr_unless_exceeds_simd t a b threshold = (if f32_lt threshold ?d then None else Some ?d)"
    using c by (auto simp: unless_spec_def clean_def split: option.splits)
  ultimately show ?thesis using True by (auto simp: fvec_l2sqr_unless_exceeds_def fvec_l2sqr_def)
qed (simp add: fvec_l2sqr_unless_exceeds_def fvec_l2sqr_def)

lemma four_eq_singles: "fvec_l2sqr_four t a b0 b1 b2 b3 = map_res (fvec_l2sqr t a) [b0, b1, b2, b3]"
  by (simp add: fvec_l2sqr_four_def fvec_l2sqr_def four_simd)

section \<open>Properties\<close>

lemmas l2_eval = fvec_l2sqr_def fvec_l2sqr_simd_def fvec_l2sqr_scalar_def l2_term_def Let_def finite_vec_def

lemma l2sqr_eval [f32_eval]:
  "fvec_l2sqr OtherArch [f32_one, f32_zero] [f32_zero, f32_zero] = Inr f32_one"
  "fvec_l2sqr OtherArch [f32_zero] [f32_zero] = Inr f32_zero"
  by (simp_all add: l2_eval f32_eval upt_rec)

text \<open>C3: for finite vectors, the early-abandoning kernel answers exactly what the plain kernel
  of the same target decides: the plain value, bit for bit, when that value is not above the
  threshold, and \<open>None\<close> when it is. It panics exactly when the plain kernel does.\<close>

theorem unless_exceeds_exact:
  assumes "finite_vec a" "finite_vec b"
  shows "fvec_l2sqr_unless_exceeds t a b threshold =
    bind_res (fvec_l2sqr t a b) (\<lambda>d. Inr (if f32_lt threshold d then None else Some d))"
  using assms by (rule unless_exceeds_eq)

theorem unless_exceeds_exact_witness:
  "finite_vec [f32_one, f32_zero] \<and> finite_vec [f32_zero, f32_zero]
   \<and> fvec_l2sqr_unless_exceeds OtherArch [f32_one, f32_zero] [f32_zero, f32_zero] f32_zero = Inr None
   \<and> fvec_l2sqr_unless_exceeds OtherArch [f32_one, f32_zero] [f32_zero, f32_zero] f32_one = Inr (Some f32_one)"
proof -
  have f: "finite_vec [f32_one, f32_zero]" "finite_vec [f32_zero, f32_zero]" by (simp_all add: finite_vec_def)
  show ?thesis using f unless_exceeds_exact[OF f] by (simp add: f32_eval)
qed

text \<open>Whatever the vectors hold, a value returned by the early-abandoning kernel is the value
  of the plain kernel of the same target.\<close>

theorem unless_exceeds_same_bits:
  assumes "fvec_l2sqr_unless_exceeds t a b threshold = Inr (Some d)"
  shows "fvec_l2sqr t a b = Inr d"
proof -
  have l: "length a = length b" using assms by (auto simp: fvec_l2sqr_unless_exceeds_def split: if_splits)
  show ?thesis using assms unless_simd_spec[OF l, of threshold t]
    by (auto simp: fvec_l2sqr_unless_exceeds_def fvec_l2sqr_def unless_spec_def split: if_splits)
qed

theorem unless_exceeds_same_bits_witness:
  "fvec_l2sqr_unless_exceeds OtherArch [f32_zero] [f32_zero] f32_NAN = Inr (Some f32_zero)
   \<and> fvec_l2sqr OtherArch [f32_zero] [f32_zero] = Inr f32_zero"
proof -
  have n: "\<not> f32_lt f32_NAN f32_zero" "\<not> is_finite f32_NAN" by (simp_all add: f32_cmp_defs)
  have e: "fvec_l2sqr_unless_exceeds OtherArch [f32_zero] [f32_zero] f32_NAN = Inr (Some f32_zero)"
    using n by (simp add: fvec_l2sqr_unless_exceeds_def l2_eval f32_eval)
  from unless_exceeds_same_bits[OF e] e show ?thesis by simp
qed

text \<open>C27: the four-candidate kernel is the single kernel on each candidate, bit for bit on every
  target, and it panics exactly when one of the four calls would.\<close>

theorem four_is_four_singles:
  "fvec_l2sqr_four t a b0 b1 b2 b3 = map_res (fvec_l2sqr t a) [b0, b1, b2, b3]"
  by (rule four_eq_singles)

text \<open>C26: for finite vectors the scaled test panics exactly when the lengths differ or the scale is not finite or
  negative, and otherwise it answers whether the scaled total is above the threshold, where the total is the
  kernel's own accumulation run to its end. There is one exception: a negative threshold is answered with yes at
  once, also when the scale is zero and the total overflows, where the product is not a number and not above
  anything. The exits inside the loops never change the answer.\<close>

theorem scaled_exceeds_exact:
  assumes "finite_vec a" "finite_vec b"
  shows "fvec_l2sqr_scaled_exceeds t a b scale threshold =
    (if length a \<noteq> length b \<or> \<not> is_finite scale \<or> \<not> f32_le f32_zero scale then Inl Panic
     else Inr (f32_lt threshold (f32_mul scale (l2_total t a b))
       \<or> f32_lt threshold f32_zero \<and> f32_eq scale f32_zero \<and> is_inf (l2_total t a b)))"
proof (cases "length a = length b \<and> is_finite scale \<and> f32_le f32_zero scale")
  case True
  then have scale: "length a = length b" "is_finite scale" "f32_le f32_zero scale" by blast+
  show ?thesis
  proof (cases "f32_lt threshold f32_zero")
    case neg: True
    then show ?thesis using scale scaled_sign[OF scale(2,3) l2_total_clean[OF assms scale(1), of t] neg] by (auto simp: fvec_l2sqr_scaled_exceeds_def)
  next
    case False
    then show ?thesis using scale scaled_exceeds_simd[OF assms scale False, of t] by (simp add: fvec_l2sqr_scaled_exceeds_def)
  qed
qed (auto simp: fvec_l2sqr_scaled_exceeds_def)

theorem scaled_exceeds_exact_witness:
  "fvec_l2sqr_scaled_exceeds OtherArch [f32_one, f32_zero] [f32_zero, f32_zero] f32_one f32_zero = Inr True"
proof -
  have f: "finite_vec [f32_one, f32_zero]" "finite_vec [f32_zero, f32_zero]" by (simp_all add: finite_vec_def)
  have "l2_total OtherArch [f32_one, f32_zero] [f32_zero, f32_zero] = f32_one"
    using l2sqr_eval(1) by (simp add: l2_total_def fvec_l2sqr_def fvec_l2sqr_simd_def)
  then show ?thesis using scaled_exceeds_exact[OF f, of OtherArch f32_one f32_zero] by (simp add: f32_eval)
qed

text \<open>ranking a vector through a prepared query gives the distance of the metric, whether the
  vector's norm is recomputed or passed in.\<close>

theorem distance_to_is_fvec_distance:
  "distance_to t (query_distance_new t q metric) v None = fvec_distance t q v metric
   \<and> distance_to t (query_distance_new t q metric) v (Some (f32_sqrt (fvec_norm_l2sqr t v))) = fvec_distance t q v metric"
  by (simp add: distance_to_def query_distance_new_def fvec_distance_def Let_def split: MetricType.split)

end
