(* ===== verification/TopK.thy ===== *)
theory TopK
  imports Distance
begin

text \<open>
  \<open>core/src/topk.rs\<close>: the bounded heap of the nearest distinct row ids. The order of
  \<open>f32::total_cmp\<close> is the order of the type \<open>f32\<close>. The heap keeps its worst entry at
  index 0 and a map from each id to its index. An index that comes from the map or from a full
  heap is tested where the code would panic; the sift loops start from such an index and only
  move to a parent or to a child they have compared with the length.
\<close>

record TopKHeap =
  tk_k :: nat
  tk_max_distance :: f32
  tk_data :: "(f32 \<times> i64) list"
  tk_positions :: "i64 \<rightharpoonup> nat"

definition topk_with_max_distance :: "nat \<Rightarrow> f32 \<Rightarrow> TopKHeap" where
  "topk_with_max_distance k max_distance =
     \<lparr>tk_k = k, tk_max_distance = max_distance, tk_data = [], tk_positions = Map.empty\<rparr>"

definition topk_new :: "nat \<Rightarrow> TopKHeap" where
  "topk_new k = \<lparr>tk_k = k, tk_max_distance = f32_INFINITY, tk_data = [], tk_positions = Map.empty\<rparr>"

definition swap_entries :: "nat \<Rightarrow> nat \<Rightarrow> TopKHeap \<Rightarrow> TopKHeap" where
  "swap_entries left right h =
     (let data = (tk_data h)[left := tk_data h ! right, right := tk_data h ! left]
      in h\<lparr>tk_data := data,
           tk_positions := (tk_positions h)(snd (data ! left) \<mapsto> left, snd (data ! right) \<mapsto> right)\<rparr>)"

function sift_up :: "nat \<Rightarrow> TopKHeap \<Rightarrow> TopKHeap" where
  "sift_up index h =
     (if 0 < index then
        (let parent = (index - 1) div 2 in
         if fst (tk_data h ! index) \<le> fst (tk_data h ! parent) then h
         else sift_up parent (swap_entries parent index h))
      else h)"
  by pat_completeness auto
termination
  by (relation "measure fst") auto

text \<open>The entry \<open>sift_down\<close> moves to: the node itself or its worse child.\<close>

definition worst_child :: "(f32 \<times> i64) list \<Rightarrow> nat \<Rightarrow> nat" where
  "worst_child data index =
     (let left = index * 2 + 1; right = left + 1;
          worst = (if left < length data \<and> fst (data ! index) < fst (data ! left) then left else index)
      in if right < length data \<and> fst (data ! worst) < fst (data ! right) then right else worst)"

lemma worst_child_cases:
  "worst_child data index = index
   \<or> index < worst_child data index \<and> worst_child data index < length data
     \<and> (worst_child data index - 1) div 2 = index"
  by (auto simp: worst_child_def Let_def)

lemma length_swap_entries [simp]: "length (tk_data (swap_entries a b h)) = length (tk_data h)"
  by (simp add: swap_entries_def Let_def)

function sift_down :: "nat \<Rightarrow> TopKHeap \<Rightarrow> TopKHeap" where
  "sift_down index h =
     (let worst = worst_child (tk_data h) index in
      if worst = index then h else sift_down worst (swap_entries index worst h))"
  by pat_completeness auto
termination
proof (relation "measure (\<lambda>(index, h). length (tk_data h) - index)")
  fix index worst and h :: TopKHeap assume "worst = worst_child (tk_data h) index" "worst \<noteq> index"
  then show "((worst, swap_entries index worst h), index, h) \<in> measure (\<lambda>(index, h). length (tk_data h) - index)"
    using worst_child_cases[of "tk_data h" index] by auto
qed simp

declare sift_up.simps [simp del] sift_down.simps [simp del]

definition topk_push :: "f32 \<Rightarrow> i64 \<Rightarrow> TopKHeap \<Rightarrow> TopKHeap res" where
  "topk_push dist row h =
     (if tk_k h = 0 \<or> is_nan dist \<or> f32_le (tk_max_distance h) dist then Inr h
      else case tk_positions h row of
        Some index \<Rightarrow>
          bind_res (idx (tk_data h) index) (\<lambda>entry.
            if dist < fst entry
            then Inr (sift_down index (h\<lparr>tk_data := (tk_data h)[index := (dist, snd entry)]\<rparr>))
            else Inr h)
      | None \<Rightarrow>
          if length (tk_data h) < tk_k h
          then Inr (sift_up (length (tk_data h))
                 (h\<lparr>tk_positions := (tk_positions h)(row \<mapsto> length (tk_data h)),
                    tk_data := tk_data h @ [(dist, row)]\<rparr>))
          else bind_res (idx (tk_data h) 0) (\<lambda>root.
            if dist < fst root
            then Inr (sift_down 0
                   (h\<lparr>tk_positions := ((tk_positions h)(snd root := None))(row \<mapsto> 0),
                      tk_data := (tk_data h)[0 := (dist, row)]\<rparr>))
            else Inr h))"

definition topk_should_consider :: "f32 \<Rightarrow> TopKHeap \<Rightarrow> bool res" where
  "topk_should_consider lower_bound h =
     (if \<not> (0 < tk_k h \<and> \<not> is_nan lower_bound) then Inr False
      else if length (tk_data h) < tk_k h then Inr (f32_lt lower_bound (tk_max_distance h))
      else bind_res (idx (tk_data h) 0) (\<lambda>root. Inr (lower_bound < fst root)))"

definition topk_is_full :: "TopKHeap \<Rightarrow> bool" where
  "topk_is_full h \<longleftrightarrow> 0 < tk_k h \<and> length (tk_data h) = tk_k h"

definition topk_worst_distance :: "TopKHeap \<Rightarrow> f32 option" where
  "topk_worst_distance h = (if topk_is_full h then Some (fst (tk_data h ! 0)) else None)"

definition topk_distance_limit :: "TopKHeap \<Rightarrow> f32" where
  "topk_distance_limit h =
     (case topk_worst_distance h of Some d \<Rightarrow> d | None \<Rightarrow> tk_max_distance h)"

definition topk_into_sorted :: "TopKHeap \<Rightarrow> (f32 \<times> i64) list" where
  "topk_into_sorted h = sort_key fst (tk_data h)"

text \<open>\<open>TopKHeap\<close> as a \<open>Collector\<close>.\<close>

definition topk_collector_push :: "i64 \<Rightarrow> f32 \<Rightarrow> TopKHeap \<Rightarrow> TopKHeap res" where
  "topk_collector_push row v h =
     bind_res (topk_should_consider v h) (\<lambda>consider. if consider then topk_push v row h else Inr h)"

section \<open>Heap order\<close>

definition heap_ok :: "('a::linorder \<times> 'b) list \<Rightarrow> bool" where
  "heap_ok d \<longleftrightarrow> (\<forall>j < length d. 0 < j \<longrightarrow> fst (d ! j) \<le> fst (d ! ((j - 1) div 2)))"

text \<open>Heap order except above \<open>i\<close>, and except below \<open>i\<close>.\<close>

definition up_ok :: "('a::linorder \<times> 'b) list \<Rightarrow> nat \<Rightarrow> bool" where
  "up_ok d i \<longleftrightarrow>
     (\<forall>j < length d. 0 < j \<longrightarrow> j \<noteq> i \<longrightarrow> fst (d ! j) \<le> fst (d ! ((j - 1) div 2)))
   \<and> (\<forall>j < length d. 0 < j \<longrightarrow> 0 < i \<longrightarrow> (j - 1) div 2 = i \<longrightarrow> fst (d ! j) \<le> fst (d ! ((i - 1) div 2)))"

definition down_ok :: "('a::linorder \<times> 'b) list \<Rightarrow> nat \<Rightarrow> bool" where
  "down_ok d i \<longleftrightarrow>
     (\<forall>j < length d. 0 < j \<longrightarrow> (j - 1) div 2 \<noteq> i \<longrightarrow> fst (d ! j) \<le> fst (d ! ((j - 1) div 2)))
   \<and> (\<forall>j < length d. 0 < j \<longrightarrow> 0 < i \<longrightarrow> (j - 1) div 2 = i \<longrightarrow> fst (d ! j) \<le> fst (d ! ((i - 1) div 2)))"

lemma parent_less: "0 < i \<Longrightarrow> (i - 1) div 2 < (i :: nat)"
  by linarith

lemma up_ok_step:
  assumes ok: "up_ok d i" and i: "0 < i" "i < length d" and p: "p = (i - 1) div 2"
    and gt: "fst (d ! p) < fst (d ! i)"
  shows "up_ok (d[p := d ! i, i := d ! p]) p"
proof -
  let ?d = "d[p := d ! i, i := d ! p]"
  have pi: "p < i" "p < length d" using parent_less[OF i(1)] i(2) p by auto
  have up: "fst (d ! j) \<le> fst (d ! ((j - 1) div 2))" if "j < length d" "0 < j" "j \<noteq> i" for j
    using ok that by (auto simp: up_ok_def)
  have gc: "fst (d ! j) \<le> fst (d ! p)" if "j < length d" "0 < j" "(j - 1) div 2 = i" for j
    using ok that i p by (auto simp: up_ok_def)
  have n: "?d ! p = d ! i" "?d ! i = d ! p" "\<And>j. j \<noteq> p \<Longrightarrow> j \<noteq> i \<Longrightarrow> ?d ! j = d ! j"
    using pi i by (auto simp: nth_list_update)
  have le_i: "fst (?d ! j) \<le> fst (d ! i)" if "j < length d" "0 < j" "(j - 1) div 2 = p" for j
    using up[of j] that gt n(2) n(3)[of j] parent_less[OF that(2)] by (cases "j = i") (auto simp: less_imp_le)
  show ?thesis unfolding up_ok_def
  proof (intro conjI allI impI)
    fix j assume "j < length ?d" "0 < j" "j \<noteq> p"
    then have j: "j < length d" "0 < j" "j \<noteq> p" by simp_all
    consider "(j - 1) div 2 = p" | "(j - 1) div 2 = i" | "(j - 1) div 2 \<noteq> p" "(j - 1) div 2 \<noteq> i" by blast
    then show "fst (?d ! j) \<le> fst (?d ! ((j - 1) div 2))"
    proof cases
      case 1
      then show ?thesis using le_i[of j] j n(1) by simp
    next
      case 2
      then have "j \<noteq> i" using parent_less[OF j(2)] by simp
      then show ?thesis unfolding 2 n(2) n(3)[OF j(3) \<open>j \<noteq> i\<close>] using gc j 2 by simp
    next
      case 3
      then have "j \<noteq> i" using p by auto
      then show ?thesis using up[OF j(1,2)] n(3)[OF 3] n(3)[OF j(3)] by simp
    qed
  next
    fix j assume "j < length ?d" "0 < j" and p0: "0 < p" and jp: "(j - 1) div 2 = p"
    then have j: "j < length d" "0 < j" by simp_all
    have "j \<noteq> p" using parent_less[OF j(2)] jp by simp
    then have "fst (?d ! j) \<le> fst (d ! p)" using n(2) n(3)[of j] up[OF j] jp by (cases "j = i") auto
    also have "\<dots> \<le> fst (d ! ((p - 1) div 2))" using up[of p] pi p0 by simp
    also have "d ! ((p - 1) div 2) = ?d ! ((p - 1) div 2)"
      using n(3)[of "(p - 1) div 2"] parent_less[OF p0] pi by simp
    finally show "fst (?d ! j) \<le> fst (?d ! ((p - 1) div 2))" .
  qed
qed

lemma up_ok_done:
  "up_ok d i \<Longrightarrow> i = 0 \<or> fst (d ! i) \<le> fst (d ! ((i - 1) div 2)) \<Longrightarrow> heap_ok d"
  by (auto simp: up_ok_def heap_ok_def)

lemma worst_child_le:
  assumes "j < length d" "0 < j" "(j - 1) div 2 = i"
  shows "fst (d ! j) \<le> fst (d ! worst_child d i)"
proof -
  let ?l = "i * 2 + 1" let ?r = "?l + 1"
  define w where "w = (if ?l < length d \<and> fst (d ! i) < fst (d ! ?l) then ?l else i)"
  have l: "fst (d ! ?l) \<le> fst (d ! w)" if "?l < length d" using that by (auto simp: w_def)
  have wc: "worst_child d i = (if ?r < length d \<and> fst (d ! w) < fst (d ! ?r) then ?r else w)"
    by (simp add: worst_child_def Let_def w_def)
  have "fst (d ! w) \<le> fst (d ! worst_child d i)" using wc by (simp add: less_imp_le)
  moreover have "fst (d ! ?r) \<le> fst (d ! worst_child d i)" if "?r < length d" using wc that by auto
  moreover have "j = ?l \<or> j = ?r" using assms(2,3) by presburger
  ultimately show ?thesis using assms(1) l order_trans by blast
qed

lemma worst_child_gt: "worst_child d i \<noteq> i \<Longrightarrow> fst (d ! i) < fst (d ! worst_child d i)"
  by (auto simp: worst_child_def Let_def split: if_splits)

lemma down_ok_step:
  assumes ok: "down_ok d i" and w: "worst_child d i = w" "w \<noteq> i"
  shows "down_ok (d[i := d ! w, w := d ! i]) w"
proof -
  have w': "i < w" "w < length d" "(w - 1) div 2 = i" using worst_child_cases[of d i] w by auto
  have gt: "fst (d ! i) < fst (d ! w)" using worst_child_gt[of d i] w by simp
  have le: "fst (d ! j) \<le> fst (d ! w)" if "j < length d" "0 < j" "(j - 1) div 2 = i" for j
    using worst_child_le[OF that] w(1) by simp
  have dn: "fst (d ! j) \<le> fst (d ! ((j - 1) div 2))" if "j < length d" "0 < j" "(j - 1) div 2 \<noteq> i" for j
    using ok that by (auto simp: down_ok_def)
  have gp: "fst (d ! w) \<le> fst (d ! ((i - 1) div 2))" if "0 < i"
    using ok that w' by (auto simp: down_ok_def)
  show ?thesis unfolding down_ok_def
  proof (intro conjI allI impI)
    fix j assume j: "j < length (d[i := d ! w, w := d ! i])" "0 < j" "(j - 1) div 2 \<noteq> w"
    show "fst (d[i := d ! w, w := d ! i] ! j) \<le> fst (d[i := d ! w, w := d ! i] ! ((j - 1) div 2))"
    proof (cases "(j - 1) div 2 = i")
      case True
      then show ?thesis using j w' le[of j] gt parent_less[OF j(2)]
        by (cases "j = w") (auto simp: nth_list_update less_imp_le)
    next
      case False
      then have "j \<noteq> w" using w'(3) by auto
      then show ?thesis using False j w' dn[of j] gp
        by (cases "j = i") (auto simp: nth_list_update)
    qed
  next
    fix j assume j: "j < length (d[i := d ! w, w := d ! i])" "0 < j" "0 < w" "(j - 1) div 2 = w"
    have "j \<noteq> w" "j \<noteq> i" using parent_less[OF j(2)] j(4) w'(1) by auto
    then show "fst (d[i := d ! w, w := d ! i] ! j) \<le> fst (d[i := d ! w, w := d ! i] ! ((w - 1) div 2))"
      using j w' dn[of j] by (auto simp: nth_list_update)
  qed
qed

lemma down_ok_done:
  assumes "down_ok d i" "worst_child d i = i"
  shows "heap_ok d"
  unfolding heap_ok_def
proof (intro allI impI)
  fix j assume "j < length d" "0 < j"
  then show "fst (d ! j) \<le> fst (d ! ((j - 1) div 2))"
    using assms worst_child_le[of j d i] by (cases "(j - 1) div 2 = i") (auto simp: down_ok_def)
qed

section \<open>Positions\<close>

definition positions_ok :: "(f32 \<times> i64) list \<Rightarrow> (i64 \<rightharpoonup> nat) \<Rightarrow> bool" where
  "positions_ok d p \<longleftrightarrow> (\<forall>row i. p row = Some i \<longleftrightarrow> i < length d \<and> snd (d ! i) = row)"

lemma positions_okD: "positions_ok d p \<Longrightarrow> p row = Some i \<Longrightarrow> i < length d \<and> snd (d ! i) = row"
  unfolding positions_ok_def by blast

lemma positions_ok_nth: "positions_ok d p \<Longrightarrow> i < length d \<Longrightarrow> p (snd (d ! i)) = Some i"
  unfolding positions_ok_def by blast

lemma positions_ok_inj:
  assumes "positions_ok d p" "i < length d" "j < length d" "snd (d ! i) = snd (d ! j)"
  shows "i = j"
proof -
  have "Some i = p (snd (d ! j))" using positions_ok_nth[OF assms(1,2)] unfolding assms(4) by (rule sym)
  also have "\<dots> = Some j" by (rule positions_ok_nth[OF assms(1,3)])
  finally show ?thesis by simp
qed

lemma positions_ok_distinct: "positions_ok d p \<Longrightarrow> distinct (map snd d)"
  using positions_ok_inj[of d p] by (auto simp: distinct_conv_nth)

lemma positions_ok_dom:
  assumes "positions_ok d p"
  shows "p row = None \<longleftrightarrow> row \<notin> snd ` set d"
proof -
  have "row \<in> snd ` set d \<longleftrightarrow> (\<exists>i < length d. snd (d ! i) = row)" by (force simp: set_conv_nth)
  also have "\<dots> \<longleftrightarrow> (\<exists>i. p row = Some i)"
    using positions_okD[OF assms] positions_ok_nth[OF assms] by blast
  finally show ?thesis by auto
qed

lemma positions_okI:
  assumes "\<And>i. i < length d \<Longrightarrow> p (snd (d ! i)) = Some i"
    and "\<And>row i. p row = Some i \<Longrightarrow> i < length d \<and> snd (d ! i) = row"
  shows "positions_ok d p"
  using assms unfolding positions_ok_def by blast

lemma positions_ok_swap:
  assumes p: "positions_ok d p" and a: "a < length d" and b: "b < length d"
  shows "positions_ok (d[a := d ! b, b := d ! a]) (p(snd (d[a := d ! b, b := d ! a] ! a) \<mapsto> a, snd (d[a := d ! b, b := d ! a] ! b) \<mapsto> b))"
    (is "positions_ok ?d ?p")
proof -
  have n: "?d ! a = d ! b" "?d ! b = d ! a" "\<And>i. i \<noteq> a \<Longrightarrow> i \<noteq> b \<Longrightarrow> ?d ! i = d ! i"
    using a b by (auto simp: nth_list_update)
  have ne: "snd (d ! i) = snd (d ! j) \<longleftrightarrow> i = j" if "i < length d" "j < length d" for i j
    using positions_ok_inj[OF p that] by auto
  show ?thesis
  proof (rule positions_okI)
    fix i assume "i < length ?d"
    then have i: "i < length d" by simp
    consider "i = b" | "i = a" "i \<noteq> b" | "i \<noteq> a" "i \<noteq> b" by blast
    then show "?p (snd (?d ! i)) = Some i"
    proof cases
      case 2
      then show ?thesis using n ne[OF b a] by auto
    next
      case 3
      then show ?thesis using n ne[OF i a] ne[OF i b] positions_ok_nth[OF p i] by simp
    qed simp
  next
    fix row i assume "?p row = Some i"
    then consider "row = snd (?d ! b)" "i = b" | "row = snd (?d ! a)" "i = a"
      | "row \<noteq> snd (?d ! a)" "row \<noteq> snd (?d ! b)" "p row = Some i" by (auto split: if_splits)
    then show "i < length ?d \<and> snd (?d ! i) = row"
    proof cases
      case 3
      from positions_okD[OF p 3(3)] have "i < length d" "snd (d ! i) = row" by auto
      moreover have "i \<noteq> a" "i \<noteq> b" using 3(1,2) n calculation by auto
      ultimately show ?thesis using n(3) by simp
    qed (use a b in auto)
  qed
qed

lemma mset_swap_entries: "a < length d \<Longrightarrow> b < length d \<Longrightarrow> mset (d[a := d ! b, b := d ! a]) = mset d"
  by (rule mset_swap)

text \<open>What both sift loops keep.\<close>

definition sifted :: "TopKHeap \<Rightarrow> TopKHeap \<Rightarrow> bool" where
  "sifted h h' \<longleftrightarrow> tk_k h' = tk_k h \<and> tk_max_distance h' = tk_max_distance h
     \<and> mset (tk_data h') = mset (tk_data h) \<and> heap_ok (tk_data h')
     \<and> positions_ok (tk_data h') (tk_positions h')"

lemma swap_entries_fields:
  assumes "positions_ok (tk_data h) (tk_positions h)" "a < length (tk_data h)" "b < length (tk_data h)"
  shows "positions_ok (tk_data (swap_entries a b h)) (tk_positions (swap_entries a b h))"
    and "mset (tk_data (swap_entries a b h)) = mset (tk_data h)"
    and "tk_data (swap_entries a b h) = (tk_data h)[a := tk_data h ! b, b := tk_data h ! a]"
    and "tk_k (swap_entries a b h) = tk_k h" "tk_max_distance (swap_entries a b h) = tk_max_distance h"
  using positions_ok_swap[OF assms] mset_swap_entries[OF assms(2,3)] by (simp_all add: swap_entries_def Let_def)

lemma sift_up_sifted:
  assumes "up_ok (tk_data h) index" "index < length (tk_data h)" "positions_ok (tk_data h) (tk_positions h)"
  shows "sifted h (sift_up index h)"
  using assms
proof (induction index h rule: sift_up.induct)
  case (1 index h)
  let ?p = "(index - 1) div 2"
  show ?case
  proof (cases "0 < index \<and> \<not> fst (tk_data h ! index) \<le> fst (tk_data h ! ?p)")
    case False
    then have "sift_up index h = h" by (subst sift_up.simps) (auto simp: Let_def)
    then show ?thesis using False "1.prems" up_ok_done[of "tk_data h" index] by (auto simp: sifted_def)
  next
    case True
    then have p: "?p < length (tk_data h)" using parent_less[of index] "1.prems"(2) by simp
    note sw = swap_entries_fields[OF "1.prems"(3) p "1.prems"(2)]
    have "up_ok (tk_data (swap_entries ?p index h)) ?p"
      unfolding sw(3) using True "1.prems"(2) by (intro up_ok_step[OF "1.prems"(1)]) (auto simp: not_le)
    then have "sifted (swap_entries ?p index h) (sift_up ?p (swap_entries ?p index h))"
      using True by (intro "1.IH"[OF _ refl]) (simp_all only: length_swap_entries p sw(1) not_False_eq_True)
    moreover have "sift_up index h = sift_up ?p (swap_entries ?p index h)"
      using True by (subst sift_up.simps) (simp add: Let_def)
    ultimately show ?thesis using sw by (simp add: sifted_def)
  qed
qed

lemma sift_down_sifted:
  assumes "down_ok (tk_data h) index" "index < length (tk_data h)" "positions_ok (tk_data h) (tk_positions h)"
  shows "sifted h (sift_down index h)"
  using assms
proof (induction index h rule: sift_down.induct)
  case (1 index h)
  let ?w = "worst_child (tk_data h) index"
  show ?case
  proof (cases "?w = index")
    case True
    then have "sift_down index h = h" by (subst sift_down.simps) (simp add: Let_def)
    then show ?thesis using True "1.prems" down_ok_done by (auto simp: sifted_def)
  next
    case False
    then have w: "?w < length (tk_data h)" using worst_child_cases[of "tk_data h" index] by auto
    note sw = swap_entries_fields[OF "1.prems"(3) "1.prems"(2) w]
    have "down_ok (tk_data (swap_entries index ?w h)) ?w"
      unfolding sw(3) by (rule down_ok_step[OF "1.prems"(1) refl False])
    then have "sifted (swap_entries index ?w h) (sift_down ?w (swap_entries index ?w h))"
      by (intro "1.IH"[OF refl False]) (simp_all only: length_swap_entries w sw(1))
    moreover have "sift_down index h = sift_down ?w (swap_entries index ?w h)"
      using False by (subst sift_down.simps) (simp add: Let_def)
    ultimately show ?thesis using sw by (simp add: sifted_def)
  qed
qed

section \<open>The invariant\<close>

definition topk_inv :: "TopKHeap \<Rightarrow> bool" where
  "topk_inv h \<longleftrightarrow> heap_ok (tk_data h) \<and> positions_ok (tk_data h) (tk_positions h) \<and> length (tk_data h) \<le> tk_k h"

lemma sifted_inv: "sifted h h' \<Longrightarrow> length (tk_data h) \<le> tk_k h \<Longrightarrow> topk_inv h'"
  unfolding sifted_def topk_inv_def by (metis mset_eq_length)

lemma sifted_set: "sifted h h' \<Longrightarrow> set (tk_data h') = set (tk_data h) \<and> length (tk_data h') = length (tk_data h)"
  unfolding sifted_def by (metis mset_eq_length mset_eq_setD)

lemma heap_ok_root:
  assumes "heap_ok d"
  shows "i < length d \<Longrightarrow> fst (d ! i) \<le> fst (d ! 0)"
proof (induction i rule: less_induct)
  case (less i)
  show ?case
  proof (cases "0 < i")
    case True
    have "fst (d ! i) \<le> fst (d ! ((i - 1) div 2))" using assms less.prems True by (simp add: heap_ok_def)
    also have "\<dots> \<le> fst (d ! 0)" using less.IH[OF parent_less[OF True]] parent_less[OF True] less.prems by simp
    finally show ?thesis .
  qed simp
qed

lemma heap_ok_root_set: "heap_ok d \<Longrightarrow> e \<in> set d \<Longrightarrow> fst e \<le> fst (d ! 0)"
  using heap_ok_root by (metis in_set_conv_nth)

lemma heap_ok_decrease:
  assumes ok: "heap_ok d" and i: "i < length d" and x: "fst x \<le> fst (d ! i)"
  shows "down_ok (d[i := x]) i"
proof -
  have o: "fst (d ! j) \<le> fst (d ! ((j - 1) div 2))" if "j < length d" "0 < j" for j
    using ok that by (simp add: heap_ok_def)
  show ?thesis unfolding down_ok_def
  proof (intro conjI allI impI)
    fix j assume "j < length (d[i := x])" "0 < j" "(j - 1) div 2 \<noteq> i"
    then show "fst (d[i := x] ! j) \<le> fst (d[i := x] ! ((j - 1) div 2))"
      using o[of j] order_trans[OF x] by (cases "j = i") auto
  next
    fix j assume j: "j < length (d[i := x])" "0 < j" "0 < i" "(j - 1) div 2 = i"
    have "j \<noteq> i" "(i - 1) div 2 \<noteq> i" using parent_less[OF j(2)] parent_less[OF j(3)] j(4) by auto
    then show "fst (d[i := x] ! j) \<le> fst (d[i := x] ! ((i - 1) div 2))"
      using o[of j] o[OF i j(3)] j by auto
  qed
qed

lemma heap_ok_append: "heap_ok d \<Longrightarrow> up_ok (d @ [x]) (length d)"
  unfolding up_ok_def heap_ok_def
proof (intro conjI allI impI)
  fix j assume h: "\<forall>j < length d. 0 < j \<longrightarrow> fst (d ! j) \<le> fst (d ! ((j - 1) div 2))"
    and "j < length (d @ [x])" "0 < j" "j \<noteq> length d"
  then have "j < length d" "(j - 1) div 2 < length d" using parent_less[of j] by auto
  then show "fst ((d @ [x]) ! j) \<le> fst ((d @ [x]) ! ((j - 1) div 2))" using h \<open>0 < j\<close> by (simp add: nth_append)
next
  fix j assume "j < length (d @ [x])" "0 < j" "(j - 1) div 2 = length d"
  then show "fst ((d @ [x]) ! j) \<le> fst ((d @ [x]) ! ((length d - 1) div 2))" using parent_less[of j] by simp
qed

lemma positions_ok_update:
  assumes "positions_ok d p" "i < length d" "snd x = snd (d ! i)"
  shows "positions_ok (d[i := x]) p"
  using assms unfolding positions_ok_def by (metis length_list_update nth_list_update_eq nth_list_update_neq)

lemma positions_ok_append:
  assumes "positions_ok d p" "p (snd x) = None"
  shows "positions_ok (d @ [x]) (p(snd x \<mapsto> length d))"
proof (rule positions_okI)
  fix i assume i: "i < length (d @ [x])"
  then show "(p(snd x \<mapsto> length d)) (snd ((d @ [x]) ! i)) = Some i"
    using positions_ok_nth[OF assms(1), of i] assms(2) by (cases "i < length d") (auto simp: nth_append)
next
  fix row i assume "(p(snd x \<mapsto> length d)) row = Some i"
  then show "i < length (d @ [x]) \<and> snd ((d @ [x]) ! i) = row"
    using positions_okD[OF assms(1), of row i] by (auto simp: nth_append split: if_splits)
qed

lemma positions_ok_replace:
  assumes "positions_ok d p" "i < length d" "p (snd x) = None"
  shows "positions_ok (d[i := x]) ((p(snd (d ! i) := None))(snd x \<mapsto> i))"
proof (rule positions_okI)
  fix j assume "j < length (d[i := x])"
  then have j: "j < length d" by simp
  show "((p(snd (d ! i) := None))(snd x \<mapsto> i)) (snd (d[i := x] ! j)) = Some j"
  proof (cases "j = i")
    case False
    then have "snd (d ! j) \<noteq> snd (d ! i)" "snd (d ! j) \<noteq> snd x"
      using positions_ok_inj[OF assms(1) j assms(2)] positions_ok_nth[OF assms(1) j] assms(3) by auto
    then show ?thesis using False positions_ok_nth[OF assms(1) j] by simp
  qed (use assms(2) in simp)
next
  fix row j assume "((p(snd (d ! i) := None))(snd x \<mapsto> i)) row = Some j"
  then show "j < length (d[i := x]) \<and> snd (d[i := x] ! j) = row"
    using positions_okD[OF assms(1), of row j] assms(2) by (cases "j = i") (auto split: if_splits)
qed

section \<open>The abstract collection of the nearest distinct ids\<close>

text \<open>What one offer does to the set of kept entries, with no heap: it is ignored, improves the
  entry of its id, joins while there is room, or replaces a worst entry.\<close>

definition topk_admissible :: "f32 \<Rightarrow> f32 \<Rightarrow> bool" where
  "topk_admissible max_distance d \<longleftrightarrow> \<not> is_nan d \<and> \<not> f32_le max_distance d"

inductive topk_step :: "nat \<Rightarrow> f32 \<Rightarrow> (f32 \<times> i64) set \<Rightarrow> f32 \<times> i64 \<Rightarrow> (f32 \<times> i64) set \<Rightarrow> bool" for k m where
  refused: "k = 0 \<or> \<not> topk_admissible m d \<Longrightarrow> topk_step k m S (d, row) S"
| known: "(d', row) \<in> S \<Longrightarrow> d' \<le> d \<Longrightarrow> topk_step k m S (d, row) S"
| beaten: "card S = k \<Longrightarrow> row \<notin> snd ` S \<Longrightarrow> (\<And>e. e \<in> S \<Longrightarrow> fst e \<le> d) \<Longrightarrow> topk_step k m S (d, row) S"
| improved: "topk_admissible m d \<Longrightarrow> (d', row) \<in> S \<Longrightarrow> d < d' \<Longrightarrow>
    topk_step k m S (d, row) (insert (d, row) (S - {(d', row)}))"
| joined: "topk_admissible m d \<Longrightarrow> row \<notin> snd ` S \<Longrightarrow> card S < k \<Longrightarrow>
    topk_step k m S (d, row) (insert (d, row) S)"
| replaced: "topk_admissible m d \<Longrightarrow> row \<notin> snd ` S \<Longrightarrow> card S = k \<Longrightarrow> w \<in> S \<Longrightarrow>
    (\<And>e. e \<in> S \<Longrightarrow> fst e \<le> fst w) \<Longrightarrow> d < fst w \<Longrightarrow>
    topk_step k m S (d, row) (insert (d, row) (S - {w}))"

abbreviation kept :: "TopKHeap \<Rightarrow> (f32 \<times> i64) set" where
  "kept h \<equiv> set (tk_data h)"

lemma topk_inv_distinct: "topk_inv h \<Longrightarrow> distinct (map snd (tk_data h))"
  by (auto simp: topk_inv_def intro: positions_ok_distinct)

lemma topk_inv_card: "topk_inv h \<Longrightarrow> card (kept h) = length (tk_data h)"
  using topk_inv_distinct distinct_map distinct_card by blast

text \<open>The refinement: a push never panics, keeps the invariant, and does on the kept entries what
  the abstract step says.\<close>

definition push_refines :: "TopKHeap \<Rightarrow> f32 \<Rightarrow> i64 \<Rightarrow> TopKHeap res \<Rightarrow> bool" where
  "push_refines h d row r \<longleftrightarrow> (\<exists>h'. r = Inr h' \<and> topk_inv h' \<and> tk_k h' = tk_k h
    \<and> tk_max_distance h' = tk_max_distance h \<and> topk_step (tk_k h) (tk_max_distance h) (kept h) (d, row) (kept h'))"

lemma push_refines_sifted:
  assumes "sifted g0 g" "tk_k g0 = tk_k h" "tk_max_distance g0 = tk_max_distance h" "length (tk_data g0) \<le> tk_k h"
    and "topk_step (tk_k h) (tk_max_distance h) (kept h) (d, row) (kept g0)"
  shows "push_refines h d row (Inr g)"
  using assms sifted_inv[OF assms(1)] sifted_set[OF assms(1)] by (auto simp: push_refines_def sifted_def)

lemma push_refines_same:
  "topk_inv h \<Longrightarrow> topk_step (tk_k h) (tk_max_distance h) (kept h) (d, row) (kept h) \<Longrightarrow> push_refines h d row (Inr h)"
  by (simp add: push_refines_def)

lemma topk_push_known:
  assumes inv: "topk_inv h" and adm: "0 < tk_k h" "topk_admissible (tk_max_distance h) d"
    and pos: "tk_positions h row = Some i"
  shows "push_refines h d row (topk_push d row h)"
proof -
  let ?d = "tk_data h" let ?g = "h\<lparr>tk_data := ?d[i := (d, row)]\<rparr>"
  have ho: "heap_ok ?d" and po: "positions_ok ?d (tk_positions h)" and len: "length ?d \<le> tk_k h"
    using inv by (auto simp: topk_inv_def)
  have i: "i < length ?d" "snd (?d ! i) = row" using positions_okD[OF po pos] by auto
  then have e: "?d ! i = (fst (?d ! i), row)" by (simp add: prod_eq_iff)
  then have mem: "(fst (?d ! i), row) \<in> kept h" using i(1) nth_mem by metis
  have push: "topk_push d row h = (if d < fst (?d ! i) then Inr (sift_down i ?g) else Inr h)"
    using pos i adm by (simp add: topk_push_def topk_admissible_def idx_def)
  show ?thesis
  proof (cases "d < fst (?d ! i)")
    case True
    have "sifted ?g (sift_down i ?g)"
      using i True by (intro sift_down_sifted) (auto intro!: heap_ok_decrease[OF ho] positions_ok_update[OF po])
    moreover have "distinct ?d" using topk_inv_distinct[OF inv] by (simp add: distinct_map)
    then have "kept ?g = insert (d, row) (kept h - {(fst (?d ! i), row)})"
      using set_update_distinct[of ?d i "(d, row)"] i(1) e by simp
    ultimately show ?thesis using push True len topk_step.improved[OF adm(2) mem True]
      by (simp add: push_refines_sifted[of ?g])
  next
    case False
    then show ?thesis using push push_refines_same[OF inv topk_step.known[OF mem]] by simp
  qed
qed

lemma topk_push_new:
  assumes inv: "topk_inv h" and adm: "0 < tk_k h" "topk_admissible (tk_max_distance h) d"
    and pos: "tk_positions h row = None" and room: "length (tk_data h) < tk_k h"
  shows "push_refines h d row (topk_push d row h)"
proof -
  let ?d = "tk_data h"
  let ?g = "h\<lparr>tk_positions := (tk_positions h)(row \<mapsto> length ?d), tk_data := ?d @ [(d, row)]\<rparr>"
  have ho: "heap_ok ?d" and po: "positions_ok ?d (tk_positions h)" using inv by (auto simp: topk_inv_def)
  have new: "row \<notin> snd ` kept h" using positions_ok_dom[OF po] pos by blast
  have "sifted ?g (sift_up (length ?d) ?g)"
    using pos positions_ok_append[OF po, of "(d, row)"] by (intro sift_up_sifted) (auto intro!: heap_ok_append[OF ho])
  moreover have "topk_push d row h = Inr (sift_up (length ?d) ?g)"
    using pos adm room by (simp add: topk_push_def topk_admissible_def)
  ultimately show ?thesis using room topk_inv_card[OF inv] topk_step.joined[OF adm(2) new, of "tk_k h"]
    by (simp add: push_refines_sifted[of ?g])
qed

lemma topk_push_full:
  assumes inv: "topk_inv h" and adm: "0 < tk_k h" "topk_admissible (tk_max_distance h) d"
    and pos: "tk_positions h row = None" and full: "length (tk_data h) = tk_k h"
  shows "push_refines h d row (topk_push d row h)"
proof -
  let ?d = "tk_data h"
  let ?g = "h\<lparr>tk_positions := ((tk_positions h)(snd (?d ! 0) := None))(row \<mapsto> 0), tk_data := ?d[0 := (d, row)]\<rparr>"
  have ho: "heap_ok ?d" and po: "positions_ok ?d (tk_positions h)" using inv by (auto simp: topk_inv_def)
  have new: "row \<notin> snd ` kept h" using positions_ok_dom[OF po] pos by blast
  have ne: "0 < length ?d" using full adm(1) by simp
  have push: "topk_push d row h = (if d < fst (?d ! 0) then Inr (sift_down 0 ?g) else Inr h)"
    using pos adm full ne by (simp add: topk_push_def topk_admissible_def idx_def)
  note card = topk_inv_card[OF inv]
  show ?thesis
  proof (cases "d < fst (?d ! 0)")
    case True
    have "sifted ?g (sift_down 0 ?g)"
      using True ne pos positions_ok_replace[OF po ne, of "(d, row)"]
      by (intro sift_down_sifted) (auto intro!: heap_ok_decrease[OF ho])
    moreover have "distinct ?d" using topk_inv_distinct[OF inv] by (simp add: distinct_map)
    then have "kept ?g = insert (d, row) (kept h - {?d ! 0})" using set_update_distinct[of ?d 0] ne by simp
    moreover have "topk_step (tk_k h) (tk_max_distance h) (kept h) (d, row) (insert (d, row) (kept h - {?d ! 0}))"
      using True ne full card heap_ok_root_set[OF ho] by (intro topk_step.replaced[OF adm(2) new]) auto
    ultimately show ?thesis using push True full by (simp add: push_refines_sifted[of ?g])
  next
    case False
    then have "topk_step (tk_k h) (tk_max_distance h) (kept h) (d, row) (kept h)"
      using new full card heap_ok_root_set[OF ho] by (intro topk_step.beaten) (auto simp: not_less intro: order_trans)
    then show ?thesis using push False push_refines_same[OF inv] by simp
  qed
qed

lemma topk_push_refines:
  assumes inv: "topk_inv h"
  shows "push_refines h d row (topk_push d row h)"
proof (cases "tk_k h = 0 \<or> \<not> topk_admissible (tk_max_distance h) d")
  case True
  then have "topk_push d row h = Inr h" by (auto simp: topk_push_def topk_admissible_def)
  then show ?thesis using push_refines_same[OF inv topk_step.refused[OF True]] by simp
next
  case False
  then show ?thesis using topk_push_known[OF inv] topk_push_new[OF inv] topk_push_full[OF inv] inv
    by (cases "tk_positions h row"; cases "length (tk_data h) < tk_k h") (auto simp: topk_inv_def)
qed

section \<open>A sequence of offers\<close>

text \<open>Which entries may be kept after the offers: each is an admissible offer, ids are distinct, and
  each admissible offer is kept at least as near, or the collection is full of entries that are.\<close>

definition topk_of :: "nat \<Rightarrow> f32 \<Rightarrow> (f32 \<times> i64) list \<Rightarrow> (f32 \<times> i64) set \<Rightarrow> bool" where
  "topk_of k m offers S \<longleftrightarrow>
     finite S \<and> card S \<le> k \<and> inj_on snd S
   \<and> (\<forall>e \<in> S. e \<in> set offers \<and> topk_admissible m (fst e))
   \<and> (\<forall>(d, row) \<in> set offers. topk_admissible m d \<longrightarrow>
        (\<exists>d'. (d', row) \<in> S \<and> d' \<le> d) \<or> card S = k \<and> (\<forall>e \<in> S. fst e \<le> d))"

lemma topk_ofI:
  assumes "finite S" "card S \<le> k" "inj_on snd S"
    and "\<And>d row. (d, row) \<in> S \<Longrightarrow> (d, row) \<in> set offers \<and> topk_admissible m d"
    and "\<And>d row. (d, row) \<in> set offers \<Longrightarrow> topk_admissible m d \<Longrightarrow>
      (\<exists>d'. (d', row) \<in> S \<and> d' \<le> d) \<or> card S = k \<and> (\<forall>e \<in> S. fst e \<le> d)"
  shows "topk_of k m offers S"
proof -
  have "(\<exists>d'. (d', snd x) \<in> S \<and> d' \<le> fst x) \<or> card S = k \<and> (\<forall>e \<in> S. fst e \<le> fst x)"
    if "x \<in> set offers" "topk_admissible m (fst x)" for x
    using assms(5)[of "fst x" "snd x"] that by simp
  then show ?thesis using assms(1-4) unfolding topk_of_def case_prod_beta by auto
qed

lemma topk_ofD:
  assumes "topk_of k m offers S"
  shows "finite S" "card S \<le> k" "inj_on snd S"
    and "(d, row) \<in> S \<Longrightarrow> (d, row) \<in> set offers \<and> topk_admissible m d"
    and "(d, row) \<in> set offers \<Longrightarrow> topk_admissible m d \<Longrightarrow>
      (\<exists>d'. (d', row) \<in> S \<and> d' \<le> d) \<or> card S = k \<and> (\<forall>e \<in> S. fst e \<le> d)"
  using assms unfolding topk_of_def by fastforce+

lemma topk_of_more:
  assumes "topk_of k m offers S"
    and "topk_admissible m d \<Longrightarrow> (\<exists>d'. (d', row) \<in> S \<and> d' \<le> d) \<or> card S = k \<and> (\<forall>e \<in> S. fst e \<le> d)"
  shows "topk_of k m (offers @ [(d, row)]) S"
proof (rule topk_ofI)
  fix d0 row0 assume "(d0, row0) \<in> set (offers @ [(d, row)])" "topk_admissible m d0"
  then show "(\<exists>d'. (d', row0) \<in> S \<and> d' \<le> d0) \<or> card S = k \<and> (\<forall>e \<in> S. fst e \<le> d0)"
    using topk_ofD(5)[OF assms(1), of d0 row0] assms(2) by (cases "(d0, row0) = (d, row)") auto
qed (use topk_ofD(1-4)[OF assms(1)] in auto)

text \<open>Taking an entry \<open>w\<close> out for a nearer one.\<close>

lemma topk_of_exchange:
  assumes of: "topk_of k m offers S" and adm: "topk_admissible m d" and w: "w \<in> S" and lt: "d < fst w"
    and row: "row = snd w \<or> row \<notin> snd ` S \<and> card S = k \<and> (\<forall>e \<in> S. fst e \<le> fst w)"
  shows "topk_of k m (offers @ [(d, row)]) (insert (d, row) (S - {w}))"
proof -
  let ?S = "insert (d, row) (S - {w})"
  note D = topk_ofD[OF of]
  have fresh: "row \<notin> snd ` (S - {w})" using row w D(3) by (auto simp: inj_on_def)
  then have card: "card ?S = card S" using D(1) w card_gt_0_iff[of S] by (subst card_insert_disjoint) (force simp: card_Diff_singleton)+
  show ?thesis
  proof (rule topk_ofI)
    show "finite ?S" "card ?S \<le> k" using D(1,2) card by simp_all
    show "inj_on snd ?S" using D(3) fresh by (auto simp: inj_on_insert intro: inj_on_diff)
    show "\<And>d' row'. (d', row') \<in> ?S \<Longrightarrow> (d', row') \<in> set (offers @ [(d, row)]) \<and> topk_admissible m d'"
      using D(4) adm by auto
  next
    fix d0 row0 assume o: "(d0, row0) \<in> set (offers @ [(d, row)])" and a: "topk_admissible m d0"
    have all: "card ?S = k \<and> (\<forall>e \<in> ?S. fst e \<le> d0)" if "card S = k" "\<forall>e \<in> S. fst e \<le> d0"
      using that card lt w by (auto intro: order_trans[OF less_imp_le])
    show "(\<exists>d'. (d', row0) \<in> ?S \<and> d' \<le> d0) \<or> card ?S = k \<and> (\<forall>e \<in> ?S. fst e \<le> d0)"
    proof (cases "(d0, row0) = (d, row)")
      case False
      then have "(\<exists>d'. (d', row0) \<in> S \<and> d' \<le> d0) \<or> card S = k \<and> (\<forall>e \<in> S. fst e \<le> d0)"
        using D(5)[of d0 row0] o a by auto
      then consider d' where "(d', row0) \<in> S" "d' \<le> d0" "(d', row0) \<noteq> w"
        | "row0 = snd w" "fst w \<le> d0" | "card S = k" "\<forall>e \<in> S. fst e \<le> d0" by (metis fst_conv snd_conv)
      then show ?thesis
      proof cases
        case 2
        then have "card S = k \<and> (\<forall>e \<in> S. fst e \<le> d0)" if "row \<noteq> snd w" using row that by (auto intro: order_trans)
        then show ?thesis using 2 lt all by (cases "row = snd w") (auto intro: order_trans[OF less_imp_le])
      qed (use all in auto)
    qed auto
  qed
qed

lemma topk_of_step:
  assumes of: "topk_of k m offers S" and step: "topk_step k m S (d, row) S'"
  shows "topk_of k m (offers @ [(d, row)]) S'"
  using step
proof cases
  case refused
  then show ?thesis using topk_of_more[OF of] topk_ofD(1,2)[OF of] by auto
next
  case joined
  note D = topk_ofD[OF of]
  have "card S' = Suc (card S)" using joined D(1) by (force intro!: card_insert_disjoint)
  show ?thesis
  proof (rule topk_ofI)
    fix d0 row0 assume "(d0, row0) \<in> set (offers @ [(d, row)])" "topk_admissible m d0"
    then have "\<exists>d'. (d', row0) \<in> S' \<and> d' \<le> d0" using joined D(5)[of d0 row0] by auto
    then show "(\<exists>d'. (d', row0) \<in> S' \<and> d' \<le> d0) \<or> card S' = k \<and> (\<forall>e \<in> S'. fst e \<le> d0)" ..
  qed (use joined D(1-4) \<open>card S' = Suc (card S)\<close> in \<open>auto simp: inj_on_insert\<close>)
next
  case (improved d')
  then show ?thesis using topk_of_exchange[OF of, of d "(d', row)" row] by simp
next
  case (replaced w)
  then show ?thesis using topk_of_exchange[OF of, of d w row] by simp
next
  case known
  then show ?thesis using topk_of_more[OF of, of d row] by blast
next
  case beaten
  then show ?thesis using topk_of_more[OF of, of d row] by blast
qed

definition topk_push_all :: "(f32 \<times> i64) list \<Rightarrow> TopKHeap \<Rightarrow> TopKHeap res" where
  "topk_push_all offers = fold_res (\<lambda>(d, row). topk_push d row) offers"

lemma topk_push_all_of:
  assumes "topk_inv h" "topk_of (tk_k h) (tk_max_distance h) before (kept h)"
  shows "\<exists>h'. topk_push_all offers h = Inr h' \<and> topk_inv h'
    \<and> topk_of (tk_k h) (tk_max_distance h) (before @ offers) (kept h')"
  using assms
proof (induction offers arbitrary: h before)
  case (Cons x offers)
  obtain d row where x: "x = (d, row)" by (cases x)
  from topk_push_refines[OF Cons.prems(1), of d row] obtain h1 where
    h1: "topk_push d row h = Inr h1" "topk_inv h1" "tk_k h1 = tk_k h" "tk_max_distance h1 = tk_max_distance h"
    and st: "topk_step (tk_k h) (tk_max_distance h) (kept h) (d, row) (kept h1)" by (auto simp: push_refines_def)
  from topk_of_step[OF Cons.prems(2) st] have "topk_of (tk_k h1) (tk_max_distance h1) (before @ [x]) (kept h1)"
    using h1 x by simp
  from Cons.IH[OF h1(2) this] show ?case using h1 x by (simp add: topk_push_all_def)
qed (simp add: topk_push_all_def)

lemma topk_inv_empty: "topk_inv (topk_with_max_distance k m)"
  by (simp add: topk_inv_def topk_with_max_distance_def heap_ok_def positions_ok_def)

lemma topk_of_empty: "topk_of k m [] {}"
  by (simp add: topk_of_def)

section \<open>The heap as a collector\<close>

lemma admissible_iff: "\<not> is_nan m \<Longrightarrow> topk_admissible m d \<longleftrightarrow> f32_lt d m"
  by (auto simp: topk_admissible_def f32_le_def f32_lt_def)

lemma f32_le_total: "f32_le m w \<Longrightarrow> \<not> is_nan d \<Longrightarrow> \<not> f32_le m d \<Longrightarrow> d < w"
  by (rule f32_lt_less) (auto simp: f32_le_def f32_lt_def)

text \<open>A value above the limit changes nothing.\<close>

lemma topk_distance_limit_if:
  "topk_distance_limit h = (if topk_is_full h then fst (tk_data h ! 0) else tk_max_distance h)"
  by (simp add: topk_distance_limit_def topk_worst_distance_def)

lemma topk_push_beyond_root:
  assumes inv: "topk_inv h" and full: "topk_is_full h" and v: "\<not> v < fst (tk_data h ! 0)"
  shows "topk_push v row h = Inr h"
proof (cases "tk_positions h row")
  case (Some i)
  then have i: "i < length (tk_data h)" using inv positions_okD unfolding topk_inv_def by blast
  have "fst (tk_data h ! i) \<le> fst (tk_data h ! 0)" using inv heap_ok_root[OF _ i] by (simp add: topk_inv_def)
  then have "\<not> v < fst (tk_data h ! i)" using v by (meson less_le_trans)
  then show ?thesis using Some i by (simp add: topk_push_def idx_def)
next
  case None
  have "0 < length (tk_data h)" "\<not> length (tk_data h) < tk_k h" using full by (simp_all add: topk_is_full_def)
  then show ?thesis using None v by (simp add: topk_push_def idx_def)
qed

lemma topk_push_above_limit:
  assumes inv: "topk_inv h" and lt: "f32_lt (topk_distance_limit h) v"
  shows "topk_push v row h = Inr h"
proof (cases "topk_is_full h")
  case False
  then have "f32_lt (tk_max_distance h) v" using lt by (simp add: topk_distance_limit_if)
  then have "f32_le (tk_max_distance h) v" by (simp add: f32_le_def f32_lt_def)
  then show ?thesis by (simp add: topk_push_def)
next
  case True
  then have "f32_lt (fst (tk_data h ! 0)) v" using lt by (simp add: topk_distance_limit_if)
  then have "\<not> v < fst (tk_data h ! 0)" using f32_lt_less less_not_sym by blast
  then show ?thesis by (rule topk_push_beyond_root[OF inv True])
qed

text \<open>Offering through the collector is a push: the test before it refuses nothing a push would
  take.\<close>

lemma topk_collector_push_eq:
  assumes inv: "topk_inv h" and m: "\<not> is_nan (tk_max_distance h)"
  shows "topk_collector_push row v h = topk_push v row h"
proof (cases "0 < tk_k h \<and> \<not> is_nan v")
  case False
  then have "topk_push v row h = Inr h" by (auto simp: topk_push_def)
  then show ?thesis using False by (simp add: topk_collector_push_def topk_should_consider_def)
next
  case True
  have len: "length (tk_data h) \<le> tk_k h" using inv by (simp add: topk_inv_def)
  show ?thesis
  proof (cases "length (tk_data h) < tk_k h")
    case room: True
    have "topk_push v row h = Inr h" if "\<not> f32_lt v (tk_max_distance h)"
    proof -
      have "f32_le (tk_max_distance h) v" using that True m by (auto simp: f32_le_def f32_lt_def)
      then show ?thesis by (simp add: topk_push_def)
    qed
    then show ?thesis using True room by (simp add: topk_collector_push_def topk_should_consider_def)
  next
    case False
    then have full: "topk_is_full h" using True len by (simp add: topk_is_full_def)
    have "topk_should_consider v h = Inr (v < fst (tk_data h ! 0))"
      using True False full by (simp add: topk_should_consider_def idx_def topk_is_full_def)
    then show ?thesis using topk_push_beyond_root[OF inv full, of v row]
      by (cases "v < fst (tk_data h ! 0)") (simp_all add: topk_collector_push_def)
  qed
qed

section \<open>Properties\<close>

text \<open>C2: whatever is offered and in whatever order, the heap never panics and ends with exactly the
  best entries. They come out sorted with distinct ids and at most \<open>k\<close> of them; each is an
  admissible offer (no NaN, below the bound) and the least offer of its id; and every admissible
  offer of an id that is not among them is no nearer than each of the \<open>k\<close> entries kept.\<close>

theorem topk_keeps_the_best:
  "\<exists>h. topk_push_all offers (topk_with_max_distance k m) = Inr h
    \<and> sorted (map fst (topk_into_sorted h)) \<and> distinct (map snd (topk_into_sorted h))
    \<and> length (topk_into_sorted h) \<le> k
    \<and> (\<forall>(d, row) \<in> set (topk_into_sorted h).
         (d, row) \<in> set offers \<and> topk_admissible m d
         \<and> (\<forall>d'. (d', row) \<in> set offers \<and> topk_admissible m d' \<longrightarrow> d \<le> d'))
    \<and> (\<forall>(d, row) \<in> set offers. topk_admissible m d \<and> row \<notin> snd ` set (topk_into_sorted h) \<longrightarrow>
         length (topk_into_sorted h) = k \<and> (\<forall>e \<in> set (topk_into_sorted h). fst e \<le> d))"
proof -
  let ?h0 = "topk_with_max_distance k m"
  have f: "tk_k ?h0 = k" "tk_max_distance ?h0 = m" "kept ?h0 = {}" by (simp_all add: topk_with_max_distance_def)
  obtain h where h: "topk_push_all offers ?h0 = Inr h" "topk_inv h" "topk_of k m offers (kept h)"
    using topk_push_all_of[OF topk_inv_empty, of k m "[]" offers] topk_of_empty f by auto
  note D = topk_ofD[OF h(3)]
  have dis: "distinct (map snd (tk_data h))" by (rule topk_inv_distinct[OF h(2)])
  have card: "card (kept h) = length (tk_data h)" by (rule topk_inv_card[OF h(2)])
  have least: "d \<le> d'" if "(d, row) \<in> kept h" "(d', row) \<in> set offers" "topk_admissible m d'" for d d' row
    using D(5)[OF that(2,3)]
  proof
    assume "\<exists>d0. (d0, row) \<in> kept h \<and> d0 \<le> d'"
    then obtain d0 where "(d0, row) \<in> kept h" "d0 \<le> d'" by blast
    then show ?thesis using inj_onD[OF D(3) _ that(1), of "(d0, row)"] by simp
  next
    assume "card (kept h) = k \<and> (\<forall>e \<in> kept h. fst e \<le> d')"
    then show ?thesis using that(1) by fastforce
  qed
  have rest: "length (tk_data h) = k \<and> (\<forall>e \<in> kept h. fst e \<le> d)"
    if "(d, row) \<in> set offers" "topk_admissible m d" "row \<notin> snd ` kept h" for d row
    using D(5)[OF that(1,2)] that(3) card by force
  have s: "set (topk_into_sorted h) = kept h" "length (topk_into_sorted h) = length (tk_data h)"
    "sorted (map fst (topk_into_sorted h))" by (simp_all add: topk_into_sorted_def)
  have "distinct (map snd (topk_into_sorted h))" using dis by (auto simp: topk_into_sorted_def distinct_map)
  moreover have "\<forall>(d, row) \<in> kept h. (d, row) \<in> set offers \<and> topk_admissible m d
      \<and> (\<forall>d'. (d', row) \<in> set offers \<and> topk_admissible m d' \<longrightarrow> d \<le> d')"
    by (auto dest: D(4) intro: least)
  moreover have "\<forall>(d, row) \<in> set offers. topk_admissible m d \<and> row \<notin> snd ` kept h \<longrightarrow>
      length (tk_data h) = k \<and> (\<forall>e \<in> kept h. fst e \<le> d)" using rest by blast
  ultimately show ?thesis using h(1) s D(2) card by (intro exI[of _ h]) (simp only: s)
qed

theorem topk_keeps_the_best_witness:
  "\<exists>h. topk_push_all [(f32_one, 5), (f32_zero, 7), (f32_one, 7)] (topk_with_max_distance 1 f32_INFINITY) = Inr h
    \<and> topk_into_sorted h = [(f32_zero, 7)]"
proof -
  let ?offers = "[(f32_one, 5), (f32_zero, 7), (f32_one, 7)] :: (f32 \<times> i64) list"
  have lt: "f32_zero < f32_one" by (rule f32_lt_less) (simp add: f32_eval)
  have adm: "topk_admissible f32_INFINITY f32_zero" by (simp add: topk_admissible_def f32_cmp_defs)
  obtain h where h: "topk_push_all ?offers (topk_with_max_distance 1 f32_INFINITY) = Inr h"
    "length (topk_into_sorted h) \<le> 1"
    and all: "\<forall>(d, row) \<in> set (topk_into_sorted h). (d, row) \<in> set ?offers \<and> topk_admissible f32_INFINITY d
         \<and> (\<forall>d'. (d', row) \<in> set ?offers \<and> topk_admissible f32_INFINITY d' \<longrightarrow> d \<le> d')"
    and rest: "\<forall>(d, row) \<in> set ?offers. topk_admissible f32_INFINITY d \<and> row \<notin> snd ` set (topk_into_sorted h) \<longrightarrow>
         length (topk_into_sorted h) = 1 \<and> (\<forall>e \<in> set (topk_into_sorted h). fst e \<le> d)"
    using topk_keeps_the_best[of ?offers 1 f32_INFINITY] by blast
  obtain e where e: "topk_into_sorted h = [e]" using h(2) rest adm by (cases "topk_into_sorted h") auto
  have "e = (f32_zero, 7)"
    using all rest adm lt unfolding e by (cases e) (auto simp: not_le[symmetric])
  then show ?thesis using h(1) e by blast
qed

text \<open>C23: one push is one step of the abstract collection of distinct ids: on a well-formed heap it
  returns, keeps the heap order, the position index and the bound \<open>k\<close>, and changes the kept
  entries as the abstract step does.\<close>

theorem topk_push_refines_step:
  assumes "topk_inv h"
  shows "\<exists>h'. topk_push d row h = Inr h' \<and> topk_inv h' \<and> tk_k h' = tk_k h
    \<and> tk_max_distance h' = tk_max_distance h
    \<and> topk_step (tk_k h) (tk_max_distance h) (set (tk_data h)) (d, row) (set (tk_data h'))"
  using topk_push_refines[OF assms, of d row] by (simp add: push_refines_def)

theorem topk_push_refines_step_witness:
  "\<exists>h'. topk_push f32_one 5 (topk_with_max_distance 2 f32_INFINITY) = Inr h' \<and> topk_inv h'
    \<and> topk_step 2 f32_INFINITY {} (f32_one, 5) (set (tk_data h'))"
proof -
  have i: "topk_inv (topk_with_max_distance 2 f32_INFINITY)"
    by (simp add: topk_inv_def topk_with_max_distance_def heap_ok_def positions_ok_def)
  from topk_push_refines_step[OF i, of f32_one 5] show ?thesis by (auto simp: topk_with_max_distance_def)
qed

end
