(* ===== verification/Range.thy ===== *)
theory Range
  imports Distance
begin

text \<open>
  \<open>core/src/range.rs\<close>: distance bands. A public predicate on a distance (with \<open>f64\<close>
  endpoints) becomes a half-open interval of raw \<open>f32\<close> scores by a binary search over the bit
  patterns of the scores. The searches run over key numbers; a key is turned into its 32-bit word
  where the code reinterprets bits. Also the per-query result rows and their compressed-row
  (CSR) form.
\<close>

section \<open>Bands\<close>

datatype Bound = Unbounded | Finite f32

record DistanceBand =
  band_lower :: Bound
  band_upper :: Bound
  band_metric :: MetricType

definition cut_ok :: "MetricType \<Rightarrow> Bound \<Rightarrow> bool" where
  "cut_ok metric b =
     (case b of Unbounded \<Rightarrow> True
      | Finite v \<Rightarrow> is_finite v \<and> \<not> (metric = L2 \<and> f32_lt v f32_zero))"

definition band_from_raw :: "Bound \<Rightarrow> Bound \<Rightarrow> MetricType \<Rightarrow> DistanceBand res" where
  "band_from_raw lower upper metric =
     (if \<not> list_all (cut_ok metric) [lower, upper] then Inl (Err InvalidInput)
      else if (case (lower, upper) of (Finite low, Finite high) \<Rightarrow> f32_lt high low | _ \<Rightarrow> False)
      then Inl (Err InvalidInput)
      else Inr \<lparr>band_lower = lower, band_upper = upper, band_metric = metric\<rparr>)"

definition band_is_empty :: "DistanceBand \<Rightarrow> bool" where
  "band_is_empty band =
     (case (band_lower band, band_upper band) of (Finite low, Finite high) \<Rightarrow> f32_le high low | _ \<Rightarrow> False)"

definition admit_raw :: "DistanceBand \<Rightarrow> f32 \<Rightarrow> bool" where
  "admit_raw band v =
     (if \<not> is_finite v then False
      else (let above_lower = (case band_lower band of Unbounded \<Rightarrow> True | Finite low \<Rightarrow> f32_le low v);
                below_upper = (case band_upper band of Unbounded \<Rightarrow> True | Finite high \<Rightarrow> f32_lt v high)
            in above_lower \<and> below_upper))"

definition prepare_range_queries :: "arch \<Rightarrow> f32 list \<Rightarrow> nat \<Rightarrow> MetricType \<Rightarrow> f32 list res" where
  "prepare_range_queries t queries dimension metric =
     (if metric \<noteq> Cosine then Inr queries
      else if dimension = 0 then Inl Panic
      else bind_res
        (map_res (\<lambda>query.
           let (query', norm) = fvec_normalize t query in
           if \<not> is_finite norm \<or> list_ex (\<lambda>v. \<not> is_finite v) query' then Inl (Err InvalidData)
           else Inr query') (chunks_exact dimension queries))
        (\<lambda>normalized. Inr (concat normalized
           @ drop (dimension * (length queries div dimension)) queries)))"

definition checked_cosine_norm :: "arch \<Rightarrow> f32 list \<Rightarrow> f32 res" where
  "checked_cosine_norm t vector =
     (let norm_squared = fvec_norm_l2sqr t vector in
      if list_ex (\<lambda>v. \<not> is_finite v) vector \<or> \<not> is_finite norm_squared then Inl (Err InvalidData)
      else Inr (f32_sqrt norm_squared))"

section \<open>Endpoints\<close>

datatype CutOperator = Ge | Gt | Le | Lt

record DistanceEndpoint =
  ep_value :: f64
  ep_op :: CutOperator

definition l2_public_value :: "u32 \<Rightarrow> f64" where
  "l2_public_value stored_bits = public_distance L2 (F32 stored_bits)"

definition ordered_value :: "u32 \<Rightarrow> f32" where
  "ordered_value key = F32 (if key AND 0x80000000 \<noteq> 0 then key XOR 0x80000000 else NOT key)"

definition linear_admits :: "DistanceEndpoint \<Rightarrow> nat \<Rightarrow> bool" where
  "linear_admits endpoint key =
     (let v = f64_from (ordered_value (word_of_nat key)) in
      case ep_op endpoint of
        Ge \<Rightarrow> f64_le (ep_value endpoint) v | Lt \<Rightarrow> f64_le (ep_value endpoint) v
      | Gt \<Rightarrow> f64_lt (ep_value endpoint) v | Le \<Rightarrow> f64_lt (ep_value endpoint) v)"

definition first_linear_cut :: "DistanceEndpoint \<Rightarrow> f32 option" where
  "first_linear_cut endpoint =
     (if \<not> linear_admits endpoint 0xFF7FFFFF then None
      else Some (ordered_value (word_of_nat (bsearch (linear_admits endpoint) 0x00800000 0xFF7FFFFF))))"

definition first_ge :: "f64 \<Rightarrow> u32 option" where
  "first_ge endpoint =
     (let high = unat (to_bits f32_MAX) in
      if f64_lt (l2_public_value (word_of_nat high)) endpoint then None
      else Some (word_of_nat (bsearch (\<lambda>mid. f64_le endpoint (l2_public_value (word_of_nat mid))) 0 high)))"

definition first_gt :: "f64 \<Rightarrow> u32 option" where
  "first_gt endpoint =
     (let high = unat (to_bits f32_MAX) in
      if f64_le (l2_public_value (word_of_nat high)) endpoint then None
      else Some (word_of_nat (bsearch (\<lambda>mid. f64_lt endpoint (l2_public_value (word_of_nat mid))) 0 high)))"

definition reverse_endpoint :: "DistanceEndpoint \<Rightarrow> DistanceEndpoint" where
  "reverse_endpoint endpoint =
     \<lparr>ep_value = f64_neg (ep_value endpoint),
      ep_op = (case ep_op endpoint of Ge \<Rightarrow> Le | Gt \<Rightarrow> Lt | Le \<Rightarrow> Ge | Lt \<Rightarrow> Gt)\<rparr>"

text \<open>The finder of a side, or the error for an operator of the other side.\<close>

definition lower_finder :: "DistanceEndpoint option \<Rightarrow> (f64 \<times> (f64 \<Rightarrow> u32 option)) option res" where
  "lower_finder lower =
     (case lower of None \<Rightarrow> Inr None
      | Some ep \<Rightarrow> (case ep_op ep of
          Ge \<Rightarrow> Inr (Some (ep_value ep, first_ge)) | Gt \<Rightarrow> Inr (Some (ep_value ep, first_gt))
        | Le \<Rightarrow> Inl (Err InvalidInput) | Lt \<Rightarrow> Inl (Err InvalidInput)))"

definition upper_finder :: "DistanceEndpoint option \<Rightarrow> (f64 \<times> (f64 \<Rightarrow> u32 option)) option res" where
  "upper_finder upper =
     (case upper of None \<Rightarrow> Inr None
      | Some ep \<Rightarrow> (case ep_op ep of
          Lt \<Rightarrow> Inr (Some (ep_value ep, first_ge)) | Le \<Rightarrow> Inr (Some (ep_value ep, first_gt))
        | Ge \<Rightarrow> Inl (Err InvalidInput) | Gt \<Rightarrow> Inl (Err InvalidInput)))"

definition resolve_cut :: "(f64 \<times> (f64 \<Rightarrow> u32 option)) option \<Rightarrow> Bound res" where
  "resolve_cut side =
     (case side of None \<Rightarrow> Inr Unbounded
      | Some (v, finder) \<Rightarrow> bind_res (ok_or (Err Unsupported) (finder v)) (\<lambda>bits. Inr (Finite (F32 bits))))"

text \<open>The branch of \<open>from_endpoints\<close> for cosine and inner product: the cuts of two raw
  endpoints, and the reversal that turns inner-product endpoints into raw ones.\<close>

definition linear_cuts_band ::
  "DistanceEndpoint option \<Rightarrow> DistanceEndpoint option \<Rightarrow> MetricType \<Rightarrow> DistanceBand res" where
  "linear_cuts_band lower upper metric =
     (let lower_cut = map_option first_linear_cut lower;
          upper_cut = Option.bind upper first_linear_cut
      in if lower_cut = Some None
           \<or> (case upper_cut of Some high \<Rightarrow> f32_eq high (f32_neg f32_MAX) | None \<Rightarrow> False)
           \<or> (case (lower_cut, upper_cut) of (Some (Some low), Some high) \<Rightarrow> f32_lt high low | _ \<Rightarrow> False)
         then band_from_raw (Finite f32_zero) (Finite f32_zero) metric
         else band_from_raw
           (case lower_cut of Some (Some low) \<Rightarrow> Finite low | _ \<Rightarrow> Unbounded)
           (case upper_cut of Some high \<Rightarrow> Finite high | None \<Rightarrow> Unbounded) metric)"

definition linear_band ::
  "DistanceEndpoint option \<Rightarrow> DistanceEndpoint option \<Rightarrow> MetricType \<Rightarrow> DistanceBand res" where
  "linear_band lower upper metric =
     (if (case (lower, upper) of
            (Some low, Some high) \<Rightarrow> f64_lt (ep_value high) (ep_value low) | _ \<Rightarrow> False)
      then Inl (Err InvalidInput)
      else if metric = InnerProduct
      then linear_cuts_band (map_option reverse_endpoint upper) (map_option reverse_endpoint lower) metric
      else linear_cuts_band lower upper metric)"

definition from_endpoints ::
  "DistanceEndpoint option \<Rightarrow> DistanceEndpoint option \<Rightarrow> MetricType \<Rightarrow> DistanceBand res" where
  "from_endpoints lower upper metric =
     (if list_ex (\<lambda>ep. case ep of Some e \<Rightarrow> \<not> f64_is_finite (ep_value e) | None \<Rightarrow> False) [lower, upper]
      then Inl (Err InvalidInput)
      else bind_res (lower_finder lower) (\<lambda>lf.
        bind_res (upper_finder upper) (\<lambda>uf.
          if metric \<noteq> L2 then linear_band lower upper metric
          else bind_res (resolve_cut lf) (\<lambda>lower_bound.
               bind_res (resolve_cut uf) (\<lambda>upper_bound.
                 band_from_raw lower_bound upper_bound metric)))))"

section \<open>Results\<close>

record RangeSearchStats =
  lists_probed :: nat
  rows_scanned :: nat
  rows_committed :: nat
  early_abandoned :: nat

definition default_stats :: RangeSearchStats where
  "default_stats = \<lparr>lists_probed = 0, rows_scanned = 0, rows_committed = 0, early_abandoned = 0\<rparr>"

record RangeSearchResult =
  rr_lims :: "nat list"
  rr_labels :: "i64 list"
  rr_raw_distances :: "f32 list"
  rr_stats :: "RangeSearchStats list"
  rr_list_reads :: nat

definition result_query_count :: "RangeSearchResult \<Rightarrow> nat" where
  "result_query_count r = length (rr_lims r) - 1"

definition result_query :: "RangeSearchResult \<Rightarrow> nat \<Rightarrow> (i64 list \<times> f32 list \<times> RangeSearchStats) res" where
  "result_query r i =
     bind_res (idx (rr_lims r) i) (\<lambda>start.
     bind_res (idx (rr_lims r) (i + 1)) (\<lambda>fin.
     bind_res (subslice start fin (rr_labels r)) (\<lambda>labels.
     bind_res (subslice start fin (rr_raw_distances r)) (\<lambda>distances.
     bind_res (idx (rr_stats r) i) (\<lambda>stats. Inr (labels, distances, stats))))))"

record RangeResultBuilder =
  rb_rows :: "(i64 \<times> f32) list list"
  rb_stats :: "RangeSearchStats list"
  rb_list_reads :: nat

definition builder_new :: "nat \<Rightarrow> RangeResultBuilder" where
  "builder_new nq =
     \<lparr>rb_rows = replicate nq [], rb_stats = replicate nq default_stats, rb_list_reads = 0\<rparr>"

definition update_stats ::
  "nat \<Rightarrow> (RangeSearchStats \<Rightarrow> RangeSearchStats) \<Rightarrow> RangeResultBuilder \<Rightarrow> RangeResultBuilder res" where
  "update_stats query f b =
     bind_res (idx (rb_stats b) query) (\<lambda>s. Inr (b\<lparr>rb_stats := (rb_stats b)[query := f s]\<rparr>))"

definition take_rows :: "nat \<Rightarrow> (i64 \<times> f32) list \<Rightarrow> RangeResultBuilder \<Rightarrow> RangeResultBuilder res" where
  "take_rows query rows b =
     bind_res (update_stats query (\<lambda>s. s\<lparr>rows_committed := rows_committed s + length rows\<rparr>) b) (\<lambda>b'.
     bind_res (idx (rb_rows b') query) (\<lambda>old.
       Inr (b'\<lparr>rb_rows := (rb_rows b')[query := (if old = [] then rows else old @ rows)]\<rparr>)))"

definition record_list_read :: "RangeResultBuilder \<Rightarrow> RangeResultBuilder" where
  "record_list_read b = b\<lparr>rb_list_reads := rb_list_reads b + 1\<rparr>"

definition record_scanned :: "nat \<Rightarrow> nat \<Rightarrow> RangeResultBuilder \<Rightarrow> RangeResultBuilder res" where
  "record_scanned query rows = update_stats query (\<lambda>s. s\<lparr>rows_scanned := rows_scanned s + rows\<rparr>)"

definition record_early_abandoned :: "nat \<Rightarrow> nat \<Rightarrow> RangeResultBuilder \<Rightarrow> RangeResultBuilder res" where
  "record_early_abandoned query rows = update_stats query (\<lambda>s. s\<lparr>early_abandoned := early_abandoned s + rows\<rparr>)"

definition record_lists_probed :: "nat \<Rightarrow> nat \<Rightarrow> RangeResultBuilder \<Rightarrow> RangeResultBuilder res" where
  "record_lists_probed query n = update_stats query (\<lambda>s. s\<lparr>lists_probed := lists_probed s + n\<rparr>)"

definition builder_build :: "RangeResultBuilder \<Rightarrow> RangeSearchResult" where
  "builder_build b =
     (let (lims, labels, distances) =
            foldl (\<lambda>(lims, labels, distances) query_rows.
                let labels' = labels @ map fst query_rows in
                (lims @ [length labels'], labels', distances @ map snd query_rows))
              ([0], [], []) (rb_rows b)
      in \<lparr>rr_lims = lims, rr_labels = labels, rr_raw_distances = distances,
          rr_stats = rb_stats b, rr_list_reads = rb_list_reads b\<rparr>)"

record VectorRangeSearchParams =
  rp_band :: DistanceBand
  rp_nprobe :: nat

definition range_validate_shape :: "VectorRangeSearchParams \<Rightarrow> unit res" where
  "range_validate_shape params = (if rp_nprobe params = 0 then Inl (Err InvalidInput) else Inr ())"

definition range_validate :: "VectorRangeSearchParams \<Rightarrow> nat \<Rightarrow> nat res" where
  "range_validate params nlist =
     bind_res (range_validate_shape params) (\<lambda>_. Inr (min (rp_nprobe params) nlist))"

section \<open>Axes of scores\<close>

text \<open>A numbered axis of finite scores that rises in the IEEE order, with the public value of
  each, over a domain in which every score equals (as a number) one of the axis. A search for the
  first score whose public value passes a test then decides the test by one comparison of raw
  scores.\<close>

definition upward :: "(f64 \<Rightarrow> bool) \<Rightarrow> bool" where
  "upward passes \<longleftrightarrow> (\<forall>x y. f64_le x y \<longrightarrow> passes x \<longrightarrow> passes y)"

locale cut_axis =
  fixes lo hi :: nat and axis :: "nat \<Rightarrow> f32" and domain :: "f32 \<Rightarrow> bool" and public :: "f32 \<Rightarrow> f64"
  assumes bounds: "lo \<le> hi"
    and axis_domain: "lo \<le> k \<Longrightarrow> k \<le> hi \<Longrightarrow> domain (axis k)"
    and axis_mono: "lo \<le> j \<Longrightarrow> j \<le> k \<Longrightarrow> k \<le> hi \<Longrightarrow> f32_le (axis j) (axis k)"
    and covers: "domain v \<Longrightarrow> \<exists>k. lo \<le> k \<and> k \<le> hi \<and> f32_le (axis k) v \<and> f32_le v (axis k)"
    and public_mono: "domain x \<Longrightarrow> domain y \<Longrightarrow> f32_le x y \<Longrightarrow> f64_le (public x) (public y)"
begin

lemma passes_rising: "upward passes \<Longrightarrow> rising (\<lambda>k. passes (public (axis k))) lo hi"
  unfolding rising_def upward_def using axis_domain axis_mono public_mono by (meson order_trans)

lemma same_public:
  assumes "domain v" "lo \<le> k" "k \<le> hi" "f32_le (axis k) v" "f32_le v (axis k)" "upward passes"
  shows "passes (public v) \<longleftrightarrow> passes (public (axis k))"
  using assms axis_domain public_mono unfolding upward_def by meson

lemma cut_decides:
  assumes up: "upward passes" and top: "passes (public (axis hi))" and v: "domain v"
  shows "f32_le (axis (bsearch (\<lambda>k. passes (public (axis k))) lo hi)) v \<longleftrightarrow> passes (public v)"
proof -
  let ?p = "\<lambda>k. passes (public (axis k))" let ?c = "bsearch ?p lo hi"
  obtain k where k: "lo \<le> k" "k \<le> hi" "f32_le (axis k) v" "f32_le v (axis k)" using covers[OF v] by blast
  have r: "rising ?p lo hi" using up by (rule passes_rising)
  have c: "lo \<le> ?c" "?c \<le> hi" using bsearch_bounds[OF bounds] by auto
  have iff: "?c \<le> k \<longleftrightarrow> ?p k" by (rule bsearch_le_iff[OF bounds top r k(1,2)])
  have pc: "?p ?c" using bsearch_least[OF bounds _ r] top by blast
  show ?thesis
  proof
    assume "f32_le (axis ?c) v"
    then have "f64_le (public (axis ?c)) (public v)" using public_mono axis_domain c v by blast
    then show "passes (public v)" using pc up unfolding upward_def by blast
  next
    assume "passes (public v)"
    then have "?c \<le> k" using iff same_public[OF v k up] by blast
    then have "f32_le (axis ?c) (axis k)" using axis_mono c(1) k(2) by blast
    then show "f32_le (axis ?c) v" using k(3) by (auto simp: f32_le_def)
  qed
qed

lemma no_cut:
  assumes up: "upward passes" and top: "\<not> passes (public (axis hi))" and v: "domain v"
  shows "\<not> passes (public v)"
proof -
  obtain k where k: "lo \<le> k" "k \<le> hi" "f32_le (axis k) v" "f32_le v (axis k)" using covers[OF v] by blast
  have "f64_le (public (axis k)) (public (axis hi))" using public_mono axis_domain axis_mono k bounds by blast
  then show ?thesis using top up same_public[OF v k up] unfolding upward_def by blast
qed

end

lemma upward_ge: "upward (f64_le e)"
  by (auto simp: upward_def f64_le_def)

lemma upward_gt: "upward (f64_lt e)"
  by (auto simp: upward_def f64_le_def f64_lt_def)

subsection \<open>All finite scores\<close>

lemma unat_key: "k < 0x100000000 \<Longrightarrow> unat (word_of_nat k :: u32) = k"
  by (simp add: unat_of_nat)

lemma high_bit: "(x :: u32) AND 0x80000000 \<noteq> 0 \<longleftrightarrow> 0x80000000 \<le> unat x"
proof -
  have "(x AND 2 ^ 31 = 0) \<longleftrightarrow> \<not> bit x 31" by (rule and_exp_eq_0_iff_not_bit)
  then have a: "x AND 0x80000000 \<noteq> 0 \<longleftrightarrow> bit x 31" by simp
  have b: "bit x 31 \<longleftrightarrow> odd (unat x div 0x80000000)"
    using bit_unsigned_iff[of x 31, where 'a = nat] bit_iff_odd[of "unat x" 31] by simp
  have "unat x < 0x100000000" using unsigned_less[of x, where 'a = nat] by simp
  then have "unat x div 0x80000000 < 2" by (simp add: less_mult_imp_div_less)
  then have "odd (unat x div 0x80000000) \<longleftrightarrow> unat x div 0x80000000 = 1" by (auto simp: less_2_cases_iff)
  also have "\<dots> \<longleftrightarrow> 0x80000000 \<le> unat x" using \<open>unat x < 0x100000000\<close> by auto
  finally show ?thesis using a b by simp
qed

lemma xor_high_bit: "0x80000000 \<le> unat (x :: u32) \<Longrightarrow> unat (x XOR 0x80000000) = unat x - 0x80000000"
proof -
  assume h: "0x80000000 \<le> unat x"
  then have b: "bit x 31" using high_bit[of x] and_exp_eq_0_iff_not_bit[of x 31] by simp
  have "x XOR push_bit 31 1 = unset_bit 31 x"
  proof (rule bit_eqI)
    fix n assume "possible_bit TYPE(u32) n"
    then have "n < 32" by simp
    then show "bit (x XOR push_bit 31 1) n \<longleftrightarrow> bit (unset_bit 31 x) n"
      by (cases "n = 31") (auto simp: bit_simps b simp del: push_bit_of_1 push_bit_numeral)
  qed
  also have "\<dots> = x - 2 ^ 31" by (simp add: unset_bit_eq b)
  finally show ?thesis using h by (simp add: unat_sub word_le_nat_alt)
qed

lemma unat_not: "unat (NOT (x :: u32)) = 0xFFFFFFFF - unat x"
proof -
  have "NOT x = 0xFFFFFFFF - x" by (simp add: not_eq_complement)
  moreover have "x \<le> 0xFFFFFFFF" using unsigned_less[of x, where 'a = nat] by (simp add: word_le_nat_alt)
  ultimately show ?thesis by (simp add: unat_sub)
qed
lemma scode_ordered_value:
  assumes "k < 0x100000000"
  shows "scode (ordered_value (word_of_nat k)) = (if 0x80000000 \<le> k then int k - 0x80000000 else int k - 0x7FFFFFFF)"
    and "code (ordered_value (word_of_nat k)) = (if 0x80000000 \<le> k then k - 0x80000000 else 0x7FFFFFFF - k)"
proof -
  let ?v = "ordered_value (word_of_nat k)"
  have "unat (to_bits ?v) = (if 0x80000000 \<le> k then k - 0x80000000 else 0xFFFFFFFF - k)"
    using high_bit[of "word_of_nat k"] xor_high_bit[of "word_of_nat k"] unat_not[of "word_of_nat k"] unat_key[OF assms]
    by (simp add: ordered_value_def)
  then have f: "sign ?v \<longleftrightarrow> \<not> 0x80000000 \<le> k" "code ?v = (if 0x80000000 \<le> k then k - 0x80000000 else 0x7FFFFFFF - k)"
    using assms by (auto simp: sign_def code_def mod_if)
  then show "code ?v = (if 0x80000000 \<le> k then k - 0x80000000 else 0x7FFFFFFF - k)"
    "scode ?v = (if 0x80000000 \<le> k then int k - 0x80000000 else int k - 0x7FFFFFFF)"
    by (auto simp: scode_def)
qed

lemma f32_le_scode: "is_finite x \<Longrightarrow> is_finite y \<Longrightarrow> f32_le x y \<longleftrightarrow> scode x \<le> scode y"
  by (simp add: f32_le_def)

lemma f64_le_from: "is_finite x \<Longrightarrow> is_finite y \<Longrightarrow> f64_le (f64_from x) (f64_from y) \<longleftrightarrow> scode x \<le> scode y"
  using f64_from_mono[of x y] f64_from_finite[of x] f64_from_finite[of y]
  by (auto simp: f64_le_def f64_is_finite_def f64_is_nan_def)

interpretation linear_axis: cut_axis "0x00800000" "0xFF7FFFFF" "\<lambda>k. ordered_value (word_of_nat k)" is_finite f64_from
proof unfold_locales
  show fin: "is_finite (ordered_value (word_of_nat k))" if "0x00800000 \<le> k" "k \<le> 0xFF7FFFFF" for k
    using scode_ordered_value(2)[of k] that by (auto simp: is_finite_def F32_INF_CODE_def)
  show "f32_le (ordered_value (word_of_nat j)) (ordered_value (word_of_nat k))"
    if "0x00800000 \<le> j" "j \<le> k" "k \<le> 0xFF7FFFFF" for j k
    using fin[of j] fin[of k] scode_ordered_value(1)[of j] scode_ordered_value(1)[of k] that by (simp add: f32_le_scode)
  show "\<exists>k. 0x00800000 \<le> k \<and> k \<le> 0xFF7FFFFF \<and> f32_le (ordered_value (word_of_nat k)) v
      \<and> f32_le v (ordered_value (word_of_nat k))" if v: "is_finite v" for v
  proof -
    define k where "k = (if sign v then 0x7FFFFFFF - code v else 0x80000000 + code v)"
    have c: "code v < 0x7F800000" using v by (simp add: is_finite_def F32_INF_CODE_def)
    then have k: "0x00800000 \<le> k" "k \<le> 0xFF7FFFFF" by (auto simp: k_def)
    have "(if 0x80000000 \<le> k then int k - 0x80000000 else int k - 0x7FFFFFFF) = scode v"
      using c by (auto simp: scode_def k_def of_nat_diff)
    then have "scode (ordered_value (word_of_nat k)) = scode v"
      using scode_ordered_value(1)[of k] k by simp
    then show ?thesis using k fin[OF k] v by (intro exI[of _ k]) (simp add: f32_le_scode)
  qed
qed (auto simp: f64_le_from f32_le_scode)

subsection \<open>The scores of squared L2\<close>

lemma round_root_le:
  assumes "n \<le> mag F c * mag F c" "c \<le> ic"
  shows "round_root F ic n \<le> c"
proof -
  let ?m = "mag F c + mag F (Suc c)"
  have "2 * mag F c < ?m" by simp
  then have "2 * mag F c * (2 * mag F c) < ?m * ?m" by (intro mult_strict_mono') simp_all
  then have "4 * n < ?m * ?m" using assms(1) by simp
  then show ?thesis using round_code_le_iff[OF cut_root[of n] assms(2), of F] by (simp add: round_root_def takes_def)
qed

lemma mag_finite: "c < F32_INF_CODE \<Longrightarrow> mag 23 c \<le> 2 ^ 277"
proof -
  assume "c < F32_INF_CODE"
  then have "mag 23 c \<le> mag 23 F32_INF_CODE" by (intro mag_mono) simp
  also have "\<dots> = 2 ^ 277" by (simp add: mag_def F32_INF_CODE_def)
  finally show ?thesis .
qed

lemma sqrt_finite:
  assumes "is_finite x" "\<not> sign x"
  shows "is_finite (f32_sqrt x)"
proof (cases "code x = 0")
  case True
  then show ?thesis using assms by (simp add: f32_sqrt_def)
next
  case False
  obtain c where c: "mag 23 c = 1 * 2 ^ 213" "c < (213 + 2) * 2 ^ 23" using mag_represents[of 1 23 213] by auto
  have fin: "code x < F32_INF_CODE" using assms(1) by (simp add: is_finite_def)
  have "mag 23 (code x) * 2 ^ 149 \<le> 2 ^ 277 * 2 ^ 149" using mag_finite[OF fin] by (intro mult_le_mono1)
  also have "\<dots> = mag 23 c * mag 23 c" unfolding c(1) by simp
  finally have "round_root 23 F32_INF_CODE (mag 23 (code x) * 2 ^ 149) \<le> c"
    using c(2) by (intro round_root_le) (simp_all add: F32_INF_CODE_def)
  then have "round_root 23 F32_INF_CODE (mag 23 (code x) * 2 ^ 149) < F32_INF_CODE" using c(2) by (simp add: F32_INF_CODE_def)
  then show ?thesis using assms False fin
    by (simp add: f32_sqrt_def is_finite_def is_nan_def is_inf_def)
qed

definition l2_domain :: "f32 \<Rightarrow> bool" where
  "l2_domain v \<longleftrightarrow> is_finite v \<and> f32_le f32_zero v"

lemma l2_domain_cases: "l2_domain v \<longleftrightarrow> is_finite v \<and> (\<not> sign v \<or> code v = 0)"
  by (auto simp: l2_domain_def f32_le_def scode_def)

lemma sqrt_scode_mono:
  assumes x: "l2_domain x" and y: "l2_domain y" and le: "f32_le x y"
  shows "is_finite (f32_sqrt x) \<and> is_finite (f32_sqrt y) \<and> scode (f32_sqrt x) \<le> scode (f32_sqrt y)"
proof -
  have zero: "f32_sqrt v = v" if "code v = 0" for v using that by (simp add: f32_sqrt_def is_nan_def)
  have fin: "is_finite (f32_sqrt v)" if "l2_domain v" for v
    using that sqrt_finite[of v] zero[of v] by (auto simp: l2_domain_cases)
  have nn: "0 \<le> scode (f32_sqrt v)" if "l2_domain v" for v
    using that sqrt_mono[of v v] zero[of v] by (cases "code v = 0") (auto simp: l2_domain_cases scode_def)
  have "scode (f32_sqrt x) \<le> scode (f32_sqrt y)"
  proof (cases "code x = 0 \<or> code y = 0")
    case True
    then have "code x = 0" using x le by (auto simp: l2_domain_cases f32_le_def scode_def split: if_splits)
    then have "scode (f32_sqrt x) = 0" using zero by (simp add: scode_def)
    then show ?thesis using nn[OF y] by simp
  next
    case False
    then show ?thesis using x y le sqrt_mono[of x y] by (auto simp: l2_domain_cases f32_le_def scode_def)
  qed
  then show ?thesis using fin[OF x] fin[OF y] by blast
qed

lemma bits_score:
  assumes "k \<le> 0x7F7FFFFF"
  shows "\<not> sign (F32 (word_of_nat k))" "code (F32 (word_of_nat k)) = k" "is_finite (F32 (word_of_nat k))"
  using assms unat_key[of k] by (simp_all add: sign_def code_def is_finite_def F32_INF_CODE_def)

lemma unat_MAX: "unat (to_bits f32_MAX) = 0x7F7FFFFF"
  by (simp add: f32_MAX_def)

interpretation l2_axis: cut_axis 0 "0x7F7FFFFF" "\<lambda>k. F32 (word_of_nat k)" l2_domain "public_distance L2"
proof unfold_locales
  show dom: "l2_domain (F32 (word_of_nat k))" if "0 \<le> k" "k \<le> 0x7F7FFFFF" for k
    using bits_score[OF that(2)] by (simp add: l2_domain_cases)
  show "f32_le (F32 (word_of_nat j)) (F32 (word_of_nat k))" if "0 \<le> j" "j \<le> k" "k \<le> 0x7F7FFFFF" for j k
    using bits_score[of j] bits_score[of k] that by (simp add: f32_le_def scode_def)
  show "\<exists>k. 0 \<le> k \<and> k \<le> 0x7F7FFFFF \<and> f32_le (F32 (word_of_nat k)) v \<and> f32_le v (F32 (word_of_nat k))"
    if v: "l2_domain v" for v
  proof -
    have "code v \<le> 0x7F7FFFFF" using v by (auto simp: l2_domain_def is_finite_def F32_INF_CODE_def)
    then show ?thesis using bits_score[of "code v"] v
      by (intro exI[of _ "code v"]) (auto simp: l2_domain_cases f32_le_def scode_def)
  qed
  show "f64_le (public_distance L2 x) (public_distance L2 y)" if "l2_domain x" "l2_domain y" "f32_le x y" for x y
    using sqrt_scode_mono[OF that] by (simp add: public_distance_def f64_le_from)
qed simp

section \<open>The cuts decide the public predicates\<close>

definition meets :: "DistanceEndpoint option \<Rightarrow> f64 \<Rightarrow> bool" where
  "meets ep x =
     (case ep of None \<Rightarrow> True
      | Some e \<Rightarrow> (case ep_op e of
          Ge \<Rightarrow> f64_le (ep_value e) x | Gt \<Rightarrow> f64_lt (ep_value e) x
        | Le \<Rightarrow> f64_le x (ep_value e) | Lt \<Rightarrow> f64_lt x (ep_value e)))"

text \<open>The test of an endpoint's cut: at or past the endpoint.\<close>

definition cut_test :: "DistanceEndpoint \<Rightarrow> f64 \<Rightarrow> bool" where
  "cut_test e = (case ep_op e of Ge \<Rightarrow> f64_le (ep_value e) | Lt \<Rightarrow> f64_le (ep_value e)
     | Gt \<Rightarrow> f64_lt (ep_value e) | Le \<Rightarrow> f64_lt (ep_value e))"

lemma upward_cut_test: "upward (cut_test e)"
  by (simp add: cut_test_def upward_ge upward_gt split: CutOperator.split)

lemma meets_lower: "ep_op e \<in> {Ge, Gt} \<Longrightarrow> meets (Some e) x \<longleftrightarrow> cut_test e x"
  by (auto simp: meets_def cut_test_def)

lemma meets_upper:
  "ep_op e \<in> {Le, Lt} \<Longrightarrow> \<not> f64_is_nan x \<Longrightarrow> \<not> f64_is_nan (ep_value e) \<Longrightarrow> meets (Some e) x \<longleftrightarrow> \<not> cut_test e x"
  by (auto simp: meets_def cut_test_def f64_le_def f64_lt_def)

lemma f64_finite_not_nan: "f64_is_finite x \<Longrightarrow> \<not> f64_is_nan x"
  by (simp add: f64_is_finite_def f64_is_nan_def)

lemma public_not_nan:
  assumes "is_finite v" "metric = L2 \<longrightarrow> l2_domain v"
  shows "\<not> f64_is_nan (public_distance metric v)"
proof -
  have "is_finite (f32_sqrt v)" if "l2_domain v" using sqrt_scode_mono[OF that that] that by (auto simp: l2_domain_def f32_le_def)
  moreover have "is_finite (f32_neg v)" using assms(1) by simp
  ultimately show ?thesis using assms f64_from_finite f64_finite_not_nan
    by (cases metric) (auto simp: public_distance_def)
qed

lemma first_linear_cut_decides:
  assumes "is_finite v"
  shows "case first_linear_cut e of
           None \<Rightarrow> \<not> cut_test e (f64_from v)
         | Some c \<Rightarrow> is_finite c \<and> (f32_le c v \<longleftrightarrow> cut_test e (f64_from v))"
proof -
  have la: "linear_admits e = (\<lambda>k. cut_test e (f64_from (ordered_value (word_of_nat k))))"
    by (auto simp: linear_admits_def cut_test_def Let_def fun_eq_iff split: CutOperator.split)
  show ?thesis
  proof (cases "linear_admits e 0xFF7FFFFF")
    case True
    then have t: "cut_test e (f64_from (ordered_value (word_of_nat 0xFF7FFFFF)))" by (simp only: la)
    let ?c = "bsearch (linear_admits e) 0x00800000 0xFF7FFFFF"
    have "0x00800000 \<le> ?c" "?c \<le> 0xFF7FFFFF" using bsearch_bounds[OF linear_axis.bounds] by auto
    then have "is_finite (ordered_value (word_of_nat ?c))" by (rule linear_axis.axis_domain)
    moreover have "f32_le (ordered_value (word_of_nat ?c)) v \<longleftrightarrow> cut_test e (f64_from v)"
      unfolding la by (rule linear_axis.cut_decides[OF upward_cut_test t assms])
    ultimately show ?thesis using True by (simp add: first_linear_cut_def)
  next
    case False
    then have t: "\<not> cut_test e (f64_from (ordered_value (word_of_nat 0xFF7FFFFF)))" unfolding la .
    then show ?thesis using False linear_axis.no_cut[OF upward_cut_test t assms] by (simp add: first_linear_cut_def)
  qed
qed

text \<open>The finders of the L2 branch, by the operator they serve.\<close>

definition l2_finder :: "DistanceEndpoint \<Rightarrow> f64 \<Rightarrow> u32 option" where
  "l2_finder e = (case ep_op e of Ge \<Rightarrow> first_ge | Lt \<Rightarrow> first_ge | Gt \<Rightarrow> first_gt | Le \<Rightarrow> first_gt)"

lemma if_flip: "(if \<not> P then x else y) = (if P then y else x)"
  by simp

lemma l2_finder_eq:
  assumes "\<not> f64_is_nan (ep_value e)"
  shows "l2_finder e (ep_value e) =
    (if cut_test e (public_distance L2 (F32 (word_of_nat 0x7F7FFFFF)))
     then Some (word_of_nat (bsearch (\<lambda>k. cut_test e (public_distance L2 (F32 (word_of_nat k)))) 0 0x7F7FFFFF))
     else None)"
proof -
  let ?m = "public_distance L2 (F32 (word_of_nat 0x7F7FFFFF))"
  have "\<not> f64_is_nan ?m" using bits_score(3)[of "0x7F7FFFFF"] l2_axis.axis_domain[of "0x7F7FFFFF"]
    by (intro public_not_nan) simp_all
  then have ge: "f64_lt ?m (ep_value e) \<longleftrightarrow> \<not> f64_le (ep_value e) ?m" and gt: "f64_le ?m (ep_value e) \<longleftrightarrow> \<not> f64_lt (ep_value e) ?m"
    using assms by (auto simp: f64_le_def f64_lt_def)
  show ?thesis unfolding l2_finder_def first_ge_def first_gt_def Let_def unat_MAX l2_public_value_def cut_test_def
    by (cases "ep_op e") (simp_all only: CutOperator.case ge gt if_flip)
qed

lemma l2_finder_decides:
  assumes "\<not> f64_is_nan (ep_value e)" "l2_domain v"
  shows "case l2_finder e (ep_value e) of
           None \<Rightarrow> \<not> cut_test e (public_distance L2 v)
         | Some b \<Rightarrow> is_finite (F32 b) \<and> (f32_le (F32 b) v \<longleftrightarrow> cut_test e (public_distance L2 v))"
proof (cases "cut_test e (public_distance L2 (F32 (word_of_nat 0x7F7FFFFF)))")
  case True
  let ?c = "bsearch (\<lambda>k. cut_test e (public_distance L2 (F32 (word_of_nat k)))) 0 0x7F7FFFFF"
  have "?c \<le> 0x7F7FFFFF" using bsearch_bounds[OF l2_axis.bounds] by blast
  then have "is_finite (F32 (word_of_nat ?c))" by (rule bits_score(3))
  moreover have "f32_le (F32 (word_of_nat ?c)) v \<longleftrightarrow> cut_test e (public_distance L2 v)"
    by (rule l2_axis.cut_decides[OF upward_cut_test True assms(2)])
  ultimately show ?thesis unfolding l2_finder_eq[OF assms(1)] if_P[OF True] option.case by blast
next
  case False
  show ?thesis unfolding l2_finder_eq[OF assms(1)] if_not_P[OF False] option.case
    by (rule l2_axis.no_cut[OF upward_cut_test False assms(2)])
qed

text \<open>A bound from a cut, read from below and from above.\<close>

definition above_bound :: "Bound \<Rightarrow> f32 \<Rightarrow> bool" where
  "above_bound b v = (case b of Unbounded \<Rightarrow> True | Finite low \<Rightarrow> f32_le low v)"

definition below_bound :: "Bound \<Rightarrow> f32 \<Rightarrow> bool" where
  "below_bound b v = (case b of Unbounded \<Rightarrow> True | Finite high \<Rightarrow> f32_lt v high)"

lemma band_from_raw_admits:
  "band_from_raw lo up metric = Inr band \<Longrightarrow> is_finite v \<Longrightarrow> admit_raw band v \<longleftrightarrow> above_bound lo v \<and> below_bound up v"
  by (auto simp: band_from_raw_def admit_raw_def above_bound_def below_bound_def split: if_splits)

lemma f32_lt_not_le: "is_finite x \<Longrightarrow> is_finite y \<Longrightarrow> f32_lt x y \<longleftrightarrow> \<not> f32_le y x"
  by (auto simp: f32_lt_def f32_le_def)

lemma upper_cut_decides:
  assumes "ep_op e \<in> {Le, Lt}" "f64_is_finite (ep_value e)" "\<not> f64_is_nan x" "is_finite v" "is_finite c"
    and "f32_le c v \<longleftrightarrow> cut_test e x"
  shows "f32_lt v c \<longleftrightarrow> meets (Some e) x"
  using assms meets_upper[OF assms(1,3)] f64_finite_not_nan f32_lt_not_le by blast

definition lower_side :: "DistanceEndpoint option \<Rightarrow> bool" where
  "lower_side ep \<longleftrightarrow> (case ep of None \<Rightarrow> True | Some e \<Rightarrow> ep_op e \<in> {Ge, Gt} \<and> f64_is_finite (ep_value e))"

definition upper_side :: "DistanceEndpoint option \<Rightarrow> bool" where
  "upper_side ep \<longleftrightarrow> (case ep of None \<Rightarrow> True | Some e \<Rightarrow> ep_op e \<in> {Le, Lt} \<and> f64_is_finite (ep_value e))"

lemma linear_lower:
  assumes "lower_side lower" "is_finite v"
  shows "meets lower (f64_from v) \<longleftrightarrow> (case map_option first_linear_cut lower of
           None \<Rightarrow> True | Some None \<Rightarrow> False | Some (Some low) \<Rightarrow> f32_le low v)"
  using assms first_linear_cut_decides[OF assms(2)] meets_lower
  by (cases lower) (fastforce simp: lower_side_def meets_def split: option.splits)+

lemma linear_upper:
  assumes "upper_side upper" "is_finite v"
  shows "meets upper (f64_from v) \<longleftrightarrow> (case Option.bind upper first_linear_cut of
           None \<Rightarrow> True | Some high \<Rightarrow> f32_lt v high)"
proof (cases upper)
  case (Some e)
  have n: "\<not> f64_is_nan (f64_from v)" using f64_from_finite[OF assms(2)] f64_finite_not_nan by blast
  have e: "ep_op e \<in> {Le, Lt}" "f64_is_finite (ep_value e)" using assms(1) Some by (auto simp: upper_side_def)
  show ?thesis using first_linear_cut_decides[OF assms(2), of e] Some upper_cut_decides[OF e n assms(2)]
      meets_upper[OF e(1) n f64_finite_not_nan[OF e(2)]]
    by (cases "first_linear_cut e") auto
qed (simp add: meets_def)

lemma first_linear_cut_finite: "first_linear_cut e = Some c \<Longrightarrow> is_finite c"
  using first_linear_cut_decides[of f32_zero e] by simp

lemma empty_raw_band:
  "\<exists>band. band_from_raw (Finite f32_zero) (Finite f32_zero) metric = Inr band \<and> (\<forall>v. \<not> admit_raw band v)"
  by (auto simp: band_from_raw_def cut_ok_def admit_raw_def f32_lt_def f32_le_def)

lemma below_neg_MAX: "is_finite v \<Longrightarrow> f32_eq high (f32_neg f32_MAX) \<Longrightarrow> \<not> f32_lt v high"
  by (auto simp: f32_eq_def f32_lt_def scode_def is_finite_def)

lemma linear_cuts_band_exact:
  assumes lo: "lower_side lower" and up: "upper_side upper" and m: "metric \<noteq> L2"
  shows "\<exists>band. linear_cuts_band lower upper metric = Inr band \<and>
    (\<forall>v. is_finite v \<longrightarrow> (admit_raw band v \<longleftrightarrow> meets lower (f64_from v) \<and> meets upper (f64_from v)))"
proof -
  let ?l = "map_option first_linear_cut lower" let ?u = "Option.bind upper first_linear_cut"
  note low = linear_lower[OF lo] and upp = linear_upper[OF up]
  show ?thesis
  proof (cases "?l = Some None \<or> (case ?u of Some high \<Rightarrow> f32_eq high (f32_neg f32_MAX) | None \<Rightarrow> False)
      \<or> (case (?l, ?u) of (Some (Some low), Some high) \<Rightarrow> f32_lt high low | _ \<Rightarrow> False)")
    case True
    have "\<not> (meets lower (f64_from v) \<and> meets upper (f64_from v))" if "is_finite v" for v
      using True low[OF that] upp[OF that] below_neg_MAX[OF that]
      by (auto simp: f32_lt_def f32_le_def split: option.splits)
    moreover have "linear_cuts_band lower upper metric = band_from_raw (Finite f32_zero) (Finite f32_zero) metric"
      using True by (simp only: linear_cuts_band_def Let_def if_True simp_thms)
    ultimately show ?thesis using empty_raw_band[of metric] by metis
  next
    case False
    let ?lb = "case ?l of Some (Some low) \<Rightarrow> Finite low | _ \<Rightarrow> Unbounded"
    let ?ub = "case ?u of Some high \<Rightarrow> Finite high | None \<Rightarrow> Unbounded"
    have eq: "linear_cuts_band lower upper metric = band_from_raw ?lb ?ub metric"
      unfolding linear_cuts_band_def Let_def by (rule if_not_P[OF False])
    have fin: "cut_ok metric ?lb" "cut_ok metric ?ub"
      using m first_linear_cut_finite by (auto simp: cut_ok_def bind_eq_Some_conv split: option.splits Bound.splits)
    have "\<exists>band. band_from_raw ?lb ?ub metric = Inr band"
      using fin False by (auto simp: band_from_raw_def split: option.splits Bound.splits)
    then obtain band where b: "band_from_raw ?lb ?ub metric = Inr band" ..
    have "admit_raw band v \<longleftrightarrow> meets lower (f64_from v) \<and> meets upper (f64_from v)" if "is_finite v" for v
      using band_from_raw_admits[OF b that] low[OF that] upp[OF that] False
      by (auto simp: above_bound_def below_bound_def split: option.splits)
    then show ?thesis using eq b by auto
  qed
qed

lemma f64_from_neg:
  assumes "is_finite v"
  shows "f64_scode (f64_from (f32_neg v)) = - f64_scode (f64_from v)"
    "\<not> f64_is_nan (f64_from (f32_neg v))" "\<not> f64_is_nan (f64_from v)"
proof -
  have n: "is_finite (f32_neg v)" using assms by simp
  note a = f64_from_finite[OF assms] and b = f64_from_finite[OF n]
  have "mag 52 (f64_code (f64_from (f32_neg v))) = mag 52 (f64_code (f64_from v))"
    using a b by (simp only: neg_fields)
  then have "f64_code (f64_from (f32_neg v)) = f64_code (f64_from v)" by (simp only: mag_eq_iff)
  moreover have "f64_sign (f64_from (f32_neg v)) \<longleftrightarrow> \<not> f64_sign (f64_from v)" using a b by (simp only: neg_fields)
  ultimately show "f64_scode (f64_from (f32_neg v)) = - f64_scode (f64_from v)" by (simp add: f64_scode_def)
  show "\<not> f64_is_nan (f64_from (f32_neg v))" "\<not> f64_is_nan (f64_from v)"
    using a b f64_finite_not_nan by blast+
qed

lemma meets_reverse:
  assumes "is_finite v"
  shows "meets (map_option reverse_endpoint ep) (f64_from v) \<longleftrightarrow> meets ep (f64_from (f32_neg v))"
  using f64_from_neg[OF assms]
  by (auto simp: meets_def reverse_endpoint_def f64_le_def f64_lt_def split: option.splits CutOperator.splits)

lemma reverse_sides:
  "upper_side ep \<Longrightarrow> lower_side (map_option reverse_endpoint ep)"
  "lower_side ep \<Longrightarrow> upper_side (map_option reverse_endpoint ep)"
  by (auto simp: lower_side_def upper_side_def reverse_endpoint_def split: option.splits)

lemma linear_band_exact:
  assumes lo: "lower_side lower" and up: "upper_side upper" and m: "metric \<noteq> L2"
    and ord: "\<And>a b. lower = Some a \<Longrightarrow> upper = Some b \<Longrightarrow> \<not> f64_lt (ep_value b) (ep_value a)"
  shows "\<exists>band. linear_band lower upper metric = Inr band \<and>
    (\<forall>v. is_finite v \<longrightarrow> (admit_raw band v \<longleftrightarrow>
       meets lower (public_distance metric v) \<and> meets upper (public_distance metric v)))"
proof (cases "metric = InnerProduct")
  case True
  from linear_cuts_band_exact[OF reverse_sides(1)[OF up] reverse_sides(2)[OF lo] m]
  show ?thesis using True ord
    by (auto simp: linear_band_def public_distance_def meets_reverse split: option.splits)
next
  case False
  then have "metric = Cosine" using m by (cases metric) auto
  then show ?thesis using linear_cuts_band_exact[OF lo up m] ord
    by (auto simp: linear_band_def public_distance_def split: option.splits)
qed

lemma lower_finder_Inr:
  "lower_finder lower = Inr f \<Longrightarrow> f = map_option (\<lambda>e. (ep_value e, l2_finder e)) lower
    \<and> (\<forall>e. lower = Some e \<longrightarrow> ep_op e \<in> {Ge, Gt})"
  by (auto simp: lower_finder_def l2_finder_def split: option.splits CutOperator.splits)

lemma upper_finder_Inr:
  "upper_finder upper = Inr f \<Longrightarrow> f = map_option (\<lambda>e. (ep_value e, l2_finder e)) upper
    \<and> (\<forall>e. upper = Some e \<longrightarrow> ep_op e \<in> {Le, Lt})"
  by (auto simp: upper_finder_def l2_finder_def split: option.splits CutOperator.splits)

lemma resolve_cut_Inr:
  "resolve_cut (map_option (\<lambda>e. (ep_value e, l2_finder e)) ep) = Inr b \<Longrightarrow>
     (case ep of None \<Rightarrow> b = Unbounded | Some e \<Rightarrow> \<exists>w. l2_finder e (ep_value e) = Some w \<and> b = Finite (F32 w))"
  by (cases ep) (auto simp: resolve_cut_def bind_res_eq_Inr)

lemma resolved_lower:
  assumes "lower_side ep" "l2_domain v" "resolve_cut (map_option (\<lambda>e. (ep_value e, l2_finder e)) ep) = Inr b"
  shows "above_bound b v \<longleftrightarrow> meets ep (public_distance L2 v)"
proof (cases ep)
  case None
  then show ?thesis using resolve_cut_Inr[OF assms(3)] by (simp add: above_bound_def meets_def)
next
  case (Some e)
  then have e: "ep_op e \<in> {Ge, Gt}" "\<not> f64_is_nan (ep_value e)"
    using assms(1) f64_finite_not_nan by (auto simp: lower_side_def)
  obtain w where w: "l2_finder e (ep_value e) = Some w" "b = Finite (F32 w)"
    using resolve_cut_Inr[OF assms(3)] Some by auto
  have "f32_le (F32 w) v \<longleftrightarrow> cut_test e (public_distance L2 v)"
    using l2_finder_decides[OF e(2) assms(2)] unfolding w(1) option.case by blast
  then show ?thesis unfolding Some w(2) meets_lower[OF e(1)] by (simp add: above_bound_def)
qed

lemma resolved_upper:
  assumes "upper_side ep" "l2_domain v" "resolve_cut (map_option (\<lambda>e. (ep_value e, l2_finder e)) ep) = Inr b"
  shows "below_bound b v \<longleftrightarrow> meets ep (public_distance L2 v)"
proof (cases ep)
  case None
  then show ?thesis using resolve_cut_Inr[OF assms(3)] by (simp add: below_bound_def meets_def)
next
  case (Some e)
  then have e: "ep_op e \<in> {Le, Lt}" "f64_is_finite (ep_value e)" using assms(1) by (auto simp: upper_side_def)
  have v: "is_finite v" using assms(2) by (simp add: l2_domain_def)
  then have n: "\<not> f64_is_nan (public_distance L2 v)" using assms(2) by (intro public_not_nan) simp_all
  obtain w where w: "l2_finder e (ep_value e) = Some w" "b = Finite (F32 w)"
    using resolve_cut_Inr[OF assms(3)] Some by auto
  have "is_finite (F32 w) \<and> (f32_le (F32 w) v \<longleftrightarrow> cut_test e (public_distance L2 v))"
    using l2_finder_decides[OF f64_finite_not_nan[OF e(2)] assms(2)] unfolding w(1) option.case .
  then have "f32_lt v (F32 w) \<longleftrightarrow> meets (Some e) (public_distance L2 v)"
    using upper_cut_decides[OF e n v] by blast
  then show ?thesis unfolding Some w(2) by (simp add: below_bound_def)
qed

lemma from_endpoints_sides:
  assumes "from_endpoints lower upper metric = Inr band"
  shows "lower_side lower" "upper_side upper"
proof -
  obtain lf uf where f: "lower_finder lower = Inr lf" "upper_finder upper = Inr uf"
    and fin: "\<not> list_ex (\<lambda>ep. case ep of Some e \<Rightarrow> \<not> f64_is_finite (ep_value e) | None \<Rightarrow> False) [lower, upper]"
    using assms by (auto simp: from_endpoints_def bind_res_eq_Inr split: if_splits)
  show "lower_side lower" "upper_side upper"
    using lower_finder_Inr[OF f(1)] upper_finder_Inr[OF f(2)] fin
    by (auto simp: lower_side_def upper_side_def split: option.splits)
qed

lemma finders_of_sides:
  "lower_side lower \<Longrightarrow> lower_finder lower = Inr (map_option (\<lambda>e. (ep_value e, l2_finder e)) lower)"
  "upper_side upper \<Longrightarrow> upper_finder upper = Inr (map_option (\<lambda>e. (ep_value e, l2_finder e)) upper)"
  by (auto simp: lower_side_def upper_side_def lower_finder_def upper_finder_def l2_finder_def split: option.splits)

lemma from_endpoints_branch:
  assumes "lower_side lower" "upper_side upper"
  shows "from_endpoints lower upper metric =
    (if metric \<noteq> L2 then linear_band lower upper metric
     else bind_res (resolve_cut (map_option (\<lambda>e. (ep_value e, l2_finder e)) lower)) (\<lambda>lb.
          bind_res (resolve_cut (map_option (\<lambda>e. (ep_value e, l2_finder e)) upper)) (\<lambda>ub.
            band_from_raw lb ub metric)))"
  using assms finders_of_sides(1)[of lower] finders_of_sides(2)[of upper]
  by (auto simp: from_endpoints_def lower_side_def upper_side_def split: option.splits)

lemma linear_band_ordered:
  "linear_band lower upper metric = Inr band \<Longrightarrow> lower = Some a \<Longrightarrow> upper = Some b \<Longrightarrow> \<not> f64_lt (ep_value b) (ep_value a)"
  by (auto simp: linear_band_def)

section \<open>The compressed rows\<close>

lemma build_fold:
  "foldl (\<lambda>(lims, labels, distances) query_rows.
       let labels' = labels @ map fst query_rows in
       (lims @ [length labels'], labels', distances @ map snd query_rows)) ([0], [], []) rows
   = (map (\<lambda>i. length (concat (take i rows))) [0..<Suc (length rows)], map fst (concat rows), map snd (concat rows))"
proof (induction rows rule: rev_induct)
  case (snoc r rows)
  have "map (\<lambda>i. length (concat (take i (rows @ [r])))) [0..<Suc (length rows)]
      = map (\<lambda>i. length (concat (take i rows))) [0..<Suc (length rows)]" by simp
  then show ?case using snoc by (simp add: Let_def)
qed simp

lemma slice_map: "slice a b (map f xs) = map f (slice a b xs)"
  by (simp add: slice_def drop_map take_map)

lemma slice_concat:
  assumes "i < length xss"
  shows "slice (length (concat (take i xss))) (length (concat (take (Suc i) xss))) (concat xss) = xss ! i"
proof -
  have "concat xss = concat (take i xss) @ xss ! i @ concat (drop (Suc i) xss)"
    using id_take_nth_drop[OF assms] by (metis concat.simps(2) concat_append)
  moreover have "concat (take (Suc i) xss) = concat (take i xss) @ xss ! i" using assms by (simp add: take_Suc_conv_app_nth)
  ultimately show ?thesis by (simp add: slice_def)
qed

definition builder_ok :: "RangeResultBuilder \<Rightarrow> bool" where
  "builder_ok b \<longleftrightarrow> length (rb_stats b) = length (rb_rows b)
     \<and> (\<forall>i < length (rb_rows b). rows_committed (rb_stats b ! i) = length (rb_rows b ! i))"

lemma builder_ok_new: "builder_ok (builder_new nq)"
  by (simp add: builder_ok_def builder_new_def default_stats_def)

lemma take_rows_Inr:
  assumes "builder_ok b" "query < length (rb_rows b)"
  shows "\<exists>b'. take_rows query rows b = Inr b' \<and> builder_ok b'
    \<and> rb_rows b' = (rb_rows b)[query := rb_rows b ! query @ rows]"
  using assms by (auto simp: take_rows_def update_stats_def idx_def builder_ok_def nth_list_update)

lemma result_query_build:
  assumes "builder_ok b" "i < length (rb_rows b)"
  shows "result_query (builder_build b) i
    = Inr (map fst (rb_rows b ! i), map snd (rb_rows b ! i), rb_stats b ! i)"
proof -
  let ?rows = "rb_rows b"
  have b: "builder_build b = \<lparr>rr_lims = map (\<lambda>i. length (concat (take i ?rows))) [0..<Suc (length ?rows)],
      rr_labels = map fst (concat ?rows), rr_raw_distances = map snd (concat ?rows),
      rr_stats = rb_stats b, rr_list_reads = rb_list_reads b\<rparr>"
    unfolding builder_build_def build_fold by simp
  have l: "map (\<lambda>i. length (concat (take i ?rows))) [0..<Suc (length ?rows)] ! j = length (concat (take j ?rows))"
    if "j \<le> length ?rows" for j using that by (simp del: upt_Suc)
  have le: "length (concat (take i ?rows)) \<le> length (concat (take (Suc i) ?rows))"
    "length (concat (take (Suc i) ?rows)) \<le> length (concat ?rows)"
    using assms(2) by (simp add: take_Suc_conv_app_nth) (metis append_take_drop_id concat_append le_add1 length_append)
  show ?thesis using assms l[of i] l[of "Suc i"] le slice_concat[OF assms(2)]
    by (simp add: b result_query_def idx_def subslice_def slice_map builder_ok_def del: upt_Suc)
qed

lemma take_rows_all:
  assumes "builder_ok b" "list_all (\<lambda>(q, rows). q < length (rb_rows b)) ops"
  shows "\<exists>b'. fold_res (\<lambda>(q, rows). take_rows q rows) ops b = Inr b' \<and> builder_ok b'
    \<and> length (rb_rows b') = length (rb_rows b)
    \<and> (\<forall>i < length (rb_rows b). rb_rows b' ! i = rb_rows b ! i @ concat (map snd (filter (\<lambda>op. fst op = i) ops)))"
  using assms
proof (induction ops arbitrary: b)
  case (Cons op ops)
  obtain q rows where op: "op = (q, rows)" by (cases op)
  from take_rows_Inr[OF Cons.prems(1), of q rows] Cons.prems(2) op obtain b1 where
    b1: "take_rows q rows b = Inr b1" "builder_ok b1" "rb_rows b1 = (rb_rows b)[q := rb_rows b ! q @ rows]" by auto
  have "list_all (\<lambda>(q, rows). q < length (rb_rows b1)) ops" using Cons.prems(2) b1(3) by simp
  from Cons.IH[OF b1(2) this] show ?case using op b1 Cons.prems(2) by (auto simp: nth_list_update)
qed simp

section \<open>Properties\<close>

lemma f64_zero: "f64_is_finite (F64 0)" "f64_scode (F64 0) = 0" "\<not> f64_is_nan (F64 0)"
  by (simp_all add: f64_is_finite_def f64_is_nan_def f64_scode_def f64_sign_def f64_code_def F64_INF_CODE_def)

lemma public_L2_nonneg:
  assumes "is_finite v" "\<not> sign v"
  shows "f64_le (F64 0) (public_distance L2 v)"
proof -
  have s: "is_finite (f32_sqrt v)" "\<not> sign (f32_sqrt v)"
    using sqrt_finite[OF assms] sqrt_mono[of v v] assms by auto
  then have "f64_is_finite (f64_from (f32_sqrt v))" "\<not> f64_sign (f64_from (f32_sqrt v))"
    using f64_from_finite by auto
  then show ?thesis using f64_zero f64_finite_not_nan by (simp add: public_distance_def f64_le_def f64_scode_def)
qed

lemma l2_cut_not_negative:
  assumes "\<not> f64_is_nan (ep_value e)" "l2_finder e (ep_value e) = Some w"
  shows "cut_ok L2 (Finite (F32 w))"
proof -
  let ?c = "bsearch (\<lambda>k. cut_test e (public_distance L2 (F32 (word_of_nat k)))) 0 0x7F7FFFFF"
  have "w = word_of_nat ?c" using assms(2) unfolding l2_finder_eq[OF assms(1)] by (simp split: if_splits)
  moreover have "?c \<le> 0x7F7FFFFF" using bsearch_bounds[OF l2_axis.bounds] by blast
  ultimately show ?thesis using bits_score[of ?c] by (simp add: cut_ok_def f32_lt_def scode_def)
qed

lemma l2_lower_zero: "\<exists>band. from_endpoints (Some \<lparr>ep_value = F64 0, ep_op = Ge\<rparr>) None L2 = Inr band"
proof -
  let ?e = "\<lparr>ep_value = F64 0, ep_op = Ge\<rparr>"
  have n: "\<not> f64_is_nan (ep_value ?e)" using f64_zero(3) by simp
  have t: "cut_test ?e (public_distance L2 (F32 (word_of_nat 0x7F7FFFFF)))"
    using public_L2_nonneg[OF bits_score(3)[of "0x7F7FFFFF"] bits_score(1)[of "0x7F7FFFFF"]] by (simp add: cut_test_def)
  obtain w where w: "l2_finder ?e (ep_value ?e) = Some w" unfolding l2_finder_eq[OF n] if_P[OF t] by blast
  have "cut_ok L2 (Finite (F32 w))" using n w by (rule l2_cut_not_negative)
  moreover have "lower_side (Some ?e)" "upper_side None" using f64_zero(1) by (simp_all add: lower_side_def upper_side_def)
  ultimately show ?thesis using w
    by (simp add: from_endpoints_branch resolve_cut_def band_from_raw_def cut_ok_def)
qed

text \<open>C1: a band built from a public predicate admits exactly the scores whose public distance meets
  the predicate, for all three metrics. The score is finite and, for L2, not negative as a number;
  the endpoints are never rounded to \<open>f32\<close>.\<close>

theorem band_is_the_predicate:
  assumes "from_endpoints lower upper metric = Inr band" "is_finite v"
    and "metric = L2 \<longrightarrow> f32_le f32_zero v"
  shows "admit_raw band v \<longleftrightarrow> meets lower (public_distance metric v) \<and> meets upper (public_distance metric v)"
proof -
  note sides = from_endpoints_sides[OF assms(1)]
  note branch = from_endpoints_branch[OF sides, of metric]
  show ?thesis
  proof (cases "metric = L2")
    case True
    then have v: "l2_domain v" using assms by (simp add: l2_domain_def)
    obtain lb ub where b: "resolve_cut (map_option (\<lambda>e. (ep_value e, l2_finder e)) lower) = Inr lb"
      "resolve_cut (map_option (\<lambda>e. (ep_value e, l2_finder e)) upper) = Inr ub" "band_from_raw lb ub metric = Inr band"
      using assms(1) True unfolding branch by (auto simp: bind_res_eq_Inr)
    show ?thesis using band_from_raw_admits[OF b(3) assms(2)] True
        resolved_lower[OF sides(1) v b(1)] resolved_upper[OF sides(2) v b(2)] by blast
  next
    case False
    then have l: "linear_band lower upper metric = Inr band" using assms(1) branch by simp
    from linear_band_exact[OF sides False linear_band_ordered[OF l]] l assms(2) show ?thesis by auto
  qed
qed

theorem band_is_the_predicate_witness:
  "\<exists>band. from_endpoints (Some \<lparr>ep_value = F64 0, ep_op = Ge\<rparr>) None L2 = Inr band
    \<and> admit_raw band f32_one"
proof -
  obtain band where b: "from_endpoints (Some \<lparr>ep_value = F64 0, ep_op = Ge\<rparr>) None L2 = Inr band"
    using l2_lower_zero ..
  have "meets (Some \<lparr>ep_value = F64 0, ep_op = Ge\<rparr>) (public_distance L2 f32_one)"
    using public_L2_nonneg[of f32_one] by (simp add: meets_def f32_eval)
  then have "admit_raw band f32_one"
    using band_is_the_predicate[OF b, of f32_one] by (simp add: f32_eval meets_def)
  then show ?thesis using b by blast
qed

text \<open>for cosine and inner product, finite endpoints on their own sides that are not inverted
  always give a band: there is no endpoint the cut search cannot express.\<close>

theorem linear_band_total:
  assumes "metric \<noteq> L2" "lower_side lower" "upper_side upper"
    and "\<forall>a b. lower = Some a \<and> upper = Some b \<longrightarrow> \<not> f64_lt (ep_value b) (ep_value a)"
  shows "\<exists>band. from_endpoints lower upper metric = Inr band"
  using linear_band_exact[OF assms(2,3,1)] assms(1,4) by (auto simp: from_endpoints_branch[OF assms(2,3)])

theorem linear_band_total_witness:
  "\<exists>band. from_endpoints (Some \<lparr>ep_value = F64 0, ep_op = Gt\<rparr>) (Some \<lparr>ep_value = F64 0, ep_op = Le\<rparr>) InnerProduct = Inr band"
  by (rule linear_band_total) (simp_all add: lower_side_def upper_side_def f64_zero f64_lt_def)

lemma l2_finder_None_iff:
  assumes "\<not> f64_is_nan (ep_value e)"
  shows "l2_finder e (ep_value e) = None \<longleftrightarrow> (\<forall>v. l2_domain v \<longrightarrow> \<not> cut_test e (public_distance L2 v))"
proof (cases "cut_test e (public_distance L2 (F32 (word_of_nat 0x7F7FFFFF)))")
  case True
  then show ?thesis unfolding l2_finder_eq[OF assms] if_P[OF True] using l2_axis.axis_domain[of "0x7F7FFFFF"] by blast
next
  case False
  show ?thesis unfolding l2_finder_eq[OF assms] if_not_P[OF False]
    using l2_axis.no_cut[OF upward_cut_test False] by blast
qed

text \<open>C28: an L2 upper endpoint is refused as unsupported exactly when every score meets it, and a
  lower endpoint exactly when no score does: the cut would lie past the largest finite score.\<close>

theorem l2_unsupported_iff:
  assumes "upper_side (Some u)" "lower_side (Some l)"
  shows "(from_endpoints None (Some u) L2 = Inl (Err Unsupported) \<longleftrightarrow>
      (\<forall>v. is_finite v \<and> f32_le f32_zero v \<longrightarrow> meets (Some u) (public_distance L2 v)))
    \<and> (from_endpoints (Some l) None L2 = Inl (Err Unsupported) \<longleftrightarrow>
      (\<forall>v. is_finite v \<and> f32_le f32_zero v \<longrightarrow> \<not> meets (Some l) (public_distance L2 v)))"
proof -
  have u: "ep_op u \<in> {Le, Lt}" "\<not> f64_is_nan (ep_value u)" and l: "ep_op l \<in> {Ge, Gt}" "\<not> f64_is_nan (ep_value l)"
    using assms f64_finite_not_nan by (auto simp: upper_side_def lower_side_def)
  have mu: "meets (Some u) (public_distance L2 v) \<longleftrightarrow> \<not> cut_test u (public_distance L2 v)" if "l2_domain v" for v
    using meets_upper[OF u(1) public_not_nan u(2)] that by (auto simp: l2_domain_def)
  have U: "from_endpoints None (Some u) L2 = Inl (Err Unsupported) \<longleftrightarrow> l2_finder u (ep_value u) = None"
    using l2_cut_not_negative[OF u(2)]
    by (cases "l2_finder u (ep_value u)")
      (auto simp: from_endpoints_branch[OF _ assms(1)] lower_side_def resolve_cut_def band_from_raw_def cut_ok_def)
  have L: "from_endpoints (Some l) None L2 = Inl (Err Unsupported) \<longleftrightarrow> l2_finder l (ep_value l) = None"
    using l2_cut_not_negative[OF l(2)]
    by (cases "l2_finder l (ep_value l)")
      (auto simp: from_endpoints_branch[OF assms(2)] upper_side_def resolve_cut_def band_from_raw_def cut_ok_def)
  show ?thesis unfolding U L l2_finder_None_iff[OF u(2)] l2_finder_None_iff[OF l(2)] meets_lower[OF l(1)] l2_domain_def[symmetric]
    using mu by blast
qed

theorem l2_unsupported_iff_witness:
  "from_endpoints (Some \<lparr>ep_value = F64 0, ep_op = Ge\<rparr>) None L2 \<noteq> Inl (Err Unsupported)"
proof -
  have s: "upper_side (Some \<lparr>ep_value = F64 0, ep_op = Le\<rparr>)" "lower_side (Some \<lparr>ep_value = F64 0, ep_op = Ge\<rparr>)"
    by (simp_all add: upper_side_def lower_side_def f64_zero)
  have "meets (Some \<lparr>ep_value = F64 0, ep_op = Ge\<rparr>) (public_distance L2 f32_one)"
    using public_L2_nonneg[of f32_one] by (simp add: meets_def f32_eval)
  then show ?thesis using l2_unsupported_iff[OF s] finite_one f32_lt_zero_one(4) by blast
qed

text \<open>C29: an endpoint that is not finite, or an operator of the other side, is refused as invalid
  input before any cut is searched.\<close>

theorem bad_endpoints_refused:
  assumes "\<not> lower_side lower \<or> \<not> upper_side upper"
  shows "from_endpoints lower upper metric = Inl (Err InvalidInput)"
  using assms
  by (auto simp: from_endpoints_def lower_side_def upper_side_def lower_finder_def upper_finder_def
      split: option.splits CutOperator.splits)

theorem bad_endpoints_refused_witness:
  "from_endpoints (Some \<lparr>ep_value = F64 0, ep_op = Lt\<rparr>) None Cosine = Inl (Err InvalidInput)"
  by (rule bad_endpoints_refused) (simp add: lower_side_def)

text \<open>C25: batches of rows handed over for different queries in any interleaving come out per query:
  query \<open>i\<close> of the compressed result holds exactly the rows handed over for \<open>i\<close>, in order, and its
  committed counter is their number. A query out of range panics.\<close>

theorem result_rows_per_query:
  assumes "list_all (\<lambda>(q, rows). q < nq) ops"
  shows "\<exists>b. fold_res (\<lambda>(q, rows). take_rows q rows) ops (builder_new nq) = Inr b
    \<and> result_query_count (builder_build b) = nq
    \<and> (\<forall>i. result_query (builder_build b) i =
         (if i < nq
          then let rows = concat (map snd (filter (\<lambda>op. fst op = i) ops))
               in Inr (map fst rows, map snd rows, rb_stats b ! i)
          else Inl Panic))
    \<and> (\<forall>i < nq. rows_committed (rb_stats b ! i) = length (concat (map snd (filter (\<lambda>op. fst op = i) ops))))"
proof -
  have n: "length (rb_rows (builder_new nq)) = nq" "\<And>i. i < nq \<Longrightarrow> rb_rows (builder_new nq) ! i = []"
    by (simp_all add: builder_new_def)
  from take_rows_all[OF builder_ok_new, of nq ops] assms n obtain b where
    b: "fold_res (\<lambda>(q, rows). take_rows q rows) ops (builder_new nq) = Inr b" "builder_ok b" "length (rb_rows b) = nq"
    "\<And>i. i < nq \<Longrightarrow> rb_rows b ! i = concat (map snd (filter (\<lambda>op. fst op = i) ops))" by auto
  have lims: "length (rr_lims (builder_build b)) = Suc nq" unfolding builder_build_def build_fold by (simp add: b(3))
  have out: "result_query (builder_build b) i = Inl Panic" if "\<not> i < nq" for i
    using that lims by (cases "i = nq") (simp_all add: result_query_def idx_def)
  show ?thesis using b(1) lims out result_query_build[OF b(2)] b(2-4)
    by (intro exI[of _ b]) (simp add: result_query_count_def builder_ok_def Let_def)
qed

theorem result_rows_per_query_witness:
  "\<exists>b. fold_res (\<lambda>(q, rows). take_rows q rows) [(1, [(7, f32_one)]), (0, [(3, f32_zero)]), (1, [(8, f32_zero)])] (builder_new 2) = Inr b
    \<and> result_query (builder_build b) 1 = Inr ([7, 8], [f32_one, f32_zero], rb_stats b ! 1)
    \<and> result_query (builder_build b) 2 = Inl Panic"
  using result_rows_per_query[of 2 "[(1, [(7, f32_one)]), (0, [(3, f32_zero)]), (1, [(8, f32_zero)])]"]
  by (auto simp: Let_def)

end
