(* ===== verification/Collect.thy ===== *)
theory Collect
  imports TopK Range
begin

text \<open>
  \<open>core/src/collect.rs\<close>: the seam between a list scan and what becomes of the rows it visits. The
  trait is a record of its four members; a scan takes one as an argument. \<open>RangeCollector\<close> keeps the
  rows of a band, the top-k heap of \<open>topk.rs\<close> is the other collector of this file.
\<close>

record 'c Collector =
  co_validate_cosine_inputs :: bool
  co_note_abandoned :: "'c \<Rightarrow> 'c"
  co_cutoff :: "'c \<Rightarrow> f32"
  co_push :: "i64 \<Rightarrow> f32 \<Rightarrow> 'c \<Rightarrow> 'c res"

definition early_abandon_threshold :: "DistanceBand \<Rightarrow> f32" where
  "early_abandon_threshold band =
     (if band_metric band \<noteq> L2 then f32_INFINITY
      else case band_upper band of Finite upper \<Rightarrow> upper | Unbounded \<Rightarrow> f32_INFINITY)"

record RangeCollector =
  rc_band :: DistanceBand
  rc_cutoff :: f32
  rc_rows :: "(i64 \<times> f32) list"
  rc_scanned :: nat
  rc_early_abandoned :: nat

definition range_collector_new :: "DistanceBand \<Rightarrow> RangeCollector" where
  "range_collector_new band =
     \<lparr>rc_band = band, rc_cutoff = early_abandon_threshold band, rc_rows = [], rc_scanned = 0, rc_early_abandoned = 0\<rparr>"

definition range_collector_merge :: "RangeCollector \<Rightarrow> RangeCollector \<Rightarrow> RangeCollector" where
  "range_collector_merge c other =
     c\<lparr>rc_scanned := rc_scanned c + rc_scanned other,
       rc_early_abandoned := rc_early_abandoned c + rc_early_abandoned other,
       rc_rows := rc_rows c @ rc_rows other\<rparr>"

definition range_note_abandoned :: "RangeCollector \<Rightarrow> RangeCollector" where
  "range_note_abandoned c =
     c\<lparr>rc_scanned := rc_scanned c + 1, rc_early_abandoned := rc_early_abandoned c + 1\<rparr>"

definition range_collector_push :: "i64 \<Rightarrow> f32 \<Rightarrow> RangeCollector \<Rightarrow> RangeCollector res" where
  "range_collector_push row v c =
     (let c' = c\<lparr>rc_scanned := rc_scanned c + 1\<rparr> in
      if \<not> is_finite v then Inl (Err InvalidData)
      else if admit_raw (rc_band c') v then Inr (c'\<lparr>rc_rows := rc_rows c' @ [(row, v)]\<rparr>)
      else Inr c')"

text \<open>The implementations of the trait.\<close>

definition range_collector :: "RangeCollector Collector" where
  "range_collector =
     \<lparr>co_validate_cosine_inputs = True, co_note_abandoned = range_note_abandoned,
      co_cutoff = rc_cutoff, co_push = range_collector_push\<rparr>"

definition topk_collector :: "TopKHeap Collector" where
  "topk_collector =
     \<lparr>co_validate_cosine_inputs = False, co_note_abandoned = (\<lambda>h. h),
      co_cutoff = topk_distance_limit, co_push = topk_collector_push\<rparr>"

section \<open>The contract of a collector\<close>

text \<open>
  \<open>view\<close> is what a collector reports, the count of abandoned rows apart. A row whose value is \<open>ok\<close>
  and above the cutoff may be abandoned instead of pushed: the view is the same.
\<close>

definition same_view :: "('c \<Rightarrow> 'v) \<Rightarrow> 'c res \<Rightarrow> 'c res \<Rightarrow> bool" where
  "same_view view r s =
     (case (r, s) of (Inl e, Inl e') \<Rightarrow> e = e' | (Inr c, Inr d) \<Rightarrow> view c = view d | _ \<Rightarrow> False)"

lemma same_view_simps [simp]:
  "same_view view (Inl e) (Inl e') \<longleftrightarrow> e = e'" "same_view view (Inr c) (Inr d) \<longleftrightarrow> view c = view d"
  "\<not> same_view view (Inl e) (Inr d)" "\<not> same_view view (Inr c) (Inl e)"
  by (simp_all add: same_view_def)

lemma same_view_refl [simp]: "same_view view r r"
  by (cases r) auto

lemma same_view_bind:
  assumes "same_view view r s" "\<And>c d. r = Inr c \<Longrightarrow> s = Inr d \<Longrightarrow> view c = view d \<Longrightarrow> same_view view (f c) (g d)"
  shows "same_view view (bind_res r f) (bind_res s g)"
  using assms by (cases r; cases s) auto

locale collector =
  fixes col :: "'c Collector" and inv :: "'c \<Rightarrow> bool" and view :: "'c \<Rightarrow> 'v" and ok :: "f32 \<Rightarrow> bool"
  assumes push_inv: "inv c \<Longrightarrow> co_push col row v c = Inr c' \<Longrightarrow> inv c'"
    and abandoned_inv: "inv c \<Longrightarrow> inv (co_note_abandoned col c)"
    and cutoff_view: "view c = view d \<Longrightarrow> co_cutoff col c = co_cutoff col d"
    and push_view: "inv c \<Longrightarrow> inv d \<Longrightarrow> view c = view d \<Longrightarrow> same_view view (co_push col row v c) (co_push col row v d)"
    and abandoned_is_pushed: "inv c \<Longrightarrow> ok v \<Longrightarrow> f32_lt (co_cutoff col c) v \<Longrightarrow>
      same_view view (Inr (co_note_abandoned col c)) (co_push col row v c)"

text \<open>The band collector: values must be finite, since a non-finite value is an error when it is
  pushed.\<close>

definition range_collector_inv :: "RangeCollector \<Rightarrow> bool" where
  "range_collector_inv c \<longleftrightarrow> rc_cutoff c = early_abandon_threshold (rc_band c)
     \<and> list_all (\<lambda>(_, v). admit_raw (rc_band c) v) (rc_rows c)
     \<and> length (rc_rows c) + rc_early_abandoned c \<le> rc_scanned c"

definition range_view :: "RangeCollector \<Rightarrow> DistanceBand \<times> f32 \<times> (i64 \<times> f32) list \<times> nat" where
  "range_view c = (rc_band c, rc_cutoff c, rc_rows c, rc_scanned c)"

lemma range_collector_new_inv [simp]: "range_collector_inv (range_collector_new band)"
  by (simp add: range_collector_inv_def range_collector_new_def)

lemma not_above_infinity [simp]: "\<not> f32_lt f32_INFINITY v"
proof -
  have "scode f32_INFINITY = int F32_INF_CODE" by (simp add: f32_cmp_defs)
  then show ?thesis by (simp add: f32_lt_def is_nan_def scode_def[of v])
qed

lemma f32_lt_asym: "f32_lt x y \<Longrightarrow> \<not> f32_lt y x"
  by (simp add: f32_lt_def)

lemma above_threshold_not_admitted:
  "f32_lt (early_abandon_threshold band) v \<Longrightarrow> \<not> admit_raw band v"
  by (auto simp: early_abandon_threshold_def admit_raw_def dest: f32_lt_asym split: if_splits Bound.splits)

interpretation range_col: collector range_collector range_collector_inv range_view is_finite
proof unfold_locales
  fix c d c' row v
  show "range_collector_inv c \<Longrightarrow> co_push range_collector row v c = Inr c' \<Longrightarrow> range_collector_inv c'"
    by (auto simp: range_collector_def range_collector_push_def range_collector_inv_def Let_def split: if_splits)
  show "range_collector_inv c \<Longrightarrow> range_collector_inv (co_note_abandoned range_collector c)"
    by (simp add: range_collector_def range_note_abandoned_def range_collector_inv_def)
  show "range_view c = range_view d \<Longrightarrow> co_cutoff range_collector c = co_cutoff range_collector d"
    by (simp add: range_collector_def range_view_def)
  show "range_view c = range_view d \<Longrightarrow>
      same_view range_view (co_push range_collector row v c) (co_push range_collector row v d)"
    by (simp add: range_collector_def range_collector_push_def range_view_def Let_def)
  show "range_collector_inv c \<Longrightarrow> is_finite v \<Longrightarrow> f32_lt (co_cutoff range_collector c) v \<Longrightarrow>
      same_view range_view (Inr (co_note_abandoned range_collector c)) (co_push range_collector row v c)"
    using above_threshold_not_admitted[of "rc_band c" v]
    by (simp add: range_collector_def range_collector_push_def range_note_abandoned_def range_view_def range_collector_inv_def)
qed

text \<open>The top-k heap: a row above the limit of a heap leaves it as it is.\<close>

definition topk_collector_inv :: "TopKHeap \<Rightarrow> bool" where
  "topk_collector_inv h \<longleftrightarrow> topk_inv h \<and> \<not> is_nan (tk_max_distance h)"

interpretation topk_col: collector topk_collector topk_collector_inv "\<lambda>h. h" "\<lambda>_. True"
proof unfold_locales
  fix h h' row v
  show "topk_collector_inv h \<Longrightarrow> co_push topk_collector row v h = Inr h' \<Longrightarrow> topk_collector_inv h'"
    using topk_push_refines[of h v row] topk_collector_push_eq[of h row v]
    by (auto simp: topk_collector_def topk_collector_inv_def push_refines_def)
  show "topk_collector_inv h \<Longrightarrow> topk_collector_inv (co_note_abandoned topk_collector h)"
    by (simp add: topk_collector_def)
  show "topk_collector_inv h \<Longrightarrow> f32_lt (co_cutoff topk_collector h) v \<Longrightarrow>
      same_view (\<lambda>h. h) (Inr (co_note_abandoned topk_collector h)) (co_push topk_collector row v h)"
    using topk_push_above_limit[of h v row] topk_collector_push_eq[of h row v]
    by (simp add: topk_collector_def topk_collector_inv_def)
qed (simp_all add: topk_collector_def)

end
