(* ===== verification/Flat_Heap.thy ===== *)
theory Flat_Heap
  imports Collect
begin

text \<open>
  The two result heaps of IVF-FLAT: \<open>FlatTopKHeap\<close> of \<open>core/src/ivfflat.rs\<close>, which looks for the
  worst entry on every push, and \<open>ReaderTopKHeap\<close> of \<open>core/src/ivfflat_io.rs\<close>, which caches its
  index. Both keep the k least distances of what they were offered; they do not merge equal ids.
\<close>

text \<open>\<open>Iterator::max_by\<close> over the distances: the last of several greatest entries.\<close>

definition worst_of :: "(f32 \<times> i64) list \<Rightarrow> nat option" where
  "worst_of data =
     (if data = [] then None
      else Some (foldl (\<lambda>best i. if fst (data ! i) < fst (data ! best) then best else i) 0 [1..<length data]))"

record ReaderTopKHeap =
  rh_k :: nat
  rh_data :: "(f32 \<times> i64) list"
  rh_worst_index :: "nat option"

definition reader_heap_new :: "nat \<Rightarrow> ReaderTopKHeap" where
  "reader_heap_new k = \<lparr>rh_k = k, rh_data = [], rh_worst_index = None\<rparr>"

definition reader_worst_distance :: "ReaderTopKHeap \<Rightarrow> f32 option" where
  "reader_worst_distance h = map_option (\<lambda>index. fst (rh_data h ! index)) (rh_worst_index h)"

definition refresh_worst :: "ReaderTopKHeap \<Rightarrow> ReaderTopKHeap" where
  "refresh_worst h = h\<lparr>rh_worst_index := worst_of (rh_data h)\<rparr>"

definition reader_heap_push :: "f32 \<Rightarrow> i64 \<Rightarrow> ReaderTopKHeap \<Rightarrow> ReaderTopKHeap res" where
  "reader_heap_push dist row h =
     (if rh_k h = 0 \<or> is_nan dist then Inr h
      else if length (rh_data h) < rh_k h then
        (let h' = h\<lparr>rh_data := rh_data h @ [(dist, row)]\<rparr>
         in Inr (if length (rh_data h') = rh_k h' then refresh_worst h' else h'))
      else bind_res (ok_or Panic (rh_worst_index h)) (\<lambda>worst_index.
        bind_res (idx (rh_data h) worst_index) (\<lambda>worst.
          if dist < fst worst
          then Inr (refresh_worst (h\<lparr>rh_data := (rh_data h)[worst_index := (dist, row)]\<rparr>))
          else Inr h)))"

definition reader_heap_into_sorted :: "ReaderTopKHeap \<Rightarrow> (f32 \<times> i64) list" where
  "reader_heap_into_sorted h = sort_key fst (rh_data h)"

definition reader_heap_cutoff :: "ReaderTopKHeap \<Rightarrow> f32" where
  "reader_heap_cutoff h = (case reader_worst_distance h of Some d \<Rightarrow> d | None \<Rightarrow> f32_INFINITY)"

definition reader_collector :: "ReaderTopKHeap Collector" where
  "reader_collector =
     \<lparr>co_validate_cosine_inputs = False, co_note_abandoned = (\<lambda>h. h),
      co_cutoff = reader_heap_cutoff, co_push = (\<lambda>row v. reader_heap_push v row)\<rparr>"

record FlatTopKHeap =
  fh_k :: nat
  fh_data :: "(f32 \<times> i64) list"

definition flat_heap_new :: "nat \<Rightarrow> FlatTopKHeap" where
  "flat_heap_new k = \<lparr>fh_k = k, fh_data = []\<rparr>"

definition flat_heap_push :: "f32 \<Rightarrow> i64 \<Rightarrow> FlatTopKHeap \<Rightarrow> FlatTopKHeap" where
  "flat_heap_push dist row h =
     (if fh_k h = 0 \<or> is_nan dist then h
      else if length (fh_data h) < fh_k h then h\<lparr>fh_data := fh_data h @ [(dist, row)]\<rparr>
      else case worst_of (fh_data h) of
        Some worst_idx \<Rightarrow>
          if dist < fst (fh_data h ! worst_idx)
          then h\<lparr>fh_data := (fh_data h)[worst_idx := (dist, row)]\<rparr> else h
      | None \<Rightarrow> h)"

definition flat_heap_into_sorted :: "FlatTopKHeap \<Rightarrow> (f32 \<times> i64) list" where
  "flat_heap_into_sorted h = sort_key fst (fh_data h)"

text \<open>\<open>padded_flat_results\<close> of \<open>ivfflat_io.rs\<close>.\<close>

definition padded_flat_results :: "ReaderTopKHeap \<Rightarrow> nat \<Rightarrow> i64 list \<times> f32 list" where
  "padded_flat_results h k =
     (let sorted = reader_heap_into_sorted h
      in (resize k (- 1) (map snd sorted), resize k f32_MAX (map fst sorted)))"

section \<open>The worst entry\<close>

lemma worst_fold:
  fixes data :: "(f32 \<times> i64) list"
  assumes "b < length data" "set is \<subseteq> {..<length data}"
  shows "let w = foldl (\<lambda>best i. if fst (data ! i) < fst (data ! best) then best else i) b is in
    w < length data \<and> fst (data ! b) \<le> fst (data ! w) \<and> (\<forall>i \<in> set is. fst (data ! i) \<le> fst (data ! w))"
  using assms
proof (induction "is" arbitrary: b)
  case (Cons i "is")
  let ?b = "if fst (data ! i) < fst (data ! b) then b else i"
  let ?w = "foldl (\<lambda>best i. if fst (data ! i) < fst (data ! best) then best else i) ?b is"
  have b: "fst (data ! b) \<le> fst (data ! ?b)" "fst (data ! i) \<le> fst (data ! ?b)" by auto
  have "?b < length data" using Cons.prems by auto
  moreover have "set is \<subseteq> {..<length data}" using Cons.prems(2) by simp
  ultimately have "?w < length data" "fst (data ! ?b) \<le> fst (data ! ?w)" "\<forall>j \<in> set is. fst (data ! j) \<le> fst (data ! ?w)"
    using Cons.IH[of ?b] unfolding Let_def by blast+
  then show ?case using b unfolding foldl.simps Let_def list.set ball_simps by (blast intro: order_trans)
qed (simp add: Let_def)

lemma worst_of_spec:
  fixes e :: "f32 \<times> i64"
  assumes "worst_of data = Some w"
  shows "w < length data" "e \<in> set data \<Longrightarrow> fst e \<le> fst (data ! w)"
proof -
  have ne: "data \<noteq> []" using assms by (auto simp: worst_of_def)
  have W: "w = foldl (\<lambda>best i. if fst (data ! i) < fst (data ! best) then best else i) 0 [1..<length data]"
    using assms ne by (simp add: worst_of_def)
  have "set [1..<length data] \<subseteq> {..<length data}" by auto
  from worst_fold[OF _ this, of 0] ne have S: "w < length data" "fst (data ! 0) \<le> fst (data ! w)"
    "\<forall>i \<in> set [1..<length data]. fst (data ! i) \<le> fst (data ! w)" unfolding W Let_def by auto
  show "w < length data" by (rule S(1))
  show "fst e \<le> fst (data ! w)" if e: "e \<in> set data"
  proof -
    obtain i where i: "i < length data" "e = data ! i" using e by (auto simp: in_set_conv_nth)
    show ?thesis using S(2,3) i by (cases i) auto
  qed
qed

lemma worst_of_None [simp]: "worst_of data = None \<longleftrightarrow> data = []"
  by (simp add: worst_of_def)

section \<open>The k least distances\<close>

lemma take_insort_take:
  "take k (insort x (take k xs)) = take k (insort x xs)"
proof (induction xs arbitrary: k)
  case (Cons y ys)
  show ?case
  proof (cases k)
    case (Suc n)
    then show ?thesis using Cons[of n] by (cases n) simp_all
  qed simp
qed simp

lemma sorted_mset_eq: "sorted xs \<Longrightarrow> sorted ys \<Longrightarrow> mset xs = mset ys \<Longrightarrow> xs = ys"
  by (metis properties_for_sort)

lemma insort_above: "sorted xs \<Longrightarrow> \<forall>y \<in> set xs. y \<le> x \<Longrightarrow> insort x xs = xs @ [x]"
  by (rule sorted_mset_eq) (simp_all add: sorted_append sorted_insort)

lemma insort_below_last:
  assumes "sorted xs" "xs \<noteq> []" "x < last xs"
  shows "insort x xs = insort x (butlast xs) @ [last xs]"
proof (rule sorted_mset_eq)
  have xs: "butlast xs @ [last xs] = xs" using assms(2) by simp
  have "sorted (butlast xs @ [last xs])" using assms(1) xs by simp
  then show "sorted (insort x (butlast xs) @ [last xs])" using assms(3)
    by (auto simp: sorted_append sorted_insort set_insort_key)
  have "mset xs = mset (butlast xs @ [last xs])" using xs by simp
  then show "mset (insort x xs) = mset (insort x (butlast xs) @ [last xs])" by simp
qed (use assms in \<open>simp add: sorted_insort\<close>)

text \<open>What a heap offered \<open>offers\<close> must hold: offered entries, and the k least of the distances that
  are numbers.\<close>

definition heap_of :: "nat \<Rightarrow> (f32 \<times> i64) list \<Rightarrow> (f32 \<times> i64) list \<Rightarrow> bool" where
  "heap_of k offers data \<longleftrightarrow>
     mset data \<subseteq># mset (filter (\<lambda>(d, _). \<not> is_nan d) offers)
   \<and> sort (map fst data) = take k (sort (map fst (filter (\<lambda>(d, _). \<not> is_nan d) offers)))"

lemma heap_of_Nil [simp]: "heap_of k [] []"
  by (simp add: heap_of_def)

lemma subset_add_mset: "A \<subseteq># B \<Longrightarrow> A \<subseteq># add_mset x B"
  by (metis add_mset_add_single mset_subset_eq_add_left subset_mset.order_trans)

lemma sort_snoc: "sort (xs @ [x]) = insort x (sort xs)"
  by (rule sorted_mset_eq) (simp_all add: sorted_insort)

lemma heap_of_take:
  assumes "heap_of k offers data" "\<not> is_nan d"
  shows "take k (insort d (sort (map fst data)))
    = take k (sort (map fst (filter (\<lambda>(d, _). \<not> is_nan d) (offers @ [(d, row)]))))"
proof -
  let ?all = "map fst (filter (\<lambda>(d, _). \<not> is_nan d) offers)"
  have s: "sort (map fst data) = take k (sort ?all)" using assms(1) unfolding heap_of_def by blast
  have "map fst (filter (\<lambda>(d, _). \<not> is_nan d) (offers @ [(d, row)])) = ?all @ [d]" using assms(2) by simp
  then show ?thesis unfolding s take_insort_take by (simp only: sort_snoc)
qed

lemma heap_of_length:
  assumes "heap_of k offers data"
  shows "length data \<le> k"
proof -
  have "length (sort (map fst data)) \<le> k" using assms unfolding heap_of_def by (metis length_take min.cobounded2)
  then show ?thesis by simp
qed

lemma heap_of_nan: "heap_of k offers data \<Longrightarrow> is_nan d \<Longrightarrow> heap_of k (offers @ [(d, row)]) data"
  by (simp add: heap_of_def)

lemma heap_of_room:
  assumes "heap_of k offers data" "\<not> is_nan d" "length data < k"
  shows "heap_of k (offers @ [(d, row)]) (data @ [(d, row)])"
proof -
  have "take k (insort d (sort (map fst data))) = insort d (sort (map fst data))" using assms(3) by simp
  then have "sort (map fst (data @ [(d, row)])) = take k (sort (map fst (filter (\<lambda>(d, _). \<not> is_nan d) (offers @ [(d, row)]))))"
    using heap_of_take[OF assms(1,2), of row] by (simp only: sort_snoc map_append list.map fst_conv)
  moreover have "mset (data @ [(d, row)]) \<subseteq># mset (filter (\<lambda>(d, _). \<not> is_nan d) (offers @ [(d, row)]))"
    using assms(1,2) by (simp add: heap_of_def)
  ultimately show ?thesis unfolding heap_of_def by blast
qed

lemma heap_of_drop:
  assumes "heap_of k offers data" "\<not> is_nan d" "length data = k" "\<forall>e \<in> set data. fst e \<le> d"
  shows "heap_of k (offers @ [(d, row)]) data"
proof -
  have "insort d (sort (map fst data)) = sort (map fst data) @ [d]" using assms(4) by (intro insort_above) auto
  then have "take k (insort d (sort (map fst data))) = sort (map fst data)" using assms(3) by simp
  then have "sort (map fst data) = take k (sort (map fst (filter (\<lambda>(d, _). \<not> is_nan d) (offers @ [(d, row)]))))"
    using heap_of_take[OF assms(1,2), of row] by simp
  moreover have "mset data \<subseteq># mset (filter (\<lambda>(d, _). \<not> is_nan d) (offers @ [(d, row)]))"
    using assms(1,2) by (simp add: heap_of_def subset_add_mset)
  ultimately show ?thesis unfolding heap_of_def by blast
qed

lemma heap_of_replace:
  assumes h: "heap_of k offers data" and nn: "\<not> is_nan d" and len: "length data = k" and w: "w < length data"
    and worst: "\<forall>e \<in> set data. fst e \<le> fst (data ! w)" and d: "d < fst (data ! w)"
  shows "heap_of k (offers @ [(d, row)]) (data[w := (d, row)])"
proof -
  let ?s = "sort (map fst data)" let ?m = "fst (data ! w)"
  have ne: "?s \<noteq> []" using w by (auto simp flip: length_0_conv)
  have ss: "?s = butlast ?s @ [last ?s]" using ne by simp
  have "last ?s \<in> set (map fst data)" using last_in_set[OF ne] by simp
  then have "last ?s \<le> ?m" using worst by auto
  moreover have "?m \<in> set (butlast ?s @ [last ?s])" using w ss by (metis length_map nth_map nth_mem set_sort)
  moreover have "sorted (butlast ?s @ [last ?s])" using ss by (metis sorted_sort)
  ultimately have m: "last ?s = ?m" by (auto simp: sorted_append)
  then have take: "take k (insort d ?s) = insort d (butlast ?s)"
    using insort_below_last[of ?s d] ne d len w by simp
  have "mset ?s = mset (butlast ?s @ [last ?s])" using ss by simp
  then have bl: "mset (map fst data) = add_mset ?m (mset (butlast ?s))" using m by simp
  have "mset (map fst (data[w := (d, row)])) = mset ((map fst data)[w := d])" by (simp add: map_update)
  also have "\<dots> = add_mset d (mset (map fst data) - {#?m#})" using w by (simp add: mset_update)
  also have "\<dots> = mset (insort d (butlast ?s))" using bl by simp
  finally have srt: "sort (map fst (data[w := (d, row)])) = insort d (butlast ?s)"
    using sorted_butlast[OF sorted_sort] by (intro properties_for_sort) (simp_all add: sorted_insort)
  have sub: "mset data - {#data ! w#} \<subseteq># mset (filter (\<lambda>(d, _). \<not> is_nan d) offers)"
    using h unfolding heap_of_def by (blast intro: subset_mset.order_trans[OF diff_subset_eq_self])
  have "mset (data[w := (d, row)]) \<subseteq># mset (filter (\<lambda>(d, _). \<not> is_nan d) (offers @ [(d, row)]))"
    using sub nn w by (simp add: mset_update)
  then show ?thesis unfolding heap_of_def srt heap_of_take[OF h nn, of row, symmetric] take by blast
qed

section \<open>The heap with a cached worst entry\<close>

definition reader_heap_inv :: "ReaderTopKHeap \<Rightarrow> bool" where
  "reader_heap_inv h \<longleftrightarrow> length (rh_data h) \<le> rh_k h
     \<and> rh_worst_index h = (if length (rh_data h) = rh_k h then worst_of (rh_data h) else None)"

lemma reader_heap_new_inv [simp]: "reader_heap_inv (reader_heap_new k)"
  by (simp add: reader_heap_inv_def reader_heap_new_def worst_of_def)

lemma reader_heap_fields [simp]:
  "rh_k (reader_heap_new k) = k" "rh_data (reader_heap_new k) = []"
  by (simp_all add: reader_heap_new_def)

text \<open>One push, on the data alone: the code of \<open>FlatTopKHeap\<close>.\<close>

lemma reader_heap_push_flat:
  assumes "reader_heap_inv h"
  shows "\<exists>h'. reader_heap_push d row h = Inr h' \<and> reader_heap_inv h' \<and> rh_k h' = rh_k h
    \<and> rh_data h' = fh_data (flat_heap_push d row \<lparr>fh_k = rh_k h, fh_data = rh_data h\<rparr>)"
proof (cases "rh_k h = 0 \<or> is_nan d \<or> length (rh_data h) < rh_k h")
  case True
  let ?h = "h\<lparr>rh_data := rh_data h @ [(d, row)]\<rparr>"
  show ?thesis
  proof (cases "rh_k h = 0 \<or> is_nan d")
    case False
    then show ?thesis using True assms
      by (intro exI[of _ "if Suc (length (rh_data h)) = rh_k h then refresh_worst ?h else ?h"])
        (auto simp: reader_heap_push_def flat_heap_push_def reader_heap_inv_def refresh_worst_def Let_def)
  qed (use assms in \<open>auto simp: reader_heap_push_def flat_heap_push_def\<close>)
next
  case False
  then have "length (rh_data h) = rh_k h" "rh_data h \<noteq> []" using assms by (auto simp: reader_heap_inv_def)
  moreover from this obtain w where w: "worst_of (rh_data h) = Some w" by (metis not_None_eq worst_of_None)
  moreover note worst_of_spec(1)[OF w]
  ultimately show ?thesis using False assms
    by (auto simp: reader_heap_push_def flat_heap_push_def reader_heap_inv_def refresh_worst_def idx_def)
qed

lemma flat_heap_push_of:
  assumes "heap_of k offers data"
  shows "heap_of k (offers @ [(d, row)]) (fh_data (flat_heap_push d row \<lparr>fh_k = k, fh_data = data\<rparr>))"
proof (cases "is_nan d \<or> length data < k")
  case True
  then show ?thesis using heap_of_nan[OF assms] heap_of_room[OF assms] heap_of_length[OF assms]
    by (auto simp: flat_heap_push_def)
next
  case full: False
  then have len: "length data = k" using heap_of_length[OF assms] by simp
  show ?thesis
  proof (cases "worst_of data")
    case None
    then show ?thesis using heap_of_drop[OF assms _ len] full len by (simp add: flat_heap_push_def)
  next
    case (Some w)
    note W = worst_of_spec[OF Some]
    show ?thesis
    proof (cases "d < fst (data ! w)")
      case True
      then show ?thesis using heap_of_replace[OF assms _ len W(1) _ True] W full Some len by (auto simp: flat_heap_push_def)
    next
      case False
      then have "\<forall>e \<in> set data. fst e \<le> d" using W(2) by (meson not_less order_trans)
      then have "heap_of k (offers @ [(d, row)]) data" using heap_of_drop[OF assms _ len] full by blast
      then show ?thesis using full Some False by (auto simp: flat_heap_push_def)
    qed
  qed
qed

definition reader_push_all :: "(f32 \<times> i64) list \<Rightarrow> ReaderTopKHeap \<Rightarrow> ReaderTopKHeap res" where
  "reader_push_all offers = fold_res (\<lambda>(d, row). reader_heap_push d row) offers"

definition flat_push_all :: "(f32 \<times> i64) list \<Rightarrow> FlatTopKHeap \<Rightarrow> FlatTopKHeap" where
  "flat_push_all offers = fold (\<lambda>(d, row). flat_heap_push d row) offers"

lemma flat_heap_push_k [simp]: "fh_k (flat_heap_push d row h) = fh_k h"
  by (auto simp: flat_heap_push_def split: option.splits)

lemma flat_push_all_of:
  "heap_of k before data \<Longrightarrow> heap_of k (before @ offers) (fh_data (flat_push_all offers \<lparr>fh_k = k, fh_data = data\<rparr>))"
proof (induction offers arbitrary: before data)
  case (Cons x offers)
  obtain d row where x: "x = (d, row)" by (cases x)
  let ?h = "flat_heap_push d row \<lparr>fh_k = k, fh_data = data\<rparr>"
  have h: "?h = \<lparr>fh_k = k, fh_data = fh_data ?h\<rparr>" by (simp add: FlatTopKHeap.equality)
  from Cons.IH[OF flat_heap_push_of[OF Cons.prems, of d row]] show ?case
    using h x by (simp add: flat_push_all_def)
qed (simp add: flat_push_all_def)

lemma reader_push_all_flat:
  assumes "reader_heap_inv h"
  shows "\<exists>h'. reader_push_all offers h = Inr h' \<and> reader_heap_inv h' \<and> rh_k h' = rh_k h
    \<and> rh_data h' = fh_data (flat_push_all offers \<lparr>fh_k = rh_k h, fh_data = rh_data h\<rparr>)"
  using assms
proof (induction offers arbitrary: h)
  case (Cons x offers)
  obtain d row where x: "x = (d, row)" by (cases x)
  obtain h1 where h1: "reader_heap_push d row h = Inr h1" "reader_heap_inv h1" "rh_k h1 = rh_k h"
    "rh_data h1 = fh_data (flat_heap_push d row \<lparr>fh_k = rh_k h, fh_data = rh_data h\<rparr>)"
    using reader_heap_push_flat[OF Cons.prems, of d row] by blast
  have "\<lparr>fh_k = rh_k h1, fh_data = rh_data h1\<rparr> = flat_heap_push d row \<lparr>fh_k = rh_k h, fh_data = rh_data h\<rparr>"
    using h1(3,4) by (simp add: FlatTopKHeap.equality)
  then show ?case using Cons.IH[OF h1(2)] h1(1,3) x by (simp add: reader_push_all_def flat_push_all_def)
qed (simp add: reader_push_all_def flat_push_all_def)

lemma reader_push_all_of:
  assumes "reader_heap_inv h" "heap_of (rh_k h) before (rh_data h)"
  shows "\<exists>h'. reader_push_all offers h = Inr h' \<and> reader_heap_inv h' \<and> rh_k h' = rh_k h
    \<and> heap_of (rh_k h) (before @ offers) (rh_data h')"
  using reader_push_all_flat[OF assms(1), of offers] flat_push_all_of[OF assms(2), of offers] by auto

section \<open>As a collector\<close>

interpretation reader_col: collector reader_collector reader_heap_inv "\<lambda>h. h" "\<lambda>_. True"
proof unfold_locales
  fix h h' row v
  show "reader_heap_inv h \<Longrightarrow> co_push reader_collector row v h = Inr h' \<Longrightarrow> reader_heap_inv h'"
    using reader_heap_push_flat[of h v row] by (auto simp: reader_collector_def)
  show "reader_heap_inv h \<Longrightarrow> reader_heap_inv (co_note_abandoned reader_collector h)"
    by (simp add: reader_collector_def)
  show "same_view (\<lambda>h. h) (Inr (co_note_abandoned reader_collector h)) (co_push reader_collector row v h)"
    if inv: "reader_heap_inv h" and lt: "f32_lt (co_cutoff reader_collector h) v"
  proof -
    obtain w where w: "rh_worst_index h = Some w" "f32_lt (fst (rh_data h ! w)) v"
      using lt by (auto simp: reader_collector_def reader_heap_cutoff_def reader_worst_distance_def split: option.splits)
    have full: "length (rh_data h) = rh_k h" "worst_of (rh_data h) = Some w"
      using inv w(1) by (auto simp: reader_heap_inv_def split: if_splits)
    have "\<not> v < fst (rh_data h ! w)" using f32_lt_less[OF w(2)] by simp
    then have "reader_heap_push v row h = Inr h"
      using full worst_of_spec(1)[OF full(2)] w(1) by (simp add: reader_heap_push_def idx_def)
    then show ?thesis by (simp add: reader_collector_def)
  qed
qed (simp_all add: reader_collector_def)

section \<open>Properties\<close>

lemma map_fst_sort_key: "map fst (sort_key fst data) = sort (map fst data)"
  by (rule sorted_mset_eq) simp_all

lemma heap_of_sorted_data:
  assumes "heap_of k offers data"
  shows "mset (sort_key fst data) \<subseteq># mset offers"
    and "map fst (sort_key fst data) = take k (sort (filter (\<lambda>d. \<not> is_nan d) (map fst offers)))"
    and "set (sort_key fst data) \<subseteq> set offers"
proof -
  have "mset data \<subseteq># mset (filter (\<lambda>(d, _). \<not> is_nan d) offers)" using assms unfolding heap_of_def by blast
  then show sub: "mset (sort_key fst data) \<subseteq># mset offers" unfolding mset_sort mset_filter
    by (rule subset_mset.order_trans) (rule multiset_filter_subset)
  then show "set (sort_key fst data) \<subseteq> set offers" by (metis set_mset_mono set_mset_mset)
  have "map fst (filter (\<lambda>(d, _). \<not> is_nan d) offers) = filter (\<lambda>d. \<not> is_nan d) (map fst offers)"
    by (simp add: filter_map o_def case_prod_unfold)
  then show "map fst (sort_key fst data) = take k (sort (filter (\<lambda>d. \<not> is_nan d) (map fst offers)))"
    using assms unfolding heap_of_def map_fst_sort_key by metis
qed

lemma heap_of_sorted:
  assumes "heap_of k offers (rh_data h)"
  shows "mset (reader_heap_into_sorted h) \<subseteq># mset offers"
    and "map fst (reader_heap_into_sorted h) = take k (sort (filter (\<lambda>d. \<not> is_nan d) (map fst offers)))"
    and "set (reader_heap_into_sorted h) \<subseteq> set offers"
  unfolding reader_heap_into_sorted_def by (rule heap_of_sorted_data[OF assms])+

text \<open>The two heaps of IVF-FLAT return the same rows in the same order whatever they are offered,
  so caching the index of the worst entry changes nothing, and no push finds the cache missing.\<close>

theorem reader_heap_is_flat_heap:
  "\<exists>h. reader_push_all offers (reader_heap_new k) = Inr h
    \<and> reader_heap_into_sorted h = flat_heap_into_sorted (flat_push_all offers (flat_heap_new k))"
  using reader_push_all_flat[OF reader_heap_new_inv, of offers k]
  by (auto simp: reader_heap_into_sorted_def flat_heap_into_sorted_def flat_heap_new_def)

text \<open>Whatever an IVF-FLAT reader heap is offered, it ends with offered entries only, each offer
  used at most once, and its distances are the k least of the offered distances that are not NaN, in
  ascending order.\<close>

theorem reader_heap_keeps_k_least:
  "\<exists>h. reader_push_all offers (reader_heap_new k) = Inr h
    \<and> mset (reader_heap_into_sorted h) \<subseteq># mset offers
    \<and> map fst (reader_heap_into_sorted h) = take k (sort (filter (\<lambda>d. \<not> is_nan d) (map fst offers)))"
proof -
  obtain h where h: "reader_push_all offers (reader_heap_new k) = Inr h" "heap_of k offers (rh_data h)"
    using reader_push_all_of[OF reader_heap_new_inv, of k "[]" offers] by auto
  then show ?thesis using heap_of_sorted[OF h(2)] by blast
qed

end
