(* ===== verification/Flat_Scan.thy ===== *)
theory Flat_Scan
  imports Flat_Heap
begin

text \<open>
  \<open>scan_flat_rows\<close> of \<open>core/src/ivfflat_io.rs\<close>: the scan of one IVF-FLAT list for one query, generic in
  the collector. The row filter is the caller's (\<open>RowIdFilter\<close> is a trait object) and is an argument.
\<close>

type_synonym row_filter = "(i64 \<Rightarrow> bool) option"

definition row_passes :: "row_filter \<Rightarrow> i64 \<Rightarrow> bool" where
  "row_passes row_filter row = (case row_filter of None \<Rightarrow> True | Some f \<Rightarrow> f row)"

definition scan_flat_rows ::
  "arch \<Rightarrow> 'c Collector \<Rightarrow> f32 list \<Rightarrow> i64 list \<Rightarrow> f32 list \<Rightarrow> nat \<Rightarrow> MetricType \<Rightarrow> row_filter \<Rightarrow> 'c \<Rightarrow> 'c res" where
  "scan_flat_rows t col query ids vectors d metric row_filter c0 =
     (let distance_context = query_distance_new t query metric in
      fold_res (\<lambda>(local_idx, row) c.
        if \<not> row_passes row_filter row then Inr c
        else bind_res (subslice (local_idx * d) ((local_idx + 1) * d) vectors) (\<lambda>vector.
          bind_res (if co_validate_cosine_inputs col \<and> metric = Cosine
                    then bind_res (checked_cosine_norm t vector) (\<lambda>norm. Inr (Some norm)) else Inr None) (\<lambda>vector_norm.
          if metric = L2 then
            bind_res (fvec_l2sqr_unless_exceeds t query vector (co_cutoff col c)) (\<lambda>r.
              case r of Some distance \<Rightarrow> co_push col row distance c | None \<Rightarrow> Inr (co_note_abandoned col c))
          else bind_res (distance_to t distance_context vector vector_norm) (\<lambda>distance.
            co_push col row distance c))))
        (enumerate 0 ids) c0)"

definition merge_flat_results :: "(f32 \<times> i64) list \<Rightarrow> ReaderTopKHeap \<Rightarrow> ReaderTopKHeap res" where
  "merge_flat_results results h = fold_res (\<lambda>(distance, row). reader_heap_push distance row) results h"

section \<open>What a list offers\<close>

text \<open>The distance of the metric; the lengths agree wherever it is used.\<close>

definition row_distance :: "arch \<Rightarrow> f32 list \<Rightarrow> MetricType \<Rightarrow> f32 list \<Rightarrow> f32" where
  "row_distance t query metric v = (case fvec_distance t query v metric of Inr x \<Rightarrow> x | Inl _ \<Rightarrow> f32_NAN)"

definition flat_offers ::
  "arch \<Rightarrow> f32 list \<Rightarrow> i64 list \<Rightarrow> f32 list \<Rightarrow> nat \<Rightarrow> MetricType \<Rightarrow> row_filter \<Rightarrow> (i64 \<times> f32) list" where
  "flat_offers t query ids vectors d metric row_filter =
     map (\<lambda>(i, row). (row, row_distance t query metric (row_of d vectors i)))
       (filter (\<lambda>(i, row). row_passes row_filter row) (enumerate 0 ids))"

definition push_offers :: "'c Collector \<Rightarrow> (i64 \<times> f32) list \<Rightarrow> 'c \<Rightarrow> 'c res" where
  "push_offers col = fold_res (\<lambda>(row, v). co_push col row v)"

text \<open>What the scan needs of a list: whole rows; under L2 finite numbers, with distances the
  collector takes; under cosine, when the collector asks for it, rows with a finite norm.\<close>

definition rows_ok :: "arch \<Rightarrow> bool \<Rightarrow> (f32 \<Rightarrow> bool) \<Rightarrow> f32 list \<Rightarrow> nat \<Rightarrow> f32 list \<Rightarrow> nat \<Rightarrow> MetricType \<Rightarrow> bool" where
  "rows_ok t validate ok query n vectors d metric \<longleftrightarrow>
     length query = d \<and> length vectors = n * d
   \<and> (metric = L2 \<longrightarrow> finite_vec query \<and> finite_vec vectors \<and> (\<forall>i < n. ok (row_distance t query L2 (row_of d vectors i))))
   \<and> (validate \<and> metric = Cosine \<longrightarrow> finite_vec vectors \<and> (\<forall>i < n. is_finite (fvec_norm_l2sqr t (row_of d vectors i))))"

lemma fvec_distance_row:
  assumes "length query = d" "length v = d"
  shows "fvec_distance t query v metric = Inr (row_distance t query metric v)"
  using assms by (auto simp: row_distance_def fvec_distance_def fvec_l2sqr_def fvec_inner_product_def
      fvec_cosine_distance_with_norms_def Let_def split: MetricType.splits)

lemma unless_exceeds_row:
  assumes "length query = d" "length v = d" "finite_vec query" "finite_vec v"
  shows "fvec_l2sqr_unless_exceeds t query v threshold =
    Inr (if f32_lt threshold (row_distance t query L2 v) then None else Some (row_distance t query L2 v))"
proof -
  have "fvec_l2sqr t query v = Inr (row_distance t query L2 v)"
    using fvec_distance_row[OF assms(1,2), of t L2] by (simp add: fvec_distance_def)
  then show ?thesis using unless_exceeds_eq[OF assms(3,4), of t threshold] by simp
qed

lemma distance_to_row:
  assumes "length query = d" "length v = d" "norm = None \<or> norm = Some (f32_sqrt (fvec_norm_l2sqr t v))"
  shows "distance_to t (query_distance_new t query metric) v norm = Inr (row_distance t query metric v)"
proof -
  have "distance_to t (query_distance_new t query metric) v norm = fvec_distance t query v metric"
    using assms(3) by (auto simp: distance_to_def query_distance_new_def fvec_distance_def Let_def split: MetricType.split)
  then show ?thesis using fvec_distance_row[OF assms(1,2)] by simp
qed

definition scan_flat_row ::
  "arch \<Rightarrow> 'c Collector \<Rightarrow> f32 list \<Rightarrow> f32 list \<Rightarrow> nat \<Rightarrow> MetricType \<Rightarrow> row_filter \<Rightarrow> nat \<times> i64 \<Rightarrow> 'c \<Rightarrow> 'c res" where
  "scan_flat_row t col query vectors d metric row_filter = (\<lambda>(local_idx, row) c.
        if \<not> row_passes row_filter row then Inr c
        else bind_res (subslice (local_idx * d) ((local_idx + 1) * d) vectors) (\<lambda>vector.
          bind_res (if co_validate_cosine_inputs col \<and> metric = Cosine
                    then bind_res (checked_cosine_norm t vector) (\<lambda>norm. Inr (Some norm)) else Inr None) (\<lambda>vector_norm.
          if metric = L2 then
            bind_res (fvec_l2sqr_unless_exceeds t query vector (co_cutoff col c)) (\<lambda>r.
              case r of Some distance \<Rightarrow> co_push col row distance c | None \<Rightarrow> Inr (co_note_abandoned col c))
          else bind_res (distance_to t (query_distance_new t query metric) vector vector_norm) (\<lambda>distance.
            co_push col row distance c))))"

lemma scan_flat_rows_fold:
  "scan_flat_rows t col query ids vectors d metric row_filter c =
     fold_res (scan_flat_row t col query vectors d metric row_filter) (enumerate 0 ids) c"
  by (simp add: scan_flat_rows_def scan_flat_row_def Let_def)

lemma scan_flat_row_eq:
  assumes ok: "rows_ok t (co_validate_cosine_inputs col) okv query n vectors d metric" and i: "i < n"
    and passes: "row_passes row_filter row"
  shows "scan_flat_row t col query vectors d metric row_filter (i, row) c =
    (let dist = row_distance t query metric (row_of d vectors i) in
     if metric = L2 \<and> f32_lt (co_cutoff col c) dist then Inr (co_note_abandoned col c) else co_push col row dist c)"
proof -
  let ?v = "row_of d vectors i"
  have "length query = d" "length vectors = n * d" using ok unfolding rows_ok_def by blast+
  note len = this length_row_of[OF this(2) i]
  note sub = subslice_row_of[OF len(2) i]
  show ?thesis
  proof (cases "metric = L2")
    case True
    then have "finite_vec query" "finite_vec ?v" using ok finite_vec_row_of by (auto simp: rows_ok_def)
    then show ?thesis using True passes sub unless_exceeds_row[OF len(1,3)]
      by (simp add: scan_flat_row_def Let_def)
  next
    case False
    have "checked_cosine_norm t ?v = Inr (f32_sqrt (fvec_norm_l2sqr t ?v))"
      if "co_validate_cosine_inputs col" "metric = Cosine"
    proof -
      have "finite_vec ?v" "is_finite (fvec_norm_l2sqr t ?v)" using ok that i finite_vec_row_of by (auto simp: rows_ok_def)
      then show ?thesis by (auto simp: checked_cosine_norm_def Let_def finite_vec_def list_all_iff list_ex_iff)
    qed
    then show ?thesis using False passes sub distance_to_row[OF len(1,3)] by (simp add: scan_flat_row_def)
  qed
qed

context collector
begin

lemma scan_row_pushes:
  assumes "inv c" "inv c'" "view c = view c'" "rows_ok t (co_validate_cosine_inputs col) ok query n vectors d metric"
    "i < n" "row_passes row_filter row"
  shows "same_view view (scan_flat_row t col query vectors d metric row_filter (i, row) c)
    (co_push col row (row_distance t query metric (row_of d vectors i)) c')"
proof -
  let ?v = "row_distance t query metric (row_of d vectors i)"
  note P = push_view[OF assms(1-3), of row ?v]
  have "same_view view (Inr (co_note_abandoned col c)) (co_push col row ?v c')"
    if "metric = L2" "f32_lt (co_cutoff col c) ?v"
  proof -
    have "same_view view (Inr (co_note_abandoned col c)) (co_push col row ?v c)"
      using abandoned_is_pushed[OF assms(1) _ that(2)] assms(4,5) that(1) by (simp add: rows_ok_def)
    then show ?thesis using P by (cases "co_push col row ?v c"; cases "co_push col row ?v c'") auto
  qed
  then show ?thesis using P unfolding scan_flat_row_eq[OF assms(4-6)] Let_def
    by (cases "metric = L2"; cases "f32_lt (co_cutoff col c) ?v") simp_all
qed

lemma scan_row_inv:
  assumes "inv c" "scan_flat_row t col query vectors d metric row_filter x c = Inr c'"
  shows "inv c'"
  using assms push_inv abandoned_inv
  by (cases x) (auto simp: scan_flat_row_def bind_res_eq_Inr split: if_splits option.splits)

text \<open>A scan that abandons rows is, up to the view, a scan that pushes every row it did not filter.\<close>

lemma scan_list_pushes:
  assumes "inv c" "inv c'" "view c = view c'" "rows_ok t (co_validate_cosine_inputs col) ok query n vectors d metric"
    "\<forall>(i, row) \<in> set xs. i < n"
  shows "same_view view (fold_res (scan_flat_row t col query vectors d metric row_filter) xs c)
    (push_offers col (map (\<lambda>(i, row). (row, row_distance t query metric (row_of d vectors i)))
       (filter (\<lambda>(i, row). row_passes row_filter row) xs)) c')"
  using assms(1-3,5)
proof (induction xs arbitrary: c c')
  case (Cons x xs)
  obtain i row where x: "x = (i, row)" by (cases x)
  show ?case
  proof (cases "row_passes row_filter row")
    case True
    have i: "i < n" using Cons.prems(4) x by simp
    note S = scan_row_pushes[OF Cons.prems(1-3) assms(4) i True]
    have "same_view view (fold_res (scan_flat_row t col query vectors d metric row_filter) xs e)
        (push_offers col (map (\<lambda>(i, row). (row, row_distance t query metric (row_of d vectors i)))
           (filter (\<lambda>(i, row). row_passes row_filter row) xs)) e')"
      if "scan_flat_row t col query vectors d metric row_filter (i, row) c = Inr e"
        "co_push col row (row_distance t query metric (row_of d vectors i)) c' = Inr e'" "view e = view e'" for e e'
      using Cons.IH[OF scan_row_inv[OF Cons.prems(1) that(1)] push_inv[OF Cons.prems(2) that(2)] that(3)] Cons.prems(4) by simp
    from same_view_bind[OF S this] show ?thesis using x True by (simp add: push_offers_def)
  next
    case False
    then show ?thesis using Cons.IH[OF Cons.prems(1-3)] Cons.prems(4) x by (simp add: push_offers_def scan_flat_row_def)
  qed
qed (simp add: push_offers_def)

lemma scan_pushes_offers:
  assumes "inv c" "rows_ok t (co_validate_cosine_inputs col) ok query (length ids) vectors d metric"
  shows "same_view view (scan_flat_rows t col query ids vectors d metric row_filter c)
    (push_offers col (flat_offers t query ids vectors d metric row_filter) c)"
  unfolding scan_flat_rows_fold flat_offers_def
  using scan_list_pushes[OF assms(1,1) refl assms(2)] by (force simp: in_set_enumerate_eq)

lemma push_offers_inv: "inv c \<Longrightarrow> push_offers col offers c = Inr c' \<Longrightarrow> inv c'"
  unfolding push_offers_def by (erule (1) fold_res_invariant) (auto intro: push_inv)

lemma scan_inv: "inv c \<Longrightarrow> scan_flat_rows t col query ids vectors d metric row_filter c = Inr c' \<Longrightarrow> inv c'"
  unfolding scan_flat_rows_fold by (erule (1) fold_res_invariant) (auto intro: scan_row_inv)

end

section \<open>The scan with each collector\<close>

lemma range_push_offers:
  assumes "\<forall>(row, v) \<in> set offers. is_finite v"
  shows "push_offers range_collector offers c =
    Inr (c\<lparr>rc_rows := rc_rows c @ filter (\<lambda>(row, v). admit_raw (rc_band c) v) offers,
           rc_scanned := rc_scanned c + length offers\<rparr>)"
  using assms
proof (induction offers arbitrary: c)
  case (Cons x offers)
  obtain row v where x: "x = (row, v)" by (cases x)
  then show ?case using Cons by (simp add: push_offers_def range_collector_def range_collector_push_def)
qed (simp add: push_offers_def)

lemma reader_push_offers:
  "push_offers reader_collector offers h = reader_push_all (map prod.swap offers) h"
  by (induction offers arbitrary: h)
    (auto simp: push_offers_def reader_push_all_def reader_collector_def intro!: bind_res_cong)

lemma flat_offers_memD:
  assumes "(row, v) \<in> set (flat_offers t query ids vectors d metric row_filter)"
  shows "\<exists>i < length ids. row = ids ! i \<and> v = row_distance t query metric (row_of d vectors i)"
  using assms by (auto simp: flat_offers_def in_set_enumerate_eq)

text \<open>Scans of several lists into one reader heap.\<close>

lemma scan_reader_of:
  assumes "reader_heap_inv h" "heap_of (rh_k h) before (rh_data h)"
    "rows_ok t False (\<lambda>_. True) query (length ids) vectors d metric"
  shows "\<exists>h'. scan_flat_rows t reader_collector query ids vectors d metric row_filter h = Inr h'
    \<and> reader_heap_inv h' \<and> rh_k h' = rh_k h
    \<and> heap_of (rh_k h) (before @ map prod.swap (flat_offers t query ids vectors d metric row_filter)) (rh_data h')"
proof -
  have v: "co_validate_cosine_inputs reader_collector = False" by (simp add: reader_collector_def)
  let ?scan = "scan_flat_rows t reader_collector query ids vectors d metric row_filter h"
  let ?push = "push_offers reader_collector (flat_offers t query ids vectors d metric row_filter) h"
  have "same_view (\<lambda>h. h) ?scan ?push"
    using reader_col.scan_pushes_offers[OF assms(1), of t query ids vectors d metric row_filter] assms(3) v by simp
  then have "?scan = ?push" by (cases ?scan; cases ?push) auto
  then show ?thesis using reader_push_all_of[OF assms(1,2)] by (simp add: reader_push_offers)
qed

section \<open>Properties\<close>

lemma range_scan_of:
  assumes ok: "rows_ok t True is_finite query (length ids) vectors d metric" and inv: "range_collector_inv c"
    and fin: "\<forall>i < length ids. is_finite (row_distance t query metric (row_of d vectors i))"
  shows "\<exists>c'. scan_flat_rows t range_collector query ids vectors d metric row_filter c = Inr c' \<and> range_collector_inv c'
    \<and> rc_band c' = rc_band c
    \<and> rc_rows c' = rc_rows c @ filter (\<lambda>(row, v). admit_raw (rc_band c) v) (flat_offers t query ids vectors d metric row_filter)
    \<and> rc_scanned c' = rc_scanned c + length (flat_offers t query ids vectors d metric row_filter)"
proof -
  let ?offers = "flat_offers t query ids vectors d metric row_filter"
  have "\<forall>(row, v) \<in> set ?offers. is_finite v" using fin flat_offers_memD by fastforce
  note P = range_push_offers[OF this, of c]
  have "co_validate_cosine_inputs range_collector = True" by (simp add: range_collector_def)
  then have S: "same_view range_view (scan_flat_rows t range_collector query ids vectors d metric row_filter c)
      (push_offers range_collector ?offers c)"
    using range_col.scan_pushes_offers[OF inv, of t query ids vectors d metric row_filter] ok by simp
  then obtain c' where c': "scan_flat_rows t range_collector query ids vectors d metric row_filter c = Inr c'"
    unfolding P by (cases "scan_flat_rows t range_collector query ids vectors d metric row_filter c") auto
  then show ?thesis using S P range_col.scan_inv[OF inv c'] by (auto simp: range_view_def)
qed

text \<open>A range scan of one IVF-FLAT list returns, in list order, exactly the rows the filter lets
  through whose exact distance lies in the band, and counts each row it looked at once, although the
  kernel abandons rows early; it needs rows of finite numbers with finite distances.\<close>

theorem flat_range_scan_exact:
  assumes "rows_ok t True is_finite query (length ids) vectors d metric"
    and "\<forall>i < length ids. is_finite (row_distance t query metric (row_of d vectors i))"
  shows "\<exists>c. scan_flat_rows t range_collector query ids vectors d metric row_filter (range_collector_new band) = Inr c
    \<and> rc_rows c = filter (\<lambda>(row, v). admit_raw band v) (flat_offers t query ids vectors d metric row_filter)
    \<and> rc_scanned c = length (flat_offers t query ids vectors d metric row_filter)"
  using range_scan_of[OF assms(1) range_collector_new_inv assms(2), of row_filter band]
  by (auto simp: range_collector_new_def)

lemma row_distance_eval [f32_eval]:
  "row_distance OtherArch [f32_one] L2 [f32_one] = f32_zero" "row_distance OtherArch [f32_one] L2 [f32_zero] = f32_one"
  by (simp_all add: row_distance_def fvec_distance_def l2_eval f32_eval)

lemma two_rows_ok:
  "ok f32_zero \<Longrightarrow> ok f32_one \<Longrightarrow> rows_ok OtherArch v ok [f32_one] (length [5, 7 :: i64]) [f32_zero, f32_one] 1 L2"
  "\<forall>i < length [5, 7 :: i64]. is_finite (row_distance OtherArch [f32_one] L2 (row_of 1 [f32_zero, f32_one] i))"
  by (auto simp: rows_ok_def row_of_def slice_def less_Suc_eq f32_eval finite_vec_def)

lemma two_row_offers: "flat_offers OtherArch [f32_one] [5, 7] [f32_zero, f32_one] 1 L2 None = [(5, f32_one), (7, f32_zero)]"
  by (simp add: flat_offers_def row_passes_def row_of_def slice_def f32_eval)

theorem flat_range_scan_exact_witness:
  "\<exists>c. scan_flat_rows OtherArch range_collector [f32_one] [5, 7] [f32_zero, f32_one] 1 L2 None
      (range_collector_new \<lparr>band_lower = Unbounded, band_upper = Finite f32_one, band_metric = L2\<rparr>) = Inr c
    \<and> rc_rows c = [(7, f32_zero)] \<and> rc_scanned c = 2"
  using flat_range_scan_exact[OF two_rows_ok(1)[of is_finite True] two_rows_ok(2), of None
      "\<lparr>band_lower = Unbounded, band_upper = Finite f32_one, band_metric = L2\<rparr>"]
  unfolding two_row_offers by (simp add: f32_eval admit_raw_def Let_def numeral_2_eq_2)

text \<open>C34: A top-k scan of one IVF-FLAT list into a fresh reader heap ends with the k least of the
  exact distances of the rows the filter lets through, ascending, although the kernel abandons rows
  against the moving cutoff; each of them belongs to a row of the list.\<close>

theorem flat_topk_scan_exact:
  assumes "rows_ok t False (\<lambda>_. True) query (length ids) vectors d metric"
  shows "\<exists>h. scan_flat_rows t reader_collector query ids vectors d metric row_filter (reader_heap_new k) = Inr h
    \<and> map fst (reader_heap_into_sorted h) = take k (sort (filter (\<lambda>v. \<not> is_nan v)
          (map snd (flat_offers t query ids vectors d metric row_filter))))
    \<and> (\<forall>(v, row) \<in> set (reader_heap_into_sorted h). (row, v) \<in> set (flat_offers t query ids vectors d metric row_filter))"
proof -
  let ?offers = "flat_offers t query ids vectors d metric row_filter"
  obtain h where h: "scan_flat_rows t reader_collector query ids vectors d metric row_filter (reader_heap_new k) = Inr h"
    "heap_of k (map prod.swap ?offers) (rh_data h)"
    using scan_reader_of[OF reader_heap_new_inv, of k "[]" t query ids vectors d metric row_filter] assms by auto
  show ?thesis using h(1) heap_of_sorted[OF h(2)] by (auto simp: o_def)
qed

theorem flat_topk_scan_exact_witness:
  "\<exists>h. scan_flat_rows OtherArch reader_collector [f32_one] [5, 7] [f32_zero, f32_one] 1 L2 None (reader_heap_new 1) = Inr h
    \<and> reader_heap_into_sorted h = [(f32_zero, 7)]"
proof -
  have le: "\<not> f32_one \<le> f32_zero" using f32_lt_less[OF f32_lt_zero_one(1)] by simp
  have ne: "f32_zero \<noteq> f32_one" using f32_lt_zero_one(1,3) by metis
  obtain h where h: "scan_flat_rows OtherArch reader_collector [f32_one] [5, 7] [f32_zero, f32_one] 1 L2 None (reader_heap_new 1) = Inr h"
    "map fst (reader_heap_into_sorted h) = [f32_zero]"
    "\<forall>(v, row) \<in> set (reader_heap_into_sorted h). (row, v) \<in> {(5, f32_one), (7, f32_zero)}"
    using flat_topk_scan_exact[OF two_rows_ok(1)[of "\<lambda>_. True" False], of None 1] unfolding two_row_offers
    by (auto simp: f32_eval le)
  then obtain row where "reader_heap_into_sorted h = [(f32_zero, row)]" by (cases "reader_heap_into_sorted h") auto
  then show ?thesis using h(1,3) ne by auto
qed

end
