(* ===== verification/Probe.thy ===== *)
theory Probe
  imports Flat_Heap "HOL-Library.Product_Lexorder"
begin

text \<open>
  The part of \<open>core/src/kmeans.rs\<close> that ranks centroids for a query, \<open>sgemm_a_bt\<close> of
  \<open>core/src/blas.rs\<close> that it calls, and \<open>range_probe_lists\<close> of \<open>core/src/range.rs\<close>.

  Two things are arguments: \<open>gemm\<close>, the matrix product of the \<open>matrixmultiply\<close> crate, and \<open>sel\<close>, the
  order in which \<open>select_nth_unstable_by\<close> leaves a slice. The documentation of the latter fixes only
  that the nth entry is in its sorted place with no greater entry before it and no lesser one after
  it (\<open>selects\<close>). Candidates are pairs of a distance and an index; \<open>compare_distance_then_index\<close> is
  the lexicographic order of the pairs.
\<close>

definition compare_distance_then_index :: "f32 \<times> nat \<Rightarrow> f32 \<times> nat \<Rightarrow> bool" where
  "compare_distance_then_index left right \<longleftrightarrow>
     fst left < fst right \<or> fst left = fst right \<and> snd left < snd right"

lemma compare_is_less: "compare_distance_then_index left right \<longleftrightarrow> left < right"
  by (cases left; cases right) (auto simp: compare_distance_then_index_def less_prod_def)

type_synonym selector = "nat \<Rightarrow> (f32 \<times> nat) list \<Rightarrow> (f32 \<times> nat) list"

type_synonym gemm = "nat \<Rightarrow> nat \<Rightarrow> nat \<Rightarrow> f32 \<Rightarrow> f32 list \<Rightarrow> f32 list \<Rightarrow> f32 \<Rightarrow> f32 list \<Rightarrow> f32 list"

definition selects :: "selector \<Rightarrow> bool" where
  "selects sel \<longleftrightarrow> (\<forall>n xs. n < length xs \<longrightarrow>
     mset (sel n xs) = mset xs
   \<and> (\<forall>x \<in> set (take n (sel n xs)). x \<le> sel n xs ! n)
   \<and> (\<forall>x \<in> set (drop (Suc n) (sel n xs)). sel n xs ! n \<le> x))"

definition sgemm_a_bt ::
  "gemm \<Rightarrow> nat \<Rightarrow> nat \<Rightarrow> nat \<Rightarrow> f32 \<Rightarrow> f32 list \<Rightarrow> f32 list \<Rightarrow> f32 \<Rightarrow> f32 list \<Rightarrow> f32 list res" where
  "sgemm_a_bt gemm m n k alpha a b beta c =
     (if \<not> (k \<le> I64_MAX \<and> n \<le> I64_MAX) then Inl Panic
      else bind_res (ok_or Panic (checked_mul m k)) (\<lambda>a_len.
      bind_res (ok_or Panic (checked_mul n k)) (\<lambda>b_len.
      bind_res (ok_or Panic (checked_mul m n)) (\<lambda>c_len.
        if a_len \<le> length a \<and> b_len \<le> length b \<and> c_len \<le> length c
        then Inr (gemm m k n alpha a b beta c) else Inl Panic))))"

definition MAX_MATRIX_ELEMS :: nat where "MAX_MATRIX_ELEMS = 4 * 1024 * 1024"
definition MIN_BLOCK_ROWS :: nat where "MIN_BLOCK_ROWS = 32"
definition MIN_BLOCK_FLOPS :: nat where "MIN_BLOCK_FLOPS = 4000000"
definition TARGET_BLOCKS :: nat where "TARGET_BLOCKS = 64"

definition assignment_block_plan :: "nat \<Rightarrow> nat \<Rightarrow> nat \<Rightarrow> nat \<Rightarrow> nat \<times> bool" where
  "assignment_block_plan n d k threads =
     (let max_rows = max (MAX_MATRIX_ELEMS div max k 1) 1 in
      if threads \<le> 1 then (max_rows, False)
      else (let row_flops = max (saturating_mul (saturating_mul k d) 2) 1;
                min_rows = min (max MIN_BLOCK_ROWS (div_ceil MIN_BLOCK_FLOPS row_flops)) max_rows;
                budget_rows = min (max (MAX_MATRIX_ELEMS div threads div max k 1) 1) max_rows
            in if budget_rows < min_rows then (budget_rows, False)
               else (min (min (max (div_ceil n TARGET_BLOCKS) min_rows) max_rows) budget_rows, True)))"

section \<open>The nearest centroid\<close>

definition centroid_row :: "f32 list \<Rightarrow> nat \<Rightarrow> nat \<Rightarrow> f32 list res" where
  "centroid_row centroids d c = subslice (c * d) ((c + 1) * d) centroids"

definition centroid_four :: "arch \<Rightarrow> f32 list \<Rightarrow> f32 list \<Rightarrow> nat \<Rightarrow> nat \<Rightarrow> f32 list res" where
  "centroid_four t point centroids d c =
     bind_res (centroid_row centroids d c) (\<lambda>r0.
     bind_res (centroid_row centroids d (c + 1)) (\<lambda>r1.
     bind_res (centroid_row centroids d (c + 2)) (\<lambda>r2.
     bind_res (centroid_row centroids d (c + 3)) (\<lambda>r3. fvec_l2sqr_four t point r0 r1 r2 r3))))"

definition centroid_one :: "arch \<Rightarrow> f32 list \<Rightarrow> f32 list \<Rightarrow> nat \<Rightarrow> nat \<Rightarrow> f32 res" where
  "centroid_one t point centroids d c = bind_res (centroid_row centroids d c) (fvec_l2sqr t point)"

definition nearest_step :: "nat \<Rightarrow> f32 \<Rightarrow> nat \<times> f32 \<Rightarrow> nat \<times> f32" where
  "nearest_step c dist s = (if f32_lt dist (snd s) then (c, dist) else s)"

definition find_nearest :: "arch \<Rightarrow> f32 list \<Rightarrow> f32 list \<Rightarrow> nat \<Rightarrow> nat \<Rightarrow> nat res" where
  "find_nearest t point centroids k d =
     (let four_end = k div 4 * 4 in
      bind_res (fold_res (\<lambda>i s. bind_res (centroid_four t point centroids d (i * 4)) (\<lambda>distances.
          Inr (fold (\<lambda>(offset, dist). nearest_step (i * 4 + offset) dist) (enumerate 0 distances) s)))
        [0..<k div 4] (0, f32_MAX)) (\<lambda>s.
      bind_res (fold_res (\<lambda>c s. bind_res (centroid_one t point centroids d c) (\<lambda>dist. Inr (nearest_step c dist s)))
        [four_end..<k] s) (\<lambda>s. Inr (fst s))))"

section \<open>The nearest few\<close>

definition select_topk_prefix :: "selector \<Rightarrow> (f32 \<times> nat) list \<Rightarrow> nat \<Rightarrow> (f32 \<times> nat) list" where
  "select_topk_prefix sel dists nprobe =
     (let dists' = (if nprobe < length dists then sel (nprobe - 1) dists else dists)
      in sort (take nprobe dists') @ drop nprobe dists')"

definition find_topk ::
  "arch \<Rightarrow> selector \<Rightarrow> f32 list \<Rightarrow> f32 list \<Rightarrow> nat \<Rightarrow> nat \<Rightarrow> nat \<Rightarrow> (nat list \<times> f32 list) res" where
  "find_topk t sel point centroids k d nprobe0 =
     (let nprobe = min nprobe0 k in
      if nprobe = 0 then Inr ([], [])
      else (let four_end = k div 4 * 4 in
        bind_res (fold_res (\<lambda>i dists. bind_res (centroid_four t point centroids d (i * 4)) (\<lambda>distances.
            Inr (dists @ map (\<lambda>(offset, distance). (distance, i * 4 + offset)) (enumerate 0 distances))))
          [0..<k div 4] []) (\<lambda>dists.
        bind_res (map_res (\<lambda>c. bind_res (centroid_one t point centroids d c) (\<lambda>dist. Inr (dist, c))) [four_end..<k]) (\<lambda>rest.
          let dists' = select_topk_prefix sel (dists @ rest) nprobe
          in Inr (map snd (take nprobe dists'), map fst (take nprobe dists'))))))"

text \<open>The loop of \<open>find_topk_checked\<close>; \<open>Inl\<close> of the result is the list with a non-finite distance.\<close>

record topk_scan =
  ts_candidates :: "(f32 \<times> nat) list"
  ts_cutoff :: "f32 \<times> nat"

definition checked_step :: "selector \<Rightarrow> nat \<Rightarrow> nat \<Rightarrow> f32 \<times> nat \<Rightarrow> topk_scan \<Rightarrow> topk_scan" where
  "checked_step sel nprobe capacity candidate s =
     (if \<not> compare_distance_then_index candidate (ts_cutoff s) then s
      else (let candidates = ts_candidates s @ [candidate] in
        if length candidates = capacity \<and> nprobe < capacity
        then (let selected = sel (nprobe - 1) candidates
              in \<lparr>ts_candidates = take nprobe selected, ts_cutoff = selected ! (nprobe - 1)\<rparr>)
        else s\<lparr>ts_candidates := candidates\<rparr>))"

fun checked_loop ::
  "arch \<Rightarrow> selector \<Rightarrow> f32 list \<Rightarrow> f32 list \<Rightarrow> nat \<Rightarrow> nat \<Rightarrow> nat \<Rightarrow> nat list \<Rightarrow> topk_scan \<Rightarrow> (nat + topk_scan) res" where
  "checked_loop t sel point centroids dimension nprobe capacity [] s = Inr (Inr s)"
| "checked_loop t sel point centroids dimension nprobe capacity (centroid # rest) s =
     bind_res (centroid_one t point centroids dimension centroid) (\<lambda>distance.
       if \<not> is_finite distance then Inr (Inl centroid)
       else checked_loop t sel point centroids dimension nprobe capacity rest
         (checked_step sel nprobe capacity (distance, centroid) s))"

definition find_topk_checked ::
  "arch \<Rightarrow> selector \<Rightarrow> f32 list \<Rightarrow> f32 list \<Rightarrow> nat \<Rightarrow> nat \<Rightarrow> nat \<Rightarrow> (nat + (f32 \<times> nat) list) res" where
  "find_topk_checked t sel point centroids centroid_count dimension nprobe0 =
     (let nprobe = min nprobe0 centroid_count in
      if nprobe = 0 then Inr (Inr [])
      else (let capacity = min (saturating_mul nprobe 2) centroid_count in
        bind_res (checked_loop t sel point centroids dimension nprobe capacity [0..<centroid_count]
          \<lparr>ts_candidates = [], ts_cutoff = (f32_INFINITY, USIZE_MAX)\<rparr>) (\<lambda>r.
        case r of Inl centroid \<Rightarrow> Inr (Inl centroid)
        | Inr s \<Rightarrow>
            (let candidates = ts_candidates s;
                 kept = (if nprobe < length candidates then take nprobe (sel (nprobe - 1) candidates) else candidates)
             in Inr (Inr (sort kept))))))"

section \<open>Batches through the matrix product\<close>

definition refine_topk_boundary ::
  "arch \<Rightarrow> selector \<Rightarrow> f32 list \<Rightarrow> f32 list \<Rightarrow> nat \<Rightarrow> nat \<Rightarrow> nat \<Rightarrow> (f32 \<times> nat) list \<Rightarrow> f32 \<Rightarrow> (nat list \<times> f32 list) res" where
  "refine_topk_boundary t sel query centroids k d nprobe approximate0 error_bound =
     (let approximate = select_topk_prefix sel approximate0 nprobe in
      bind_res (idx approximate (nprobe - 1)) (\<lambda>b.
      let boundary = fst b;
          lower = f32_sub boundary (f32_mul f32_two error_bound);
          upper = f32_add boundary (f32_mul f32_two error_bound) in
      bind_res (fold_res (\<lambda>(distance, centroid) (selected, ambiguous).
          if f32_lt distance lower
          then bind_res (centroid_one t query centroids d centroid) (\<lambda>exact. Inr (selected @ [(exact, centroid)], ambiguous))
          else if f32_le distance upper then Inr (selected, ambiguous @ [centroid])
          else Inr (selected, ambiguous)) approximate ([], [])) (\<lambda>(selected, ambiguous).
      if length ambiguous = k then find_topk t sel query centroids k d nprobe
      else bind_res (ok_or Panic (checked_sub nprobe (length selected))) (\<lambda>needed.
        bind_res (map_res (\<lambda>centroid. bind_res (centroid_one t query centroids d centroid) (\<lambda>exact. Inr (exact, centroid))) ambiguous) (\<lambda>exacts.
        let chosen = sort (selected @ take needed (sort exacts))
        in Inr (map snd chosen, map fst chosen))))))"

definition error_bound_of :: "nat \<Rightarrow> f32 \<Rightarrow> f32" where
  "error_bound_of d max_scale =
     (let rounding = f32_mul (f32_of_nat d) f32_EPSILON;
          error_factor = (if f32_lt rounding f32_one
            then f32_div (f32_mul (f32_of_nat 4) rounding) (f32_sub f32_one rounding) else f32_INFINITY)
      in if f32_eq max_scale f32_zero then f32_zero else f32_mul max_scale error_factor)"

text \<open>One query of a tile: its row of inner products turned into expanded distances.\<close>

definition batch_query ::
  "arch \<Rightarrow> selector \<Rightarrow> f32 list \<Rightarrow> f32 list \<Rightarrow> nat \<Rightarrow> nat \<Rightarrow> nat \<Rightarrow> f32 \<Rightarrow> f32 list \<Rightarrow> f32 \<Rightarrow> f32 list \<Rightarrow> (nat list \<times> f32 list) res" where
  "batch_query t sel centroids centroid_norms k d nprobe query_norm inner_products max_centroid_norm query =
     (if \<not> is_finite query_norm then find_topk t sel query centroids k d nprobe
      else (let max_scale = f32_add (f32_add query_norm max_centroid_norm)
                  (f32_mul f32_two (f32_sqrt (f32_mul query_norm max_centroid_norm)));
                expanded = map2 (\<lambda>centroid_norm inner_product.
                  f32_sub (f32_add query_norm centroid_norm) (f32_mul f32_two inner_product)) centroid_norms inner_products;
                approximate = map (\<lambda>(centroid, distance). (f32_max distance f32_zero, centroid)) (enumerate 0 expanded)
            in if \<not> list_all is_finite expanded then find_topk t sel query centroids k d nprobe
               else refine_topk_boundary t sel query centroids k d nprobe approximate (error_bound_of d max_scale)))"

definition find_topk_batch_with_centroid_norms ::
  "arch \<Rightarrow> selector \<Rightarrow> gemm \<Rightarrow> f32 list \<Rightarrow> nat \<Rightarrow> f32 list \<Rightarrow> f32 list \<Rightarrow> nat \<Rightarrow> nat \<Rightarrow> nat \<Rightarrow> (nat list \<times> f32 list) list res" where
  "find_topk_batch_with_centroid_norms t sel gemm queries nq centroids centroid_norms k d nprobe0 =
     (let nprobe = min nprobe0 k in
      if nprobe = 0 then Inr (replicate nq ([], []))
      else if nq = 1 \<or> nprobe = k \<or> MAX_MATRIX_ELEMS < k
        \<or> list_ex (\<lambda>norm. \<not> is_finite norm \<or> f32_lt norm f32_zero) centroid_norms
      then map_res (\<lambda>query. bind_res (subslice (query * d) ((query + 1) * d) queries)
             (\<lambda>q. find_topk t sel q centroids k d nprobe)) [0..<nq]
      else (let max_centroid_norm = foldl f32_max f32_zero centroid_norms;
                tile_rows = max (MAX_MATRIX_ELEMS div k) 1 in
        bind_res (map_res (\<lambda>tile.
            let query_start = tile * tile_rows; tile_n = min tile_rows (nq - query_start) in
            bind_res (subslice (query_start * d) ((query_start + tile_n) * d) queries) (\<lambda>tile_queries.
            bind_res (map_res (\<lambda>query. bind_res (subslice (query * d) ((query + 1) * d) tile_queries)
                (\<lambda>q. Inr (fvec_norm_l2sqr t q))) [0..<tile_n]) (\<lambda>query_norms.
            bind_res (sgemm_a_bt gemm tile_n k d f32_one tile_queries centroids f32_zero (replicate (tile_n * k) f32_zero)) (\<lambda>inner_products.
            map_res (\<lambda>(query, query_norm, row). bind_res (subslice (query * d) ((query + 1) * d) tile_queries)
                (batch_query t sel centroids centroid_norms k d nprobe query_norm row max_centroid_norm))
              (enumerate 0 (zip query_norms (chunks_exact k inner_products)))))))
          [0..<div_ceil nq tile_rows]) (\<lambda>tiles. Inr (concat tiles))))"

definition find_topk_batch ::
  "arch \<Rightarrow> selector \<Rightarrow> gemm \<Rightarrow> f32 list \<Rightarrow> nat \<Rightarrow> f32 list \<Rightarrow> nat \<Rightarrow> nat \<Rightarrow> nat \<Rightarrow> (nat list \<times> f32 list) list res" where
  "find_topk_batch t sel gemm queries nq centroids k d nprobe =
     bind_res (map_res (\<lambda>centroid. bind_res (centroid_row centroids d centroid) (\<lambda>row. Inr (fvec_norm_l2sqr t row))) [0..<k])
       (\<lambda>centroid_norms. find_topk_batch_with_centroid_norms t sel gemm queries nq centroids centroid_norms k d nprobe)"

section \<open>Probe lists of a range search\<close>

definition range_probe_lists ::
  "arch \<Rightarrow> selector \<Rightarrow> gemm \<Rightarrow> f32 list \<Rightarrow> f32 list \<Rightarrow> nat \<Rightarrow> nat \<Rightarrow> nat \<Rightarrow> MetricType \<Rightarrow> nat list list res" where
  "range_probe_lists t sel gemm queries centroids dimension nlist nprobe metric =
     (if metric = L2 then
        if dimension = 0 then Inl Panic
        else bind_res (find_topk_batch t sel gemm queries (length queries div dimension) centroids nlist dimension nprobe)
          (\<lambda>probes. Inr (map fst probes))
      else if list_ex (\<lambda>v. \<not> is_finite v) centroids then Inl (Err InvalidData)
      else if dimension = 0 then Inl Panic
      else map_res (\<lambda>query.
        bind_res (find_topk_checked t sel query centroids nlist dimension nprobe) (\<lambda>r.
          case r of Inr rows \<Rightarrow> Inr (map snd rows) | Inl _ \<Rightarrow> Inl (Err InvalidData)))
        (chunks_exact dimension queries))"

section \<open>Selection\<close>

lemma sort_append_le:
  assumes "\<forall>x \<in> set xs. \<forall>y \<in> set ys. x \<le> y"
  shows "sort (xs @ ys) = sort xs @ sort ys"
  by (rule properties_for_sort) (use assms in \<open>auto simp: sorted_append\<close>)

lemma sort_mset: "mset xs = mset ys \<Longrightarrow> sort xs = sort ys"
  using properties_for_sort[of "sort ys" xs] by simp

lemma selectsD:
  assumes "selects sel" "0 < n" "n < length xs"
  shows "sort (take n (sel (n - 1) xs)) = take n (sort xs)"
    and "mset (sel (n - 1) xs) = mset xs"
    and "\<forall>x \<in> set (take n (sel (n - 1) xs)). x \<le> sel (n - 1) xs ! (n - 1)"
    and "length (take n (sel (n - 1) xs)) = n"
proof -
  let ?ys = "sel (n - 1) xs"
  have m: "n - 1 < length xs" "Suc (n - 1) = n" using assms by auto
  have S: "mset ?ys = mset xs" "\<forall>x \<in> set (take (n - 1) ?ys). x \<le> ?ys ! (n - 1)"
    "\<forall>x \<in> set (drop n ?ys). ?ys ! (n - 1) \<le> x"
    using assms(1) m unfolding selects_def by metis+
  then show "mset ?ys = mset xs" by simp
  have len: "length ?ys = length xs" using S(1) by (metis size_mset)
  then show "length (take n ?ys) = n" using assms(3) by simp
  have take: "take n ?ys = take (n - 1) ?ys @ [?ys ! (n - 1)]"
    using take_Suc_conv_app_nth[of "n - 1" ?ys] m len by simp
  show le: "\<forall>x \<in> set (take n ?ys). x \<le> ?ys ! (n - 1)" unfolding take using S(2) by auto
  have "\<forall>x \<in> set (take n ?ys). \<forall>y \<in> set (drop n ?ys). x \<le> y"
    using le S(3) by (blast intro: order_trans)
  from sort_append_le[OF this] have "sort ?ys = sort (take n ?ys) @ sort (drop n ?ys)" by simp
  then show "sort (take n ?ys) = take n (sort xs)"
    using sort_mset[OF S(1)] len assms(3) by (metis append_eq_conv_conj length_sort length_take less_imp_le min.absorb2)
qed

lemma select_topk_prefix_take:
  assumes "selects sel" "0 < n" "n \<le> length xs"
  shows "take n (select_topk_prefix sel xs n) = take n (sort xs)"
proof (cases "n < length xs")
  case True
  then show ?thesis using selectsD[OF assms(1,2) True] by (simp add: select_topk_prefix_def Let_def)
next
  case False
  then show ?thesis using assms(3) by (simp add: select_topk_prefix_def)
qed

lemma select_topk_prefix_mset:
  assumes "selects sel" "0 < n"
  shows "mset (select_topk_prefix sel xs n) = mset xs"
proof (cases "n < length xs")
  case True
  have "mset (take n (sel (n - 1) xs)) + mset (drop n (sel (n - 1) xs)) = mset xs"
    using selectsD(2)[OF assms True] by (metis append_take_drop_id mset_append)
  then show ?thesis using True by (simp add: select_topk_prefix_def Let_def)
qed (simp add: select_topk_prefix_def)

lemma selects_sort: "selects (\<lambda>n. sort)"
  unfolding selects_def
proof (intro allI impI conjI ballI)
  fix n :: nat and xs :: "(f32 \<times> nat) list" and x
  assume n: "n < length xs"
  show "mset (sort xs) = mset xs" by simp
  have s: "sorted (take n (sort xs) @ sort xs ! n # drop (Suc n) (sort xs))"
    using id_take_nth_drop[of n "sort xs"] n by (metis length_sort sorted_sort)
  show "x \<le> sort xs ! n" if "x \<in> set (take n (sort xs))" using s that by (auto simp: sorted_append)
  show "sort xs ! n \<le> x" if "x \<in> set (drop (Suc n) (sort xs))" using s that by (auto simp: sorted_append)
qed

section \<open>Distances to the centroids\<close>

definition cdist :: "arch \<Rightarrow> f32 list \<Rightarrow> f32 list \<Rightarrow> nat \<Rightarrow> nat \<Rightarrow> f32" where
  "cdist t point centroids d c = fvec_l2sqr_simd t point (row_of d centroids c)"

definition ranked :: "arch \<Rightarrow> f32 list \<Rightarrow> f32 list \<Rightarrow> nat \<Rightarrow> nat \<Rightarrow> (f32 \<times> nat) list" where
  "ranked t point centroids k d = map (\<lambda>c. (cdist t point centroids d c, c)) [0..<k]"

definition probe_shape :: "f32 list \<Rightarrow> f32 list \<Rightarrow> nat \<Rightarrow> nat \<Rightarrow> bool" where
  "probe_shape point centroids k d \<longleftrightarrow> length point = d \<and> length centroids = k * d"

lemma centroid_row_eq: "length centroids = k * d \<Longrightarrow> c < k \<Longrightarrow> centroid_row centroids d c = Inr (row_of d centroids c)"
  unfolding centroid_row_def by (rule subslice_row_of)

lemma centroid_one_eq:
  "probe_shape point centroids k d \<Longrightarrow> c < k \<Longrightarrow> centroid_one t point centroids d c = Inr (cdist t point centroids d c)"
  using centroid_row_eq[of centroids k d c] length_row_of[of centroids k d c]
  by (simp add: centroid_one_def probe_shape_def fvec_l2sqr_def cdist_def)

lemma centroid_four_eq:
  assumes "probe_shape point centroids k d" "c + 3 < k"
  shows "centroid_four t point centroids d c = Inr (map (cdist t point centroids d) [c..<c + 4])"
proof -
  have up: "[c..<c + 4] = [c, c + 1, c + 2, c + 3]" by (simp add: upt_rec numeral_eq_Suc)
  have row: "centroid_row centroids d (c + j) = Inr (row_of d centroids (c + j))" "length (row_of d centroids (c + j)) = d"
    if "j \<le> 3" for j
    using centroid_row_eq[of centroids k d "c + j"] length_row_of[of centroids k d "c + j"] assms that
    by (auto simp: probe_shape_def)
  show ?thesis using row[of 0] row[of 1] row[of 2] row[of 3] assms(1) unfolding up
    by (simp add: centroid_four_def four_eq_singles probe_shape_def fvec_l2sqr_def cdist_def)
qed

lemma upt_four: "[0..<n * 4] = concat (map (\<lambda>i. [i * 4..<i * 4 + 4]) [0..<n])"
proof (induction n)
  case (Suc n)
  have "[0..<Suc n * 4] = [0..<n * 4] @ [n * 4..<n * 4 + 4]" using upt_add_eq_append[of 0 "n * 4" 4] by (simp add: add.commute)
  then show ?case using Suc by simp
qed simp

lemma upt_blocks: "[0..<k] = concat (map (\<lambda>i. [i * 4..<i * 4 + 4]) [0..<k div 4]) @ [k div 4 * 4..<k]"
proof -
  have "[0..<k] = [0..<k div 4 * 4] @ [k div 4 * 4..<k]"
    using upt_add_eq_append[of 0 "k div 4 * 4" "k mod 4"] by simp
  then show ?thesis by (simp only: upt_four)
qed

lemma block_bound: "i < k div 4 \<Longrightarrow> i * 4 + 3 < (k::nat)"
  using div_times_less_eq_dividend[of k 4] by linarith

lemma enumerate_map_upt: "enumerate 0 (map f [c..<c + n]) = map (\<lambda>j. (j, f (c + j))) [0..<n]"
  by (rule nth_equalityI) (auto simp: nth_enumerate_eq)

lemma fold_nearest_block:
  "fold (\<lambda>(offset, dist). nearest_step (c + offset) dist) (enumerate 0 (map f [c..<c + n])) s
    = fold (\<lambda>c. nearest_step c (f c)) [c..<c + n] s"
proof -
  have "map (\<lambda>j. c + j) [0..<n] = [c..<c + n]" by (rule nth_equalityI) auto
  then have "fold (\<lambda>c. nearest_step c (f c)) [c..<c + n] s = fold (\<lambda>c. nearest_step c (f c)) (map (\<lambda>j. c + j) [0..<n]) s" by simp
  then show ?thesis by (simp add: enumerate_map_upt fold_map o_def)
qed

lemma fold_concat_map: "fold f (concat (map g xs)) s = fold (\<lambda>x. fold f (g x)) xs s"
  by (induction xs arbitrary: s) auto

lemma find_nearest_eq:
  assumes "probe_shape point centroids k d"
  shows "find_nearest t point centroids k d =
    Inr (fst (fold (\<lambda>c. nearest_step c (cdist t point centroids d c)) [0..<k] (0, f32_MAX)))"
proof -
  let ?f = "cdist t point centroids d" let ?step = "\<lambda>c. nearest_step c (?f c)"
  have "fold_res (\<lambda>i s. bind_res (centroid_four t point centroids d (i * 4)) (\<lambda>distances.
      Inr (fold (\<lambda>(offset, dist). nearest_step (i * 4 + offset) dist) (enumerate 0 distances) s))) [0..<k div 4] s0
    = Inr (fold (\<lambda>i. fold ?step [i * 4..<i * 4 + 4]) [0..<k div 4] s0)" for s0
    by (rule fold_res_Inr) (simp add: centroid_four_eq[OF assms block_bound] fold_nearest_block)
  moreover have "fold_res (\<lambda>c s. bind_res (centroid_one t point centroids d c) (\<lambda>dist. Inr (nearest_step c dist s)))
      [k div 4 * 4..<k] s0 = Inr (fold ?step [k div 4 * 4..<k] s0)" for s0
    by (rule fold_res_Inr) (simp add: centroid_one_eq[OF assms])
  moreover have "fold ?step [0..<k] s0 = fold ?step [k div 4 * 4..<k] (fold (\<lambda>i. fold ?step [i * 4..<i * 4 + 4]) [0..<k div 4] s0)" for s0
    by (subst upt_blocks) (simp add: fold_concat_map)
  ultimately show ?thesis by (simp add: find_nearest_def Let_def)
qed

lemma nearest_fold_spec:
  "let (b, m) = fold (\<lambda>c. nearest_step c (f c)) [0..<k] (0, f32_MAX) in
    (b = 0 \<and> m = f32_MAX \<or> b < k \<and> m = f b \<and> f32_lt m f32_MAX \<and> (\<forall>c < b. f32_lt m (f c) \<or> is_nan (f c)))
    \<and> (\<forall>c < k. \<not> f32_lt (f c) m)"
proof (induction k)
  case (Suc k)
  obtain b m where bm: "fold (\<lambda>c. nearest_step c (f c)) [0..<k] (0, f32_MAX) = (b, m)" by force
  have S: "fold (\<lambda>c. nearest_step c (f c)) [0..<Suc k] (0, f32_MAX) = nearest_step k (f k) (b, m)" using bm by simp
  have m: "\<not> is_nan m" using Suc bm by (auto simp: f32_lt_def f32_cmp_defs)
  show ?case
  proof (cases "f32_lt (f k) m")
    case True
    then have "f32_lt (f k) (f c) \<or> is_nan (f c)" if "c < k" for c using Suc bm that by (auto simp: f32_lt_def)
    moreover have "f32_lt (f k) f32_MAX" using True Suc bm by (auto simp: f32_lt_def)
    moreover have "\<not> f32_lt (f c) (f k)" if "c < Suc k" for c
      using that Suc bm True by (auto simp: f32_lt_def less_Suc_eq)
    ultimately show ?thesis unfolding S using True by (simp add: nearest_step_def)
  next
    case False
    then have "nearest_step k (f k) (b, m) = (b, m)" by (simp add: nearest_step_def)
    then show ?thesis unfolding S using Suc[unfolded bm] False by (auto simp: less_Suc_eq)
  qed
qed simp

lemma find_topk_eq:
  assumes "selects sel" "probe_shape point centroids k d"
  shows "find_topk t sel point centroids k d nprobe =
    (let best = take nprobe (sort (ranked t point centroids k d)) in Inr (map snd best, map fst best))"
proof -
  let ?f = "cdist t point centroids d" let ?pair = "\<lambda>c. (?f c, c)"
  have blk: "map (\<lambda>(offset, distance). (distance, c + offset)) (enumerate 0 (map ?f [c..<c + 4])) = map ?pair [c..<c + 4]" for c
    by (rule nth_equalityI) (auto simp: nth_enumerate_eq)
  have "fold_res (\<lambda>i dists. bind_res (centroid_four t point centroids d (i * 4)) (\<lambda>distances.
      Inr (dists @ map (\<lambda>(offset, distance). (distance, i * 4 + offset)) (enumerate 0 distances)))) [0..<k div 4] []
    = Inr (fold (\<lambda>i dists. dists @ map ?pair [i * 4..<i * 4 + 4]) [0..<k div 4] [])"
    by (rule fold_res_Inr) (simp add: centroid_four_eq[OF assms(2) block_bound] blk)
  moreover have "fold (\<lambda>i dists. dists @ map ?pair [i * 4..<i * 4 + 4]) is ds
      = ds @ map ?pair (concat (map (\<lambda>i. [i * 4..<i * 4 + 4]) is))" for "is" ds
    by (induction "is" arbitrary: ds) auto
  moreover have "map_res (\<lambda>c. bind_res (centroid_one t point centroids d c) (\<lambda>dist. Inr (dist, c))) [k div 4 * 4..<k]
      = Inr (map ?pair [k div 4 * 4..<k])"
    by (rule map_res_Inr_map) (simp add: centroid_one_eq[OF assms(2)])
  moreover have "ranked t point centroids k d = map ?pair (concat (map (\<lambda>i. [i * 4..<i * 4 + 4]) [0..<k div 4])) @ map ?pair [k div 4 * 4..<k]"
    unfolding ranked_def by (subst upt_blocks) simp
  moreover have len: "length (ranked t point centroids k d) = k" by (simp add: ranked_def)
  moreover have "take (min nprobe k) (sort (ranked t point centroids k d)) = take nprobe (sort (ranked t point centroids k d))"
    using len by (simp add: min_def)
  ultimately show ?thesis
    using select_topk_prefix_take[OF assms(1), of "min nprobe k" "ranked t point centroids k d"]
    by (auto simp: find_topk_def Let_def)
qed

section \<open>The checked scan\<close>

text \<open>What the scan keeps of the pairs it has seen: the \<open>n\<close> least of them are among the candidates,
  and once a cutoff is set those \<open>n\<close> are at most the cutoff.\<close>

definition scan_keeps :: "nat \<Rightarrow> (f32 \<times> nat) list \<Rightarrow> topk_scan \<Rightarrow> bool" where
  "scan_keeps n seen s \<longleftrightarrow>
     take n (sort (ts_candidates s)) = take n (sort seen)
   \<and> (ts_cutoff s = (f32_INFINITY, USIZE_MAX)
      \<or> n \<le> length (ts_candidates s) \<and> (\<forall>x \<in> set (take n (sort (ts_candidates s))). x \<le> ts_cutoff s))"

lemma finite_below_infinity: "is_finite x \<Longrightarrow> x < f32_INFINITY"
proof -
  assume x: "is_finite x"
  have i: "scode f32_INFINITY = int F32_INF_CODE" "\<not> is_nan f32_INFINITY" by (simp_all add: f32_cmp_defs)
  have "scode x < int F32_INF_CODE" "\<not> is_nan x" using x by (auto simp: scode_def is_finite_def is_nan_def)
  then show ?thesis using i by (intro f32_lt_less) (simp add: f32_lt_def)
qed

lemma take_sort_snoc:
  "take n (sort xs) = take n (sort ys) \<Longrightarrow> take n (sort (xs @ [x])) = take n (sort (ys @ [x]))"
  unfolding sort_snoc by (metis take_insort_take)

lemma checked_step_keeps:
  assumes sel: "selects sel" and n: "0 < n" and keeps: "scan_keeps n seen s" and fin: "is_finite (fst x)"
  shows "scan_keeps n (seen @ [x]) (checked_step sel n capacity x s)"
proof (cases "x < ts_cutoff s")
  case False
  have "x < (f32_INFINITY, USIZE_MAX)" using finite_below_infinity[OF fin] by (simp add: less_prod_def')
  then have c: "n \<le> length (ts_candidates s)" "\<forall>y \<in> set (take n (sort (ts_candidates s))). y \<le> ts_cutoff s"
    using False keeps unfolding scan_keeps_def by metis+
  have eq: "take n (sort (ts_candidates s)) = take n (sort seen)" using keeps unfolding scan_keeps_def by blast
  have "\<forall>y \<in> set (take n (sort seen)). y \<le> x" using c(2) False eq by fastforce
  then have "insort x (take n (sort seen)) = take n (sort seen) @ [x]"
    by (intro insort_above) (simp_all add: sorted_wrt_take)
  moreover have "length (take n (sort seen)) = n" using c(1) eq by (metis length_sort length_take min.absorb2)
  ultimately have "take n (sort (seen @ [x])) = take n (sort seen)"
    unfolding sort_snoc by (metis append_eq_conv_conj take_insort_take)
  then have "scan_keeps n (seen @ [x]) s" using eq c unfolding scan_keeps_def by simp
  then show ?thesis using False by (simp add: checked_step_def compare_is_less)
next
  case True
  let ?cand = "ts_candidates s @ [x]"
  have eq: "take n (sort ?cand) = take n (sort (seen @ [x]))"
    using keeps unfolding scan_keeps_def by (blast intro: take_sort_snoc)
  show ?thesis
  proof (cases "length ?cand = capacity \<and> n < capacity")
    case trunc: True
    then have l: "n < length ?cand" by simp
    note S = selectsD[OF sel n l]
    have "take n (sort (take n (sel (n - 1) ?cand))) = take n (sort (seen @ [x]))" unfolding S(1) using eq by simp
    moreover have "set (take n (sort (take n (sel (n - 1) ?cand)))) \<subseteq> set (take n (sel (n - 1) ?cand))"
      using set_take_subset[of n "sort (take n (sel (n - 1) ?cand))"] by simp
    ultimately have kept: "take n (sort (take n (sel (n - 1) ?cand))) = take n (sort (seen @ [x]))"
      "\<forall>y \<in> set (take n (sort (take n (sel (n - 1) ?cand)))). y \<le> sel (n - 1) ?cand ! (n - 1)"
      "n \<le> length (take n (sel (n - 1) ?cand))"
      using S(3) subsetD S(4) by (blast, blast, simp)
    have "scan_keeps n (seen @ [x]) \<lparr>ts_candidates = take n (sel (n - 1) ?cand), ts_cutoff = sel (n - 1) ?cand ! (n - 1)\<rparr>"
      unfolding scan_keeps_def topk_scan.simps using kept by blast
    then show ?thesis using True trunc by (simp add: checked_step_def compare_is_less Let_def)
  next
    case False
    have "ts_cutoff s = (f32_INFINITY, USIZE_MAX) \<or> n \<le> length ?cand \<and> (\<forall>y \<in> set (take n (sort ?cand)). y \<le> ts_cutoff s)"
    proof (cases "ts_cutoff s = (f32_INFINITY, USIZE_MAX)")
      case cut: False
      then have c: "n \<le> length (ts_candidates s)" "\<forall>y \<in> set (take n (sort (ts_candidates s))). y \<le> ts_cutoff s"
        using keeps unfolding scan_keeps_def by metis+
      have "take n (sort ?cand) = take n (insort x (take n (sort (ts_candidates s))))"
        unfolding sort_snoc by (simp only: take_insort_take)
      then have "\<forall>y \<in> set (take n (sort ?cand)). y = x \<or> y \<in> set (take n (sort (ts_candidates s)))"
        using set_take_subset set_insort_key by fastforce
      then show ?thesis using c True by fastforce
    qed simp
    then show ?thesis using False True eq
      by (auto simp: checked_step_def compare_is_less scan_keeps_def Let_def)
  qed
qed

lemma checked_loop_keeps:
  assumes "selects sel" "0 < n" "probe_shape point centroids k d" "set cs \<subseteq> {..<k}"
    "\<forall>c \<in> set cs. is_finite (cdist t point centroids d c)" "scan_keeps n seen s"
  shows "\<exists>s'. checked_loop t sel point centroids d n capacity cs s = Inr (Inr s')
    \<and> scan_keeps n (seen @ map (\<lambda>c. (cdist t point centroids d c, c)) cs) s'"
  using assms(4-6)
proof (induction cs arbitrary: s seen)
  case (Cons c cs)
  let ?x = "(cdist t point centroids d c, c)"
  have "scan_keeps n (seen @ [?x]) (checked_step sel n capacity ?x s)"
    using checked_step_keeps[OF assms(1,2) Cons.prems(3)] Cons.prems(2) by simp
  from Cons.IH[OF _ _ this] show ?case
    using centroid_one_eq[OF assms(3)] Cons.prems by simp
qed simp

lemma checked_loop_error:
  assumes "probe_shape point centroids k d" "c < k" "\<not> is_finite (cdist t point centroids d c)"
    "\<forall>b < c. is_finite (cdist t point centroids d b)" "a \<le> c"
  shows "checked_loop t sel point centroids d n capacity [a..<k] s = Inr (Inl c)"
  using assms(5)
proof (induction "c - a" arbitrary: a s)
  case 0
  then have "[a..<k] = c # [Suc c..<k]" using assms(2) by (simp add: upt_conv_Cons)
  then show ?case using centroid_one_eq[OF assms(1,2)] assms(3) by simp
next
  case (Suc m)
  then have u: "[a..<k] = a # [Suc a..<k]" "a < c" using assms(2) by (simp_all add: upt_conv_Cons)
  then show ?case using centroid_one_eq[OF assms(1), of a t] assms(2,4) Suc(1)[of "Suc a"] Suc(2) by simp
qed

lemma find_topk_checked_eq:
  assumes "selects sel" "probe_shape point centroids k d" "\<forall>c < k. is_finite (cdist t point centroids d c)"
  shows "find_topk_checked t sel point centroids k d nprobe = Inr (Inr (take nprobe (sort (ranked t point centroids k d))))"
proof (cases "min nprobe k = 0")
  case True
  then show ?thesis by (cases "k = 0") (simp_all add: find_topk_checked_def ranked_def min_def split: if_splits)
next
  case False
  let ?n = "min nprobe k" let ?s0 = "\<lparr>ts_candidates = [], ts_cutoff = (f32_INFINITY, USIZE_MAX)\<rparr>"
  let ?capacity = "min (saturating_mul ?n 2) k"
  have n: "0 < ?n" using False by simp
  have "scan_keeps ?n [] ?s0" by (simp add: scan_keeps_def)
  moreover have "set [0..<k] \<subseteq> {..<k}" "\<forall>c \<in> set [0..<k]. is_finite (cdist t point centroids d c)" using assms(3) by auto
  ultimately obtain s where s: "checked_loop t sel point centroids d ?n ?capacity [0..<k] ?s0 = Inr (Inr s)"
    "scan_keeps ?n (ranked t point centroids k d) s"
    using checked_loop_keeps[OF assms(1) n assms(2), of "[0..<k]" t "[]" ?s0 ?capacity] unfolding ranked_def append_Nil by blast
  let ?cand = "ts_candidates s"
  have eq: "take ?n (sort ?cand) = take ?n (sort (ranked t point centroids k d))" using s(2) unfolding scan_keeps_def by blast
  have len: "length (ranked t point centroids k d) = k" by (simp add: ranked_def)
  have "sort (if ?n < length ?cand then take ?n (sel (?n - 1) ?cand) else ?cand) = take ?n (sort ?cand)"
  proof (cases "?n < length ?cand")
    case True
    then show ?thesis using selectsD(1)[OF assms(1) n True] by simp
  next
    case False
    then have "length (sort ?cand) \<le> ?n" by (simp only: length_sort not_less)
    then show ?thesis using False by (simp only: if_False take_all)
  qed
  moreover have "take ?n (sort (ranked t point centroids k d)) = take nprobe (sort (ranked t point centroids k d))"
    using len by (simp add: min_def)
  ultimately show ?thesis unfolding find_topk_checked_def Let_def if_not_P[OF False] s(1) bind_res_Inr sum.case using eq by simp
qed

lemma block_of_budget:
  assumes "rows \<le> max (budget div max k 1) (1::nat)" "0 < rows"
  shows "rows = 1 \<or> rows * k \<le> budget"
proof (cases "rows = 1")
  case False
  then have "1 < rows" using assms(2) by simp
  then have "rows \<le> budget div max k 1" using assms(1) by (metis le_max_iff_disj not_less)
  then have "rows * max k 1 \<le> budget" by (metis div_times_less_eq_dividend mult_le_mono1 order_trans)
  then show ?thesis by (meson max.cobounded1 mult_le_mono2 order_trans)
qed simp

lemma plan_bounds:
  shows "0 < fst (assignment_block_plan n d k threads)"
    and "fst (assignment_block_plan n d k threads) \<le> max (MAX_MATRIX_ELEMS div max k 1) 1"
    and "snd (assignment_block_plan n d k threads) \<Longrightarrow>
    fst (assignment_block_plan n d k threads) \<le> max (MAX_MATRIX_ELEMS div threads div max k 1) 1"
proof -
  define mx where "mx = max (MAX_MATRIX_ELEMS div max k 1) 1"
  define bd where "bd = max (MAX_MATRIX_ELEMS div threads div max k 1) 1"
  define mr where "mr = min (max MIN_BLOCK_ROWS (div_ceil MIN_BLOCK_FLOPS (max (saturating_mul (saturating_mul k d) 2) 1))) mx"
  define tb where "tb = div_ceil n TARGET_BLOCKS"
  have P: "assignment_block_plan n d k threads = (if threads \<le> 1 then (mx, False)
      else if min bd mx < mr then (min bd mx, False) else (min (min (max tb mr) mx) (min bd mx), True))"
    unfolding assignment_block_plan_def Let_def mr_def mx_def bd_def tb_def ..
  have pos: "0 < mx" "0 < bd" unfolding mx_def bd_def by (simp_all add: less_max_iff_disj)
  then have "0 < mr" unfolding mr_def by (simp add: MIN_BLOCK_ROWS_def less_max_iff_disj)
  then show "0 < fst (assignment_block_plan n d k threads)" unfolding P using pos by (simp add: less_max_iff_disj)
  show "fst (assignment_block_plan n d k threads) \<le> max (MAX_MATRIX_ELEMS div max k 1) 1" unfolding P mx_def[symmetric] by (simp add: min_le_iff_disj)
  show "fst (assignment_block_plan n d k threads) \<le> max (MAX_MATRIX_ELEMS div threads div max k 1) 1"
    if "snd (assignment_block_plan n d k threads)"
    using that unfolding P bd_def[symmetric] by (simp add: min_le_iff_disj split: if_splits)
qed

lemma chunks_exact_lengths: "c \<in> set (chunks_exact n xs) \<Longrightarrow> length c = n"
  by (induction n xs rule: chunks_exact.induct) (subst (asm) chunks_exact.simps, auto split: if_splits)

lemma map_res_all:
  "(\<And>x. x \<in> set xs \<Longrightarrow> f x = (if P x then Inr (g x) else Inl e)) \<Longrightarrow>
    map_res f xs = (if \<forall>x \<in> set xs. P x then Inr (map g xs) else Inl e)"
  by (induction xs) simp_all

lemma find_topk_checked_find:
  assumes "selects sel" "probe_shape point centroids k d"
  shows "find_topk_checked t sel point centroids k d nprobe =
    (if nprobe = 0 then Inr (Inr [])
     else case find (\<lambda>c. \<not> is_finite (cdist t point centroids d c)) [0..<k] of
       None \<Rightarrow> Inr (Inr (take nprobe (sort (ranked t point centroids k d))))
     | Some c \<Rightarrow> Inr (Inl c))"
proof (cases "find (\<lambda>c. \<not> is_finite (cdist t point centroids d c)) [0..<k]")
  case None
  then have "\<forall>c < k. is_finite (cdist t point centroids d c)" by (auto simp: find_None_iff)
  then show ?thesis using find_topk_checked_eq[OF assms] None by simp
next
  case (Some c)
  then have c: "c < k" "\<not> is_finite (cdist t point centroids d c)" "\<forall>b < c. is_finite (cdist t point centroids d b)"
    by (auto simp: find_Some_iff)
  show ?thesis
  proof (cases "nprobe = 0")
    case False
    then have n: "min nprobe k \<noteq> 0" using c(1) by simp
    show ?thesis unfolding find_topk_checked_def Let_def if_not_P[OF n] checked_loop_error[OF assms(2) c le0]
      using Some False by simp
  qed (simp add: find_topk_checked_def)
qed

lemma probe_checked:
  assumes "selects sel" "probe_shape q centroids k d" "0 < nprobe"
  shows "bind_res (find_topk_checked t sel q centroids k d nprobe)
      (\<lambda>r. case r of Inr rows \<Rightarrow> Inr (map snd rows) | Inl _ \<Rightarrow> Inl (Err InvalidData))
    = (if \<forall>c < k. is_finite (cdist t q centroids d c)
       then Inr (map snd (take nprobe (sort (ranked t q centroids k d)))) else Inl (Err InvalidData))"
proof (cases "find (\<lambda>c. \<not> is_finite (cdist t q centroids d c)) [0..<k]")
  case None
  then have "\<forall>c < k. is_finite (cdist t q centroids d c)" by (auto simp: find_None_iff)
  then show ?thesis using assms(3) None unfolding find_topk_checked_find[OF assms(1,2)] by simp
next
  case (Some c)
  then have "\<not> (\<forall>c < k. is_finite (cdist t q centroids d c))" by (auto simp: find_Some_iff)
  then show ?thesis using assms(3) Some unfolding find_topk_checked_find[OF assms(1,2)] by simp
qed

section \<open>Properties\<close>

text \<open>\<open>find_nearest\<close> returns the first centroid of least distance among those below \<open>f32::MAX\<close>,
  the blocks of four notwithstanding: no centroid is nearer, every earlier one is farther or has a
  NaN distance. It returns 0 when no distance is below \<open>f32::MAX\<close>.\<close>

theorem find_nearest_first_minimum:
  assumes "probe_shape point centroids k d"
  shows "\<exists>b. find_nearest t point centroids k d = Inr b
    \<and> (if \<exists>c < k. f32_lt (cdist t point centroids d c) f32_MAX
       then b < k \<and> (\<forall>c < k. \<not> f32_lt (cdist t point centroids d c) (cdist t point centroids d b))
         \<and> (\<forall>c < b. f32_lt (cdist t point centroids d b) (cdist t point centroids d c) \<or> is_nan (cdist t point centroids d c))
       else b = 0)"
proof -
  let ?f = "cdist t point centroids d"
  obtain b m where bm: "fold (\<lambda>c. nearest_step c (?f c)) [0..<k] (0, f32_MAX) = (b, m)" by force
  have S: "b = 0 \<and> m = f32_MAX \<or> b < k \<and> m = ?f b \<and> f32_lt m f32_MAX \<and> (\<forall>c < b. f32_lt m (?f c) \<or> is_nan (?f c))"
    "\<forall>c < k. \<not> f32_lt (?f c) m"
    using nearest_fold_spec[of ?f k] unfolding bm Let_def by auto
  show ?thesis using S unfolding find_nearest_eq[OF assms] bm fst_conv by (intro exI[of _ b]) auto
qed

lemma cdist_eval [f32_eval]:
  "cdist OtherArch [f32_one] [f32_zero, f32_one] 1 0 = f32_one" "cdist OtherArch [f32_one] [f32_zero, f32_one] 1 1 = f32_zero"
  by (simp_all add: cdist_def row_of_def slice_def l2_eval f32_eval)

lemmas cdist_eval_Suc [f32_eval] = cdist_eval [unfolded One_nat_def]

lemma two_centroids: "probe_shape [f32_one] [f32_zero, f32_one] 2 1" "\<not> f32_one < f32_zero" "f32_zero < f32_one"
  "\<not> f32_one \<le> f32_zero" "[0..<2] = [0, 1 :: nat]"
  using f32_lt_less[OF f32_lt_zero_one(1)] by (simp_all add: probe_shape_def upt_rec)

theorem find_nearest_first_minimum_witness: "find_nearest OtherArch [f32_one] [f32_zero, f32_one] 2 1 = Inr 1"
proof -
  let ?f = "cdist OtherArch [f32_one] [f32_zero, f32_one] 1"
  have lt: "f32_lt f32_zero f32_MAX" by (simp add: f32_cmp_defs)
  have ex: "\<exists>c < 2. f32_lt (?f c) f32_MAX" by (rule exI[of _ 1]) (simp only: cdist_eval lt, simp)
  obtain b where b: "find_nearest OtherArch [f32_one] [f32_zero, f32_one] 2 1 = Inr b" "b < 2"
    "\<forall>c < 2. \<not> f32_lt (?f c) (?f b)"
    using find_nearest_first_minimum[OF two_centroids(1), of OtherArch] ex unfolding if_P[OF ex] by blast
  have "b \<noteq> 0" using b(3) f32_lt_zero_one(1) cdist_eval by (metis one_less_numeral_iff semiring_norm(76))
  then show ?thesis using b(1,2) by (simp add: less_2_cases_iff)
qed

text \<open>C38: \<open>find_topk\<close> returns the \<open>nprobe\<close> nearest centroids in order of distance and then of index
  (all of them when there are fewer), whatever order \<open>select_nth_unstable_by\<close> leaves.\<close>

theorem find_topk_ranks:
  assumes "selects sel" "probe_shape point centroids k d"
  shows "find_topk t sel point centroids k d nprobe =
    Inr (map snd (take nprobe (sort (ranked t point centroids k d))), map fst (take nprobe (sort (ranked t point centroids k d))))"
  using find_topk_eq[OF assms] by (simp add: Let_def)

lemma ranked_two [unfolded One_nat_def, simp]: "sort (ranked OtherArch [f32_one] [f32_zero, f32_one] 2 1) = [(f32_zero, 1), (f32_one, 0)]"
  unfolding ranked_def two_centroids(5) using two_centroids by (simp add: f32_eval less_eq_prod_def)

theorem find_topk_ranks_witness:
  "find_topk OtherArch (\<lambda>n. sort) [f32_one] [f32_zero, f32_one] 2 1 1 = Inr ([1], [f32_zero])"
  using find_topk_ranks[OF selects_sort two_centroids(1), of OtherArch 1] by simp

text \<open>C37: The checked ranking, which prunes with a moving cutoff, gives the same ranking when every
  distance is finite, and otherwise names the first centroid whose distance is not.\<close>

theorem find_topk_checked_exact:
  assumes "selects sel" "probe_shape point centroids k d"
  shows "find_topk_checked t sel point centroids k d nprobe =
    (if nprobe = 0 then Inr (Inr [])
     else case find (\<lambda>c. \<not> is_finite (cdist t point centroids d c)) [0..<k] of
       None \<Rightarrow> Inr (Inr (take nprobe (sort (ranked t point centroids k d))))
     | Some c \<Rightarrow> Inr (Inl c))"
  using assms by (rule find_topk_checked_find)

theorem find_topk_checked_exact_witness:
  "find_topk_checked OtherArch (\<lambda>n. sort) [f32_one] [f32_zero, f32_one] 2 1 1 = Inr (Inr [(f32_zero, 1)])"
  using find_topk_checked_exact[OF selects_sort two_centroids(1), of OtherArch 1]
  unfolding two_centroids(5) by (simp add: f32_eval)

text \<open>A block of the assignment kernel is never empty and never needs a larger inner-product
  matrix than the scratch budget, unless a single row already does; blocks that run in parallel
  share the budget.\<close>

theorem assignment_block_plan_bounded:
  assumes "assignment_block_plan n d k threads = (rows, parallel)"
  shows "0 < rows \<and> (rows = 1 \<or> rows * k \<le> MAX_MATRIX_ELEMS)
    \<and> (parallel \<longrightarrow> rows = 1 \<or> threads * (rows * k) \<le> MAX_MATRIX_ELEMS)"
proof -
  have B1: "0 < rows" using plan_bounds(1)[of n d k threads] unfolding assms fst_conv .
  have B2: "rows \<le> max (MAX_MATRIX_ELEMS div max k 1) 1" using plan_bounds(2)[of n d k threads] unfolding assms fst_conv .
  have B3: "rows \<le> max (MAX_MATRIX_ELEMS div threads div max k 1) 1" if parallel
    using plan_bounds(3)[of n d k threads] that unfolding assms fst_conv snd_conv .
  have "threads * (rows * k) \<le> MAX_MATRIX_ELEMS" if "rows * k \<le> MAX_MATRIX_ELEMS div threads"
    using order_trans[OF mult_le_mono2[OF that] times_div_less_eq_dividend] .
  then show ?thesis using B1 block_of_budget[OF B2 B1] block_of_budget[OF B3 B1] by blast
qed

theorem assignment_block_plan_bounded_witness:
  "assignment_block_plan 1000000 8 4096 4 = (256, True) \<and> 4 * (256 * 4096) \<le> MAX_MATRIX_ELEMS"
proof -
  have p: "assignment_block_plan 1000000 8 4096 4 = (256, True)"
    by (simp add: assignment_block_plan_def Let_def MAX_MATRIX_ELEMS_def MIN_BLOCK_ROWS_def MIN_BLOCK_FLOPS_def
        TARGET_BLOCKS_def saturating_mul_def div_ceil_def)
  show ?thesis using p assignment_block_plan_bounded[OF p] by simp
qed

end
