(* ===== verification/Flat_Index.thy ===== *)
theory Flat_Index
  imports Flat_Scan Probe
begin

text \<open>
  \<open>core/src/ivfflat.rs\<close>: the in-memory IVF-FLAT index. The coarse assignment, which may use a graph
  over the centroids, is the argument \<open>assign\<close> of \<open>flat_add\<close>: a function of the preprocessed vectors,
  their number and the centroids. Nothing below depends on which list it chooses.
\<close>

record IVFFlatIndex =
  fi_d :: nat
  fi_nlist :: nat
  fi_metric :: MetricType
  fi_quantizer_centroids :: "f32 list"
  fi_ids :: "i64 list list"
  fi_vectors :: "f32 list list"

definition flat_new :: "nat \<Rightarrow> nat \<Rightarrow> MetricType \<Rightarrow> IVFFlatIndex" where
  "flat_new d nlist metric =
     \<lparr>fi_d = d, fi_nlist = nlist, fi_metric = metric, fi_quantizer_centroids = [],
      fi_ids = replicate nlist [], fi_vectors = replicate nlist []\<rparr>"

definition flat_set_quantizer_centroids :: "f32 list \<Rightarrow> IVFFlatIndex \<Rightarrow> IVFFlatIndex res" where
  "flat_set_quantizer_centroids centroids index =
     (if length centroids \<noteq> fi_nlist index * fi_d index then Inl Panic
      else if \<not> list_all (\<lambda>ids. ids = []) (fi_ids index) then Inl Panic
      else Inr (index\<lparr>fi_quantizer_centroids := centroids\<rparr>))"

definition flat_preprocess_vectors :: "arch \<Rightarrow> f32 list \<Rightarrow> nat \<Rightarrow> IVFFlatIndex \<Rightarrow> f32 list res" where
  "flat_preprocess_vectors t data n index = preprocess_vectors t data n (fi_d index) (fi_metric index)"

type_synonym assigner = "f32 list \<Rightarrow> nat \<Rightarrow> f32 list \<Rightarrow> nat list"

text \<open>The body of the loop of \<open>add\<close>: row \<open>i\<close> goes to the end of its list.\<close>

definition flat_add_row :: "f32 list \<Rightarrow> i64 list \<Rightarrow> nat list \<Rightarrow> nat \<Rightarrow> IVFFlatIndex \<Rightarrow> IVFFlatIndex res" where
  "flat_add_row processed ids list_ids i index =
     bind_res (subslice (i * fi_d index) ((i + 1) * fi_d index) processed) (\<lambda>vector.
     bind_res (idx list_ids i) (\<lambda>list_id.
     bind_res (idx (fi_ids index) list_id) (\<lambda>old_ids.
     bind_res (idx ids i) (\<lambda>row.
     bind_res (idx (fi_vectors index) list_id) (\<lambda>old_vectors.
       Inr (index\<lparr>fi_ids := (fi_ids index)[list_id := old_ids @ [row]],
                  fi_vectors := (fi_vectors index)[list_id := old_vectors @ vector]\<rparr>))))))"

definition flat_add :: "arch \<Rightarrow> assigner \<Rightarrow> f32 list \<Rightarrow> i64 list \<Rightarrow> nat \<Rightarrow> IVFFlatIndex \<Rightarrow> IVFFlatIndex res" where
  "flat_add t assign data ids n index =
     bind_res (flat_preprocess_vectors t data n index) (\<lambda>processed.
       let list_ids = assign processed n (fi_quantizer_centroids index)
       in fold_res (flat_add_row processed ids list_ids) [0..<n] index)"

definition flat_total_vectors :: "IVFFlatIndex \<Rightarrow> nat" where
  "flat_total_vectors index = sum_list (map length (fi_ids index))"

text \<open>The scan of one probed list into the heap of a query.\<close>

definition flat_scan_list ::
  "arch \<Rightarrow> query_distance \<Rightarrow> nat \<Rightarrow> row_filter \<Rightarrow> i64 list \<Rightarrow> f32 list \<Rightarrow> FlatTopKHeap \<Rightarrow> FlatTopKHeap res" where
  "flat_scan_list t distance d row_filter ids vectors heap =
     fold_res (\<lambda>(local_idx, row) h.
       if \<not> row_passes row_filter row then Inr h
       else bind_res (subslice (local_idx * d) ((local_idx + 1) * d) vectors) (\<lambda>vector.
         bind_res (distance_to t distance vector None) (\<lambda>dist. Inr (flat_heap_push dist row h))))
       (enumerate 0 ids) heap"

definition flat_search_query ::
  "arch \<Rightarrow> f32 list \<Rightarrow> nat \<Rightarrow> nat list \<Rightarrow> row_filter \<Rightarrow> IVFFlatIndex \<Rightarrow> (f32 \<times> i64) list res" where
  "flat_search_query t query k probe_indices row_filter index =
     (let distance = query_distance_new t query (fi_metric index) in
      bind_res (fold_res (\<lambda>list_id heap.
          bind_res (idx (fi_ids index) list_id) (\<lambda>ids.
          bind_res (idx (fi_vectors index) list_id) (\<lambda>vectors.
            flat_scan_list t distance (fi_d index) row_filter ids vectors heap))) probe_indices (flat_heap_new k))
        (\<lambda>heap. Inr (flat_heap_into_sorted heap)))"

text \<open>Writing a query's row of the two result arrays; a row past their end is a panic.\<close>

definition write_row :: "nat \<Rightarrow> 'a list \<Rightarrow> 'a list \<Rightarrow> 'a list res" where
  "write_row base row out =
     (if row = [] then Inr out
      else if base + length row \<le> length out then Inr (take base out @ row @ drop (base + length row) out)
      else Inl Panic)"

definition flat_search_with_filter ::
  "arch \<Rightarrow> selector \<Rightarrow> gemm \<Rightarrow> f32 list \<Rightarrow> nat \<Rightarrow> nat \<Rightarrow> nat \<Rightarrow> row_filter \<Rightarrow> IVFFlatIndex \<Rightarrow>
   f32 list \<times> i64 list \<Rightarrow> (f32 list \<times> i64 list) res" where
  "flat_search_with_filter t sel gemm queries nq k nprobe row_filter index results0 =
     bind_res (flat_preprocess_vectors t queries nq index) (\<lambda>processed_queries.
     bind_res (find_topk_batch t sel gemm processed_queries nq (fi_quantizer_centroids index) (fi_nlist index)
       (fi_d index) nprobe) (\<lambda>probes.
     fold_res (\<lambda>qi (result_distances, result_labels).
         bind_res (subslice (qi * fi_d index) ((qi + 1) * fi_d index) processed_queries) (\<lambda>query.
         bind_res (idx probes qi) (\<lambda>probe.
         bind_res (flat_search_query t query k (fst probe) row_filter index) (\<lambda>sorted.
         bind_res (write_row (qi * k) (resize k f32_MAX (map fst sorted)) result_distances) (\<lambda>distances.
         bind_res (write_row (qi * k) (resize k (- 1) (map snd sorted)) result_labels) (\<lambda>labels.
           Inr (distances, labels)))))))
       [0..<nq] results0))"

definition flat_search ::
  "arch \<Rightarrow> selector \<Rightarrow> gemm \<Rightarrow> f32 list \<Rightarrow> nat \<Rightarrow> nat \<Rightarrow> nat \<Rightarrow> IVFFlatIndex \<Rightarrow>
   f32 list \<times> i64 list \<Rightarrow> (f32 list \<times> i64 list) res" where
  "flat_search t sel gemm queries nq k nprobe index results0 =
     flat_search_with_filter t sel gemm queries nq k nprobe None index results0"

section \<open>The shape of an index\<close>

definition flat_index_inv :: "IVFFlatIndex \<Rightarrow> bool" where
  "flat_index_inv index \<longleftrightarrow>
     length (fi_ids index) = fi_nlist index \<and> length (fi_vectors index) = fi_nlist index
   \<and> (\<forall>l < fi_nlist index. length (fi_vectors index ! l) = length (fi_ids index ! l) * fi_d index)"

lemma flat_new_inv: "flat_index_inv (flat_new d nlist metric)"
  by (simp add: flat_index_inv_def flat_new_def)

text \<open>The rows of a list, each with its vector.\<close>

definition list_rows :: "IVFFlatIndex \<Rightarrow> nat \<Rightarrow> (i64 \<times> f32 list) list" where
  "list_rows index l = map (\<lambda>(i, row). (row, row_of (fi_d index) (fi_vectors index ! l) i)) (enumerate 0 (fi_ids index ! l))"

lemma row_of_append:
  assumes "length vs = n * d" "length v = d"
  shows "i < n \<Longrightarrow> row_of d (vs @ v) i = row_of d vs i" "row_of d (vs @ v) n = v"
proof -
  assume "i < n"
  then have "(i + 1) * d \<le> length vs" using assms(1) by (metis Suc_eq_plus1 Suc_leI mult_le_mono1)
  then show "row_of d (vs @ v) i = row_of d vs i" by (simp add: row_of_def slice_append_left)
next
  show "row_of d (vs @ v) n = v" using assms by (simp add: row_of_def slice_def)
qed

lemma flat_add_row_spec:
  assumes inv: "flat_index_inv index" and i: "i < n" and len: "length processed = n * fi_d index" "length ids = n"
    "length list_ids = n" "list_ids ! i < fi_nlist index"
  shows "\<exists>index'. flat_add_row processed ids list_ids i index = Inr index' \<and> flat_index_inv index'
    \<and> fi_d index' = fi_d index \<and> fi_nlist index' = fi_nlist index \<and> fi_metric index' = fi_metric index
    \<and> fi_quantizer_centroids index' = fi_quantizer_centroids index
    \<and> (\<forall>l < fi_nlist index. list_rows index' l = list_rows index l
         @ (if l = list_ids ! i then [(ids ! i, row_of (fi_d index) processed i)] else []))"
proof -
  let ?l = "list_ids ! i" let ?d = "fi_d index" let ?v = "row_of ?d processed i"
  let ?index = "index\<lparr>fi_ids := (fi_ids index)[?l := fi_ids index ! ?l @ [ids ! i]],
      fi_vectors := (fi_vectors index)[?l := fi_vectors index ! ?l @ ?v]\<rparr>"
  have I: "length (fi_ids index) = fi_nlist index" "length (fi_vectors index) = fi_nlist index"
    "length (fi_vectors index ! l) = length (fi_ids index ! l) * ?d" if "l < fi_nlist index" for l
    using inv that by (auto simp: flat_index_inv_def)
  have v: "length ?v = ?d" by (rule length_row_of[OF len(1) i])
  have "flat_add_row processed ids list_ids i index = Inr ?index"
    using subslice_row_of[OF len(1) i] i len I[OF len(4)] by (simp add: flat_add_row_def idx_def)
  moreover have "flat_index_inv ?index" using inv len(4) v by (auto simp: flat_index_inv_def nth_list_update)
  moreover have "list_rows ?index l = list_rows index l @ (if l = ?l then [(ids ! i, ?v)] else [])" if l: "l < fi_nlist index" for l
  proof (cases "l = ?l")
    case True
    have "map (\<lambda>(j, row). (row, row_of ?d (fi_vectors index ! ?l @ ?v) j)) (enumerate 0 (fi_ids index ! ?l))
        = list_rows index ?l"
      using row_of_append(1)[OF I(3)[OF len(4)] v] by (auto simp: list_rows_def in_set_enumerate_eq)
    then show ?thesis using True I(1,2)[OF l] l row_of_append(2)[OF I(3)[OF len(4)] v]
      by (simp add: list_rows_def enumerate_append_eq)
  next
    case False
    then show ?thesis by (simp add: list_rows_def)
  qed
  ultimately show ?thesis by (intro exI[of _ ?index]) simp
qed

lemma flat_add_rows:
  assumes "flat_index_inv index" "length processed = n * fi_d index" "length ids = n" "length list_ids = n"
    "\<forall>i < n. list_ids ! i < fi_nlist index" "m \<le> n"
  shows "\<exists>index'. fold_res (flat_add_row processed ids list_ids) [0..<m] index = Inr index' \<and> flat_index_inv index'
    \<and> fi_d index' = fi_d index \<and> fi_nlist index' = fi_nlist index \<and> fi_metric index' = fi_metric index
    \<and> fi_quantizer_centroids index' = fi_quantizer_centroids index
    \<and> (\<forall>l < fi_nlist index. list_rows index' l = list_rows index l
         @ map (\<lambda>i. (ids ! i, row_of (fi_d index) processed i)) (filter (\<lambda>i. list_ids ! i = l) [0..<m]))"
  using assms(6)
proof (induction m)
  case 0
  then show ?case using assms(1) by auto
next
  case (Suc m)
  then obtain index1 where I1: "fold_res (flat_add_row processed ids list_ids) [0..<m] index = Inr index1"
    "flat_index_inv index1" "fi_d index1 = fi_d index" "fi_nlist index1 = fi_nlist index"
    "fi_metric index1 = fi_metric index" "fi_quantizer_centroids index1 = fi_quantizer_centroids index"
    "\<And>l. l < fi_nlist index \<Longrightarrow> list_rows index1 l = list_rows index l
       @ map (\<lambda>i. (ids ! i, row_of (fi_d index) processed i)) (filter (\<lambda>i. list_ids ! i = l) [0..<m])"
    by auto
  have m: "m < n" using Suc.prems by simp
  obtain index2 where I2: "flat_add_row processed ids list_ids m index1 = Inr index2" "flat_index_inv index2"
    "fi_d index2 = fi_d index" "fi_nlist index2 = fi_nlist index" "fi_metric index2 = fi_metric index"
    "fi_quantizer_centroids index2 = fi_quantizer_centroids index"
    "\<And>l. l < fi_nlist index \<Longrightarrow> list_rows index2 l = list_rows index1 l
       @ (if l = list_ids ! m then [(ids ! m, row_of (fi_d index) processed m)] else [])"
    using flat_add_row_spec[OF I1(2) m, of processed ids list_ids] assms(2-5) I1(3-6) m by auto
  have "fold_res (flat_add_row processed ids list_ids) [0..<Suc m] index = Inr index2"
    using I1(1) I2(1) by (simp add: fold_res_append)
  moreover have "list_rows index2 l = list_rows index l
      @ map (\<lambda>i. (ids ! i, row_of (fi_d index) processed i)) (filter (\<lambda>i. list_ids ! i = l) [0..<Suc m])"
    if "l < fi_nlist index" for l
    using I1(7)[OF that] I2(7)[OF that] by auto
  ultimately show ?case using I2(2-6) by blast
qed

lemma length_list_rows: "length (list_rows index l) = length (fi_ids index ! l)"
  by (simp add: list_rows_def)

lemma flat_total_rows:
  "flat_index_inv index \<Longrightarrow> flat_total_vectors index = (\<Sum>l<fi_nlist index. length (list_rows index l))"
  by (simp add: flat_total_vectors_def length_list_rows sum_list_sum_nth flat_index_inv_def lessThan_atLeast0)

section \<open>Searching\<close>

definition list_offers :: "arch \<Rightarrow> f32 list \<Rightarrow> row_filter \<Rightarrow> IVFFlatIndex \<Rightarrow> nat \<Rightarrow> (f32 \<times> i64) list" where
  "list_offers t query row_filter index l =
     map prod.swap (flat_offers t query (fi_ids index ! l) (fi_vectors index ! l) (fi_d index) (fi_metric index) row_filter)"

lemma flat_scan_list_eq:
  assumes "length query = d" "length vectors = length ids * d"
  shows "flat_scan_list t (query_distance_new t query metric) d row_filter ids vectors heap =
    Inr (flat_push_all (map prod.swap (flat_offers t query ids vectors d metric row_filter)) heap)"
proof -
  have "fold_res (\<lambda>(local_idx, row) h.
       if \<not> row_passes row_filter row then Inr h
       else bind_res (subslice (local_idx * d) ((local_idx + 1) * d) vectors) (\<lambda>vector.
         bind_res (distance_to t (query_distance_new t query metric) vector None) (\<lambda>dist. Inr (flat_heap_push dist row h)))) xs heap
    = Inr (flat_push_all (map prod.swap (map (\<lambda>(i, row). (row, row_distance t query metric (row_of d vectors i)))
        (filter (\<lambda>(i, row). row_passes row_filter row) xs))) heap)"
    if "\<forall>(i, row) \<in> set xs. i < length ids" for xs
    using that
  proof (induction xs arbitrary: heap)
    case (Cons x xs)
    obtain i row where x: "x = (i, row)" by (cases x)
    have i: "i < length ids" using Cons.prems x by simp
    show ?case using Cons x subslice_row_of[OF assms(2) i] distance_to_row[OF assms(1) length_row_of[OF assms(2) i]]
      by (simp add: flat_push_all_def)
  qed (simp add: flat_push_all_def)
  moreover have "\<forall>(i, row) \<in> set (enumerate 0 ids). i < length ids" by (auto simp: in_set_enumerate_eq)
  ultimately show ?thesis unfolding flat_scan_list_def flat_offers_def by blast
qed

lemma flat_search_query_eq:
  assumes "flat_index_inv index" "length query = fi_d index" "\<forall>l \<in> set probe. l < fi_nlist index"
  shows "flat_search_query t query k probe row_filter index =
    Inr (flat_heap_into_sorted (flat_push_all (concat (map (list_offers t query row_filter index) probe)) (flat_heap_new k)))"
proof -
  have "fold_res (\<lambda>list_id heap. bind_res (idx (fi_ids index) list_id) (\<lambda>ids. bind_res (idx (fi_vectors index) list_id) (\<lambda>vectors.
      flat_scan_list t (query_distance_new t query (fi_metric index)) (fi_d index) row_filter ids vectors heap))) probe heap
    = Inr (fold (\<lambda>l. flat_push_all (list_offers t query row_filter index l)) probe heap)" for heap
    using assms by (intro fold_res_Inr) (simp add: idx_def flat_index_inv_def flat_scan_list_eq list_offers_def)
  moreover have "fold (\<lambda>l. flat_push_all (list_offers t query row_filter index l)) probe heap
      = flat_push_all (concat (map (list_offers t query row_filter index) probe)) heap" for heap
    by (induction probe arbitrary: heap) (simp_all add: flat_push_all_def)
  ultimately show ?thesis by (simp add: flat_search_query_def)
qed

definition assigns :: "assigner \<Rightarrow> nat \<Rightarrow> nat \<Rightarrow> nat \<Rightarrow> f32 list \<Rightarrow> bool" where
  "assigns assign n nlist d centroids \<longleftrightarrow> (\<forall>processed. length processed = n * d \<longrightarrow>
     length (assign processed n centroids) = n \<and> (\<forall>i < n. assign processed n centroids ! i < nlist))"

lemma length_concat_chunks: "0 < d \<Longrightarrow> length (concat (map f (chunks_exact d xs))) = length xs div d * d"
  if "\<And>x. length (f x) = length x"
proof (induction d xs rule: chunks_exact.induct)
  case (1 d xs)
  show ?case
  proof (cases "length xs < d")
    case False
    then have "length (concat (map f (chunks_exact d (drop d xs)))) = (length xs - d) div d * d" using 1 by simp
    then show ?thesis using False 1(2) that by (subst chunks_exact.simps) (simp add: le_div_geq)
  qed (subst chunks_exact.simps, simp)
qed

lemma preprocess_total:
  assumes "n * d \<le> length data"
  shows "\<exists>processed. preprocess_vectors t data n d metric = Inr processed \<and> length processed = n * d"
proof (cases "metric = Cosine \<and> 0 < d")
  case True
  have "length (fst (fvec_normalize t x)) = length x" for x by (simp add: fvec_normalize_def Let_def)
  from length_concat_chunks[OF this, of d "slice 0 (n * d) data"] show ?thesis
    using True assms by (auto simp: preprocess_vectors_def subslice_def)
next
  case False
  then show ?thesis using assms by (auto simp: preprocess_vectors_def subslice_def)
qed

lemma sum_fibres: "\<forall>i < n. f i < (N::nat) \<Longrightarrow> (\<Sum>l<N. length (filter (\<lambda>i. f i = l) [0..<n])) = (n::nat)"
proof (induction n)
  case (Suc n)
  have "length (filter (\<lambda>i. f i = l) [0..<Suc n]) = length (filter (\<lambda>i. f i = l) [0..<n]) + (if f n = l then 1 else 0)" for l
    by simp
  then have "(\<Sum>l<N. length (filter (\<lambda>i. f i = l) [0..<Suc n])) = n + (\<Sum>l<N. if f n = l then 1 else 0)"
    using Suc by (simp add: sum.distrib)
  moreover have "f n < N" using Suc.prems by simp
  then have "(\<Sum>l<N. if f n = l then 1 else 0) = (1::nat)" by simp
  ultimately show ?case by simp
qed simp

section \<open>Properties\<close>

text \<open>C35: Adding n vectors keeps the index well formed and stores every one of them, preprocessed, at
  the end of the list it was assigned to, in the order given; no other row changes and the number
  of vectors grows by n. This holds for every coarse assignment that names existing lists.\<close>

theorem flat_add_stores_rows:
  assumes "flat_index_inv index" "n * fi_d index \<le> length data" "length ids = n"
    and "assigns assign n (fi_nlist index) (fi_d index) (fi_quantizer_centroids index)"
  shows "\<exists>processed index'. preprocess_vectors t data n (fi_d index) (fi_metric index) = Inr processed
    \<and> flat_add t assign data ids n index = Inr index' \<and> flat_index_inv index'
    \<and> (\<forall>l < fi_nlist index. list_rows index' l = list_rows index l
         @ map (\<lambda>i. (ids ! i, row_of (fi_d index) processed i))
             (filter (\<lambda>i. assign processed n (fi_quantizer_centroids index) ! i = l) [0..<n]))
    \<and> flat_total_vectors index' = flat_total_vectors index + n"
proof -
  obtain processed where P: "preprocess_vectors t data n (fi_d index) (fi_metric index) = Inr processed"
    "length processed = n * fi_d index" using preprocess_total[OF assms(2)] by blast
  let ?lists = "assign processed n (fi_quantizer_centroids index)"
  have A: "length ?lists = n" "\<forall>i < n. ?lists ! i < fi_nlist index" using assms(4) P(2) by (auto simp: assigns_def)
  obtain index' where I: "fold_res (flat_add_row processed ids ?lists) [0..<n] index = Inr index'" "flat_index_inv index'"
    "fi_nlist index' = fi_nlist index"
    "\<And>l. l < fi_nlist index \<Longrightarrow> list_rows index' l = list_rows index l
      @ map (\<lambda>i. (ids ! i, row_of (fi_d index) processed i)) (filter (\<lambda>i. ?lists ! i = l) [0..<n])"
    using flat_add_rows[OF assms(1) P(2) assms(3) A order_refl] by blast
  have "flat_total_vectors index' = flat_total_vectors index + n"
    using I(3,4) sum_fibres[OF A(2)]
    by (simp add: flat_total_rows[OF assms(1)] flat_total_rows[OF I(2)] sum.distrib)
  moreover have "flat_add t assign data ids n index = Inr index'"
    using I(1) P(1) by (simp add: flat_add_def flat_preprocess_vectors_def)
  ultimately show ?thesis using I(2,4) P(1) by blast
qed

theorem flat_add_stores_rows_witness:
  "\<exists>index'. flat_add OtherArch (\<lambda>_ _ _. [1, 0]) [f32_one, f32_zero] [7, 5] 2 (flat_new 1 2 L2) = Inr index'
    \<and> list_rows index' 0 = [(5, [f32_zero])] \<and> flat_total_vectors index' = 2"
proof -
  have a: "assigns (\<lambda>_ _ _. [1, 0]) 2 (fi_nlist (flat_new 1 2 L2)) (fi_d (flat_new 1 2 L2)) (fi_quantizer_centroids (flat_new 1 2 L2))"
    by (auto simp: assigns_def flat_new_def less_2_cases_iff)
  have p: "preprocess_vectors OtherArch [f32_one, f32_zero] 2 1 L2 = Inr [f32_one, f32_zero]"
    by (simp add: preprocess_vectors_def subslice_def slice_def)
  have l: "list_rows (flat_new 1 2 L2) 0 = []" "flat_total_vectors (flat_new 1 2 L2) = 0"
    by (simp_all add: list_rows_def flat_new_def flat_total_vectors_def)
  have f: "fi_d (flat_new 1 2 L2) = 1" "fi_metric (flat_new 1 2 L2) = L2" "fi_nlist (flat_new 1 2 L2) = 2"
    by (simp_all add: flat_new_def)
  have u: "[0..<2] = [0, 1 :: nat]" by (simp add: upt_rec)
  obtain index' where "flat_add OtherArch (\<lambda>_ _ _. [1, 0]) [f32_one, f32_zero] [7, 5] 2 (flat_new 1 2 L2) = Inr index'"
    "\<forall>l < 2. list_rows index' l = list_rows (flat_new 1 2 L2) l
       @ map (\<lambda>i. ([7, 5] ! i, row_of 1 [f32_one, f32_zero] i)) (filter (\<lambda>i. [1, 0] ! i = l) [0..<2])"
    "flat_total_vectors index' = 2"
    using flat_add_stores_rows[OF flat_new_inv[of 1 2 L2], of 2 "[f32_one, f32_zero]" "[7, 5]" "\<lambda>_ _ _. [1, 0]" OtherArch] a
    unfolding f p l by auto
  then show ?thesis using l unfolding u by (auto simp: row_of_def slice_def)
qed

text \<open>C36: The in-memory search of a query returns, over the lists it probes, the k least distances of
  the metric among the rows the filter lets through, in ascending order, each with the id of a row
  that has it.\<close>

theorem flat_search_query_exact:
  assumes "flat_index_inv index" "length query = fi_d index" "\<forall>l \<in> set probe. l < fi_nlist index"
  shows "\<exists>result. flat_search_query t query k probe row_filter index = Inr result
    \<and> mset result \<subseteq># mset (concat (map (list_offers t query row_filter index) probe))
    \<and> map fst result = take k (sort (filter (\<lambda>v. \<not> is_nan v)
        (map fst (concat (map (list_offers t query row_filter index) probe)))))"
proof -
  let ?offers = "concat (map (list_offers t query row_filter index) probe)"
  have "heap_of k ?offers (fh_data (flat_push_all ?offers (flat_heap_new k)))"
    using flat_push_all_of[of k "[]" "[]" ?offers] by (simp add: flat_heap_new_def)
  from heap_of_sorted_data[OF this] show ?thesis
    unfolding flat_search_query_eq[OF assms] flat_heap_into_sorted_def by blast
qed

theorem flat_search_query_exact_witness:
  "\<exists>result. flat_search_query OtherArch [f32_one] 1 [0]  None
      \<lparr>fi_d = 1, fi_nlist = 1, fi_metric = L2, fi_quantizer_centroids = [f32_zero], fi_ids = [[5, 7]],
       fi_vectors = [[f32_zero, f32_one]]\<rparr> = Inr result
    \<and> map fst result = [f32_zero]"
proof -
  let ?index = "\<lparr>fi_d = 1, fi_nlist = 1, fi_metric = L2, fi_quantizer_centroids = [f32_zero], fi_ids = [[5, 7]],
       fi_vectors = [[f32_zero, f32_one]]\<rparr>"
  have inv: "flat_index_inv ?index" by (simp add: flat_index_inv_def)
  have o: "list_offers OtherArch [f32_one] None ?index 0 = [(f32_one, 5), (f32_zero, 7)]"
    unfolding list_offers_def by (simp only: IVFFlatIndex.simps nth_Cons_0 two_row_offers) simp
  obtain result where "flat_search_query OtherArch [f32_one] 1 [0] None ?index = Inr result"
    "map fst result = take 1 (sort (filter (\<lambda>v. \<not> is_nan v) (map fst (concat (map (list_offers OtherArch [f32_one] None ?index) [0])))))"
    using flat_search_query_exact[OF inv, of "[f32_one]" "[0]" OtherArch 1 None] by auto
  then show ?thesis using two_centroids(2-4) unfolding list.map concat.simps o by (intro exI[of _ result]) (simp add: f32_eval)
qed

end
