(* ===== verification/Flat_IO.thy ===== *)
theory Flat_IO
  imports Flat_Index Codec
begin

text \<open>
  The file format of IVF-FLAT, from \<open>core/src/ivfflat_io.rs\<close>: the writer, the reader's header and
  list table, and the two ways a list is read, in batches and in streamed chunks. The file has its
  own copies of the small codec functions; they carry the prefix \<open>flat_\<close> here.

  A reader is a \<open>seek_reader\<close> of \<open>Codec\<close>. The byte view of an aligned payload is its storage; hosts are
  little endian unless \<open>big\<close> is given, in which case the vectors are decoded explicitly. Loops that
  consume input piecewise have fuel and give \<open>Diverge\<close> when a step makes no progress.
\<close>

definition IVFFLAT_MAGIC :: u32 where "IVFFLAT_MAGIC = 0x4956464C"
definition IVFFLAT_VERSION :: u32 where "IVFFLAT_VERSION = 1"
definition IVFFLAT_HEADER_SIZE :: nat where "IVFFLAT_HEADER_SIZE = 64"
definition FLAG_DELTA_IDS :: u32 where "FLAG_DELTA_IDS = 1"
definition REQUIRED_FLAGS :: u32 where "REQUIRED_FLAGS = FLAG_DELTA_IDS"
definition SUPPORTED_FLAGS :: u32 where "SUPPORTED_FLAGS = REQUIRED_FLAGS"
definition IVFFLAT_WRITE_BUFFER_SIZE :: nat where "IVFFLAT_WRITE_BUFFER_SIZE = 64 * 1024 * 1024"

section \<open>Small codecs\<close>

definition flat_write_u32_le :: "pos_writer \<Rightarrow> u32 \<Rightarrow> pos_writer" where
  "flat_write_u32_le out v = write_all out (u32_to_le_bytes v)"

definition flat_write_i32_le :: "pos_writer \<Rightarrow> i32 \<Rightarrow> pos_writer" where
  "flat_write_i32_le out v = write_all out (u32_to_le_bytes v)"

definition flat_write_i64_le :: "pos_writer \<Rightarrow> i64 \<Rightarrow> pos_writer" where
  "flat_write_i64_le out v = write_all out (u64_to_le_bytes v)"

definition flat_validate_positive_i32 :: "i32 \<Rightarrow> i32 res" where
  "flat_validate_positive_i32 v = (if sint v \<le> 0 then Inl (Err InvalidData) else Inr v)"

definition flat_usize_to_i32 :: "nat \<Rightarrow> i32 res" where
  "flat_usize_to_i32 v = (if I32_MAX < v then Inl (Err InvalidInput) else Inr (word_of_nat v))"

definition flat_usize_to_i64 :: "nat \<Rightarrow> i64 res" where
  "flat_usize_to_i64 v = (if I64_MAX < v then Inl (Err InvalidInput) else Inr (word_of_nat v))"

definition flat_u64_to_i64 :: "nat \<Rightarrow> i64 res" where
  "flat_u64_to_i64 v = (if I64_MAX < v then Inl (Err InvalidInput) else Inr (word_of_nat v))"

definition FLAT_MAX_SECTION_ELEMENTS :: nat where "FLAT_MAX_SECTION_ELEMENTS = 2 ^ 30"

definition flat_checked_section_size :: "nat \<Rightarrow> nat \<Rightarrow> nat res" where
  "flat_checked_section_size a b =
     bind_res (ok_or (Err InvalidData) (checked_mul a b)) (\<lambda>result.
       if FLAT_MAX_SECTION_ELEMENTS < result then Inl (Err InvalidData) else Inr result)"

definition flat_checked_list_offset :: "i64 \<Rightarrow> nat res" where
  "flat_checked_list_offset offset = (if sint offset < 0 then Inl (Err InvalidData) else Inr (unat offset))"

definition flat_checked_list_bytes :: "nat \<Rightarrow> nat \<Rightarrow> nat res" where
  "flat_checked_list_bytes cnt bytes_per_entry = ok_or (Err InvalidData) (checked_mul cnt bytes_per_entry)"

definition flat_bytes_to_f32_vec :: "bytes \<Rightarrow> f32 list res" where
  "flat_bytes_to_f32_vec bs =
     (if length bs mod 4 \<noteq> 0 then Inl (Err InvalidData)
      else Inr (map (\<lambda>c. F32 (u32_from_le_bytes c)) (chunks_exact 4 bs)))"

function encode_varint :: "u64 \<Rightarrow> bytes" where
  "encode_varint v = (if 0x80 \<le> v then (ucast v OR 0x80) # encode_varint (drop_bit 7 v) else [ucast v])"
  by pat_completeness auto
termination
proof (relation "measure unat")
  fix v :: u64 assume "0x80 \<le> v"
  then have "0 < unat v" by (simp add: word_le_nat_alt)
  moreover have "unat (drop_bit 7 v) = unat v div 128" by (simp add: drop_bit_eq_div unat_div)
  ultimately show "(drop_bit 7 v, v) \<in> measure unat" by simp
qed simp

declare encode_varint.simps [simp del]

function decode_varint_from :: "bytes \<Rightarrow> nat \<Rightarrow> u64 \<Rightarrow> nat \<Rightarrow> (u64 \<times> nat) res" where
  "decode_varint_from buf pos v shift =
     (if length buf \<le> pos then Inl (Err InvalidData)
      else (let b = ucast (buf ! pos) :: u64; payload = b AND 0x7F in
        if shift = 63 \<and> 1 < payload then Inl (Err InvalidData)
        else (let v' = v OR push_bit shift payload in
          if b AND 0x80 = 0 then Inr (v', pos + 1)
          else if 63 < shift + 7 then Inl (Err InvalidData)
          else decode_varint_from buf (pos + 1) v' (shift + 7))))"
  by pat_completeness auto
termination
  by (relation "measure (\<lambda>(buf, pos, v, shift). 64 - shift)") auto

declare decode_varint_from.simps [simp del]

definition decode_varint :: "bytes \<Rightarrow> nat \<Rightarrow> (u64 \<times> nat) res" where
  "decode_varint buf pos = decode_varint_from buf pos 0 0"

fun flat_encode_deltas :: "i64 \<Rightarrow> i64 list \<Rightarrow> bytes" where
  "flat_encode_deltas prev [] = []"
| "flat_encode_deltas prev (row # ids) = encode_varint (row - prev) @ flat_encode_deltas row ids"

definition flat_encode_delta_varint_ids :: "i64 list \<Rightarrow> i64 \<times> bytes" where
  "flat_encode_delta_varint_ids ids =
     (case ids of [] \<Rightarrow> (0, []) | base # _ \<Rightarrow> (base, flat_encode_deltas base ids))"

fun flat_decode_deltas :: "nat \<Rightarrow> bytes \<Rightarrow> nat \<Rightarrow> u64 \<Rightarrow> i64 \<Rightarrow> i64 list res" where
  "flat_decode_deltas 0 buf pos current prev_signed = Inr []"
| "flat_decode_deltas (Suc n) buf pos current prev_signed =
     bind_res (decode_varint buf pos) (\<lambda>(delta, pos').
       let row = current + delta in
       if row <s prev_signed then Inl (Err InvalidData)
       else bind_res (flat_decode_deltas n buf pos' row row) (\<lambda>ids. Inr (row # ids)))"

definition flat_decode_delta_varint_ids :: "i64 \<Rightarrow> bytes \<Rightarrow> nat \<Rightarrow> i64 list res" where
  "flat_decode_delta_varint_ids base buf cnt = flat_decode_deltas cnt buf 0 base base"

section \<open>Writing vectors through a bounded buffer\<close>

text \<open>The state is the buffer and the sink; one step copies what still fits. Each value brings four
  bytes, so four steps are enough for a buffer that is not full.\<close>

fun push_value :: "nat \<Rightarrow> nat \<Rightarrow> bytes \<Rightarrow> bytes \<times> pos_writer \<Rightarrow> (bytes \<times> pos_writer) res" where
  "push_value fuel buffer_limit [] s = Inr s"
| "push_value 0 buffer_limit (b # bs) s = Inl Diverge"
| "push_value (Suc fuel) buffer_limit (b # bs) (buffer, out) =
     (let len = min (buffer_limit - length buffer) (length (b # bs));
          buffer' = buffer @ take len (b # bs) in
      push_value fuel buffer_limit (drop len (b # bs))
        (if length buffer' = buffer_limit then ([], write_all out buffer') else (buffer', out)))"

definition write_f32_iter :: "pos_writer \<Rightarrow> f32 list \<Rightarrow> nat \<Rightarrow> pos_writer res" where
  "write_f32_iter out data buffer_limit0 =
     (let buffer_limit = max buffer_limit0 1 in
      bind_res (fold_res (\<lambda>v. push_value 4 buffer_limit (u32_to_le_bytes (to_bits v))) data ([], out))
        (\<lambda>(buffer, out'). Inr (if buffer \<noteq> [] then write_all out' buffer else out')))"

definition flat_write_f32_slice :: "pos_writer \<Rightarrow> f32 list \<Rightarrow> nat \<Rightarrow> pos_writer res" where
  "flat_write_f32_slice out data buffer_limit = write_f32_iter out data buffer_limit"

section \<open>The writer\<close>

definition validate_index_shape :: "IVFFlatIndex \<Rightarrow> unit res" where
  "validate_index_shape index =
     (if fi_d index = 0 then Inl (Err InvalidInput)
      else if fi_nlist index = 0 then Inl (Err InvalidInput)
      else if length (fi_ids index) \<noteq> fi_nlist index \<or> length (fi_vectors index) \<noteq> fi_nlist index then Inl (Err InvalidInput)
      else bind_res (flat_checked_section_size (fi_nlist index) (fi_d index)) (\<lambda>centroid_len.
        if length (fi_quantizer_centroids index) \<noteq> centroid_len then Inl (Err InvalidInput)
        else bind_res (map_res (\<lambda>list_id.
            bind_res (ok_or (Err InvalidInput) (checked_mul (length (fi_ids index ! list_id)) (fi_d index))) (\<lambda>expected.
              if length (fi_vectors index ! list_id) \<noteq> expected then Inl (Err InvalidInput) else Inr ()))
            [0..<fi_nlist index]) (\<lambda>_. Inr ())))"

definition i64_checked_add :: "i64 \<Rightarrow> i64 \<Rightarrow> i64 option" where
  "i64_checked_add a b =
     (if - (2 ^ 63) \<le> sint a + sint b \<and> sint a + sint b < 2 ^ 63 then Some (a + b) else None)"

definition flat_total_count :: "i64 list list \<Rightarrow> i64 res" where
  "flat_total_count lists_of_ids =
     fold_res (\<lambda>ids total_so_far. bind_res (flat_usize_to_i64 (length ids)) (\<lambda>cnt.
       ok_or (Err InvalidInput) (i64_checked_add total_so_far cnt))) lists_of_ids 0"

text \<open>The order in which a list is stored and its encoded ids.\<close>

definition flat_sorted_list :: "i64 list \<Rightarrow> nat list \<times> bytes" where
  "flat_sorted_list ids =
     (if length ids = 0 then ([], [])
      else (let order = sort_key (\<lambda>i. sint (ids ! i)) [0..<length ids];
                sorted_ids = map (\<lambda>i. ids ! i) order
            in (order, snd (flat_encode_delta_varint_ids sorted_ids))))"

text \<open>One entry of the list table: offset, count and length of the encoded ids.\<close>

definition flat_table_step ::
  "nat \<Rightarrow> nat list \<times> bytes \<Rightarrow> nat \<times> (i64 \<times> i32 \<times> i32) list \<Rightarrow> (nat \<times> (i64 \<times> i32 \<times> i32) list) res" where
  "flat_table_step bytes_per_vector sorted_list = (\<lambda>(current_offset, table).
     bind_res (flat_u64_to_i64 current_offset) (\<lambda>offset.
     let cnt = length (fst sorted_list); id_bytes_len = length (snd sorted_list) in
     bind_res (flat_usize_to_i32 cnt) (\<lambda>list_count.
     if 0 < cnt then
       bind_res (flat_usize_to_i32 id_bytes_len) (\<lambda>list_id_bytes_len.
       bind_res (flat_checked_list_bytes cnt bytes_per_vector) (\<lambda>vector_bytes.
       bind_res (ok_or (Err InvalidInput) (Option.bind (checked_add 12 id_bytes_len) (\<lambda>len. checked_add len vector_bytes))) (\<lambda>list_bytes.
       bind_res (ok_or (Err InvalidInput) (checked_add current_offset list_bytes)) (\<lambda>next_offset.
         Inr (next_offset, table @ [(offset, list_count, list_id_bytes_len)])))))
     else Inr (current_offset, table @ [(offset, list_count, 0)]))))"

definition flat_write_entry :: "i64 \<times> i32 \<times> i32 \<Rightarrow> pos_writer \<Rightarrow> pos_writer" where
  "flat_write_entry = (\<lambda>(offset, cnt, id_bytes_len) out.
     flat_write_i32_le (flat_write_i32_le (flat_write_i64_le out offset) cnt) id_bytes_len)"

definition flat_write_list :: "IVFFlatIndex \<Rightarrow> nat \<Rightarrow> nat \<times> nat list \<times> bytes \<Rightarrow> pos_writer \<Rightarrow> pos_writer res" where
  "flat_write_list index buffer_limit = (\<lambda>(list_id, order, id_bytes) out.
     if order = [] then Inr out
     else (let d = fi_d index; out1 = flat_write_i64_le out (fi_ids index ! list_id ! hd order);
               out2 = flat_write_i32_le out1 (word_of_nat (length id_bytes));
               out3 = write_all out2 id_bytes in
       bind_res (map_res (\<lambda>i. subslice (i * d) ((i + 1) * d) (fi_vectors index ! list_id)) order) (\<lambda>rows.
         write_f32_iter out3 (concat rows) buffer_limit)))"

definition write_ivfflat_index_with_buffer_limit :: "IVFFlatIndex \<Rightarrow> pos_writer \<Rightarrow> nat \<Rightarrow> pos_writer res" where
  "write_ivfflat_index_with_buffer_limit index out0 buffer_limit =
     bind_res (validate_index_shape index) (\<lambda>_.
     bind_res (ok_or (Err InvalidInput) (checked_mul (fi_d index) 4)) (\<lambda>bytes_per_vector.
     bind_res (flat_usize_to_i32 (fi_d index)) (\<lambda>d_i32.
     bind_res (flat_usize_to_i32 (fi_nlist index)) (\<lambda>nlist_i32.
     bind_res (flat_total_count (fi_ids index)) (\<lambda>total_vectors.
     let sorted_lists = map flat_sorted_list (fi_ids index);
         out1 = flat_write_u32_le (flat_write_u32_le out0 IVFFLAT_MAGIC) IVFFLAT_VERSION;
         out2 = flat_write_i32_le (flat_write_i32_le out1 d_i32) nlist_i32;
         out3 = flat_write_i64_le (flat_write_u32_le out2 (metric_code (fi_metric index))) total_vectors;
         out4 = write_all (flat_write_u32_le out3 FLAG_DELTA_IDS) (replicate 32 0) in
     bind_res (flat_write_f32_slice out4 (fi_quantizer_centroids index) buffer_limit) (\<lambda>out5.
     bind_res (ok_or (Err InvalidInput) (checked_mul (fi_nlist index) 16)) (\<lambda>offset_table_size.
     bind_res (ok_or (Err InvalidInput) (checked_add (writer_pos out5) offset_table_size)) (\<lambda>data_start.
     bind_res (fold_res (flat_table_step bytes_per_vector) sorted_lists (data_start, [])) (\<lambda>(_, table).
     fold_res (flat_write_list index buffer_limit) (enumerate 0 sorted_lists)
       (fold flat_write_entry table out5))))))))))"

definition write_ivfflat_index :: "IVFFlatIndex \<Rightarrow> pos_writer \<Rightarrow> pos_writer res" where
  "write_ivfflat_index index out = write_ivfflat_index_with_buffer_limit index out IVFFLAT_WRITE_BUFFER_SIZE"

section \<open>Aligned payloads\<close>

record AlignedFlatPayload =
  ap_storage :: bytes
  ap_read_start :: nat
  ap_payload_len :: nat
  ap_vector_start :: nat
  ap_vector_len :: nat
  ap_decoded_vectors :: "f32 list option"

definition payload_new :: "nat \<Rightarrow> nat \<Rightarrow> nat \<Rightarrow> AlignedFlatPayload res" where
  "payload_new payload_len vector_start vector_len =
     bind_res (ok_or (Err InvalidData) (checked_add vector_start vector_len)) (\<lambda>vector_end.
       if vector_end \<noteq> payload_len \<or> vector_len mod 4 \<noteq> 0 then Inl (Err InvalidData)
       else (let alignment = 4; read_start = (alignment - vector_start mod alignment) mod alignment in
         bind_res (ok_or (Err InvalidData) (checked_add read_start payload_len)) (\<lambda>storage_bytes.
           let storage_len = div_ceil storage_bytes 4 in
           Inr \<lparr>ap_storage = replicate (storage_len * 4) 0, ap_read_start = read_start, ap_payload_len = payload_len,
                ap_vector_start = vector_start, ap_vector_len = vector_len, ap_decoded_vectors = None\<rparr>)))"

definition payload_empty :: AlignedFlatPayload where
  "payload_empty =
     \<lparr>ap_storage = [], ap_read_start = 0, ap_payload_len = 0, ap_vector_start = 0, ap_vector_len = 0,
      ap_decoded_vectors = None\<rparr>"

text \<open>Filling the buffer that \<open>read_buf_mut\<close> exposes.\<close>

definition payload_fill :: "bytes \<Rightarrow> AlignedFlatPayload \<Rightarrow> AlignedFlatPayload" where
  "payload_fill bs p =
     p\<lparr>ap_storage := take (ap_read_start p) (ap_storage p) @ bs @ drop (ap_read_start p + ap_payload_len p) (ap_storage p)\<rparr>"

definition payload_read_bytes :: "AlignedFlatPayload \<Rightarrow> bytes" where
  "payload_read_bytes p = slice (ap_read_start p) (ap_read_start p + ap_payload_len p) (ap_storage p)"

definition prepare_vectors :: "bool \<Rightarrow> AlignedFlatPayload \<Rightarrow> AlignedFlatPayload res" where
  "prepare_vectors big p =
     (if big then bind_res (flat_bytes_to_f32_vec (drop (ap_vector_start p) (payload_read_bytes p))) (\<lambda>vs.
        Inr (p\<lparr>ap_decoded_vectors := Some vs\<rparr>))
      else Inr p)"

definition payload_vectors :: "AlignedFlatPayload \<Rightarrow> f32 list" where
  "payload_vectors p =
     (case ap_decoded_vectors p of Some decoded \<Rightarrow> decoded
      | None \<Rightarrow> take (ap_vector_len p div 4)
          (map (\<lambda>c. F32 (u32_from_le_bytes c)) (chunks_exact 4 (drop (ap_vector_start p) (payload_read_bytes p)))))"

section \<open>Opening\<close>

record IVFFlatIndexReader =
  fr_reader :: seek_reader
  fr_d :: nat
  fr_nlist :: nat
  fr_metric :: MetricType
  fr_total_vectors :: i64
  fr_quantizer_centroids :: "f32 list"
  fr_list_offsets :: "i64 list"
  fr_list_counts :: "i32 list"
  fr_list_id_bytes_lens :: "i32 list"
  fr_delta_ids :: bool
  fr_loaded :: bool

definition flat_open_with_header :: "seek_reader \<Rightarrow> bytes \<Rightarrow> IVFFlatIndexReader res" where
  "flat_open_with_header reader header =
     (let magic = u32_from_le_bytes (slice 0 4 header) in
      if magic \<noteq> IVFFLAT_MAGIC then Inl (Err InvalidData)
      else (let version = u32_from_le_bytes (slice 4 8 header) in
      if version \<noteq> IVFFLAT_VERSION then Inl (Err InvalidData)
      else bind_res (flat_validate_positive_i32 (u32_from_le_bytes (slice 8 12 header))) (\<lambda>d.
      bind_res (flat_validate_positive_i32 (u32_from_le_bytes (slice 12 16 header))) (\<lambda>nlist.
      bind_res (ok_or (Err InvalidData) (metric_from_code (u32_from_le_bytes (slice 16 20 header)))) (\<lambda>metric.
      let total_vectors = u64_from_le_bytes (slice 20 28 header);
          flags = u32_from_le_bytes (slice 28 32 header) in
      bind_res (validate_reserved_zero (slice 32 64 header)) (\<lambda>_.
      let unknown_flags = flags AND NOT SUPPORTED_FLAGS in
      if unknown_flags \<noteq> 0 then Inl (Err InvalidData)
      else if flags AND REQUIRED_FLAGS \<noteq> REQUIRED_FLAGS then Inl (Err InvalidData)
      else Inr \<lparr>fr_reader = reader, fr_d = unat d, fr_nlist = unat nlist, fr_metric = metric,
            fr_total_vectors = total_vectors, fr_quantizer_centroids = [], fr_list_offsets = [], fr_list_counts = [],
            fr_list_id_bytes_lens = [], fr_delta_ids = True, fr_loaded = False\<rparr>))))))"

definition flat_open :: "seek_reader \<Rightarrow> IVFFlatIndexReader res" where
  "flat_open reader =
     bind_res (pread [(0, IVFFLAT_HEADER_SIZE)] reader) (\<lambda>(bufs, reader'). flat_open_with_header reader' (hd bufs))"

text \<open>One entry of the list table of a file.\<close>

definition flat_load_entry ::
  "bytes \<Rightarrow> nat \<Rightarrow> nat \<Rightarrow> i64 \<times> (i64 \<times> i32 \<times> i32) list \<Rightarrow> (i64 \<times> (i64 \<times> i32 \<times> i32) list) res" where
  "flat_load_entry metadata centroid_bytes list_id = (\<lambda>(actual_total, table).
     let base = centroid_bytes + list_id * 16;
         offset = u64_from_le_bytes (slice base (base + 8) metadata);
         cnt = u32_from_le_bytes (slice (base + 8) (base + 12) metadata) in
     if sint cnt < 0 then Inl (Err InvalidData)
     else bind_res (ok_or (Err InvalidData) (i64_checked_add actual_total (scast cnt))) (\<lambda>actual_total'.
       let id_bytes_len = u32_from_le_bytes (slice (base + 12) (base + 16) metadata) in
       if sint id_bytes_len < 0 then Inl (Err InvalidData)
       else if 0 < sint cnt \<and> id_bytes_len = 0 then Inl (Err InvalidData)
       else Inr (actual_total', table @ [(offset, cnt, id_bytes_len)])))"

definition flat_ensure_loaded :: "IVFFlatIndexReader \<Rightarrow> IVFFlatIndexReader res" where
  "flat_ensure_loaded r =
     (if fr_loaded r then Inr r
      else bind_res (flat_checked_section_size (fr_nlist r) (fr_d r)) (\<lambda>centroid_count.
      bind_res (ok_or (Err InvalidData) (checked_mul centroid_count 4)) (\<lambda>centroid_bytes.
      bind_res (ok_or (Err InvalidData) (checked_mul (fr_nlist r) 16)) (\<lambda>table_bytes.
      bind_res (ok_or (Err InvalidData) (checked_add centroid_bytes table_bytes)) (\<lambda>metadata_len.
      bind_res (pread [(IVFFLAT_HEADER_SIZE, metadata_len)] (fr_reader r)) (\<lambda>(bufs, reader').
      let metadata = hd bufs in
      bind_res (flat_bytes_to_f32_vec (take centroid_bytes metadata)) (\<lambda>centroids.
      bind_res (fold_res (flat_load_entry metadata centroid_bytes) [0..<fr_nlist r] (0, [])) (\<lambda>(actual_total, table).
        if actual_total \<noteq> fr_total_vectors r then Inl (Err InvalidData)
        else Inr (r\<lparr>fr_reader := reader', fr_quantizer_centroids := centroids, fr_list_offsets := map fst table,
               fr_list_counts := map (fst \<circ> snd) table, fr_list_id_bytes_lens := map (snd \<circ> snd) table,
               fr_loaded := True\<rparr>)))))))))"

section \<open>Reading lists in a batch\<close>

record FlatListData =
  fl_list_id :: nat
  fl_ids :: "i64 list"
  fl_payload :: AlignedFlatPayload

definition fl_vectors :: "FlatListData \<Rightarrow> f32 list" where
  "fl_vectors l = payload_vectors (fl_payload l)"

record FlatListRead =
  fm_input_index :: nat
  fm_list_id :: nat
  fm_count :: nat
  fm_id_bytes_len :: nat
  fm_offset :: nat

type_synonym read_plan = "FlatListData option list \<times> FlatListRead list \<times> AlignedFlatPayload list"

definition flat_plan_list :: "IVFFlatIndexReader \<Rightarrow> nat \<times> nat \<Rightarrow> read_plan \<Rightarrow> read_plan res" where
  "flat_plan_list r = (\<lambda>(input_index, list_id) (results, metas, payloads).
     if fr_nlist r \<le> list_id then Inl (Err InvalidInput)
     else bind_res (idx (fr_list_counts r) list_id) (\<lambda>cnt32.
     let cnt = unat cnt32 in
     if cnt = 0 then
       Inr (results[input_index := Some \<lparr>fl_list_id = list_id, fl_ids = [], fl_payload = payload_empty\<rparr>], metas, payloads)
     else bind_res (bind_res (idx (fr_list_offsets r) list_id) flat_checked_list_offset) (\<lambda>offset.
     bind_res (flat_checked_list_bytes cnt (fr_d r * 4)) (\<lambda>vector_bytes.
     bind_res (idx (fr_list_id_bytes_lens r) list_id) (\<lambda>len32.
     let id_bytes_len = unat len32 in
     bind_res (ok_or (Err InvalidData) (Option.bind (checked_add 12 id_bytes_len) (\<lambda>len. checked_add len vector_bytes))) (\<lambda>payload_len.
     bind_res (payload_new payload_len (12 + id_bytes_len) vector_bytes) (\<lambda>payload.
       Inr (results, metas @ [\<lparr>fm_input_index = input_index, fm_list_id = list_id, fm_count = cnt,
              fm_id_bytes_len = id_bytes_len, fm_offset = offset\<rparr>], payloads @ [payload]))))))))"

definition flat_decode_list ::
  "bool \<Rightarrow> FlatListRead \<times> AlignedFlatPayload \<Rightarrow> FlatListData option list \<Rightarrow> FlatListData option list res" where
  "flat_decode_list big = (\<lambda>(meta, payload) results.
     let bs = payload_read_bytes payload;
         base_id = u64_from_le_bytes (slice 0 8 bs);
         encoded_len = u32_from_le_bytes (slice 8 12 bs) in
     if sint encoded_len < 0 \<or> unat encoded_len \<noteq> fm_id_bytes_len meta then Inl (Err InvalidData)
     else bind_res (flat_decode_delta_varint_ids base_id (slice 12 (12 + fm_id_bytes_len meta) bs) (fm_count meta)) (\<lambda>ids.
       bind_res (prepare_vectors big payload) (\<lambda>payload'.
         Inr (results[fm_input_index meta := Some \<lparr>fl_list_id = fm_list_id meta, fl_ids = ids, fl_payload = payload'\<rparr>]))))"

definition flat_read_inverted_lists ::
  "bool \<Rightarrow> nat list \<Rightarrow> IVFFlatIndexReader \<Rightarrow> (FlatListData list \<times> IVFFlatIndexReader) res" where
  "flat_read_inverted_lists big list_ids r0 =
     bind_res (flat_ensure_loaded r0) (\<lambda>r.
     if \<not> fr_delta_ids r then Inl (Err InvalidData)
     else bind_res (fold_res (flat_plan_list r) (enumerate 0 list_ids) (replicate (length list_ids) None, [], [])) (\<lambda>(results, metas, payloads).
       bind_res
         (if metas \<noteq> [] then
            bind_res (pread_batched_slices (map fm_offset metas) (map ap_payload_len payloads) (fr_reader r)) (\<lambda>(bufs, reader').
            bind_res (fold_res (flat_decode_list big) (zip metas (map2 payload_fill bufs payloads)) results) (\<lambda>results'.
              Inr (results', r\<lparr>fr_reader := reader'\<rparr>)))
          else Inr (results, r)) (\<lambda>(results', r').
       bind_res (map_res (ok_or (Err InvalidData)) results') (\<lambda>data. Inr (data, r')))))"

definition flat_read_inverted_list ::
  "bool \<Rightarrow> nat \<Rightarrow> IVFFlatIndexReader \<Rightarrow> ((i64 list \<times> f32 list) \<times> IVFFlatIndexReader) res" where
  "flat_read_inverted_list big list_id r =
     bind_res (flat_read_inverted_lists big [list_id] r) (\<lambda>(data, r').
       case rev data of [] \<Rightarrow> Inl Panic | l # _ \<Rightarrow> Inr ((fl_ids l, fl_vectors l), r'))"

definition flat_list_payload_len :: "nat \<Rightarrow> IVFFlatIndexReader \<Rightarrow> nat res" where
  "flat_list_payload_len list_id r =
     (if fr_nlist r \<le> list_id then Inl (Err InvalidInput)
      else bind_res (idx (fr_list_counts r) list_id) (\<lambda>cnt32.
      let cnt = unat cnt32 in
      if cnt = 0 then Inr 0
      else bind_res (idx (fr_list_id_bytes_lens r) list_id) (\<lambda>len32.
        ok_or (Err InvalidData) (Option.bind (checked_add 12 (unat len32)) (\<lambda>len.
          Option.bind (checked_mul (fr_d r) 4) (\<lambda>row_bytes.
          Option.bind (checked_mul cnt row_bytes) (\<lambda>vector_bytes. checked_add len vector_bytes)))))))"

definition flat_batch_read_end :: "nat list \<Rightarrow> IVFFlatIndexReader \<Rightarrow> nat res" where
  "flat_batch_read_end list_ids r =
     bind_res (map_res (\<lambda>l. flat_list_payload_len l r) list_ids) (\<lambda>payload_lengths.
       bounded_ivf_payload_batch_end payload_lengths (max_ranges_per_pread (capabilities (fr_reader r))))"

section \<open>Streaming an oversized list\<close>

text \<open>The loop over the chunks, with what \<open>consume\<close> carries as its state. A chunk has at least one
  row, so as many steps as there are rows are enough.\<close>

fun flat_stream_chunks ::
  "bool \<Rightarrow> nat \<Rightarrow> nat \<Rightarrow> nat \<Rightarrow> nat \<Rightarrow> i64 list \<Rightarrow> (i64 list \<Rightarrow> f32 list \<Rightarrow> 's \<Rightarrow> 's res) \<Rightarrow>
   nat \<Rightarrow> nat \<Rightarrow> seek_reader \<Rightarrow> 's \<Rightarrow> ('s \<times> seek_reader) res" where
  "flat_stream_chunks big cnt row_bytes retained_id_bytes vector_offset ids consume fuel row_start reader s =
     (if row_start < cnt then
        case fuel of 0 \<Rightarrow> Inl Diverge
        | Suc fuel' \<Rightarrow>
          bind_res (bounded_ivf_stream_chunk_rows (cnt - row_start) row_bytes retained_id_bytes 1) (\<lambda>chunk_rows.
          bind_res (ok_or (Err InvalidData) (checked_mul chunk_rows row_bytes)) (\<lambda>vector_bytes.
          bind_res (payload_new vector_bytes 0 vector_bytes) (\<lambda>payload.
          bind_res (ok_or (Err InvalidData) (checked_mul row_start row_bytes)) (\<lambda>row_offset.
          bind_res (ok_or (Err InvalidData) (checked_add vector_offset row_offset)) (\<lambda>chunk_offset.
          bind_res (pread [(chunk_offset, ap_payload_len payload)] reader) (\<lambda>(bufs, reader').
          bind_res (prepare_vectors big (payload_fill (hd bufs) payload)) (\<lambda>payload'.
          let row_end = row_start + chunk_rows in
          bind_res (subslice row_start row_end ids) (\<lambda>chunk_ids.
          bind_res (consume chunk_ids (payload_vectors payload') s) (\<lambda>s'.
            flat_stream_chunks big cnt row_bytes retained_id_bytes vector_offset ids consume fuel' row_end reader' s')))))))))
      else Inr (s, reader))"

declare flat_stream_chunks.simps [simp del]

definition flat_for_each_streamed_list_chunk ::
  "bool \<Rightarrow> nat \<Rightarrow> (i64 list \<Rightarrow> f32 list \<Rightarrow> 's \<Rightarrow> 's res) \<Rightarrow> IVFFlatIndexReader \<Rightarrow> 's \<Rightarrow> ('s \<times> IVFFlatIndexReader) res" where
  "flat_for_each_streamed_list_chunk big list_id consume r0 s =
     bind_res (flat_ensure_loaded r0) (\<lambda>r.
     bind_res (idx (fr_list_counts r) list_id) (\<lambda>cnt32.
     let cnt = unat cnt32 in
     bind_res (bind_res (idx (fr_list_offsets r) list_id) flat_checked_list_offset) (\<lambda>list_offset.
     bind_res (idx (fr_list_id_bytes_lens r) list_id) (\<lambda>len32.
     let id_bytes_len = unat len32 in
     bind_res (read_delta_varint_ids_at list_offset cnt id_bytes_len (fr_reader r)) (\<lambda>(ids, reader').
     bind_res (ok_or (Err InvalidData) (checked_mul (fr_d r) 4)) (\<lambda>row_bytes.
     bind_res (ok_or (Err InvalidData) (checked_add list_offset (12 + id_bytes_len))) (\<lambda>vector_offset.
     bind_res (ok_or (Err InvalidData) (checked_mul (length ids) 8)) (\<lambda>retained_id_bytes.
     bind_res (flat_stream_chunks big cnt row_bytes retained_id_bytes vector_offset ids consume cnt 0 reader' s) (\<lambda>(s', reader'').
       Inr (s', r\<lparr>fr_reader := reader''\<rparr>))))))))))"

end
