(* ===== verification/Flat_Roundtrip.thy ===== *)
theory Flat_Roundtrip
  imports Flat_IO
begin

text \<open>
  What an IVF-FLAT file holds after it is written, and that the reader gets it back. The codecs of
  \<open>ivfflat_io.rs\<close> are first shown equal to those of \<open>index_io_util.rs\<close>, up to the bytes that may trail
  the ids of a list.
\<close>

section \<open>The two codecs\<close>

lemmas flat_scalar_defs = flat_write_u32_le_def flat_write_i32_le_def flat_write_i64_le_def

lemma flat_codec_eq:
  "flat_validate_positive_i32 = validate_positive_i32" "flat_usize_to_i32 = usize_to_i32"
  "flat_usize_to_i64 = usize_to_i64" "flat_u64_to_i64 = u64_to_i64"
  "flat_checked_section_size = checked_section_size" "flat_checked_list_offset = checked_list_offset"
  "flat_checked_list_bytes = checked_list_bytes" "flat_bytes_to_f32_vec = bytes_to_f32_vec"
  by (simp_all add: fun_eq_iff flat_validate_positive_i32_def validate_positive_i32_def flat_usize_to_i32_def usize_to_i32_def
      flat_usize_to_i64_def usize_to_i64_def flat_u64_to_i64_def u64_to_i64_def flat_checked_section_size_def
      checked_section_size_def FLAT_MAX_SECTION_ELEMENTS_def MAX_SECTION_ELEMENTS_def flat_checked_list_offset_def
      checked_list_offset_def flat_checked_list_bytes_def checked_list_bytes_def flat_bytes_to_f32_vec_def bytes_to_f32_vec_def)

lemma or_80: "(b AND 0x7F) OR 0x80 = b OR (0x80 :: u8)"
  by (rule bit_eqI) (auto simp: bit_simps byte_7F byte_80 simp del: push_bit_of_1)

lemma encode_varint_eq: "encode_varint v = write_u64_varint v"
proof (induction v rule: encode_varint.induct)
  case (1 v)
  show ?case using 1 by (subst encode_varint.simps, subst write_u64_varint.simps) (simp add: or_80)
qed

lemma and_80: "(x :: 'a :: len word) AND 0x80 = 0 \<longleftrightarrow> \<not> bit x 7"
  using and_exp_eq_0_iff_not_bit[of x 7] by simp

lemma byte_7E: "(0x7E :: u8) = mask 7 AND NOT 1"
  by (simp add: mask_eq_exp_minus_1)

lemma small_bits: "(x :: u8) AND 0x7E = 0 \<longleftrightarrow> unat (x AND 0x7F) < 2"
proof -
  have "x AND 0x7E = 0 \<longleftrightarrow> take_bit 1 (x AND 0x7F) = x AND 0x7F"
  proof
    assume z: "x AND 0x7E = 0"
    have "\<not> bit (x AND 0x7F) n" if "1 \<le> n" for n
    proof -
      have "\<not> bit (x AND 0x7E) n" using z by simp
      then show ?thesis using that by (auto simp: bit_simps byte_7E byte_7F)
    qed
    note high = this
    show "take_bit 1 (x AND 0x7F) = x AND 0x7F"
    proof (rule bit_eqI)
      fix n
      show "bit (take_bit 1 (x AND 0x7F)) n \<longleftrightarrow> bit (x AND 0x7F) n"
        using high[of n] not_le[of 1 n] unfolding bit_take_bit_iff by blast
    qed
  next
    assume t: "take_bit 1 (x AND 0x7F) = x AND 0x7F"
    have "\<not> bit (x AND 0x7F) n" if "1 \<le> n" for n using t that by (metis bit_take_bit_iff not_less)
    note high = this
    show "x AND 0x7E = 0"
    proof (rule bit_eqI)
      fix n
      show "bit (x AND 0x7E) n \<longleftrightarrow> bit 0 n" using high[of n] by (cases "n = 0") (auto simp: bit_simps byte_7E byte_7F)
    qed
  qed
  also have "\<dots> \<longleftrightarrow> unat (take_bit 1 (x AND 0x7F)) = unat (x AND 0x7F)" by (simp add: word_unat_eq_iff)
  also have "unat (take_bit 1 (x AND 0x7F)) = unat (x AND 0x7F) mod 2"
    unfolding unsigned_take_bit_eq by (simp add: take_bit_eq_mod)
  also have "unat (x AND 0x7F) mod 2 = unat (x AND 0x7F) \<longleftrightarrow> unat (x AND 0x7F) < 2" by auto
  finally show ?thesis .
qed

lemma byte_tests:
  fixes b :: u8
  shows "ucast b AND 0x7F = (ucast (b AND 0x7F) :: u64)"
    and "(ucast b AND 0x80 = (0 :: u64)) \<longleftrightarrow> b AND 0x80 = 0"
    and "1 < (ucast (b AND 0x7F) :: u64) \<longleftrightarrow> b AND 0x7E \<noteq> 0"
    and "b < 0x80 \<longleftrightarrow> b AND 0x80 = 0"
proof -
  have m: "(0x7F :: u64) = mask 7" by (simp add: mask_eq_exp_minus_1)
  show "ucast b AND 0x7F = (ucast (b AND 0x7F) :: u64)"
    unfolding m byte_7F by (rule bit_eqI) (auto simp: bit_simps)
  show "(ucast b AND 0x80 = (0 :: u64)) \<longleftrightarrow> b AND 0x80 = 0" by (simp add: and_80 bit_simps)
  have "unat (b AND 0x7F) < 2 ^ 64" by (rule order_less_le_trans[OF unsigned_less]) simp
  then have "unat (ucast (b AND 0x7F) :: u64) = unat (b AND 0x7F)"
    by (simp add: unsigned_ucast_eq take_bit_nat_eq_self_iff)
  then show "1 < (ucast (b AND 0x7F) :: u64) \<longleftrightarrow> b AND 0x7E \<noteq> 0"
    unfolding word_less_nat_alt small_bits by auto
  show "b < 0x80 \<longleftrightarrow> b AND 0x80 = 0"
  proof
    assume "b AND 0x80 = 0"
    then have top: "\<not> bit b 7" by (simp add: and_80)
    have "take_bit 7 b = b"
    proof (rule bit_eqI)
      fix n
      show "bit (take_bit 7 b) n \<longleftrightarrow> bit b n" using top by (cases "n < 7"; cases "n = 7") (auto simp: bit_take_bit_iff dest: bit_imp_le_length)
    qed
    moreover have "unat (take_bit 7 b) = unat b mod 2 ^ 7" unfolding unsigned_take_bit_eq by (rule take_bit_eq_mod)
    moreover have "unat b mod 2 ^ 7 < 128" by simp
    ultimately have "unat b < 128" by simp
    then show "b < 0x80" by (simp add: word_less_nat_alt)
  qed (rule last_byte(1))
qed

lemma decode_varint_from_eq:
  "shift = 70 - 7 * n \<Longrightarrow> 0 < n \<Longrightarrow> n \<le> 10 \<Longrightarrow> decode_varint_from buf pos v shift = read_u64_varint_rest n buf pos v shift"
proof (induction n arbitrary: pos v shift)
  case (Suc n)
  show ?case
  proof (cases "n = 0")
    case True
    then show ?thesis using Suc.prems
      by (subst decode_varint_from.simps) (simp add: Let_def byte_tests)
  next
    case False
    then have "shift + 7 = 70 - 7 * n" "\<not> 63 < shift + 7" "shift \<noteq> 63" using Suc.prems by auto
    then show ?thesis using Suc.IH[of "shift + 7" "pos + 1"] False Suc.prems
      by (subst decode_varint_from.simps) (simp add: Let_def byte_tests)
  qed
qed simp

lemma decode_varint_eq: "decode_varint buf pos = read_u64_varint buf pos"
proof -
  have "decode_varint buf pos = read_u64_varint_rest (Suc 9) buf pos 0 0"
    unfolding decode_varint_def by (rule decode_varint_from_eq) simp_all
  also have "\<dots> = read_u64_varint buf pos"
    using byte_tests(4)[of "buf ! pos"] last_byte(2)[of "buf ! pos"]
    unfolding read_u64_varint_def read_u64_varint_rest.simps(2) Let_def by simp
  finally show ?thesis .
qed

lemma flat_encode_eq: "flat_encode_delta_varint_ids = encode_delta_varint_ids"
proof -
  have "flat_encode_deltas prev ids = encode_deltas prev ids" for prev ids
    by (induction prev ids rule: encode_deltas.induct) (simp_all add: encode_varint_eq)
  then show ?thesis
    by (simp add: fun_eq_iff flat_encode_delta_varint_ids_def encode_delta_varint_ids_def split: list.split)
qed

lemma flat_decode_deltas_eq:
  "flat_decode_deltas n buf pos current prev = bind_res (decode_deltas n buf pos current prev) (\<lambda>(ids, _). Inr ids)"
proof (induction n arbitrary: pos current prev)
  case (Suc n)
  show ?case
  proof (cases "read_u64_varint buf pos")
    case (Inr x)
    then show ?thesis by (cases x) (simp add: decode_varint_eq Suc Let_def bind_res_assoc case_prod_unfold)
  qed (simp add: decode_varint_eq)
qed simp

lemma flat_decode_of_decode: "decode_delta_varint_ids base buf n = Inr ids \<Longrightarrow> flat_decode_delta_varint_ids base buf n = Inr ids"
  by (auto simp: decode_delta_varint_ids_def flat_decode_delta_varint_ids_def flat_decode_deltas_eq bind_res_eq_Inr
      split: if_splits)

section \<open>The buffered writer\<close>

lemma push_value_appends:
  "length buffer < limit \<Longrightarrow> length bs \<le> fuel \<Longrightarrow>
    \<exists>buffer' out'. push_value fuel limit bs (buffer, out) = Inr (buffer', out')
      \<and> length buffer' < limit \<and> out' @ buffer' = out @ buffer @ bs"
proof (induction fuel arbitrary: bs buffer out)
  case (Suc fuel)
  show ?case
  proof (cases bs)
    case (Cons b bs')
    let ?len = "min (limit - length buffer) (length bs)"
    have len: "0 < ?len" "length (drop ?len bs) \<le> fuel" using Suc.prems Cons by (auto simp: min_def)
    show ?thesis
    proof (cases "length (buffer @ take ?len bs) = limit")
      case True
      have "0 < limit" using Suc.prems(1) by simp
      from Suc.IH[OF _ len(2), of "[]" "write_all out (buffer @ take ?len bs)"] this show ?thesis
        using True Cons by (auto simp: Let_def write_all_def)
    next
      case False
      moreover have "length (take ?len bs) \<le> limit - length buffer" by simp
      ultimately have l: "length (buffer @ take ?len bs) < limit" using Suc.prems(1) by (simp only: length_append)
      from Suc.IH[OF l len(2), of out] show ?thesis using False Cons by (auto simp: Let_def)
    qed
  qed (use Suc.prems in auto)
qed auto

lemma write_f32_iter_eq: "write_f32_iter out data limit = Inr (out @ f32_bytes data)"
proof -
  let ?limit = "max limit 1"
  have "\<exists>buffer' out'. fold_res (\<lambda>v. push_value 4 ?limit (u32_to_le_bytes (to_bits v))) data (buffer, out) = Inr (buffer', out')
      \<and> length buffer' < ?limit \<and> out' @ buffer' = out @ buffer @ f32_bytes data"
    if "length buffer < ?limit" for buffer out
    using that
  proof (induction data arbitrary: buffer out)
    case (Cons v data)
    obtain b1 o1 where 1: "push_value 4 ?limit (u32_to_le_bytes (to_bits v)) (buffer, out) = Inr (b1, o1)"
      "length b1 < ?limit" "o1 @ b1 = out @ buffer @ u32_to_le_bytes (to_bits v)"
      using push_value_appends[OF Cons.prems, of "u32_to_le_bytes (to_bits v)" 4 out] by auto
    obtain b2 o2 where 2: "fold_res (\<lambda>v. push_value 4 ?limit (u32_to_le_bytes (to_bits v))) data (b1, o1) = Inr (b2, o2)"
      "length b2 < ?limit" "o2 @ b2 = o1 @ b1 @ f32_bytes data" using Cons.IH[OF 1(2)] by blast
    have "o2 @ b2 = out @ buffer @ f32_bytes (v # data)" using 1(3) 2(3) by (simp add: f32_bytes_def)
    then show ?case using 1(1) 2(1,2) by simp
  qed (simp add: f32_bytes_def)
  moreover have "length [] < ?limit" by (simp add: less_max_iff_disj)
  ultimately obtain b w where "fold_res (\<lambda>v. push_value 4 ?limit (u32_to_le_bytes (to_bits v))) data ([], out) = Inr (b, w)"
    "w @ b = out @ f32_bytes data" by (metis append_Nil)
  then show ?thesis by (auto simp: write_f32_iter_def Let_def write_all_def)
qed

section \<open>Aligned payloads\<close>

lemma payload_new_ok:
  assumes "payload_len = vector_start + vector_len" "vector_len mod 4 = 0" "payload_len + 3 < 2 ^ 64"
  shows "\<exists>p. payload_new payload_len vector_start vector_len = Inr p \<and> ap_payload_len p = payload_len
    \<and> ap_vector_start p = vector_start \<and> ap_vector_len p = vector_len \<and> ap_decoded_vectors p = None
    \<and> ap_read_start p + payload_len \<le> length (ap_storage p)"
proof -
  let ?rs = "(4 - vector_start mod 4) mod 4"
  have rs: "?rs \<le> 3" by simp
  have "checked_add vector_start vector_len = Some payload_len" using assms(1,3) by simp
  moreover have "checked_add ?rs payload_len = Some (?rs + payload_len)" using assms(3) rs by simp
  moreover have "?rs + payload_len \<le> div_ceil (?rs + payload_len) 4 * 4" by (rule div_ceil_mult_ge) simp
  ultimately show ?thesis using assms(1,2) by (simp only: payload_new_def ok_or_simps bind_res_Inr Let_def) simp
qed

lemma payload_fill_read:
  assumes "ap_read_start p + ap_payload_len p \<le> length (ap_storage p)" "length bs = ap_payload_len p"
  shows "payload_read_bytes (payload_fill bs p) = bs"
  using assms by (simp add: payload_read_bytes_def payload_fill_def slice_def)

lemma payload_vectors_of:
  assumes "payload_read_bytes p = bs" "drop (ap_vector_start p) bs = f32_bytes vs" "ap_vector_len p = 4 * length vs"
    "ap_decoded_vectors p = None"
  shows "\<exists>p'. prepare_vectors big p = Inr p' \<and> payload_vectors p' = vs"
proof (cases big)
  case True
  then show ?thesis using assms by (simp add: prepare_vectors_def payload_vectors_def flat_codec_eq)
next
  case False
  have "map (\<lambda>c. F32 (u32_from_le_bytes c)) (chunks_exact 4 (f32_bytes vs)) = vs"
    using bytes_to_f32_vec_f32_bytes[of vs] by (simp add: bytes_to_f32_vec_def)
  then show ?thesis using False assms by (simp add: prepare_vectors_def payload_vectors_def)
qed

section \<open>What is written\<close>

text \<open>The order in which a list is stored, what it then holds, and the bytes of it.\<close>

definition stored_order :: "i64 list \<Rightarrow> nat list" where
  "stored_order ids = sort_key (\<lambda>i. sint (ids ! i)) [0..<length ids]"

definition stored_ids :: "i64 list \<Rightarrow> i64 list" where
  "stored_ids ids = map (\<lambda>i. ids ! i) (stored_order ids)"

definition stored_vectors :: "nat \<Rightarrow> i64 list \<Rightarrow> f32 list \<Rightarrow> f32 list" where
  "stored_vectors d ids vectors = concat (map (row_of d vectors) (stored_order ids))"

definition id_bytes_of :: "i64 list \<Rightarrow> bytes" where
  "id_bytes_of ids = snd (encode_delta_varint_ids ids)"

definition list_bytes_of :: "i64 list \<times> f32 list \<Rightarrow> bytes" where
  "list_bytes_of = (\<lambda>(ids, vectors).
     if ids = [] then []
     else u64_to_le_bytes (hd ids) @ u32_to_le_bytes (word_of_nat (length (id_bytes_of ids))) @ id_bytes_of ids @ f32_bytes vectors)"

lemma stored_order_set [simp]: "set (stored_order ids) = {0..<length ids}" "length (stored_order ids) = length ids"
  by (simp_all add: stored_order_def)

lemma length_stored_ids [simp]: "length (stored_ids ids) = length ids"
  by (simp add: stored_ids_def)

lemma stored_ids_Nil [simp]: "stored_ids ids = [] \<longleftrightarrow> ids = []"
  by (metis length_0_conv length_stored_ids)

lemma stored_ids_mset: "mset (stored_ids ids) = mset ids"
proof -
  have "mset (stored_ids ids) = mset (map (\<lambda>i. ids ! i) [0..<length ids])"
    by (simp add: stored_ids_def stored_order_def)
  then show ?thesis by (simp only: map_nth)
qed

lemma stored_ids_sorted: "signed_sorted (stored_ids ids)"
proof -
  have "map sint (stored_ids ids) = map (\<lambda>i. sint (ids ! i)) (stored_order ids)" by (simp add: stored_ids_def)
  then show ?thesis by (simp add: signed_sorted_iff stored_order_def)
qed

lemma length_stored_vectors:
  "length vectors = length ids * d \<Longrightarrow> length (stored_vectors d ids vectors) = length ids * d"
  unfolding stored_vectors_def by (subst length_concat_rows[of _ d]) (auto intro: length_row_of)

lemma id_bytes_of_Nil [simp]: "id_bytes_of [] = []"
  by (simp add: id_bytes_of_def encode_delta_varint_ids_def)

lemma id_bytes_of_nonempty: "ids \<noteq> [] \<Longrightarrow> id_bytes_of ids \<noteq> []"
  by (cases ids) (simp_all add: id_bytes_of_def encode_delta_varint_ids_def write_u64_varint_nonempty)

lemma length_list_bytes:
  "length (list_bytes_of (ids, vectors)) = (if ids = [] then 0 else 12 + length (id_bytes_of ids) + 4 * length vectors)"
  by (simp add: list_bytes_of_def)

lemma flat_sorted_list_eq: "flat_sorted_list ids = (stored_order ids, id_bytes_of (stored_ids ids))"
  by (simp add: flat_sorted_list_def stored_order_def stored_ids_def id_bytes_of_def flat_encode_eq Let_def
      encode_delta_varint_ids_def)

lemma flat_write_list_eq:
  assumes "i < length (fi_ids index)" "length (fi_vectors index ! i) = length (fi_ids index ! i) * fi_d index"
  shows "flat_write_list index limit (i, flat_sorted_list (fi_ids index ! i)) out
    = Inr (out @ list_bytes_of (stored_ids (fi_ids index ! i), stored_vectors (fi_d index) (fi_ids index ! i) (fi_vectors index ! i)))"
proof (cases "fi_ids index ! i = []")
  case True
  then show ?thesis by (simp add: flat_write_list_def flat_sorted_list_eq list_bytes_of_def stored_ids_def stored_order_def)
next
  case False
  let ?ids = "fi_ids index ! i" let ?vs = "fi_vectors index ! i"
  have ne: "stored_order ?ids \<noteq> []" using False by (metis length_0_conv stored_order_set(2))
  then have hd: "?ids ! hd (stored_order ?ids) = hd (stored_ids ?ids)" by (simp add: stored_ids_def hd_map)
  have "map_res (\<lambda>j. subslice (j * fi_d index) ((j + 1) * fi_d index) ?vs) (stored_order ?ids)
    = Inr (map (row_of (fi_d index) ?vs) (stored_order ?ids))"
    by (rule map_res_Inr_map) (rule subslice_row_of[OF assms(2)], simp)
  then show ?thesis using ne False hd
    by (simp add: flat_write_list_def flat_sorted_list_eq Let_def write_f32_iter_eq flat_scalar_defs write_all_def
        list_bytes_of_def stored_vectors_def stored_ids_def)
qed

lemma fold_res_appends:
  "(\<And>x out. x \<in> set xs \<Longrightarrow> f x out = Inr (out @ g x)) \<Longrightarrow> fold_res f xs out = Inr (out @ concat (map g xs))"
  by (induction xs arbitrary: out) auto

text \<open>The list table: each list starts where the one before it ends.\<close>

type_synonym table_entry = "i64 \<times> i32 \<times> i32"

fun table_of :: "nat \<Rightarrow> (i64 list \<times> f32 list) list \<Rightarrow> table_entry list" where
  "table_of off [] = []"
| "table_of off (l # ls) = (word_of_nat off, word_of_nat (length (fst l)), word_of_nat (length (id_bytes_of (fst l))))
     # table_of (off + length (list_bytes_of l)) ls"

fun table_fits :: "nat \<Rightarrow> (i64 list \<times> f32 list) list \<Rightarrow> bool" where
  "table_fits off [] \<longleftrightarrow> True"
| "table_fits off (l # ls) \<longleftrightarrow> off \<le> I64_MAX \<and> length (fst l) \<le> I32_MAX \<and> length (id_bytes_of (fst l)) \<le> I32_MAX
     \<and> off + length (list_bytes_of l) < 2 ^ 64 \<and> table_fits (off + length (list_bytes_of l)) ls"

lemma flat_table_step_eq:
  assumes "length vectors = length ids * d" "flat_table_step (d * 4) (order, id_bytes_of ids) (off, tab) = Inr (off', tab')"
    "length order = length ids"
  shows "off' = off + length (list_bytes_of (ids, vectors)) \<and> off \<le> I64_MAX \<and> length ids \<le> I32_MAX
    \<and> length (id_bytes_of ids) \<le> I32_MAX \<and> (ids \<noteq> [] \<longrightarrow> off' < 2 ^ 64)
    \<and> tab' = tab @ [(word_of_nat off, word_of_nat (length ids), word_of_nat (length (id_bytes_of ids)))]"
proof (cases "ids = []")
  case True
  then show ?thesis using assms
    by (auto simp: flat_table_step_def bind_res_eq_Inr flat_codec_eq u64_to_i64_Inr usize_to_i32_Inr Let_def length_list_bytes)
next
  case False
  then show ?thesis using assms
    by (auto simp: flat_table_step_def bind_res_eq_Inr flat_codec_eq u64_to_i64_Inr usize_to_i32_Inr Let_def
        checked_list_bytes_Inr bind_eq_Some_conv length_list_bytes)
qed

lemma flat_table_eq:
  assumes "fold_res (flat_table_step (d * 4)) sls (off, tab) = Inr (fin, tab')"
    "list_all2 (\<lambda>sl (ids, vectors). snd sl = id_bytes_of ids \<and> length (fst sl) = length ids \<and> length vectors = length ids * d) sls ls"
  shows "tab' = tab @ table_of off ls \<and> table_fits off ls"
  using assms(2,1)
proof (induction sls ls arbitrary: off tab rule: list_all2_induct)
  case (Cons sl sls l ls)
  obtain ids vectors where l: "l = (ids, vectors)" by fastforce
  obtain order where sl: "sl = (order, id_bytes_of ids)" "length order = length ids" "length vectors = length ids * d"
    using Cons.hyps(1) l by (cases sl) auto
  obtain off1 tab1 where 1: "flat_table_step (d * 4) sl (off, tab) = Inr (off1, tab1)"
    "fold_res (flat_table_step (d * 4)) sls (off1, tab1) = Inr (fin, tab')"
    using Cons.prems by (auto simp: bind_res_eq_Inr)
  have s: "off1 = off + length (list_bytes_of l) \<and> off \<le> I64_MAX \<and> length ids \<le> I32_MAX
    \<and> length (id_bytes_of ids) \<le> I32_MAX \<and> (ids \<noteq> [] \<longrightarrow> off1 < 2 ^ 64)
    \<and> tab1 = tab @ [(word_of_nat off, word_of_nat (length ids), word_of_nat (length (id_bytes_of ids)))]"
    unfolding l by (rule flat_table_step_eq[OF sl(3) _ sl(2)]) (use 1(1) sl(1) in simp)
  have "off1 < 2 ^ 64" using s by (cases "ids = []") (auto simp: l length_list_bytes)
  then show ?case using Cons.IH[OF 1(2)] s l by auto
qed auto

text \<open>The whole file.\<close>

definition stored_lists :: "IVFFlatIndex \<Rightarrow> (i64 list \<times> f32 list) list" where
  "stored_lists index = map2 (\<lambda>ids vectors. (stored_ids ids, stored_vectors (fi_d index) ids vectors)) (fi_ids index) (fi_vectors index)"

definition index_size :: "IVFFlatIndex \<Rightarrow> nat" where
  "index_size index = sum_list (map length (fi_ids index))"

definition header_bytes :: "nat \<Rightarrow> nat \<Rightarrow> MetricType \<Rightarrow> nat \<Rightarrow> bytes" where
  "header_bytes d nlist metric n =
     u32_to_le_bytes IVFFLAT_MAGIC @ u32_to_le_bytes IVFFLAT_VERSION @ u32_to_le_bytes (word_of_nat d)
     @ u32_to_le_bytes (word_of_nat nlist) @ u32_to_le_bytes (metric_code metric) @ u64_to_le_bytes (word_of_nat n)
     @ u32_to_le_bytes FLAG_DELTA_IDS @ replicate 32 0"

definition entry_bytes :: "table_entry \<Rightarrow> bytes" where
  "entry_bytes = (\<lambda>(off, cnt, len). u64_to_le_bytes off @ u32_to_le_bytes cnt @ u32_to_le_bytes len)"

definition data_start :: "IVFFlatIndex \<Rightarrow> nat" where
  "data_start index = 64 + 4 * length (fi_quantizer_centroids index) + fi_nlist index * 16"

definition file_of :: "IVFFlatIndex \<Rightarrow> bytes" where
  "file_of index =
     header_bytes (fi_d index) (fi_nlist index) (fi_metric index) (index_size index)
     @ f32_bytes (fi_quantizer_centroids index)
     @ concat (map entry_bytes (table_of (data_start index) (stored_lists index)))
     @ concat (map list_bytes_of (stored_lists index))"

text \<open>The indexes a file can hold.\<close>

definition writable :: "IVFFlatIndex \<Rightarrow> bool" where
  "writable index \<longleftrightarrow> 0 < fi_d index \<and> fi_d index \<le> I32_MAX \<and> 0 < fi_nlist index \<and> fi_nlist index \<le> I32_MAX
     \<and> length (fi_ids index) = fi_nlist index \<and> length (fi_vectors index) = fi_nlist index
     \<and> fi_nlist index * fi_d index \<le> MAX_SECTION_ELEMENTS
     \<and> length (fi_quantizer_centroids index) = fi_nlist index * fi_d index
     \<and> (\<forall>i<fi_nlist index. length (fi_vectors index ! i) = length (fi_ids index ! i) * fi_d index)
     \<and> index_size index \<le> I64_MAX \<and> table_fits (data_start index) (stored_lists index)"

lemma length_stored_lists [simp]:
  "writable index \<Longrightarrow> length (stored_lists index) = fi_nlist index"
  by (simp add: stored_lists_def writable_def)

lemma stored_lists_nth:
  "writable index \<Longrightarrow> i < fi_nlist index \<Longrightarrow>
    stored_lists index ! i = (stored_ids (fi_ids index ! i), stored_vectors (fi_d index) (fi_ids index ! i) (fi_vectors index ! i))"
  by (simp add: stored_lists_def writable_def)

lemma i64_checked_add_nat:
  assumes "a \<le> I64_MAX" "b \<le> I64_MAX"
  shows "i64_checked_add (word_of_nat a) (word_of_nat b) = (if a + b \<le> I64_MAX then Some (word_of_nat (a + b)) else None)"
  using assms by (simp add: i64_checked_add_def sint_word_of_nat64)

lemma flat_total_count_eq:
  "flat_total_count lists_of_ids = Inr t \<Longrightarrow>
    t = word_of_nat (sum_list (map length lists_of_ids)) \<and> sum_list (map length lists_of_ids) \<le> I64_MAX"
proof -
  have "t = word_of_nat (a + sum_list (map length xs)) \<and> a + sum_list (map length xs) \<le> I64_MAX"
    if "fold_res (\<lambda>ids t. bind_res (flat_usize_to_i64 (length ids)) (\<lambda>cnt.
       ok_or (Err InvalidInput) (i64_checked_add t cnt))) xs (word_of_nat a) = Inr t" "a \<le> I64_MAX" for a xs
    using that
  proof (induction xs arbitrary: a)
    case (Cons x xs)
    then have x: "length x \<le> I64_MAX" "a + length x \<le> I64_MAX"
      by (auto simp: bind_res_eq_Inr flat_codec_eq usize_to_i64_Inr i64_checked_add_nat split: if_splits)
    then show ?case using Cons.IH[of "a + length x"] Cons.prems
      by (simp add: flat_codec_eq usize_to_i64_def i64_checked_add_nat add.assoc)
  qed simp
  from this[of lists_of_ids 0] show "flat_total_count lists_of_ids = Inr t \<Longrightarrow> ?thesis"
    by (simp add: flat_total_count_def)
qed

lemma validate_index_shape_eq:
  assumes "validate_index_shape index = Inr u"
  shows "0 < fi_d index \<and> 0 < fi_nlist index \<and> length (fi_ids index) = fi_nlist index \<and> length (fi_vectors index) = fi_nlist index
    \<and> fi_nlist index * fi_d index \<le> MAX_SECTION_ELEMENTS \<and> length (fi_quantizer_centroids index) = fi_nlist index * fi_d index
    \<and> (\<forall>i<fi_nlist index. length (fi_vectors index ! i) = length (fi_ids index ! i) * fi_d index)"
proof -
  from assms obtain us where us: "map_res (\<lambda>list_id.
      bind_res (ok_or (Err InvalidInput) (checked_mul (length (fi_ids index ! list_id)) (fi_d index))) (\<lambda>expected.
        if length (fi_vectors index ! list_id) \<noteq> expected then Inl (Err InvalidInput) else Inr ())) [0..<fi_nlist index] = Inr us"
    and rest: "0 < fi_d index" "0 < fi_nlist index" "length (fi_ids index) = fi_nlist index" "length (fi_vectors index) = fi_nlist index"
      "fi_nlist index * fi_d index \<le> MAX_SECTION_ELEMENTS" "length (fi_quantizer_centroids index) = fi_nlist index * fi_d index"
    by (auto simp: validate_index_shape_def bind_res_eq_Inr flat_codec_eq checked_section_size_Inr split: if_splits)
  have "length (fi_vectors index ! i) = length (fi_ids index ! i) * fi_d index" if "i < fi_nlist index" for i
    using map_res_eq_InrD[OF us] that by (auto simp: bind_res_eq_Inr split: if_splits)
  with rest show ?thesis by blast
qed

lemma fold_write_entry: "fold flat_write_entry table out = out @ concat (map entry_bytes table)"
  by (induction table arbitrary: out) (auto simp: flat_write_entry_def entry_bytes_def flat_scalar_defs write_all_def)

lemma length_entry_bytes [simp]: "length (entry_bytes e) = 16"
  by (cases e) (simp add: entry_bytes_def)

lemma length_table_of [simp]: "length (table_of off ls) = length ls"
  by (induction off ls rule: table_of.induct) auto

lemma length_header_bytes [simp]: "length (header_bytes d nlist metric n) = 64"
  by (simp add: header_bytes_def)

lemma sorted_lists_table:
  assumes "length (fi_ids index) = fi_nlist index" "length (fi_vectors index) = fi_nlist index"
    "\<forall>i<fi_nlist index. length (fi_vectors index ! i) = length (fi_ids index ! i) * fi_d index"
  shows "list_all2 (\<lambda>sl (ids, vectors). snd sl = id_bytes_of ids \<and> length (fst sl) = length ids
      \<and> length vectors = length ids * fi_d index) (map flat_sorted_list (fi_ids index)) (stored_lists index)"
  using assms by (simp add: list_all2_conv_all_nth stored_lists_def flat_sorted_list_eq length_stored_vectors)

lemma write_lists_eq:
  assumes "length (fi_ids index) = fi_nlist index" "length (fi_vectors index) = fi_nlist index"
    "\<forall>i<fi_nlist index. length (fi_vectors index ! i) = length (fi_ids index ! i) * fi_d index"
  shows "fold_res (flat_write_list index limit) (enumerate 0 (map flat_sorted_list (fi_ids index))) out
    = Inr (out @ concat (map list_bytes_of (stored_lists index)))"
proof -
  let ?g = "\<lambda>(i, sl). list_bytes_of (stored_lists index ! i)"
  have "fold_res (flat_write_list index limit) (enumerate 0 (map flat_sorted_list (fi_ids index))) out
    = Inr (out @ concat (map ?g (enumerate 0 (map flat_sorted_list (fi_ids index)))))"
  proof (rule fold_res_appends)
    fix x out assume "x \<in> set (enumerate 0 (map flat_sorted_list (fi_ids index)))"
    then obtain i where i: "i < fi_nlist index" "x = (i, flat_sorted_list (fi_ids index ! i))"
      using assms(1) by (auto simp: in_set_enumerate_eq)
    moreover have "stored_lists index ! i
      = (stored_ids (fi_ids index ! i), stored_vectors (fi_d index) (fi_ids index ! i) (fi_vectors index ! i))"
      using assms(1,2) i(1) by (simp add: stored_lists_def)
    ultimately show "flat_write_list index limit x out = Inr (out @ ?g x)"
      using flat_write_list_eq[of i index limit out] assms by simp
  qed
  moreover have "map ?g (enumerate 0 (map flat_sorted_list (fi_ids index))) = map list_bytes_of (stored_lists index)"
    using assms(1,2) by (intro nth_equalityI) (simp_all add: nth_enumerate_eq stored_lists_def)
  ultimately show ?thesis by simp
qed

lemma write_header_eq:
  "flat_write_f32_slice (write_all (flat_write_u32_le (flat_write_i64_le (flat_write_u32_le (flat_write_i32_le
      (flat_write_i32_le (flat_write_u32_le (flat_write_u32_le [] IVFFLAT_MAGIC) IVFFLAT_VERSION) (word_of_nat d)) (word_of_nat nlist))
      (metric_code metric)) (word_of_nat n)) FLAG_DELTA_IDS) (replicate 32 0)) centroids limit
    = Inr (header_bytes d nlist metric n @ f32_bytes centroids)"
  by (simp add: flat_write_f32_slice_def write_f32_iter_eq flat_scalar_defs write_all_def header_bytes_def)

lemma write_ivfflat_index_sound:
  assumes "write_ivfflat_index_with_buffer_limit index [] limit = Inr out"
  shows "writable index \<and> out = file_of index"
proof -
  obtain u bpv d32 n32 total_n where 1: "validate_index_shape index = Inr u" "checked_mul (fi_d index) 4 = Some bpv"
    "flat_usize_to_i32 (fi_d index) = Inr d32" "flat_usize_to_i32 (fi_nlist index) = Inr n32"
    "flat_total_count (fi_ids index) = Inr total_n"
    using assms by (auto simp: write_ivfflat_index_with_buffer_limit_def bind_res_eq_Inr)
  note shape = validate_index_shape_eq[OF 1(1)]
  have tot: "total_n = word_of_nat (index_size index)" "index_size index \<le> I64_MAX"
    using flat_total_count_eq[OF 1(5)] by (simp_all add: index_size_def)
  have d32: "d32 = word_of_nat (fi_d index)" "fi_d index \<le> I32_MAX" "n32 = word_of_nat (fi_nlist index)" "fi_nlist index \<le> I32_MAX"
    using 1(3,4) by (simp_all add: flat_codec_eq usize_to_i32_Inr)
  let ?out = "header_bytes (fi_d index) (fi_nlist index) (fi_metric index) (index_size index) @ f32_bytes (fi_quantizer_centroids index)"
  from assms 1 obtain fin table where t:
    "fold_res (flat_table_step (fi_d index * 4)) (map flat_sorted_list (fi_ids index)) (data_start index, []) = Inr (fin, table)"
    "fold_res (flat_write_list index limit) (enumerate 0 (map flat_sorted_list (fi_ids index))) (fold flat_write_entry table ?out) = Inr out"
    by (auto simp: write_ivfflat_index_with_buffer_limit_def bind_res_eq_Inr Let_def tot(1) d32(1,3) write_header_eq
        writer_pos_def data_start_def)
  have tab: "table = table_of (data_start index) (stored_lists index)" "table_fits (data_start index) (stored_lists index)"
    using flat_table_eq[OF t(1) sorted_lists_table] shape by simp_all
  have "out = file_of index"
    using t(2) write_lists_eq[of index] shape by (simp add: fold_write_entry tab(1) file_of_def)
  then show ?thesis using shape tot(2) d32(2,4) tab(2) by (simp add: writable_def)
qed

lemma flat_table_complete:
  assumes "list_all2 (\<lambda>sl (ids, vectors). snd sl = id_bytes_of ids \<and> length (fst sl) = length ids \<and> length vectors = length ids * d) sls ls"
    "table_fits off ls"
  shows "\<exists>r. fold_res (flat_table_step (d * 4)) sls (off, tab) = Inr r"
  using assms
proof (induction sls ls arbitrary: off tab rule: list_all2_induct)
  case (Cons sl sls l ls)
  obtain ids vectors where l: "l = (ids, vectors)" by fastforce
  obtain order where sl: "sl = (order, id_bytes_of ids)" "length order = length ids" "length vectors = length ids * d"
    using Cons.hyps(1) l by (cases sl) auto
  have fits: "off \<le> I64_MAX" "length ids \<le> I32_MAX" "length (id_bytes_of ids) \<le> I32_MAX"
    "off + length (list_bytes_of l) < 2 ^ 64" using Cons.prems l by simp_all
  have "\<exists>tab1. flat_table_step (d * 4) sl (off, tab) = Inr (off + length (list_bytes_of l), tab1)"
  proof (cases "ids = []")
    case True
    then show ?thesis using sl fits
      by (simp add: flat_table_step_def flat_codec_eq u64_to_i64_def usize_to_i32_def Let_def l length_list_bytes)
  next
    case False
    define v where "v = length ids * (d * 4)"
    have len: "length (list_bytes_of l) = 12 + length (id_bytes_of ids) + v"
      using False sl(3) by (simp add: l length_list_bytes v_def)
    then have "off + (12 + length (id_bytes_of ids) + v) < 2 ^ 64" using fits(4) by simp
    moreover have "checked_list_bytes (length ids) (d * 4) = Inr v" if "v < 2 ^ 64"
      using that unfolding checked_list_bytes_Inr v_def by blast
    ultimately have "checked_list_bytes (length ids) (d * 4) = Inr v" "checked_add (12 + length (id_bytes_of ids)) v = Some (12 + length (id_bytes_of ids) + v)"
      "checked_add 12 (length (id_bytes_of ids)) = Some (12 + length (id_bytes_of ids))"
      "checked_add off (12 + length (id_bytes_of ids) + v) = Some (off + (12 + length (id_bytes_of ids) + v))"
      by simp_all
    then show ?thesis using sl(1,2) fits(1-3) False len
      by (simp del: checked_add_Some add: flat_table_step_def flat_codec_eq u64_to_i64_def usize_to_i32_def Let_def l)
  qed
  then show ?case using Cons.IH Cons.prems by auto
qed auto

lemma flat_total_count_complete:
  assumes "sum_list (map length lists_of_ids) \<le> I64_MAX"
  shows "flat_total_count lists_of_ids = Inr (word_of_nat (sum_list (map length lists_of_ids)))"
proof -
  have "fold_res (\<lambda>ids t. bind_res (flat_usize_to_i64 (length ids)) (\<lambda>cnt.
       ok_or (Err InvalidInput) (i64_checked_add t cnt))) xs (word_of_nat a) = Inr (word_of_nat (a + sum_list (map length xs)))"
    if "a + sum_list (map length xs) \<le> I64_MAX" for a xs
    using that
  proof (induction xs arbitrary: a)
    case (Cons x xs)
    then have x: "length x \<le> I64_MAX" "a + length x \<le> I64_MAX" "a \<le> I64_MAX" by simp_all
    then show ?case using Cons.IH[of "a + length x"] Cons.prems
      by (simp add: flat_codec_eq usize_to_i64_def i64_checked_add_nat add.assoc)
  qed simp
  from this[of 0 lists_of_ids] assms show ?thesis by (simp add: flat_total_count_def)
qed

lemma table_of_nth:
  "i < length ls \<Longrightarrow> table_of off ls ! i = (word_of_nat (off + length (concat (map list_bytes_of (take i ls)))),
     word_of_nat (length (fst (ls ! i))), word_of_nat (length (id_bytes_of (fst (ls ! i)))))"
proof (induction off ls arbitrary: i rule: table_of.induct)
  case (2 off l ls)
  then show ?case by (cases i) (simp_all add: add.assoc)
qed simp

lemma table_fits_nth:
  "i < length ls \<Longrightarrow> table_fits off ls \<Longrightarrow> off + length (concat (map list_bytes_of (take i ls))) \<le> I64_MAX
    \<and> length (fst (ls ! i)) \<le> I32_MAX \<and> length (id_bytes_of (fst (ls ! i))) \<le> I32_MAX
    \<and> off + length (concat (map list_bytes_of (take i ls))) + length (list_bytes_of (ls ! i)) < 2 ^ 64"
proof (induction off ls arbitrary: i rule: table_of.induct)
  case (2 off l ls)
  show ?case
  proof (cases i)
    case (Suc j)
    then have "j < length ls" "table_fits (off + length (list_bytes_of l)) ls" using "2.prems" by auto
    from "2.IH"[OF this] show ?thesis using Suc by (simp add: add.assoc)
  qed (use "2.prems"(2) in auto)
qed simp

lemma writable_list_small:
  assumes "writable index" "i < fi_nlist index"
  shows "length (fi_ids index ! i) * fi_d index < 2 ^ 62"
proof -
  have v: "length (fi_vectors index ! i) = length (fi_ids index ! i) * fi_d index" using assms by (simp add: writable_def)
  have "length (list_bytes_of (stored_lists index ! i)) < 2 ^ 64"
    using table_fits_nth[of i "stored_lists index" "data_start index"] assms length_stored_lists[OF assms(1)]
    by (simp add: writable_def)
  then show ?thesis using assms
    by (cases "fi_ids index ! i = []") (simp_all add: stored_lists_nth length_list_bytes length_stored_vectors[OF v])
qed

lemma validate_index_shape_complete:
  assumes w: "writable index"
  shows "validate_index_shape index = Inr ()"
proof -
  have "map_res (\<lambda>list_id.
      bind_res (ok_or (Err InvalidInput) (checked_mul (length (fi_ids index ! list_id)) (fi_d index))) (\<lambda>expected.
        if length (fi_vectors index ! list_id) \<noteq> expected then Inl (Err InvalidInput) else Inr ())) [0..<fi_nlist index]
    = Inr (map (\<lambda>_. ()) [0..<fi_nlist index])"
  proof (rule map_res_Inr_map)
    fix i assume "i \<in> set [0..<fi_nlist index]"
    then show "bind_res (ok_or (Err InvalidInput) (checked_mul (length (fi_ids index ! i)) (fi_d index))) (\<lambda>expected.
        if length (fi_vectors index ! i) \<noteq> expected then Inl (Err InvalidInput) else Inr ()) = Inr ()"
      using w writable_list_small[OF w, of i] by (simp add: writable_def checked_mul_def)
  qed
  moreover have "fi_nlist index * fi_d index < 2 ^ 64" using w by (simp add: writable_def MAX_SECTION_ELEMENTS_def)
  ultimately show ?thesis using w
    by (simp add: validate_index_shape_def writable_def flat_codec_eq checked_section_size_def checked_mul_def)
qed

lemma write_ivfflat_index_complete:
  assumes w: "writable index"
  shows "\<exists>out. write_ivfflat_index_with_buffer_limit index [] limit = Inr out"
proof -
  let ?out = "header_bytes (fi_d index) (fi_nlist index) (fi_metric index) (index_size index) @ f32_bytes (fi_quantizer_centroids index)"
  have shape: "length (fi_ids index) = fi_nlist index" "length (fi_vectors index) = fi_nlist index"
    "\<forall>i<fi_nlist index. length (fi_vectors index ! i) = length (fi_ids index ! i) * fi_d index" using w by (simp_all add: writable_def)
  have small: "fi_nlist index * fi_d index \<le> 2 ^ 30" "fi_nlist index \<le> I32_MAX" "fi_d index \<le> I32_MAX"
    using w by (simp_all add: writable_def MAX_SECTION_ELEMENTS_def)
  have add: "checked_add (writer_pos ?out) (fi_nlist index * 16) = Some (data_start index)"
    using small w by (simp add: writer_pos_def data_start_def writable_def)
  obtain fin table where "fold_res (flat_table_step (fi_d index * 4)) (map flat_sorted_list (fi_ids index)) (data_start index, []) = Inr (fin, table)"
    using flat_table_complete[OF sorted_lists_table[OF shape], of "data_start index" "[]"] w by (auto simp: writable_def)
  moreover have "flat_total_count (fi_ids index) = Inr (word_of_nat (index_size index))"
    using w flat_total_count_complete[of "fi_ids index"] by (simp add: writable_def index_size_def)
  moreover have "checked_mul (fi_d index) 4 = Some (fi_d index * 4)" "checked_mul (fi_nlist index) 16 = Some (fi_nlist index * 16)"
    using small by simp_all
  ultimately show ?thesis
    using validate_index_shape_complete[OF w] small add write_lists_eq[OF shape]
    by (simp add: write_ivfflat_index_with_buffer_limit_def flat_codec_eq usize_to_i32_def Let_def write_header_eq
        del: checked_add_Some checked_mul_Some)
qed

section \<open>Opening and loading\<close>

lemma metric_roundtrip: "metric_from_code (metric_code m) = Some m"
  by (cases m) (simp_all add: metric_from_code_def metric_code_def)

lemma sint_pos32: "0 < n \<Longrightarrow> n \<le> I32_MAX \<Longrightarrow> validate_positive_i32 (word_of_nat n) = Inr (word_of_nat n) \<and> unat (word_of_nat n :: i32) = n"
  by (simp add: validate_positive_i32_def sint_word_of_nat32 unat_of_nat)

lemma flat_open_header:
  assumes "0 < d" "d \<le> I32_MAX" "0 < nlist" "nlist \<le> I32_MAX"
  shows "flat_open_with_header rd (header_bytes d nlist metric n)
    = Inr \<lparr>fr_reader = rd, fr_d = d, fr_nlist = nlist, fr_metric = metric, fr_total_vectors = word_of_nat n,
        fr_quantizer_centroids = [], fr_list_offsets = [], fr_list_counts = [], fr_list_id_bytes_lens = [],
        fr_delta_ids = True, fr_loaded = False\<rparr>"
proof -
  let ?h = "header_bytes d nlist metric n"
  have s: "slice 0 4 ?h = u32_to_le_bytes IVFFLAT_MAGIC" "slice 4 8 ?h = u32_to_le_bytes IVFFLAT_VERSION"
    "slice 8 12 ?h = u32_to_le_bytes (word_of_nat d)" "slice 12 16 ?h = u32_to_le_bytes (word_of_nat nlist)"
    "slice 16 20 ?h = u32_to_le_bytes (metric_code metric)" "slice 20 28 ?h = u64_to_le_bytes (word_of_nat n)"
    "slice 28 32 ?h = u32_to_le_bytes FLAG_DELTA_IDS" "slice 32 64 ?h = replicate 32 0"
    by (simp_all add: header_bytes_def slice_def)
  have "validate_reserved_zero (replicate 32 0) = Inr ()" by (simp add: validate_reserved_zero_def list_ex_iff)
  then show ?thesis
    using sint_pos32[OF assms(1,2)] sint_pos32[OF assms(3,4)]
    by (simp add: flat_open_with_header_def s flat_codec_eq metric_roundtrip FLAG_DELTA_IDS_def SUPPORTED_FLAGS_def REQUIRED_FLAGS_def)
qed

lemma flat_open_eq:
  assumes w: "writable index" and f: "file_bytes rd = file_of index"
  shows "flat_open rd = Inr \<lparr>fr_reader = rd\<lparr>preads := preads rd @ [[(0, 64)]]\<rparr>, fr_d = fi_d index, fr_nlist = fi_nlist index,
        fr_metric = fi_metric index, fr_total_vectors = word_of_nat (index_size index),
        fr_quantizer_centroids = [], fr_list_offsets = [], fr_list_counts = [], fr_list_id_bytes_lens = [],
        fr_delta_ids = True, fr_loaded = False\<rparr>"
proof -
  have "64 \<le> length (file_of index)" "slice 0 64 (file_of index) = header_bytes (fi_d index) (fi_nlist index) (fi_metric index) (index_size index)"
    by (simp_all add: file_of_def slice_def)
  then have p: "pread [(0, 64)] rd = Inr ([header_bytes (fi_d index) (fi_nlist index) (fi_metric index) (index_size index)],
      rd\<lparr>preads := preads rd @ [[(0, 64)]]\<rparr>)"
    by (simp add: pread_def range_ok_def read_range_def f)
  show ?thesis unfolding flat_open_def IVFFLAT_HEADER_SIZE_def p
    using w flat_open_header[of "fi_d index" "fi_nlist index"] by (simp add: writable_def)
qed

lemma scast_nat: "n \<le> I32_MAX \<Longrightarrow> (scast (word_of_nat n :: i32) :: i64) = word_of_nat n"
proof -
  assume n: "n \<le> I32_MAX"
  then have "n \<le> I64_MAX" by simp
  then have "sint (word_of_nat n :: i64) = int n" by (rule sint_word_of_nat64)
  moreover have "sint (scast (word_of_nat n :: i32) :: i64) = int n"
    using n sint_word_of_nat32[OF n] by (simp add: signed_scast_eq signed_take_bit_int_eq_self)
  ultimately show ?thesis by (metis signed_word_eqI)
qed

lemma flat_load_entry_eq:
  assumes "i < length ls" "table_fits off ls" "a + length (fst (ls ! i)) \<le> I64_MAX"
    "metadata = pre @ concat (map entry_bytes (table_of off ls))" "length pre = cb"
  shows "flat_load_entry metadata cb i (word_of_nat a, table)
    = Inr (word_of_nat (a + length (fst (ls ! i))), table @ [table_of off ls ! i])"
proof -
  let ?e = "table_of off ls ! i" and ?n = "length (fst (ls ! i))" and ?m = "length (id_bytes_of (fst (ls ! i)))"
  have e: "?e = (word_of_nat (off + length (concat (map list_bytes_of (take i ls)))), word_of_nat ?n, word_of_nat ?m)"
    by (rule table_of_nth[OF assms(1)])
  have fits: "?n \<le> I32_MAX" "?m \<le> I32_MAX" using table_fits_nth[OF assms(1,2)] by auto
  have "slice (i * 16) (Suc i * 16) (concat (map entry_bytes (table_of off ls))) = map entry_bytes (table_of off ls) ! i"
    by (rule slice_concat_rows) (use assms(1) in auto)
  then have all: "slice (cb + i * 16) (cb + i * 16 + 16) metadata = entry_bytes ?e"
    using assms(1,4,5) by (simp add: slice_append_right add.commute)
  have sub: "slice (cb + i * 16 + j) (cb + i * 16 + k) metadata = slice j k (entry_bytes ?e)" if "k \<le> 16" for j k
    unfolding all[symmetric] using that by (subst slice_slice) simp_all
  have s: "slice (cb + i * 16) (cb + i * 16 + 8) metadata = u64_to_le_bytes (fst ?e)"
    "slice (cb + i * 16 + 8) (cb + i * 16 + 12) metadata = u32_to_le_bytes (word_of_nat ?n)"
    "slice (cb + i * 16 + 12) (cb + i * 16 + 16) metadata = u32_to_le_bytes (word_of_nat ?m)"
    using sub[of 8 0] sub[of 12 8] sub[of 16 12] by (simp_all add: e entry_bytes_def slice_def)
  have "?m \<noteq> 0" if "0 < ?n" using that id_bytes_of_nonempty[of "fst (ls ! i)"] by auto
  moreover have "?m = 0" if "(word_of_nat ?m :: i32) = 0" using that sint_word_of_nat32[OF fits(2)] by simp
  ultimately have nz: "\<not> (0 < ?n \<and> (word_of_nat ?m :: i32) = 0)" by blast
  have "i64_checked_add (word_of_nat a) (scast (word_of_nat ?n :: i32)) = Some (word_of_nat (a + ?n))"
    using assms(3) fits(1) i64_checked_add_nat[of a ?n] by (simp add: scast_nat)
  then show ?thesis using nz fits
    by (simp add: flat_load_entry_def Let_def s sint_word_of_nat32) (simp add: e)
qed

lemma flat_load_table_eq:
  assumes "table_fits off ls" "sum_list (map (length \<circ> fst) ls) \<le> I64_MAX"
    "metadata = pre @ concat (map entry_bytes (table_of off ls))" "length pre = cb" "n \<le> length ls"
  shows "fold_res (flat_load_entry metadata cb) [0..<n] (0, [])
    = Inr (word_of_nat (sum_list (map (length \<circ> fst) (take n ls))), take n (table_of off ls))"
  using assms(5)
proof (induction n)
  case (Suc n)
  let ?sum = "\<lambda>xs. sum_list (map (length \<circ> fst) xs)"
  have n: "n < length ls" using Suc.prems by simp
  have "ls = take (Suc n) ls @ drop (Suc n) ls" by simp
  then have "?sum (take (Suc n) ls) \<le> ?sum ls" by (metis le_add1 map_append sum_list_append)
  then have le: "?sum (take n ls) + length (fst (ls ! n)) \<le> I64_MAX" using assms(2) n by (simp add: take_Suc_conv_app_nth)
  have IH: "fold_res (flat_load_entry metadata cb) [0..<n] (0, []) = Inr (word_of_nat (?sum (take n ls)), take n (table_of off ls))"
    using Suc.IH Suc.prems by linarith
  have "fold_res (flat_load_entry metadata cb) [0..<Suc n] (0, [])
    = flat_load_entry metadata cb n (word_of_nat (?sum (take n ls)), take n (table_of off ls))"
    using IH by (simp add: fold_res_append bind_res_def split: sum.split)
  then show ?case using flat_load_entry_eq[OF n assms(1) le assms(3,4)] n by (simp add: take_Suc_conv_app_nth comp_def)
qed simp

lemma stored_sizes:
  assumes "writable index"
  shows "map (length \<circ> fst) (stored_lists index) = map length (fi_ids index)"
  using assms by (intro nth_equalityI) (simp_all add: stored_lists_nth writable_def[of index])

definition same_file :: "seek_reader \<Rightarrow> seek_reader \<Rightarrow> bool" where
  "same_file rd rd' \<longleftrightarrow> file_bytes rd' = file_bytes rd \<and> capabilities rd' = capabilities rd"

lemma flat_ensure_loaded_eq:
  assumes w: "writable index" and f: "file_bytes (fr_reader r) = file_of index"
    and r: "fr_d r = fi_d index" "fr_nlist r = fi_nlist index" "fr_total_vectors r = word_of_nat (index_size index)" "\<not> fr_loaded r"
  shows "\<exists>rd. same_file (fr_reader r) rd \<and> flat_ensure_loaded r = Inr (r\<lparr>fr_reader := rd, fr_quantizer_centroids := fi_quantizer_centroids index,
      fr_list_offsets := map fst (table_of (data_start index) (stored_lists index)),
      fr_list_counts := map (fst \<circ> snd) (table_of (data_start index) (stored_lists index)),
      fr_list_id_bytes_lens := map (snd \<circ> snd) (table_of (data_start index) (stored_lists index)), fr_loaded := True\<rparr>)"
proof -
  let ?n = "fi_nlist index" and ?c = "fi_quantizer_centroids index" and ?t = "table_of (data_start index) (stored_lists index)"
  let ?m = "f32_bytes ?c @ concat (map entry_bytes ?t)"
  have small: "?n * fi_d index \<le> 2 ^ 30" "?n \<le> I32_MAX" "length ?c = ?n * fi_d index" "index_size index \<le> I64_MAX"
    "length (stored_lists index) = ?n" using w by (simp_all add: writable_def MAX_SECTION_ELEMENTS_def)
  have "length (concat (map entry_bytes ?t)) = ?n * 16" using small(5) by (subst length_concat_rows[of _ 16]) auto
  then have len: "length ?m = ?n * fi_d index * 4 + ?n * 16" using small(3) by simp
  have chk: "checked_section_size ?n (fi_d index) = Inr (?n * fi_d index)" "checked_mul (?n * fi_d index) 4 = Some (?n * fi_d index * 4)"
    "checked_mul ?n 16 = Some (?n * 16)" "checked_add (?n * fi_d index * 4) (?n * 16) = Some (length ?m)"
    using small len by (simp_all add: checked_section_size_Inr MAX_SECTION_ELEMENTS_def mult.commute)
  let ?rd = "(fr_reader r)\<lparr>preads := preads (fr_reader r) @ [[(64, length ?m)]]\<rparr>"
  have "slice 64 (64 + length ?m) (file_of index) = ?m" "64 + length ?m \<le> length (file_of index)"
    by (simp_all add: file_of_def slice_def)
  then have p: "pread [(64, length ?m)] (fr_reader r) = Inr ([?m], ?rd)"
    by (simp add: pread_def range_ok_def read_range_def f del: length_append)
  have c: "take (?n * fi_d index * 4) ?m = f32_bytes ?c" using small(3) by simp
  have "sum_list (map (length \<circ> fst) (stored_lists index)) = index_size index" by (simp add: stored_sizes[OF w] index_size_def)
  then have t: "fold_res (flat_load_entry ?m (?n * fi_d index * 4)) [0..<?n] (0, []) = Inr (word_of_nat (index_size index), ?t)"
    using flat_load_table_eq[of "data_start index" "stored_lists index" ?m "f32_bytes ?c" "?n * fi_d index * 4" ?n] w small
    by (simp add: writable_def)
  have "flat_ensure_loaded r = Inr (r\<lparr>fr_reader := ?rd, fr_quantizer_centroids := ?c, fr_list_offsets := map fst ?t,
      fr_list_counts := map (fst \<circ> snd) ?t, fr_list_id_bytes_lens := map (snd \<circ> snd) ?t, fr_loaded := True\<rparr>)"
    unfolding flat_ensure_loaded_def IVFFLAT_HEADER_SIZE_def r(1,2) flat_codec_eq chk ok_or_simps bind_res_Inr p
    using r(3,4) by (simp only: Let_def prod.case list.sel c t bytes_to_f32_vec_f32_bytes bind_res_Inr) simp
  moreover have "same_file (fr_reader r) ?rd" by (simp add: same_file_def)
  ultimately show ?thesis by blast
qed

section \<open>What a loaded reader holds\<close>

definition list_at :: "IVFFlatIndexReader \<Rightarrow> nat \<Rightarrow> i64 list \<Rightarrow> f32 list \<Rightarrow> bool" where
  "list_at r l ids vectors \<longleftrightarrow>
     l < fr_nlist r \<and> l < length (fr_list_offsets r) \<and> l < length (fr_list_counts r) \<and> l < length (fr_list_id_bytes_lens r)
     \<and> signed_sorted ids \<and> length vectors = length ids * fr_d r \<and> length ids \<le> I32_MAX \<and> length (id_bytes_of ids) \<le> I32_MAX
     \<and> fr_list_counts r ! l = word_of_nat (length ids) \<and> fr_list_id_bytes_lens r ! l = word_of_nat (length (id_bytes_of ids))
     \<and> length (list_bytes_of (ids, vectors)) + 3 < 2 ^ 64
     \<and> (\<exists>off. fr_list_offsets r ! l = word_of_nat off \<and> off \<le> I64_MAX \<and> off + length (list_bytes_of (ids, vectors)) < 2 ^ 64
          \<and> off + length (list_bytes_of (ids, vectors)) \<le> length (file_bytes (fr_reader r))
          \<and> slice off (off + length (list_bytes_of (ids, vectors))) (file_bytes (fr_reader r)) = list_bytes_of (ids, vectors))"

definition holds :: "IVFFlatIndexReader \<Rightarrow> (i64 list \<times> f32 list) list \<Rightarrow> bool" where
  "holds r ls \<longleftrightarrow> fr_loaded r \<and> fr_delta_ids r \<and> fr_nlist r = length ls \<and> (\<forall>l<length ls. list_at r l (fst (ls ! l)) (snd (ls ! l)))"

lemma holds_loaded [simp]: "holds r ls \<Longrightarrow> flat_ensure_loaded r = Inr r"
  by (simp add: holds_def flat_ensure_loaded_def)

lemma holds_same_file: "holds r ls \<Longrightarrow> same_file (fr_reader r) rd \<Longrightarrow> holds (r\<lparr>fr_reader := rd\<rparr>) ls"
  unfolding holds_def list_at_def same_file_def by simp

lemma slice_concat_part:
  assumes "i < length xss"
  shows "slice (length pre + length (concat (take i xss))) (length pre + length (concat (take i xss)) + length (xss ! i)) (pre @ concat xss)
    = xss ! i"
    and "length pre + length (concat (take i xss)) + length (xss ! i) \<le> length (pre @ concat xss)"
proof -
  have "concat xss = concat (take i xss) @ xss ! i @ concat (drop (Suc i) xss)"
    by (metis Cons_nth_drop_Suc append_take_drop_id assms concat.simps(2) concat_append)
  then show "slice (length pre + length (concat (take i xss))) (length pre + length (concat (take i xss)) + length (xss ! i)) (pre @ concat xss)
      = xss ! i"
    and "length pre + length (concat (take i xss)) + length (xss ! i) \<le> length (pre @ concat xss)"
    by (simp_all add: slice_def)
qed

lemma written_holds:
  assumes w: "writable index" and f: "file_bytes (fr_reader r) = file_of index" and l: "fr_loaded r" "fr_delta_ids r"
    and r: "fr_d r = fi_d index" "fr_nlist r = fi_nlist index"
    "fr_list_offsets r = map fst (table_of (data_start index) (stored_lists index))"
    "fr_list_counts r = map (fst \<circ> snd) (table_of (data_start index) (stored_lists index))"
    "fr_list_id_bytes_lens r = map (snd \<circ> snd) (table_of (data_start index) (stored_lists index))"
  shows "holds r (stored_lists index)"
  unfolding holds_def
proof (intro conjI allI impI)
  let ?ls = "stored_lists index" and ?head = "header_bytes (fi_d index) (fi_nlist index) (fi_metric index) (index_size index)
     @ f32_bytes (fi_quantizer_centroids index) @ concat (map entry_bytes (table_of (data_start index) (stored_lists index)))"
  have n: "length ?ls = fi_nlist index" using w by simp
  then have "length (concat (map entry_bytes (table_of (data_start index) ?ls))) = fi_nlist index * 16"
    by (subst length_concat_rows[of _ 16]) auto
  then have head: "length ?head = data_start index" by (simp add: data_start_def)
  fix i assume i: "i < length ?ls"
  obtain ids vs where iv: "?ls ! i = (ids, vs)" by fastforce
  let ?off = "data_start index + length (concat (map list_bytes_of (take i ?ls)))"
  have e: "table_of (data_start index) ?ls ! i = (word_of_nat ?off, word_of_nat (length ids), word_of_nat (length (id_bytes_of ids)))"
    using table_of_nth[OF i] iv by simp
  have fits: "?off \<le> I64_MAX" "length ids \<le> I32_MAX" "length (id_bytes_of ids) \<le> I32_MAX" "?off + length (list_bytes_of (ids, vs)) < 2 ^ 64"
    using table_fits_nth[OF i, of "data_start index"] w iv by (simp_all add: writable_def)
  have "64 \<le> data_start index" by (simp add: data_start_def)
  then have len: "length (list_bytes_of (ids, vs)) + 3 < 2 ^ 64" using fits(4) by linarith
  have shape: "signed_sorted ids" "length vs = length ids * fi_d index"
    using stored_lists_nth[OF w, of i] i n iv w by (auto simp: stored_ids_sorted writable_def intro!: length_stored_vectors)
  have slice: "slice ?off (?off + length (list_bytes_of (ids, vs))) (file_of index) = list_bytes_of (ids, vs)"
    using slice_concat_part(1)[of i "map list_bytes_of ?ls" ?head] i iv head by (simp add: take_map file_of_def)
  have "?off + length (list_bytes_of (ids, vs)) \<le> length (file_of index)"
    using slice_concat_part(2)[of i "map list_bytes_of ?ls" ?head] i iv head by (simp add: take_map file_of_def)
  then show "list_at r i (fst (?ls ! i)) (snd (?ls ! i))"
    unfolding list_at_def iv fst_conv snd_conv f r using i n e fits shape len slice
    by (intro conjI exI[of _ ?off]) simp_all
qed (use assms in auto)

section \<open>Reading lists in a batch\<close>

definition read_meta :: "IVFFlatIndexReader \<Rightarrow> nat \<times> nat \<Rightarrow> FlatListRead" where
  "read_meta r = (\<lambda>(i, l). \<lparr>fm_input_index = i, fm_list_id = l, fm_count = unat (fr_list_counts r ! l),
     fm_id_bytes_len = unat (fr_list_id_bytes_lens r ! l), fm_offset = unat (fr_list_offsets r ! l)\<rparr>)"

definition read_payload :: "IVFFlatIndexReader \<Rightarrow> nat \<times> nat \<Rightarrow> AlignedFlatPayload" where
  "read_payload r = (\<lambda>(i, l). let start = 12 + unat (fr_list_id_bytes_lens r ! l); n = unat (fr_list_counts r ! l) * (fr_d r * 4)
     in projr (payload_new (start + n) start n))"

lemma unat_nat32: "n \<le> I32_MAX \<Longrightarrow> unat (word_of_nat n :: i32) = n"
  by (simp add: unat_of_nat)

lemma list_at_sizes:
  assumes "list_at r l ids vs"
  shows "unat (fr_list_counts r ! l) = length ids" "unat (fr_list_id_bytes_lens r ! l) = length (id_bytes_of ids)"
    "flat_checked_list_offset (fr_list_offsets r ! l) = Inr (unat (fr_list_offsets r ! l))"
    "unat (fr_list_offsets r ! l) + length (list_bytes_of (ids, vs)) \<le> length (file_bytes (fr_reader r))"
    "slice (unat (fr_list_offsets r ! l)) (unat (fr_list_offsets r ! l) + length (list_bytes_of (ids, vs))) (file_bytes (fr_reader r))
      = list_bytes_of (ids, vs)"
    "length vs = length ids * fr_d r" "unat (fr_list_offsets r ! l) + length (list_bytes_of (ids, vs)) < 2 ^ 64"
proof -
  obtain off where off: "fr_list_offsets r ! l = word_of_nat off" "off \<le> I64_MAX"
    "off + length (list_bytes_of (ids, vs)) \<le> length (file_bytes (fr_reader r))"
    "slice off (off + length (list_bytes_of (ids, vs))) (file_bytes (fr_reader r)) = list_bytes_of (ids, vs)"
    "off + length (list_bytes_of (ids, vs)) < 2 ^ 64"
    using assms unfolding list_at_def by blast
  have u: "unat (fr_list_offsets r ! l) = off" using off(1,2) by (simp add: unat_word_of_nat64)
  show "flat_checked_list_offset (fr_list_offsets r ! l) = Inr (unat (fr_list_offsets r ! l))"
    using off(1,2) by (simp add: flat_checked_list_offset_def sint_word_of_nat64)
  show "unat (fr_list_offsets r ! l) + length (list_bytes_of (ids, vs)) \<le> length (file_bytes (fr_reader r))"
    "slice (unat (fr_list_offsets r ! l)) (unat (fr_list_offsets r ! l) + length (list_bytes_of (ids, vs))) (file_bytes (fr_reader r))
      = list_bytes_of (ids, vs)" "unat (fr_list_offsets r ! l) + length (list_bytes_of (ids, vs)) < 2 ^ 64"
    using u off by simp_all
qed (use assms in \<open>simp_all add: list_at_def unat_nat32\<close>)

lemma read_payload_eq:
  assumes l: "list_at r l ids vs" and ne: "ids \<noteq> []"
  defines "n \<equiv> 12 + length (id_bytes_of ids) + length ids * (fr_d r * 4)"
  shows "payload_new n (12 + length (id_bytes_of ids)) (length ids * (fr_d r * 4)) = Inr (read_payload r (i, l))
    \<and> n = length (list_bytes_of (ids, vs)) \<and> ap_payload_len (read_payload r (i, l)) = n
    \<and> ap_vector_start (read_payload r (i, l)) = 12 + length (id_bytes_of ids) \<and> ap_vector_len (read_payload r (i, l)) = 4 * length vs
    \<and> ap_decoded_vectors (read_payload r (i, l)) = None
    \<and> ap_read_start (read_payload r (i, l)) + n \<le> length (ap_storage (read_payload r (i, l)))"
proof -
  have len: "n = length (list_bytes_of (ids, vs))" using ne list_at_sizes(6)[OF l] by (simp add: n_def length_list_bytes)
  have small: "n + 3 < 2 ^ 64" unfolding len using l by (simp only: list_at_def)
  have rp: "read_payload r (i, l) = projr (payload_new n (12 + length (id_bytes_of ids)) (length ids * (fr_d r * 4)))"
    using list_at_sizes(1,2)[OF l] by (simp add: read_payload_def n_def Let_def)
  from payload_new_ok[of n "12 + length (id_bytes_of ids)" "length ids * (fr_d r * 4)"] small
  obtain p where "payload_new n (12 + length (id_bytes_of ids)) (length ids * (fr_d r * 4)) = Inr p"
    "ap_payload_len p = n" "ap_vector_start p = 12 + length (id_bytes_of ids)" "ap_vector_len p = length ids * (fr_d r * 4)"
    "ap_decoded_vectors p = None" "ap_read_start p + n \<le> length (ap_storage p)" by (auto simp: n_def)
  then show ?thesis using len rp list_at_sizes(6)[OF l] by simp
qed

definition empty_data :: "nat \<Rightarrow> FlatListData" where
  "empty_data l = \<lparr>fl_list_id = l, fl_ids = [], fl_payload = payload_empty\<rparr>"

lemma flat_plan_list_eq:
  assumes l: "list_at r l ids vs"
  shows "flat_plan_list r (i, l) (results, metas, payloads) =
    Inr (if ids = [] then (results[i := Some (empty_data l)], metas, payloads)
         else (results, metas @ [read_meta r (i, l)], payloads @ [read_payload r (i, l)]))"
proof (cases "ids = []")
  case True
  then show ?thesis using l list_at_sizes(1)[OF l]
    by (simp add: flat_plan_list_def list_at_def idx_def Let_def empty_data_def)
next
  case False
  note p = read_payload_eq[OF l False, of i]
  have len: "12 + length (id_bytes_of ids) + length ids * (fr_d r * 4) < 2 ^ 64" "length ids * (fr_d r * 4) < 2 ^ 64"
    using p l unfolding list_at_def by linarith+
  then have c: "flat_checked_list_bytes (length ids) (fr_d r * 4) = Inr (length ids * (fr_d r * 4))"
    "Option.bind (checked_add 12 (length (id_bytes_of ids))) (\<lambda>len. checked_add len (length ids * (fr_d r * 4)))
      = Some (12 + length (id_bytes_of ids) + length ids * (fr_d r * 4))"
    by (simp_all only: flat_codec_eq checked_list_bytes_Inr checked_add_def) simp_all
  have i: "l < fr_nlist r" "idx (fr_list_counts r) l = Inr (fr_list_counts r ! l)" "idx (fr_list_offsets r) l = Inr (fr_list_offsets r ! l)"
    "idx (fr_list_id_bytes_lens r) l = Inr (fr_list_id_bytes_lens r ! l)" using l by (simp_all add: list_at_def idx_def)
  show ?thesis using False i(1) conjunct1[OF p]
    by (simp add: flat_plan_list_def i(2-4) Let_def list_at_sizes(1-3)[OF l] c read_meta_def)
qed

text \<open>The positions of a request whose lists have rows.\<close>

definition to_read :: "(i64 list \<times> f32 list) list \<Rightarrow> nat \<Rightarrow> nat list \<Rightarrow> (nat \<times> nat) list" where
  "to_read ls n xs = filter (\<lambda>(i, l). fst (ls ! l) \<noteq> []) (enumerate n xs)"

lemma to_read_simps [simp]:
  "to_read ls n [] = []" "to_read ls n (l # xs) = (if fst (ls ! l) \<noteq> [] then [(n, l)] else []) @ to_read ls (Suc n) xs"
  by (simp_all add: to_read_def)

lemma flat_plan_lists_eq:
  assumes "holds r ls" "list_all (\<lambda>l. l < length ls) xs" "length pre = n"
  shows "fold_res (flat_plan_list r) (enumerate n xs) (pre @ replicate (length xs) None, metas, payloads) =
    Inr (pre @ map (\<lambda>l. if fst (ls ! l) = [] then Some (empty_data l) else None) xs,
         metas @ map (read_meta r) (to_read ls n xs), payloads @ map (read_payload r) (to_read ls n xs))"
  using assms(2,3)
proof (induction xs arbitrary: pre n metas payloads)
  case (Cons l xs)
  let ?v = "if fst (ls ! l) = [] then Some (empty_data l) else None"
  have la: "list_at r l (fst (ls ! l)) (snd (ls ! l))" using assms(1) Cons.prems(1) by (simp add: holds_def)
  have "flat_plan_list r (n, l) (pre @ replicate (length (l # xs)) None, metas, payloads)
    = Inr ((pre @ [?v]) @ replicate (length xs) None, metas @ map (read_meta r) (if fst (ls ! l) \<noteq> [] then [(n, l)] else []),
        payloads @ map (read_payload r) (if fst (ls ! l) \<noteq> [] then [(n, l)] else []))"
    using Cons.prems(2) by (simp add: flat_plan_list_eq[OF la] list_update_append)
  then show ?case using Cons.IH[of "pre @ [?v]" "Suc n"] Cons.prems by simp
qed simp

text \<open>What a list that was read is.\<close>

definition data_of :: "(i64 list \<times> f32 list) list \<Rightarrow> nat \<Rightarrow> FlatListData \<Rightarrow> bool" where
  "data_of ls l x \<longleftrightarrow> fl_list_id x = l \<and> fl_ids x = fst (ls ! l) \<and> fl_vectors x = snd (ls ! l)"

lemma flat_decode_list_eq:
  assumes h: "holds r ls" and l: "l < length ls" and ne: "fst (ls ! l) \<noteq> []"
  shows "\<exists>x. data_of ls l x \<and>
    flat_decode_list big (read_meta r (i, l), payload_fill (list_bytes_of (ls ! l)) (read_payload r (i, l))) results = Inr (results[i := Some x])"
proof -
  obtain ids vs where iv: "ls ! l = (ids, vs)" by fastforce
  have la: "list_at r l ids vs" using h l iv by (auto simp: holds_def)
  have ne: "ids \<noteq> []" using ne iv by simp
  note p = read_payload_eq[OF la ne, of i] and sz = list_at_sizes[OF la]
  let ?p = "payload_fill (list_bytes_of (ids, vs)) (read_payload r (i, l))"
  have rb: "payload_read_bytes ?p = list_bytes_of (ids, vs)" using p by (intro payload_fill_read) simp_all
  have parts: "slice 0 8 (list_bytes_of (ids, vs)) = u64_to_le_bytes (hd ids)"
    "slice 8 12 (list_bytes_of (ids, vs)) = u32_to_le_bytes (word_of_nat (length (id_bytes_of ids)))"
    "slice 12 (12 + length (id_bytes_of ids)) (list_bytes_of (ids, vs)) = id_bytes_of ids"
    "drop (12 + length (id_bytes_of ids)) (list_bytes_of (ids, vs)) = f32_bytes vs"
    using ne by (simp_all add: list_bytes_of_def slice_def)
  have small: "length (id_bytes_of ids) \<le> I32_MAX" "signed_sorted ids" using la by (simp_all add: list_at_def)
  have "decode_delta_varint_ids (hd ids) (id_bytes_of ids) (length ids) = Inr ids"
    using decode_encode_ids[OF small(2)] ne by (cases ids) (simp_all add: id_bytes_of_def encode_delta_varint_ids_def)
  then have dec: "flat_decode_delta_varint_ids (hd ids) (id_bytes_of ids) (length ids) = Inr ids" by (rule flat_decode_of_decode)
  have "drop (ap_vector_start ?p) (list_bytes_of (ids, vs)) = f32_bytes vs" "ap_vector_len ?p = 4 * length vs"
    "ap_decoded_vectors ?p = None" using p parts(4) by (simp_all add: payload_fill_def)
  from payload_vectors_of[OF rb this] obtain p' where p': "prepare_vectors big ?p = Inr p'" "payload_vectors p' = vs" by blast
  let ?x = "\<lparr>fl_list_id = l, fl_ids = ids, fl_payload = p'\<rparr>"
  have "flat_decode_list big (read_meta r (i, l), ?p) results = Inr (results[i := Some ?x])"
    using small(1) by (simp add: flat_decode_list_def rb parts read_meta_def sz(1,2) dec p' Let_def sint_word_of_nat32 unat_nat32)
  moreover have "data_of ls l ?x" using p'(2) iv by (simp add: data_of_def fl_vectors_def)
  ultimately show ?thesis using iv by auto
qed

lemma flat_decode_lists_eq:
  assumes "holds r ls" "list_all (\<lambda>l. l < length ls) xs" "length pre = n"
  shows "\<exists>ds. list_all2 (data_of ls) xs ds \<and>
    fold_res (flat_decode_list big)
      (map (\<lambda>il. (read_meta r il, payload_fill (list_bytes_of (ls ! snd il)) (read_payload r il))) (to_read ls n xs))
      (pre @ map (\<lambda>l. if fst (ls ! l) = [] then Some (empty_data l) else None) xs) = Inr (pre @ map Some ds)"
  using assms(2,3)
proof (induction xs arbitrary: pre n)
  case (Cons l xs)
  have l: "l < length ls" using Cons.prems(1) by simp
  let ?rest = "map (\<lambda>l. if fst (ls ! l) = [] then Some (empty_data l) else None) xs"
  let ?xs = "map (\<lambda>il. (read_meta r il, payload_fill (list_bytes_of (ls ! snd il)) (read_payload r il))) (to_read ls (Suc n) xs)"
  have IH: "\<exists>ds. list_all2 (data_of ls) xs ds \<and> fold_res (flat_decode_list big) ?xs ((pre @ [Some x]) @ ?rest) = Inr ((pre @ [Some x]) @ map Some ds)" for x
    using Cons.IH[of "pre @ [Some x]" "Suc n"] Cons.prems by simp
  show ?case
  proof (cases "fst (ls ! l) = []")
    case True
    have "list_at r l (fst (ls ! l)) (snd (ls ! l))" using assms(1) l by (simp add: holds_def)
    then have "snd (ls ! l) = []" using list_at_sizes(6) True by fastforce
    then have "data_of ls l (empty_data l)"
      using True by (simp add: data_of_def empty_data_def fl_vectors_def payload_vectors_def payload_empty_def)
    moreover obtain ds where "list_all2 (data_of ls) xs ds"
      "fold_res (flat_decode_list big) ?xs ((pre @ [Some (empty_data l)]) @ ?rest) = Inr ((pre @ [Some (empty_data l)]) @ map Some ds)"
      using IH by blast
    ultimately show ?thesis using True by (intro exI[of _ "empty_data l # ds"]) simp
  next
    case False
    obtain x where x: "data_of ls l x" "flat_decode_list big (read_meta r (n, l), payload_fill (list_bytes_of (ls ! l)) (read_payload r (n, l)))
        (pre @ None # ?rest) = Inr ((pre @ None # ?rest)[n := Some x])"
      using flat_decode_list_eq[OF assms(1) l False, of big n "pre @ None # ?rest"] by blast
    moreover obtain ds where "list_all2 (data_of ls) xs ds"
      "fold_res (flat_decode_list big) ?xs ((pre @ [Some x]) @ ?rest) = Inr ((pre @ [Some x]) @ map Some ds)" using IH by blast
    ultimately show ?thesis using False Cons.prems(2) by (intro exI[of _ "x # ds"]) (simp add: list_update_append)
  qed
qed simp

lemma pread_batched_slices_eq:
  assumes "length offsets = length lens" "sum_list lens < 2 ^ 64" "list_all (range_ok (file_bytes rd)) (zip offsets lens)"
  shows "\<exists>rd'. pread_batched_slices offsets lens rd = Inr (map (read_range (file_bytes rd)) (zip offsets lens), rd') \<and> same_file rd rd'"
proof -
  have "0 < max_ranges_of m" for m by (simp add: max_ranges_of_def)
  from pread_batched_from_spec[OF assms(1,2) this, of rd 0 "max_ranges_per_pread (capabilities rd)" MAX_IVF_BATCH_READ_BYTES] assms
  show ?thesis by (auto simp: pread_batched_slices_def pread_batched_slices_with_limit_def same_file_def)
qed

abbreviation payload_lens :: "(i64 list \<times> f32 list) list \<Rightarrow> nat list \<Rightarrow> nat list" where
  "payload_lens ls xs \<equiv> map (\<lambda>l. length (list_bytes_of (ls ! l))) xs"

lemma to_read_lens: "sum_list (map (\<lambda>il. length (list_bytes_of (ls ! snd il))) (to_read ls n xs)) = sum_list (payload_lens ls xs)"
proof (induction xs arbitrary: n)
  case (Cons l xs)
  have "length (list_bytes_of (ls ! l)) = 0" if "fst (ls ! l) = []" using that by (cases "ls ! l") (simp add: list_bytes_of_def)
  then show ?case using Cons by simp
qed simp

lemma in_to_read: "(i, l) \<in> set (to_read ls n xs) \<Longrightarrow> l \<in> set xs \<and> fst (ls ! l) \<noteq> []"
  unfolding to_read_def by (auto simp: in_set_enumerate_eq)

lemma read_range_list:
  assumes "holds r ls" "l < length ls" "fst (ls ! l) \<noteq> []"
  shows "ap_payload_len (read_payload r (i, l)) = length (list_bytes_of (ls ! l))"
    "range_ok (file_bytes (fr_reader r)) (fm_offset (read_meta r (i, l)), length (list_bytes_of (ls ! l)))"
    "read_range (file_bytes (fr_reader r)) (fm_offset (read_meta r (i, l)), length (list_bytes_of (ls ! l))) = list_bytes_of (ls ! l)"
proof -
  obtain ids vs where iv: "ls ! l = (ids, vs)" by fastforce
  have la: "list_at r l ids vs" using assms iv by (auto simp: holds_def)
  have ne: "ids \<noteq> []" using assms(3) iv by simp
  show "ap_payload_len (read_payload r (i, l)) = length (list_bytes_of (ls ! l))"
    using read_payload_eq[OF la ne, of i] by (simp add: iv)
  show "range_ok (file_bytes (fr_reader r)) (fm_offset (read_meta r (i, l)), length (list_bytes_of (ls ! l)))"
    "read_range (file_bytes (fr_reader r)) (fm_offset (read_meta r (i, l)), length (list_bytes_of (ls ! l))) = list_bytes_of (ls ! l)"
    using list_at_sizes(4,5)[OF la] by (simp_all add: iv range_ok_def read_range_def read_meta_def)
qed

lemma flat_read_inverted_lists_eq:
  assumes h: "holds r ls" and xs: "list_all (\<lambda>l. l < length ls) xs" and small: "sum_list (payload_lens ls xs) < 2 ^ 64"
  shows "\<exists>ds rd. flat_read_inverted_lists big xs r = Inr (ds, r\<lparr>fr_reader := rd\<rparr>) \<and> same_file (fr_reader r) rd \<and> list_all2 (data_of ls) xs ds"
proof -
  let ?t = "to_read ls 0 xs" and ?rd = "fr_reader r"
  have rr: "ap_payload_len (read_payload r il) = length (list_bytes_of (ls ! snd il))"
    "range_ok (file_bytes ?rd) (fm_offset (read_meta r il), length (list_bytes_of (ls ! snd il)))"
    "read_range (file_bytes ?rd) (fm_offset (read_meta r il), length (list_bytes_of (ls ! snd il))) = list_bytes_of (ls ! snd il)"
    if "il \<in> set ?t" for il
    using that in_to_read[of "fst il" "snd il" ls 0 xs] read_range_list[OF h, of "snd il" "fst il"] xs by (auto simp: list_all_iff)
  have plan: "fold_res (flat_plan_list r) (enumerate 0 xs) (replicate (length xs) None, [], []) =
    Inr (map (\<lambda>l. if fst (ls ! l) = [] then Some (empty_data l) else None) xs, map (read_meta r) ?t, map (read_payload r) ?t)"
    using flat_plan_lists_eq[OF h xs, of "[]" 0] by simp
  have dec: "\<exists>ds. list_all2 (data_of ls) xs ds \<and> fold_res (flat_decode_list big)
      (map (\<lambda>il. (read_meta r il, payload_fill (list_bytes_of (ls ! snd il)) (read_payload r il))) ?t)
      (map (\<lambda>l. if fst (ls ! l) = [] then Some (empty_data l) else None) xs) = Inr (map Some ds)"
    using flat_decode_lists_eq[OF h xs, of "[]" 0] by simp
  have lens: "map (\<lambda>il. ap_payload_len (read_payload r il)) ?t = map (\<lambda>il. length (list_bytes_of (ls ! snd il))) ?t"
    using rr(1) by simp
  let ?offs = "map fm_offset (map (read_meta r) ?t)" and ?lens = "map ap_payload_len (map (read_payload r) ?t)"
  have z: "zip ?offs ?lens = map (\<lambda>il. (fm_offset (read_meta r il), length (list_bytes_of (ls ! snd il)))) ?t"
    using lens by (simp add: comp_def zip_map_map zip_same_conv_map)
  have "sum_list ?lens < 2 ^ 64" using small unfolding map_map comp_def lens to_read_lens .
  moreover have "list_all (range_ok (file_bytes ?rd)) (zip ?offs ?lens)" unfolding z using rr(2) by (simp add: list_all_iff)
  ultimately obtain rd where "pread_batched_slices ?offs ?lens ?rd = Inr (map (read_range (file_bytes ?rd)) (zip ?offs ?lens), rd)" "same_file ?rd rd"
    using pread_batched_slices_eq[of ?offs ?lens ?rd] by auto
  moreover have "map (read_range (file_bytes ?rd)) (zip ?offs ?lens) = map (\<lambda>il. list_bytes_of (ls ! snd il)) ?t"
    unfolding z using rr(3) by simp
  ultimately have rd: "pread_batched_slices ?offs ?lens ?rd = Inr (map (\<lambda>il. list_bytes_of (ls ! snd il)) ?t, rd)" "same_file ?rd rd" by simp_all
  have zip: "zip (map (read_meta r) ?t) (map2 payload_fill (map (\<lambda>il. list_bytes_of (ls ! snd il)) ?t) (map (read_payload r) ?t))
    = map (\<lambda>il. (read_meta r il, payload_fill (list_bytes_of (ls ! snd il)) (read_payload r il))) ?t"
    by (simp add: zip_map_map zip_same_conv_map)
  obtain ds where ds: "list_all2 (data_of ls) xs ds" "fold_res (flat_decode_list big)
      (map (\<lambda>il. (read_meta r il, payload_fill (list_bytes_of (ls ! snd il)) (read_payload r il))) ?t)
      (map (\<lambda>l. if fst (ls ! l) = [] then Some (empty_data l) else None) xs) = Inr (map Some ds)" using dec by blast
  have coll: "map_res (ok_or (Err InvalidData)) (map Some ds) = Inr ds" by (induction ds) auto
  have "flat_read_inverted_lists big xs r = Inr (ds, if ?t = [] then r else r\<lparr>fr_reader := rd\<rparr>)"
    unfolding flat_read_inverted_lists_def holds_loaded[OF h] bind_res_Inr plan using h ds(2) rd(1)
    by (cases "?t = []") (simp_all add: holds_def zip coll)
  moreover have "r = r\<lparr>fr_reader := ?rd\<rparr>" "same_file ?rd ?rd" by (simp_all add: same_file_def)
  ultimately show ?thesis using ds(1) rd(2) by (metis (full_types))
qed

lemma flat_read_inverted_list_eq:
  assumes h: "holds r ls" and l: "l < length ls"
  shows "\<exists>rd. flat_read_inverted_list big l r = Inr (ls ! l, r\<lparr>fr_reader := rd\<rparr>) \<and> same_file (fr_reader r) rd"
proof -
  have "length (list_bytes_of (fst (ls ! l), snd (ls ! l))) + 3 < 2 ^ 64" using h l unfolding holds_def list_at_def by blast
  then have small: "sum_list (payload_lens ls [l]) < 2 ^ 64" by simp
  have xs: "list_all (\<lambda>l. l < length ls) [l]" using l by simp
  obtain ds rd where "flat_read_inverted_lists big [l] r = Inr (ds, r\<lparr>fr_reader := rd\<rparr>)" "same_file (fr_reader r) rd" "list_all2 (data_of ls) [l] ds"
    using flat_read_inverted_lists_eq[OF h xs small, of big] by blast
  then show ?thesis by (auto simp: list_all2_Cons1 flat_read_inverted_list_def data_of_def)
qed

section \<open>Streaming a list\<close>

lemma slice_f32_bytes:
  assumes "a \<le> b" "b \<le> length vs"
  shows "slice (4 * a) (4 * b) (f32_bytes vs) = f32_bytes (slice a b vs)"
proof -
  have "vs = take a vs @ slice a b vs @ drop b vs" using assms by (simp add: slice_append_drop)
  then have "f32_bytes vs = f32_bytes (take a vs) @ f32_bytes (slice a b vs) @ f32_bytes (drop b vs)"
    by (metis f32_bytes_append)
  then show ?thesis using assms by (simp add: slice_append_right) (simp add: slice_def)
qed

lemma stream_rows_ok:
  assumes "retained + IVF_STREAM_ALLOCATION_SLACK + row_bytes \<le> MAX_IVF_BATCH_READ_BYTES" "0 < row_bytes" "0 < remaining"
  shows "\<exists>rows. bounded_ivf_stream_chunk_rows remaining row_bytes retained 1 = Inr rows"
proof -
  let ?a = "MAX_IVF_BATCH_READ_BYTES - retained - IVF_STREAM_ALLOCATION_SLACK"
  have "row_bytes \<le> ?a" using assms(1) by simp
  then have "0 < ?a div row_bytes" using assms(2) by (simp add: div_greater_zero_iff)
  then have pos: "min (?a div row_bytes) remaining \<noteq> 0" using assms(3) by simp
  have c: "checked_sub MAX_IVF_BATCH_READ_BYTES retained = Some (MAX_IVF_BATCH_READ_BYTES - retained)"
    "checked_sub (MAX_IVF_BATCH_READ_BYTES - retained) IVF_STREAM_ALLOCATION_SLACK = Some ?a" using assms(1) by simp_all
  show ?thesis using pos assms(2,3) by (simp add: bounded_ivf_stream_chunk_rows_def c Let_def del: checked_sub_Some)
qed

text \<open>The chunks of a list: consecutive rows, none of them empty.\<close>

definition chunking :: "nat \<Rightarrow> (i64 list \<times> f32 list) list \<Rightarrow> i64 list \<Rightarrow> f32 list \<Rightarrow> bool" where
  "chunking d chunks ids vs \<longleftrightarrow> concat (map fst chunks) = ids \<and> concat (map snd chunks) = vs
     \<and> list_all (\<lambda>(i, v). i \<noteq> [] \<and> length v = length i * d) chunks"

lemma flat_stream_chunk_read:
  assumes v: "slice voff (voff + 4 * length vs) (file_bytes rd) = f32_bytes vs" "voff + 4 * length vs \<le> length (file_bytes rd)"
    and ab: "a \<le> b" "b * d \<le> length vs" "(b - a) * (d * 4) \<le> MAX_IVF_BATCH_READ_BYTES"
  shows "\<exists>p p' rd'. payload_new ((b - a) * (d * 4)) 0 ((b - a) * (d * 4)) = Inr p \<and> ap_payload_len p = (b - a) * (d * 4)
    \<and> pread [(voff + a * (d * 4), (b - a) * (d * 4))] rd = Inr ([f32_bytes (slice (a * d) (b * d) vs)], rd') \<and> same_file rd rd'
    \<and> prepare_vectors big (payload_fill (f32_bytes (slice (a * d) (b * d) vs)) p) = Inr p' \<and> payload_vectors p' = slice (a * d) (b * d) vs"
proof -
  define x y where "x = a * d" and "y = b * d"
  have xy: "x \<le> y" "y \<le> length vs" "(b - a) * (d * 4) = 4 * (y - x)" "a * (d * 4) = 4 * x"
    using ab by (simp_all add: x_def y_def diff_mult_distrib)
  let ?n = "4 * (y - x)" and ?s = "slice x y vs"
  have len: "length (f32_bytes ?s) = ?n" using xy by simp
  have "?n + 3 < 2 ^ 64" using ab(3) xy(3) by (simp add: MAX_IVF_BATCH_READ_BYTES_def)
  from payload_new_ok[of ?n 0 ?n] this obtain p where p: "payload_new ?n 0 ?n = Inr p" "ap_payload_len p = ?n" "ap_vector_start p = 0"
    "ap_vector_len p = ?n" "ap_decoded_vectors p = None" "ap_read_start p + ?n \<le> length (ap_storage p)" by auto
  let ?p = "payload_fill (f32_bytes ?s) p"
  have rb: "payload_read_bytes ?p = f32_bytes ?s" using p len by (intro payload_fill_read) simp_all
  have "drop (ap_vector_start ?p) (f32_bytes ?s) = f32_bytes ?s" "ap_vector_len ?p = 4 * length ?s" "ap_decoded_vectors ?p = None"
    using p xy by (simp_all add: payload_fill_def)
  from payload_vectors_of[OF rb this] obtain p' where p': "prepare_vectors big ?p = Inr p'" "payload_vectors p' = ?s" by blast
  have "slice (4 * x) (4 * y) (slice voff (voff + 4 * length vs) (file_bytes rd)) = f32_bytes ?s"
    unfolding v(1) by (rule slice_f32_bytes[OF xy(1,2)])
  then have "slice (voff + 4 * x) (voff + 4 * y) (file_bytes rd) = f32_bytes ?s" using xy(2) by (subst (asm) slice_slice) simp_all
  moreover have "voff + 4 * x + ?n = voff + 4 * y" using xy(1) by simp
  moreover have "voff + 4 * y \<le> length (file_bytes rd)" using v(2) xy(2) by linarith
  ultimately have "read_range (file_bytes rd) (voff + 4 * x, ?n) = f32_bytes ?s" "range_ok (file_bytes rd) (voff + 4 * x, ?n)"
    by (simp_all only: read_range_def range_ok_def fst_conv snd_conv) simp_all
  then have "pread [(voff + 4 * x, ?n)] rd = Inr ([f32_bytes ?s], rd\<lparr>preads := preads rd @ [[(voff + 4 * x, ?n)]]\<rparr>)"
    by (simp add: pread_def)
  then show ?thesis unfolding xy(3,4) x_def[symmetric] y_def[symmetric] using p(1,2) p' by (auto simp: same_file_def)
qed

lemma flat_stream_chunks_eq:
  assumes d: "0 < d" "retained + IVF_STREAM_ALLOCATION_SLACK + d * 4 \<le> MAX_IVF_BATCH_READ_BYTES"
    and v: "slice voff (voff + 4 * length vs) (file_bytes rd) = f32_bytes vs" "voff + 4 * length vs \<le> length (file_bytes rd)"
    and len: "length vs = length ids * d" "voff + 4 * length vs < 2 ^ 64"
    and a: "a \<le> length ids" "length ids - a \<le> fuel"
  shows "\<exists>chunks rd'. chunking d chunks (drop a ids) (drop (a * d) vs) \<and> same_file rd rd' \<and>
    (\<forall>s. flat_stream_chunks big (length ids) (d * 4) retained voff ids consume fuel a rd s
      = bind_res (fold_res (\<lambda>(i, v). consume i v) chunks s) (\<lambda>s'. Inr (s', rd')))"
  using v a
proof (induction fuel arbitrary: a rd)
  case 0
  then show ?case using len(1) by (intro exI[of _ "[]"] exI[of _ rd])
    (simp add: chunking_def same_file_def flat_stream_chunks.simps)
next
  case (Suc fuel)
  show ?case
  proof (cases "a < length ids")
    case False
    then show ?thesis using Suc.prems len(1) by (intro exI[of _ "[]"] exI[of _ rd])
      (simp add: chunking_def same_file_def flat_stream_chunks.simps)
  next
    case True
    obtain rows where rows: "bounded_ivf_stream_chunk_rows (length ids - a) (d * 4) retained 1 = Inr rows"
      using stream_rows_ok[of retained "d * 4" "length ids - a"] d True by auto
    have rb: "0 < rows" "rows \<le> length ids - a" "rows * (d * 4) \<le> MAX_IVF_BATCH_READ_BYTES"
      using stream_chunk_rows_bounds[OF rows] True by auto
    define b where "b = a + rows"
    have b: "a \<le> b" "b \<le> length ids" "rows = b - a" using rb b_def by simp_all
    have bd: "b * d \<le> length vs" unfolding len(1) using b(2) by (rule mult_le_mono1)
    obtain p p' rd1 where p: "payload_new (rows * (d * 4)) 0 (rows * (d * 4)) = Inr p" "ap_payload_len p = rows * (d * 4)"
      "pread [(voff + a * (d * 4), rows * (d * 4))] rd = Inr ([f32_bytes (slice (a * d) (b * d) vs)], rd1)" "same_file rd rd1"
      "prepare_vectors big (payload_fill (f32_bytes (slice (a * d) (b * d) vs)) p) = Inr p'" "payload_vectors p' = slice (a * d) (b * d) vs"
      using flat_stream_chunk_read[OF Suc.prems(1,2) b(1) bd, of big] rb(3) b(3) by auto
    have v1: "slice voff (voff + 4 * length vs) (file_bytes rd1) = f32_bytes vs" "voff + 4 * length vs \<le> length (file_bytes rd1)"
      using Suc.prems(1,2) p(4) by (simp_all add: same_file_def)
    have fuel: "length ids - b \<le> fuel" using Suc.prems(4) rb(1) b_def by simp
    obtain chunks rd' where IH: "chunking d chunks (drop b ids) (drop (b * d) vs)" "same_file rd1 rd'"
      "\<And>s. flat_stream_chunks big (length ids) (d * 4) retained voff ids consume fuel b rd1 s
        = bind_res (fold_res (\<lambda>(i, v). consume i v) chunks s) (\<lambda>s'. Inr (s', rd'))"
      using Suc.IH[OF v1 b(2) fuel] by blast
    let ?c = "(slice a b ids, slice (a * d) (b * d) vs)"
    have "a * d \<le> b * d" using b(1) by simp
    then have "slice a b ids @ drop b ids = drop a ids" "slice (a * d) (b * d) vs @ drop (b * d) vs = drop (a * d) vs"
      using b(1) by (simp_all add: slice_append_drop)
    moreover have "slice a b ids \<noteq> []" "length (slice (a * d) (b * d) vs) = length (slice a b ids) * d"
      using b bd rb(1) by (simp_all add: diff_mult_distrib flip: length_0_conv)
    ultimately have ch: "chunking d (?c # chunks) (drop a ids) (drop (a * d) vs)" using IH(1) by (simp add: chunking_def)
    have "a * d \<le> length vs" using bd \<open>a * d \<le> b * d\<close> by (rule order_trans[rotated])
    then have "a * (d * 4) \<le> 4 * length vs" by simp
    then have "a * (d * 4) < 2 ^ 64" "voff + a * (d * 4) < 2 ^ 64" using len(2) by linarith+
    moreover have "MAX_IVF_BATCH_READ_BYTES < 2 ^ 64" by (simp add: MAX_IVF_BATCH_READ_BYTES_def)
    then have "rows * (d * 4) < 2 ^ 64" using rb(3) by (rule le_less_trans[rotated])
    ultimately have chk: "checked_mul rows (d * 4) = Some (rows * (d * 4))" "checked_mul a (d * 4) = Some (a * (d * 4))"
      "checked_add voff (a * (d * 4)) = Some (voff + a * (d * 4))" unfolding checked_mul_Some checked_add_Some by blast+
    have sub: "subslice a b ids = Inr (slice a b ids)" using b(1,2) by (simp add: subslice_def)
    have "flat_stream_chunks big (length ids) (d * 4) retained voff ids consume (Suc fuel) a rd s
      = bind_res (fold_res (\<lambda>(i, v). consume i v) (?c # chunks) s) (\<lambda>s'. Inr (s', rd'))" for s
      using True rows p(3) by (subst flat_stream_chunks.simps)
        (simp add: chk sub p ext[OF IH(3)] bind_res_assoc flip: b_def del: checked_mul_Some checked_add_Some)
    then show ?thesis using ch IH(2) p(4) by (intro exI[of _ "?c # chunks"] exI[of _ rd']) (simp add: same_file_def)
  qed
qed

text \<open>Streaming needs the ids and one row to fit the memory bound.\<close>

definition streamable :: "nat \<Rightarrow> i64 list \<Rightarrow> bool" where
  "streamable d ids \<longleftrightarrow> 12 + length (id_bytes_of ids) + length ids * 8 \<le> MAX_IVF_BATCH_READ_BYTES
     \<and> length ids * 8 + IVF_STREAM_ALLOCATION_SLACK + d * 4 \<le> MAX_IVF_BATCH_READ_BYTES"

lemma take_slice: "n \<le> m \<Longrightarrow> take n (slice a (a + m) xs) = slice a (a + n) xs"
  by (simp add: slice_def min_absorb1)

lemma read_ids_at_eq:
  assumes la: "list_at r l ids vs" and ne: "ids \<noteq> []" and s: "streamable d ids"
  shows "\<exists>rd. read_delta_varint_ids_at (unat (fr_list_offsets r ! l)) (length ids) (length (id_bytes_of ids)) (fr_reader r) = Inr (ids, rd)
    \<and> same_file (fr_reader r) rd"
proof -
  let ?off = "unat (fr_list_offsets r ! l)" and ?n = "12 + length (id_bytes_of ids)" and ?rd = "fr_reader r"
  let ?b = "list_bytes_of (ids, vs)"
  have len: "length ?b = ?n + 4 * length vs" using ne by (simp add: length_list_bytes)
  have "take ?n ?b = take ?n (slice ?off (?off + length ?b) (file_bytes ?rd))" by (simp only: list_at_sizes(5)[OF la])
  also have "\<dots> = slice ?off (?off + ?n) (file_bytes ?rd)" by (rule take_slice) (simp only: len le_add1)
  finally have "take ?n ?b = slice ?off (?off + ?n) (file_bytes ?rd)" .
  moreover have "take ?n ?b = u64_to_le_bytes (hd ids) @ u32_to_le_bytes (word_of_nat (length (id_bytes_of ids))) @ id_bytes_of ids"
    using ne by (simp add: list_bytes_of_def)
  moreover have "?off + ?n \<le> length (file_bytes ?rd)" using list_at_sizes(4)[OF la] len by simp
  ultimately have p: "pread [(?off, ?n)] ?rd
    = Inr ([u64_to_le_bytes (hd ids) @ u32_to_le_bytes (word_of_nat (length (id_bytes_of ids))) @ id_bytes_of ids],
        ?rd\<lparr>preads := preads ?rd @ [[(?off, ?n)]]\<rparr>)"
    by (simp add: pread_def range_ok_def read_range_def)
  have small: "length (id_bytes_of ids) \<le> I32_MAX" "signed_sorted ids" using la by (simp_all add: list_at_def)
  have "decode_delta_varint_ids (hd ids) (id_bytes_of ids) (length ids) = Inr ids"
    using decode_encode_ids[OF small(2)] ne by (cases ids) (simp_all add: id_bytes_of_def encode_delta_varint_ids_def)
  moreover have "?n + length ids * 8 < 2 ^ 64" "\<not> MAX_IVF_BATCH_READ_BYTES < ?n + length ids * 8"
    using s by (simp_all add: streamable_def MAX_IVF_BATCH_READ_BYTES_def)
  ultimately show ?thesis using small(1) p
    by (simp add: read_delta_varint_ids_at_def checked_add_def checked_mul_def Let_def slice_def sint_word_of_nat32 same_file_def)
qed

lemma flat_stream_list_eq:
  assumes la: "list_at r l ids vs" and ne: "ids \<noteq> []" and s: "streamable (fr_d r) ids" and r: "fr_loaded r" "0 < fr_d r"
  shows "\<exists>chunks rd. chunking (fr_d r) chunks ids vs \<and> same_file (fr_reader r) rd \<and>
    (\<forall>s. flat_for_each_streamed_list_chunk big l consume r s
      = bind_res (fold_res (\<lambda>(i, v). consume i v) chunks s) (\<lambda>s'. Inr (s', r\<lparr>fr_reader := rd\<rparr>)))"
proof -
  let ?off = "unat (fr_list_offsets r ! l)" and ?n = "12 + length (id_bytes_of ids)" and ?b = "list_bytes_of (ids, vs)"
  obtain rd where rd: "read_delta_varint_ids_at ?off (length ids) (length (id_bytes_of ids)) (fr_reader r) = Inr (ids, rd)"
    "same_file (fr_reader r) rd" using read_ids_at_eq[OF la ne s] by blast
  have len: "length ?b = ?n + 4 * length vs" using ne by (simp add: length_list_bytes)
  have "f32_bytes vs = slice ?n (length ?b) ?b" using ne len by (simp add: list_bytes_of_def slice_def)
  also have "\<dots> = slice ?n (length ?b) (slice ?off (?off + length ?b) (file_bytes (fr_reader r)))" using list_at_sizes(5)[OF la] by simp
  also have "\<dots> = slice (?off + ?n) (?off + length ?b) (file_bytes rd)"
    using rd(2) by (subst slice_slice) (simp_all add: same_file_def)
  finally have f: "slice (?off + ?n) (?off + length ?b) (file_bytes rd) = f32_bytes vs" by (rule sym)
  have e: "?off + length ?b = ?off + ?n + 4 * length vs" unfolding len by (rule add.assoc[symmetric])
  have fb: "file_bytes (fr_reader r) = file_bytes rd" using rd(2) by (simp add: same_file_def)
  note v = f[unfolded e] list_at_sizes(4)[OF la, unfolded e fb] list_at_sizes(7)[OF la, unfolded e]
  have fits: "length ids * 8 + IVF_STREAM_ALLOCATION_SLACK + fr_d r * 4 \<le> MAX_IVF_BATCH_READ_BYTES" using s by (simp add: streamable_def)
  obtain chunks rd' where c: "chunking (fr_d r) chunks (drop 0 ids) (drop (0 * fr_d r) vs)" "same_file rd rd'"
    "\<And>s. flat_stream_chunks big (length ids) (fr_d r * 4) (length ids * 8) (?off + ?n) ids consume (length ids) 0 rd s
      = bind_res (fold_res (\<lambda>(i, v). consume i v) chunks s) (\<lambda>s'. Inr (s', rd'))"
    using flat_stream_chunks_eq[OF r(2) fits v(1,2) list_at_sizes(6)[OF la] v(3) le0 diff_le_self, of big consume] by blast
  have i: "idx (fr_list_counts r) l = Inr (fr_list_counts r ! l)" "idx (fr_list_offsets r) l = Inr (fr_list_offsets r ! l)"
    "idx (fr_list_id_bytes_lens r) l = Inr (fr_list_id_bytes_lens r ! l)" using la by (simp_all add: list_at_def idx_def)
  have "fr_d r * 4 < 2 ^ 64" "length ids * 8 < 2 ^ 64" using fits by (simp_all add: MAX_IVF_BATCH_READ_BYTES_def)
  moreover have "?off + ?n < 2 ^ 64" using v(3) by (rule le_less_trans[rotated]) (rule le_add1)
  ultimately have chk: "checked_mul (fr_d r) 4 = Some (fr_d r * 4)" "checked_mul (length ids) 8 = Some (length ids * 8)"
    "checked_add ?off ?n = Some (?off + ?n)" unfolding checked_mul_Some checked_add_Some by blast+
  have "flat_for_each_streamed_list_chunk big l consume r s
      = bind_res (fold_res (\<lambda>(i, v). consume i v) chunks s) (\<lambda>s'. Inr (s', r\<lparr>fr_reader := rd'\<rparr>))" for s
    using r(1) unfolding flat_for_each_streamed_list_chunk_def flat_ensure_loaded_def
    by (simp add: i Let_def list_at_sizes(1-3)[OF la] rd(1) chk c(3) bind_res_assoc del: checked_mul_Some checked_add_Some)
  then show ?thesis using c(1,2) rd(2) by (intro exI[of _ chunks] exI[of _ rd']) (simp add: same_file_def)
qed

section \<open>From a written file to its lists\<close>

lemma open_load_holds:
  assumes w: "writable index" and f: "file_bytes rd = file_of index"
  shows "\<exists>r r'. flat_open rd = Inr r \<and> flat_ensure_loaded r = Inr r' \<and> holds r' (stored_lists index)
    \<and> fr_d r' = fi_d index \<and> fr_metric r' = fi_metric index \<and> fr_quantizer_centroids r' = fi_quantizer_centroids index
    \<and> file_bytes (fr_reader r') = file_of index \<and> capabilities (fr_reader r') = capabilities rd"
proof -
  let ?r = "\<lparr>fr_reader = rd\<lparr>preads := preads rd @ [[(0, 64)]]\<rparr>, fr_d = fi_d index, fr_nlist = fi_nlist index,
        fr_metric = fi_metric index, fr_total_vectors = word_of_nat (index_size index),
        fr_quantizer_centroids = [], fr_list_offsets = [], fr_list_counts = [], fr_list_id_bytes_lens = [],
        fr_delta_ids = True, fr_loaded = False\<rparr>"
  have "file_bytes (fr_reader ?r) = file_of index" using f by simp
  from flat_ensure_loaded_eq[OF w this] obtain rd' where rd: "same_file (fr_reader ?r) rd'"
    "flat_ensure_loaded ?r = Inr (?r\<lparr>fr_reader := rd', fr_quantizer_centroids := fi_quantizer_centroids index,
      fr_list_offsets := map fst (table_of (data_start index) (stored_lists index)),
      fr_list_counts := map (fst \<circ> snd) (table_of (data_start index) (stored_lists index)),
      fr_list_id_bytes_lens := map (snd \<circ> snd) (table_of (data_start index) (stored_lists index)), fr_loaded := True\<rparr>)"
    (is "_ = Inr ?r'") by auto
  have f': "file_bytes (fr_reader ?r') = file_of index" "capabilities (fr_reader ?r') = capabilities rd"
    using rd(1) f by (simp_all add: same_file_def)
  have "holds ?r' (stored_lists index)" using f'(1) by (intro written_holds[OF w]) simp_all
  then show ?thesis using flat_open_eq[OF w f] rd(2) f' by (intro exI[of _ ?r] exI[of _ ?r']) simp
qed

lemma flat_read_inverted_lists_loads:
  assumes "flat_ensure_loaded r = Inr r'" "fr_loaded r'"
  shows "flat_read_inverted_lists big xs r = flat_read_inverted_lists big xs r'"
  using assms by (simp add: flat_read_inverted_lists_def flat_ensure_loaded_def[of r'])

lemma write_ivfflat_index_iff: "write_ivfflat_index index [] = Inr bs \<longleftrightarrow> writable index \<and> bs = file_of index"
  unfolding write_ivfflat_index_def using write_ivfflat_index_sound write_ivfflat_index_complete by blast

lemma written_lists_read:
  assumes "write_ivfflat_index index [] = Inr bs" "file_bytes rd = bs" "l < fi_nlist index"
  shows "\<exists>r r'. flat_open rd = Inr r \<and> flat_read_inverted_list big l r = Inr (stored_lists index ! l, r')
    \<and> fr_d r' = fi_d index \<and> fr_metric r' = fi_metric index \<and> fr_quantizer_centroids r' = fi_quantizer_centroids index"
proof -
  have w: "writable index" and f: "file_bytes rd = file_of index" using assms(1,2) by (simp_all add: write_ivfflat_index_iff)
  obtain r r' where r: "flat_open rd = Inr r" "flat_ensure_loaded r = Inr r'" "holds r' (stored_lists index)"
    "fr_d r' = fi_d index" "fr_metric r' = fi_metric index" "fr_quantizer_centroids r' = fi_quantizer_centroids index"
    using open_load_holds[OF w f] by blast
  have "l < length (stored_lists index)" using assms(3) w by simp
  from flat_read_inverted_list_eq[OF r(3) this, of big] obtain rd' where
    "flat_read_inverted_list big l r' = Inr (stored_lists index ! l, r'\<lparr>fr_reader := rd'\<rparr>)" by blast
  moreover have "flat_read_inverted_lists big [l] r = flat_read_inverted_lists big [l] r'"
    using flat_read_inverted_lists_loads[OF r(2)] r(3) by (simp add: holds_def)
  ultimately have "flat_read_inverted_list big l r = Inr (stored_lists index ! l, r'\<lparr>fr_reader := rd'\<rparr>)"
    by (simp add: flat_read_inverted_list_def)
  then show ?thesis using r(1,4-6) by (intro exI[of _ r] exI[of _ "r'\<lparr>fr_reader := rd'\<rparr>"]) simp
qed

section \<open>Properties\<close>

text \<open>C5: a written IVF-FLAT index opens again, with its dimension, metric and centroids, and each of
  its lists reads back: the row ids in ascending signed order and, row by row, the vector of each id
  bit for bit, equal ids in their order of insertion.\<close>

theorem flat_file_roundtrip:
  assumes "write_ivfflat_index index [] = Inr bs" "file_bytes rd = bs" "l < fi_nlist index"
  shows "\<exists>r r'. flat_open rd = Inr r
    \<and> flat_read_inverted_list big l r
      = Inr ((map (\<lambda>i. fi_ids index ! l ! i) (stored_order (fi_ids index ! l)),
              concat (map (row_of (fi_d index) (fi_vectors index ! l)) (stored_order (fi_ids index ! l)))), r')
    \<and> fr_d r' = fi_d index \<and> fr_metric r' = fi_metric index \<and> fr_quantizer_centroids r' = fi_quantizer_centroids index"
proof -
  have "writable index" using assms(1) by (simp add: write_ivfflat_index_iff)
  from stored_lists_nth[OF this assms(3)] written_lists_read[OF assms, of big] show ?thesis
    by (simp add: stored_ids_def stored_vectors_def)
qed

definition sample_index :: IVFFlatIndex where
  "sample_index = \<lparr>fi_d = 1, fi_nlist = 1, fi_metric = L2, fi_quantizer_centroids = [F32 0], fi_ids = [[7, 3]], fi_vectors = [[F32 1, F32 2]]\<rparr>"

definition sample_reader :: seek_reader where
  "sample_reader = \<lparr>file_bytes = file_of sample_index, capabilities = \<lparr>estimated_random_read_latency_nanos = 0,
     preferred_window_bytes = 0, max_ranges_per_pread = 0\<rparr>, preads = []\<rparr>"

lemma sample_order: "stored_order [7, 3] = [1, 0]"
  by (simp add: stored_order_def upt_rec)

lemma sample_ids: "id_bytes_of [3, 7] = [0, 4]"
  by (simp add: id_bytes_of_def encode_delta_varint_ids_def write_u64_varint.simps)

lemma sample_lists: "stored_lists sample_index = [([3, 7], [F32 2, F32 1])]"
  by (simp add: stored_lists_def sample_index_def stored_ids_def stored_vectors_def sample_order row_of_def slice_def)

lemma sample_writable: "writable sample_index"
proof -
  have "table_fits (data_start sample_index) (stored_lists sample_index)"
    unfolding sample_lists by (simp add: data_start_def sample_index_def length_list_bytes sample_ids)
  then show ?thesis by (simp add: writable_def) (simp add: sample_index_def index_size_def MAX_SECTION_ELEMENTS_def)
qed

theorem flat_file_roundtrip_witness:
  "write_ivfflat_index sample_index [] = Inr (file_of sample_index) \<and>
   (\<exists>r r'. flat_open sample_reader = Inr r \<and> flat_read_inverted_list False 0 r = Inr (([3, 7], [F32 2, F32 1]), r') \<and> fr_d r' = 1)"
proof -
  have w: "write_ivfflat_index sample_index [] = Inr (file_of sample_index)"
    by (simp add: write_ivfflat_index_iff sample_writable)
  have "file_bytes sample_reader = file_of sample_index" "0 < fi_nlist sample_index"
    by (simp_all add: sample_reader_def sample_index_def)
  from flat_file_roundtrip[OF w this, of False] w show ?thesis
    by (auto simp: sample_index_def sample_order row_of_def slice_def)
qed

text \<open>C20: the IVF-FLAT writer succeeds exactly on the indexes the format can hold, and then the
  bytes are the header, the centroids, the list table and the lists, whatever the write buffer splits.\<close>

theorem flat_writer_exact:
  "write_ivfflat_index index [] = Inr bs \<longleftrightarrow> writable index \<and> bs = file_of index"
  by (rule write_ivfflat_index_iff)

text \<open>C21: streaming a stored list delivers the list of the file in chunks of whole rows, in order,
  each row once; it stops after the last row, or with the error of the consumer.\<close>

theorem flat_stream_delivers_list:
  assumes "list_at r l ids vs" "ids \<noteq> []" "streamable (fr_d r) ids" "fr_loaded r" "0 < fr_d r"
  shows "\<exists>chunks r'. concat (map fst chunks) = ids \<and> concat (map snd chunks) = vs
    \<and> list_all (\<lambda>(i, v). i \<noteq> [] \<and> length v = length i * fr_d r) chunks
    \<and> flat_for_each_streamed_list_chunk big l consume r s
      = bind_res (fold_res (\<lambda>(i, v). consume i v) chunks s) (\<lambda>s'. Inr (s', r'))"
proof -
  from flat_stream_list_eq[OF assms, of big consume] obtain chunks rd where
    "chunking (fr_d r) chunks ids vs" "flat_for_each_streamed_list_chunk big l consume r s
      = bind_res (fold_res (\<lambda>(i, v). consume i v) chunks s) (\<lambda>s'. Inr (s', r\<lparr>fr_reader := rd\<rparr>))" by blast
  then show ?thesis unfolding chunking_def by blast
qed

theorem flat_stream_delivers_list_witness:
  "\<exists>r r'. list_at r 0 [3, 7] [F32 2, F32 1] \<and> streamable (fr_d r) [3, 7]
    \<and> flat_for_each_streamed_list_chunk False 0 (\<lambda>i v s. Inr (s @ i)) r [] = Inr ([3, 7], r')"
proof -
  have "file_bytes sample_reader = file_of sample_index" by (simp add: sample_reader_def)
  from open_load_holds[OF sample_writable this] obtain r where r: "holds r (stored_lists sample_index)" "fr_d r = 1"
    by (auto simp: sample_index_def)
  have la: "list_at r 0 [3, 7] [F32 2, F32 1]" "fr_loaded r" using r(1) by (simp_all add: holds_def sample_lists)
  have st: "streamable (fr_d r) [3, 7]"
    by (simp add: streamable_def r(2) sample_ids MAX_IVF_BATCH_READ_BYTES_def IVF_STREAM_ALLOCATION_SLACK_def)
  have pos: "0 < fr_d r" using r(2) by simp
  obtain chunks :: "(i64 list \<times> f32 list) list" and r' where "concat (map fst chunks) = [3, 7]"
    "flat_for_each_streamed_list_chunk False 0 (\<lambda>i v s. Inr (s @ i)) r []
      = bind_res (fold_res (\<lambda>(i, v) s. Inr (s @ i)) chunks []) (\<lambda>s'. Inr (s', r'))"
    using flat_stream_delivers_list[OF la(1) list.distinct(2) st la(2) pos, of False "\<lambda>i v s. Inr (s @ i)" "[]"] by blast
  moreover have "fold_res (\<lambda>(i, v) s. Inr (s @ i)) chunks [] = Inr ([] @ concat (map fst chunks))"
    by (rule fold_res_appends) auto
  ultimately show ?thesis using la(1) st by auto
qed

text \<open>C22: whatever list of row ids the shared decoder accepts, the decoder of the batched IVF-FLAT
  reader accepts with the same ids. The converse fails: the batched decoder does not look at bytes
  after the last id, which the decoder of the streaming reader refuses.\<close>

theorem flat_decoder_lenient:
  "(case decode_delta_varint_ids base buf n of Inl _ \<Rightarrow> True | Inr ids \<Rightarrow> flat_decode_delta_varint_ids base buf n = Inr ids)
    \<and> flat_decode_delta_varint_ids 5 [0, 0] 1 = Inr [5] \<and> decode_delta_varint_ids 5 [0, 0] 1 = Inl (Err InvalidData)"
proof -
  have "flat_decode_delta_varint_ids 5 [0, 0] 1 = Inr [5]"
    by (simp add: flat_decode_delta_varint_ids_def decode_varint_eq read_u64_varint_def Let_def)
  moreover have "decode_delta_varint_ids 5 [0, 0] 1 = Inl (Err InvalidData)"
    by (simp add: decode_delta_varint_ids_def read_u64_varint_def Let_def)
  ultimately show ?thesis using flat_decode_of_decode[of base buf n] by (simp split: sum.split)
qed

end
