(* ===== verification/Flat_Search.thy ===== *)
theory Flat_Search
  imports Flat_Roundtrip
begin

text \<open>
  The searches of \<open>core/src/ivfflat_io.rs\<close> over an opened file: single top-k, batched top-k and range
  search. The three read the probed lists with one loop, \<open>flat_list_loop\<close>: an oversized list is
  streamed, the others are read in batches; what is done with a list is an argument.

  Work that the code hands to a thread pool is a sequence of tasks. Local heaps are merged in list
  order, as the code does; the tasks of a parallel range scan take a lock to merge, so their order is
  an argument \<open>sched\<close> that permutes them. \<open>RoaringTreemap::deserialize_from\<close> and \<open>contains\<close> are the
  argument \<open>roaring\<close>.
\<close>

definition PARALLEL_FLAT_SCAN_MIN_COMPONENTS :: nat where
  "PARALLEL_FLAT_SCAN_MIN_COMPONENTS = 1024 * 1024"

definition scan_flat_list ::
  "arch \<Rightarrow> 'c Collector \<Rightarrow> f32 list \<Rightarrow> FlatListData \<Rightarrow> nat \<Rightarrow> MetricType \<Rightarrow> row_filter \<Rightarrow> 'c \<Rightarrow> 'c res" where
  "scan_flat_list t col query list_data d metric row_filter c =
     scan_flat_rows t col query (fl_ids list_data) (fl_vectors list_data) d metric row_filter c"

text \<open>A Roaring filter holds no negative id.\<close>

type_synonym roaring = "bytes \<Rightarrow> (u64 \<Rightarrow> bool) option"

definition roaring_contains :: "(u64 \<Rightarrow> bool) \<Rightarrow> i64 \<Rightarrow> bool" where
  "roaring_contains members row \<longleftrightarrow> 0 \<le> sint row \<and> members row"

definition decode_roaring_filter :: "roaring \<Rightarrow> bytes \<Rightarrow> (u64 \<Rightarrow> bool) res" where
  "decode_roaring_filter roaring bs = ok_or (Err InvalidInput) (roaring bs)"

section \<open>The loop over the lists\<close>

function flat_list_loop ::
  "bool \<Rightarrow> (IVFFlatIndexReader \<Rightarrow> nat \<Rightarrow> 's \<Rightarrow> 's res) \<Rightarrow> (nat \<Rightarrow> i64 list \<Rightarrow> f32 list \<Rightarrow> 's \<Rightarrow> 's res) \<Rightarrow>
   (IVFFlatIndexReader \<Rightarrow> FlatListData list \<Rightarrow> 's \<Rightarrow> 's res) \<Rightarrow>
   nat list \<Rightarrow> IVFFlatIndexReader \<Rightarrow> 's \<Rightarrow> ('s \<times> IVFFlatIndexReader) res" where
  "flat_list_loop big enter chunk batch [] r s = Inr (s, r)"
| "flat_list_loop big enter chunk batch (first_list # rest_lists) r s =
     bind_res (flat_list_payload_len first_list r) (\<lambda>payload_len.
     if ivf_payload_is_oversized payload_len then
       bind_res (enter r first_list s) (\<lambda>s1.
       bind_res (flat_for_each_streamed_list_chunk big first_list (chunk first_list) r s1) (\<lambda>(s2, r').
         flat_list_loop big enter chunk batch rest_lists r' s2))
     else bind_res (flat_batch_read_end (first_list # rest_lists) r) (\<lambda>read_end.
       let cnt = max read_end 1 in
       bind_res (flat_read_inverted_lists big (take cnt (first_list # rest_lists)) r) (\<lambda>(lists_read, r').
       bind_res (batch r' lists_read s) (\<lambda>s'.
         flat_list_loop big enter chunk batch (drop cnt (first_list # rest_lists)) r' s'))))"
  by pat_completeness auto
termination
  by (relation "measure (\<lambda>(big, enter, chunk, batch, rest, r, s). length rest)") auto

section \<open>Top-k search of one query\<close>

definition flat_scan_batch ::
  "arch \<Rightarrow> f32 list \<Rightarrow> nat \<Rightarrow> row_filter \<Rightarrow> IVFFlatIndexReader \<Rightarrow> FlatListData list \<Rightarrow> ReaderTopKHeap \<Rightarrow> ReaderTopKHeap res" where
  "flat_scan_batch t q k row_filter r lists_read heap =
     (let scan_components = saturating_mul (sum_list (map (length \<circ> fl_ids) lists_read)) (fr_d r) in
      if 1 < length lists_read \<and> PARALLEL_FLAT_SCAN_MIN_COMPONENTS \<le> scan_components then
        bind_res (map_res (\<lambda>l. bind_res (scan_flat_list t reader_collector q l (fr_d r) (fr_metric r) row_filter (reader_heap_new k))
            (\<lambda>local_heap. Inr (reader_heap_into_sorted local_heap))) lists_read) (\<lambda>per_list_results.
          fold_res merge_flat_results per_list_results heap)
      else fold_res (\<lambda>l. scan_flat_list t reader_collector q l (fr_d r) (fr_metric r) row_filter) lists_read heap)"

definition flat_reader_search_with_filter ::
  "bool \<Rightarrow> arch \<Rightarrow> selector \<Rightarrow> f32 list \<Rightarrow> nat \<Rightarrow> nat \<Rightarrow> row_filter \<Rightarrow> IVFFlatIndexReader \<Rightarrow>
   ((i64 list \<times> f32 list) \<times> IVFFlatIndexReader) res" where
  "flat_reader_search_with_filter big t sel query k nprobe row_filter r0 =
     bind_res (flat_ensure_loaded r0) (\<lambda>r.
     if length query \<noteq> fr_d r then Inl (Err InvalidInput)
     else if k = 0 then Inl (Err InvalidInput)
     else if nprobe = 0 then Inl (Err InvalidInput)
     else (let q = (if fr_metric r = Cosine then fst (fvec_normalize t query) else query) in
       bind_res (find_topk t sel q (fr_quantizer_centroids r) (fr_nlist r) (fr_d r) nprobe) (\<lambda>(probe_indices, _).
       bind_res (flat_list_loop big (\<lambda>_ _ heap. Inr heap)
           (\<lambda>_ ids vectors heap. scan_flat_rows t reader_collector q ids vectors (fr_d r) (fr_metric r) row_filter heap)
           (flat_scan_batch t q k row_filter) probe_indices r (reader_heap_new k)) (\<lambda>(heap, r').
         Inr (padded_flat_results heap k, r')))))"

definition flat_reader_search ::
  "bool \<Rightarrow> arch \<Rightarrow> selector \<Rightarrow> f32 list \<Rightarrow> nat \<Rightarrow> nat \<Rightarrow> IVFFlatIndexReader \<Rightarrow> ((i64 list \<times> f32 list) \<times> IVFFlatIndexReader) res" where
  "flat_reader_search big t sel query k nprobe r = flat_reader_search_with_filter big t sel query k nprobe None r"

definition flat_reader_search_with_roaring_filter ::
  "roaring \<Rightarrow> bool \<Rightarrow> arch \<Rightarrow> selector \<Rightarrow> f32 list \<Rightarrow> nat \<Rightarrow> nat \<Rightarrow> bytes \<Rightarrow> IVFFlatIndexReader \<Rightarrow>
   ((i64 list \<times> f32 list) \<times> IVFFlatIndexReader) res" where
  "flat_reader_search_with_roaring_filter roaring big t sel query k nprobe roaring_filter_bytes r =
     bind_res (decode_roaring_filter roaring roaring_filter_bytes) (\<lambda>members.
       flat_reader_search_with_filter big t sel query k nprobe (Some (roaring_contains members)) r)"

section \<open>The lists that a batch of queries selects\<close>

text \<open>For each list the queries that probe it, ascending, and the lists in the order they are first
  probed.\<close>

definition fan_out_list :: "nat \<Rightarrow> nat \<Rightarrow> nat list list \<times> nat list \<Rightarrow> (nat list list \<times> nat list) res" where
  "fan_out_list qi list_id = (\<lambda>(list_to_queries, unique_lists).
     bind_res (idx list_to_queries list_id) (\<lambda>queries_of_list.
       Inr (list_to_queries[list_id := queries_of_list @ [qi]],
            if queries_of_list = [] then unique_lists @ [list_id] else unique_lists)))"

definition fan_out :: "nat \<Rightarrow> nat list list \<Rightarrow> (nat list list \<times> nat list) res" where
  "fan_out nlist probe_lists =
     fold_res (\<lambda>(qi, probe). fold_res (fan_out_list qi) probe) (enumerate 0 probe_lists) (replicate nlist [], [])"

section \<open>Top-k search of a batch of queries\<close>

definition validate_batch_seed :: "i64 list \<Rightarrow> f32 list \<Rightarrow> nat \<Rightarrow> nat \<Rightarrow> unit res" where
  "validate_batch_seed seed_ids seed_distances nq k =
     bind_res (ok_or (Err InvalidInput) (checked_mul nq k)) (\<lambda>expected.
       if seed_ids = [] \<and> seed_distances = [] \<or> length seed_ids = expected \<and> length seed_distances = expected
       then Inr () else Inl (Err InvalidInput))"

text \<open>\<open>xs.get(a..b).unwrap_or_default()\<close>.\<close>

definition get_or_empty :: "nat \<Rightarrow> nat \<Rightarrow> 'a list \<Rightarrow> 'a list" where
  "get_or_empty a b xs = (if a \<le> b \<and> b \<le> length xs then slice a b xs else [])"

definition seed_flat_heaps :: "ReaderTopKHeap list \<Rightarrow> i64 list \<Rightarrow> f32 list \<Rightarrow> nat \<Rightarrow> ReaderTopKHeap list res" where
  "seed_flat_heaps heaps seed_ids seed_distances k =
     map_res (\<lambda>(query_index, heap).
       let start = query_index * k in
       fold_res (\<lambda>(row, distance) h. if \<not> f32_eq distance f32_MAX then reader_heap_push distance row h else Inr h)
         (zip (get_or_empty start (start + k) seed_ids) (get_or_empty start (start + k) seed_distances)) heap)
       (enumerate 0 heaps)"

text \<open>One update of the heap of a query.\<close>

definition update_heap :: "nat \<Rightarrow> ('h \<Rightarrow> 'h res) \<Rightarrow> 'h list \<Rightarrow> 'h list res" where
  "update_heap qi f heaps = bind_res (idx heaps qi) (\<lambda>h. bind_res (f h) (\<lambda>h'. Inr (heaps[qi := h'])))"

definition query_slice :: "f32 list \<Rightarrow> nat \<Rightarrow> nat \<Rightarrow> f32 list res" where
  "query_slice queries d qi = subslice (qi * d) ((qi + 1) * d) queries"

definition flat_batch_chunk ::
  "arch \<Rightarrow> f32 list \<Rightarrow> nat \<Rightarrow> MetricType \<Rightarrow> row_filter \<Rightarrow> nat list list \<Rightarrow> nat \<Rightarrow> i64 list \<Rightarrow> f32 list \<Rightarrow>
   ReaderTopKHeap list \<Rightarrow> ReaderTopKHeap list res" where
  "flat_batch_chunk t processed d metric row_filter list_to_queries list_id ids vectors heaps =
     bind_res (idx list_to_queries list_id) (\<lambda>query_indices.
     fold_res (\<lambda>qi hs. bind_res (query_slice processed d qi) (\<lambda>query.
       update_heap qi (scan_flat_rows t reader_collector query ids vectors d metric row_filter) hs)) query_indices heaps)"

definition flat_batch_lists ::
  "arch \<Rightarrow> f32 list \<Rightarrow> nat \<Rightarrow> row_filter \<Rightarrow> nat list list \<Rightarrow> IVFFlatIndexReader \<Rightarrow> FlatListData list \<Rightarrow>
   ReaderTopKHeap list \<Rightarrow> ReaderTopKHeap list res" where
  "flat_batch_lists t processed k row_filter list_to_queries r loaded_lists heaps =
     (let d = fr_d r; metric = fr_metric r in
      bind_res (map_res (\<lambda>l. bind_res (idx list_to_queries (fl_list_id l)) (\<lambda>qs.
          Inr (saturating_mul (length (fl_ids l)) (length qs)))) loaded_lists) (\<lambda>components.
      let scan_components = saturating_mul (sum_list components) d in
      if 1 < length loaded_lists \<and> PARALLEL_FLAT_SCAN_MIN_COMPONENTS \<le> scan_components then
        bind_res (map_res (\<lambda>l. bind_res (idx list_to_queries (fl_list_id l)) (\<lambda>query_indices.
            map_res (\<lambda>qi. bind_res (query_slice processed d qi) (\<lambda>query.
              bind_res (scan_flat_list t reader_collector query l d metric row_filter (reader_heap_new k)) (\<lambda>local_heap.
                Inr (qi, reader_heap_into_sorted local_heap)))) query_indices)) loaded_lists) (\<lambda>per_list_results.
          fold_res (fold_res (\<lambda>(qi, results). update_heap qi (merge_flat_results results))) per_list_results heaps)
      else fold_res (\<lambda>l hs. bind_res (idx list_to_queries (fl_list_id l)) (\<lambda>query_indices.
          fold_res (\<lambda>qi hs. bind_res (query_slice processed d qi) (\<lambda>query.
            update_heap qi (scan_flat_list t reader_collector query l d metric row_filter) hs)) query_indices hs))
        loaded_lists heaps))"

definition write_heap_rows :: "nat \<Rightarrow> nat \<times> ReaderTopKHeap \<Rightarrow> i64 list \<times> f32 list \<Rightarrow> (i64 list \<times> f32 list) res" where
  "write_heap_rows k = (\<lambda>(qi, heap) (result_ids, result_dists).
     let sorted = reader_heap_into_sorted heap; base = qi * k in
     bind_res (write_row base (map snd sorted) result_ids) (\<lambda>ids.
     bind_res (write_row base (map fst sorted) result_dists) (\<lambda>dists. Inr (ids, dists))))"

definition search_batch_ivfflat_reader_filter_range ::
  "bool \<Rightarrow> arch \<Rightarrow> selector \<Rightarrow> gemm \<Rightarrow> f32 list \<Rightarrow> nat \<Rightarrow> nat \<Rightarrow> nat \<Rightarrow> nat \<Rightarrow> i64 list \<Rightarrow> f32 list \<Rightarrow> row_filter \<Rightarrow>
   IVFFlatIndexReader \<Rightarrow> ((i64 list \<times> f32 list) \<times> IVFFlatIndexReader) res" where
  "search_batch_ivfflat_reader_filter_range big t sel gemm queries nq k probe_start probe_end seed_ids seed_distances row_filter r0 =
     bind_res (flat_ensure_loaded r0) (\<lambda>r.
     let d = fr_d r in
     if nq = 0 then Inl (Err InvalidInput)
     else bind_res (ok_or (Err InvalidInput) (checked_mul nq d)) (\<lambda>expected_query_len.
     if length queries \<noteq> expected_query_len then Inl (Err InvalidInput)
     else if k = 0 then Inl (Err InvalidInput)
     else if probe_end \<le> probe_start then Inl (Err InvalidInput)
     else bind_res (validate_batch_seed seed_ids seed_distances nq k) (\<lambda>_.
     bind_res (if fr_metric r = Cosine
       then bind_res (map_res (\<lambda>qi. bind_res (query_slice queries d qi) (\<lambda>query. Inr (fst (fvec_normalize t query)))) [0..<nq])
         (\<lambda>rows. Inr (concat rows)) else Inr queries) (\<lambda>processed.
     bind_res (find_topk_batch t sel gemm processed nq (fr_quantizer_centroids r) (fr_nlist r) d probe_end) (\<lambda>all_probes.
     bind_res (fan_out (fr_nlist r) (map (\<lambda>(probe_indices, _). drop probe_start probe_indices) all_probes)) (\<lambda>(list_to_queries, unique_lists).
     bind_res (seed_flat_heaps (replicate nq (reader_heap_new k)) seed_ids seed_distances k) (\<lambda>heaps0.
     bind_res (flat_list_loop big (\<lambda>_ _ heaps. Inr heaps)
         (flat_batch_chunk t processed d (fr_metric r) row_filter list_to_queries)
         (flat_batch_lists t processed k row_filter list_to_queries) unique_lists r heaps0) (\<lambda>(heaps, r').
     bind_res (fold_res (write_heap_rows k) (enumerate 0 heaps) (replicate (nq * k) (- 1), replicate (nq * k) f32_MAX)) (\<lambda>results.
       Inr (results, r'))))))))))"

definition search_batch_ivfflat_reader_filter ::
  "bool \<Rightarrow> arch \<Rightarrow> selector \<Rightarrow> gemm \<Rightarrow> f32 list \<Rightarrow> nat \<Rightarrow> nat \<Rightarrow> nat \<Rightarrow> row_filter \<Rightarrow> IVFFlatIndexReader \<Rightarrow>
   ((i64 list \<times> f32 list) \<times> IVFFlatIndexReader) res" where
  "search_batch_ivfflat_reader_filter big t sel gemm queries nq k nprobe row_filter r =
     search_batch_ivfflat_reader_filter_range big t sel gemm queries nq k 0 nprobe [] [] row_filter r"

definition search_batch_ivfflat_reader ::
  "bool \<Rightarrow> arch \<Rightarrow> selector \<Rightarrow> gemm \<Rightarrow> f32 list \<Rightarrow> nat \<Rightarrow> nat \<Rightarrow> nat \<Rightarrow> IVFFlatIndexReader \<Rightarrow>
   ((i64 list \<times> f32 list) \<times> IVFFlatIndexReader) res" where
  "search_batch_ivfflat_reader big t sel gemm queries nq k nprobe r =
     search_batch_ivfflat_reader_filter big t sel gemm queries nq k nprobe None r"

definition search_batch_ivfflat_reader_roaring_filter_range ::
  "roaring \<Rightarrow> bool \<Rightarrow> arch \<Rightarrow> selector \<Rightarrow> gemm \<Rightarrow> f32 list \<Rightarrow> nat \<Rightarrow> nat \<Rightarrow> nat \<Rightarrow> nat \<Rightarrow> i64 list \<Rightarrow> f32 list \<Rightarrow> bytes \<Rightarrow>
   IVFFlatIndexReader \<Rightarrow> ((i64 list \<times> f32 list) \<times> IVFFlatIndexReader) res" where
  "search_batch_ivfflat_reader_roaring_filter_range roaring big t sel gemm queries nq k probe_start probe_end seed_ids seed_distances
       roaring_filter_bytes r =
     bind_res (decode_roaring_filter roaring roaring_filter_bytes) (\<lambda>members.
       search_batch_ivfflat_reader_filter_range big t sel gemm queries nq k probe_start probe_end seed_ids seed_distances
         (Some (roaring_contains members)) r)"

definition search_batch_ivfflat_reader_roaring_filter ::
  "roaring \<Rightarrow> bool \<Rightarrow> arch \<Rightarrow> selector \<Rightarrow> gemm \<Rightarrow> f32 list \<Rightarrow> nat \<Rightarrow> nat \<Rightarrow> nat \<Rightarrow> bytes \<Rightarrow>
   IVFFlatIndexReader \<Rightarrow> ((i64 list \<times> f32 list) \<times> IVFFlatIndexReader) res" where
  "search_batch_ivfflat_reader_roaring_filter roaring big t sel gemm queries nq k nprobe roaring_filter_bytes r =
     search_batch_ivfflat_reader_roaring_filter_range roaring big t sel gemm queries nq k 0 nprobe [] [] roaring_filter_bytes r"

section \<open>Range search\<close>

text \<open>\<open>validate_queries\<close> of \<open>core/src/index.rs\<close>.\<close>

definition validate_finite_values :: "f32 list \<Rightarrow> nat \<Rightarrow> unit res" where
  "validate_finite_values values len =
     bind_res (subslice 0 len values) (\<lambda>vs. if list_all is_finite vs then Inr () else Inl (Err InvalidInput))"

definition validate_queries :: "f32 list \<Rightarrow> nat \<Rightarrow> nat \<Rightarrow> unit res" where
  "validate_queries queries query_count dimension =
     (if query_count = 0 then Inl (Err InvalidInput)
      else bind_res (ok_or (Err InvalidInput) (checked_mul query_count dimension)) (\<lambda>expected_len.
        if length queries \<noteq> expected_len then Inl (Err InvalidInput)
        else validate_finite_values queries expected_len))"

record QueryMerge =
  qm_rows :: "(i64 \<times> f32) list"
  qm_scanned :: nat
  qm_early_abandoned :: nat

definition query_merge_default :: QueryMerge where
  "query_merge_default = \<lparr>qm_rows = [], qm_scanned = 0, qm_early_abandoned = 0\<rparr>"

definition merge_collector :: "nat \<Rightarrow> RangeCollector \<Rightarrow> QueryMerge list \<Rightarrow> QueryMerge list res" where
  "merge_collector qi c merges =
     update_heap qi (\<lambda>out. Inr (out\<lparr>qm_scanned := qm_scanned out + rc_scanned c,
       qm_early_abandoned := qm_early_abandoned out + rc_early_abandoned c, qm_rows := qm_rows out @ rc_rows c\<rparr>)) merges"

definition record_list_read_for :: "IVFFlatIndexReader \<Rightarrow> nat \<Rightarrow> RangeResultBuilder \<Rightarrow> RangeResultBuilder res" where
  "record_list_read_for r list_id builder =
     bind_res (idx (fr_list_counts r) list_id) (\<lambda>cnt. Inr (if 0 < sint cnt then record_list_read builder else builder))"

type_synonym range_state = "RangeResultBuilder \<times> QueryMerge list"

definition flat_range_enter :: "IVFFlatIndexReader \<Rightarrow> nat \<Rightarrow> range_state \<Rightarrow> range_state res" where
  "flat_range_enter r list_id = (\<lambda>(builder, merges).
     bind_res (record_list_read_for r list_id builder) (\<lambda>builder'. Inr (builder', merges)))"

text \<open>The scan of rows for one query into a fresh collector, merged into the bucket of the query.\<close>

definition flat_range_scan ::
  "arch \<Rightarrow> DistanceBand \<Rightarrow> f32 list \<Rightarrow> nat \<Rightarrow> MetricType \<Rightarrow> row_filter \<Rightarrow> i64 list \<Rightarrow> f32 list \<Rightarrow> nat \<Rightarrow>
   QueryMerge list \<Rightarrow> QueryMerge list res" where
  "flat_range_scan t band queries d metric row_filter ids vectors qi merges =
     bind_res (query_slice queries d qi) (\<lambda>q.
     bind_res (scan_flat_rows t range_collector q ids vectors d metric row_filter (range_collector_new band)) (\<lambda>c.
       merge_collector qi c merges))"

definition flat_range_chunk ::
  "arch \<Rightarrow> DistanceBand \<Rightarrow> f32 list \<Rightarrow> nat \<Rightarrow> MetricType \<Rightarrow> row_filter \<Rightarrow> nat list list \<Rightarrow> nat \<Rightarrow> i64 list \<Rightarrow> f32 list \<Rightarrow>
   range_state \<Rightarrow> range_state res" where
  "flat_range_chunk t band queries d metric row_filter list_to_queries list_id ids vectors = (\<lambda>(builder, merges).
     bind_res (idx list_to_queries list_id) (\<lambda>query_indices.
     bind_res (fold_res (flat_range_scan t band queries d metric row_filter ids vectors) query_indices merges) (\<lambda>merges'.
       Inr (builder, merges'))))"

text \<open>The order of the tasks (list, query) of a parallel scan.\<close>

type_synonym schedule = "(FlatListData \<times> nat) list \<Rightarrow> (FlatListData \<times> nat) list"

definition flat_range_lists ::
  "schedule \<Rightarrow> arch \<Rightarrow> DistanceBand \<Rightarrow> f32 list \<Rightarrow> row_filter \<Rightarrow> nat list list \<Rightarrow> IVFFlatIndexReader \<Rightarrow> FlatListData list \<Rightarrow>
   range_state \<Rightarrow> range_state res" where
  "flat_range_lists sched t band queries row_filter list_to_queries r loaded_lists = (\<lambda>(builder, merges).
     bind_res (fold_res (\<lambda>l. record_list_read_for r (fl_list_id l)) loaded_lists builder) (\<lambda>builder'.
     bind_res (map_res (\<lambda>l. bind_res (idx list_to_queries (fl_list_id l)) (\<lambda>qs.
         Inr (saturating_mul (length (fl_ids l)) (length qs)))) loaded_lists) (\<lambda>components.
     let scan_components = saturating_mul (sum_list components) (fr_d r);
         scan_one = (\<lambda>(l, qi). flat_range_scan t band queries (fr_d r) (fr_metric r) row_filter (fl_ids l) (fl_vectors l) qi) in
     bind_res (map_res (\<lambda>l. bind_res (idx list_to_queries (fl_list_id l)) (\<lambda>qs. Inr (map (Pair l) qs))) loaded_lists) (\<lambda>tasks.
     bind_res (fold_res scan_one
         (if 1 < length loaded_lists \<and> PARALLEL_FLAT_SCAN_MIN_COMPONENTS \<le> scan_components then sched (concat tasks) else concat tasks)
         merges) (\<lambda>merges'.
       Inr (builder', merges'))))))"

definition flat_range_finish :: "nat \<times> QueryMerge \<Rightarrow> RangeResultBuilder \<Rightarrow> RangeResultBuilder res" where
  "flat_range_finish = (\<lambda>(qi, out) builder.
     bind_res (record_scanned qi (qm_scanned out) builder) (\<lambda>b1.
     bind_res (record_early_abandoned qi (qm_early_abandoned out) b1) (\<lambda>b2.
       take_rows qi (qm_rows out) b2)))"

definition flat_range_search_batch_with_filter ::
  "schedule \<Rightarrow> bool \<Rightarrow> arch \<Rightarrow> selector \<Rightarrow> gemm \<Rightarrow> f32 list \<Rightarrow> nat \<Rightarrow> VectorRangeSearchParams \<Rightarrow> row_filter \<Rightarrow> IVFFlatIndexReader \<Rightarrow>
   (RangeSearchResult \<times> IVFFlatIndexReader) res" where
  "flat_range_search_batch_with_filter sched big t sel gemm queries0 nq params row_filter r0 =
     bind_res (validate_queries queries0 nq (fr_d r0)) (\<lambda>_.
     if band_metric (rp_band params) \<noteq> fr_metric r0 then Inl (Err InvalidInput)
     else bind_res (range_validate params (fr_nlist r0)) (\<lambda>nprobe.
     if band_is_empty (rp_band params) then Inr (builder_build (builder_new nq), r0)
     else bind_res (flat_ensure_loaded r0) (\<lambda>r.
     bind_res (prepare_range_queries t queries0 (fr_d r) (fr_metric r)) (\<lambda>queries.
     bind_res (range_probe_lists t sel gemm queries (fr_quantizer_centroids r) (fr_d r) (fr_nlist r) nprobe (fr_metric r)) (\<lambda>probe_lists.
     bind_res (fold_res (\<lambda>(qi, probe). record_lists_probed qi (length probe)) (enumerate 0 probe_lists) (builder_new nq)) (\<lambda>builder.
     bind_res (fan_out (fr_nlist r) probe_lists) (\<lambda>(list_to_queries, unique_lists).
     bind_res (flat_list_loop big flat_range_enter
         (flat_range_chunk t (rp_band params) queries (fr_d r) (fr_metric r) row_filter list_to_queries)
         (flat_range_lists sched t (rp_band params) queries row_filter list_to_queries)
         unique_lists r (builder, replicate nq query_merge_default)) (\<lambda>((builder', merges), r').
     bind_res (fold_res flat_range_finish (enumerate 0 merges) builder') (\<lambda>builder''.
       Inr (builder_build builder'', r'))))))))))"

definition flat_range_search_with_filter ::
  "schedule \<Rightarrow> bool \<Rightarrow> arch \<Rightarrow> selector \<Rightarrow> gemm \<Rightarrow> f32 list \<Rightarrow> VectorRangeSearchParams \<Rightarrow> row_filter \<Rightarrow> IVFFlatIndexReader \<Rightarrow>
   (RangeSearchResult \<times> IVFFlatIndexReader) res" where
  "flat_range_search_with_filter sched big t sel gemm query params row_filter r =
     flat_range_search_batch_with_filter sched big t sel gemm query 1 params row_filter r"

definition flat_range_search ::
  "schedule \<Rightarrow> bool \<Rightarrow> arch \<Rightarrow> selector \<Rightarrow> gemm \<Rightarrow> f32 list \<Rightarrow> VectorRangeSearchParams \<Rightarrow> IVFFlatIndexReader \<Rightarrow>
   (RangeSearchResult \<times> IVFFlatIndexReader) res" where
  "flat_range_search sched big t sel gemm query params r =
     flat_range_search_with_filter sched big t sel gemm query params None r"

definition flat_range_search_with_roaring_filter ::
  "roaring \<Rightarrow> schedule \<Rightarrow> bool \<Rightarrow> arch \<Rightarrow> selector \<Rightarrow> gemm \<Rightarrow> f32 list \<Rightarrow> VectorRangeSearchParams \<Rightarrow> bytes \<Rightarrow> IVFFlatIndexReader \<Rightarrow>
   (RangeSearchResult \<times> IVFFlatIndexReader) res" where
  "flat_range_search_with_roaring_filter roaring sched big t sel gemm query params roaring_filter_bytes r =
     bind_res (decode_roaring_filter roaring roaring_filter_bytes) (\<lambda>members.
       flat_range_search_with_filter sched big t sel gemm query params (Some (roaring_contains members)) r)"

definition flat_range_search_batch ::
  "schedule \<Rightarrow> bool \<Rightarrow> arch \<Rightarrow> selector \<Rightarrow> gemm \<Rightarrow> f32 list \<Rightarrow> nat \<Rightarrow> VectorRangeSearchParams \<Rightarrow> IVFFlatIndexReader \<Rightarrow>
   (RangeSearchResult \<times> IVFFlatIndexReader) res" where
  "flat_range_search_batch sched big t sel gemm queries nq params r =
     flat_range_search_batch_with_filter sched big t sel gemm queries nq params None r"

definition flat_range_search_batch_with_roaring_filter ::
  "roaring \<Rightarrow> schedule \<Rightarrow> bool \<Rightarrow> arch \<Rightarrow> selector \<Rightarrow> gemm \<Rightarrow> f32 list \<Rightarrow> nat \<Rightarrow> VectorRangeSearchParams \<Rightarrow> bytes \<Rightarrow> IVFFlatIndexReader \<Rightarrow>
   (RangeSearchResult \<times> IVFFlatIndexReader) res" where
  "flat_range_search_batch_with_roaring_filter roaring sched big t sel gemm queries nq params roaring_filter_bytes r =
     bind_res (decode_roaring_filter roaring roaring_filter_bytes) (\<lambda>members.
       flat_range_search_batch_with_filter sched big t sel gemm queries nq params (Some (roaring_contains members)) r)"

section \<open>Reading every probed list\<close>

lemma flat_list_payload_len_eq:
  assumes la: "list_at r l ids vs"
  shows "flat_list_payload_len l r = Inr (length (list_bytes_of (ids, vs)))"
proof (cases "ids = []")
  case True
  then show ?thesis using la list_at_sizes(1)[OF la]
    by (simp add: flat_list_payload_len_def list_at_def idx_def Let_def list_bytes_of_def)
next
  case False
  let ?n = "length (id_bytes_of ids)" and ?v = "length ids * (fr_d r * 4)"
  have len: "length (list_bytes_of (ids, vs)) = 12 + ?n + ?v" using False list_at_sizes(6)[OF la] by (simp add: length_list_bytes)
  then have small: "12 + ?n + ?v < 2 ^ 64" using la unfolding list_at_def by linarith
  have "fr_d r * 4 \<le> ?v" using False by (cases ids) simp_all
  then have "fr_d r * 4 < 2 ^ 64" "?v < 2 ^ 64" "12 + ?n < 2 ^ 64" using small by linarith+
  then have "Option.bind (checked_add 12 ?n) (\<lambda>len. Option.bind (checked_mul (fr_d r) 4) (\<lambda>row_bytes.
      Option.bind (checked_mul (length ids) row_bytes) (\<lambda>vector_bytes. checked_add len vector_bytes))) = Some (12 + ?n + ?v)"
    using small by (simp only: checked_add_def checked_mul_def if_True Option.bind.bind_lunit)
  then show ?thesis using False la list_at_sizes(1,2)[OF la] len
    by (simp add: flat_list_payload_len_def list_at_def idx_def Let_def)
qed

lemma payload_batch_end_total:
  assumes "list_all (\<lambda>p. p < 2 ^ 63) lens" "bytes < 2 ^ 63" "index = 0 \<longrightarrow> bytes = 0"
  shows "\<exists>e. payload_batch_end max_ranges lens index ranges bytes = Inr e"
  using assms
proof (induction lens arbitrary: index ranges bytes)
  case (Cons p lens)
  have c: "checked_add bytes p = Some (bytes + p)" using Cons.prems by simp
  have small: "bytes + p < 2 ^ 63" if "\<not> (0 < index \<and> MAX_IVF_BATCH_READ_BYTES < bytes + p)"
    using that Cons.prems by (cases "index = 0") (simp_all add: MAX_IVF_BATCH_READ_BYTES_def)
  define n where "n = ranges + (if p \<noteq> 0 then 1 else 0)"
  have "\<exists>e. payload_batch_end max_ranges lens (index + 1) n (bytes + p) = Inr e"
    if "\<not> (0 < index \<and> (max_ranges < n \<or> MAX_IVF_BATCH_READ_BYTES < bytes + p))"
  proof (rule Cons.IH)
    show "bytes + p < 2 ^ 63" by (rule small) (use that in blast)
  qed (use Cons.prems(1) in simp_all)
  then show ?case unfolding payload_batch_end.simps c Let_def n_def[symmetric] ok_or_simps bind_res_Inr by simp
qed simp

lemma flat_batch_read_end_eq:
  assumes h: "holds r ls" and xs: "list_all (\<lambda>l. l < length ls) xs" "xs \<noteq> []" and fsz: "length (file_bytes (fr_reader r)) < 2 ^ 63"
  shows "\<exists>e. flat_batch_read_end xs r = Inr e \<and> 1 \<le> e \<and> e \<le> length xs \<and> sum_list (payload_lens ls (take e xs)) < 2 ^ 64"
proof -
  have la: "list_at r l (fst (ls ! l)) (snd (ls ! l))" if "l \<in> set xs" for l using h xs(1) that by (auto simp: holds_def list_all_iff)
  have lens: "map_res (\<lambda>l. flat_list_payload_len l r) xs = Inr (payload_lens ls xs)"
    by (rule map_res_Inr_map) (use flat_list_payload_len_eq[OF la] in simp)
  have small: "length (list_bytes_of (ls ! l)) < 2 ^ 63" if "l \<in> set xs" for l
    using list_at_sizes(4)[OF la[OF that]] fsz by simp
  let ?m = "max_ranges_of (max_ranges_per_pread (capabilities (fr_reader r)))"
  obtain e where e: "payload_batch_end ?m (payload_lens ls xs) 0 0 0 = Inr e"
    using payload_batch_end_total[of "payload_lens ls xs" 0 0 ?m 0] small by (auto simp: list_all_iff)
  have s: "0 \<le> e \<and> e \<le> length (payload_lens ls xs) \<and> (payload_lens ls xs \<noteq> [] \<longrightarrow> 1 \<le> e)
      \<and> (e \<le> 1 \<or> nonzero_count (take e (payload_lens ls xs)) \<le> ?m \<and> sum_list (take e (payload_lens ls xs)) \<le> MAX_IVF_BATCH_READ_BYTES)"
    using payload_batch_end_spec[of ?m "payload_lens ls xs" "[]" e] e by (simp add: nonzero_count_def)
  have e1: "1 \<le> e" "e \<le> length xs" using s xs(2) by auto
  have "sum_list (payload_lens ls (take e xs)) < 2 ^ 64"
  proof (cases "e = 1")
    case True
    then have "payload_lens ls (take e xs) = [length (list_bytes_of (ls ! hd xs))]" using xs(2) by (cases xs) simp_all
    then show ?thesis using small[of "hd xs"] xs(2) by simp
  next
    case False
    then show ?thesis using s e1(1) by (simp add: take_map MAX_IVF_BATCH_READ_BYTES_def)
  qed
  moreover have "flat_batch_read_end xs r = Inr e"
    using e xs(2) by (simp add: flat_batch_read_end_def lens bounded_ivf_payload_batch_end_def)
  ultimately show ?thesis using e1 by blast
qed

text \<open>The rows of a list, each with the list and its vector.\<close>

type_synonym item = "nat \<times> i64 \<times> f32 list"

definition row_items :: "nat \<Rightarrow> nat \<Rightarrow> i64 list \<Rightarrow> f32 list \<Rightarrow> item list" where
  "row_items d l ids vs = map (\<lambda>(i, row). (l, row, row_of d vs i)) (enumerate 0 ids)"

abbreviation list_items :: "nat \<Rightarrow> (i64 list \<times> f32 list) list \<Rightarrow> nat \<Rightarrow> item list" where
  "list_items d ls l \<equiv> row_items d l (fst (ls ! l)) (snd (ls ! l))"

lemma row_items_Nil [simp]: "row_items d l [] vs = []"
  by (simp add: row_items_def)

lemma row_items_append:
  assumes "length vs = length ids * d"
  shows "row_items d l (ids @ ids') (vs @ vs') = row_items d l ids vs @ row_items d l ids' vs'"
proof -
  have a: "row_of d (vs @ vs') i = row_of d vs i" if "i < length ids" for i
  proof -
    have "(i + 1) * d \<le> length vs" unfolding assms using that by (intro mult_le_mono1) simp
    then show ?thesis by (simp add: row_of_def slice_append_left)
  qed
  have b: "row_of d (vs @ vs') (length ids + i) = row_of d vs' i" for i
    using assms by (simp add: row_of_def slice_append_right add_mult_distrib)
  have "map (\<lambda>(i, row). (l, row, row_of d (vs @ vs') i)) (enumerate 0 ids) = row_items d l ids vs"
    unfolding row_items_def using a by (auto simp: in_set_enumerate_eq)
  moreover have "map (\<lambda>(i, row). (l, row, row_of d (vs @ vs') i)) (enumerate (length ids) ids') = row_items d l ids' vs'"
    unfolding row_items_def using b by (intro nth_equalityI) (simp_all add: nth_enumerate_eq)
  ultimately show ?thesis by (simp add: row_items_def enumerate_append_eq)
qed

lemma chunking_items:
  "chunking d chunks ids vs \<Longrightarrow> concat (map (\<lambda>(i, v). row_items d l i v) chunks) = row_items d l ids vs"
  by (induction chunks arbitrary: ids vs) (auto simp: chunking_def row_items_append)

text \<open>
  What a search does with the lists, as the loop sees it: \<open>R rows s\<close> says that the state \<open>s\<close> stands for
  the rows delivered so far. A chunk or a batch that is delivered adds its rows, whatever the split.
\<close>

locale list_consumer =
  fixes enter :: "IVFFlatIndexReader \<Rightarrow> nat \<Rightarrow> 's \<Rightarrow> 's res"
    and chunk :: "nat \<Rightarrow> i64 list \<Rightarrow> f32 list \<Rightarrow> 's \<Rightarrow> 's res"
    and batch :: "IVFFlatIndexReader \<Rightarrow> FlatListData list \<Rightarrow> 's \<Rightarrow> 's res"
    and d :: nat and metric :: MetricType and okr :: "item \<Rightarrow> bool" and okl :: "nat \<Rightarrow> bool" and R :: "item list \<Rightarrow> 's \<Rightarrow> bool"
  assumes enter_keeps: "holds r ls \<Longrightarrow> l < length ls \<Longrightarrow> R rows s \<Longrightarrow> \<exists>s'. enter r l s = Inr s' \<and> R rows s'"
    and chunk_adds: "length vs = length ids * d \<Longrightarrow> ids \<noteq> [] \<Longrightarrow> okl l \<Longrightarrow> list_all okr (row_items d l ids vs) \<Longrightarrow> R rows s \<Longrightarrow>
      \<exists>s'. chunk l ids vs s = Inr s' \<and> R (rows @ row_items d l ids vs) s'"
    and batch_adds: "holds r ls \<Longrightarrow> fr_d r = d \<Longrightarrow> fr_metric r = metric \<Longrightarrow> list_all (\<lambda>l. l < length ls \<and> okl l) xs \<Longrightarrow>
      list_all2 (data_of ls) xs ds \<Longrightarrow> list_all okr (concat (map (list_items d ls) xs)) \<Longrightarrow> R rows s \<Longrightarrow>
      \<exists>s'. batch r ds s = Inr s' \<and> R (rows @ concat (map (list_items d ls) xs)) s'"
begin

lemma chunks_add:
  assumes "list_all (\<lambda>(i, v). i \<noteq> [] \<and> length v = length i * d) chunks" "okl l"
    "list_all okr (concat (map (\<lambda>(i, v). row_items d l i v) chunks))" "R rows s"
  shows "\<exists>s'. fold_res (\<lambda>(i, v). chunk l i v) chunks s = Inr s' \<and> R (rows @ concat (map (\<lambda>(i, v). row_items d l i v) chunks)) s'"
  using assms(1,3,4)
proof (induction chunks arbitrary: rows s)
  case (Cons c chunks)
  obtain i v where c: "c = (i, v)" by (cases c)
  obtain s1 where s1: "chunk l i v s = Inr s1" "R (rows @ row_items d l i v) s1"
    using chunk_adds[of v i l rows s] Cons.prems c assms(2) by auto
  then show ?case using Cons.IH[OF _ _ s1(2)] Cons.prems c by auto
qed simp

text \<open>Whether a list is streamed or read with others, the loop delivers the rows of every list.\<close>

lemma loop_delivers:
  assumes "holds r ls" "fr_d r = d" "fr_metric r = metric" "0 < d" "length (file_bytes (fr_reader r)) < 2 ^ 63"
    "list_all (\<lambda>l. l < length ls \<and> okl l) xs" "list_all okr (concat (map (list_items d ls) xs))"
    "list_all (\<lambda>l. ivf_payload_is_oversized (length (list_bytes_of (ls ! l))) \<longrightarrow> streamable d (fst (ls ! l))) xs" "R rows s"
  shows "\<exists>s' rd. flat_list_loop big enter chunk batch xs r s = Inr (s', r\<lparr>fr_reader := rd\<rparr>) \<and> same_file (fr_reader r) rd
    \<and> R (rows @ concat (map (list_items d ls) xs)) s'"
  using assms(1-3,5-9)
proof (induction xs arbitrary: r rows s rule: length_induct)
  case (1 xs)
  note p = "1.prems"
  have IH: "\<exists>s'' rd'. flat_list_loop big enter chunk batch ys (r\<lparr>fr_reader := rd\<rparr>) s' = Inr (s'', r\<lparr>fr_reader := rd'\<rparr>)
      \<and> same_file (fr_reader r) rd' \<and> R (rows' @ concat (map (list_items d ls) ys)) s''"
    if "length ys < length xs" "set ys \<subseteq> set xs" "same_file (fr_reader r) rd" "R rows' s'" for ys rd rows' s'
  proof -
    have ok: "list_all (\<lambda>l. l < length ls \<and> okl l) ys" "list_all okr (concat (map (list_items d ls) ys))"
      "list_all (\<lambda>l. ivf_payload_is_oversized (length (list_bytes_of (ls ! l))) \<longrightarrow> streamable d (fst (ls ! l))) ys"
      using p(5-7) that(2) by (auto simp: list_all_iff)
    have h: "holds (r\<lparr>fr_reader := rd\<rparr>) ls" by (rule holds_same_file[OF p(1) that(3)])
    have f: "length (file_bytes (fr_reader (r\<lparr>fr_reader := rd\<rparr>))) < 2 ^ 63" using p(4) that(3) by (simp add: same_file_def)
    have "\<exists>s'' rd'. flat_list_loop big enter chunk batch ys (r\<lparr>fr_reader := rd\<rparr>) s' = Inr (s'', (r\<lparr>fr_reader := rd\<rparr>)\<lparr>fr_reader := rd'\<rparr>)
      \<and> same_file (fr_reader (r\<lparr>fr_reader := rd\<rparr>)) rd' \<and> R (rows' @ concat (map (list_items d ls) ys)) s''"
      by (rule "1.IH"[rule_format, OF that(1) h _ _ f ok that(4)]) (use p(2,3) in simp_all)
    then show ?thesis using that(3) by (auto simp: same_file_def)
  qed
  show ?case
  proof (cases xs)
    case Nil
    then show ?thesis using p(8) by (intro exI[of _ s] exI[of _ "fr_reader r"]) (simp add: same_file_def)
  next
    case (Cons l ys)
    let ?ids = "fst (ls ! l)" and ?vs = "snd (ls ! l)"
    have l: "l < length ls" "okl l" using p(5) Cons by simp_all
    have la: "list_at r l ?ids ?vs" using p(1) l by (simp add: holds_def)
    have pl: "flat_list_payload_len l r = Inr (length (list_bytes_of (ls ! l)))" using flat_list_payload_len_eq[OF la] by simp
    show ?thesis
    proof (cases "ivf_payload_is_oversized (length (list_bytes_of (ls ! l)))")
      case True
      then have st: "streamable (fr_d r) ?ids" "?ids \<noteq> []" using p(2,7) Cons
        by (auto simp: ivf_payload_is_oversized_def list_bytes_of_def case_prod_unfold)
      have ld: "fr_loaded r" "0 < fr_d r" using p(1,2) assms(4) by (simp_all add: holds_def)
      obtain s1 where s1: "enter r l s = Inr s1" "R rows s1" using enter_keeps[OF p(1) l(1) p(8)] by blast
      obtain chunks rd where c: "chunking d chunks ?ids ?vs" "same_file (fr_reader r) rd"
        "\<And>s. flat_for_each_streamed_list_chunk big l (chunk l) r s
          = bind_res (fold_res (\<lambda>(i, v). chunk l i v) chunks s) (\<lambda>s'. Inr (s', r\<lparr>fr_reader := rd\<rparr>))"
        using flat_stream_list_eq[OF la st(2,1) ld, of big "chunk l"] p(2) by blast
      note items = chunking_items[OF c(1), of l]
      have "list_all okr (concat (map (\<lambda>(i, v). row_items d l i v) chunks))" unfolding items using p(6) Cons by simp
      then obtain s2 where s2: "fold_res (\<lambda>(i, v). chunk l i v) chunks s1 = Inr s2" "R (rows @ list_items d ls l) s2"
        using chunks_add[OF _ l(2) _ s1(2), of chunks] c(1) unfolding items chunking_def by blast
      have "length ys < length xs" "set ys \<subseteq> set xs" using Cons by auto
      from IH[OF this c(2) s2(2)] show ?thesis using Cons True by (simp add: pl s1(1) c(3) s2(1))
    next
      case False
      have xs: "list_all (\<lambda>l. l < length ls) xs" "xs \<noteq> []" using p(5) Cons by (auto simp: list_all_iff)
      obtain e where e: "flat_batch_read_end xs r = Inr e" "1 \<le> e" "e \<le> length xs" "sum_list (payload_lens ls (take e xs)) < 2 ^ 64"
        using flat_batch_read_end_eq[OF p(1) xs p(4)] by blast
      have tk: "list_all (\<lambda>l. l < length ls) (take e xs)" "list_all (\<lambda>l. l < length ls \<and> okl l) (take e xs)"
        "list_all okr (concat (map (list_items d ls) (take e xs)))"
        using p(5,6) by (auto simp: list_all_iff dest: in_set_takeD)
      obtain ds rd where rd: "flat_read_inverted_lists big (take e xs) r = Inr (ds, r\<lparr>fr_reader := rd\<rparr>)"
        "same_file (fr_reader r) rd" "list_all2 (data_of ls) (take e xs) ds"
        using flat_read_inverted_lists_eq[OF p(1) tk(1) e(4), of big] by blast
      have "holds (r\<lparr>fr_reader := rd\<rparr>) ls" by (rule holds_same_file[OF p(1) rd(2)])
      from batch_adds[OF this _ _ tk(2) rd(3) tk(3) p(8)] p(2,3) obtain s1 where
        s1: "batch (r\<lparr>fr_reader := rd\<rparr>) ds s = Inr s1" "R (rows @ concat (map (list_items d ls) (take e xs))) s1" by auto
      have "length (drop e xs) < length xs" "set (drop e xs) \<subseteq> set xs" using e(2) xs(2) by (auto dest: in_set_dropD)
      from IH[OF this rd(2) s1(2)] obtain s'' rd' where
        I: "flat_list_loop big enter chunk batch (drop e xs) (r\<lparr>fr_reader := rd\<rparr>) s1 = Inr (s'', r\<lparr>fr_reader := rd'\<rparr>)"
        "same_file (fr_reader r) rd'" "R ((rows @ concat (map (list_items d ls) (take e xs))) @ concat (map (list_items d ls) (drop e xs))) s''"
        by blast
      have "concat (map (list_items d ls) (take e xs)) @ concat (map (list_items d ls) (drop e xs)) = concat (map (list_items d ls) xs)"
        by (metis append_take_drop_id concat_append map_append)
      moreover have "max e 1 = e" using e(2) by simp
      ultimately show ?thesis using False I e(1) rd(1) s1(1) unfolding Cons
        by (simp only: flat_list_loop.simps pl bind_res_Inr if_False Let_def prod.case append_assoc) blast
    qed
  qed
qed

end

end
