(* ===== verification/Flat_TopK.thy ===== *)
theory Flat_TopK
  imports Flat_Search
begin

text \<open>
  What the top-k searches of \<open>ivfflat_io.rs\<close> return. The heap of a query stands for the rows offered to
  it, in any order, through local heaps or directly; the loop over the lists then gives the k least
  distances over the probed lists.
\<close>

section \<open>Heaps of heaps\<close>

lemma heap_of_mset:
  assumes "mset offers = mset offers'"
  shows "heap_of k offers data \<longleftrightarrow> heap_of k offers' data"
proof -
  have "mset (filter P offers) = mset (filter P offers')" for P using assms by simp
  then have "mset (map fst (filter P offers)) = mset (map fst (filter P offers'))" for P by (metis mset_map)
  from sort_mset[OF this] show ?thesis unfolding heap_of_def using assms by simp
qed

lemma take_sort_merge:
  assumes "take k (sort B) = take k (sort C)"
  shows "take k (sort (A @ B)) = take k (sort (A @ C))"
proof (induction A)
  case (Cons a A)
  have "take k (sort ((a # A) @ X)) = take k (insort a (take k (sort (A @ X))))" for X
    by (simp add: take_insort_take)
  then show ?case using Cons by simp
qed (use assms in simp)

lemma heap_of_local:
  assumes "heap_of k (xs @ loc) data" "heap_of k offs loc'" "mset loc = mset loc'"
  shows "heap_of k (xs @ offs) data"
proof -
  let ?nn = "filter (\<lambda>(d, _). \<not> is_nan d)"
  have h: "heap_of k (xs @ loc') data" using assms(1,3) heap_of_mset[of "xs @ loc" "xs @ loc'"] by simp
  have sub: "mset loc' \<subseteq># mset (?nn offs)" and srt: "sort (map fst loc') = take k (sort (map fst (?nn offs)))"
    using assms(2) by (simp_all add: heap_of_def)
  have "?nn loc' = loc'"
  proof (rule filter_True, rule ballI)
    fix e assume "e \<in> set loc'"
    then have "e \<in># mset (?nn offs)" using sub by (meson mset_subset_eqD set_mset_mset in_multiset_in_set)
    then show "case e of (d, _) \<Rightarrow> \<not> is_nan d" by auto
  qed
  then have d: "mset data \<subseteq># mset (?nn xs) + mset loc'" "sort (map fst data) = take k (sort (map fst (?nn xs) @ map fst loc'))"
    using h by (simp_all add: heap_of_def)
  have "take k (sort (map fst loc')) = take k (sort (map fst (?nn offs)))" unfolding srt by simp
  from take_sort_merge[OF this, of "map fst (?nn xs)"] have "sort (map fst data) = take k (sort (map fst (?nn (xs @ offs))))"
    using d(2) by simp
  moreover have "mset data \<subseteq># mset (?nn (xs @ offs))"
    using subset_mset.order_trans[OF d(1)] sub by (simp add: subset_mset.add_left_mono)
  ultimately show ?thesis by (simp add: heap_of_def)
qed

section \<open>The offers of rows\<close>

definition item_offers :: "arch \<Rightarrow> f32 list \<Rightarrow> MetricType \<Rightarrow> row_filter \<Rightarrow> item list \<Rightarrow> (f32 \<times> i64) list" where
  "item_offers t q metric row_filter rows =
     map (\<lambda>(l, row, v). (row_distance t q metric v, row)) (filter (\<lambda>(l, row, v). row_passes row_filter row) rows)"

lemma item_offers_append [simp]:
  "item_offers t q metric row_filter (xs @ ys) = item_offers t q metric row_filter xs @ item_offers t q metric row_filter ys"
  by (simp add: item_offers_def)

lemma item_offers_Nil [simp]: "item_offers t q metric row_filter [] = []"
  by (simp add: item_offers_def)

lemma swap_flat_offers:
  "map prod.swap (flat_offers t q ids vs d metric row_filter) = item_offers t q metric row_filter (row_items d l ids vs)"
  by (simp add: flat_offers_def item_offers_def row_items_def filter_map comp_def case_prod_unfold)

text \<open>A query and rows the kernels are exact on.\<close>

definition query_ok :: "nat \<Rightarrow> MetricType \<Rightarrow> f32 list \<Rightarrow> bool" where
  "query_ok d metric q \<longleftrightarrow> length q = d \<and> (metric = L2 \<longrightarrow> finite_vec q)"

definition vector_ok :: "MetricType \<Rightarrow> f32 list \<Rightarrow> bool" where
  "vector_ok metric v \<longleftrightarrow> (metric = L2 \<longrightarrow> finite_vec v)"

lemma finite_vec_rows:
  assumes "length vs = n * d" "\<And>i. i < n \<Longrightarrow> finite_vec (row_of d vs i)"
  shows "finite_vec vs"
proof -
  have "vs = concat (map (row_of d vs) [0..<n])"
    using assms(1)
  proof (induction n arbitrary: vs)
    case (Suc n)
    have last: "row_of d vs n = drop (n * d) vs" using Suc.prems by (simp add: row_of_def slice_def)
    have rows: "row_of d (take (n * d) vs) i = row_of d vs i" if "i < n" for i
    proof -
      have "(i + 1) * d \<le> n * d" using that by (intro mult_le_mono1) simp
      then show ?thesis by (simp add: row_of_def slice_def drop_take min_def)
    qed
    have "take (n * d) vs = concat (map (row_of d (take (n * d) vs)) [0..<n])" using Suc.prems by (intro Suc.IH) simp
    also have "map (row_of d (take (n * d) vs)) [0..<n] = map (row_of d vs) [0..<n]" using rows by simp
    finally have "concat (map (row_of d vs) [0..<Suc n]) = take (n * d) vs @ drop (n * d) vs" by (simp add: last)
    then show ?case by simp
  qed simp
  moreover have "finite_vec (concat (map (row_of d vs) [0..<n]))" using assms(2) by (auto simp: finite_vec_def list_all_iff)
  ultimately show ?thesis by simp
qed

lemma rows_ok_items:
  assumes "query_ok d metric q" "length vs = length ids * d" "list_all (\<lambda>(l, row, v). vector_ok metric v) (row_items d l ids vs)"
  shows "rows_ok t False (\<lambda>_. True) q (length ids) vs d metric"
proof -
  have "vector_ok metric (row_of d vs i)" if "i < length ids" for i
    using assms(3) that by (simp add: list_all_length row_items_def nth_enumerate_eq)
  then have "metric = L2 \<longrightarrow> finite_vec vs" using finite_vec_rows[OF assms(2)] by (auto simp: vector_ok_def)
  then show ?thesis using assms(1,2) by (auto simp: rows_ok_def query_ok_def)
qed

section \<open>One query\<close>

text \<open>A heap that stands for the offers of the rows delivered to a query.\<close>

definition heap_holds :: "nat \<Rightarrow> (f32 \<times> i64) list \<Rightarrow> ReaderTopKHeap \<Rightarrow> bool" where
  "heap_holds k offers h \<longleftrightarrow> reader_heap_inv h \<and> rh_k h = k \<and> heap_of k offers (rh_data h)"

lemma heap_holds_new [simp]: "heap_holds k [] (reader_heap_new k)"
  by (simp add: heap_holds_def)

lemma scan_holds:
  assumes "heap_holds k offers h" "query_ok d metric q" "length vs = length ids * d"
    "list_all (\<lambda>(l, row, v). vector_ok metric v) (row_items d l ids vs)"
  shows "\<exists>h'. scan_flat_rows t reader_collector q ids vs d metric row_filter h = Inr h'
    \<and> heap_holds k (offers @ item_offers t q metric row_filter (row_items d l ids vs)) h'"
  using scan_reader_of[of h offers t q ids vs d metric row_filter] rows_ok_items[OF assms(2-4), of t] assms(1)
  by (auto simp: heap_holds_def swap_flat_offers[where l = l])

lemma merge_holds:
  assumes "heap_holds k offers h" "heap_holds k offs local_heap"
  shows "\<exists>h'. merge_flat_results (reader_heap_into_sorted local_heap) h = Inr h' \<and> heap_holds k (offers @ offs) h'"
proof -
  let ?res = "reader_heap_into_sorted local_heap"
  obtain h' where h': "reader_push_all ?res h = Inr h'" "reader_heap_inv h'" "rh_k h' = k" "heap_of k (offers @ ?res) (rh_data h')"
    using reader_push_all_of[of h offers ?res] assms(1) by (auto simp: heap_holds_def)
  have "mset ?res = mset (rh_data local_heap)" by (simp add: reader_heap_into_sorted_def)
  moreover have "heap_of k offs (rh_data local_heap)" using assms(2) by (simp add: heap_holds_def)
  ultimately have "heap_of k (offers @ offs) (rh_data h')" using heap_of_local[OF h'(4)] by blast
  then show ?thesis using h' by (auto simp: merge_flat_results_def reader_push_all_def heap_holds_def)
qed

lemma merges_hold:
  assumes "list_all2 (heap_holds k) offs hs" "heap_holds k offers h"
  shows "\<exists>h'. fold_res merge_flat_results (map reader_heap_into_sorted hs) h = Inr h' \<and> heap_holds k (offers @ concat offs) h'"
  using assms
proof (induction offs hs arbitrary: offers h rule: list_all2_induct)
  case (Cons o1 offs h1 hs)
  from merge_holds[OF Cons.prems Cons.hyps(1)] Cons.IH show ?case by fastforce
qed auto

text \<open>The scan of one list that was read.\<close>

lemma list_scan_holds:
  assumes "heap_holds k offers h" "data_of ls l x" "length (snd (ls ! l)) = length (fst (ls ! l)) * d"
    "list_all (\<lambda>(l, row, v). query_ok d metric q \<and> vector_ok metric v) (list_items d ls l)"
  shows "\<exists>h'. scan_flat_list t reader_collector q x d metric row_filter h = Inr h'
    \<and> heap_holds k (offers @ item_offers t q metric row_filter (list_items d ls l)) h'"
proof (cases "fst (ls ! l) = []")
  case True
  then show ?thesis using assms(1,2) by (simp add: scan_flat_list_def data_of_def scan_flat_rows_def Let_def)
next
  case False
  then have "query_ok d metric q" using assms(4) by (cases "fst (ls ! l)") (auto simp: row_items_def)
  moreover have "list_all (\<lambda>(l, row, v). vector_ok metric v) (list_items d ls l)" using assms(4) by (auto simp: list_all_iff)
  ultimately show ?thesis using scan_holds[OF assms(1) _ assms(3), of metric q l t row_filter] assms(2)
    by (simp add: scan_flat_list_def data_of_def)
qed

lemma holds_length: "holds r ls \<Longrightarrow> l < length ls \<Longrightarrow> length (snd (ls ! l)) = length (fst (ls ! l)) * fr_d r"
  by (rule list_at_sizes(6)[of r l]) (simp add: holds_def)

lemma scan_batch_holds:
  assumes h: "holds r ls" and xs: "list_all (\<lambda>l. l < length ls) xs" and ds: "list_all2 (data_of ls) xs ds"
    and ok: "list_all (\<lambda>(l, row, v). query_ok (fr_d r) (fr_metric r) q \<and> vector_ok (fr_metric r) v) (concat (map (list_items (fr_d r) ls) xs))"
    and heap: "heap_holds k offers heap"
  shows "\<exists>h'. flat_scan_batch t q k row_filter r ds heap = Inr h'
    \<and> heap_holds k (offers @ item_offers t q (fr_metric r) row_filter (concat (map (list_items (fr_d r) ls) xs))) h'"
proof -
  let ?d = "fr_d r" and ?m = "fr_metric r"
  let ?off = "\<lambda>l. item_offers t q ?m row_filter (list_items ?d ls l)"
  have off: "item_offers t q ?m row_filter (concat (map (list_items ?d ls) ys)) = concat (map ?off ys)" for ys
    by (induction ys) simp_all
  have one: "\<exists>h'. scan_flat_list t reader_collector q x ?d ?m row_filter h = Inr h' \<and> heap_holds k (offs @ ?off l) h'"
    if "l \<in> set xs" "data_of ls l x" "heap_holds k offs h" for l x h offs
    using list_scan_holds[OF that(3,2), of ?d ?m q t row_filter] holds_length[OF h] xs ok that(1) by (auto simp: list_all_iff)
  have seq: "\<exists>h'. fold_res (\<lambda>l. scan_flat_list t reader_collector q l ?d ?m row_filter) es h = Inr h' \<and> heap_holds k (offs @ concat (map ?off ys)) h'"
    if "list_all2 (data_of ls) ys es" "set ys \<subseteq> set xs" "heap_holds k offs h" for ys es h offs
    using that
  proof (induction ys es arbitrary: offs h rule: list_all2_induct)
    case (Cons l ys x es)
    from one[of l x offs h] Cons obtain h1 where "scan_flat_list t reader_collector q x ?d ?m row_filter h = Inr h1"
      "heap_holds k (offs @ ?off l) h1" by auto
    then show ?case using Cons.IH[of "offs @ ?off l" h1] Cons.prems by auto
  qed auto
  have par: "\<exists>hs. map_res (\<lambda>l. bind_res (scan_flat_list t reader_collector q l ?d ?m row_filter (reader_heap_new k))
      (\<lambda>local_heap. Inr (reader_heap_into_sorted local_heap))) es = Inr (map reader_heap_into_sorted hs) \<and> list_all2 (heap_holds k) (map ?off ys) hs"
    if "list_all2 (data_of ls) ys es" "set ys \<subseteq> set xs" for ys es
    using that
  proof (induction ys es rule: list_all2_induct)
    case (Cons l ys x es)
    from one[of l x "[]" "reader_heap_new k"] Cons obtain h1 where
      "scan_flat_list t reader_collector q x ?d ?m row_filter (reader_heap_new k) = Inr h1" "heap_holds k (?off l) h1" by auto
    moreover obtain hs where "map_res (\<lambda>l. bind_res (scan_flat_list t reader_collector q l ?d ?m row_filter (reader_heap_new k))
      (\<lambda>local_heap. Inr (reader_heap_into_sorted local_heap))) es = Inr (map reader_heap_into_sorted hs)" "list_all2 (heap_holds k) (map ?off ys) hs"
      using Cons.IH Cons.prems by auto
    ultimately show ?case by (intro exI[of _ "h1 # hs"]) simp
  qed auto
  from par[OF ds] obtain hs where hs: "map_res (\<lambda>l. bind_res (scan_flat_list t reader_collector q l ?d ?m row_filter (reader_heap_new k))
      (\<lambda>local_heap. Inr (reader_heap_into_sorted local_heap))) ds = Inr (map reader_heap_into_sorted hs)"
    "list_all2 (heap_holds k) (map ?off xs) hs" by auto
  show ?thesis using merges_hold[OF hs(2) heap] seq[OF ds _ heap] hs(1) unfolding off flat_scan_batch_def Let_def by auto
qed

definition topk_row_ok :: "nat \<Rightarrow> MetricType \<Rightarrow> f32 list \<Rightarrow> item \<Rightarrow> bool" where
  "topk_row_ok d metric q = (\<lambda>(l, row, v). query_ok d metric q \<and> vector_ok metric v)"

definition topk_holds :: "arch \<Rightarrow> f32 list \<Rightarrow> MetricType \<Rightarrow> row_filter \<Rightarrow> nat \<Rightarrow> item list \<Rightarrow> ReaderTopKHeap \<Rightarrow> bool" where
  "topk_holds t q metric row_filter k rows h \<longleftrightarrow> heap_holds k (item_offers t q metric row_filter rows) h"

interpretation topk_loop: list_consumer "\<lambda>_ _ heap. Inr heap"
  "\<lambda>_ ids vectors heap. scan_flat_rows t reader_collector q ids vectors d metric row_filter heap"
  "flat_scan_batch t q k row_filter" d metric "topk_row_ok d metric q" "\<lambda>_. True" "topk_holds t q metric row_filter k"
  for t q d metric row_filter k
proof
  fix vs :: "f32 list" and ids :: "i64 list" and l rows s
  assume "length vs = length ids * d" "ids \<noteq> []" "list_all (topk_row_ok d metric q) (row_items d l ids vs)"
    "topk_holds t q metric row_filter k rows s"
  moreover from this have "query_ok d metric q" by (cases ids) (auto simp: row_items_def topk_row_ok_def)
  ultimately show "\<exists>s'. scan_flat_rows t reader_collector q ids vs d metric row_filter s = Inr s'
      \<and> topk_holds t q metric row_filter k (rows @ row_items d l ids vs) s'"
    using scan_holds[of k _ s d metric q vs ids l t row_filter] by (auto simp: topk_holds_def topk_row_ok_def list_all_iff)
next
  fix r ls xs ds rows s
  assume a: "holds r ls" "fr_d r = d" "fr_metric r = metric" "list_all (\<lambda>l. l < length ls \<and> True) xs" "list_all2 (data_of ls) xs ds"
    "list_all (topk_row_ok d metric q) (concat (map (list_items d ls) xs))" "topk_holds t q metric row_filter k rows s"
  show "\<exists>s'. flat_scan_batch t q k row_filter r ds s = Inr s' \<and> topk_holds t q metric row_filter k (rows @ concat (map (list_items d ls) xs)) s'"
    using scan_batch_holds[OF a(1) _ a(5), of q k _ s t row_filter] a(2-4,6,7) by (simp add: topk_holds_def topk_row_ok_def)
qed auto

definition search_query :: "arch \<Rightarrow> MetricType \<Rightarrow> f32 list \<Rightarrow> f32 list" where
  "search_query t metric query = (if metric = Cosine then fst (fvec_normalize t query) else query)"

definition probes :: "arch \<Rightarrow> f32 list \<Rightarrow> f32 list \<Rightarrow> nat \<Rightarrow> nat \<Rightarrow> nat \<Rightarrow> nat list" where
  "probes t q centroids nlist d nprobe = map snd (take nprobe (sort (ranked t q centroids nlist d)))"

lemma probes_less: "l \<in> set (probes t q centroids nlist d nprobe) \<Longrightarrow> l < nlist"
  by (auto simp: probes_def ranked_def dest!: in_set_takeD)

lemma length_search_query [simp]: "length (search_query t metric query) = length query"
  by (simp add: search_query_def fvec_normalize_def Let_def)

definition lists_streamable :: "nat \<Rightarrow> (i64 list \<times> f32 list) list \<Rightarrow> bool" where
  "lists_streamable d ls \<longleftrightarrow>
     list_all (\<lambda>l. ivf_payload_is_oversized (length (list_bytes_of l)) \<longrightarrow> streamable d (fst l)) ls"

lemma flat_reader_search_eq:
  assumes h: "holds r ls" and shape: "length query = fr_d r" "0 < fr_d r" "0 < k" "0 < nprobe" "selects sel"
      "length (fr_quantizer_centroids r) = length ls * fr_d r" "length (file_bytes (fr_reader r)) < 2 ^ 63"
    and q: "q = search_query t (fr_metric r) query" and fin: "fr_metric r = L2 \<longrightarrow> finite_vec q"
    and ok: "list_all (\<lambda>l. vector_ok (fr_metric r) (snd l)) ls" "lists_streamable (fr_d r) ls"
  shows "\<exists>heap rd. flat_reader_search_with_filter big t sel query k nprobe row_filter r = Inr (padded_flat_results heap k, r\<lparr>fr_reader := rd\<rparr>)
    \<and> heap_holds k (item_offers t q (fr_metric r) row_filter
        (concat (map (list_items (fr_d r) ls) (probes t q (fr_quantizer_centroids r) (length ls) (fr_d r) nprobe)))) heap"
proof -
  let ?d = "fr_d r" and ?m = "fr_metric r" and ?ps = "probes t q (fr_quantizer_centroids r) (length ls) (fr_d r) nprobe"
  have n: "fr_nlist r = length ls" using h by (simp add: holds_def)
  have lq: "length q = ?d" using q shape(1) by simp
  then have "probe_shape q (fr_quantizer_centroids r) (length ls) ?d" using shape(6) by (simp add: probe_shape_def)
  from find_topk_eq[OF shape(5) this] have probe:
    "\<exists>dists. find_topk t sel q (fr_quantizer_centroids r) (length ls) ?d nprobe = Inr (?ps, dists)" by (simp add: probes_def Let_def)
  have ps: "list_all (\<lambda>l. l < length ls \<and> True) ?ps" by (auto simp: list_all_iff dest: probes_less)
  have "vector_ok ?m v" if "l < length ls" "(l', row, v) \<in> set (list_items ?d ls l)" for l l' row v
    using that ok(1) finite_vec_row_of
    by (auto simp: row_items_def list_all_length vector_ok_def)
  then have rows: "list_all (topk_row_ok ?d ?m q) (concat (map (list_items ?d ls) ?ps))"
    using ps lq fin by (fastforce simp: list_all_iff topk_row_ok_def query_ok_def)
  have st: "list_all (\<lambda>l. ivf_payload_is_oversized (length (list_bytes_of (ls ! l))) \<longrightarrow> streamable ?d (fst (ls ! l))) ?ps"
    using ok(2) ps by (auto simp: lists_streamable_def list_all_iff)
  have start: "topk_holds t q ?m row_filter k [] (reader_heap_new k)" by (simp add: topk_holds_def)
  from topk_loop.loop_delivers[OF h refl refl shape(2,7) ps rows st start, of big] obtain heap rd where
    loop: "flat_list_loop big (\<lambda>_ _ heap. Inr heap)
      (\<lambda>_ ids vectors heap. scan_flat_rows t reader_collector q ids vectors ?d ?m row_filter heap)
      (flat_scan_batch t q k row_filter) ?ps r (reader_heap_new k) = Inr (heap, r\<lparr>fr_reader := rd\<rparr>)"
    "heap_holds k (item_offers t q ?m row_filter (concat (map (list_items ?d ls) ?ps))) heap" by (auto simp: topk_holds_def)
  have "flat_reader_search_with_filter big t sel query k nprobe row_filter r = Inr (padded_flat_results heap k, r\<lparr>fr_reader := rd\<rparr>)"
    using probe loop(1) shape(1,3,4) h n by (auto simp: flat_reader_search_with_filter_def search_query_def[symmetric] q[symmetric] Let_def)
  then show ?thesis using loop(2) by blast
qed

section \<open>A written index searched\<close>

lemma stored_items:
  assumes "length vs = length ids * d"
  shows "row_items d l (stored_ids ids) (stored_vectors d ids vs) = map (\<lambda>i. (l, ids ! i, row_of d vs i)) (stored_order ids)"
proof (rule nth_equalityI)
  let ?rows = "map (row_of d vs) (stored_order ids)"
  fix i assume i: "i < length (row_items d l (stored_ids ids) (stored_vectors d ids vs))"
  then have i: "i < length (stored_order ids)" by (simp add: row_items_def)
  have "slice (i * d) (Suc i * d) (concat ?rows) = ?rows ! i"
    by (rule slice_concat_rows) (use assms i in \<open>auto intro: length_row_of\<close>)
  then show "row_items d l (stored_ids ids) (stored_vectors d ids vs) ! i = map (\<lambda>i. (l, ids ! i, row_of d vs i)) (stored_order ids) ! i"
    using i by (simp add: row_items_def nth_enumerate_eq stored_ids_def stored_vectors_def row_of_def)
qed (simp add: row_items_def)

lemma stored_items_mset:
  assumes "length vs = length ids * d"
  shows "mset (row_items d l (stored_ids ids) (stored_vectors d ids vs)) = mset (row_items d l ids vs)"
proof -
  have "row_items d l ids vs = map (\<lambda>i. (l, ids ! i, row_of d vs i)) [0..<length ids]"
    by (rule nth_equalityI) (simp_all add: row_items_def nth_enumerate_eq)
  then show ?thesis using stored_items[OF assms, of l] by (simp add: stored_order_def)
qed

lemma item_offers_mset: "mset rows = mset rows' \<Longrightarrow> mset (item_offers t q metric row_filter rows) = mset (item_offers t q metric row_filter rows')"
  unfolding item_offers_def mset_map mset_filter by simp

lemma stored_offers_mset:
  assumes w: "writable index" and ps: "\<forall>l \<in> set ps. l < fi_nlist index"
  shows "mset (item_offers t q (fi_metric index) row_filter (concat (map (list_items (fi_d index) (stored_lists index)) ps)))
    = mset (concat (map (list_offers t q row_filter index) ps))"
  using ps
proof (induction ps)
  case (Cons l ps)
  let ?ids = "fi_ids index ! l" and ?vs = "fi_vectors index ! l"
  have "length ?vs = length ?ids * fi_d index" using w Cons.prems by (simp add: writable_def)
  from stored_items_mset[OF this, of l] have "mset (list_items (fi_d index) (stored_lists index) l) = mset (row_items (fi_d index) l ?ids ?vs)"
    using stored_lists_nth[OF w] Cons.prems by simp
  from item_offers_mset[OF this] show ?case using Cons by (simp add: list_offers_def swap_flat_offers[where l = l])
qed simp

lemma finite_stored_vectors: "length vs = length ids * d \<Longrightarrow> finite_vec vs \<Longrightarrow> finite_vec (stored_vectors d ids vs)"
  using finite_vec_row_of by (fastforce simp: stored_vectors_def finite_vec_def list_all_iff)

text \<open>An index whose numbers the kernels are exact on: under L2 they are finite.\<close>

definition index_finite :: "IVFFlatIndex \<Rightarrow> bool" where
  "index_finite index \<longleftrightarrow> (fi_metric index = L2 \<longrightarrow> list_all finite_vec (fi_vectors index))"

lemma written_search:
  assumes w: "write_ivfflat_index index [] = Inr bs" and f: "file_bytes rd = bs" "length bs < 2 ^ 63"
    and q: "length query = fi_d index" "q = search_query t (fi_metric index) query" "fi_metric index = L2 \<longrightarrow> finite_vec q"
    and k: "0 < k" "0 < nprobe" "selects sel" and ok: "index_finite index" "lists_streamable (fi_d index) (stored_lists index)"
    and ps: "ps = probes t q (fi_quantizer_centroids index) (fi_nlist index) (fi_d index) nprobe"
  shows "\<exists>r r' heap. flat_open rd = Inr r \<and> flat_reader_search_with_filter big t sel query k nprobe row_filter r = Inr (padded_flat_results heap k, r')
    \<and> heap_holds k (concat (map (list_offers t q row_filter index) ps)) heap"
proof -
  have wr: "writable index" "bs = file_of index" using w by (simp_all add: write_ivfflat_index_iff)
  obtain r r' where r: "flat_open rd = Inr r" "flat_ensure_loaded r = Inr r'" "holds r' (stored_lists index)"
    "fr_d r' = fi_d index" "fr_metric r' = fi_metric index" "fr_quantizer_centroids r' = fi_quantizer_centroids index"
    "file_bytes (fr_reader r') = file_of index" using open_load_holds[OF wr(1), of rd] f(1) wr(2) by blast
  have shape: "0 < fi_d index" "length (fi_quantizer_centroids index) = length (stored_lists index) * fi_d index"
    using wr(1) length_stored_lists[OF wr(1)] by (simp_all add: writable_def)
  have "vector_ok (fi_metric index) (snd (stored_lists index ! l))" if "l < fi_nlist index" for l
    using that wr(1) ok(1) finite_stored_vectors[of "fi_vectors index ! l" "fi_ids index ! l" "fi_d index"]
    by (simp add: vector_ok_def stored_lists_nth index_finite_def list_all_length writable_def)
  then have vec: "list_all (\<lambda>l. vector_ok (fr_metric r') (snd l)) (stored_lists index)"
    using length_stored_lists[OF wr(1)] r(5) by (simp add: list_all_length)
  obtain heap rd' where res: "flat_reader_search_with_filter big t sel query k nprobe row_filter r' = Inr (padded_flat_results heap k, r'\<lparr>fr_reader := rd'\<rparr>)"
    "heap_holds k (item_offers t q (fi_metric index) row_filter (concat (map (list_items (fi_d index) (stored_lists index)) ps))) heap"
    using flat_reader_search_eq[OF r(3), of query k nprobe sel q t big row_filter] q k ok(2) shape f(2) wr(2) vec r(4-7)
      length_stored_lists[OF wr(1)] ps by auto
  have "\<forall>l \<in> set ps. l < fi_nlist index" unfolding ps by (auto dest: probes_less)
  from stored_offers_mset[OF wr(1) this, of t q row_filter] res(2) have "heap_holds k (concat (map (list_offers t q row_filter index) ps)) heap"
    unfolding heap_holds_def using heap_of_mset by blast
  moreover have "flat_reader_search_with_filter big t sel query k nprobe row_filter r = flat_reader_search_with_filter big t sel query k nprobe row_filter r'"
    using r(2,3) by (simp add: flat_reader_search_with_filter_def)
  ultimately show ?thesis using r(1) res(1) by (intro exI[of _ r] exI[of _ "r'\<lparr>fr_reader := rd'\<rparr>"] exI[of _ heap]) simp
qed

section \<open>Properties\<close>

text \<open>C6: a top-k search over a written and reopened index returns the k least exact distances over
  the rows of the \<open>nprobe\<close> nearest lists that the filter lets through, ascending and padded with -1 and
  the largest float. It is so whether a list is streamed in chunks, read in a batch, scanned in order
  or in parallel into local heaps that are merged, and although rows are abandoned early. Every
  result pair is a row of a probed list with its own distance, and no row is returned twice.\<close>

theorem flat_reader_search_exact:
  assumes "write_ivfflat_index index [] = Inr bs" "file_bytes rd = bs" "length bs < 2 ^ 63"
    and "length query = fi_d index" "q = search_query t (fi_metric index) query" "fi_metric index = L2 \<longrightarrow> finite_vec q"
    and "0 < k" "0 < nprobe" "selects sel" "index_finite index" "lists_streamable (fi_d index) (stored_lists index)"
    and "offers = concat (map (list_offers t q row_filter index)
      (probes t q (fi_quantizer_centroids index) (fi_nlist index) (fi_d index) nprobe))"
  shows "\<exists>r r' best. flat_open rd = Inr r
    \<and> flat_reader_search_with_filter big t sel query k nprobe row_filter r
        = Inr ((resize k (- 1) (map snd best), resize k f32_MAX (map fst best)), r')
    \<and> mset best \<subseteq># mset offers \<and> map fst best = take k (sort (filter (\<lambda>v. \<not> is_nan v) (map fst offers)))"
proof -
  obtain r r' heap where "flat_open rd = Inr r"
    "flat_reader_search_with_filter big t sel query k nprobe row_filter r = Inr (padded_flat_results heap k, r')" "heap_holds k offers heap"
    using written_search[OF assms(1-11) refl, of big row_filter] assms(12) by blast
  then show ?thesis using heap_of_sorted[of k offers heap] unfolding padded_flat_results_def Let_def heap_holds_def by blast
qed

definition small_index :: IVFFlatIndex where
  "small_index = \<lparr>fi_d = 1, fi_nlist = 1, fi_metric = L2, fi_quantizer_centroids = [f32_zero], fi_ids = [[5, 7]],
     fi_vectors = [[f32_zero, f32_one]]\<rparr>"

definition small_reader :: seek_reader where
  "small_reader = \<lparr>file_bytes = file_of small_index, capabilities = \<lparr>estimated_random_read_latency_nanos = 0,
     preferred_window_bytes = 0, max_ranges_per_pread = 0\<rparr>, preads = []\<rparr>"

lemma small_order: "stored_order [5, 7] = [0, 1]"
  by (simp add: stored_order_def upt_rec)

lemma small_ids: "id_bytes_of [5, 7] = [0, 2]"
  by (simp add: id_bytes_of_def encode_delta_varint_ids_def write_u64_varint.simps)

lemma small_lists: "stored_lists small_index = [([5, 7], [f32_zero, f32_one])]"
  by (simp add: stored_lists_def small_index_def stored_ids_def stored_vectors_def small_order row_of_def slice_def)

lemma small_list_bytes: "length (list_bytes_of ([5, 7], [f32_zero, f32_one])) = 22"
  by (simp add: length_list_bytes small_ids)

lemma small_writable: "writable small_index"
proof -
  have "table_fits (data_start small_index) (stored_lists small_index)"
    unfolding small_lists by (simp add: data_start_def small_index_def small_list_bytes small_ids)
  then show ?thesis by (simp add: writable_def) (simp add: small_index_def index_size_def MAX_SECTION_ELEMENTS_def)
qed

lemma small_facts:
  "write_ivfflat_index small_index [] = Inr (file_of small_index)" "file_bytes small_reader = file_of small_index"
  "length (file_of small_index) < 2 ^ 63" "length [f32_one] = fi_d small_index"
  "[f32_one] = search_query OtherArch (fi_metric small_index) [f32_one]" "fi_metric small_index = L2 \<longrightarrow> finite_vec [f32_one]"
  "index_finite small_index" "lists_streamable (fi_d small_index) (stored_lists small_index)"
proof -
  have "length (file_of small_index) = 106"
    unfolding file_of_def small_lists by (simp add: small_list_bytes) (simp add: small_index_def)
  then show "length (file_of small_index) < 2 ^ 63" by simp
  show "lists_streamable (fi_d small_index) (stored_lists small_index)" unfolding small_lists lists_streamable_def
    by (simp add: small_list_bytes ivf_payload_is_oversized_def MAX_IVF_BATCH_READ_BYTES_def)
qed (simp_all add: write_ivfflat_index_iff small_writable small_reader_def, simp_all add: small_index_def search_query_def
      index_finite_def finite_vec_def f32_eval)

lemma small_probes: "probes t q (fi_quantizer_centroids small_index) (fi_nlist small_index) (fi_d small_index) 1 = [0]"
  by (simp add: probes_def ranked_def small_index_def)

lemma small_offers: "list_offers OtherArch [f32_one] None small_index 0 = [(f32_one, 5), (f32_zero, 7)]"
proof -
  have "list_offers OtherArch [f32_one] None small_index 0
      = map prod.swap (flat_offers OtherArch [f32_one] [5, 7] [f32_zero, f32_one] 1 L2 None)"
    by (simp add: list_offers_def small_index_def)
  then show ?thesis unfolding two_row_offers by simp
qed

lemma small_best: "take 1 (sort (filter (\<lambda>v. \<not> is_nan v) (map fst [(f32_one, 5 :: i64), (f32_zero, 7)]))) = [f32_zero]"
proof -
  have "\<not> f32_one \<le> f32_zero" using f32_lt_less[OF f32_lt_zero_one(1)] by simp
  then show ?thesis by (simp add: f32_eval)
qed

theorem flat_reader_search_exact_witness:
  "\<exists>r r'. flat_open small_reader = Inr r
    \<and> flat_reader_search_with_filter False OtherArch (\<lambda>n. sort) [f32_one] 1 1 None r = Inr (([7], [f32_zero]), r')"
proof -
  have off: "concat (map (list_offers OtherArch [f32_one] None small_index)
      (probes OtherArch [f32_one] (fi_quantizer_centroids small_index) (fi_nlist small_index) (fi_d small_index) 1))
    = [(f32_one, 5), (f32_zero, 7)]" unfolding small_probes by (simp add: small_offers)
  obtain r r' best where b: "flat_open small_reader = Inr r"
    "flat_reader_search_with_filter False OtherArch (\<lambda>n. sort) [f32_one] 1 1 None r
        = Inr ((resize 1 (- 1) (map snd best), resize 1 f32_MAX (map fst best)), r')"
    "mset best \<subseteq># mset [(f32_one, 5), (f32_zero, 7)]" "map fst best = [f32_zero]"
    using flat_reader_search_exact[OF small_facts(1-6) zero_less_one zero_less_one selects_sort small_facts(7,8) off[symmetric], of False]
    unfolding small_best by (elim exE conjE) (rule that)
  obtain row where best: "best = [(f32_zero, row)]" using b(4) by (cases best) auto
  have "f32_zero \<noteq> f32_one" using f32_lt_zero_one(1,3) by metis
  then have "row = 7" using b(3) unfolding best by (auto dest: mset_subset_eq_insertD)
  then show ?thesis using b(1,2) by (auto simp: best resize_def)
qed

end
