(* ===== verification/Fan_Out.thy ===== *)
theory Fan_Out
  imports Flat_TopK
begin

text \<open>
  What a batch of queries does with the lists it selects. \<open>fan_out\<close> turns the lists of every query into
  the queries of every list; each list is then read once. The work is a sequence of tasks, each of which
  adds the rows of one list to the bucket of one query; a bucket may depend on the rows it was
  given, not on their order.
\<close>

section \<open>The queries of a list\<close>

definition probing :: "nat list list \<Rightarrow> nat \<Rightarrow> nat list" where
  "probing probe_lists l = filter (\<lambda>qi. l \<in> set (probe_lists ! qi)) [0..<length probe_lists]"

lemma probing_snoc: "probing (pls @ [p]) l = probing pls l @ (if l \<in> set p then [length pls] else [])"
proof -
  have "filter (\<lambda>qi. l \<in> set ((pls @ [p]) ! qi)) [0..<length pls] = filter (\<lambda>qi. l \<in> set (pls ! qi)) [0..<length pls]"
    by (intro filter_cong) (auto simp: nth_append)
  then show ?thesis by (simp add: probing_def)
qed

lemma probing_simps [simp]: "distinct (probing pls l)" "set (probing pls l) = {qi. qi < length pls \<and> l \<in> set (pls ! qi)}"
  by (auto simp: probing_def)

definition unique_ok :: "nat list list \<Rightarrow> nat list \<Rightarrow> bool" where
  "unique_ok list_to_queries unique_lists \<longleftrightarrow>
     distinct unique_lists \<and> set unique_lists = {l. l < length list_to_queries \<and> list_to_queries ! l \<noteq> []}"

lemma fan_out_query:
  assumes "distinct ps" "set ps \<subseteq> {..<length ltq}" "unique_ok ltq uniq"
  shows "\<exists>uniq'. fold_res (fan_out_list qi) ps (ltq, uniq)
    = Inr (map (\<lambda>l. ltq ! l @ (if l \<in> set ps then [qi] else [])) [0..<length ltq], uniq')
    \<and> unique_ok (map (\<lambda>l. ltq ! l @ (if l \<in> set ps then [qi] else [])) [0..<length ltq]) uniq'"
  using assms
proof (induction ps arbitrary: ltq uniq)
  case Nil
  have "map (\<lambda>l. ltq ! l) [0..<length ltq] = ltq" by (rule map_nth)
  then show ?case using Nil by simp
next
  case (Cons p ps)
  define ltq' where "ltq' = ltq[p := ltq ! p @ [qi]]"
  define uniq1 where "uniq1 = (if ltq ! p = [] then uniq @ [p] else uniq)"
  have p: "p < length ltq" "p \<notin> set ps" "length ltq' = length ltq" using Cons.prems by (auto simp: ltq'_def)
  have step: "fan_out_list qi p (ltq, uniq) = Inr (ltq', uniq1)" using p by (simp add: fan_out_list_def idx_def ltq'_def uniq1_def)
  have "unique_ok ltq' uniq1"
    using Cons.prems(3) p(1) by (auto simp: unique_ok_def uniq1_def ltq'_def nth_list_update)
  note IH = Cons.IH[of ltq' uniq1, unfolded p(3), OF _ _ this]
  have eq: "map (\<lambda>l. ltq' ! l @ (if l \<in> set ps then [qi] else [])) [0..<length ltq]
      = map (\<lambda>l. ltq ! l @ (if l \<in> set (p # ps) then [qi] else [])) [0..<length ltq]"
    using p by (intro map_cong) (auto simp: ltq'_def nth_list_update)
  show ?case using IH Cons.prems(1,2) step unfolding eq by simp
qed

lemma fan_out_eq:
  assumes "list_all (\<lambda>ps. distinct ps \<and> set ps \<subseteq> {..<nlist}) pls"
  shows "\<exists>uniq. fan_out nlist pls = Inr (map (probing pls) [0..<nlist], uniq) \<and> unique_ok (map (probing pls) [0..<nlist]) uniq"
  using assms
proof (induction pls rule: rev_induct)
  case Nil
  have "map (probing []) [0..<nlist] = replicate nlist []" by (rule nth_equalityI) (simp_all add: probing_def)
  then show ?case by (simp add: fan_out_def unique_ok_def)
next
  case (snoc p pls)
  then obtain uniq where u: "fan_out nlist pls = Inr (map (probing pls) [0..<nlist], uniq)" "unique_ok (map (probing pls) [0..<nlist]) uniq" by auto
  have eq: "map (\<lambda>l. map (probing pls) [0..<nlist] ! l @ (if l \<in> set p then [length pls] else [])) [0..<nlist] = map (probing (pls @ [p])) [0..<nlist]"
    by (intro map_cong) (simp_all add: probing_snoc)
  obtain uniq' where "fold_res (fan_out_list (length pls)) p (map (probing pls) [0..<nlist], uniq) = Inr (map (probing (pls @ [p])) [0..<nlist], uniq')"
    "unique_ok (map (probing (pls @ [p])) [0..<nlist]) uniq'"
    using fan_out_query[OF _ _ u(2), of p "length pls", unfolded length_map length_upt diff_zero eq] snoc.prems by auto
  then show ?case using u(1) by (simp add: fan_out_def enumerate_append_eq fold_res_append)
qed

section \<open>Tasks\<close>

lemma fold_tasks:
  assumes step: "\<And>x qi bs. (x, qi) \<in> set tasks \<Longrightarrow> qi < n \<and> step (x, qi) bs = update_heap qi (f x qi) bs"
    and adds: "\<And>x qi rows b. (x, qi) \<in> set tasks \<Longrightarrow> B qi rows b \<Longrightarrow> \<exists>b'. f x qi b = Inr b' \<and> B qi (rows @ items x) b'"
    and start: "length buckets = n" "\<And>qi. qi < n \<Longrightarrow> B qi (rows qi) (buckets ! qi)"
  shows "\<exists>buckets'. fold_res step tasks buckets = Inr buckets' \<and> length buckets' = n
    \<and> (\<forall>qi < n. B qi (rows qi @ concat (map (\<lambda>task. items (fst task)) (filter (\<lambda>task. snd task = qi) tasks))) (buckets' ! qi))"
  using assms
proof (induction tasks arbitrary: buckets rows)
  case (Cons task tasks)
  obtain x q where t: "task = (x, q)" by (cases task)
  have q: "q < n" "step (x, q) buckets = update_heap q (f x q) buckets" using Cons.prems(1)[of x q buckets] t by auto
  obtain b' where b': "f x q (buckets ! q) = Inr b'" "B q (rows q @ items x) b'"
    using Cons.prems(2)[of x q "rows q" "buckets ! q"] Cons.prems(4)[OF q(1)] t by auto
  define rows' where "rows' = rows(q := rows q @ items x)"
  have st: "step task buckets = Inr (buckets[q := b'])" using q b' Cons.prems(3) t by (simp add: update_heap_def idx_def)
  have "B qi (rows' qi) (buckets[q := b'] ! qi)" if "qi < n" for qi
    using that b'(2) Cons.prems(3,4) by (auto simp: rows'_def nth_list_update)
  then have "\<exists>buckets'. fold_res step tasks (buckets[q := b']) = Inr buckets' \<and> length buckets' = n
    \<and> (\<forall>qi < n. B qi (rows' qi @ concat (map (\<lambda>task. items (fst task)) (filter (\<lambda>task. snd task = qi) tasks))) (buckets' ! qi))"
    using Cons.prems(1-3) by (intro Cons.IH) auto
  then obtain buckets' where b'': "fold_res step tasks (buckets[q := b']) = Inr buckets'" "length buckets' = n"
    "\<And>qi. qi < n \<Longrightarrow> B qi (rows' qi @ concat (map (\<lambda>task. items (fst task)) (filter (\<lambda>task. snd task = qi) tasks))) (buckets' ! qi)" by blast
  have "B qi (rows qi @ concat (map (\<lambda>task. items (fst task)) (filter (\<lambda>task. snd task = qi) (task # tasks)))) (buckets' ! qi)" if "qi < n" for qi
    using b''(3)[OF that] t by (cases "qi = q") (simp_all add: rows'_def)
  then show ?case using st b''(1,2) by simp
qed simp

text \<open>The rows that a query is to see.\<close>

definition rows_for :: "nat list list \<Rightarrow> nat \<Rightarrow> item list \<Rightarrow> item list" where
  "rows_for list_to_queries qi rows = filter (\<lambda>(l, _). qi \<in> set (list_to_queries ! l)) rows"

lemma rows_for_append [simp]: "rows_for ltq qi (xs @ ys) = rows_for ltq qi xs @ rows_for ltq qi ys"
  by (simp add: rows_for_def)

lemma rows_for_Nil [simp]: "rows_for ltq qi [] = []"
  by (simp add: rows_for_def)

lemma rows_for_items: "rows_for ltq qi (row_items d l ids vs) = (if qi \<in> set (ltq ! l) then row_items d l ids vs else [])"
  by (auto simp: rows_for_def row_items_def filter_map comp_def case_prod_unfold)

definition list_tasks :: "nat list list \<Rightarrow> ('x \<times> nat) list \<Rightarrow> ('x \<times> nat) list" where
  "list_tasks ltq xs = concat (map (\<lambda>(x, l). map (Pair x) (ltq ! l)) xs)"

lemma filter_eq_distinct: "distinct qs \<Longrightarrow> filter (\<lambda>q. q = qi) qs = (if qi \<in> set qs then [qi] else [])"
  by (induction qs) auto

lemma list_tasks_rows:
  assumes "list_all (\<lambda>(x, l). distinct (ltq ! l) \<and> items x = row_items d l (ids x) (vs x)) xs"
  shows "concat (map (\<lambda>task. items (fst task)) (filter (\<lambda>task. snd task = qi) (list_tasks ltq xs)))
    = rows_for ltq qi (concat (map (\<lambda>(x, l). items x) xs))"
  using assms
proof (induction xs)
  case (Cons xl xs)
  obtain x l where xl: "xl = (x, l)" by (cases xl)
  have "map (\<lambda>task. items (fst task)) (filter (\<lambda>task. snd task = qi) (map (Pair x) (ltq ! l))) = map (\<lambda>q. items x) (filter (\<lambda>q. q = qi) (ltq ! l))"
    by (simp add: filter_map comp_def)
  then have "concat (map (\<lambda>task. items (fst task)) (filter (\<lambda>task. snd task = qi) (map (Pair x) (ltq ! l)))) = rows_for ltq qi (items x)"
    using Cons.prems xl filter_eq_distinct[of "ltq ! l" qi] by (auto simp: rows_for_items)
  then show ?case using Cons xl by (simp add: list_tasks_def)
qed (simp add: list_tasks_def)

end
