(* ===== verification/Batch_Rank.thy ===== *)
theory Batch_Rank
  imports Probe
begin

text \<open>
  What \<open>find_topk_batch\<close> of \<open>core/src/kmeans.rs\<close> selects. It ranks centroids by expanded distances from a matrix
  product and computes exact distances near the boundary (\<open>refine_topk_boundary\<close>). Whatever numbers the product
  returns, every query gets as many different centroids as it asked for, with their exact distances and in their
  order. When the approximate distances are within the error bound they are the nearest centroids: this is the
  comment of \<open>refine_topk_boundary\<close>, that a value farther than twice the error bound from the boundary cannot cross
  it, carried through the rounding of the two limits, the doubling of the bound and the ties.
\<close>

section \<open>Comparing with a rounded sum\<close>

lemma round_code_exact: "is_finite z \<Longrightarrow> round_ratio 23 F32_INF_CODE (mag 23 (code z)) 1 = code z"
  by (rule round_ratio_exact) (auto simp: is_finite_def)

lemma round_le_code: "is_finite z \<Longrightarrow> n \<le> mag 23 (code z) \<Longrightarrow> round_ratio 23 F32_INF_CODE n 1 \<le> code z"
  using round_ratio_mono[of 1 1 n "mag 23 (code z)" 23 F32_INF_CODE] round_code_exact by simp

lemma code_le_round: "is_finite z \<Longrightarrow> mag 23 (code z) \<le> n \<Longrightarrow> code z \<le> round_ratio 23 F32_INF_CODE n 1"
  using round_ratio_mono[of 1 1 "mag 23 (code z)" n 23 F32_INF_CODE] round_code_exact by simp

lemma add_scode_le:
  assumes fin: "is_finite x" "is_finite y" "is_finite z" and le: "f32_val x + f32_val y \<le> f32_val z"
  shows "scode (f32_add x y) \<le> scode z"
proof -
  define n where "n = f32_val x + f32_val y"
  have ni: "\<not> is_inf x" "\<not> is_inf y" using fin by (auto simp: is_inf_def is_finite_def)
  have add: "f32_add x y = (if n = 0 then mk_f32 (sign x \<and> sign y) 0
      else mk_f32 (n < 0) (round_ratio 23 F32_INF_CODE (nat \<bar>n\<bar>) 1))"
    using fin ni by (simp add: f32_add_def n_def Let_def)
  have z: "n \<le> (if sign z then - int (mag 23 (code z)) else int (mag 23 (code z)))"
    using le by (simp add: n_def f32_val_def)
  consider "n = 0" | "0 < n" | "n < 0" by linarith
  then show ?thesis
  proof cases
    case 1
    then show ?thesis using z add by (auto simp: scode_def split: if_splits)
  next
    case 2
    then have "\<not> sign z" "nat \<bar>n\<bar> \<le> mag 23 (code z)" using z by (auto split: if_splits)
    then show ?thesis using add 2 round_le_code[OF fin(3)] by (simp add: scode_def)
  next
    case 3
    show ?thesis
    proof (cases "sign z")
      case True
      then have "mag 23 (code z) \<le> nat \<bar>n\<bar>" using z 3 by auto
      then show ?thesis using add 3 True code_le_round[OF fin(3)] by (simp add: scode_def)
    qed (use add 3 in \<open>simp add: scode_def\<close>)
  qed
qed

lemma add_neg_scode: "is_finite x \<Longrightarrow> is_finite y \<Longrightarrow> scode (f32_add (f32_neg x) (f32_neg y)) = - scode (f32_add x y)"
proof -
  assume fin: "is_finite x" "is_finite y"
  then have ni: "\<not> is_inf x" "\<not> is_inf y" by (auto simp: is_inf_def is_finite_def)
  have "\<bar>- f32_val x - f32_val y\<bar> = \<bar>f32_val x + f32_val y\<bar>" by linarith
  then show ?thesis using fin ni
    by (auto simp: f32_add_def Let_def scode_def)
qed

lemma scode_le_add:
  assumes "is_finite x" "is_finite y" "is_finite z" "f32_val z \<le> f32_val x + f32_val y"
  shows "scode z \<le> scode (f32_add x y)"
  using add_scode_le[of "f32_neg x" "f32_neg y" "f32_neg z"] add_neg_scode[of x y] assms by simp

section \<open>Doubling\<close>

lemma mag_double: "\<exists>c2. mag 23 c2 = 2 * mag 23 c"
proof -
  have "\<exists>a s. a < 2 ^ 24 \<and> mag 23 c = a * 2 ^ s"
  proof (cases "c div 2 ^ 23")
    case 0
    then show ?thesis by (intro exI[of _ c] exI[of _ 0]) (auto simp: mag_def div_eq_0_iff)
  next
    case (Suc e)
    then show ?thesis by (intro exI[of _ "2 ^ 23 + c mod 2 ^ 23"] exI[of _ e]) (simp add: mag_def)
  qed
  then obtain a s where "a < 2 ^ (23 + 1)" "mag 23 c = a * 2 ^ s" by auto
  then show ?thesis using mag_represents[of a 23 "Suc s"] by (metis mult.left_commute power_Suc)
qed

lemma code_two: "sign f32_two = False" "code f32_two = 0x40000000" "is_finite f32_two"
  by (simp_all add: f32_two_def sign_def code_def is_finite_def F32_INF_CODE_def)

lemma mag_two: "mag 23 (code f32_two) = 2 * 2 ^ 149"
  by (simp add: code_two mag_def)

lemma double_cases:
  assumes "\<not> is_nan E" "\<not> sign E"
  shows "is_inf (f32_mul f32_two E) \<and> \<not> sign (f32_mul f32_two E)
    \<or> is_finite E \<and> is_finite (f32_mul f32_two E) \<and> f32_val (f32_mul f32_two E) = 2 * f32_val E"
proof (cases "is_inf E")
  case True
  then show ?thesis using assms code_two by (auto simp: f32_mul_def is_inf_def is_finite_def is_nan_def F32_INF_CODE_def)
next
  case False
  then have fin: "is_finite E" using assms class_cases by blast
  have ni: "\<not> is_inf f32_two" "\<not> is_nan f32_two" using code_two by (auto simp: is_inf_def is_finite_def)
  obtain c2 where c2: "mag 23 c2 = 2 * mag 23 (code E)" using mag_double by blast
  define r where "r = round_ratio 23 F32_INF_CODE (mag 23 (code f32_two) * mag 23 (code E)) (2 ^ 149)"
  have mul: "f32_mul f32_two E = mk_f32 False r"
    using assms False ni code_two(1) by (simp add: f32_mul_def r_def)
  have prod: "mag 23 (code f32_two) * mag 23 (code E) = mag 23 c2 * 2 ^ 149" by (simp only: mag_two c2 ac_simps)
  show ?thesis
  proof (cases "c2 < F32_INF_CODE")
    case True
    then have "r = c2" unfolding r_def prod by (intro round_ratio_exact) auto
    then show ?thesis using mul True fin c2 assms mk_f32_le_inf[of c2]
      by (simp add: is_finite_def f32_val_def)
  next
    case False
    have "round_ratio 23 F32_INF_CODE (mag 23 F32_INF_CODE * 2 ^ 149) (2 ^ 149) \<le> r"
      unfolding r_def prod by (rule round_ratio_mono) (use False in \<open>auto intro!: mult_right_mono\<close>)
    then have "r = F32_INF_CODE"
      using round_ratio_exact[of F32_INF_CODE F32_INF_CODE "2 ^ 149" _ 23] round_ratio_le_inf[of 23 F32_INF_CODE]
      unfolding r_def by (metis le_antisym order_refl zero_less_numeral zero_less_power)
    then show ?thesis using mul by (simp add: is_inf_def)
  qed
qed

section \<open>Cutting a ranking at a boundary\<close>

text \<open>A ranking whose first entries are known to be within the first n and whose other entries are
  known to be beyond them needs only the entries in between to be ranked.\<close>

lemma take_sort_split:
  fixes everything :: "('a :: linorder) list"
  assumes dist: "distinct everything" and n: "n \<le> length everything"
    and certain: "\<And>x. x \<in> set everything \<Longrightarrow> S x \<Longrightarrow> x \<in> set (take n (sort everything))"
    and out: "\<And>x. x \<in> set everything \<Longrightarrow> \<not> S x \<Longrightarrow> \<not> A x \<Longrightarrow> x \<notin> set (take n (sort everything))"
    and disj: "\<And>x. S x \<Longrightarrow> \<not> A x"
  shows "length (filter S everything) \<le> n"
    and "sort (filter S everything @ take (n - length (filter S everything)) (sort (filter A everything))) = take n (sort everything)"
proof -
  define T where "T = take n (sort everything)"
  have T: "distinct T" "sorted T" "length T = n" "set T \<subseteq> set everything"
    using dist n set_take_subset[of n "sort everything"] by (auto simp: T_def)
  have "set (filter S T) = set (filter S everything)" using certain T(4) by (auto simp: T_def)
  then have ms: "mset (filter S T) = mset (filter S everything)"
    using dist T(1) by (metis distinct_filter set_eq_iff_mset_eq_distinct)
  then have len: "length (filter S T) = length (filter S everything)" by (metis size_mset)
  then show "length (filter S everything) \<le> n" using length_filter_le[of S T] T(3) by simp
  have nS: "filter (\<lambda>x. \<not> S x) T = filter A T" using out T(4) disj by (intro filter_cong) (auto simp: T_def)
  then have lenA: "length (filter A T) = n - length (filter S everything)"
    using sum_length_filter_compl[of S T] T(3) len by simp
  have "sort (filter A everything) = filter A (sort everything)" by (rule filter_sort[symmetric])
  also have "\<dots> = filter A T @ filter A (drop n (sort everything))"
    unfolding T_def by (metis append_take_drop_id filter_append)
  finally have "take (n - length (filter S everything)) (sort (filter A everything)) = filter A T" using lenA by simp
  moreover have "mset (filter S everything @ filter A T) = mset T"
    using ms nS by (metis mset_append mset_filter multiset_partition union_commute)
  then have "sort (filter S everything @ filter A T) = T"
    using sort_mset[of "filter S everything @ filter A T" T] sorted_sort_id[OF T(2)] by argo
  ultimately show "sort (filter S everything @ take (n - length (filter S everything)) (sort (filter A everything))) = take n (sort everything)"
    unfolding T_def by argo
qed

text \<open>Membership in the first n of a ranking, by counting.\<close>

lemma in_take_sortI:
  fixes xs :: "('a :: linorder) list"
  assumes "distinct xs" "x \<in> set xs" "card {y \<in> set xs. y < x} < n"
  shows "x \<in> set (take n (sort xs))"
proof -
  obtain i where i: "i < length xs" "sort xs ! i = x" using assms(2) by (metis in_set_conv_nth length_sort set_sort)
  have "set (take i (sort xs)) \<subseteq> {y \<in> set xs. y < x}"
  proof
    fix y assume y: "y \<in> set (take i (sort xs))"
    then obtain j where j: "j < i" "y = sort xs ! j" using i(1) by (auto simp: in_set_conv_nth)
    then have "y \<le> x" "y \<noteq> x" using i assms(1) by (auto simp: sorted_nth_mono nth_eq_iff_index_eq)
    then show "y \<in> {y \<in> set xs. y < x}" using in_set_takeD[OF y] by simp
  qed
  then have "card (set (take i (sort xs))) \<le> card {y \<in> set xs. y < x}" by (intro card_mono) auto
  moreover have "card (set (take i (sort xs))) = i" using assms(1) i(1) by (simp add: distinct_card)
  ultimately have "i < n" using assms(3) by simp
  then show ?thesis using i by (metis in_set_conv_nth length_sort length_take min_less_iff_conj nth_take)
qed

lemma not_in_take_sortI:
  fixes xs :: "('a :: linorder) list"
  assumes "distinct xs" "n \<le> card {y \<in> set xs. y < x}"
  shows "x \<notin> set (take n (sort xs))"
proof
  assume "x \<in> set (take n (sort xs))"
  then obtain i where i: "i < n" "i < length xs" "sort xs ! i = x" by (auto simp: in_set_conv_nth)
  have "{y \<in> set xs. y < x} \<subseteq> set (take i (sort xs))"
  proof
    fix y assume "y \<in> {y \<in> set xs. y < x}"
    then obtain j where j: "j < length xs" "sort xs ! j = y" "y < x" using nth_mem in_set_conv_nth[of y "sort xs"] by auto
    then have "j < i" using i sorted_nth_mono[of "sort xs" i j] by (metis leI leD length_sort sorted_sort)
    then show "y \<in> set (take i (sort xs))" using j by (auto simp: in_set_conv_nth)
  qed
  then have "card {y \<in> set xs. y < x} \<le> card (set (take i (sort xs)))" by (intro card_mono) auto
  also have "\<dots> \<le> i" using card_length[of "take i (sort xs)"] by simp
  finally show False using i assms(2) by simp
qed

lemma card_below_nth:
  fixes xs :: "('a :: linorder) list"
  assumes "distinct xs" "0 < n" "n \<le> length xs"
  shows "card {y \<in> set xs. y < sort xs ! (n - 1)} < n" "n \<le> card {y \<in> set xs. y \<le> sort xs ! (n - 1)}"
proof -
  let ?b = "sort xs ! (n - 1)"
  show "card {y \<in> set xs. y < ?b} < n"
  proof (rule ccontr)
    assume "\<not> ?thesis"
    then have "?b \<notin> set (take n (sort xs))" by (intro not_in_take_sortI[OF assms(1)]) simp
    moreover have "take n (sort xs) ! (n - 1) = ?b" "n - 1 < length (take n (sort xs))" using assms by auto
    ultimately show False by (metis nth_mem)
  qed
  have "set (take n (sort xs)) \<subseteq> {y \<in> set xs. y \<le> ?b}"
  proof
    fix y assume y: "y \<in> set (take n (sort xs))"
    then obtain j where "j < n" "y = sort xs ! j" using assms(3) by (auto simp: in_set_conv_nth)
    then have "y \<le> ?b" using sorted_nth_mono[of "sort xs" j "n - 1"] assms(2,3) by simp
    then show "y \<in> {y \<in> set xs. y \<le> ?b}" using in_set_takeD[OF y] by simp
  qed
  then have "card (set (take n (sort xs))) \<le> card {y \<in> set xs. y \<le> ?b}" by (intro card_mono) auto
  then show "n \<le> card {y \<in> set xs. y \<le> ?b}" using assms by (simp add: distinct_card)
qed

section \<open>Distances within the error bound\<close>

definition pairs :: "(nat \<Rightarrow> f32) \<Rightarrow> nat \<Rightarrow> (f32 \<times> nat) list" where
  "pairs f k = map (\<lambda>c. (f c, c)) [0..<k]"

lemma ranked_pairs: "ranked t point centroids k d = pairs (cdist t point centroids d) k"
  by (simp add: ranked_def pairs_def)

lemma pairs_simps [simp]: "length (pairs f k) = k" "distinct (pairs f k)" "set (pairs f k) = (\<lambda>c. (f c, c)) ` {..<k}"
  by (auto simp: pairs_def distinct_map inj_on_def)

lemma card_pairs: "card {y \<in> set (pairs f k). P y} = card {c. c < k \<and> P (f c, c)}"
proof -
  have "{y \<in> set (pairs f k). P y} = (\<lambda>c. (f c, c)) ` {c. c < k \<and> P (f c, c)}" by auto
  then show ?thesis by (simp add: card_image inj_on_def)
qed

lemma val_less_pair: "f32_val x < f32_val y \<Longrightarrow> (x, i) < (y, j :: nat)"
  by (simp add: less_prod_def f32_val_less_iff less_f32_def scode_total_key)

lemma pair_le_val: "(x, i) \<le> (y, j :: nat) \<Longrightarrow> f32_val x \<le> f32_val y"
  using val_less_pair[of y x j i] by (metis leD leI)

lemma boundary_ranks:
  fixes a e :: "nat \<Rightarrow> f32" and E :: int
  assumes n: "0 < n" "n \<le> k" and err: "\<And>c. c < k \<Longrightarrow> \<bar>f32_val (a c) - f32_val (e c)\<bar> \<le> E"
    and b: "b = fst (sort (pairs a k) ! (n - 1))" and c: "c < k"
  shows "f32_val (a c) < f32_val b - 2 * E \<Longrightarrow> (e c, c) \<in> set (take n (sort (pairs e k)))"
    and "f32_val b + 2 * E < f32_val (a c) \<Longrightarrow> (e c, c) \<notin> set (take n (sort (pairs e k)))"
proof -
  let ?B = "sort (pairs a k) ! (n - 1)"
  have B: "?B = (b, snd ?B)" by (simp add: b)
  have below: "card {x. x < k \<and> (a x, x) < ?B} < n" "n \<le> card {x. x < k \<and> (a x, x) \<le> ?B}"
    using n card_below_nth[of "pairs a k" n, unfolded card_pairs] by simp_all
  show "(e c, c) \<in> set (take n (sort (pairs e k)))" if lt: "f32_val (a c) < f32_val b - 2 * E"
  proof (rule in_take_sortI)
    have "(a x, x) < ?B" if x: "x < k" "(e x, x) < (e c, c)" for x
    proof -
      have "f32_val (e x) \<le> f32_val (e c)" using pair_le_val[OF less_imp_le[OF x(2)]] .
      then have "f32_val (a x) < f32_val b" using err[OF x(1)] err[OF c] lt by linarith
      then show ?thesis by (subst B) (rule val_less_pair)
    qed
    then have "card {x. x < k \<and> (e x, x) < (e c, c)} \<le> card {x. x < k \<and> (a x, x) < ?B}" by (intro card_mono) auto
    then show "card {y \<in> set (pairs e k). y < (e c, c)} < n" unfolding card_pairs using below(1) by linarith
  qed (use c in auto)
  show "(e c, c) \<notin> set (take n (sort (pairs e k)))" if lt: "f32_val b + 2 * E < f32_val (a c)"
  proof (rule not_in_take_sortI)
    have "(e x, x) < (e c, c)" if x: "x < k" "(a x, x) \<le> ?B" for x
    proof -
      have "f32_val (a x) \<le> f32_val b" using x(2) pair_le_val by (subst (asm) B)
      then show ?thesis using err[OF x(1)] err[OF c] lt by (intro val_less_pair) linarith
    qed
    then have "card {x. x < k \<and> (a x, x) \<le> ?B} \<le> card {x. x < k \<and> (e x, x) < (e c, c)}" by (intro card_mono) auto
    then show "n \<le> card {y \<in> set (pairs e k). y < (e c, c)}" unfolding card_pairs using below(2) by linarith
  qed simp
qed

text \<open>The loop of \<open>refine_topk_boundary\<close>.\<close>

lemma refine_loop:
  assumes "probe_shape query centroids k d" "\<forall>y \<in> set ys. snd y < k"
  shows "fold_res (\<lambda>(distance, centroid) (selected, ambiguous).
      if f32_lt distance lower
      then bind_res (centroid_one t query centroids d centroid) (\<lambda>exact. Inr (selected @ [(exact, centroid)], ambiguous))
      else if f32_le distance upper then Inr (selected, ambiguous @ [centroid])
      else Inr (selected, ambiguous)) ys (s0, m0)
    = Inr (s0 @ map (\<lambda>y. (cdist t query centroids d (snd y), snd y)) (filter (\<lambda>y. f32_lt (fst y) lower) ys),
           m0 @ map snd (filter (\<lambda>y. \<not> f32_lt (fst y) lower \<and> f32_le (fst y) upper) ys))"
  using assms(2)
proof (induction ys arbitrary: s0 m0)
  case (Cons y ys)
  then show ?case using centroid_one_eq[OF assms(1), of "snd y" t] by (cases y) simp
qed simp

text \<open>The limits are rounded, the decisions are not.\<close>

lemma below_lower:
  assumes "is_finite x" "is_finite b" "is_finite T" "f32_lt x (f32_sub b T)"
  shows "f32_val x < f32_val b - f32_val T"
proof (rule ccontr)
  assume "\<not> ?thesis"
  then have "scode (f32_add b (f32_neg T)) \<le> scode x" using assms(1-3) by (intro add_scode_le) auto
  then show False using assms(4) by (simp add: f32_lt_def f32_sub_def)
qed

lemma above_upper:
  assumes "is_finite x" "is_finite b" "is_finite T" "\<not> f32_le x (f32_add b T)"
  shows "f32_val b + f32_val T < f32_val x"
proof (rule ccontr)
  assume "\<not> ?thesis"
  then have "scode x \<le> scode (f32_add b T)" using assms(1-3) by (intro scode_le_add) auto
  then show False using assms f32_add_finite_not_nan by (simp add: f32_le_def)
qed

lemma infinite_limits:
  assumes "is_finite x" "is_finite b" "is_inf T" "\<not> sign T"
  shows "\<not> f32_lt x (f32_sub b T)" "f32_le x (f32_add b T)"
proof -
  have b: "\<not> is_inf b" "\<not> is_nan b" "\<not> is_nan T" "\<not> is_nan x" using assms by (auto simp: is_inf_def is_finite_def is_nan_def)
  have "\<bar>scode x\<bar> \<le> int F32_INF_CODE" using assms(1) by (simp add: scode_def is_finite_def)
  moreover have "scode T = int F32_INF_CODE" using assms(3,4) by (simp add: scode_def is_inf_def)
  ultimately show "\<not> f32_lt x (f32_sub b T)" "f32_le x (f32_add b T)"
    using b assms(3) by (simp_all add: f32_sub_def f32_add_def f32_lt_def f32_le_def)
qed

text \<open>What \<open>refine_topk_boundary\<close> computes: the order that the selection leaves plays no part.\<close>

lemma refine_eq:
  fixes a :: "nat \<Rightarrow> f32" and E :: f32 and t :: arch and query centroids :: "f32 list" and k d n :: nat
  defines "b \<equiv> fst (sort (pairs a k) ! (n - 1))" and "e \<equiv> cdist t query centroids d"
  defines "lower \<equiv> f32_sub b (f32_mul f32_two E)" and "upper \<equiv> f32_add b (f32_mul f32_two E)"
  defines "S \<equiv> \<lambda>y. f32_lt (a (snd y)) lower" and "A \<equiv> \<lambda>y. \<not> f32_lt (a (snd y)) lower \<and> f32_le (a (snd y)) upper"
  assumes sel: "selects sel" and shape: "probe_shape query centroids k d" and n: "0 < n" "n \<le> k"
  shows "refine_topk_boundary t sel query centroids k d n (pairs a k) E =
    (if length (filter A (pairs e k)) = k then find_topk t sel query centroids k d n
     else bind_res (ok_or Panic (checked_sub n (length (filter S (pairs e k))))) (\<lambda>needed.
       let chosen = sort (filter S (pairs e k) @ take needed (sort (filter A (pairs e k))))
       in Inr (map snd chosen, map fst chosen)))"
proof -
  define ys where "ys = select_topk_prefix sel (pairs a k) n"
  define g where "g = (\<lambda>y :: f32 \<times> nat. (e (snd y), snd y))"
  have ms: "mset ys = mset (pairs a k)" unfolding ys_def by (rule select_topk_prefix_mset[OF sel n(1)])
  then have ys: "set ys = (\<lambda>c. (a c, c)) ` {..<k}" "length ys = k" by (metis pairs_simps(3) set_mset_mset, metis pairs_simps(1) size_mset)
  have "take n ys = take n (sort (pairs a k))" unfolding ys_def using select_topk_prefix_take[OF sel n(1)] n(2) by simp
  then have "ys ! (n - 1) = sort (pairs a k) ! (n - 1)" using n by (metis diff_less nth_take zero_less_one)
  then have b: "idx ys (n - 1) = Inr (ys ! (n - 1))" "fst (ys ! (n - 1)) = b" using n ys(2) by (simp_all add: idx_def b_def)
  have me: "mset (map g (filter P ys)) = mset (filter (\<lambda>y. P (a (snd y), snd y)) (pairs e k))" for P
  proof -
    have "map g (filter P (pairs a k)) = filter (\<lambda>y. P (a (snd y), snd y)) (pairs e k)"
      by (simp add: pairs_def g_def filter_map o_def)
    moreover have "mset (filter P ys) = mset (filter P (pairs a k))" using ms by simp
    ultimately show ?thesis by (metis mset_map)
  qed
  have S: "mset (map g (filter (\<lambda>y. f32_lt (fst y) lower) ys)) = mset (filter S (pairs e k))" using me unfolding S_def by simp
  have A: "mset (map g (filter (\<lambda>y. \<not> f32_lt (fst y) lower \<and> f32_le (fst y) upper) ys)) = mset (filter A (pairs e k))"
    using me[of "\<lambda>y. \<not> f32_lt (fst y) lower \<and> f32_le (fst y) upper"] unfolding A_def by simp
  have lens: "length (filter (\<lambda>y. f32_lt (fst y) lower) ys) = length (filter S (pairs e k))"
    "length (filter (\<lambda>y. \<not> f32_lt (fst y) lower \<and> f32_le (fst y) upper) ys) = length (filter A (pairs e k))"
    using arg_cong[OF S, of size] arg_cong[OF A, of size] unfolding size_mset length_map .
  have bound: "\<forall>y \<in> set ys. snd y < k" using ys(1) by auto
  note loop = refine_loop[OF shape bound, where t = t and lower = lower and upper = upper, of "[]" "[]"]
  have exacts: "map_res (\<lambda>centroid. bind_res (centroid_one t query centroids d centroid) (\<lambda>exact. Inr (exact, centroid))) (map snd zs)
      = Inr (map g zs)" if "set zs \<subseteq> set ys" for zs
  proof -
    have "map_res (\<lambda>centroid. bind_res (centroid_one t query centroids d centroid) (\<lambda>exact. Inr (exact, centroid))) (map snd zs)
      = Inr (map (\<lambda>c. (e c, c)) (map snd zs))"
    proof (rule map_res_Inr_map)
      fix c assume "c \<in> set (map snd zs)"
      then have "c < k" using that bound by auto
      then show "bind_res (centroid_one t query centroids d c) (\<lambda>exact. Inr (exact, c)) = Inr (e c, c)"
        by (simp add: centroid_one_eq[OF shape] e_def)
    qed
    then show ?thesis by (simp add: g_def o_def)
  qed
  have sorts: "sort (map g (filter (\<lambda>y. \<not> f32_lt (fst y) lower \<and> f32_le (fst y) upper) ys)) = sort (filter A (pairs e k))"
    "sort (map g (filter (\<lambda>y. f32_lt (fst y) lower) ys) @ zs) = sort (filter S (pairs e k) @ zs)" for zs
    by (rule sort_mset[OF A], rule sort_mset) (use S in simp)
  show ?thesis
    unfolding refine_topk_boundary_def Let_def ys_def[symmetric] b(1) bind_res_Inr b(2) lower_def[symmetric] upper_def[symmetric] loop
    using exacts[of "filter (\<lambda>y. \<not> f32_lt (fst y) lower \<and> f32_le (fst y) upper) ys"]
    by (simp add: g_def[symmetric] e_def[symmetric] sorts lens)
qed

text \<open>The two limits split any ranking that the approximate one is within the error bound of.\<close>

lemma boundary_split:
  fixes a e :: "nat \<Rightarrow> f32" and E :: f32 and k n :: nat
  defines "b \<equiv> fst (sort (pairs a k) ! (n - 1))"
  defines "S \<equiv> \<lambda>y :: f32 \<times> nat. f32_lt (a (snd y)) (f32_sub b (f32_mul f32_two E))"
  defines "A \<equiv> \<lambda>y :: f32 \<times> nat. \<not> f32_lt (a (snd y)) (f32_sub b (f32_mul f32_two E)) \<and> f32_le (a (snd y)) (f32_add b (f32_mul f32_two E))"
  assumes n: "0 < n" "n \<le> k" and fin: "\<And>c. c < k \<Longrightarrow> is_finite (a c)" and E: "\<not> is_nan E" "\<not> sign E"
    and err: "\<And>c. is_finite E \<Longrightarrow> c < k \<Longrightarrow> \<bar>f32_val (a c) - f32_val (e c)\<bar> \<le> f32_val E"
  shows "length (filter S (pairs e k)) \<le> n"
    and "sort (filter S (pairs e k) @ take (n - length (filter S (pairs e k))) (sort (filter A (pairs e k)))) = take n (sort (pairs e k))"
proof -
  define T where "T = f32_mul f32_two E"
  have "sort (pairs a k) ! (n - 1) \<in> set (sort (pairs a k))" using n by (intro nth_mem) simp
  then have bf: "is_finite b" using fin by (auto simp: b_def)
  have disj: "S y \<Longrightarrow> \<not> A y" for y by (simp add: S_def A_def)
  have "y \<in> set (take n (sort (pairs e k)))" if y: "y \<in> set (pairs e k)" "S y" for y
  proof -
    obtain c where c: "y = (e c, c)" "c < k" using y(1) by auto
    have T: "is_finite E" "is_finite T" "f32_val T = 2 * f32_val E"
      using double_cases[OF E] infinite_limits(1)[OF fin[OF c(2)] bf] y(2) c(1) unfolding T_def S_def by auto
    show ?thesis using boundary_ranks(1)[OF n err[OF T(1)] b_def[unfolded atomize_eq] c(2)] below_lower[OF fin[OF c(2)] bf T(2)] y(2) T(3)
      by (simp add: c(1) S_def T_def)
  qed
  moreover have "y \<notin> set (take n (sort (pairs e k)))" if y: "y \<in> set (pairs e k)" "\<not> S y" "\<not> A y" for y
  proof -
    obtain c where c: "y = (e c, c)" "c < k" using y(1) by auto
    have T: "is_finite E" "is_finite T" "f32_val T = 2 * f32_val E"
      using double_cases[OF E] infinite_limits(2)[OF fin[OF c(2)] bf] y(2,3) c(1) unfolding T_def S_def A_def by auto
    show ?thesis using boundary_ranks(2)[OF n err[OF T(1)] b_def[unfolded atomize_eq] c(2)] above_upper[OF fin[OF c(2)] bf T(2)] y(2,3) T(3)
      by (simp add: c(1) S_def A_def T_def)
  qed
  ultimately show "length (filter S (pairs e k)) \<le> n"
    "sort (filter S (pairs e k) @ take (n - length (filter S (pairs e k))) (sort (filter A (pairs e k)))) = take n (sort (pairs e k))"
    using take_sort_split[of "pairs e k" n S A, OF _ _ _ _ disj] n(2) by simp_all
qed

section \<open>What a ranking of centroids returns\<close>

text \<open>The nearest centroids, as \<open>find_topk\<close> returns them.\<close>

definition nearest_of :: "arch \<Rightarrow> f32 list \<Rightarrow> f32 list \<Rightarrow> nat \<Rightarrow> nat \<Rightarrow> nat \<Rightarrow> nat list \<times> f32 list" where
  "nearest_of t query centroids k d n =
     (let best = take n (sort (ranked t query centroids k d)) in (map snd best, map fst best))"

lemma find_topk_nearest: "selects sel \<Longrightarrow> probe_shape q centroids k d \<Longrightarrow> find_topk t sel q centroids k d n = Inr (nearest_of t q centroids k d n)"
  by (simp add: find_topk_eq nearest_of_def Let_def)

text \<open>A choice of \<open>n\<close> different centroids, or all of them, in the order of their exact distances and then of
  their numbers, each with its exact distance.\<close>

definition chosen :: "arch \<Rightarrow> f32 list \<Rightarrow> f32 list \<Rightarrow> nat \<Rightarrow> nat \<Rightarrow> nat \<Rightarrow> nat list \<times> f32 list \<Rightarrow> bool" where
  "chosen t query centroids k d n r \<longleftrightarrow> length (fst r) = min n k \<and> distinct (fst r) \<and> list_all (\<lambda>c. c < k) (fst r)
     \<and> snd r = map (cdist t query centroids d) (fst r) \<and> sorted (zip (snd r) (fst r))"

lemma chosen_sorted:
  assumes "sorted xs" "distinct xs" "set xs \<subseteq> set (pairs (cdist t q centroids d) k)" "length xs = min n k"
  shows "chosen t q centroids k d n (map snd xs, map fst xs)"
proof -
  have "inj_on snd (set (pairs f k))" for f by (auto simp: inj_on_def)
  then have "inj_on snd (set xs)" using assms(3) inj_on_subset by blast
  moreover have "map fst xs = map (cdist t q centroids d) (map snd xs)" using assms(3) by auto
  moreover have "list_all (\<lambda>c. c < k) (map snd xs)" using assms(3) by (auto simp: list_all_iff)
  ultimately show ?thesis using assms by (simp add: chosen_def distinct_map zip_map_fst_snd)
qed

lemma nearest_chosen: "chosen t q centroids k d n (nearest_of t q centroids k d n)"
  unfolding nearest_of_def Let_def ranked_pairs
  by (rule chosen_sorted) (auto simp: sorted_wrt_take dest!: in_set_takeD)

lemma filter_pairs_length: "length (filter (\<lambda>y. P (snd y)) (pairs f k)) = length (filter P [0..<k])"
  by (simp add: pairs_def filter_map o_def)

text \<open>Whatever the approximate distances and the error bound are, the refinement is such a choice.\<close>

lemma refine_chooses:
  assumes sel: "selects sel" and shape: "probe_shape query centroids k d" and n: "0 < n" "n \<le> k"
    and fin: "\<And>c. c < k \<Longrightarrow> is_finite (a c)" and E: "\<not> is_nan E" "\<not> sign E"
  shows "\<exists>r. refine_topk_boundary t sel query centroids k d n (pairs a k) E = Inr r \<and> chosen t query centroids k d n r"
proof -
  let ?e = "cdist t query centroids d"
  define b where "b = fst (sort (pairs a k) ! (n - 1))"
  define S where "S = (\<lambda>y :: f32 \<times> nat. f32_lt (a (snd y)) (f32_sub b (f32_mul f32_two E)))"
  define A where "A = (\<lambda>y :: f32 \<times> nat. \<not> f32_lt (a (snd y)) (f32_sub b (f32_mul f32_two E)) \<and> f32_le (a (snd y)) (f32_add b (f32_mul f32_two E)))"
  define s where "s = length (filter S (pairs ?e k))"
  note eq = refine_eq[OF sel shape n, of t a E, folded b_def, folded S_def A_def]
  have "0 \<le> f32_val E" using E(2) by (simp add: f32_val_def)
  then have zero: "\<bar>f32_val (a c) - f32_val (a c)\<bar> \<le> f32_val E" for c by simp
  have len: "length (filter S (pairs a k)) = s" "length (filter A (pairs a k)) = length (filter A (pairs ?e k))"
    unfolding s_def S_def A_def by (simp_all only: filter_pairs_length[where P = "\<lambda>c. f32_lt (a c) _"]
      filter_pairs_length[where P = "\<lambda>c. \<not> f32_lt (a c) _ \<and> f32_le (a c) _"])
  note split = boundary_split[where a = a and e = a, OF n fin E zero, folded b_def, folded S_def A_def, unfolded len(1)]
  have some: "s \<le> n" "n - s \<le> length (filter A (pairs ?e k))"
    using split(1) arg_cong[where f = length, OF split(2)] n(2) len by simp_all
  show ?thesis
  proof (cases "length (filter A (pairs ?e k)) = k")
    case True
    then show ?thesis using eq find_topk_nearest[OF sel shape] nearest_chosen by simp
  next
    case False
    define xs where "xs = filter S (pairs ?e k) @ take (n - s) (sort (filter A (pairs ?e k)))"
    have "set (filter S (pairs ?e k)) \<inter> set (take (n - s) (sort (filter A (pairs ?e k)))) = {}"
      by (auto simp: S_def A_def dest!: in_set_takeD)
    then have xs: "distinct xs" "set xs \<subseteq> set (pairs ?e k)" "length xs = min n k"
      using some n(2) s_def set_take_subset[of "n - s" "sort (filter A (pairs ?e k))"] unfolding xs_def by auto
    have "chosen t query centroids k d n (map snd (sort xs), map fst (sort xs))"
      by (rule chosen_sorted) (use xs in simp_all)
    moreover have "refine_topk_boundary t sel query centroids k d n (pairs a k) E = Inr (map snd (sort xs), map fst (sort xs))"
      using eq False some(1) by (simp add: s_def[symmetric] xs_def[symmetric] checked_sub_def Let_def)
    ultimately show ?thesis by blast
  qed
qed

lemma refine_exact:
  assumes sel: "selects sel" and shape: "probe_shape query centroids k d" and n: "0 < n" "n \<le> k"
    and fin: "\<And>c. c < k \<Longrightarrow> is_finite (a c)" and E: "\<not> is_nan E" "\<not> sign E"
    and err: "\<And>c. is_finite E \<Longrightarrow> c < k \<Longrightarrow> \<bar>f32_val (a c) - f32_val (cdist t query centroids d c)\<bar> \<le> f32_val E"
  shows "refine_topk_boundary t sel query centroids k d n (pairs a k) E = find_topk t sel query centroids k d n"
proof -
  let ?e = "cdist t query centroids d"
  define b where "b = fst (sort (pairs a k) ! (n - 1))"
  define S where "S = (\<lambda>y :: f32 \<times> nat. f32_lt (a (snd y)) (f32_sub b (f32_mul f32_two E)))"
  define A where "A = (\<lambda>y :: f32 \<times> nat. \<not> f32_lt (a (snd y)) (f32_sub b (f32_mul f32_two E)) \<and> f32_le (a (snd y)) (f32_add b (f32_mul f32_two E)))"
  note eq = refine_eq[OF sel shape n, of t a E, folded b_def, folded S_def A_def]
    and split = boundary_split[where a = a and e = ?e, OF n fin E err, folded b_def, folded S_def A_def]
  show ?thesis using eq split find_topk_eq[OF sel shape, of t n, unfolded ranked_pairs] by (simp add: Let_def checked_sub_def)
qed

section \<open>The error bound is a number\<close>

lemma clean_iff: "clean x \<longleftrightarrow> \<not> is_nan x \<and> \<not> sign x"
  by (auto simp: clean_def npos_def)

lemma clean_mk [simp]: "c \<le> F32_INF_CODE \<Longrightarrow> clean (mk_f32 False c)"
  by (simp add: clean_def)

lemma clean_mul:
  assumes "clean x" "clean y" "is_inf x \<Longrightarrow> 0 < code y" "is_inf y \<Longrightarrow> 0 < code x"
  shows "clean (f32_mul x y)"
  using assms by (auto simp: f32_mul_def Let_def clean_iff round_ratio_le_inf mk_f32_le_inf is_inf_def F32_INF_CODE_def)

lemma clean_sqrt: "clean x \<Longrightarrow> clean (f32_sqrt x)"
  using sqrt_mono[of x x] by (simp add: clean_iff)

lemma clean_two: "clean f32_two" "\<not> is_inf f32_two" "0 < code f32_two"
  using code_two by (auto simp: clean_iff is_inf_def is_finite_def)

lemma finite_not_inf: "is_finite x \<Longrightarrow> \<not> is_inf x"
  by (simp add: is_finite_def is_inf_def)

text \<open>A product is not below a factor when the other factor is at least one.\<close>

lemma mul_code_ge:
  assumes "clean x" "clean y" "0 < code x" "code f32_one \<le> code y"
  shows "clean (f32_mul x y)" "code x \<le> code (f32_mul x y)" "code x \<le> code (f32_mul y x)" "clean (f32_mul y x)"
proof -
  have y: "0 < code y" using assms(4) by simp
  show "clean (f32_mul x y)" "clean (f32_mul y x)" using assms(1-3) y by (simp_all add: clean_mul)
  have le: "code x \<le> F32_INF_CODE" using assms(1) by (simp add: clean_iff is_nan_def)
  have "round_ratio 23 F32_INF_CODE (mag 23 (code x) * 2 ^ 149) (2 ^ 149)
      \<le> round_ratio 23 F32_INF_CODE (mag 23 (code x) * mag 23 (code y)) (2 ^ 149)"
    using mag_mono[OF assms(4), of 23] unfolding mag_one by (intro round_ratio_mono) auto
  moreover have "round_ratio 23 F32_INF_CODE (mag 23 (code x) * 2 ^ 149) (2 ^ 149) = code x"
    using le by (intro round_ratio_exact) auto
  ultimately have "code x \<le> round_ratio 23 F32_INF_CODE (mag 23 (code x) * mag 23 (code y)) (2 ^ 149)" by simp
  then show "code x \<le> code (f32_mul x y)" "code x \<le> code (f32_mul y x)"
    using assms(1-3) y le by (auto simp: f32_mul_def Let_def clean_iff mult.commute)
qed

lemma of_nat_ge_one:
  assumes "0 < d"
  shows "clean (f32_of_nat d)" "code f32_one \<le> code (f32_of_nat d)"
proof -
  show "clean (f32_of_nat d)" by (simp add: f32_of_nat_def round_ratio_le_inf)
  have "round_ratio 23 F32_INF_CODE (mag 23 (code f32_one)) 1 \<le> round_ratio 23 F32_INF_CODE (d * 2 ^ 149) 1"
    using assms unfolding mag_one by (intro round_ratio_mono) auto
  then show "code f32_one \<le> code (f32_of_nat d)" using round_code_exact[OF finite_one] by (simp add: f32_of_nat_def)
qed

lemma one_minus:
  assumes "clean r" "f32_lt r f32_one"
  shows "clean (f32_sub f32_one r)" "0 < code (f32_sub f32_one r)" "code (f32_sub f32_one r) \<le> code f32_one"
proof -
  have r: "code r < code f32_one" "\<not> sign r" using assms by (auto simp: f32_lt_def scode_def clean_iff)
  then have fin: "is_finite r" by (simp add: is_finite_def F32_INF_CODE_def)
  define n where "n = mag 23 (code f32_one) - mag 23 (code r)"
  have m: "mag 23 (code r) < mag 23 (code f32_one)" using r(1) by simp
  then have n: "0 < n" "n \<le> mag 23 (code f32_one)" "f32_val f32_one + f32_val (f32_neg r) = int n"
    using r(2) by (auto simp: n_def f32_val_def of_nat_diff)
  have sub: "f32_sub f32_one r = mk_f32 False (round_ratio 23 F32_INF_CODE n 1)"
    using fin finite_one n finite_not_inf by (simp add: f32_sub_def f32_add_def)
  show "clean (f32_sub f32_one r)" unfolding sub by (simp add: round_ratio_le_inf)
  have "round_ratio 23 F32_INF_CODE 1 1 \<le> round_ratio 23 F32_INF_CODE n 1" using n(1) by (intro round_ratio_mono) auto
  moreover have "round_ratio 23 F32_INF_CODE 1 1 = 1" by (rule round_ratio_exact) (auto simp: F32_INF_CODE_def mag_def)
  ultimately show "0 < code (f32_sub f32_one r)" unfolding sub by simp
  show "code (f32_sub f32_one r) \<le> code f32_one" unfolding sub using round_le_code[OF finite_one n(2)] by simp
qed

lemma div_code_ge:
  assumes "clean x" "0 < code x" "clean y" "0 < code y" "code y \<le> code f32_one"
  shows "clean (f32_div x y)" "code x \<le> code (f32_div x y)"
proof -
  have pos: "0 < mag 23 (code y)" using assms(4) mag_eq_0_iff[of 23 "code y"] by linarith
  have y: "\<not> is_inf y" "\<not> is_nan y" "\<not> sign y" using assms(3,5) by (auto simp: is_inf_def clean_iff F32_INF_CODE_def)
  have x: "\<not> is_nan x" "\<not> sign x" "code x \<le> F32_INF_CODE" using assms(1) by (auto simp: clean_iff is_nan_def)
  have "round_ratio 23 F32_INF_CODE (mag 23 (code x) * mag 23 (code y)) (mag 23 (code y))
      \<le> round_ratio 23 F32_INF_CODE (mag 23 (code x) * 2 ^ 149) (mag 23 (code y))"
    using pos mag_mono[OF assms(5), of 23] unfolding mag_one by (intro round_ratio_mono) auto
  moreover have "round_ratio 23 F32_INF_CODE (mag 23 (code x) * mag 23 (code y)) (mag 23 (code y)) = code x"
    using x(3) pos by (intro round_ratio_exact) auto
  ultimately show "clean (f32_div x y)" "code x \<le> code (f32_div x y)"
    using x y assms(4) by (auto simp: f32_div_def Let_def round_ratio_le_inf)
qed

lemma epsilon_clean: "clean f32_EPSILON" "0 < code f32_EPSILON"
  by (simp_all add: clean_iff f32_EPSILON_def is_nan_def code_def sign_def F32_INF_CODE_def)

lemma error_bound_clean:
  assumes "0 < d" "clean m"
  shows "clean (error_bound_of d m)"
proof -
  define r where "r = f32_mul (f32_of_nat d) f32_EPSILON"
  have r: "clean r" "code f32_EPSILON \<le> code r"
    using mul_code_ge[OF epsilon_clean(1) _ epsilon_clean(2)] of_nat_ge_one[OF assms(1)] by (auto simp: r_def)
  then have r4: "clean (f32_mul (f32_of_nat 4) r)" "code r \<le> code (f32_mul (f32_of_nat 4) r)"
    using mul_code_ge[of r "f32_of_nat 4"] of_nat_ge_one[of 4] epsilon_clean(2) by auto
  define f where "f = (if f32_lt r f32_one then f32_div (f32_mul (f32_of_nat 4) r) (f32_sub f32_one r) else f32_INFINITY)"
  have f: "clean f" "0 < code f"
  proof -
    have "clean f \<and> 0 < code f" if "f32_lt r f32_one"
      using that one_minus[OF r(1) that] div_code_ge[of "f32_mul (f32_of_nat 4) r" "f32_sub f32_one r"] r r4 epsilon_clean(2)
      by (auto simp: f_def)
    moreover have "clean f32_INFINITY" "0 < code f32_INFINITY" by (simp_all add: clean_iff is_nan_def F32_INF_CODE_def)
    ultimately show "clean f" "0 < code f" by (auto simp: f_def)
  qed
  have "f32_eq m f32_zero \<longleftrightarrow> code m = 0" using assms(2) finite_not_nan[OF finite_zero] by (auto simp: f32_eq_def scode_def clean_iff)
  then show ?thesis using f assms(2) unfolding error_bound_of_def r_def[symmetric] f_def[symmetric] Let_def
    by (auto intro!: clean_mul)
qed

section \<open>Squared norms\<close>

lemma lanes_square_add_ok: "length v = w \<Longrightarrow> lanes_ok w acc \<Longrightarrow> lanes_ok w (lanes_square_add acc v)"
  unfolding lanes_square_add_def by (rule lanes_ok_add) (auto intro: lanes_ok_square)

lemma length_load: "i + w \<le> length a \<Longrightarrow> length (load w a i) = w"
  by (simp add: load_def slice_def)

lemma norm_npos: "npos (fvec_norm_l2sqr t a)"
proof -
  have tail: "npos (foldl (\<lambda>acc i. f32_add acc (f32_mul (a ! i) (a ! i))) s is)" if "npos s" for s "is"
    using that by (intro foldl_invariant[of "is" npos]) (simp_all add: npos_add npos_square)
  have at: "i + 8 \<le> length a" if "i \<in> set (block_starts 8 (length a))" for i
    using block_starts_valid[of a a 8] that by (auto simp: list_all_iff block_at_def)
  have "npos (fvec_norm_l2sqr_scalar a)" unfolding fvec_norm_l2sqr_scalar_def
    by (intro foldl_invariant[of a npos]) (simp_all add: npos_add npos_square)
  moreover have "npos (fvec_norm_l2sqr_avx2 a)" unfolding fvec_norm_l2sqr_avx2_def Let_def
    by (intro tail avx2_acc.reading_npos foldl_invariant[of _ "lanes_ok 8"] lanes_square_add_ok length_load at lanes_ok_zero)
  moreover have "npos (fvec_norm_l2sqr_neon a)" unfolding fvec_norm_l2sqr_neon_def Let_def
    by (intro tail neon_acc.reading_npos foldl_invariant[of _ neon_ok])
       (auto simp: neon_ok_def neon_zero_def intro!: lanes_square_add_ok length_load dest: at)
  ultimately show ?thesis by (simp add: fvec_norm_l2sqr_def split: arch.split)
qed

lemma norm_clean: "is_finite (fvec_norm_l2sqr t a) \<Longrightarrow> clean (fvec_norm_l2sqr t a)"
  using norm_npos[of t a] by (simp add: clean_def)

lemma f32_max_cases: "f32_max x y = x \<or> f32_max x y = y"
  by (simp add: f32_max_def)

lemma fold_max_in: "foldl f32_max m xs \<in> insert m (set xs)"
proof (induction xs arbitrary: m)
  case (Cons x xs)
  then show ?case using f32_max_cases[of m x] by (metis foldl_Cons insert_iff list.simps(15))
qed simp

section \<open>One query of a batch\<close>

definition squared_norms :: "arch \<Rightarrow> f32 list \<Rightarrow> nat \<Rightarrow> nat \<Rightarrow> f32 list" where
  "squared_norms t vectors n d = map (\<lambda>i. fvec_norm_l2sqr t (row_of d vectors i)) [0..<n]"

definition max_scale_of :: "f32 \<Rightarrow> f32 \<Rightarrow> f32" where
  "max_scale_of query_norm max_centroid_norm =
     f32_add (f32_add query_norm max_centroid_norm) (f32_mul f32_two (f32_sqrt (f32_mul query_norm max_centroid_norm)))"

definition expanded_distance :: "f32 \<Rightarrow> f32 \<Rightarrow> f32 \<Rightarrow> f32" where
  "expanded_distance query_norm centroid_norm inner_product =
     f32_sub (f32_add query_norm centroid_norm) (f32_mul f32_two inner_product)"

lemma max_scale_clean:
  assumes "clean q" "is_finite q" "clean m" "is_finite m"
  shows "clean (max_scale_of q m)"
  unfolding max_scale_of_def using assms clean_two finite_not_inf
  by (intro clean_add clean_mul clean_sqrt) auto

lemma batch_query_eq:
  assumes "length norms = k" "length row = k"
  shows "batch_query t sel centroids norms k d n q row m query =
    (if is_finite q \<and> (\<forall>c < k. is_finite (expanded_distance q (norms ! c) (row ! c)))
     then refine_topk_boundary t sel query centroids k d n
       (pairs (\<lambda>c. f32_max (expanded_distance q (norms ! c) (row ! c)) f32_zero) k) (error_bound_of d (max_scale_of q m))
     else find_topk t sel query centroids k d n)"
proof -
  define x where "x = (\<lambda>c. expanded_distance q (norms ! c) (row ! c))"
  have ex: "map2 (\<lambda>centroid_norm inner_product. f32_sub (f32_add q centroid_norm) (f32_mul f32_two inner_product)) norms row
      = map x [0..<k]"
    by (rule nth_equalityI) (simp_all add: assms x_def expanded_distance_def)
  have ap: "map (\<lambda>(centroid, distance). (f32_max distance f32_zero, centroid)) (enumerate 0 (map x [0..<k]))
      = pairs (\<lambda>c. f32_max (x c) f32_zero) k"
    by (rule nth_equalityI) (simp_all add: pairs_def nth_enumerate_eq)
  have all: "list_all is_finite (map x [0..<k]) \<longleftrightarrow> (\<forall>c < k. is_finite (x c))" by (auto simp: list_all_iff)
  show ?thesis unfolding batch_query_def Let_def ex ap all max_scale_of_def[symmetric] by (simp add: x_def)
qed

lemma batch_query_chooses:
  assumes sel: "selects sel" and shape: "probe_shape query centroids k d" and d: "0 < d" and n: "0 < n" "n \<le> k"
    and norms: "list_all (\<lambda>c. is_finite c \<and> \<not> f32_lt c f32_zero) (squared_norms t centroids k d)" and row: "length row = k"
  shows "\<exists>r. batch_query t sel centroids (squared_norms t centroids k d) k d n (fvec_norm_l2sqr t query) row
      (foldl f32_max f32_zero (squared_norms t centroids k d)) query = Inr r \<and> chosen t query centroids k d n r"
proof -
  define q where "q = fvec_norm_l2sqr t query"
  define N where "N = squared_norms t centroids k d"
  define m where "m = foldl f32_max f32_zero N"
  define x where "x = (\<lambda>c. expanded_distance q (N ! c) (row ! c))"
  have len: "length N = k" by (simp add: N_def squared_norms_def)
  have eq: "batch_query t sel centroids N k d n q row m query = (if is_finite q \<and> (\<forall>c < k. is_finite (x c))
      then refine_topk_boundary t sel query centroids k d n (pairs (\<lambda>c. f32_max (x c) f32_zero) k) (error_bound_of d (max_scale_of q m))
      else find_topk t sel query centroids k d n)" unfolding x_def by (rule batch_query_eq[OF len row])
  have "\<exists>r. batch_query t sel centroids N k d n q row m query = Inr r \<and> chosen t query centroids k d n r"
  proof (cases "is_finite q \<and> (\<forall>c < k. is_finite (x c))")
    case True
    then have q: "is_finite q" "clean q" using norm_clean[of t query] by (auto simp: q_def)
    have "m \<in> insert f32_zero (set N)" unfolding m_def by (rule fold_max_in)
    then have m: "is_finite m" "clean m" using norms norm_clean by (auto simp: N_def squared_norms_def list_all_iff)
    have "clean (error_bound_of d (max_scale_of q m))" using error_bound_clean[OF d max_scale_clean] q m by simp
    moreover have "is_finite (f32_max (x c) f32_zero)" if "c < k" for c
      using True that f32_max_cases[of "x c" f32_zero] by (metis finite_zero)
    ultimately show ?thesis unfolding eq if_P[OF True] by (intro refine_chooses[OF sel shape n]) (auto simp: clean_iff)
  next
    case False
    then show ?thesis unfolding eq if_not_P[OF False] find_topk_nearest[OF sel shape] using nearest_chosen by blast
  qed
  then show ?thesis unfolding q_def N_def m_def .
qed

section \<open>Tiles\<close>

lemma chunks_exact_rows:
  assumes "0 < k" "length xs = n * k"
  shows "chunks_exact k xs = map (row_of k xs) [0..<n]"
  using assms(2)
proof (induction n arbitrary: xs)
  case (Suc n)
  have "row_of k (drop k xs) i = row_of k xs (Suc i)" for i
    by (simp add: row_of_def slice_def add.commute add.left_commute)
  then have "chunks_exact k (drop k xs) = map (row_of k xs \<circ> Suc) [0..<n]" using Suc by simp
  moreover have "chunks_exact k xs = row_of k xs 0 # chunks_exact k (drop k xs)"
    using Suc.prems assms(1) by (subst chunks_exact.simps) (simp add: row_of_def slice_def)
  ultimately show ?case by (simp add: upt_conv_Cons map_Suc_upt[symmetric] del: upt_Suc)
qed simp

lemma tile_rows_concat:
  assumes "0 < w"
  shows "concat (map (\<lambda>tile. map F [tile * w..<tile * w + min w (n - tile * w)]) [0..<div_ceil n w]) = map F [0..<n]"
proof -
  have "concat (map (\<lambda>tile. map F [tile * w..<tile * w + min w (n - tile * w)]) [0..<m]) = map F [0..<min (m * w) n]" for m
  proof (induction m)
    case (Suc m)
    show ?case
    proof (cases "m * w \<le> n")
      case True
      then have "min (Suc m * w) n = m * w + min w (n - m * w)" by simp
      then have "[0..<min (Suc m * w) n] = [0..<m * w] @ [m * w..<m * w + min w (n - m * w)]"
        using upt_add_eq_append[of 0 "m * w" "min w (n - m * w)"] by simp
      then show ?thesis using Suc True by (simp add: min_absorb1)
    next
      case False
      then have "min (Suc m * w) n = n" "min (m * w) n = n" by auto
      then show ?thesis using Suc False by simp
    qed
  qed simp
  then show ?thesis using div_ceil_mult_ge[OF assms, of n] by (simp add: min_absorb2)
qed

lemma less_div_ceil: "0 < w \<Longrightarrow> tile < div_ceil n w \<Longrightarrow> tile * w < n"
  using div_ceil_le[of w n tile] by (meson leD leI)

lemma subslice_rows:
  assumes "length xs = n * d" "a + m \<le> n"
  shows "subslice (a * d) ((a + m) * d) xs = Inr (slice (a * d) ((a + m) * d) xs)"
    and "length (slice (a * d) ((a + m) * d) xs) = m * d"
    and "i < m \<Longrightarrow> row_of d (slice (a * d) ((a + m) * d) xs) i = row_of d xs (a + i)"
proof -
  have le: "(a + m) * d \<le> length xs" using assms by (metis mult_le_mono1)
  then show "subslice (a * d) ((a + m) * d) xs = Inr (slice (a * d) ((a + m) * d) xs)" by (simp add: subslice_def)
  show "length (slice (a * d) ((a + m) * d) xs) = m * d" using le by (simp add: slice_def algebra_simps)
  show "row_of d (slice (a * d) ((a + m) * d) xs) i = row_of d xs (a + i)" if "i < m"
  proof -
    have "(i + 1) * d \<le> m * d" using that by (intro mult_le_mono1) simp
    then have "(i + 1) * d \<le> (a + m) * d - a * d" by (simp add: add_mult_distrib)
    then show ?thesis unfolding row_of_def by (simp add: slice_slice add_mult_distrib add.assoc add.left_commute)
  qed
qed

text \<open>What \<open>matrixmultiply::sgemm\<close> documents of its result and the code relies on: it overwrites the
  \<open>m\<close> by \<open>n\<close> matrix it is given. Nothing is assumed of the numbers in it.\<close>

definition gemm_fills :: "gemm \<Rightarrow> bool" where
  "gemm_fills gemm \<longleftrightarrow> (\<forall>m k n alpha a b beta c. length c = m * n \<longrightarrow> length (gemm m k n alpha a b beta c) = m * n)"

lemma sgemm_tile:
  assumes "k \<le> MAX_MATRIX_ELEMS" "0 < k" "n \<le> max (MAX_MATRIX_ELEMS div k) 1" "d \<le> I64_MAX" "n * d < 2 ^ 64" "k * d < 2 ^ 64"
    "length a = n * d" "length b = k * d" "length c = n * k"
  shows "sgemm_a_bt gemm n k d alpha a b beta c = Inr (gemm n d k alpha a b beta c)"
proof -
  have "n * k \<le> MAX_MATRIX_ELEMS"
  proof (cases "MAX_MATRIX_ELEMS div k = 0")
    case True
    then show ?thesis using assms(1-3) by (simp add: div_eq_0_iff)
  next
    case False
    then have "n * k \<le> MAX_MATRIX_ELEMS div k * k" using assms(3) by (intro mult_le_mono1) simp
    then show ?thesis using div_times_less_eq_dividend[of MAX_MATRIX_ELEMS k] by linarith
  qed
  then have "n * k < 2 ^ 64" "k \<le> I64_MAX" using assms(1) by (auto simp: MAX_MATRIX_ELEMS_def)
  then show ?thesis using assms(4-9) by (simp add: sgemm_a_bt_def checked_mul_def)
qed

section \<open>The batch\<close>

text \<open>What the batch promises for query \<open>q\<close>.\<close>

definition batch_choice :: "arch \<Rightarrow> f32 list \<Rightarrow> nat \<Rightarrow> f32 list \<Rightarrow> nat \<Rightarrow> nat \<Rightarrow> nat \<Rightarrow> nat \<Rightarrow> nat list \<times> f32 list \<Rightarrow> bool" where
  "batch_choice t queries nq centroids k d n q r \<longleftrightarrow> chosen t (row_of d queries q) centroids k d n r
     \<and> (nq = 1 \<or> k \<le> n \<longrightarrow> r = nearest_of t (row_of d queries q) centroids k d n)"

lemma map_res_chooses:
  "(\<And>x. x \<in> set xs \<Longrightarrow> \<exists>y. f x = Inr y \<and> P x y) \<Longrightarrow> \<exists>ys. map_res f xs = Inr ys \<and> list_all2 P xs ys"
proof (induction xs)
  case (Cons x xs)
  then obtain y ys where "f x = Inr y" "P x y" "map_res f xs = Inr ys" "list_all2 P xs ys" by (metis list.set_intros)
  then show ?case by auto
qed simp

lemma list_all2_concat: "list_all2 (list_all2 P) xss yss \<Longrightarrow> list_all2 P (concat xss) (concat yss)"
  by (induction rule: list_all2_induct) (simp_all add: list_all2_appendI)

lemma batch_tile:
  assumes sel: "selects sel" and len: "length queries = nq * d" "length centroids = k * d" and d: "0 < d" "d \<le> I64_MAX"
    and sizes: "nq * d < 2 ^ 64" "k * d < 2 ^ 64" and n: "0 < n" "n \<le> k" "k \<le> MAX_MATRIX_ELEMS"
    and norms: "list_all (\<lambda>c. is_finite c \<and> \<not> f32_lt c f32_zero) (squared_norms t centroids k d)"
    and gemm: "gemm_fills gemm" and tile: "start + tile_n \<le> nq" "tile_n \<le> max (MAX_MATRIX_ELEMS div k) 1"
  shows "\<exists>results. bind_res (subslice (start * d) ((start + tile_n) * d) queries) (\<lambda>tile_queries.
      bind_res (map_res (\<lambda>query. bind_res (subslice (query * d) ((query + 1) * d) tile_queries)
          (\<lambda>q. Inr (fvec_norm_l2sqr t q))) [0..<tile_n]) (\<lambda>query_norms.
      bind_res (sgemm_a_bt gemm tile_n k d f32_one tile_queries centroids f32_zero (replicate (tile_n * k) f32_zero)) (\<lambda>inner_products.
      map_res (\<lambda>(query, query_norm, row). bind_res (subslice (query * d) ((query + 1) * d) tile_queries)
          (batch_query t sel centroids (squared_norms t centroids k d) k d n query_norm row
            (foldl f32_max f32_zero (squared_norms t centroids k d))))
        (enumerate 0 (zip query_norms (chunks_exact k inner_products))))))
    = Inr results \<and> list_all2 (\<lambda>q. chosen t (row_of d queries q) centroids k d n) [start..<start + tile_n] results"
proof -
  define tq where "tq = slice (start * d) ((start + tile_n) * d) queries"
  note sub = subslice_rows[OF len(1) tile(1), folded tq_def]
  have row: "subslice (q * d) ((q + 1) * d) tq = Inr (row_of d queries (start + q))" if "q < tile_n" for q
    using subslice_row_of[OF sub(2) that] sub(3)[OF that] by simp
  define out where "out = gemm tile_n d k f32_one tq centroids f32_zero (replicate (tile_n * k) f32_zero)"
  have out: "length out = tile_n * k" using gemm unfolding gemm_fills_def out_def by simp
  have "tile_n * d < 2 ^ 64" using sizes(1) tile(1) by (meson le_less_trans mult_le_mono1 add_leD2)
  then have gm: "sgemm_a_bt gemm tile_n k d f32_one tq centroids f32_zero (replicate (tile_n * k) f32_zero) = Inr out"
    unfolding out_def using n tile(2) d(2) sizes(2) sub(2) len(2) by (intro sgemm_tile) auto
  have qn: "map_res (\<lambda>query. bind_res (subslice (query * d) ((query + 1) * d) tq) (\<lambda>q. Inr (fvec_norm_l2sqr t q))) [0..<tile_n]
      = Inr (map (\<lambda>q. fvec_norm_l2sqr t (row_of d queries (start + q))) [0..<tile_n])"
    by (rule map_res_Inr_map) (simp add: row[simplified])
  have en: "enumerate 0 (zip (map f [0..<tile_n]) (map g [0..<tile_n])) = map (\<lambda>q. (q, f q, g q)) [0..<tile_n]" for f g
    by (rule nth_equalityI) (simp_all add: nth_enumerate_eq)
  let ?one = "\<lambda>(query, query_norm, row). bind_res (subslice (query * d) ((query + 1) * d) tq)
      (batch_query t sel centroids (squared_norms t centroids k d) k d n query_norm row (foldl f32_max f32_zero (squared_norms t centroids k d)))"
  have one: "\<exists>r. ?one (q, fvec_norm_l2sqr t (row_of d queries (start + q)), row_of k out q) = Inr r \<and> chosen t (row_of d queries (start + q)) centroids k d n r"
    if "q < tile_n" for q
  proof -
    have "probe_shape (row_of d queries (start + q)) centroids k d"
      using len length_row_of[OF len(1)] tile(1) that by (simp add: probe_shape_def)
    from batch_query_chooses[OF sel this d(1) n(1,2) norms length_row_of[OF out that]] show ?thesis by (simp add: row[OF that, simplified])
  qed
  have up: "[start..<start + tile_n] = map (\<lambda>q. start + q) [0..<tile_n]" by (rule nth_equalityI) auto
  have chunks: "chunks_exact k out = map (row_of k out) [0..<tile_n]" using chunks_exact_rows[OF _ out] n by simp
  obtain results where "map_res (\<lambda>q. ?one (q, fvec_norm_l2sqr t (row_of d queries (start + q)), row_of k out q)) [0..<tile_n] = Inr results"
    "list_all2 (\<lambda>q. chosen t (row_of d queries (start + q)) centroids k d n) [0..<tile_n] results"
    using map_res_chooses[where xs = "[0..<tile_n]", OF one] by force
  then show ?thesis unfolding sub(1) bind_res_Inr qn gm chunks en map_res_map up list_all2_map1 by blast
qed

text \<open>A batch that does not fall back to the single ranking.\<close>

lemma batch_product:
  assumes sel: "selects sel" and len: "length queries = nq * d" "length centroids = k * d" and d: "0 < d" "d \<le> I64_MAX"
    and sizes: "nq * d < 2 ^ 64" "k * d < 2 ^ 64" and gemm: "gemm_fills gemm" and n: "0 < nprobe" "nprobe < k" "nq \<noteq> 1" "k \<le> MAX_MATRIX_ELEMS"
    and norms: "list_all (\<lambda>c. is_finite c \<and> \<not> f32_lt c f32_zero) (squared_norms t centroids k d)"
  shows "\<exists>results. find_topk_batch_with_centroid_norms t sel gemm queries nq centroids (squared_norms t centroids k d) k d nprobe = Inr results
    \<and> list_all2 (\<lambda>q. chosen t (row_of d queries q) centroids k d nprobe) [0..<nq] results"
proof -
  let ?P = "\<lambda>q. chosen t (row_of d queries q) centroids k d nprobe"
  define w where "w = max (MAX_MATRIX_ELEMS div k) 1"
  have w: "0 < w" by (simp add: w_def)
  note tile = batch_tile[OF sel len d sizes n(1) less_imp_le[OF n(2)] n(4) norms gemm, folded w_def]
  have fits: "i * w + min w (nq - i * w) \<le> nq" if "i < div_ceil nq w" for i using less_div_ceil[OF w that] by auto
  have tiles: "\<exists>results. bind_res (map_res f [0..<div_ceil nq w]) (\<lambda>tiles. Inr (concat tiles)) = Inr results \<and> list_all2 ?P [0..<nq] results"
    if f: "\<And>i. i \<in> set [0..<div_ceil nq w] \<Longrightarrow> \<exists>r. f i = Inr r \<and> list_all2 ?P [i * w..<i * w + min w (nq - i * w)] r" for f
  proof -
    obtain rs where rs: "map_res f [0..<div_ceil nq w] = Inr rs"
      "list_all2 (\<lambda>i. list_all2 ?P [i * w..<i * w + min w (nq - i * w)]) [0..<div_ceil nq w] rs"
      using map_res_chooses[where xs = "[0..<div_ceil nq w]" and f = f, OF f] by blast
    from list_all2_concat[OF rs(2)[folded list_all2_map1[of _ "\<lambda>i. [i * w..<i * w + min w (nq - i * w)]"]]] rs(1)
    show ?thesis using tile_rows_concat[OF w, of "\<lambda>q. q" nq] by simp
  qed
  have direct: "min nprobe k = nprobe" "\<not> nprobe = 0" "\<not> (nq = 1 \<or> nprobe = k \<or> MAX_MATRIX_ELEMS < k
      \<or> list_ex (\<lambda>norm. \<not> is_finite norm \<or> f32_lt norm f32_zero) (squared_norms t centroids k d))"
    using n norms by (auto simp: list_all_iff list_ex_iff)
  show ?thesis
    unfolding find_topk_batch_with_centroid_norms_def Let_def direct(1) if_not_P[OF direct(2)] if_not_P[OF direct(3)] w_def[symmetric]
    by (rule tiles, rule tile) (use fits in auto)
qed

lemma batch_chooses:
  assumes sel: "selects sel" and len: "length queries = nq * d" "length centroids = k * d" and d: "0 < d" "d \<le> I64_MAX"
    and sizes: "nq * d < 2 ^ 64" "k * d < 2 ^ 64" and gemm: "gemm_fills gemm"
  shows "\<exists>results. find_topk_batch t sel gemm queries nq centroids k d nprobe = Inr results
    \<and> list_all2 (batch_choice t queries nq centroids k d nprobe) [0..<nq] results"
proof -
  define n where "n = min nprobe k"
  have shape: "probe_shape (row_of d queries q) centroids k d" if "q < nq" for q
    using len length_row_of[OF len(1) that] by (simp add: probe_shape_def)
  have norms: "map_res (\<lambda>centroid. bind_res (centroid_row centroids d centroid) (\<lambda>row. Inr (fvec_norm_l2sqr t row))) [0..<k]
      = Inr (squared_norms t centroids k d)"
    unfolding squared_norms_def by (rule map_res_Inr_map) (simp add: centroid_row_eq[OF len(2)])
  have top: "nearest_of t q centroids k d n = nearest_of t q centroids k d nprobe" for q
    by (simp add: nearest_of_def n_def ranked_pairs min_def)
  define fall where "fall \<longleftrightarrow> nq = 1 \<or> n = k \<or> MAX_MATRIX_ELEMS < k
      \<or> list_ex (\<lambda>norm. \<not> is_finite norm \<or> f32_lt norm f32_zero) (squared_norms t centroids k d)"
  have near: "list_all2 (batch_choice t queries nq centroids k d nprobe) [0..<nq] (map (\<lambda>q. nearest_of t (row_of d queries q) centroids k d nprobe) [0..<nq])"
    by (simp add: list_all2_conv_all_nth batch_choice_def nearest_chosen)
  consider "n = 0" | "n \<noteq> 0" "fall" | "n \<noteq> 0" "\<not> fall" by blast
  then show ?thesis
  proof cases
    case 1
    have "nearest_of t q centroids k d 0 = ([], [])" for q by (simp add: nearest_of_def)
    then have "find_topk_batch t sel gemm queries nq centroids k d nprobe = Inr (map (\<lambda>q. nearest_of t (row_of d queries q) centroids k d nprobe) [0..<nq])"
      using 1 top by (simp add: find_topk_batch_def norms find_topk_batch_with_centroid_norms_def n_def[symmetric] map_replicate_const)
    then show ?thesis using near by blast
  next
    case 2
    have "map_res (\<lambda>query. bind_res (subslice (query * d) ((query + 1) * d) queries) (\<lambda>q. find_topk t sel q centroids k d n)) [0..<nq]
        = Inr (map (\<lambda>q. nearest_of t (row_of d queries q) centroids k d nprobe) [0..<nq])"
      by (rule map_res_Inr_map) (simp add: subslice_row_of[OF len(1), simplified] find_topk_nearest[OF sel shape] top)
    then have "find_topk_batch t sel gemm queries nq centroids k d nprobe = Inr (map (\<lambda>q. nearest_of t (row_of d queries q) centroids k d nprobe) [0..<nq])"
      using 2 unfolding find_topk_batch_def norms bind_res_Inr find_topk_batch_with_centroid_norms_def Let_def n_def[symmetric] fall_def by simp
    then show ?thesis using near by blast
  next
    case 3
    have ok: "list_all (\<lambda>c. is_finite c \<and> \<not> f32_lt c f32_zero) (squared_norms t centroids k d)" "0 < nprobe" "nprobe < k" "nq \<noteq> 1" "k \<le> MAX_MATRIX_ELEMS"
      using 3 by (auto simp: fall_def list_all_iff list_ex_iff n_def)
    have "batch_choice t queries nq centroids k d nprobe = (\<lambda>q. chosen t (row_of d queries q) centroids k d nprobe)"
      using ok(3,4) by (simp add: fun_eq_iff batch_choice_def)
    then show ?thesis using batch_product[OF sel len d sizes gemm ok(2-5,1)] by (simp add: find_topk_batch_def norms)
  qed
qed

lemma batch_chooses_nth:
  assumes "list_all2 (batch_choice t queries nq centroids k d n) [0..<nq] results"
  shows "length results = nq" "q < nq \<Longrightarrow> batch_choice t queries nq centroids k d n q (results ! q)"
  using list_all2_lengthD[OF assms] list_all2_nthD[OF assms, of q] by auto

section \<open>The lists of a range search\<close>

text \<open>What the ranking of a range search promises for query \<open>q\<close>: a choice of lists, and the nearest ones
  unless the matrix product was used.\<close>

definition probe_choice ::
  "arch \<Rightarrow> MetricType \<Rightarrow> f32 list \<Rightarrow> nat \<Rightarrow> f32 list \<Rightarrow> nat \<Rightarrow> nat \<Rightarrow> nat \<Rightarrow> nat \<Rightarrow> nat list \<Rightarrow> bool" where
  "probe_choice t metric queries nq centroids nlist d nprobe q ps \<longleftrightarrow>
     (let query = row_of d queries q in
      chosen t query centroids nlist d nprobe (ps, map (cdist t query centroids d) ps)
      \<and> (metric \<noteq> L2 \<or> nq = 1 \<or> nlist \<le> nprobe \<longrightarrow> ps = fst (nearest_of t query centroids nlist d nprobe)))"

lemma chosen_lists: "chosen t q centroids k d n r \<Longrightarrow> chosen t q centroids k d n (fst r, map (cdist t q centroids d) (fst r))"
  unfolding chosen_def by (metis fst_conv snd_conv)

lemma range_probe_lists_L2:
  assumes "selects sel" "length queries = nq * d" "length centroids = nlist * d" "0 < d" "d \<le> I64_MAX" "nq * d < 2 ^ 64" "nlist * d < 2 ^ 64"
    and "gemm_fills gemm"
  shows "\<exists>pls. range_probe_lists t sel gemm queries centroids d nlist nprobe L2 = Inr pls
    \<and> list_all2 (probe_choice t L2 queries nq centroids nlist d nprobe) [0..<nq] pls"
proof -
  obtain results where R: "find_topk_batch t sel gemm queries nq centroids nlist d nprobe = Inr results"
    "list_all2 (batch_choice t queries nq centroids nlist d nprobe) [0..<nq] results" using batch_chooses[OF assms] by blast
  have n: "length queries div d = nq" using assms(2,4) by simp
  have "probe_choice t L2 queries nq centroids nlist d nprobe q (fst r)" if "batch_choice t queries nq centroids nlist d nprobe q r" for q r
    using that chosen_lists unfolding probe_choice_def batch_choice_def Let_def by metis
  then have "list_all2 (\<lambda>q r. probe_choice t L2 queries nq centroids nlist d nprobe q (fst r)) [0..<nq] results"
    by (rule list_all2_mono[OF R(2)])
  then show ?thesis using R(1) assms(4) n unfolding range_probe_lists_def by (simp add: list_all2_map2)
qed

lemma range_probe_lists_checked:
  assumes "selects sel" "length queries = nq * d" "length centroids = nlist * d" "0 < d" "0 < nprobe" "metric \<noteq> L2"
  shows "range_probe_lists t sel gemm queries centroids d nlist nprobe metric =
    (if finite_vec centroids \<and> (\<forall>q < nq. \<forall>c < nlist. is_finite (cdist t (row_of d queries q) centroids d c))
     then Inr (map (\<lambda>q. fst (nearest_of t (row_of d queries q) centroids nlist d nprobe)) [0..<nq])
     else Inl (Err InvalidData))"
proof -
  let ?probe = "\<lambda>q. bind_res (find_topk_checked t sel q centroids nlist d nprobe) (\<lambda>r.
      case r of Inr rows \<Rightarrow> Inr (map snd rows) | Inl _ \<Rightarrow> Inl (Err InvalidData))"
  let ?ok = "\<lambda>q. \<forall>c < nlist. is_finite (cdist t q centroids d c)"
  let ?best = "\<lambda>q. fst (nearest_of t q centroids nlist d nprobe)"
  have rows: "chunks_exact d queries = map (row_of d queries) [0..<nq]" by (rule chunks_exact_rows[OF assms(4,2)])
  have one: "?probe q = (if ?ok q then Inr (?best q) else Inl (Err InvalidData))" if "q \<in> set (chunks_exact d queries)" for q
  proof -
    have "probe_shape q centroids nlist d" using chunks_exact_lengths[OF that] assms(3) by (simp add: probe_shape_def)
    from probe_checked[OF assms(1) this assms(5)] show ?thesis by (simp add: nearest_of_def Let_def)
  qed
  have "map_res ?probe (chunks_exact d queries) = (if \<forall>q \<in> set (chunks_exact d queries). ?ok q
      then Inr (map ?best (chunks_exact d queries)) else Inl (Err InvalidData))"
    by (rule map_res_all) (rule one)
  moreover have "(\<forall>q \<in> set (chunks_exact d queries). ?ok q) \<longleftrightarrow> (\<forall>q < nq. ?ok (row_of d queries q))" unfolding rows by auto
  moreover have "map ?best (chunks_exact d queries) = map (\<lambda>q. ?best (row_of d queries q)) [0..<nq]" unfolding rows by simp
  ultimately have "map_res ?probe (chunks_exact d queries) = (if \<forall>q < nq. ?ok (row_of d queries q)
      then Inr (map (\<lambda>q. ?best (row_of d queries q)) [0..<nq]) else Inl (Err InvalidData))" by (simp only:)
  moreover have "list_ex (\<lambda>v. \<not> is_finite v) centroids \<longleftrightarrow> \<not> finite_vec centroids" by (auto simp: finite_vec_def list_all_iff list_ex_iff)
  ultimately show ?thesis using assms(4,6) by (simp only: range_probe_lists_def if_False) simp
qed

section \<open>Computing with constants\<close>

lemma log2_numeral:
  "log2 (numeral n) = (if numeral n < (2 :: nat) then 0
     else if numeral n < (0x10000 :: nat) then log2 (numeral n div 2) + 1 else log2 (numeral n div 0x10000) + 16)"
  "log2 1 = 0" "log2 (Suc 0) = 0"
  by (rule log2.simps) (simp_all add: log2.simps[of 1] log2.simps[of "Suc 0"])

lemmas float_compute = f32_mul_def f32_div_def f32_sub_def f32_add_def f32_val_def f32_neg_def code_def sign_def is_nan_def
  is_inf_def is_finite_def scode_def f32_lt_def f32_le_def f32_eq_def f32_max_def mk_f32_def round_ratio_eval code_below_def
  F32_INF_CODE_def mag_def log2_numeral Let_def

section \<open>Properties\<close>

text \<open>C8: the refinement of a ranking by approximate distances, \<open>refine_topk_boundary\<close>, for any finite
  approximate distances and any error bound that is a number and not negative. It always returns: \<open>nprobe\<close>
  different centroids, each with its exact distance, in the order of exact distance and then of number. When
  every approximate distance is within the error bound of the exact one, which is what the comment in the
  source asks for, they are what \<open>find_topk\<close> returns, bit for bit; the rounding of the two limits, a bound that
  overflows when it is doubled, and ties are covered. How large the bound has to be for a given matrix product
  is not part of this property.\<close>

theorem refine_topk_boundary_exact:
  assumes "selects sel" "probe_shape query centroids k d" "0 < nprobe" "nprobe \<le> k"
    and "\<forall>c < k. is_finite (a c)" "\<not> is_nan error_bound" "\<not> sign error_bound"
  shows "\<exists>r. refine_topk_boundary t sel query centroids k d nprobe (map (\<lambda>c. (a c, c)) [0..<k]) error_bound = Inr r
    \<and> chosen t query centroids k d nprobe r
    \<and> ((is_finite error_bound \<longrightarrow> (\<forall>c < k. \<bar>f32_val (a c) - f32_val (cdist t query centroids d c)\<bar> \<le> f32_val error_bound))
        \<longrightarrow> find_topk t sel query centroids k d nprobe = Inr r)"
proof -
  have fin: "c < k \<Longrightarrow> is_finite (a c)" for c using assms(5) by blast
  obtain r where r: "refine_topk_boundary t sel query centroids k d nprobe (pairs a k) error_bound = Inr r" "chosen t query centroids k d nprobe r"
    using refine_chooses[where a = a, OF assms(1-4) fin assms(6,7)] by blast
  then show ?thesis using refine_exact[where a = a, OF assms(1-4) fin assms(6,7), of t] unfolding pairs_def by auto
qed

definition product_of_columns :: gemm where
  "product_of_columns m k n alpha a b beta c = concat (map (\<lambda>i. map (\<lambda>j. f32_mul (a ! i) (b ! j)) [0..<n]) [0..<m])"

lemma unit_ops:
  "f32_mul f32_one f32_zero = f32_zero" "f32_mul f32_two f32_zero = f32_zero" "f32_mul f32_two f32_one = f32_two"
  "f32_add f32_one f32_one = f32_two" "f32_sub f32_two f32_two = f32_zero"
  by (simp_all add: float_compute f32_one_def f32_zero_def f32_two_def)

lemma unit_norms: "fvec_norm_l2sqr OtherArch [f32_one] = f32_one" "fvec_norm_l2sqr OtherArch [f32_zero] = f32_zero"
  by (simp_all add: fvec_norm_l2sqr_def fvec_norm_l2sqr_scalar_def f32_eval)

lemma unit_cdist [simp]: "cdist OtherArch [f32_one] [f32_zero, f32_one] 1 0 = f32_one"
    "cdist OtherArch [f32_one] [f32_zero, f32_one] 1 1 = f32_zero"
  by (simp_all add: f32_eval)

text \<open>A nearest centroid whose approximate distance is a quarter too large, with an error bound of a quarter.\<close>

definition f32_quarter :: f32 where "f32_quarter = F32 0x3E800000"

theorem refine_topk_boundary_exact_witness:
  "refine_topk_boundary OtherArch (\<lambda>n. sort) [f32_one] [f32_zero, f32_one] 2 1 1 [(f32_one, 0), (f32_quarter, 1)] f32_quarter
    = Inr ([1], [f32_zero])"
proof -
  define a where "a = (\<lambda>c :: nat. if c = 0 then f32_one else f32_quarter)"
  have q: "is_finite f32_quarter" "\<not> is_nan f32_quarter" "\<not> sign f32_quarter" "0 \<le> f32_val f32_quarter" "f32_val f32_zero = 0"
    by (simp_all add: float_compute f32_quarter_def f32_zero_def)
  have "\<bar>f32_val (a c) - f32_val (cdist OtherArch [f32_one] [f32_zero, f32_one] 1 c)\<bar> \<le> f32_val f32_quarter" if "c < 2" for c
    using that less_2_cases[of c] q(4,5) unit_cdist by (auto simp: a_def)
  moreover have "\<forall>c < 2. is_finite (a c)" using q(1) by (simp add: a_def)
  moreover have "find_topk OtherArch (\<lambda>n. sort) [f32_one] [f32_zero, f32_one] 2 1 1 = Inr ([1], [f32_zero])"
    using find_topk_eq[OF selects_sort two_centroids(1), of OtherArch 1] by simp
  moreover have "map (\<lambda>c. (a c, c)) [0..<2] = [(f32_one, 0), (f32_quarter, 1)]" by (simp add: two_centroids(5) a_def)
  ultimately show ?thesis
    using refine_topk_boundary_exact[OF selects_sort two_centroids(1) zero_less_one one_le_numeral, of a f32_quarter OtherArch] q(2,3) by auto
qed

text \<open>C39: the lists that a range search probes. Under L2 the ranking never fails, whatever numbers the matrix
  product returns: every query gets \<open>nprobe\<close> different lists, or all of them, in the order of their exact
  distances, and they are its nearest lists when it is searched alone or every list is probed. Under the other
  metrics every query gets its nearest lists, or the search fails as a whole with \<open>InvalidData\<close>, exactly when a
  centroid or a distance of a query to a centroid is not finite.\<close>

theorem range_probe_lists_ranked:
  assumes "selects sel" "gemm_fills gemm" "length queries = nq * d" "length centroids = nlist * d" "0 < d" "d \<le> I64_MAX"
    and "nq * d < 2 ^ 64" "nlist * d < 2 ^ 64" "0 < nprobe"
  shows "(metric = L2 \<longrightarrow> (\<exists>pls. range_probe_lists t sel gemm queries centroids d nlist nprobe metric = Inr pls \<and> length pls = nq
      \<and> (\<forall>q < nq. chosen t (row_of d queries q) centroids nlist d nprobe (pls ! q, map (cdist t (row_of d queries q) centroids d) (pls ! q))
          \<and> (nq = 1 \<or> nlist \<le> nprobe \<longrightarrow> pls ! q = map snd (take nprobe (sort (ranked t (row_of d queries q) centroids nlist d)))))))
    \<and> (metric \<noteq> L2 \<longrightarrow> range_probe_lists t sel gemm queries centroids d nlist nprobe metric =
      (if finite_vec centroids \<and> (\<forall>q < nq. \<forall>c < nlist. is_finite (cdist t (row_of d queries q) centroids d c))
       then Inr (map (\<lambda>q. map snd (take nprobe (sort (ranked t (row_of d queries q) centroids nlist d)))) [0..<nq])
       else Inl (Err InvalidData)))"
proof (intro conjI impI)
  assume "metric = L2"
  then obtain pls where pls: "range_probe_lists t sel gemm queries centroids d nlist nprobe metric = Inr pls"
    "list_all2 (probe_choice t L2 queries nq centroids nlist d nprobe) [0..<nq] pls"
    using range_probe_lists_L2[OF assms(1,3-8,2)] by blast
  have "probe_choice t L2 queries nq centroids nlist d nprobe q (pls ! q)" if "q < nq" for q
    using list_all2_nthD[OF pls(2), of q] that by simp
  then show "\<exists>pls. range_probe_lists t sel gemm queries centroids d nlist nprobe metric = Inr pls \<and> length pls = nq
      \<and> (\<forall>q < nq. chosen t (row_of d queries q) centroids nlist d nprobe (pls ! q, map (cdist t (row_of d queries q) centroids d) (pls ! q))
          \<and> (nq = 1 \<or> nlist \<le> nprobe \<longrightarrow> pls ! q = map snd (take nprobe (sort (ranked t (row_of d queries q) centroids nlist d)))))"
    using pls(1) list_all2_lengthD[OF pls(2)] by (auto simp: probe_choice_def nearest_of_def Let_def)
next
  assume "metric \<noteq> L2"
  from range_probe_lists_checked[OF assms(1,3,4,5,9) this, of t gemm]
  show "range_probe_lists t sel gemm queries centroids d nlist nprobe metric =
      (if finite_vec centroids \<and> (\<forall>q < nq. \<forall>c < nlist. is_finite (cdist t (row_of d queries q) centroids d c))
       then Inr (map (\<lambda>q. map snd (take nprobe (sort (ranked t (row_of d queries q) centroids nlist d)))) [0..<nq])
       else Inl (Err InvalidData))" by (simp add: nearest_of_def Let_def)
qed

lemma product_fills: "gemm_fills product_of_columns"
proof -
  have "sum_list (map (\<lambda>i. n) [0..<m]) = m * n" for m n :: nat by (simp add: sum_list_triv)
  then show ?thesis by (simp add: gemm_fills_def product_of_columns_def length_concat comp_def)
qed

theorem range_probe_lists_ranked_witness:
  "range_probe_lists OtherArch (\<lambda>n. sort) product_of_columns [f32_one] [f32_zero, f32_one] 1 2 1 L2 = Inr [[1]]
    \<and> range_probe_lists OtherArch (\<lambda>n. sort) product_of_columns [f32_one] [f32_zero, f32_one] 1 2 1 Cosine = Inr [[1]]"
proof -
  have f: "finite_vec [f32_zero, f32_one]" "\<forall>c < 2. is_finite (cdist OtherArch [f32_one] [f32_zero, f32_one] 1 c)"
    using unit_cdist by (auto simp: finite_vec_def less_2_cases_iff)
  have r: "row_of 1 [f32_one] q = [f32_one]" if "q < 1" for q using that by (simp add: row_of_def slice_def)
  have near: "map snd (take 1 (sort (ranked OtherArch [f32_one] [f32_zero, f32_one] 2 1))) = [1]" by simp
  have shape: "length [f32_one] = 1 * 1" "length [f32_zero, f32_one] = 2 * 1" "(0 :: nat) < 1" "1 \<le> I64_MAX" "1 * 1 < (2 :: nat) ^ 64" "2 * 1 < (2 :: nat) ^ 64"
    by simp_all
  note both = range_probe_lists_ranked[OF selects_sort product_fills shape zero_less_one, of _ OtherArch]
  obtain pls where pls: "range_probe_lists OtherArch (\<lambda>n. sort) product_of_columns [f32_one] [f32_zero, f32_one] 1 2 1 L2 = Inr pls"
    "length pls = 1" "pls ! 0 = [1]" using both[of L2] r near by (metis zero_less_one)
  have "\<forall>q < 1. \<forall>c < 2. is_finite (cdist OtherArch (row_of 1 [f32_one] q) [f32_zero, f32_one] 1 c)" using f(2) r by metis
  then have "range_probe_lists OtherArch (\<lambda>n. sort) product_of_columns [f32_one] [f32_zero, f32_one] 1 2 1 Cosine
      = Inr (map (\<lambda>q. map snd (take 1 (sort (ranked OtherArch (row_of 1 [f32_one] q) [f32_zero, f32_one] 2 1)))) [0..<1])"
    using both[of Cosine] f(1) by (metis MetricType.distinct)
  then show ?thesis using pls r near by (cases pls) simp_all
qed

text \<open>Two queries ranked through the product.\<close>

lemma unit_query:
  assumes "selects sel"
  shows "batch_query OtherArch sel [f32_zero, f32_one] [f32_zero, f32_one] 2 1 1 f32_one [f32_zero, f32_one] f32_one [f32_one] = Inr ([1], [f32_zero])"
proof -
  define x where "x = (\<lambda>c. f32_max (expanded_distance f32_one ([f32_zero, f32_one] ! c) ([f32_zero, f32_one] ! c)) f32_zero)"
  define E where "E = error_bound_of 1 (max_scale_of f32_one f32_one)"
  have "clean E" unfolding E_def by (intro error_bound_clean max_scale_clean) (simp_all add: clean_iff)
  then have E: "\<not> is_nan E" "\<not> sign E" "0 \<le> f32_val E" by (simp_all add: f32_val_def clean_iff)
  have e: "expanded_distance f32_one f32_zero f32_zero = f32_one" "expanded_distance f32_one f32_one f32_one = f32_zero"
    by (simp_all add: expanded_distance_def unit_ops f32_eval)
  have x: "x c = cdist OtherArch [f32_one] [f32_zero, f32_one] 1 c" "is_finite (x c)"
    "is_finite (expanded_distance f32_one ([f32_zero, f32_one] ! c) ([f32_zero, f32_one] ! c))" if "c < 2" for c
    using that less_2_cases[of c] e unit_cdist by (auto simp: x_def f32_max_def f32_lt_def scode_def)
  have "refine_topk_boundary OtherArch sel [f32_one] [f32_zero, f32_one] 2 1 1 (pairs x 2) E = find_topk OtherArch sel [f32_one] [f32_zero, f32_one] 2 1 1"
    by (rule refine_exact[OF assms two_centroids(1)]) (use x E in auto)
  moreover have "find_topk OtherArch sel [f32_one] [f32_zero, f32_one] 2 1 1 = Inr ([1], [f32_zero])"
    using find_topk_eq[OF assms two_centroids(1), of OtherArch 1] by simp
  ultimately show ?thesis using x(3) unfolding E_def x_def by (subst batch_query_eq) auto
qed

lemma unit_batch:
  assumes "selects sel"
  shows "find_topk_batch OtherArch sel product_of_columns [f32_one, f32_one] 2 [f32_zero, f32_one] 2 1 1 = Inr [([1], [f32_zero]), ([1], [f32_zero])]"
proof -
  have g: "sgemm_a_bt product_of_columns 2 2 1 f32_one [f32_one, f32_one] [f32_zero, f32_one] f32_zero (replicate (2 * 2) f32_zero)
      = Inr [f32_zero, f32_one, f32_zero, f32_one]"
    by (simp add: sgemm_a_bt_def checked_mul_def product_of_columns_def two_centroids(5) unit_ops f32_eval)
  have m: "f32_max f32_zero f32_zero = f32_zero" "f32_max f32_zero f32_one = f32_one" "\<not> f32_lt f32_one f32_zero" "\<not> f32_lt f32_zero f32_zero"
    by (simp_all add: f32_max_def f32_eval f32_cmp_defs)
  show ?thesis using unit_query[OF assms] g by (simp add: find_topk_batch_def find_topk_batch_with_centroid_norms_def centroid_row_def subslice_def slice_def
        unit_norms m MAX_MATRIX_ELEMS_def div_ceil_def two_centroids(5) chunks_exact.simps)
qed

text \<open>The bound covers relative errors only. Of magnitudes whose squares are subnormal the error bound is
  zero while every product may be off by half a unit.\<close>

definition tiny_query :: f32 where "tiny_query = F32 0x19800000"
definition tiny_near :: f32 where "tiny_near = F32 0x1A800000"
definition tiny_far :: f32 where "tiny_far = F32 0x1AA00000"

lemmas tiny_defs = tiny_query_def tiny_near_def tiny_far_def

lemma tiny_products:
  "f32_mul tiny_query tiny_query = F32 0" "f32_mul tiny_near tiny_near = F32 2" "f32_mul tiny_far tiny_far = F32 3"
  "f32_mul tiny_query tiny_near = F32 0" "f32_mul tiny_query tiny_far = F32 1"
  by (simp_all add: float_compute tiny_defs)

lemma tiny_sums:
  "f32_add f32_zero (F32 0) = F32 0" "f32_add f32_zero (F32 2) = F32 2" "f32_add f32_zero (F32 3) = F32 3"
  "f32_add (F32 0) (F32 2) = F32 2" "f32_add (F32 0) (F32 3) = F32 3"
  "f32_mul f32_two (F32 0) = F32 0" "f32_mul f32_two (F32 1) = F32 2"
  "f32_sub (F32 2) (F32 0) = F32 2" "f32_sub (F32 3) (F32 2) = F32 1"
  by (simp_all add: float_compute f32_zero_def f32_two_def)

lemma tiny_exact:
  "f32_mul (f32_sub tiny_query tiny_near) (f32_sub tiny_query tiny_near) = F32 1"
  "f32_mul (f32_sub tiny_query tiny_far) (f32_sub tiny_query tiny_far) = F32 2"
  "f32_add f32_zero (F32 1) = F32 1"
  by (simp_all add: float_compute tiny_defs f32_zero_def)

lemma tiny_bound:
  "f32_mul (F32 0) (F32 3) = F32 0" "f32_sqrt (F32 0) = F32 0" "f32_add (F32 3) (F32 0) = F32 3"
  "error_bound_of 1 (F32 3) = F32 0"
proof -
  show "f32_mul (F32 0) (F32 3) = F32 0" "f32_sqrt (F32 0) = F32 0" "f32_add (F32 3) (F32 0) = F32 3"
    by (simp_all add: float_compute f32_sqrt_def)
  have "f32_mul (f32_of_nat 1) f32_EPSILON = f32_EPSILON" "f32_mul (f32_of_nat 4) f32_EPSILON = F32 0x35000000"
    by (simp_all add: float_compute f32_of_nat_def f32_EPSILON_def)
  moreover have "f32_sub f32_one f32_EPSILON = F32 0x3F7FFFFE" "f32_div (F32 0x35000000) (F32 0x3F7FFFFE) = F32 0x35000001"
    "f32_mul (F32 3) (F32 0x35000001) = F32 0"
    by (simp_all add: float_compute f32_one_def f32_EPSILON_def)
  moreover have "f32_lt f32_EPSILON f32_one" "\<not> f32_eq (F32 3) f32_zero"
    by (simp_all add: float_compute f32_EPSILON_def f32_one_def f32_zero_def)
  ultimately show "error_bound_of 1 (F32 3) = F32 0" by (simp add: error_bound_of_def)
qed

lemma tiny_order: "F32 1 < F32 2" "\<not> F32 2 < F32 1" "F32 1 \<le> F32 2" "\<not> F32 2 \<le> F32 1"
  by (simp_all add: less_f32_def less_eq_f32_def total_key_def sign_def code_def)

text \<open>On every target a vector of one component is summed by the scalar tail, from a zero.\<close>

lemma one_component:
  "fvec_l2sqr_simd t [x] [y] = f32_add f32_zero (f32_mul (f32_sub x y) (f32_sub x y))"
  "fvec_norm_l2sqr t [x] = f32_add f32_zero (f32_mul x x)"
proof -
  have z: "f32_add f32_zero f32_zero = f32_zero" by (simp add: float_compute f32_zero_def)
  then have r: "neon_reduce neon_zero = f32_zero" by (simp add: neon_reduce_def neon_zero_def vaddvq_f32_def)
  show "fvec_l2sqr_simd t [x] [y] = f32_add f32_zero (f32_mul (f32_sub x y) (f32_sub x y))"
    by (simp add: fvec_l2sqr_simd_def fvec_l2sqr_scalar_def fvec_l2sqr_neon_def l2_term_def block_starts_def blocks_end_def r Let_def split: arch.split)
  show "fvec_norm_l2sqr t [x] = f32_add f32_zero (f32_mul x x)"
    by (simp add: fvec_norm_l2sqr_def fvec_norm_l2sqr_scalar_def fvec_norm_l2sqr_neon_def block_starts_def blocks_end_def r split: arch.split)
qed

lemma tiny_cdist:
  "cdist t [tiny_query] [tiny_near, tiny_far] 1 0 = F32 1" "cdist t [tiny_query] [tiny_near, tiny_far] 1 1 = F32 2"
  by (simp_all add: cdist_def row_of_def slice_def one_component tiny_exact tiny_sums)

lemma tiny_norms:
  "fvec_norm_l2sqr t [tiny_query] = F32 0" "fvec_norm_l2sqr t [tiny_near] = F32 2" "fvec_norm_l2sqr t [tiny_far] = F32 3"
  by (simp_all add: one_component tiny_products tiny_sums)

lemma tiny_pairs: "pairs f 2 = [(f 0, 0), (f 1, 1)]"
  by (simp add: pairs_def numeral_2_eq_2)

lemma tiny_refine:
  assumes "selects sel"
  shows "refine_topk_boundary t sel [tiny_query] [tiny_near, tiny_far] 2 1 1 [(F32 2, 0), (F32 1, 1)] (F32 0) = Inr ([1], [F32 2])"
proof -
  define a where "a = (\<lambda>c :: nat. if c = 0 then F32 2 else F32 1)"
  have a: "[(F32 2, 0), (F32 1, 1)] = pairs a 2" "a 0 = F32 2" "a 1 = F32 1" by (simp_all add: tiny_pairs a_def)
  have shape: "probe_shape [tiny_query] [tiny_near, tiny_far] 2 1" by (simp add: probe_shape_def)
  have b: "fst (sort (pairs a 2) ! (1 - 1)) = F32 1" by (simp add: tiny_pairs a_def tiny_order)
  have lims: "f32_sub (F32 1) (f32_mul f32_two (F32 0)) = F32 1" "f32_add (F32 1) (f32_mul f32_two (F32 0)) = F32 1"
    "\<not> f32_lt (F32 2) (F32 1)" "\<not> f32_lt (F32 1) (F32 1)" "\<not> f32_le (F32 2) (F32 1)" "f32_le (F32 1) (F32 1)"
    by (simp_all add: float_compute f32_two_def)
  show ?thesis unfolding a(1) refine_eq[OF assms shape zero_less_one one_le_numeral] b
    by (simp add: tiny_pairs tiny_cdist[simplified] a(2,3)[simplified] lims checked_sub_def)
qed

text \<open>C30: one input on which a batch ranks worse than its queries alone, on every target. There is one dimension,
  a query of 2 to the -76 twice, and the centroids 2 to the -74 and 1.25 times 2 to the -74, one of which is to be
  chosen. The squared norms are zero or subnormal, the error bound that the code computes for them is zero, and the
  correctly rounded products are off by up to half a unit: the query alone selects the first centroid, the batch
  selects the second, at twice the distance, for both queries. So the bound that the code computes is not always
  an error bound, and the batch returns what \<open>find_topk\<close> does only where it is one.\<close>

theorem batch_ranking_underflow:
  assumes "selects sel"
    and "gemm 2 1 2 f32_one [tiny_query, tiny_query] [tiny_near, tiny_far] f32_zero (replicate 4 f32_zero) =
      [f32_mul tiny_query tiny_near, f32_mul tiny_query tiny_far, f32_mul tiny_query tiny_near, f32_mul tiny_query tiny_far]"
  shows "error_bound_of 1 (max_scale_of (fvec_norm_l2sqr t [tiny_query]) (f32_max (fvec_norm_l2sqr t [tiny_near]) (fvec_norm_l2sqr t [tiny_far]))) = f32_zero
    \<and> find_topk t sel [tiny_query] [tiny_near, tiny_far] 2 1 1 = Inr ([0], [F32 1])
    \<and> find_topk_batch t sel gemm [tiny_query, tiny_query] 2 [tiny_near, tiny_far] 2 1 1
      = Inr [([1], [F32 2]), ([1], [F32 2])]"
proof (intro conjI)
  have shape: "probe_shape [tiny_query] [tiny_near, tiny_far] 2 1" by (simp add: probe_shape_def)
  show "find_topk t sel [tiny_query] [tiny_near, tiny_far] 2 1 1 = Inr ([0], [F32 1])"
    unfolding find_topk_nearest[OF assms(1) shape] nearest_of_def ranked_pairs tiny_pairs tiny_cdist by (simp add: tiny_order)
  have f: "is_finite (F32 0)" "is_finite (F32 1)" "is_finite (F32 2)" "is_finite (F32 3)"
    "\<not> f32_lt (F32 2) f32_zero" "\<not> f32_lt (F32 3) f32_zero"
    "f32_max (F32 2) f32_zero = F32 2" "f32_max (F32 1) f32_zero = F32 1" "f32_max f32_zero (F32 2) = F32 2" "f32_max (F32 2) (F32 3) = F32 3"
    by (simp_all add: float_compute f32_zero_def)
  have "max_scale_of (F32 0) (F32 3) = F32 3" by (simp add: max_scale_of_def tiny_bound(1-3)[simplified] tiny_sums)
  then show "error_bound_of 1 (max_scale_of (fvec_norm_l2sqr t [tiny_query]) (f32_max (fvec_norm_l2sqr t [tiny_near]) (fvec_norm_l2sqr t [tiny_far]))) = f32_zero"
    unfolding tiny_norms f(10) using tiny_bound(4) by (simp only: f32_zero_def)
  have q: "batch_query t sel [tiny_near, tiny_far] [F32 2, F32 3] 2 1 1 (F32 0) [F32 0, F32 1] (F32 3) [tiny_query] = Inr ([1], [F32 2])"
    using tiny_refine[OF assms(1)] by (simp add: batch_query_def f tiny_sums tiny_bound tiny_bound(4)[simplified])
  have g: "sgemm_a_bt gemm 2 2 1 f32_one [tiny_query, tiny_query] [tiny_near, tiny_far] f32_zero (replicate (2 * 2) f32_zero) = Inr [F32 0, F32 1, F32 0, F32 1]"
    using assms(2) by (simp add: sgemm_a_bt_def checked_mul_def tiny_products)
  show "find_topk_batch t sel gemm [tiny_query, tiny_query] 2 [tiny_near, tiny_far] 2 1 1 = Inr [([1], [F32 2]), ([1], [F32 2])]"
    using q g by (simp add: find_topk_batch_def find_topk_batch_with_centroid_norms_def centroid_row_def subslice_def slice_def tiny_norms f
        MAX_MATRIX_ELEMS_def div_ceil_def two_centroids(5) chunks_exact.simps)
qed

theorem batch_ranking_underflow_witness:
  "find_topk AArch64 (\<lambda>n. sort) [tiny_query] [tiny_near, tiny_far] 2 1 1 = Inr ([0], [F32 1])
    \<and> find_topk_batch AArch64 (\<lambda>n. sort) product_of_columns [tiny_query, tiny_query] 2 [tiny_near, tiny_far] 2 1 1
      = Inr [([1], [F32 2]), ([1], [F32 2])]"
proof -
  have "product_of_columns 2 1 2 f32_one [tiny_query, tiny_query] [tiny_near, tiny_far] f32_zero (replicate 4 f32_zero) =
      [f32_mul tiny_query tiny_near, f32_mul tiny_query tiny_far, f32_mul tiny_query tiny_near, f32_mul tiny_query tiny_far]"
    by (simp add: product_of_columns_def two_centroids(5))
  from batch_ranking_underflow[where gemm = product_of_columns and t = AArch64, OF selects_sort this] show ?thesis by blast
qed

end
