(* ===== verification/Flat_Batch.thy ===== *)
theory Flat_Batch
  imports Fan_Out Batch_Rank
begin

text \<open>
  What the batched top-k search \<open>search_batch_ivfflat_reader_filter_range\<close> of \<open>ivfflat_io.rs\<close> returns: for
  every query the k best of its seed and of the lists in its window of the ranking. It is then compared with the
  search of the index in memory, \<open>search_with_filter\<close> of \<open>ivfflat.rs\<close>, and with itself in two steps.
\<close>

section \<open>Lists handed to their queries\<close>

lemma fold_res_ext: "(\<And>x s. x \<in> set xs \<Longrightarrow> f x s = g x s) \<Longrightarrow> fold_res f xs s = fold_res g xs s"
proof (induction xs arbitrary: s)
  case (Cons x xs)
  then show ?case by (cases "g x s") simp_all
qed simp

lemma fold_list_tasks:
  assumes "list_all (\<lambda>x. key x < length ltq) xs"
  shows "fold_res (\<lambda>x s. bind_res (idx ltq (key x)) (\<lambda>qs. fold_res (\<lambda>qi. f (x, qi)) qs s)) xs s
    = fold_res f (list_tasks ltq (map (\<lambda>x. (x, key x)) xs)) s"
  using assms
proof (induction xs arbitrary: s)
  case (Cons x xs)
  then have "fold_res f (list_tasks ltq (map (\<lambda>x. (x, key x)) (x # xs))) s
    = bind_res (fold_res (\<lambda>qi. f (x, qi)) (ltq ! key x) s) (\<lambda>s. fold_res f (list_tasks ltq (map (\<lambda>x. (x, key x)) xs)) s)"
    by (simp add: list_tasks_def fold_res_append fold_res_map)
  then show ?case using Cons by (cases "fold_res (\<lambda>qi. f (x, qi)) (ltq ! key x) s") (simp_all add: idx_def)
qed (simp add: list_tasks_def)

lemma list_tasks_mem: "(x, qi) \<in> set (list_tasks ltq (map (\<lambda>x. (x, key x)) xs)) \<longleftrightarrow> x \<in> set xs \<and> qi \<in> set (ltq ! key x)"
  by (auto simp: list_tasks_def)

section \<open>The heaps of a batch\<close>

definition batch_bucket ::
  "arch \<Rightarrow> f32 list \<Rightarrow> nat \<Rightarrow> MetricType \<Rightarrow> row_filter \<Rightarrow> (nat \<Rightarrow> (f32 \<times> i64) list) \<Rightarrow> nat \<Rightarrow> nat \<Rightarrow> item list \<Rightarrow> ReaderTopKHeap \<Rightarrow> bool" where
  "batch_bucket t processed d metric row_filter seed k qi rows h \<longleftrightarrow>
     heap_holds k (seed qi @ item_offers t (row_of d processed qi) metric row_filter rows) h"

definition batch_holds ::
  "arch \<Rightarrow> f32 list \<Rightarrow> nat \<Rightarrow> nat \<Rightarrow> MetricType \<Rightarrow> row_filter \<Rightarrow> nat list list \<Rightarrow> (nat \<Rightarrow> (f32 \<times> i64) list) \<Rightarrow> nat \<Rightarrow>
   item list \<Rightarrow> ReaderTopKHeap list \<Rightarrow> bool" where
  "batch_holds t processed nq d metric row_filter ltq seed k rows hs \<longleftrightarrow>
     length hs = nq \<and> (\<forall>qi < nq. batch_bucket t processed d metric row_filter seed k qi (rows_for ltq qi rows) (hs ! qi))"

definition fan_ok :: "f32 list \<Rightarrow> nat \<Rightarrow> nat \<Rightarrow> nat list list \<Rightarrow> nat \<Rightarrow> bool" where
  "fan_ok processed nq d ltq l \<longleftrightarrow>
     length processed = nq * d \<and> l < length ltq \<and> distinct (ltq ! l) \<and> set (ltq ! l) \<subseteq> {..<nq}"

definition batch_row_ok :: "f32 list \<Rightarrow> nat \<Rightarrow> MetricType \<Rightarrow> nat list list \<Rightarrow> item \<Rightarrow> bool" where
  "batch_row_ok processed d metric ltq = (\<lambda>(l, row, v).
     vector_ok metric v \<and> (\<forall>qi \<in> set (ltq ! l). query_ok d metric (row_of d processed qi)))"

lemma query_slice_eq: "length processed = nq * d \<Longrightarrow> qi < nq \<Longrightarrow> query_slice processed d qi = Inr (row_of d processed qi)"
  unfolding query_slice_def by (rule subslice_row_of)

lemma bucket_scan:
  assumes "batch_bucket t processed d metric row_filter seed k qi rows h" "length vs = length ids * d" "qi \<in> set (ltq ! l)"
    "list_all (batch_row_ok processed d metric ltq) (row_items d l ids vs)"
  shows "\<exists>h'. scan_flat_rows t reader_collector (row_of d processed qi) ids vs d metric row_filter h = Inr h'
    \<and> batch_bucket t processed d metric row_filter seed k qi (rows @ row_items d l ids vs) h'"
proof (cases "ids = []")
  case True
  then show ?thesis using assms(1) by (simp add: scan_flat_rows_def Let_def)
next
  case False
  then have "query_ok d metric (row_of d processed qi)" using assms(3,4) by (cases ids) (auto simp: row_items_def batch_row_ok_def)
  moreover have "list_all (\<lambda>(l, row, v). vector_ok metric v) (row_items d l ids vs)" using assms(4) by (auto simp: list_all_iff batch_row_ok_def)
  ultimately show ?thesis using scan_holds[OF assms(1)[unfolded batch_bucket_def] _ assms(2), where l = l] by (simp add: batch_bucket_def)
qed

lemma local_scan:
  assumes "length vs = length ids * d" "qi \<in> set (ltq ! l)" "list_all (batch_row_ok processed d metric ltq) (row_items d l ids vs)"
  shows "\<exists>h. scan_flat_rows t reader_collector (row_of d processed qi) ids vs d metric row_filter (reader_heap_new k) = Inr h
    \<and> heap_holds k (item_offers t (row_of d processed qi) metric row_filter (row_items d l ids vs)) h"
  using bucket_scan[of t processed d metric row_filter "\<lambda>_. []" k qi "[]" "reader_heap_new k" vs ids ltq l] assms by (simp add: batch_bucket_def)

lemma chunk_keeps_batch:
  assumes "length vs = length ids * d" "fan_ok processed nq d ltq l" "list_all (batch_row_ok processed d metric ltq) (row_items d l ids vs)"
    "batch_holds t processed nq d metric row_filter ltq seed k rows hs"
  shows "\<exists>hs'. flat_batch_chunk t processed d metric row_filter ltq l ids vs hs = Inr hs'
    \<and> batch_holds t processed nq d metric row_filter ltq seed k (rows @ row_items d l ids vs) hs'"
proof -
  let ?step = "\<lambda>(u :: unit, qi) hs. bind_res (query_slice processed d qi) (\<lambda>query.
       update_heap qi (scan_flat_rows t reader_collector query ids vs d metric row_filter) hs)"
  let ?f = "\<lambda>(u :: unit) qi. scan_flat_rows t reader_collector (row_of d processed qi) ids vs d metric row_filter"
  let ?tasks = "list_tasks ltq [((), l)]"
  have fan: "length processed = nq * d" "l < length ltq" "distinct (ltq ! l)" "set (ltq ! l) \<subseteq> {..<nq}" using assms(2) by (auto simp: fan_ok_def)
  have start: "length hs = nq" "\<And>qi. qi < nq \<Longrightarrow> batch_bucket t processed d metric row_filter seed k qi (rows_for ltq qi rows) (hs ! qi)"
    using assms(4) by (auto simp: batch_holds_def)
  have rows: "concat (map (\<lambda>task. row_items d l ids vs) (filter (\<lambda>task. snd task = qi) ?tasks)) = rows_for ltq qi (row_items d l ids vs)" for qi
    using list_tasks_rows[of ltq "\<lambda>_. row_items d l ids vs" d "\<lambda>_. ids" "\<lambda>_. vs" "[((), l)]" qi] fan(3) by simp
  have mem: "qi \<in> set (ltq ! l)" if "((), qi) \<in> set ?tasks" for qi using that by (auto simp: list_tasks_def)
  have "\<exists>hs'. fold_res ?step ?tasks hs = Inr hs' \<and> length hs' = nq \<and> (\<forall>qi < nq. batch_bucket t processed d metric row_filter seed k qi
      (rows_for ltq qi rows @ concat (map (\<lambda>task. row_items d l ids vs) (filter (\<lambda>task. snd task = qi) ?tasks))) (hs' ! qi))"
  proof (rule fold_tasks[where f = ?f and items = "\<lambda>_. row_items d l ids vs"])
    fix x qi bs assume "(x, qi) \<in> set ?tasks"
    then have "qi < nq" using mem fan(4) by auto
    then show "qi < nq \<and> ?step (x, qi) bs = update_heap qi (?f x qi) bs" using query_slice_eq[OF fan(1)] by simp
  qed (use start mem bucket_scan[OF _ assms(1) _ assms(3)] in auto)
  then show ?thesis unfolding rows using fan(2)
    by (simp add: flat_batch_chunk_def idx_def list_tasks_def fold_res_map batch_holds_def)
qed

text \<open>Lists that were read, with the queries that wait for them.\<close>

definition loaded_ok ::
  "f32 list \<Rightarrow> nat \<Rightarrow> nat \<Rightarrow> nat list list \<Rightarrow> (i64 list \<times> f32 list) list \<Rightarrow> nat list \<Rightarrow> FlatListData list \<Rightarrow> bool" where
  "loaded_ok processed nq d ltq ls xs loaded \<longleftrightarrow> list_all2 (data_of ls) xs loaded
     \<and> list_all (\<lambda>l. l < length ls \<and> fan_ok processed nq d ltq l \<and> length (snd (ls ! l)) = length (fst (ls ! l)) * d) xs"

abbreviation data_items :: "nat \<Rightarrow> FlatListData \<Rightarrow> item list" where
  "data_items d x \<equiv> row_items d (fl_list_id x) (fl_ids x) (fl_vectors x)"

lemma loaded_facts:
  assumes "loaded_ok processed nq d ltq ls xs loaded"
  shows "x \<in> set loaded \<Longrightarrow> fl_list_id x \<in> set xs \<and> length (fl_vectors x) = length (fl_ids x) * d \<and> fan_ok processed nq d ltq (fl_list_id x)
      \<and> data_items d x = list_items d ls (fl_list_id x)"
    and "map (data_items d) loaded = map (list_items d ls) xs"
    and "list_all (\<lambda>x. fl_list_id x < length ltq) loaded"
proof -
  have l2: "list_all2 (data_of ls) xs loaded" using assms by (simp add: loaded_ok_def)
  have each: "fl_list_id x \<in> set xs \<and> length (fl_vectors x) = length (fl_ids x) * d \<and> fan_ok processed nq d ltq (fl_list_id x)
      \<and> data_items d x = list_items d ls (fl_list_id x)" if mem: "x \<in> set loaded" for x
  proof -
    obtain i where i: "i < length loaded" "loaded ! i = x" using mem unfolding in_set_conv_nth by blast
    then have x: "data_of ls (xs ! i) x" "i < length xs" using list_all2_nthD2[OF l2 i(1)] list_all2_lengthD[OF l2] by simp_all
    then have "fan_ok processed nq d ltq (xs ! i) \<and> length (snd (ls ! (xs ! i))) = length (fst (ls ! (xs ! i))) * d"
      using assms by (simp add: loaded_ok_def list_all_length)
    then show ?thesis using x by (simp add: data_of_def)
  qed
  show "x \<in> set loaded \<Longrightarrow> fl_list_id x \<in> set xs \<and> length (fl_vectors x) = length (fl_ids x) * d \<and> fan_ok processed nq d ltq (fl_list_id x)
      \<and> data_items d x = list_items d ls (fl_list_id x)" by (rule each)
  show "list_all (\<lambda>x. fl_list_id x < length ltq) loaded" using each by (auto simp: list_all_iff fan_ok_def)
  show "map (data_items d) loaded = map (list_items d ls) xs"
  proof (rule nth_equalityI)
    fix i assume "i < length (map (data_items d) loaded)"
    then have "i < length loaded" "i < length xs" "data_of ls (xs ! i) (loaded ! i)" using l2 by (auto simp: list_all2_conv_all_nth)
    then show "map (data_items d) loaded ! i = map (list_items d ls) xs ! i" by (simp add: data_of_def)
  qed (use l2 in \<open>simp add: list_all2_lengthD\<close>)
qed

definition loaded_tasks :: "nat list list \<Rightarrow> FlatListData list \<Rightarrow> (FlatListData \<times> nat) list" where
  "loaded_tasks ltq loaded = list_tasks ltq (map (\<lambda>x. (x, fl_list_id x)) loaded)"

lemma loaded_rows:
  assumes "loaded_ok processed nq d ltq ls xs loaded"
  shows "concat (map (\<lambda>task. data_items d (fst task)) (filter (\<lambda>task. snd task = qi) (loaded_tasks ltq loaded)))
    = rows_for ltq qi (concat (map (list_items d ls) xs))"
proof -
  have "list_all (\<lambda>(x, l). distinct (ltq ! l) \<and> data_items d x = row_items d l (fl_ids x) (fl_vectors x)) (map (\<lambda>x. (x, fl_list_id x)) loaded)"
    using loaded_facts(1)[OF assms] by (auto simp: list_all_iff fan_ok_def)
  from list_tasks_rows[OF this, of qi] show ?thesis
    using loaded_facts(2)[OF assms] by (simp add: loaded_tasks_def comp_def)
qed

lemma loaded_task:
  assumes "loaded_ok processed nq d ltq ls xs loaded" "(x, qi) \<in> set (loaded_tasks ltq loaded)"
  shows "x \<in> set loaded" "qi \<in> set (ltq ! fl_list_id x)" "qi < nq" "query_slice processed d qi = Inr (row_of d processed qi)"
proof -
  show x: "x \<in> set loaded" "qi \<in> set (ltq ! fl_list_id x)" using assms(2) by (auto simp: loaded_tasks_def list_tasks_mem)
  then show "qi < nq" using loaded_facts(1)[OF assms(1) x(1)] by (auto simp: fan_ok_def)
  then show "query_slice processed d qi = Inr (row_of d processed qi)"
    using loaded_facts(1)[OF assms(1) x(1)] by (intro query_slice_eq) (auto simp: fan_ok_def)
qed

lemma loaded_item_rows:
  assumes "loaded_ok processed nq d ltq ls xs loaded" "x \<in> set loaded" "list_all okr (concat (map (list_items d ls) xs))"
  shows "list_all okr (data_items d x)"
  using loaded_facts(1)[OF assms(1,2)] assms(3) by (auto simp: list_all_iff)

lemma serial_keeps_batch:
  assumes l: "loaded_ok processed nq d ltq ls xs loaded" and ok: "list_all (batch_row_ok processed d metric ltq) (concat (map (list_items d ls) xs))"
    and hs: "batch_holds t processed nq d metric row_filter ltq seed k rows hs"
  shows "\<exists>hs'. fold_res (\<lambda>l hs. bind_res (idx ltq (fl_list_id l)) (\<lambda>query_indices.
        fold_res (\<lambda>qi hs. bind_res (query_slice processed d qi) (\<lambda>query.
          update_heap qi (scan_flat_list t reader_collector query l d metric row_filter) hs)) query_indices hs)) loaded hs = Inr hs'
    \<and> batch_holds t processed nq d metric row_filter ltq seed k (rows @ concat (map (list_items d ls) xs)) hs'"
proof -
  let ?step = "\<lambda>(x, qi) hs. bind_res (query_slice processed d qi) (\<lambda>query.
          update_heap qi (scan_flat_list t reader_collector query x d metric row_filter) hs)"
  let ?f = "\<lambda>x qi. scan_flat_list t reader_collector (row_of d processed qi) x d metric row_filter"
  have "\<exists>hs'. fold_res ?step (loaded_tasks ltq loaded) hs = Inr hs' \<and> length hs' = nq \<and> (\<forall>qi < nq. batch_bucket t processed d metric row_filter seed k qi
      (rows_for ltq qi rows @ concat (map (\<lambda>task. data_items d (fst task)) (filter (\<lambda>task. snd task = qi) (loaded_tasks ltq loaded)))) (hs' ! qi))"
  proof (rule fold_tasks[where f = ?f])
    fix x qi rows b assume m: "(x, qi) \<in> set (loaded_tasks ltq loaded)" "batch_bucket t processed d metric row_filter seed k qi rows b"
    show "\<exists>b'. ?f x qi b = Inr b' \<and> batch_bucket t processed d metric row_filter seed k qi (rows @ data_items d x) b'"
      using bucket_scan[OF m(2) _ loaded_task(2)[OF l m(1)] loaded_item_rows[OF l loaded_task(1)[OF l m(1)] ok]]
        loaded_facts(1)[OF l loaded_task(1)[OF l m(1)]] by (simp add: scan_flat_list_def)
  qed (use hs loaded_task[OF l] in \<open>auto simp: batch_holds_def\<close>)
  then show ?thesis unfolding loaded_rows[OF l] using fold_list_tasks[OF loaded_facts(3)[OF l], of ?step hs]
    by (simp add: loaded_tasks_def batch_holds_def)
qed

text \<open>The parallel arm: a local heap for every task, merged in the order of the tasks.\<close>

lemma bucket_merge:
  assumes "batch_bucket t processed d metric row_filter seed k qi rows h"
    "heap_holds k (item_offers t (row_of d processed qi) metric row_filter rows') local_heap"
  shows "\<exists>h'. merge_flat_results (reader_heap_into_sorted local_heap) h = Inr h'
    \<and> batch_bucket t processed d metric row_filter seed k qi (rows @ rows') h'"
  using merge_holds[OF assms(1)[unfolded batch_bucket_def] assms(2)] by (simp add: batch_bucket_def)

lemma parallel_keeps_batch:
  assumes l: "loaded_ok processed nq d ltq ls xs loaded" and ok: "list_all (batch_row_ok processed d metric ltq) (concat (map (list_items d ls) xs))"
    and hs: "batch_holds t processed nq d metric row_filter ltq seed k rows hs"
  shows "\<exists>hs'. bind_res (map_res (\<lambda>l. bind_res (idx ltq (fl_list_id l)) (\<lambda>query_indices.
        map_res (\<lambda>qi. bind_res (query_slice processed d qi) (\<lambda>query.
          bind_res (scan_flat_list t reader_collector query l d metric row_filter (reader_heap_new k)) (\<lambda>local_heap.
            Inr (qi, reader_heap_into_sorted local_heap)))) query_indices)) loaded) (\<lambda>per_list_results.
      fold_res (fold_res (\<lambda>(qi, results). update_heap qi (merge_flat_results results))) per_list_results hs) = Inr hs'
    \<and> batch_holds t processed nq d metric row_filter ltq seed k (rows @ concat (map (list_items d ls) xs)) hs'"
proof -
  let ?tasks = "loaded_tasks ltq loaded"
  have "\<forall>task \<in> set ?tasks. \<exists>h. scan_flat_list t reader_collector (row_of d processed (snd task)) (fst task) d metric row_filter (reader_heap_new k) = Inr h
      \<and> heap_holds k (item_offers t (row_of d processed (snd task)) metric row_filter (data_items d (fst task))) h"
    using local_scan[OF _ loaded_task(2)[OF l] loaded_item_rows[OF l loaded_task(1)[OF l] ok]] loaded_facts(1)[OF l loaded_task(1)[OF l]]
    by (fastforce simp: scan_flat_list_def)
  then obtain loc where loc: "\<And>x qi. (x, qi) \<in> set ?tasks \<Longrightarrow>
      scan_flat_list t reader_collector (row_of d processed qi) x d metric row_filter (reader_heap_new k) = Inr (loc (x, qi))
      \<and> heap_holds k (item_offers t (row_of d processed qi) metric row_filter (data_items d x)) (loc (x, qi))"
    by (metis (no_types, lifting) bchoice fst_conv snd_conv)
  have mem: "(x, qi) \<in> set ?tasks" if "x \<in> set loaded" "qi \<in> set (ltq ! fl_list_id x)" for x qi
    using that by (simp add: loaded_tasks_def list_tasks_mem)
  define part where "part = (\<lambda>x. map (\<lambda>qi. (qi, reader_heap_into_sorted (loc (x, qi)))) (ltq ! fl_list_id x))"
  have scans: "map_res (\<lambda>l. bind_res (idx ltq (fl_list_id l)) (\<lambda>query_indices.
        map_res (\<lambda>qi. bind_res (query_slice processed d qi) (\<lambda>query.
          bind_res (scan_flat_list t reader_collector query l d metric row_filter (reader_heap_new k)) (\<lambda>local_heap.
            Inr (qi, reader_heap_into_sorted local_heap)))) query_indices)) loaded = Inr (map part loaded)"
  proof (rule map_res_Inr_map)
    fix x assume x: "x \<in> set loaded"
    have "map_res (\<lambda>qi. bind_res (query_slice processed d qi) (\<lambda>query.
          bind_res (scan_flat_list t reader_collector query x d metric row_filter (reader_heap_new k)) (\<lambda>local_heap.
            Inr (qi, reader_heap_into_sorted local_heap)))) (ltq ! fl_list_id x) = Inr (part x)"
      unfolding part_def
    proof (rule map_res_Inr_map)
      fix qi assume "qi \<in> set (ltq ! fl_list_id x)"
      then show "bind_res (query_slice processed d qi) (\<lambda>query. bind_res (scan_flat_list t reader_collector query x d metric row_filter (reader_heap_new k))
          (\<lambda>local_heap. Inr (qi, reader_heap_into_sorted local_heap))) = Inr (qi, reader_heap_into_sorted (loc (x, qi)))"
        using loc[OF mem[OF x]] loaded_task(4)[OF l mem[OF x]] by simp
    qed
    then show "bind_res (idx ltq (fl_list_id x)) (\<lambda>query_indices.
        map_res (\<lambda>qi. bind_res (query_slice processed d qi) (\<lambda>query.
          bind_res (scan_flat_list t reader_collector query x d metric row_filter (reader_heap_new k)) (\<lambda>local_heap.
            Inr (qi, reader_heap_into_sorted local_heap)))) query_indices) = Inr (part x)"
      using loaded_facts(3)[OF l] x by (simp add: idx_def list_all_iff)
  qed
  let ?step = "\<lambda>(x, qi). update_heap qi (merge_flat_results (reader_heap_into_sorted (loc (x, qi))))"
  have merges: "fold_res (fold_res (\<lambda>(qi, results). update_heap qi (merge_flat_results results))) (map part loaded) hs = fold_res ?step ?tasks hs"
    unfolding fold_res_map loaded_tasks_def fold_list_tasks[OF loaded_facts(3)[OF l], symmetric]
    by (rule fold_res_ext) (use loaded_facts(3)[OF l] in \<open>auto simp: part_def fold_res_map idx_def list_all_iff\<close>)
  have "\<exists>hs'. fold_res ?step ?tasks hs = Inr hs' \<and> length hs' = nq \<and> (\<forall>qi < nq. batch_bucket t processed d metric row_filter seed k qi
      (rows_for ltq qi rows @ concat (map (\<lambda>task. data_items d (fst task)) (filter (\<lambda>task. snd task = qi) ?tasks))) (hs' ! qi))"
    by (rule fold_tasks[where f = "\<lambda>x qi. merge_flat_results (reader_heap_into_sorted (loc (x, qi)))"])
      (use hs loaded_task[OF l] loc bucket_merge in \<open>auto simp: batch_holds_def\<close>)
  then show ?thesis unfolding loaded_rows[OF l] scans bind_res_Inr merges by (simp add: batch_holds_def)
qed

lemma lists_keep_batch:
  assumes l: "loaded_ok processed nq d ltq ls xs loaded" and ok: "list_all (batch_row_ok processed d metric ltq) (concat (map (list_items d ls) xs))"
    and hs: "batch_holds t processed nq d metric row_filter ltq seed k rows hs" and r: "fr_d r = d" "fr_metric r = metric"
  shows "\<exists>hs'. flat_batch_lists t processed k row_filter ltq r loaded hs = Inr hs'
    \<and> batch_holds t processed nq d metric row_filter ltq seed k (rows @ concat (map (list_items d ls) xs)) hs'"
proof -
  have "map_res (\<lambda>l. bind_res (idx ltq (fl_list_id l)) (\<lambda>qs. Inr (saturating_mul (length (fl_ids l)) (length qs)))) loaded
      = Inr (map (\<lambda>l. saturating_mul (length (fl_ids l)) (length (ltq ! fl_list_id l))) loaded)"
    by (rule map_res_Inr_map) (use loaded_facts(3)[OF l] in \<open>simp add: idx_def list_all_iff\<close>)
  then show ?thesis using serial_keeps_batch[OF l ok hs] parallel_keeps_batch[OF l ok hs] r
    by (simp add: flat_batch_lists_def Let_def)
qed

interpretation batch_loop: list_consumer "\<lambda>_ _ heaps. Inr heaps" "flat_batch_chunk t processed d metric row_filter ltq"
  "flat_batch_lists t processed k row_filter ltq" d metric "batch_row_ok processed d metric ltq" "fan_ok processed nq d ltq"
  "batch_holds t processed nq d metric row_filter ltq seed k"
  for t processed nq d metric row_filter ltq seed k
proof
  fix r ls xs ds rows s
  assume a: "holds r ls" "fr_d r = d" "fr_metric r = metric" "list_all (\<lambda>l. l < length ls \<and> fan_ok processed nq d ltq l) xs"
    "list_all2 (data_of ls) xs ds" "list_all (batch_row_ok processed d metric ltq) (concat (map (list_items d ls) xs))"
    "batch_holds t processed nq d metric row_filter ltq seed k rows s"
  have "loaded_ok processed nq d ltq ls xs ds" using a(4,5) holds_length[OF a(1)] a(2) by (auto simp: loaded_ok_def list_all_iff)
  from lists_keep_batch[OF this a(6,7,2,3)]
  show "\<exists>s'. flat_batch_lists t processed k row_filter ltq r ds s = Inr s'
    \<and> batch_holds t processed nq d metric row_filter ltq seed k (rows @ concat (map (list_items d ls) xs)) s'" .
qed (use chunk_keeps_batch in auto)

section \<open>Seeds\<close>

definition seed_offers :: "i64 list \<Rightarrow> f32 list \<Rightarrow> nat \<Rightarrow> nat \<Rightarrow> (f32 \<times> i64) list" where
  "seed_offers seed_ids seed_distances k qi =
     map prod.swap (filter (\<lambda>(row, distance). \<not> f32_eq distance f32_MAX)
       (zip (get_or_empty (qi * k) (qi * k + k) seed_ids) (get_or_empty (qi * k) (qi * k + k) seed_distances)))"

lemma seed_offers_Nil [simp]: "seed_offers [] [] k qi = []"
  by (simp add: seed_offers_def get_or_empty_def slice_def)

lemma seed_fold:
  "fold_res (\<lambda>(row, distance) h. if \<not> f32_eq distance f32_MAX then reader_heap_push distance row h else Inr h) xs h
    = reader_push_all (map prod.swap (filter (\<lambda>(row, distance). \<not> f32_eq distance f32_MAX) xs)) h"
proof (induction xs arbitrary: h)
  case (Cons x xs)
  obtain row v where x: "x = (row, v)" by (cases x)
  show ?case using Cons by (cases "reader_heap_push v row h") (simp_all add: x reader_push_all_def)
qed (simp add: reader_push_all_def)

lemma seed_flat_heaps_eq:
  "\<exists>hs. seed_flat_heaps (replicate nq (reader_heap_new k)) seed_ids seed_distances k = Inr hs \<and> length hs = nq
    \<and> (\<forall>qi < nq. heap_holds k (seed_offers seed_ids seed_distances k qi) (hs ! qi))"
proof -
  have "\<forall>qi. \<exists>h. reader_push_all (seed_offers seed_ids seed_distances k qi) (reader_heap_new k) = Inr h
      \<and> heap_holds k (seed_offers seed_ids seed_distances k qi) h"
    using reader_push_all_of[of "reader_heap_new k" "[]"] heap_holds_new[of k] by (fastforce simp: heap_holds_def)
  then obtain h where h: "\<And>qi. reader_push_all (seed_offers seed_ids seed_distances k qi) (reader_heap_new k) = Inr (h qi)"
    "\<And>qi. heap_holds k (seed_offers seed_ids seed_distances k qi) (h qi)" by metis
  have en: "enumerate 0 (replicate nq x) = map (\<lambda>qi. (qi, x)) [0..<nq]" for x :: ReaderTopKHeap
    by (rule nth_equalityI) (simp_all add: nth_enumerate_eq)
  have "seed_flat_heaps (replicate nq (reader_heap_new k)) seed_ids seed_distances k
      = Inr (map (\<lambda>(qi, _). h qi) (map (\<lambda>qi. (qi, reader_heap_new k)) [0..<nq]))"
    unfolding seed_flat_heaps_def en by (rule map_res_Inr_map) (auto simp: Let_def seed_fold h(1)[unfolded seed_offers_def])
  then show ?thesis using h(2) by simp
qed

section \<open>The result arrays\<close>

lemma write_row_append:
  assumes "length A = base" "length row \<le> k"
  shows "write_row base row (A @ replicate (k + m) x) = Inr (A @ resize k x row @ replicate m x)"
proof -
  have "drop (length row) (replicate (k + m) x) = replicate (k - length row) x @ replicate m x"
    using assms(2) by (simp flip: replicate_add)
  then show ?thesis using assms by (auto simp: write_row_def resize_def replicate_add)
qed

lemma write_heaps:
  assumes "\<And>h. h \<in> set hs \<Longrightarrow> length (reader_heap_into_sorted h) \<le> k" "length A = i * k" "length A' = i * k"
  shows "fold_res (write_heap_rows k) (enumerate i hs) (A @ replicate (length hs * k) (- 1), A' @ replicate (length hs * k) f32_MAX)
    = Inr (A @ concat (map (\<lambda>h. resize k (- 1) (map snd (reader_heap_into_sorted h))) hs),
           A' @ concat (map (\<lambda>h. resize k f32_MAX (map fst (reader_heap_into_sorted h))) hs))"
  using assms
proof (induction hs arbitrary: i A A')
  case (Cons h hs)
  let ?s = "reader_heap_into_sorted h"
  have len: "length ?s \<le> k" using Cons.prems(1) by simp
  have w: "write_heap_rows k (i, h) (A @ replicate (length (h # hs) * k) (- 1), A' @ replicate (length (h # hs) * k) f32_MAX)
      = Inr ((A @ resize k (- 1) (map snd ?s)) @ replicate (length hs * k) (- 1), (A' @ resize k f32_MAX (map fst ?s)) @ replicate (length hs * k) f32_MAX)"
    using write_row_append[OF Cons.prems(2), of "map snd ?s" k] write_row_append[OF Cons.prems(3), of "map fst ?s" k] len
    by (simp add: write_heap_rows_def Let_def)
  have "length (resize k x ys) = k" if "length ys \<le> k" for x :: 'a and ys using that by (simp add: resize_def)
  then show ?case using w Cons.IH[of "A @ resize k (- 1) (map snd ?s)" "Suc i" "A' @ resize k f32_MAX (map fst ?s)"] Cons.prems len
    by (simp add: resize_def)
qed simp

section \<open>The rows of a query\<close>

definition batch_queries :: "arch \<Rightarrow> MetricType \<Rightarrow> f32 list \<Rightarrow> nat \<Rightarrow> nat \<Rightarrow> f32 list" where
  "batch_queries t metric queries nq d =
     (if metric = Cosine then concat (map (\<lambda>qi. fst (fvec_normalize t (row_of d queries qi))) [0..<nq]) else queries)"

lemma batch_queries_rows:
  assumes "length queries = nq * d"
  shows "length (batch_queries t metric queries nq d) = nq * d"
    and "qi < nq \<Longrightarrow> row_of d (batch_queries t metric queries nq d) qi = search_query t metric (row_of d queries qi)"
proof -
  let ?rows = "map (\<lambda>qi. fst (fvec_normalize t (row_of d queries qi))) [0..<nq]"
  have len: "length x = d" if "x \<in> set ?rows" for x
    using that length_row_of[OF assms] by (auto simp: fvec_normalize_def Let_def)
  then show "length (batch_queries t metric queries nq d) = nq * d"
    using assms length_concat_rows[of ?rows d] by (simp add: batch_queries_def)
  show "row_of d (batch_queries t metric queries nq d) qi = search_query t metric (row_of d queries qi)" if "qi < nq"
    using slice_concat_rows[of ?rows d qi, OF len] that by (simp add: batch_queries_def search_query_def row_of_def)
qed

lemma chosen_drop:
  assumes "chosen t q centroids nlist d n r"
  shows "distinct (drop a (fst r)) \<and> set (drop a (fst r)) \<subseteq> {..<nlist}"
  using assms by (auto simp: chosen_def list_all_iff dest: in_set_dropD)

lemma mset_concat_map: "mset xs = mset ys \<Longrightarrow> mset (concat (map f xs)) = mset (concat (map f ys))"
proof -
  assume "mset xs = mset ys"
  then have "mset (map (\<lambda>x. mset (f x)) xs) = mset (map (\<lambda>x. mset (f x)) ys)" by (metis mset_map)
  then have "sum_list (map (\<lambda>x. mset (f x)) xs) = sum_list (map (\<lambda>x. mset (f x)) ys)" by (metis sum_mset_sum_list)
  then show ?thesis by (simp add: mset_concat comp_def)
qed

lemma fanned_rows:
  assumes "list_all (\<lambda>ps. distinct ps \<and> set ps \<subseteq> {..<nlist}) pls" "unique_ok (map (probing pls) [0..<nlist]) uniq" "qi < length pls"
  shows "mset (rows_for (map (probing pls) [0..<nlist]) qi (concat (map (list_items d ls) uniq))) = mset (concat (map (list_items d ls) (pls ! qi)))"
proof -
  let ?ltq = "map (probing pls) [0..<nlist]"
  have uniq: "distinct uniq" "set uniq \<subseteq> {..<nlist}" using assms(2) by (auto simp: unique_ok_def)
  have "rows_for ?ltq qi (concat (map (list_items d ls) xs)) = concat (map (list_items d ls) (filter (\<lambda>l. qi \<in> set (?ltq ! l)) xs))" for xs
    by (induction xs) (simp_all add: rows_for_items)
  moreover have "set (filter (\<lambda>l. qi \<in> set (?ltq ! l)) uniq) = set (pls ! qi)"
  proof -
    have "l \<in> set uniq \<and> qi \<in> set (?ltq ! l) \<longleftrightarrow> l \<in> set (pls ! qi)" for l
    proof (cases "l < nlist")
      case True
      have "l \<in> set uniq" if "qi \<in> set (probing pls l)"
        using True that assms(2) by (cases "probing pls l") (simp_all add: unique_ok_def)
      then show ?thesis using True assms(3) by auto
    next
      case False
      then show ?thesis using uniq(2) assms(1,3) by (auto simp: list_all_length)
    qed
    then show ?thesis by auto
  qed
  then have "mset (filter (\<lambda>l. qi \<in> set (?ltq ! l)) uniq) = mset (pls ! qi)"
    using uniq(1) assms(1,3) by (simp add: set_eq_iff_mset_eq_distinct[symmetric] list_all_length del: mset_filter)
  from mset_concat_map[OF this] calculation show ?thesis by simp
qed

section \<open>The whole search\<close>

definition batch_offers ::
  "arch \<Rightarrow> f32 list \<Rightarrow> nat \<Rightarrow> MetricType \<Rightarrow> row_filter \<Rightarrow> (i64 list \<times> f32 list) list \<Rightarrow> nat list \<Rightarrow> (f32 \<times> i64) list" where
  "batch_offers t q d metric row_filter ls ps = item_offers t q metric row_filter (concat (map (list_items d ls) ps))"

definition heap_rows :: "nat \<Rightarrow> ReaderTopKHeap list \<Rightarrow> i64 list \<times> f32 list" where
  "heap_rows k hs = (concat (map (\<lambda>h. resize k (- 1) (map snd (reader_heap_into_sorted h))) hs),
     concat (map (\<lambda>h. resize k f32_MAX (map fst (reader_heap_into_sorted h))) hs))"

lemma heap_holds_length: "heap_holds k offers h \<Longrightarrow> length (reader_heap_into_sorted h) \<le> k"
  using heap_of_sorted(2)[of k offers h] by (metis heap_holds_def length_map length_take min.cobounded2)

definition batch_shape :: "nat \<Rightarrow> nat \<Rightarrow> nat \<Rightarrow> nat \<Rightarrow> i64 list \<Rightarrow> f32 list \<Rightarrow> bool" where
  "batch_shape nq k probe_start probe_end seed_ids seed_distances \<longleftrightarrow>
     0 < nq \<and> 0 < k \<and> nq * k < 2 ^ 64 \<and> probe_start < probe_end
   \<and> (seed_ids = [] \<and> seed_distances = [] \<or> length seed_ids = nq * k \<and> length seed_distances = nq * k)"

lemma batch_search_loop:
  assumes h: "holds r ls" and d: "0 < fr_d r" "length (file_bytes (fr_reader r)) < 2 ^ 63"
    and q: "length processed = nq * fr_d r" "fr_metric r = L2 \<longrightarrow> (\<forall>qi < nq. finite_vec (row_of (fr_d r) processed qi))"
    and ok: "list_all (\<lambda>l. vector_ok (fr_metric r) (snd l)) ls" "lists_streamable (fr_d r) ls"
    and pls: "length pls = nq" "list_all (\<lambda>ps. distinct ps \<and> set ps \<subseteq> {..<length ls}) pls"
    and fan: "fan_out (length ls) pls = Inr (map (probing pls) [0..<length ls], uniq)" "unique_ok (map (probing pls) [0..<length ls]) uniq"
    and hs0: "length hs0 = nq" "\<And>qi. qi < nq \<Longrightarrow> heap_holds k (seed qi) (hs0 ! qi)"
  shows "\<exists>hs rd. flat_list_loop big (\<lambda>_ _ heaps. Inr heaps)
      (flat_batch_chunk t processed (fr_d r) (fr_metric r) row_filter (map (probing pls) [0..<length ls]))
      (flat_batch_lists t processed k row_filter (map (probing pls) [0..<length ls])) uniq r hs0 = Inr (hs, r\<lparr>fr_reader := rd\<rparr>)
    \<and> same_file (fr_reader r) rd \<and> length hs = nq
    \<and> (\<forall>qi < nq. heap_holds k (seed qi @ batch_offers t (row_of (fr_d r) processed qi) (fr_d r) (fr_metric r) row_filter ls (pls ! qi)) (hs ! qi))"
proof -
  let ?d = "fr_d r" and ?m = "fr_metric r" and ?ltq = "map (probing pls) [0..<length ls]"
  have u: "set uniq \<subseteq> {..<length ls}" using fan(2) by (auto simp: unique_ok_def)
  have okl: "list_all (\<lambda>l. l < length ls \<and> fan_ok processed nq ?d ?ltq l) uniq"
    using u q(1) pls(1) by (auto simp: list_all_iff fan_ok_def)
  have vec: "vector_ok ?m v" if "l < length ls" "(l', row, v) \<in> set (list_items ?d ls l)" for l l' row v
    using that ok(1) finite_vec_row_of by (auto simp: row_items_def list_all_length vector_ok_def)
  have que: "query_ok ?d ?m (row_of ?d processed qi)" if "qi < nq" for qi
    using that q(2) length_row_of[OF q(1) that] by (auto simp: query_ok_def)
  have sub: "set (?ltq ! l) \<subseteq> {..<nq}" if "l < length ls" for l using that pls(1) by auto
  have "batch_row_ok processed ?d ?m ?ltq item" if mem: "l \<in> set uniq" "item \<in> set (list_items ?d ls l)" for l item
  proof -
    obtain row v where item: "item = (l, row, v)" using mem(2) by (auto simp: row_items_def)
    have "l < length ls" using u mem(1) by auto
    then show ?thesis using vec mem(2) que sub unfolding item batch_row_ok_def by blast
  qed
  then have rows: "list_all (batch_row_ok processed ?d ?m ?ltq) (concat (map (list_items ?d ls) uniq))"
    unfolding list_all_iff by auto
  have st: "list_all (\<lambda>l. ivf_payload_is_oversized (length (list_bytes_of (ls ! l))) \<longrightarrow> streamable ?d (fst (ls ! l))) uniq"
    using ok(2) u by (auto simp: lists_streamable_def list_all_iff)
  have start: "batch_holds t processed nq ?d ?m row_filter ?ltq seed k [] hs0"
    using hs0 by (simp add: batch_holds_def batch_bucket_def)
  obtain hs rd where loop: "flat_list_loop big (\<lambda>_ _ heaps. Inr heaps) (flat_batch_chunk t processed ?d ?m row_filter ?ltq)
      (flat_batch_lists t processed k row_filter ?ltq) uniq r hs0 = Inr (hs, r\<lparr>fr_reader := rd\<rparr>)" "same_file (fr_reader r) rd"
    "batch_holds t processed nq ?d ?m row_filter ?ltq seed k ([] @ concat (map (list_items ?d ls) uniq)) hs"
    using batch_loop.loop_delivers[OF h refl refl d okl rows st start, of big] by blast
  have "heap_holds k (seed qi @ batch_offers t (row_of ?d processed qi) ?d ?m row_filter ls (pls ! qi)) (hs ! qi)" if "qi < nq" for qi
  proof -
    have "heap_holds k (seed qi @ item_offers t (row_of ?d processed qi) ?m row_filter (rows_for ?ltq qi (concat (map (list_items ?d ls) uniq)))) (hs ! qi)"
      using loop(3) that by (simp add: batch_holds_def batch_bucket_def)
    moreover have "mset (rows_for ?ltq qi (concat (map (list_items ?d ls) uniq))) = mset (concat (map (list_items ?d ls) (pls ! qi)))"
      using fanned_rows[OF pls(2) fan(2)] that pls(1) by blast
    from item_offers_mset[OF this] have "mset (seed qi @ item_offers t (row_of ?d processed qi) ?m row_filter (rows_for ?ltq qi (concat (map (list_items ?d ls) uniq))))
        = mset (seed qi @ batch_offers t (row_of ?d processed qi) ?d ?m row_filter ls (pls ! qi))" by (simp add: batch_offers_def)
    ultimately show ?thesis using heap_of_mset unfolding heap_holds_def by blast
  qed
  then show ?thesis using loop(1,2) loop(3)[unfolded batch_holds_def] by (intro exI[of _ hs] exI[of _ rd]) blast
qed

lemma normalized_queries:
  assumes "length queries = nq * d"
  shows "(if metric = Cosine
      then bind_res (map_res (\<lambda>qi. bind_res (query_slice queries d qi) (\<lambda>query. Inr (fst (fvec_normalize t query)))) [0..<nq])
        (\<lambda>rows. Inr (concat rows)) else Inr queries) = Inr (batch_queries t metric queries nq d)"
proof -
  have "map_res (\<lambda>qi. bind_res (query_slice queries d qi) (\<lambda>query. Inr (fst (fvec_normalize t query)))) [0..<nq]
      = Inr (map (\<lambda>qi. fst (fvec_normalize t (row_of d queries qi))) [0..<nq])"
    by (rule map_res_Inr_map) (simp add: query_slice_eq[OF assms])
  then show ?thesis by (simp add: batch_queries_def)
qed

lemma nearest_probes: "fst (nearest_of t q centroids nlist d n) = probes t q centroids nlist d n"
  by (simp add: nearest_of_def probes_def Let_def)

lemma batch_search_eq:
  assumes h: "holds r ls" and d: "0 < fr_d r" "length (file_bytes (fr_reader r)) < 2 ^ 63"
    and q: "length queries = nq * fr_d r" "nq * fr_d r < 2 ^ 64" "processed = batch_queries t (fr_metric r) queries nq (fr_d r)"
      "fr_metric r = L2 \<longrightarrow> (\<forall>qi < nq. finite_vec (row_of (fr_d r) processed qi))"
    and ok: "list_all (\<lambda>l. vector_ok (fr_metric r) (snd l)) ls" "lists_streamable (fr_d r) ls"
    and shape: "batch_shape nq k probe_start probe_end seed_ids seed_distances"
    and top: "find_topk_batch t sel gemm processed nq (fr_quantizer_centroids r) (length ls) (fr_d r) probe_end = Inr all_probes"
      "length all_probes = nq" "list_all (\<lambda>p. distinct (fst p) \<and> set (fst p) \<subseteq> {..<length ls}) all_probes"
  shows "\<exists>hs rd. search_batch_ivfflat_reader_filter_range big t sel gemm queries nq k probe_start probe_end seed_ids seed_distances row_filter r
      = Inr (heap_rows k hs, r\<lparr>fr_reader := rd\<rparr>) \<and> same_file (fr_reader r) rd \<and> length hs = nq
    \<and> (\<forall>qi < nq. heap_holds k (seed_offers seed_ids seed_distances k qi @ batch_offers t (row_of (fr_d r) processed qi) (fr_d r) (fr_metric r) row_filter ls
        (drop probe_start (fst (all_probes ! qi)))) (hs ! qi))"
proof -
  let ?d = "fr_d r" and ?m = "fr_metric r" and ?n = "length ls"
  define pls where "pls = map (\<lambda>(probe_indices, _). drop probe_start probe_indices) all_probes"
  have n: "fr_nlist r = ?n" "flat_ensure_loaded r = Inr r" using h by (simp_all add: holds_def flat_ensure_loaded_def)
  have len: "length processed = nq * ?d" using batch_queries_rows(1)[OF q(1)] q(3) by simp
  have pls: "length pls = nq" "list_all (\<lambda>ps. distinct ps \<and> set ps \<subseteq> {..<?n}) pls"
    using top(2,3) by (simp add: pls_def) (use top(3) in \<open>fastforce simp: pls_def list_all_iff dest: in_set_dropD\<close>)
  obtain uniq where fan: "fan_out ?n pls = Inr (map (probing pls) [0..<?n], uniq)" "unique_ok (map (probing pls) [0..<?n]) uniq"
    using fan_out_eq[OF pls(2)] by blast
  obtain hs0 where hs0: "seed_flat_heaps (replicate nq (reader_heap_new k)) seed_ids seed_distances k = Inr hs0" "length hs0 = nq"
    "\<And>qi. qi < nq \<Longrightarrow> heap_holds k (seed_offers seed_ids seed_distances k qi) (hs0 ! qi)" using seed_flat_heaps_eq by blast
  obtain hs rd where loop: "flat_list_loop big (\<lambda>_ _ heaps. Inr heaps) (flat_batch_chunk t processed ?d ?m row_filter (map (probing pls) [0..<?n]))
      (flat_batch_lists t processed k row_filter (map (probing pls) [0..<?n])) uniq r hs0 = Inr (hs, r\<lparr>fr_reader := rd\<rparr>)"
    "same_file (fr_reader r) rd" "length hs = nq"
    "\<And>qi. qi < nq \<Longrightarrow> heap_holds k (seed_offers seed_ids seed_distances k qi @ batch_offers t (row_of ?d processed qi) ?d ?m row_filter ls (pls ! qi)) (hs ! qi)"
    using batch_search_loop[OF h d len q(4) ok pls fan hs0(2,3), of big t row_filter] by blast
  have short: "length (reader_heap_into_sorted x) \<le> k" if "x \<in> set hs" for x
    using that loop(3,4) heap_holds_length by (metis in_set_conv_nth)
  have wr: "fold_res (write_heap_rows k) (enumerate 0 hs) (replicate (nq * k) (- 1), replicate (nq * k) f32_MAX) = Inr (heap_rows k hs)"
    using write_heaps[OF short, of hs "[]" 0 "[]"] loop(3) by (simp add: heap_rows_def)
  have valid: "validate_batch_seed seed_ids seed_distances nq k = Inr ()"
    using shape by (auto simp: validate_batch_seed_def batch_shape_def checked_mul_def)
  have cm: "checked_mul nq ?d = Some (nq * ?d)" using q(2) by (simp add: checked_mul_def)
  have "search_batch_ivfflat_reader_filter_range big t sel gemm queries nq k probe_start probe_end seed_ids seed_distances row_filter r
      = Inr (heap_rows k hs, r\<lparr>fr_reader := rd\<rparr>)"
    using shape q(1) unfolding search_batch_ivfflat_reader_filter_range_def n bind_res_Inr Let_def cm ok_or_simps normalized_queries[OF q(1)] q(3)[symmetric]
      valid top(1) pls_def[symmetric] fan(1) hs0(1) prod.case loop(1) wr by (simp add: batch_shape_def)
  moreover have "pls ! qi = drop probe_start (fst (all_probes ! qi))" if "qi < nq" for qi using that top(2) by (simp add: pls_def split_beta)
  ultimately show ?thesis using loop(2-4) by (intro exI[of _ hs] exI[of _ rd]) auto
qed

section \<open>A written index searched in batches\<close>

text \<open>What a batch needs: the sizes fit, under L2 the queries and the stored vectors are finite, and a list too
  large to be read at once can be streamed.\<close>

definition batch_ready :: "IVFFlatIndex \<Rightarrow> f32 list \<Rightarrow> nat \<Rightarrow> bool" where
  "batch_ready index queries nq \<longleftrightarrow>
     length queries = nq * fi_d index \<and> nq * fi_d index < 2 ^ 64 \<and> fi_nlist index * fi_d index < 2 ^ 64 \<and> fi_d index \<le> I64_MAX
   \<and> (fi_metric index = L2 \<longrightarrow> finite_vec queries) \<and> index_finite index \<and> lists_streamable (fi_d index) (stored_lists index)"

text \<open>A reader of the file of an index, its table loaded.\<close>

definition reads_index :: "IVFFlatIndexReader \<Rightarrow> IVFFlatIndex \<Rightarrow> bool" where
  "reads_index r index \<longleftrightarrow> writable index \<and> holds r (stored_lists index) \<and> fr_d r = fi_d index \<and> fr_metric r = fi_metric index
     \<and> fr_quantizer_centroids r = fi_quantizer_centroids index \<and> length (file_bytes (fr_reader r)) < 2 ^ 63"

lemma reads_index_reader:
  assumes "reads_index r index" "same_file (fr_reader r) rd"
  shows "reads_index (r\<lparr>fr_reader := rd\<rparr>) index"
  using assms holds_same_file[OF _ assms(2)] by (auto simp: reads_index_def same_file_def)

lemma written_reads:
  assumes "write_ivfflat_index index [] = Inr bs" "file_bytes rd = bs" "length bs < 2 ^ 63"
  shows "\<exists>r r'. flat_open rd = Inr r \<and> flat_ensure_loaded r = Inr r' \<and> reads_index r' index"
proof -
  have wr: "writable index" "bs = file_of index" using assms(1) by (simp_all add: write_ivfflat_index_iff)
  then show ?thesis using open_load_holds[OF wr(1), of rd] assms(2,3) by (fastforce simp: reads_index_def)
qed

lemma stored_vectors_ok:
  assumes "writable index" "index_finite index"
  shows "list_all (\<lambda>l. vector_ok (fi_metric index) (snd l)) (stored_lists index)"
proof -
  have "vector_ok (fi_metric index) (snd (stored_lists index ! l))" if "l < fi_nlist index" for l
    using that assms finite_stored_vectors[of "fi_vectors index ! l" "fi_ids index ! l" "fi_d index"]
    by (simp add: vector_ok_def stored_lists_nth index_finite_def list_all_length writable_def)
  then show ?thesis using length_stored_lists[OF assms(1)] by (simp add: list_all_length)
qed

definition query_row :: "arch \<Rightarrow> IVFFlatIndex \<Rightarrow> f32 list \<Rightarrow> nat \<Rightarrow> f32 list" where
  "query_row t index queries qi = search_query t (fi_metric index) (row_of (fi_d index) queries qi)"

text \<open>The ranking of the lists that a batched search runs, and the rows of some lists as they are offered to a
  query.\<close>

definition index_ranking ::
  "arch \<Rightarrow> selector \<Rightarrow> gemm \<Rightarrow> IVFFlatIndex \<Rightarrow> f32 list \<Rightarrow> nat \<Rightarrow> nat \<Rightarrow> (nat list \<times> f32 list) list res" where
  "index_ranking t sel gemm index queries nq n =
     find_topk_batch t sel gemm (batch_queries t (fi_metric index) queries nq (fi_d index)) nq
       (fi_quantizer_centroids index) (fi_nlist index) (fi_d index) n"

definition ranking_choice :: "arch \<Rightarrow> IVFFlatIndex \<Rightarrow> f32 list \<Rightarrow> nat \<Rightarrow> nat \<Rightarrow> nat \<Rightarrow> nat list \<times> f32 list \<Rightarrow> bool" where
  "ranking_choice t index queries nq n qi r \<longleftrightarrow>
     (let q = query_row t index queries qi; centroids = fi_quantizer_centroids index in
      chosen t q centroids (fi_nlist index) (fi_d index) n r
      \<and> (nq = 1 \<or> fi_nlist index \<le> n \<longrightarrow> r = nearest_of t q centroids (fi_nlist index) (fi_d index) n))"

definition probed_offers :: "arch \<Rightarrow> row_filter \<Rightarrow> IVFFlatIndex \<Rightarrow> f32 list \<Rightarrow> nat list \<Rightarrow> (f32 \<times> i64) list" where
  "probed_offers t row_filter index q ls = concat (map (list_offers t q row_filter index) ls)"

lemma index_ranks:
  assumes "writable index" "batch_ready index queries nq" "selects sel" "gemm_fills gemm"
  shows "\<exists>ranking. index_ranking t sel gemm index queries nq n = Inr ranking \<and> length ranking = nq
    \<and> (\<forall>qi < nq. ranking_choice t index queries nq n qi (ranking ! qi))"
proof -
  let ?d = "fi_d index" and ?P = "batch_queries t (fi_metric index) queries nq (fi_d index)"
  have w: "0 < ?d" "length (fi_quantizer_centroids index) = fi_nlist index * ?d" using assms(1) by (auto simp: writable_def)
  have B: "length queries = nq * ?d" "nq * ?d < 2 ^ 64" "fi_nlist index * ?d < 2 ^ 64" "?d \<le> I64_MAX" using assms(2) by (auto simp: batch_ready_def)
  obtain ranking where R: "index_ranking t sel gemm index queries nq n = Inr ranking"
    "list_all2 (batch_choice t ?P nq (fi_quantizer_centroids index) (fi_nlist index) ?d n) [0..<nq] ranking"
    using batch_chooses[OF assms(3) batch_queries_rows(1)[OF B(1)] w(2,1) B(4,2,3) assms(4)] unfolding index_ranking_def by blast
  have "ranking_choice t index queries nq n qi (ranking ! qi)" if "qi < nq" for qi
    using batch_chooses_nth(2)[OF R(2) that] batch_queries_rows(2)[OF B(1) that] by (simp add: batch_choice_def ranking_choice_def query_row_def Let_def)
  then show ?thesis using R(1) batch_chooses_nth(1)[OF R(2)] by blast
qed

lemma ranking_lists:
  assumes "length ranking = nq" "\<forall>qi < nq. ranking_choice t index queries nq n qi (ranking ! qi)"
  shows "list_all (\<lambda>p. distinct (fst p) \<and> set (fst p) \<subseteq> {..<fi_nlist index}) ranking"
    and "qi < nq \<Longrightarrow> \<forall>l \<in> set (drop a (fst (ranking ! qi))). l < fi_nlist index"
proof -
  have "distinct (drop a (fst (ranking ! qi))) \<and> set (drop a (fst (ranking ! qi))) \<subseteq> {..<fi_nlist index}" if "qi < nq" for qi a
    using assms(2) that chosen_drop unfolding ranking_choice_def Let_def by blast
  from this[of _ 0] this show "list_all (\<lambda>p. distinct (fst p) \<and> set (fst p) \<subseteq> {..<fi_nlist index}) ranking"
    "qi < nq \<Longrightarrow> \<forall>l \<in> set (drop a (fst (ranking ! qi))). l < fi_nlist index"
    using assms(1) by (simp_all add: list_all_length subset_iff)
qed

lemma index_batch:
  assumes r: "reads_index r index" and ready: "batch_ready index queries nq"
    and shape: "batch_shape nq k probe_start probe_end seed_ids seed_distances"
    and top: "index_ranking t sel gemm index queries nq probe_end = Inr ranking" "length ranking = nq"
      "\<forall>qi < nq. ranking_choice t index queries nq probe_end qi (ranking ! qi)"
  shows "\<exists>hs rd. search_batch_ivfflat_reader_filter_range big t sel gemm queries nq k probe_start probe_end seed_ids seed_distances row_filter r
      = Inr (heap_rows k hs, r\<lparr>fr_reader := rd\<rparr>) \<and> reads_index (r\<lparr>fr_reader := rd\<rparr>) index \<and> length hs = nq
    \<and> (\<forall>qi < nq. heap_holds k (seed_offers seed_ids seed_distances k qi
        @ probed_offers t row_filter index (query_row t index queries qi) (drop probe_start (fst (ranking ! qi)))) (hs ! qi))"
proof -
  let ?d = "fi_d index" and ?m = "fi_metric index" and ?P = "batch_queries t (fi_metric index) queries nq (fi_d index)"
  have R: "writable index" "holds r (stored_lists index)" "fr_d r = ?d" "fr_metric r = ?m"
    "fr_quantizer_centroids r = fi_quantizer_centroids index" "length (file_bytes (fr_reader r)) < 2 ^ 63" using r by (auto simp: reads_index_def)
  have n: "length (stored_lists index) = fi_nlist index" by (rule length_stored_lists[OF R(1)])
  have w: "0 < ?d" using R(1) by (auto simp: writable_def)
  have B: "length queries = nq * ?d" "nq * ?d < 2 ^ 64" "?m = L2 \<longrightarrow> finite_vec queries"
    "index_finite index" "lists_streamable ?d (stored_lists index)" using ready by (auto simp: batch_ready_def)
  have rows: "row_of ?d ?P qi = query_row t index queries qi" if "qi < nq" for qi
    using batch_queries_rows(2)[OF B(1) that] by (simp add: query_row_def)
  have fin: "?m = L2 \<longrightarrow> (\<forall>qi < nq. finite_vec (row_of ?d ?P qi))"
    using B(3) finite_vec_row_of by (auto simp: batch_queries_def)
  obtain hs rd where H: "search_batch_ivfflat_reader_filter_range big t sel gemm queries nq k probe_start probe_end seed_ids seed_distances row_filter r
      = Inr (heap_rows k hs, r\<lparr>fr_reader := rd\<rparr>)" "same_file (fr_reader r) rd" "length hs = nq"
    "\<And>qi. qi < nq \<Longrightarrow> heap_holds k (seed_offers seed_ids seed_distances k qi @ batch_offers t (row_of ?d ?P qi) ?d ?m row_filter (stored_lists index)
        (drop probe_start (fst (ranking ! qi)))) (hs ! qi)"
    using batch_search_eq[OF R(2), unfolded R n, OF w R(6) B(1,2) refl fin stored_vectors_ok[OF R(1) B(4)] B(5) shape
        top(1)[unfolded index_ranking_def] top(2) ranking_lists(1)[OF top(2,3)], of big row_filter] by blast
  have "heap_holds k (seed_offers seed_ids seed_distances k qi @ probed_offers t row_filter index (query_row t index queries qi) (drop probe_start (fst (ranking ! qi)))) (hs ! qi)"
    if "qi < nq" for qi
  proof -
    let ?q = "query_row t index queries qi" and ?w = "drop probe_start (fst (ranking ! qi))"
    from stored_offers_mset[OF R(1) ranking_lists(2)[OF top(2,3) that], of t ?q row_filter]
    have "mset (seed_offers seed_ids seed_distances k qi @ batch_offers t ?q ?d ?m row_filter (stored_lists index) ?w)
        = mset (seed_offers seed_ids seed_distances k qi @ probed_offers t row_filter index ?q ?w)"
      by (simp add: batch_offers_def probed_offers_def)
    then show ?thesis using H(4)[OF that] heap_of_mset unfolding rows[OF that] heap_holds_def by blast
  qed
  then show ?thesis using H(1,3) reads_index_reader[OF r H(2)] by blast
qed

lemma search_after_load:
  assumes "flat_ensure_loaded r = Inr r'" "flat_ensure_loaded r' = Inr r'"
  shows "search_batch_ivfflat_reader_filter_range big t sel gemm queries nq k a b si sd row_filter r
    = search_batch_ivfflat_reader_filter_range big t sel gemm queries nq k a b si sd row_filter r'"
  using assms by (simp add: search_batch_ivfflat_reader_filter_range_def)

lemma reads_loaded: "reads_index r index \<Longrightarrow> flat_ensure_loaded r = Inr r"
  by (simp add: reads_index_def holds_def flat_ensure_loaded_def)

lemma heap_rows_row:
  assumes "\<forall>h \<in> set hs. length (reader_heap_into_sorted h) \<le> k"
  shows "length (fst (heap_rows k hs)) = length hs * k" "length (snd (heap_rows k hs)) = length hs * k"
    and "qi < length hs \<Longrightarrow> row_of k (fst (heap_rows k hs)) qi = resize k (- 1) (map snd (reader_heap_into_sorted (hs ! qi)))"
    and "qi < length hs \<Longrightarrow> row_of k (snd (heap_rows k hs)) qi = resize k f32_MAX (map fst (reader_heap_into_sorted (hs ! qi)))"
proof -
  let ?ids = "map (\<lambda>h. resize k (- 1) (map snd (reader_heap_into_sorted h))) hs" and ?ds = "map (\<lambda>h. resize k f32_MAX (map fst (reader_heap_into_sorted h))) hs"
  have I: "length x = k" if "x \<in> set ?ids" for x using that assms by (auto simp: resize_def)
  have D: "length x = k" if "x \<in> set ?ds" for x using that assms by (auto simp: resize_def)
  show "length (fst (heap_rows k hs)) = length hs * k" "length (snd (heap_rows k hs)) = length hs * k"
    using length_concat_rows[of ?ids k, OF I] length_concat_rows[of ?ds k, OF D] by (simp_all add: heap_rows_def)
  show "row_of k (fst (heap_rows k hs)) qi = resize k (- 1) (map snd (reader_heap_into_sorted (hs ! qi)))"
    "row_of k (snd (heap_rows k hs)) qi = resize k f32_MAX (map fst (reader_heap_into_sorted (hs ! qi)))" if "qi < length hs"
    using slice_concat_rows[of ?ids k qi, OF I] slice_concat_rows[of ?ds k qi, OF D] that by (simp_all add: heap_rows_def row_of_def)
qed

section \<open>The search in memory\<close>

lemma preprocess_queries:
  assumes "length queries = nq * fi_d index" "0 < fi_d index"
  shows "flat_preprocess_vectors t queries nq index = Inr (batch_queries t (fi_metric index) queries nq (fi_d index))"
proof -
  have "subslice 0 (nq * fi_d index) queries = Inr queries" using assms(1) by (simp add: subslice_def slice_def)
  then show ?thesis using assms(2) chunks_exact_rows[OF assms(2,1)]
    by (simp add: flat_preprocess_vectors_def preprocess_vectors_def batch_queries_def comp_def)
qed

lemma write_row_next:
  assumes "length A = base" "length row \<le> length B"
  shows "write_row base row (A @ B) = Inr (A @ row @ drop (length row) B)"
  using assms by (auto simp: write_row_def)

text \<open>Rows of k entries written one after the other.\<close>

lemma write_rows:
  assumes "\<And>qi. qi < n \<Longrightarrow> length (D qi) = k \<and> length (L qi) = k" "n * k \<le> length ds" "n * k \<le> length ls"
  shows "fold_res (\<lambda>qi (result_distances, result_labels).
      bind_res (write_row (qi * k) (D qi) result_distances) (\<lambda>distances.
      bind_res (write_row (qi * k) (L qi) result_labels) (\<lambda>labels. Inr (distances, labels)))) [0..<n] (ds, ls)
    = Inr (concat (map D [0..<n]) @ drop (n * k) ds, concat (map L [0..<n]) @ drop (n * k) ls)"
  using assms
proof (induction n)
  case (Suc n)
  have len: "length (concat (map D [0..<n])) = n * k" "length (concat (map L [0..<n])) = n * k"
    by (subst length_concat_rows[where d = k]; use Suc.prems(1) in auto)+
  have k: "length (D n) = k" "length (L n) = k" using Suc.prems(1) by auto
  have "k \<le> length (drop (n * k) ds)" "k \<le> length (drop (n * k) ls)" using Suc.prems(2,3) by simp_all
  note w = write_row_next[OF len(1), of "D n", unfolded k, OF this(1)] write_row_next[OF len(2), of "L n", unfolded k, OF this(2)]
  show ?case using Suc w by (simp add: fold_res_append add.commute)
qed simp

definition memory_rows :: "arch \<Rightarrow> row_filter \<Rightarrow> IVFFlatIndex \<Rightarrow> f32 list \<Rightarrow> nat \<Rightarrow> (nat list \<times> f32 list) list \<Rightarrow> nat \<Rightarrow> (f32 \<times> i64) list" where
  "memory_rows t row_filter index queries k ranking qi =
     flat_heap_into_sorted (flat_push_all (probed_offers t row_filter index (query_row t index queries qi) (fst (ranking ! qi))) (flat_heap_new k))"

lemma memory_rows_distances:
  assumes "heap_holds k (probed_offers t row_filter index (query_row t index queries qi) (fst (ranking ! qi))) h"
  shows "map fst (memory_rows t row_filter index queries k ranking qi) = map fst (reader_heap_into_sorted h)"
    "length (memory_rows t row_filter index queries k ranking qi) \<le> k"
proof -
  let ?offers = "probed_offers t row_filter index (query_row t index queries qi) (fst (ranking ! qi))"
  have "heap_of k ?offers (fh_data (flat_push_all ?offers (flat_heap_new k)))"
    using flat_push_all_of[of k "[]" "[]" ?offers] by (simp add: flat_heap_new_def)
  then show eq: "map fst (memory_rows t row_filter index queries k ranking qi) = map fst (reader_heap_into_sorted h)"
    using heap_of_sorted_data(2) heap_of_sorted(2)[of k ?offers h] assms by (simp add: memory_rows_def flat_heap_into_sorted_def heap_holds_def)
  show "length (memory_rows t row_filter index queries k ranking qi) \<le> k"
    using heap_holds_length[OF assms] arg_cong[where f = length, OF eq] by simp
qed

lemma memory_search:
  assumes w: "writable index" and ready: "batch_ready index queries nq"
    and top: "index_ranking t sel gemm index queries nq nprobe = Inr ranking" "length ranking = nq"
      "\<forall>qi < nq. ranking_choice t index queries nq nprobe qi (ranking ! qi)"
    and short: "\<And>qi. qi < nq \<Longrightarrow> length (memory_rows t row_filter index queries k ranking qi) \<le> k"
    and out: "length ds = nq * k" "length ls = nq * k"
  shows "flat_search_with_filter t sel gemm queries nq k nprobe row_filter index (ds, ls)
    = Inr (concat (map (\<lambda>qi. resize k f32_MAX (map fst (memory_rows t row_filter index queries k ranking qi))) [0..<nq]),
           concat (map (\<lambda>qi. resize k (- 1) (map snd (memory_rows t row_filter index queries k ranking qi))) [0..<nq]))"
proof -
  let ?d = "fi_d index" and ?P = "batch_queries t (fi_metric index) queries nq (fi_d index)" and ?M = "memory_rows t row_filter index queries k ranking"
  have B: "length queries = nq * ?d" "0 < ?d" "flat_index_inv index" using ready w by (auto simp: batch_ready_def writable_def flat_index_inv_def)
  have q: "subslice (qi * ?d) ((qi + 1) * ?d) ?P = Inr (query_row t index queries qi)" if "qi < nq" for qi
    using subslice_row_of[OF batch_queries_rows(1)[OF B(1)] that, of t "fi_metric index"] batch_queries_rows(2)[OF B(1) that] by (simp add: query_row_def)
  have p: "idx ranking qi = Inr (ranking ! qi)" if "qi < nq" for qi using that top(2) by (simp add: idx_def)
  have s: "flat_search_query t (query_row t index queries qi) k (fst (ranking ! qi)) row_filter index = Inr (?M qi)" if "qi < nq" for qi
  proof -
    have "length (query_row t index queries qi) = ?d" using length_row_of[OF B(1) that] by (simp add: query_row_def)
    from flat_search_query_eq[OF B(3) this ranking_lists(2)[OF top(2,3) that, of 0, unfolded drop_0]]
    show ?thesis by (simp add: memory_rows_def probed_offers_def)
  qed
  have len: "length (resize k f32_MAX (map fst (?M qi))) = k \<and> length (resize k (- 1) (map snd (?M qi))) = k" if "qi < nq" for qi
    using short[OF that] by (simp add: resize_def)
  have "fold_res (\<lambda>qi (result_distances, result_labels).
         bind_res (subslice (qi * ?d) ((qi + 1) * ?d) ?P) (\<lambda>query. bind_res (idx ranking qi) (\<lambda>probe.
         bind_res (flat_search_query t query k (fst probe) row_filter index) (\<lambda>sorted.
         bind_res (write_row (qi * k) (resize k f32_MAX (map fst sorted)) result_distances) (\<lambda>distances.
         bind_res (write_row (qi * k) (resize k (- 1) (map snd sorted)) result_labels) (\<lambda>labels.
           Inr (distances, labels))))))) [0..<nq] (ds, ls)
    = fold_res (\<lambda>qi (result_distances, result_labels).
         bind_res (write_row (qi * k) (resize k f32_MAX (map fst (?M qi))) result_distances) (\<lambda>distances.
         bind_res (write_row (qi * k) (resize k (- 1) (map snd (?M qi))) result_labels) (\<lambda>labels. Inr (distances, labels)))) [0..<nq] (ds, ls)"
    by (rule fold_res_ext) (auto simp: q[unfolded Suc_eq_plus1[symmetric], simplified] p s split: prod.split)
  then show ?thesis unfolding flat_search_with_filter_def preprocess_queries[OF B(1,2)] bind_res_Inr top(1)[unfolded index_ranking_def]
    using write_rows[where ds = ds and ls = ls, OF len] out by simp
qed

section \<open>An index of two lists\<close>

definition pair_index :: IVFFlatIndex where
  "pair_index = \<lparr>fi_d = 1, fi_nlist = 2, fi_metric = L2, fi_quantizer_centroids = [f32_zero, f32_one], fi_ids = [[5], [7]],
     fi_vectors = [[f32_zero], [f32_one]]\<rparr>"

definition pair_reader :: seek_reader where
  "pair_reader = \<lparr>file_bytes = file_of pair_index, capabilities = \<lparr>estimated_random_read_latency_nanos = 0,
     preferred_window_bytes = 0, max_ranges_per_pread = 0\<rparr>, preads = []\<rparr>"

lemma pair_lists: "stored_lists pair_index = [([5], [f32_zero]), ([7], [f32_one])]"
proof -
  have "stored_order [row] = [0]" for row :: i64 by (simp add: stored_order_def)
  then show ?thesis by (simp add: stored_lists_def pair_index_def stored_ids_def stored_vectors_def row_of_def slice_def)
qed

lemma pair_ids: "length (id_bytes_of [row]) = 1"
  by (simp add: id_bytes_of_def encode_delta_varint_ids_def write_u64_varint.simps)

lemma pair_list_bytes: "length (list_bytes_of ([row], [v])) = 17"
  by (simp add: length_list_bytes pair_ids)

lemma pair_writable: "writable pair_index"
proof -
  have "table_fits (data_start pair_index) (stored_lists pair_index)"
    unfolding pair_lists by (simp add: data_start_def pair_index_def pair_list_bytes pair_ids)
  then show ?thesis by (simp add: writable_def) (auto simp: pair_index_def index_size_def MAX_SECTION_ELEMENTS_def less_2_cases_iff)
qed

lemma pair_facts:
  "write_ivfflat_index pair_index [] = Inr (file_of pair_index)" "file_bytes pair_reader = file_of pair_index"
  "length (file_of pair_index) < 2 ^ 63" "batch_ready pair_index [f32_one, f32_one] 2" "batch_ready pair_index [f32_one] 1"
proof -
  have "length (file_of pair_index) < 1000"
    unfolding file_of_def pair_lists by (simp add: pair_list_bytes) (simp add: pair_index_def)
  then show "length (file_of pair_index) < 2 ^ 63" by simp
  have "lists_streamable (fi_d pair_index) (stored_lists pair_index)" unfolding pair_lists lists_streamable_def
    by (simp add: pair_list_bytes ivf_payload_is_oversized_def MAX_IVF_BATCH_READ_BYTES_def)
  then show "batch_ready pair_index [f32_one, f32_one] 2" "batch_ready pair_index [f32_one] 1"
    by (simp_all add: batch_ready_def) (simp_all add: pair_index_def index_finite_def finite_vec_def)
qed (simp_all add: write_ivfflat_index_iff pair_writable pair_reader_def)

lemma pair_row: "qi < 2 \<Longrightarrow> query_row t pair_index [f32_one, f32_one] qi = [f32_one]"
  using less_2_cases[of qi] by (auto simp: query_row_def pair_index_def row_of_def slice_def search_query_def)

lemma pair_fields: "fi_d pair_index = 1" "fi_nlist pair_index = 2" "fi_quantizer_centroids pair_index = [f32_zero, f32_one]"
  by (simp_all add: pair_index_def)

lemma pair_ranking:
  "index_ranking OtherArch (\<lambda>n. sort) product_of_columns pair_index [f32_one, f32_one] 2 1 = Inr [([1], [f32_zero]), ([1], [f32_zero])]"
  "index_ranking OtherArch (\<lambda>n. sort) product_of_columns pair_index [f32_one, f32_one] 2 2
    = Inr [([1, 0], [f32_zero, f32_one]), ([1, 0], [f32_zero, f32_one])]"
proof -
  show "index_ranking OtherArch (\<lambda>n. sort) product_of_columns pair_index [f32_one, f32_one] 2 1 = Inr [([1], [f32_zero]), ([1], [f32_zero])]"
    using unit_batch[OF selects_sort] by (simp add: index_ranking_def pair_index_def batch_queries_def)
  obtain ranking where R: "index_ranking OtherArch (\<lambda>n. sort) product_of_columns pair_index [f32_one, f32_one] 2 2 = Inr ranking" "length ranking = 2"
    "\<forall>qi < 2. ranking_choice OtherArch pair_index [f32_one, f32_one] 2 2 qi (ranking ! qi)"
    using index_ranks[OF pair_writable pair_facts(4) selects_sort product_fills] by blast
  have "ranking ! qi = ([1, 0], [f32_zero, f32_one])" if "qi < 2" for qi
    using R(3) that pair_row[OF that] by (simp add: ranking_choice_def nearest_of_def Let_def pair_fields)
  then have "ranking = [([1, 0], [f32_zero, f32_one]), ([1, 0], [f32_zero, f32_one])]"
    using R(2) by (intro nth_equalityI) (auto simp: less_2_cases_iff)
  then show "index_ranking OtherArch (\<lambda>n. sort) product_of_columns pair_index [f32_one, f32_one] 2 2
    = Inr [([1, 0], [f32_zero, f32_one]), ([1, 0], [f32_zero, f32_one])]" using R(1) by simp
qed

lemma pair_offers: "probed_offers OtherArch None pair_index [f32_one] [1] = [(f32_zero, 7)]"
  by (simp add: probed_offers_def list_offers_def pair_index_def flat_offers_def row_of_def slice_def row_passes_def row_distance_def fvec_distance_def l2_eval f32_eval)

lemma two_rows: "length xs = 2 \<Longrightarrow> row_of 1 xs 0 = [a] \<Longrightarrow> row_of 1 xs 1 = [b] \<Longrightarrow> xs = [a, b]"
  by (cases xs; cases "tl xs") (auto simp: row_of_def slice_def)

section \<open>Properties\<close>

text \<open>C9: a batched top-k search over a written and reopened index returns, in the row of every query, the k
  least distances over its seed and the rows of its probed lists that the filter lets through, ascending and
  padded with -1 and the largest float, each distance with a row that has it. The probed lists of a query are
  those that \<open>find_topk_batch\<close> ranked \<open>probe_start\<close> to \<open>probe_end\<close> for it: \<open>probe_end\<close> different lists, or all of
  them, in the order of their exact distances, and the nearest ones when the query is searched alone or every list
  is ranked. Every list is read once and scanned for all queries that selected it, streamed in chunks, in
  order, or in parallel into local heaps. Of the matrix product only the size of its result is used; under L2
  the queries and the stored vectors are finite.\<close>

theorem flat_batch_search_exact:
  assumes "write_ivfflat_index index [] = Inr bs" "file_bytes rd = bs" "length bs < 2 ^ 63"
    and "batch_ready index queries nq" "batch_shape nq k probe_start probe_end seed_ids seed_distances" "selects sel" "gemm_fills gemm"
  shows "\<exists>r r' ids dists ranking. flat_open rd = Inr r
    \<and> index_ranking t sel gemm index queries nq probe_end = Inr ranking \<and> length ranking = nq
    \<and> search_batch_ivfflat_reader_filter_range big t sel gemm queries nq k probe_start probe_end seed_ids seed_distances row_filter r = Inr ((ids, dists), r')
    \<and> length ids = nq * k \<and> length dists = nq * k
    \<and> (\<forall>qi < nq. let offers = seed_offers seed_ids seed_distances k qi
            @ probed_offers t row_filter index (query_row t index queries qi) (drop probe_start (fst (ranking ! qi))) in
        ranking_choice t index queries nq probe_end qi (ranking ! qi)
        \<and> (\<exists>best. row_of k ids qi = resize k (- 1) (map snd best) \<and> row_of k dists qi = resize k f32_MAX (map fst best)
          \<and> mset best \<subseteq># mset offers \<and> map fst best = take k (sort (filter (\<lambda>v. \<not> is_nan v) (map fst offers)))))"
proof -
  have w: "writable index" using assms(1) by (simp add: write_ivfflat_index_iff)
  obtain r r' where r: "flat_open rd = Inr r" "flat_ensure_loaded r = Inr r'" "reads_index r' index" using written_reads[OF assms(1-3)] by blast
  obtain ranking where R: "index_ranking t sel gemm index queries nq probe_end = Inr ranking" "length ranking = nq"
    "\<forall>qi < nq. ranking_choice t index queries nq probe_end qi (ranking ! qi)" using index_ranks[OF w assms(4,6,7)] by blast
  let ?offers = "\<lambda>qi. seed_offers seed_ids seed_distances k qi
      @ probed_offers t row_filter index (query_row t index queries qi) (drop probe_start (fst (ranking ! qi)))"
  obtain hs rd' where H: "search_batch_ivfflat_reader_filter_range big t sel gemm queries nq k probe_start probe_end seed_ids seed_distances row_filter r'
      = Inr (heap_rows k hs, r'\<lparr>fr_reader := rd'\<rparr>)" "length hs = nq" "\<And>qi. qi < nq \<Longrightarrow> heap_holds k (?offers qi) (hs ! qi)"
    using index_batch[OF r(3) assms(4,5) R, of big row_filter] by blast
  have short: "\<forall>h \<in> set hs. length (reader_heap_into_sorted h) \<le> k" using H(2,3) heap_holds_length by (metis in_set_conv_nth)
  note rows = heap_rows_row[OF short, unfolded H(2)]
  have "\<exists>best. row_of k (fst (heap_rows k hs)) qi = resize k (- 1) (map snd best) \<and> row_of k (snd (heap_rows k hs)) qi = resize k f32_MAX (map fst best)
      \<and> mset best \<subseteq># mset (?offers qi) \<and> map fst best = take k (sort (filter (\<lambda>v. \<not> is_nan v) (map fst (?offers qi))))" if "qi < nq" for qi
    using rows(3,4)[OF that] heap_of_sorted[of k "?offers qi" "hs ! qi"] H(3)[OF that] unfolding heap_holds_def by blast
  then show ?thesis using r(1) R H(1) rows(1,2) search_after_load[OF r(2) reads_loaded[OF r(3)]]
    by (intro exI[of _ r] exI[of _ "r'\<lparr>fr_reader := rd'\<rparr>"] exI[of _ "fst (heap_rows k hs)"] exI[of _ "snd (heap_rows k hs)"] exI[of _ ranking]) (simp add: Let_def)
qed

theorem flat_batch_search_exact_witness:
  "\<exists>r r'. flat_open pair_reader = Inr r
    \<and> search_batch_ivfflat_reader_filter_range False OtherArch (\<lambda>n. sort) product_of_columns [f32_one, f32_one] 2 1 0 1 [] [] None r
        = Inr (([7, 7], [f32_zero, f32_zero]), r')"
proof -
  have shape: "batch_shape 2 1 0 1 [] []" by (simp add: batch_shape_def)
  obtain r r' ids dists ranking where R: "flat_open pair_reader = Inr r"
    "index_ranking OtherArch (\<lambda>n. sort) product_of_columns pair_index [f32_one, f32_one] 2 1 = Inr ranking"
    "search_batch_ivfflat_reader_filter_range False OtherArch (\<lambda>n. sort) product_of_columns [f32_one, f32_one] 2 1 0 1 [] [] None r = Inr ((ids, dists), r')"
    "length ids = 2 * 1" "length dists = 2 * 1"
    and each: "\<forall>qi < 2. let offers = seed_offers [] [] 1 qi
            @ probed_offers OtherArch None pair_index (query_row OtherArch pair_index [f32_one, f32_one] qi) (drop 0 (fst (ranking ! qi))) in
        ranking_choice OtherArch pair_index [f32_one, f32_one] 2 1 qi (ranking ! qi)
        \<and> (\<exists>best. row_of 1 ids qi = resize 1 (- 1) (map snd best) \<and> row_of 1 dists qi = resize 1 f32_MAX (map fst best)
          \<and> mset best \<subseteq># mset offers \<and> map fst best = take 1 (sort (filter (\<lambda>v. \<not> is_nan v) (map fst offers))))"
    using flat_batch_search_exact[OF pair_facts(1-4) shape selects_sort product_fills, of OtherArch False None] by blast
  have nan: "\<not> is_nan f32_zero" by simp
  have "row_of 1 ids qi = [7] \<and> row_of 1 dists qi = [f32_zero]" if qi: "qi < 2" for qi
  proof -
    have "fst (ranking ! qi) = [1]" using R(2) pair_ranking(1) less_2_cases[OF qi] by auto
    then have "seed_offers [] [] 1 qi @ probed_offers OtherArch None pair_index (query_row OtherArch pair_index [f32_one, f32_one] qi) (drop 0 (fst (ranking ! qi))) = [(f32_zero, 7)]"
      using pair_row[OF qi] pair_offers by (simp add: seed_offers_def get_or_empty_def slice_def)
    then obtain best where b: "row_of 1 ids qi = resize 1 (- 1) (map snd best)" "row_of 1 dists qi = resize 1 f32_MAX (map fst best)"
      "mset best \<subseteq># {#(f32_zero, 7)#}" "map fst best = [f32_zero]" using each qi nan by (auto simp: Let_def)
    then have "best = [(f32_zero, 7)]" by (cases best) (auto dest: mset_subset_eq_insertD)
    then show ?thesis using b(1,2) by (simp add: resize_def)
  qed
  from this[of 0] this[of 1] have "ids = [7, 7]" "dists = [f32_zero, f32_zero]" using R(4,5) two_rows by auto
  then show ?thesis using R(1,3) by blast
qed

text \<open>A file and the index it was written from.\<close>

lemma heap_rows_memory:
  assumes "length hs = nq" "\<And>qi. qi < nq \<Longrightarrow> heap_holds k (probed_offers t row_filter index (query_row t index queries qi) (fst (ranking ! qi))) (hs ! qi)"
  shows "snd (heap_rows k hs) = concat (map (\<lambda>qi. resize k f32_MAX (map fst (memory_rows t row_filter index queries k ranking qi))) [0..<nq])"
proof -
  have "map (\<lambda>h. resize k f32_MAX (map fst (reader_heap_into_sorted h))) hs
      = map (\<lambda>qi. resize k f32_MAX (map fst (memory_rows t row_filter index queries k ranking qi))) [0..<nq]"
    using assms memory_rows_distances(1)[OF assms(2)] by (intro nth_equalityI) simp_all
  then show ?thesis by (simp add: heap_rows_def)
qed

lemma single_search:
  assumes "write_ivfflat_index index [] = Inr bs" "file_bytes rd = bs" "length bs < 2 ^ 63" "batch_ready index query 1" "0 < k" "0 < nprobe" "selects sel"
    and r: "flat_open rd = Inr r" and top: "ranking_choice t index query 1 nprobe 0 (ranking ! 0)"
  shows "\<exists>ids r'. flat_reader_search_with_filter big t sel query k nprobe row_filter r
    = Inr ((ids, resize k f32_MAX (map fst (memory_rows t row_filter index query k ranking 0))), r')"
proof -
  have B: "length query = fi_d index" "fi_metric index = L2 \<longrightarrow> finite_vec query" "index_finite index" "lists_streamable (fi_d index) (stored_lists index)"
    using assms(4) by (auto simp: batch_ready_def)
  have q: "query_row t index query 0 = search_query t (fi_metric index) query" using B(1) by (simp add: query_row_def row_of_def slice_def)
  have ps: "fst (ranking ! 0) = probes t (query_row t index query 0) (fi_quantizer_centroids index) (fi_nlist index) (fi_d index) nprobe"
    using top by (simp add: ranking_choice_def Let_def nearest_probes)
  have fin: "fi_metric index = L2 \<longrightarrow> finite_vec (query_row t index query 0)" using B(2) q by (simp add: search_query_def)
  obtain r' heap where H: "flat_reader_search_with_filter big t sel query k nprobe row_filter r = Inr (padded_flat_results heap k, r')"
    "heap_holds k (probed_offers t row_filter index (query_row t index query 0) (fst (ranking ! 0))) heap"
    using written_search[OF assms(1-3) B(1) q fin assms(5-7) B(3,4) ps, of big row_filter] r unfolding probed_offers_def by auto
  then show ?thesis using memory_rows_distances(1)[OF H(2)] by (simp add: padded_flat_results_def Let_def)
qed

text \<open>C7: searching a file gives the distances of searching the index it was written from. For every batch of
  queries, filter and host, the batched search of the reopened file and \<open>search_with_filter\<close> of the index in memory,
  which normalises the queries, ranks the lists with \<open>find_topk_batch\<close>, scans each of them into a heap of its own
  kind and fills the caller's arrays, both succeed and give the same array of distances, padding included. A
  single query gives it too through the search of the file for one query, which ranks with \<open>find_topk\<close>. Of rows at
  equal distances either search may keep others, so the labels are not compared. Of the matrix product only the
  size of its result is used; under L2 the queries and the stored vectors are finite.\<close>

theorem file_search_is_memory_search:
  assumes "write_ivfflat_index index [] = Inr bs" "file_bytes rd = bs" "length bs < 2 ^ 63"
    and "batch_ready index queries nq" "0 < nq" "0 < k" "nq * k < 2 ^ 64" "0 < nprobe" "selects sel" "gemm_fills gemm"
    and "length dists0 = nq * k" "length labels0 = nq * k"
  shows "\<exists>r dists labels ids r'. flat_open rd = Inr r
    \<and> flat_search_with_filter t sel gemm queries nq k nprobe row_filter index (dists0, labels0) = Inr (dists, labels)
    \<and> search_batch_ivfflat_reader_filter big t sel gemm queries nq k nprobe row_filter r = Inr ((ids, dists), r')
    \<and> (nq = 1 \<longrightarrow> (\<exists>ids1 r1. flat_reader_search_with_filter big t sel queries k nprobe row_filter r = Inr ((ids1, dists), r1)))"
proof -
  have w: "writable index" using assms(1) by (simp add: write_ivfflat_index_iff)
  obtain r r' where r: "flat_open rd = Inr r" "flat_ensure_loaded r = Inr r'" "reads_index r' index" using written_reads[OF assms(1-3)] by blast
  obtain ranking where R: "index_ranking t sel gemm index queries nq nprobe = Inr ranking" "length ranking = nq"
    "\<forall>qi < nq. ranking_choice t index queries nq nprobe qi (ranking ! qi)" using index_ranks[OF w assms(4,9,10)] by blast
  have sh: "batch_shape nq k 0 nprobe [] []" using assms(5-8) by (auto simp: batch_shape_def)
  obtain hs rd' where H: "search_batch_ivfflat_reader_filter_range big t sel gemm queries nq k 0 nprobe [] [] row_filter r'
      = Inr (heap_rows k hs, r'\<lparr>fr_reader := rd'\<rparr>)" "length hs = nq"
    "\<And>qi. qi < nq \<Longrightarrow> heap_holds k (probed_offers t row_filter index (query_row t index queries qi) (fst (ranking ! qi))) (hs ! qi)"
    using index_batch[OF r(3) assms(4) sh R, of big row_filter] by auto
  let ?D = "concat (map (\<lambda>qi. resize k f32_MAX (map fst (memory_rows t row_filter index queries k ranking qi))) [0..<nq])"
  have mem: "\<exists>labels. flat_search_with_filter t sel gemm queries nq k nprobe row_filter index (dists0, labels0) = Inr (?D, labels)"
    using memory_search[OF w assms(4) R memory_rows_distances(2)[OF H(3)] assms(11,12)] by blast
  have "search_batch_ivfflat_reader_filter big t sel gemm queries nq k nprobe row_filter r = Inr ((fst (heap_rows k hs), ?D), r'\<lparr>fr_reader := rd'\<rparr>)"
    using H(1) heap_rows_memory[OF H(2,3)] search_after_load[OF r(2) reads_loaded[OF r(3)]]
    by (simp add: search_batch_ivfflat_reader_filter_def prod_eq_iff)
  moreover have "\<exists>ids1 r1. flat_reader_search_with_filter big t sel queries k nprobe row_filter r = Inr ((ids1, ?D), r1)" if "nq = 1"
    using single_search[OF assms(1-3) _ assms(6,8,9) r(1), of queries t ranking big row_filter] assms(4) R(3) that by simp
  ultimately show ?thesis using r(1) mem by blast
qed

theorem file_search_is_memory_search_witness:
  "\<exists>r dists labels ids r'. flat_open pair_reader = Inr r
    \<and> flat_search_with_filter OtherArch (\<lambda>n. sort) product_of_columns [f32_one, f32_one] 2 1 1 None pair_index ([f32_zero, f32_zero], [0, 0]) = Inr (dists, labels)
    \<and> search_batch_ivfflat_reader_filter False OtherArch (\<lambda>n. sort) product_of_columns [f32_one, f32_one] 2 1 1 None r = Inr ((ids, dists), r')"
proof -
  have "length [f32_zero, f32_zero] = 2 * 1" "length [0, 0 :: i64] = 2 * 1" by simp_all
  from file_search_is_memory_search[OF pair_facts(1-4) _ _ _ _ selects_sort product_fills this, of 1 OtherArch None False] show ?thesis by auto
qed

text \<open>A search continued from its own results.\<close>

lemma zip_resize: "length xs = length ys \<Longrightarrow> length xs \<le> k \<Longrightarrow> zip (resize k x xs) (resize k y ys) = zip xs ys @ replicate (k - length xs) (x, y)"
  by (simp add: resize_def zip_append)

lemma get_or_empty_row:
  assumes "length xs = n * k" "qi < n"
  shows "get_or_empty (qi * k) (qi * k + k) xs = row_of k xs qi"
proof -
  have "(qi + 1) * k \<le> length xs" unfolding assms(1) using assms(2) by (intro mult_le_mono1) simp
  then show ?thesis by (simp add: get_or_empty_def row_of_def add.commute)
qed

lemma seed_of_rows:
  assumes "\<forall>h \<in> set hs. length (reader_heap_into_sorted h) \<le> k" "qi < length hs"
    and "\<forall>(v, _) \<in> set (reader_heap_into_sorted (hs ! qi)). \<not> f32_eq v f32_MAX"
  shows "seed_offers (fst (heap_rows k hs)) (snd (heap_rows k hs)) k qi = reader_heap_into_sorted (hs ! qi)"
proof -
  let ?s = "reader_heap_into_sorted (hs ! qi)"
  have len: "length ?s \<le> k" using assms(1,2) by simp
  have eq: "f32_eq f32_MAX f32_MAX" by (simp add: f32_eq_def is_nan_def)
  have "zip (map snd ?s) (map fst ?s) = map prod.swap ?s" by (simp add: zip_map_map zip_same_conv_map prod.swap_def)
  then have "filter (\<lambda>(row, v). \<not> f32_eq v f32_MAX) (zip (resize k (- 1) (map snd ?s)) (resize k f32_MAX (map fst ?s))) = map prod.swap ?s"
    using assms(3) len eq by (auto simp: zip_resize filter_id_conv split_beta)
  then show ?thesis using assms(2) heap_rows_row[OF assms(1)]
    get_or_empty_row[OF heap_rows_row(1)[OF assms(1)] assms(2)] get_or_empty_row[OF heap_rows_row(2)[OF assms(1)] assms(2)]
    by (simp add: seed_offers_def)
qed

lemma heap_holds_continued:
  assumes "heap_holds k first h1" "heap_holds k (reader_heap_into_sorted h1 @ second) h2"
  shows "heap_holds k (first @ second) h2"
proof -
  have "heap_of k (second @ reader_heap_into_sorted h1) (rh_data h2)"
    using assms(2) heap_of_mset[of "reader_heap_into_sorted h1 @ second" "second @ reader_heap_into_sorted h1"] by (simp add: heap_holds_def)
  from heap_of_local[OF this, of first "rh_data h1"] have "heap_of k (second @ first) (rh_data h2)"
    using assms(1) by (simp add: heap_holds_def reader_heap_into_sorted_def)
  then show ?thesis using assms(2) heap_of_mset[of "second @ first" "first @ second"] by (simp add: heap_holds_def)
qed

lemma heap_rows_distances:
  assumes "length hs = length hs'" "\<And>qi. qi < length hs \<Longrightarrow> \<exists>offers. heap_holds k offers (hs ! qi) \<and> heap_holds k offers (hs' ! qi)"
  shows "snd (heap_rows k hs) = snd (heap_rows k hs')"
proof -
  have "map fst (reader_heap_into_sorted (hs ! qi)) = map fst (reader_heap_into_sorted (hs' ! qi))" if "qi < length hs" for qi
    using assms(2)[OF that] heap_of_sorted(2) unfolding heap_holds_def by metis
  then have "map (\<lambda>h. resize k f32_MAX (map fst (reader_heap_into_sorted h))) hs = map (\<lambda>h. resize k f32_MAX (map fst (reader_heap_into_sorted h))) hs'"
    using assms(1) by (intro nth_equalityI) auto
  then show ?thesis by (simp add: heap_rows_def)
qed

text \<open>C11: a batched search may be widened step by step. Searching the first \<open>a\<close> lists of every query and then the
  lists ranked \<open>a\<close> to \<open>b\<close>, seeded with the rows of the first search, gives the array of distances of searching the
  first \<open>b\<close> lists at once; of rows at equal distances others may be kept. Two conditions are needed. No row that the
  first search scans is at the distance \<open>f32::MAX\<close>, which marks padding in a seed. And the two rankings of a query
  agree: the \<open>a\<close> lists of the first are the first \<open>a\<close> of the second. A query that is searched alone satisfies it
  always; in a batch the two rankings come from two products and could differ.\<close>

theorem batch_search_continues:
  assumes "write_ivfflat_index index [] = Inr bs" "file_bytes rd = bs" "length bs < 2 ^ 63"
    and "batch_ready index queries nq" "0 < nq" "0 < k" "nq * k < 2 ^ 64" "0 < a" "a < b" "selects sel" "gemm_fills gemm"
    and "index_ranking t sel gemm index queries nq a = Inr first" "index_ranking t sel gemm index queries nq b = Inr wide"
    and "nq = 1 \<or> (\<forall>qi < nq. fst (first ! qi) = take a (fst (wide ! qi)))"
    and "\<forall>qi < nq. \<forall>(v, _) \<in> set (probed_offers t row_filter index (query_row t index queries qi) (fst (first ! qi))). \<not> f32_eq v f32_MAX"
  shows "\<exists>r ids1 dists1 r1 ids2 ids r2 r3 dists. flat_open rd = Inr r
    \<and> search_batch_ivfflat_reader_filter_range big t sel gemm queries nq k 0 a [] [] row_filter r = Inr ((ids1, dists1), r1)
    \<and> search_batch_ivfflat_reader_filter_range big t sel gemm queries nq k a b ids1 dists1 row_filter r1 = Inr ((ids2, dists), r2)
    \<and> search_batch_ivfflat_reader_filter_range big t sel gemm queries nq k 0 b [] [] row_filter r = Inr ((ids, dists), r3)"
proof -
  let ?S = "\<lambda>a b si sd. search_batch_ivfflat_reader_filter_range big t sel gemm queries nq k a b si sd row_filter"
  let ?O = "\<lambda>qi. probed_offers t row_filter index (query_row t index queries qi)"
  have w: "writable index" using assms(1) by (simp add: write_ivfflat_index_iff)
  obtain r r' where r: "flat_open rd = Inr r" "flat_ensure_loaded r = Inr r'" "reads_index r' index" using written_reads[OF assms(1-3)] by blast
  have A: "length first = nq" "\<forall>qi < nq. ranking_choice t index queries nq a qi (first ! qi)"
    and B: "length wide = nq" "\<forall>qi < nq. ranking_choice t index queries nq b qi (wide ! qi)"
    using index_ranks[OF w assms(4,10,11), of t a] index_ranks[OF w assms(4,10,11), of t b] assms(12,13) by auto
  have agree: "fst (first ! qi) = take a (fst (wide ! qi))" if "qi < nq" for qi
    using assms(9,14) A(2) B(2) that by (auto simp: ranking_choice_def Let_def nearest_of_def take_map min_def)
  have sh: "batch_shape nq k 0 a [] []" "batch_shape nq k 0 b [] []" using assms(5-9) by (auto simp: batch_shape_def)
  obtain hs1 rd1 where h1: "?S 0 a [] [] r' = Inr (heap_rows k hs1, r'\<lparr>fr_reader := rd1\<rparr>)" "reads_index (r'\<lparr>fr_reader := rd1\<rparr>) index"
    "length hs1 = nq" "\<And>qi. qi < nq \<Longrightarrow> heap_holds k (?O qi (fst (first ! qi))) (hs1 ! qi)"
    using index_batch[OF r(3) assms(4) sh(1) assms(12) A, of big row_filter] by auto
  obtain hs rd3 where h: "?S 0 b [] [] r' = Inr (heap_rows k hs, r'\<lparr>fr_reader := rd3\<rparr>)" "length hs = nq"
    "\<And>qi. qi < nq \<Longrightarrow> heap_holds k (?O qi (fst (wide ! qi))) (hs ! qi)"
    using index_batch[OF r(3) assms(4) sh(2) assms(13) B, of big row_filter] by auto
  have short: "\<forall>h \<in> set hs1. length (reader_heap_into_sorted h) \<le> k" using h1(3,4) heap_holds_length by (metis in_set_conv_nth)
  have "batch_shape nq k a b (fst (heap_rows k hs1)) (snd (heap_rows k hs1))"
    using assms(5-9) heap_rows_row(1,2)[OF short] h1(3) by (auto simp: batch_shape_def)
  from index_batch[OF h1(2) assms(4) this assms(13) B, of big row_filter] obtain hs2 rd2 where
    h2: "?S a b (fst (heap_rows k hs1)) (snd (heap_rows k hs1)) (r'\<lparr>fr_reader := rd1\<rparr>) = Inr (heap_rows k hs2, r'\<lparr>fr_reader := rd2\<rparr>)" "length hs2 = nq"
    "\<And>qi. qi < nq \<Longrightarrow> heap_holds k (seed_offers (fst (heap_rows k hs1)) (snd (heap_rows k hs1)) k qi @ ?O qi (drop a (fst (wide ! qi)))) (hs2 ! qi)" by auto
  have "heap_holds k (?O qi (fst (wide ! qi))) (hs2 ! qi)" if "qi < nq" for qi
  proof -
    have "set (reader_heap_into_sorted (hs1 ! qi)) \<subseteq> set (?O qi (fst (first ! qi)))" using heap_of_sorted(3) h1(4)[OF that] unfolding heap_holds_def by blast
    then have "\<forall>(v, _) \<in> set (reader_heap_into_sorted (hs1 ! qi)). \<not> f32_eq v f32_MAX" using assms(15) that by blast
    from seed_of_rows[OF short _ this] have "heap_holds k (reader_heap_into_sorted (hs1 ! qi) @ ?O qi (drop a (fst (wide ! qi)))) (hs2 ! qi)"
      using h2(3)[OF that] h1(3) that by simp
    from heap_holds_continued[OF h1(4)[OF that] this] have "heap_holds k (?O qi (take a (fst (wide ! qi)) @ drop a (fst (wide ! qi)))) (hs2 ! qi)"
      unfolding agree[OF that] probed_offers_def map_append concat_append .
    then show ?thesis by simp
  qed
  then have "snd (heap_rows k hs2) = snd (heap_rows k hs)" using h(2,3) h2(2) by (intro heap_rows_distances) auto
  moreover have "?S 0 c [] [] r = ?S 0 c [] [] r'" for c by (rule search_after_load[OF r(2) reads_loaded[OF r(3)]])
  ultimately show ?thesis using r(1) h1(1) h2(1) h(1)
    by (intro exI[of _ r] exI[of _ "fst (heap_rows k hs1)"] exI[of _ "snd (heap_rows k hs1)"] exI[of _ "r'\<lparr>fr_reader := rd1\<rparr>"]
        exI[of _ "fst (heap_rows k hs2)"] exI[of _ "fst (heap_rows k hs)"] exI[of _ "r'\<lparr>fr_reader := rd2\<rparr>"] exI[of _ "r'\<lparr>fr_reader := rd3\<rparr>"]
        exI[of _ "snd (heap_rows k hs)"]) (simp add: prod_eq_iff)
qed

theorem batch_search_continues_witness:
  "\<exists>r ids1 dists1 r1 ids2 ids r2 r3 dists. flat_open pair_reader = Inr r
    \<and> search_batch_ivfflat_reader_filter_range False OtherArch (\<lambda>n. sort) product_of_columns [f32_one, f32_one] 2 1 0 1 [] [] None r = Inr ((ids1, dists1), r1)
    \<and> search_batch_ivfflat_reader_filter_range False OtherArch (\<lambda>n. sort) product_of_columns [f32_one, f32_one] 2 1 1 2 ids1 dists1 None r1 = Inr ((ids2, dists), r2)
    \<and> search_batch_ivfflat_reader_filter_range False OtherArch (\<lambda>n. sort) product_of_columns [f32_one, f32_one] 2 1 0 2 [] [] None r = Inr ((ids, dists), r3)"
proof (rule batch_search_continues[OF pair_facts(1-4)])
  show "index_ranking OtherArch (\<lambda>n. sort) product_of_columns pair_index [f32_one, f32_one] 2 1 = Inr [([1], [f32_zero]), ([1], [f32_zero])]"
    "index_ranking OtherArch (\<lambda>n. sort) product_of_columns pair_index [f32_one, f32_one] 2 2
      = Inr [([1, 0], [f32_zero, f32_one]), ([1, 0], [f32_zero, f32_one])]" by (rule pair_ranking)+
  have nth: "fst ([([1], [f32_zero]), ([1], [f32_zero])] ! qi) = [1 :: nat]"
    "fst ([([1, 0], [f32_zero, f32_one]), ([1, 0], [f32_zero, f32_one])] ! qi) = [1, 0 :: nat]" if "qi < 2" for qi
    using less_2_cases[OF that] by auto
  then show "2 = (1 :: nat) \<or> (\<forall>qi < 2. fst ([([1 :: nat], [f32_zero]), ([1], [f32_zero])] ! qi) = take 1 (fst ([([1, 0], [f32_zero, f32_one]), ([1, 0], [f32_zero, f32_one])] ! qi)))"
    by simp
  have "\<not> f32_eq f32_zero f32_MAX" by (simp add: f32_cmp_defs)
  then show "\<forall>qi < 2. \<forall>(v, _) \<in> set (probed_offers OtherArch None pair_index (query_row OtherArch pair_index [f32_one, f32_one] qi)
      (fst ([([1], [f32_zero]), ([1], [f32_zero])] ! qi))). \<not> f32_eq v f32_MAX"
    using nth(1) pair_row pair_offers by simp
qed (simp_all add: selects_sort product_fills)

end
