(* ===== verification/Flat_Range.thy ===== *)
theory Flat_Range
  imports Flat_Batch
begin

text \<open>
  What the range searches of \<open>ivfflat_io.rs\<close> return: for every query exactly the rows of its probed lists whose
  distance lies in the band, in no particular order, with the statistics of the scan. The tasks of a
  parallel scan may merge in any order.
\<close>

section \<open>The bucket of a query\<close>

definition range_hits :: "DistanceBand \<Rightarrow> (f32 \<times> i64) list \<Rightarrow> (i64 \<times> f32) list" where
  "range_hits band offers = filter (\<lambda>(row, v). admit_raw band v) (map prod.swap offers)"

lemma range_hits_append [simp]: "range_hits band (xs @ ys) = range_hits band xs @ range_hits band ys"
  by (simp add: range_hits_def)

lemma range_hits_mset: "mset xs = mset ys \<Longrightarrow> mset (range_hits band xs) = mset (range_hits band ys)"
  by (simp add: range_hits_def)

definition range_bucket ::
  "arch \<Rightarrow> DistanceBand \<Rightarrow> f32 list \<Rightarrow> nat \<Rightarrow> MetricType \<Rightarrow> row_filter \<Rightarrow> nat \<Rightarrow> item list \<Rightarrow> QueryMerge \<Rightarrow> bool" where
  "range_bucket t band queries d metric row_filter qi rows m \<longleftrightarrow>
     (let offers = item_offers t (row_of d queries qi) metric row_filter rows in
      mset (qm_rows m) = mset (range_hits band offers) \<and> qm_scanned m = length offers
    \<and> length (qm_rows m) + qm_early_abandoned m \<le> qm_scanned m)"

definition range_row_ok :: "arch \<Rightarrow> f32 list \<Rightarrow> nat \<Rightarrow> MetricType \<Rightarrow> nat list list \<Rightarrow> item \<Rightarrow> bool" where
  "range_row_ok t queries d metric ltq = (\<lambda>(l, row, v).
     (metric \<noteq> InnerProduct \<longrightarrow> finite_vec v) \<and> (metric = Cosine \<longrightarrow> is_finite (fvec_norm_l2sqr t v))
   \<and> (\<forall>qi \<in> set (ltq ! l). (metric = L2 \<longrightarrow> finite_vec (row_of d queries qi)) \<and> is_finite (row_distance t (row_of d queries qi) metric v)))"

lemma range_rows_ok:
  assumes "length (row_of d queries qi) = d" "length vs = length ids * d" "qi \<in> set (ltq ! l)"
    "list_all (range_row_ok t queries d metric ltq) (row_items d l ids vs)" "ids \<noteq> []"
  shows "rows_ok t True is_finite (row_of d queries qi) (length ids) vs d metric"
    and "\<forall>i < length ids. is_finite (row_distance t (row_of d queries qi) metric (row_of d vs i))"
proof -
  have row: "range_row_ok t queries d metric ltq (l, ids ! i, row_of d vs i)" if "i < length ids" for i
    using assms(4) that by (simp add: list_all_length row_items_def nth_enumerate_eq)
  have q: "metric = L2 \<longrightarrow> finite_vec (row_of d queries qi)" using row[of 0] assms(3,5) by (auto simp: range_row_ok_def)
  have "metric \<noteq> InnerProduct \<longrightarrow> finite_vec vs" using finite_vec_rows[OF assms(2)] row by (auto simp: range_row_ok_def)
  then show "rows_ok t True is_finite (row_of d queries qi) (length ids) vs d metric"
    using assms(1-3) row q by (auto simp: rows_ok_def range_row_ok_def)
  show "\<forall>i < length ids. is_finite (row_distance t (row_of d queries qi) metric (row_of d vs i))"
    using row assms(3) by (auto simp: range_row_ok_def)
qed

lemma range_scan_task:
  assumes len: "length (row_of d queries qi) = d" "length vs = length ids * d" and q: "qi \<in> set (ltq ! l)"
    and ok: "list_all (range_row_ok t queries d metric ltq) (row_items d l ids vs)"
  shows "\<exists>c. scan_flat_rows t range_collector (row_of d queries qi) ids vs d metric row_filter (range_collector_new band) = Inr c
    \<and> (\<forall>rows m. range_bucket t band queries d metric row_filter qi rows m \<longrightarrow>
        range_bucket t band queries d metric row_filter qi (rows @ row_items d l ids vs)
          (m\<lparr>qm_scanned := qm_scanned m + rc_scanned c, qm_early_abandoned := qm_early_abandoned m + rc_early_abandoned c,
             qm_rows := qm_rows m @ rc_rows c\<rparr>))"
proof (cases "ids = []")
  case True
  then show ?thesis by (simp add: scan_flat_rows_def Let_def range_collector_new_def)
next
  case False
  let ?offers = "item_offers t (row_of d queries qi) metric row_filter (row_items d l ids vs)"
  have flat: "flat_offers t (row_of d queries qi) ids vs d metric row_filter = map prod.swap ?offers"
    using swap_flat_offers[of t "row_of d queries qi" ids vs d metric row_filter l]
    by (metis (no_types, lifting) list.map_comp list.map_id swap_comp_swap)
  obtain c where c: "scan_flat_rows t range_collector (row_of d queries qi) ids vs d metric row_filter (range_collector_new band) = Inr c"
    "range_collector_inv c" "rc_rows c = range_hits band ?offers" "rc_scanned c = length ?offers"
    using range_scan_of[OF range_rows_ok(1)[OF len q ok False] range_collector_new_inv range_rows_ok(2)[OF len q ok False], of row_filter band]
    by (auto simp: flat range_hits_def range_collector_new_def)
  have "length (rc_rows c) + rc_early_abandoned c \<le> rc_scanned c" using c(2) by (simp add: range_collector_inv_def)
  then show ?thesis using c(1,3,4) by (intro exI[of _ c]) (auto simp: range_bucket_def Let_def)
qed

definition builder_stage :: "nat \<Rightarrow> (nat \<Rightarrow> nat) \<Rightarrow> RangeResultBuilder \<Rightarrow> bool" where
  "builder_stage nq probed b \<longleftrightarrow> rb_rows b = replicate nq []
     \<and> rb_stats b = map (\<lambda>qi. default_stats\<lparr>lists_probed := probed qi\<rparr>) [0..<nq]"

definition range_holds ::
  "arch \<Rightarrow> DistanceBand \<Rightarrow> f32 list \<Rightarrow> nat \<Rightarrow> nat \<Rightarrow> MetricType \<Rightarrow> row_filter \<Rightarrow> nat list list \<Rightarrow> (nat \<Rightarrow> nat) \<Rightarrow> item list \<Rightarrow> range_state \<Rightarrow> bool" where
  "range_holds t band queries nq d metric row_filter ltq probed rows = (\<lambda>(builder, merges).
     builder_stage nq probed builder \<and> length merges = nq
   \<and> (\<forall>qi < nq. range_bucket t band queries d metric row_filter qi (rows_for ltq qi rows) (merges ! qi)))"

lemma range_bucket_mset:
  assumes "range_bucket t band queries d metric row_filter qi rows m" "mset rows = mset rows'"
  shows "range_bucket t band queries d metric row_filter qi rows' m"
proof -
  have eq: "mset (item_offers t (row_of d queries qi) metric row_filter rows) = mset (item_offers t (row_of d queries qi) metric row_filter rows')"
    by (rule item_offers_mset[OF assms(2)])
  show ?thesis using assms(1) range_hits_mset[OF eq, of band] mset_eq_length[OF eq] by (simp add: range_bucket_def Let_def)
qed

section \<open>Scanning for the queries of a list\<close>

lemma range_tasks:
  assumes task: "\<And>x qi. (x, qi) \<in> set tasks \<Longrightarrow> qi < nq \<and> qi \<in> set (ltq ! key x) \<and> length (vs x) = length (ids x) * d
      \<and> list_all (range_row_ok t queries d metric ltq) (row_items d (key x) (ids x) (vs x))"
    and len: "length queries = nq * d"
    and start: "length merges = nq" "\<And>qi. qi < nq \<Longrightarrow> range_bucket t band queries d metric row_filter qi (rows qi) (merges ! qi)"
  shows "\<exists>merges'. fold_res (\<lambda>(x, qi). flat_range_scan t band queries d metric row_filter (ids x) (vs x) qi) tasks merges = Inr merges'
    \<and> length merges' = nq \<and> (\<forall>qi < nq. range_bucket t band queries d metric row_filter qi
        (rows qi @ concat (map (\<lambda>task. row_items d (key (fst task)) (ids (fst task)) (vs (fst task))) (filter (\<lambda>task. snd task = qi) tasks))) (merges' ! qi))"
proof -
  let ?good = "\<lambda>task c. scan_flat_rows t range_collector (row_of d queries (snd task)) (ids (fst task)) (vs (fst task)) d metric row_filter (range_collector_new band) = Inr c
    \<and> (\<forall>rows m. range_bucket t band queries d metric row_filter (snd task) rows m \<longrightarrow>
        range_bucket t band queries d metric row_filter (snd task) (rows @ row_items d (key (fst task)) (ids (fst task)) (vs (fst task)))
          (m\<lparr>qm_scanned := qm_scanned m + rc_scanned c, qm_early_abandoned := qm_early_abandoned m + rc_early_abandoned c,
             qm_rows := qm_rows m @ rc_rows c\<rparr>))"
  have "\<forall>task \<in> set tasks. \<exists>c. ?good task c"
  proof
    fix task assume "task \<in> set tasks"
    then have T: "snd task < nq" "snd task \<in> set (ltq ! key (fst task))" "length (vs (fst task)) = length (ids (fst task)) * d"
      "list_all (range_row_ok t queries d metric ltq) (row_items d (key (fst task)) (ids (fst task)) (vs (fst task)))"
      using task[of "fst task" "snd task"] by auto
    show "\<exists>c. ?good task c" by (rule range_scan_task[OF length_row_of[OF len T(1)] T(3,2,4)])
  qed
  from bchoice[OF this] obtain c where "\<forall>task \<in> set tasks. ?good task (c task)" ..
  then have c: "?good task (c task)" if "task \<in> set tasks" for task using that by (rule bspec)
  define f where "f = (\<lambda>x qi (m :: QueryMerge). Inr (m\<lparr>qm_scanned := qm_scanned m + rc_scanned (c (x, qi)),
       qm_early_abandoned := qm_early_abandoned m + rc_early_abandoned (c (x, qi)), qm_rows := qm_rows m @ rc_rows (c (x, qi))\<rparr>) :: QueryMerge res)"
  show ?thesis
  proof (rule fold_tasks[where f = f and items = "\<lambda>x. row_items d (key x) (ids x) (vs x)"])
    fix x qi bs assume m: "(x, qi) \<in> set tasks"
    then show "qi < nq \<and> (case (x, qi) of (x, qi) \<Rightarrow> flat_range_scan t band queries d metric row_filter (ids x) (vs x) qi) bs = update_heap qi (f x qi) bs"
      using task[OF m] c[OF m] query_slice_eq[OF len, of qi] by (simp add: flat_range_scan_def merge_collector_def f_def)
  next
    fix x qi rows b assume m: "(x, qi) \<in> set tasks" "range_bucket t band queries d metric row_filter qi rows b"
    then show "\<exists>b'. f x qi b = Inr b' \<and> range_bucket t band queries d metric row_filter qi (rows @ row_items d (key x) (ids x) (vs x)) b'"
      using c[OF m(1)] by (simp add: f_def)
  qed (use start in auto)
qed

lemma chunk_keeps_range:
  assumes len: "length vs = length ids * d" and fan: "fan_ok queries nq d ltq l" and ok: "list_all (range_row_ok t queries d metric ltq) (row_items d l ids vs)"
    and s: "range_holds t band queries nq d metric row_filter ltq probed rows s"
  shows "\<exists>s'. flat_range_chunk t band queries d metric row_filter ltq l ids vs s = Inr s'
    \<and> range_holds t band queries nq d metric row_filter ltq probed (rows @ row_items d l ids vs) s'"
proof -
  obtain b ms where bs: "s = (b, ms)" by (cases s)
  have F: "length queries = nq * d" "l < length ltq" "distinct (ltq ! l)" "set (ltq ! l) \<subseteq> {..<nq}" using fan by (auto simp: fan_ok_def)
  let ?tasks = "list_tasks ltq [((), l)]"
  have task: "qi < nq \<and> qi \<in> set (ltq ! l) \<and> length vs = length ids * d \<and> list_all (range_row_ok t queries d metric ltq) (row_items d l ids vs)"
    if "(x, qi) \<in> set ?tasks" for x qi using that F len ok by (auto simp: list_tasks_def)
  have rows: "concat (map (\<lambda>task. row_items d l ids vs) (filter (\<lambda>task. snd task = qi) ?tasks)) = rows_for ltq qi (row_items d l ids vs)" for qi
    using list_tasks_rows[of ltq "\<lambda>_. row_items d l ids vs" d "\<lambda>_. ids" "\<lambda>_. vs" "[((), l)]" qi] F(3) by simp
  have fold: "fold_res (\<lambda>(x, qi). flat_range_scan t band queries d metric row_filter ids vs qi) ?tasks ms
      = fold_res (flat_range_scan t band queries d metric row_filter ids vs) (ltq ! l) ms"
    by (simp add: list_tasks_def fold_res_map)
  obtain ms' where "fold_res (flat_range_scan t band queries d metric row_filter ids vs) (ltq ! l) ms = Inr ms'" "length ms' = nq"
    "\<And>qi. qi < nq \<Longrightarrow> range_bucket t band queries d metric row_filter qi (rows_for ltq qi rows @ rows_for ltq qi (row_items d l ids vs)) (ms' ! qi)"
    using range_tasks[where tasks = ?tasks and merges = ms and band = band and row_filter = row_filter and rows = "\<lambda>qi. rows_for ltq qi rows"
        and ids = "\<lambda>_. ids" and vs = "\<lambda>_. vs" and key = "\<lambda>_. l", OF task F(1)] s unfolding bs range_holds_def rows fold by auto
  then show ?thesis using s F(2) by (auto simp: bs range_holds_def flat_range_chunk_def idx_def)
qed

lemma record_read:
  assumes "holds r ls" "l < length ls" "builder_stage nq probed b"
  shows "\<exists>b'. record_list_read_for r l b = Inr b' \<and> builder_stage nq probed b'"
proof -
  have "l < length (fr_list_counts r)" using assms(1,2) by (auto simp: holds_def list_at_def)
  then show ?thesis using assms(3) by (simp add: record_list_read_for_def idx_def record_list_read_def builder_stage_def)
qed

lemma record_reads:
  assumes "holds r ls" "list_all (\<lambda>x. fl_list_id x < length ls) xs" "builder_stage nq probed b"
  shows "\<exists>b'. fold_res (\<lambda>x. record_list_read_for r (fl_list_id x)) xs b = Inr b' \<and> builder_stage nq probed b'"
  using assms(2,3)
proof (induction xs arbitrary: b)
  case (Cons x xs)
  from record_read[OF assms(1) _ Cons.prems(2), of "fl_list_id x"] Cons.prems(1) obtain b1 where
    "record_list_read_for r (fl_list_id x) b = Inr b1" "builder_stage nq probed b1" by auto
  then show ?case using Cons by simp
qed simp

lemma enter_keeps_range:
  assumes "holds r ls" "l < length ls" "range_holds t band queries nq d metric row_filter ltq probed rows s"
  shows "\<exists>s'. flat_range_enter r l s = Inr s' \<and> range_holds t band queries nq d metric row_filter ltq probed rows s'"
proof -
  obtain b ms where s: "s = (b, ms)" by (cases s)
  from record_read[OF assms(1,2), of nq probed b] assms(3) obtain b' where
    "record_list_read_for r l b = Inr b'" "builder_stage nq probed b'" by (auto simp: s range_holds_def)
  then show ?thesis using assms(3) by (simp add: s flat_range_enter_def range_holds_def)
qed

lemma lists_keep_range:
  assumes h: "holds r ls" and l: "loaded_ok queries nq d ltq ls xs loaded"
    and ok: "list_all (range_row_ok t queries d metric ltq) (concat (map (list_items d ls) xs))"
    and s: "range_holds t band queries nq d metric row_filter ltq probed rows s" and r: "fr_d r = d" "fr_metric r = metric"
    and sched: "\<And>tasks. mset (sched tasks) = mset tasks"
  shows "\<exists>s'. flat_range_lists sched t band queries row_filter ltq r loaded s = Inr s'
    \<and> range_holds t band queries nq d metric row_filter ltq probed (rows @ concat (map (list_items d ls) xs)) s'"
proof -
  obtain b ms where bs: "s = (b, ms)" by (cases s)
  have S: "builder_stage nq probed b" "length ms = nq" "\<And>qi. qi < nq \<Longrightarrow> range_bucket t band queries d metric row_filter qi (rows_for ltq qi rows) (ms ! qi)"
    using s by (auto simp: bs range_holds_def)
  let ?tasks = "loaded_tasks ltq loaded"
  have ids: "list_all (\<lambda>x. fl_list_id x < length ltq) loaded" by (rule loaded_facts(3)[OF l])
  have "list_all (\<lambda>x. fl_list_id x < length ls) loaded" using loaded_facts(1)[OF l] l by (auto simp: list_all_iff loaded_ok_def)
  from record_reads[OF h this S(1)] obtain b' where b': "fold_res (\<lambda>x. record_list_read_for r (fl_list_id x)) loaded b = Inr b'" "builder_stage nq probed b'" by blast
  have comp: "map_res (\<lambda>l. bind_res (idx ltq (fl_list_id l)) (\<lambda>qs. Inr (saturating_mul (length (fl_ids l)) (length qs)))) loaded
      = Inr (map (\<lambda>l. saturating_mul (length (fl_ids l)) (length (ltq ! fl_list_id l))) loaded)"
    by (rule map_res_Inr_map) (use ids in \<open>simp add: idx_def list_all_iff\<close>)
  have tasks: "map_res (\<lambda>l. bind_res (idx ltq (fl_list_id l)) (\<lambda>qs. Inr (map (Pair l) qs))) loaded
      = Inr (map (\<lambda>l. map (Pair l) (ltq ! fl_list_id l)) loaded)"
    by (rule map_res_Inr_map) (use ids in \<open>simp add: idx_def list_all_iff\<close>)
  have concat: "concat (map (\<lambda>l. map (Pair l) (ltq ! fl_list_id l)) loaded) = ?tasks" by (simp add: loaded_tasks_def list_tasks_def comp_def)
  have len: "length queries = nq * d" if "loaded \<noteq> []" using that loaded_facts(1)[OF l, of "hd loaded"] by (auto simp: fan_ok_def)
  have scan: "\<exists>ms'. fold_res (\<lambda>(l, qi). flat_range_scan t band queries d metric row_filter (fl_ids l) (fl_vectors l) qi) ts ms = Inr ms' \<and> length ms' = nq
      \<and> (\<forall>qi < nq. range_bucket t band queries d metric row_filter qi (rows_for ltq qi rows @ rows_for ltq qi (concat (map (list_items d ls) xs))) (ms' ! qi))"
    if ts: "mset ts = mset ?tasks" for ts
  proof (cases "loaded = []")
    case True
    then have "ts = []" "xs = []" using ts l by (auto simp: loaded_tasks_def list_tasks_def loaded_ok_def)
    then show ?thesis using S by simp
  next
    case False
    have set: "set ts = set ?tasks" using ts by (metis set_mset_mset)
    have T: "qi < nq \<and> qi \<in> set (ltq ! fl_list_id x) \<and> length (fl_vectors x) = length (fl_ids x) * d \<and> list_all (range_row_ok t queries d metric ltq) (data_items d x)"
      if "(x, qi) \<in> set ts" for x qi
    proof -
      have m: "(x, qi) \<in> set ?tasks" using that set by simp
      show ?thesis using loaded_task(2,3)[OF l m] loaded_facts(1)[OF l loaded_task(1)[OF l m]] loaded_item_rows[OF l loaded_task(1)[OF l m] ok] by simp
    qed
    obtain ms' where ms': "fold_res (\<lambda>(l, qi). flat_range_scan t band queries d metric row_filter (fl_ids l) (fl_vectors l) qi) ts ms = Inr ms'" "length ms' = nq"
      "\<And>qi. qi < nq \<Longrightarrow> range_bucket t band queries d metric row_filter qi
        (rows_for ltq qi rows @ concat (map (\<lambda>task. data_items d (fst task)) (filter (\<lambda>task. snd task = qi) ts))) (ms' ! qi)"
      using range_tasks[where tasks = ts and merges = ms and rows = "\<lambda>qi. rows_for ltq qi rows" and key = fl_list_id, OF T len[OF False] S(2,3)] by blast
    have "mset (concat (map (\<lambda>task. data_items d (fst task)) (filter (\<lambda>task. snd task = qi) ts)))
        = mset (rows_for ltq qi (concat (map (list_items d ls) xs)))" for qi
      unfolding loaded_rows[OF l, symmetric] using ts by (intro mset_concat_map) simp
    then show ?thesis using ms'(1,2) range_bucket_mset[OF ms'(3)] by (intro exI[of _ ms']) simp
  qed
  define chosen where "chosen = (if 1 < length loaded \<and> PARALLEL_FLAT_SCAN_MIN_COMPONENTS
      \<le> saturating_mul (sum_list (map (\<lambda>l. saturating_mul (length (fl_ids l)) (length (ltq ! fl_list_id l))) loaded)) d then sched ?tasks else ?tasks)"
  have "mset chosen = mset ?tasks" by (simp add: chosen_def sched)
  from scan[OF this] obtain ms' where "fold_res (\<lambda>(l, qi). flat_range_scan t band queries d metric row_filter (fl_ids l) (fl_vectors l) qi) chosen ms = Inr ms'"
    "length ms' = nq" "\<forall>qi < nq. range_bucket t band queries d metric row_filter qi (rows_for ltq qi rows @ rows_for ltq qi (concat (map (list_items d ls) xs))) (ms' ! qi)" by blast
  moreover have "flat_range_lists sched t band queries row_filter ltq r loaded (b, ms)
      = bind_res (fold_res (\<lambda>(l, qi). flat_range_scan t band queries d metric row_filter (fl_ids l) (fl_vectors l) qi) chosen ms) (\<lambda>ms'. Inr (b', ms'))"
    unfolding flat_range_lists_def prod.case b'(1) comp tasks bind_res_Inr concat Let_def r chosen_def ..
  ultimately show ?thesis using b'(2) by (simp add: bs range_holds_def)
qed

definition schedules :: "schedule \<Rightarrow> bool" where
  "schedules sched \<longleftrightarrow> (\<forall>tasks. mset (sched tasks) = mset tasks)"

interpretation range_loop: list_consumer flat_range_enter "flat_range_chunk t band queries d metric row_filter ltq"
  "flat_range_lists sched t band queries row_filter ltq" d metric "range_row_ok t queries d metric ltq"
  "\<lambda>l. schedules sched \<and> fan_ok queries nq d ltq l" "range_holds t band queries nq d metric row_filter ltq probed"
  for t band queries nq d metric row_filter ltq sched probed
proof
  fix r ls xs ds rows s
  assume a: "holds r ls" "fr_d r = d" "fr_metric r = metric" "list_all (\<lambda>l. l < length ls \<and> schedules sched \<and> fan_ok queries nq d ltq l) xs"
    "list_all2 (data_of ls) xs ds" "list_all (range_row_ok t queries d metric ltq) (concat (map (list_items d ls) xs))"
    "range_holds t band queries nq d metric row_filter ltq probed rows s"
  have l: "loaded_ok queries nq d ltq ls xs ds" using a(4,5) holds_length[OF a(1)] a(2) by (auto simp: loaded_ok_def list_all_iff)
  show "\<exists>s'. flat_range_lists sched t band queries row_filter ltq r ds s = Inr s'
    \<and> range_holds t band queries nq d metric row_filter ltq probed (rows @ concat (map (list_items d ls) xs)) s'"
  proof (cases "xs = []")
    case True
    then have "ds = []" using a(5) by simp
    then show ?thesis using True a(7) by (cases s) (simp add: flat_range_lists_def Let_def)
  next
    case False
    then have "schedules sched" using a(4) by (cases xs) auto
    then show ?thesis using lists_keep_range[OF a(1) l a(6,7,2,3), of sched] by (simp add: schedules_def)
  qed
qed (use chunk_keeps_range enter_keeps_range in auto)

section \<open>The result of a query\<close>

lemma finish_one:
  assumes "i < length (rb_stats b)" "i < length (rb_rows b)"
  shows "flat_range_finish (i, m) b = Inr (b\<lparr>rb_stats := (rb_stats b)[i := (rb_stats b ! i)\<lparr>rows_scanned := rows_scanned (rb_stats b ! i) + qm_scanned m,
      early_abandoned := early_abandoned (rb_stats b ! i) + qm_early_abandoned m, rows_committed := rows_committed (rb_stats b ! i) + length (qm_rows m)\<rparr>],
    rb_rows := (rb_rows b)[i := rb_rows b ! i @ qm_rows m]\<rparr>)"
  using assms by (simp add: flat_range_finish_def record_scanned_def record_early_abandoned_def take_rows_def update_stats_def idx_def)

definition merge_stats :: "nat \<Rightarrow> QueryMerge \<Rightarrow> RangeSearchStats" where
  "merge_stats probed m = \<lparr>lists_probed = probed, rows_scanned = qm_scanned m, rows_committed = length (qm_rows m),
     early_abandoned = qm_early_abandoned m\<rparr>"

lemma finish_all:
  assumes "length (rb_stats b) = i + length ms" "length (rb_rows b) = i + length ms"
    "\<And>j. i \<le> j \<Longrightarrow> j < i + length ms \<Longrightarrow> rb_rows b ! j = [] \<and> rb_stats b ! j = default_stats\<lparr>lists_probed := probed j\<rparr>"
  shows "\<exists>b'. fold_res flat_range_finish (enumerate i ms) b = Inr b'
    \<and> rb_rows b' = take i (rb_rows b) @ map qm_rows ms \<and> rb_stats b' = take i (rb_stats b) @ map (\<lambda>(j, m). merge_stats (probed j) m) (enumerate i ms)"
  using assms
proof (induction ms arbitrary: i b)
  case (Cons m ms)
  obtain b1 where b1: "flat_range_finish (i, m) b = Inr b1" "rb_rows b1 = (rb_rows b)[i := qm_rows m]"
    "rb_stats b1 = (rb_stats b)[i := merge_stats (probed i) m]"
    using finish_one[of i b m] Cons.prems(1,2) Cons.prems(3)[of i] by (auto simp: merge_stats_def default_stats_def)
  have "\<exists>b'. fold_res flat_range_finish (enumerate (Suc i) ms) b1 = Inr b' \<and> rb_rows b' = take (Suc i) (rb_rows b1) @ map qm_rows ms
    \<and> rb_stats b' = take (Suc i) (rb_stats b1) @ map (\<lambda>(j, m). merge_stats (probed j) m) (enumerate (Suc i) ms)"
    by (rule Cons.IH) (use b1 Cons.prems in auto)
  moreover have "take (Suc i) (rb_rows b1) = take i (rb_rows b) @ [qm_rows m]" "take (Suc i) (rb_stats b1) = take i (rb_stats b) @ [merge_stats (probed i) m]"
    using b1(2,3) Cons.prems(1,2) by (simp_all add: take_Suc_conv_app_nth)
  ultimately show ?case using b1(1) by auto
qed (simp add: assms)

lemma finish_stage:
  assumes "builder_stage nq probed b" "length ms = nq"
  shows "\<exists>b'. fold_res flat_range_finish (enumerate 0 ms) b = Inr b' \<and> length (rb_rows b') = nq
    \<and> (\<forall>qi < nq. result_query (builder_build b') qi
        = Inr (map fst (qm_rows (ms ! qi)), map snd (qm_rows (ms ! qi)), merge_stats (probed qi) (ms ! qi)))"
proof -
  obtain b' where b': "fold_res flat_range_finish (enumerate 0 ms) b = Inr b'" "rb_rows b' = map qm_rows ms"
    "rb_stats b' = map (\<lambda>(j, m). merge_stats (probed j) m) (enumerate 0 ms)"
    using finish_all[of b 0 ms probed] assms by (auto simp: builder_stage_def)
  have st: "rb_stats b' ! qi = merge_stats (probed qi) (ms ! qi)" if "qi < nq" for qi using that b'(3) assms(2) by (simp add: nth_enumerate_eq)
  have "builder_ok b'" using b'(2,3) assms(2) st by (auto simp: builder_ok_def merge_stats_def)
  from result_query_build[OF this] show ?thesis using b' st assms(2) by simp
qed

lemma probed_stage:
  assumes "length pls = nq"
  shows "\<exists>b. fold_res (\<lambda>(qi, probe). record_lists_probed qi (length probe)) (enumerate 0 pls) (builder_new nq) = Inr b
    \<and> builder_stage nq (\<lambda>qi. length (pls ! qi)) b"
proof -
  have "\<exists>b'. fold_res (\<lambda>(qi, probe). record_lists_probed qi (length probe)) (enumerate i ps) b = Inr b' \<and> rb_rows b' = rb_rows b
      \<and> rb_stats b' = take i (rb_stats b) @ map (\<lambda>(j, p). (rb_stats b ! j)\<lparr>lists_probed := lists_probed (rb_stats b ! j) + length p\<rparr>) (enumerate i ps)"
    if "length (rb_stats b) = i + length ps" for i ps b
    using that
  proof (induction ps arbitrary: i b)
    case (Cons p ps)
    let ?st = "(rb_stats b ! i)\<lparr>lists_probed := lists_probed (rb_stats b ! i) + length p\<rparr>"
    obtain b1 where b1: "record_lists_probed i (length p) b = Inr b1" "rb_rows b1 = rb_rows b" "rb_stats b1 = (rb_stats b)[i := ?st]"
      using Cons.prems by (auto simp: record_lists_probed_def update_stats_def idx_def)
    obtain b' where b': "fold_res (\<lambda>(qi, probe). record_lists_probed qi (length probe)) (enumerate (Suc i) ps) b1 = Inr b'" "rb_rows b' = rb_rows b1"
      "rb_stats b' = take (Suc i) (rb_stats b1) @ map (\<lambda>(j, p). (rb_stats b1 ! j)\<lparr>lists_probed := lists_probed (rb_stats b1 ! j) + length p\<rparr>) (enumerate (Suc i) ps)"
      using Cons.IH[of b1 "Suc i"] b1(3) Cons.prems by auto
    have "map (\<lambda>(j, p). (rb_stats b1 ! j)\<lparr>lists_probed := lists_probed (rb_stats b1 ! j) + length p\<rparr>) (enumerate (Suc i) ps)
        = map (\<lambda>(j, p). (rb_stats b ! j)\<lparr>lists_probed := lists_probed (rb_stats b ! j) + length p\<rparr>) (enumerate (Suc i) ps)"
      using b1(3) by (auto simp: in_set_enumerate_eq)
    moreover have "take (Suc i) (rb_stats b1) = take i (rb_stats b) @ [?st]" using b1(3) Cons.prems by (simp add: take_Suc_conv_app_nth)
    ultimately show ?case using b1 b' by auto
  qed simp
  from this[of "builder_new nq" 0 pls] obtain b where b: "fold_res (\<lambda>(qi, probe). record_lists_probed qi (length probe)) (enumerate 0 pls) (builder_new nq) = Inr b"
    "rb_rows b = replicate nq []" "rb_stats b = map (\<lambda>(j, p). (replicate nq default_stats ! j)\<lparr>lists_probed := lists_probed (replicate nq default_stats ! j) + length p\<rparr>) (enumerate 0 pls)"
    using assms by (auto simp: builder_new_def)
  moreover have "rb_stats b = map (\<lambda>qi. default_stats\<lparr>lists_probed := length (pls ! qi)\<rparr>) [0..<nq]"
    unfolding b(3) using assms by (intro nth_equalityI) (simp_all add: nth_enumerate_eq default_stats_def)
  ultimately show ?thesis by (auto simp: builder_stage_def)
qed

section \<open>The whole search\<close>

text \<open>A row the scan accepts for a query: its numbers and its distance are finite.\<close>

definition scannable :: "arch \<Rightarrow> MetricType \<Rightarrow> f32 list \<Rightarrow> f32 list \<Rightarrow> bool" where
  "scannable t metric q v \<longleftrightarrow> (metric \<noteq> InnerProduct \<longrightarrow> finite_vec v) \<and> (metric = Cosine \<longrightarrow> is_finite (fvec_norm_l2sqr t v))
     \<and> is_finite (row_distance t q metric v)"

lemma fanned_rows_ok:
  assumes u: "unique_ok (map (probing pls) [0..<n]) uniq"
    and fin: "metric = L2 \<longrightarrow> (\<forall>qi < length pls. finite_vec (row_of d queries qi))"
    and ok: "\<And>qi l l' row v. qi < length pls \<Longrightarrow> l \<in> set (pls ! qi) \<Longrightarrow> (l', row, v) \<in> set (list_items d ls l) \<Longrightarrow> scannable t metric (row_of d queries qi) v"
  shows "list_all (range_row_ok t queries d metric (map (probing pls) [0..<n])) (concat (map (list_items d ls) uniq))"
proof -
  have "range_row_ok t queries d metric (map (probing pls) [0..<n]) item" if mem: "l \<in> set uniq" "item \<in> set (list_items d ls l)" for l item
  proof -
    obtain row v where item: "item = (l, row, v)" using mem(2) by (auto simp: row_items_def)
    have "l < length (map (probing pls) [0..<n]) \<and> map (probing pls) [0..<n] ! l \<noteq> []" using u mem(1) unfolding unique_ok_def by blast
    then have l: "l < n" "probing pls l \<noteq> []" by auto
    have each: "qi < length pls \<and> scannable t metric (row_of d queries qi) v" if "qi \<in> set (probing pls l)" for qi
    proof -
      have q: "qi < length pls" "l \<in> set (pls ! qi)" using that by (simp_all add: probing_def)
      show ?thesis using q(1) ok[OF q mem(2)[unfolded item]] by blast
    qed
    have ltq: "map (probing pls) [0..<n] ! l = probing pls l" using l(1) by simp
    obtain q0 where "q0 \<in> set (probing pls l)" using l(2) by (meson last_in_set)
    from each[OF this] have v: "(metric \<noteq> InnerProduct \<longrightarrow> finite_vec v) \<and> (metric = Cosine \<longrightarrow> is_finite (fvec_norm_l2sqr t v))"
      by (simp add: scannable_def)
    have "(metric = L2 \<longrightarrow> finite_vec (row_of d queries qi)) \<and> is_finite (row_distance t (row_of d queries qi) metric v)" if "qi \<in> set (probing pls l)" for qi
      using each[OF that] fin by (simp add: scannable_def)
    then show ?thesis using v unfolding item range_row_ok_def prod.case ltq by blast
  qed
  then show ?thesis unfolding list_all_iff set_concat set_map by blast
qed

lemma range_search_loop:
  assumes h: "holds r ls" and d: "0 < fr_d r" "length (file_bytes (fr_reader r)) < 2 ^ 63"
    and q: "length queries = nq * fr_d r" "fr_metric r = L2 \<longrightarrow> (\<forall>qi < nq. finite_vec (row_of (fr_d r) queries qi))"
    and ok: "\<forall>qi < nq. \<forall>l \<in> set (pls ! qi). \<forall>(l', row, v) \<in> set (list_items (fr_d r) ls l). scannable t (fr_metric r) (row_of (fr_d r) queries qi) v"
      "lists_streamable (fr_d r) ls"
    and pls: "length pls = nq" "list_all (\<lambda>ps. distinct ps \<and> set ps \<subseteq> {..<length ls}) pls"
    and fan: "unique_ok (map (probing pls) [0..<length ls]) uniq" and sched: "schedules sched" and b: "builder_stage nq probed b"
  shows "\<exists>b' ms rd. flat_list_loop big flat_range_enter
      (flat_range_chunk t band queries (fr_d r) (fr_metric r) row_filter (map (probing pls) [0..<length ls]))
      (flat_range_lists sched t band queries row_filter (map (probing pls) [0..<length ls])) uniq r (b, replicate nq query_merge_default)
        = Inr ((b', ms), r\<lparr>fr_reader := rd\<rparr>)
    \<and> same_file (fr_reader r) rd \<and> builder_stage nq probed b' \<and> length ms = nq
    \<and> (\<forall>qi < nq. range_bucket t band queries (fr_d r) (fr_metric r) row_filter qi (concat (map (list_items (fr_d r) ls) (pls ! qi))) (ms ! qi))"
proof -
  let ?d = "fr_d r" and ?m = "fr_metric r" and ?ltq = "map (probing pls) [0..<length ls]"
  have u: "set uniq \<subseteq> {..<length ls}" using fan by (auto simp: unique_ok_def)
  have okl: "list_all (\<lambda>l. l < length ls \<and> schedules sched \<and> fan_ok queries nq ?d ?ltq l) uniq"
    using u q(1) pls(1) sched by (auto simp: list_all_iff fan_ok_def)
  have rows: "list_all (range_row_ok t queries ?d ?m ?ltq) (concat (map (list_items ?d ls) uniq))"
    by (rule fanned_rows_ok[OF fan]) (use q(2) ok(1) pls(1) in blast)+
  have st: "list_all (\<lambda>l. ivf_payload_is_oversized (length (list_bytes_of (ls ! l))) \<longrightarrow> streamable ?d (fst (ls ! l))) uniq"
    using ok(2) u by (auto simp: lists_streamable_def list_all_iff)
  have start: "range_holds t band queries nq ?d ?m row_filter ?ltq probed [] (b, replicate nq query_merge_default)"
    using b by (simp add: range_holds_def range_bucket_def query_merge_default_def range_hits_def)
  obtain s rd where loop: "flat_list_loop big flat_range_enter (flat_range_chunk t band queries ?d ?m row_filter ?ltq)
      (flat_range_lists sched t band queries row_filter ?ltq) uniq r (b, replicate nq query_merge_default) = Inr (s, r\<lparr>fr_reader := rd\<rparr>)" "same_file (fr_reader r) rd"
    "range_holds t band queries nq ?d ?m row_filter ?ltq probed ([] @ concat (map (list_items ?d ls) uniq)) s"
    using range_loop.loop_delivers[OF h refl refl d okl rows st start, of big] by blast
  obtain b' ms where s: "s = (b', ms)" by (cases s)
  have S: "builder_stage nq probed b'" "length ms = nq"
    "\<And>qi. qi < nq \<Longrightarrow> range_bucket t band queries ?d ?m row_filter qi (rows_for ?ltq qi (concat (map (list_items ?d ls) uniq))) (ms ! qi)"
    using loop(3) unfolding s range_holds_def by auto
  have "range_bucket t band queries ?d ?m row_filter qi (concat (map (list_items ?d ls) (pls ! qi))) (ms ! qi)" if "qi < nq" for qi
    using range_bucket_mset[OF S(3)[OF that]] fanned_rows[OF pls(2) fan, of qi ?d ls] that pls(1) by blast
  then show ?thesis using loop(1,2) S(1,2) unfolding s by (intro exI[of _ b'] exI[of _ ms] exI[of _ rd]) blast
qed

text \<open>What the ranking of the lists needs under inner product and cosine: finite centroids and finite distances to
  them.\<close>

definition ranking_ok :: "arch \<Rightarrow> MetricType \<Rightarrow> f32 list \<Rightarrow> nat \<Rightarrow> f32 list \<Rightarrow> nat \<Rightarrow> nat \<Rightarrow> bool" where
  "ranking_ok t metric queries nq centroids nlist d \<longleftrightarrow>
     (metric \<noteq> L2 \<longrightarrow> finite_vec centroids \<and> (\<forall>qi < nq. \<forall>c < nlist. is_finite (cdist t (row_of d queries qi) centroids d c)))"

lemma range_probe_lists_ok:
  assumes "selects sel" "length queries = nq * d" "length centroids = nlist * d" "0 < d" "d \<le> I64_MAX" "nq * d < 2 ^ 64" "nlist * d < 2 ^ 64"
    and "gemm_fills gemm" "0 < nprobe" "ranking_ok t metric queries nq centroids nlist d"
  shows "\<exists>pls. range_probe_lists t sel gemm queries centroids d nlist nprobe metric = Inr pls \<and> length pls = nq
    \<and> (\<forall>qi < nq. probe_choice t metric queries nq centroids nlist d nprobe qi (pls ! qi))"
proof (cases "metric = L2")
  case True
  obtain pls where pls: "range_probe_lists t sel gemm queries centroids d nlist nprobe L2 = Inr pls"
    "list_all2 (probe_choice t L2 queries nq centroids nlist d nprobe) [0..<nq] pls" using range_probe_lists_L2[OF assms(1-8)] by blast
  have "probe_choice t L2 queries nq centroids nlist d nprobe qi (pls ! qi)" if "qi < nq" for qi
    using list_all2_nthD[OF pls(2), of qi] that by simp
  then show ?thesis using True pls(1) list_all2_lengthD[OF pls(2)] by auto
next
  case False
  then have "range_probe_lists t sel gemm queries centroids d nlist nprobe metric
      = Inr (map (\<lambda>q. fst (nearest_of t (row_of d queries q) centroids nlist d nprobe)) [0..<nq])"
    using range_probe_lists_checked[OF assms(1-4,9) False] assms(10) by (simp add: ranking_ok_def)
  then show ?thesis using chosen_lists[OF nearest_chosen] by (simp add: probe_choice_def Let_def)
qed

definition range_queries_ok :: "arch \<Rightarrow> MetricType \<Rightarrow> f32 list \<Rightarrow> nat \<Rightarrow> nat \<Rightarrow> bool" where
  "range_queries_ok t metric queries nq d \<longleftrightarrow> finite_vec queries
     \<and> (metric = Cosine \<longrightarrow> (\<forall>qi < nq. is_finite (snd (fvec_normalize t (row_of d queries qi)))
         \<and> finite_vec (fst (fvec_normalize t (row_of d queries qi)))))"

lemma prepare_range_queries_eq:
  assumes "0 < d" "length queries = nq * d" "range_queries_ok t metric queries nq d"
  shows "prepare_range_queries t queries d metric = Inr (batch_queries t metric queries nq d)"
proof (cases "metric = Cosine")
  case True
  let ?prep = "\<lambda>query. let (query', norm) = fvec_normalize t query in
       if \<not> is_finite norm \<or> list_ex (\<lambda>v. \<not> is_finite v) query' then Inl (Err InvalidData) else Inr query'"
  have prep: "?prep (row_of d queries qi) = Inr (fst (fvec_normalize t (row_of d queries qi)))" if "qi < nq" for qi
  proof -
    obtain x norm where x: "fvec_normalize t (row_of d queries qi) = (x, norm)" by (rule prod.exhaust)
    have "is_finite (snd (x, norm)) \<and> finite_vec (fst (x, norm))"
      using assms(3) that True unfolding range_queries_ok_def x[symmetric] by blast
    then have "is_finite norm" "\<not> list_ex (\<lambda>v. \<not> is_finite v) x" by (auto simp: finite_vec_def list_ex_iff list_all_iff)
    then show ?thesis unfolding x Let_def prod.case by simp
  qed
  have "map_res (\<lambda>qi. ?prep (row_of d queries qi)) [0..<nq] = Inr (map (\<lambda>qi. fst (fvec_normalize t (row_of d queries qi))) [0..<nq])"
    by (rule map_res_Inr_map) (use prep in simp)
  moreover have "map_res ?prep (map (row_of d queries) xs) = map_res (\<lambda>qi. ?prep (row_of d queries qi)) xs" for xs
    by (induction xs) simp_all
  ultimately have "map_res ?prep (chunks_exact d queries) = Inr (map (\<lambda>qi. fst (fvec_normalize t (row_of d queries qi))) [0..<nq])"
    using chunks_exact_rows[OF assms(1,2)] by simp
  moreover have "drop (d * (length queries div d)) queries = []" using assms(1,2) by simp
  ultimately show ?thesis using True assms(1) unfolding prepare_range_queries_def batch_queries_def by simp
qed (simp add: prepare_range_queries_def batch_queries_def)

lemma loaded_keeps:
  assumes "flat_ensure_loaded r = Inr r'"
  shows "fr_d r' = fr_d r" "fr_metric r' = fr_metric r" "fr_nlist r' = fr_nlist r"
  using assms unfolding flat_ensure_loaded_def Let_def by (auto simp: bind_res_eq_Inr split: if_splits prod.splits)

section \<open>A written index searched for a range\<close>

text \<open>The lists that a range search of an index probes.\<close>

definition range_lists :: "arch \<Rightarrow> selector \<Rightarrow> gemm \<Rightarrow> IVFFlatIndex \<Rightarrow> f32 list \<Rightarrow> nat \<Rightarrow> nat \<Rightarrow> nat list list res" where
  "range_lists t sel gemm index queries nq nprobe =
     range_probe_lists t sel gemm (batch_queries t (fi_metric index) queries nq (fi_d index)) (fi_quantizer_centroids index)
       (fi_d index) (fi_nlist index) (min nprobe (fi_nlist index)) (fi_metric index)"

definition range_choice :: "arch \<Rightarrow> IVFFlatIndex \<Rightarrow> f32 list \<Rightarrow> nat \<Rightarrow> nat \<Rightarrow> nat \<Rightarrow> nat list \<Rightarrow> bool" where
  "range_choice t index queries nq nprobe qi ps \<longleftrightarrow>
     (let q = query_row t index queries qi; centroids = fi_quantizer_centroids index; nlist = fi_nlist index; d = fi_d index in
      chosen t q centroids nlist d nprobe (ps, map (cdist t q centroids d) ps)
      \<and> (fi_metric index \<noteq> L2 \<or> nq = 1 \<or> nlist \<le> nprobe \<longrightarrow> ps = fst (nearest_of t q centroids nlist d nprobe)))"

text \<open>What a range search needs: the sizes fit, the queries and their normal forms are finite, the ranking can be
  done, and the rows of the probed lists are finite and at finite distances.\<close>

definition range_ready :: "arch \<Rightarrow> selector \<Rightarrow> gemm \<Rightarrow> IVFFlatIndex \<Rightarrow> f32 list \<Rightarrow> nat \<Rightarrow> nat \<Rightarrow> bool" where
  "range_ready t sel gemm index queries nq nprobe \<longleftrightarrow>
     0 < nq \<and> length queries = nq * fi_d index \<and> nq * fi_d index < 2 ^ 64 \<and> fi_nlist index * fi_d index < 2 ^ 64 \<and> fi_d index \<le> I64_MAX
   \<and> range_queries_ok t (fi_metric index) queries nq (fi_d index) \<and> lists_streamable (fi_d index) (stored_lists index)
   \<and> ranking_ok t (fi_metric index) (batch_queries t (fi_metric index) queries nq (fi_d index)) nq
       (fi_quantizer_centroids index) (fi_nlist index) (fi_d index)
   \<and> (case range_lists t sel gemm index queries nq nprobe of
        Inr pls \<Rightarrow> \<forall>qi < nq. \<forall>l \<in> set (pls ! qi).
          list_all (\<lambda>(row, v). scannable t (fi_metric index) (query_row t index queries qi) v) (list_rows index l)
      | Inl _ \<Rightarrow> True)"

definition band_ready :: "VectorRangeSearchParams \<Rightarrow> IVFFlatIndex \<Rightarrow> bool" where
  "band_ready params index \<longleftrightarrow> band_metric (rp_band params) = fi_metric index \<and> \<not> band_is_empty (rp_band params) \<and> 0 < rp_nprobe params"

lemma stored_rows:
  assumes "writable index" "l < fi_nlist index" "(l', row, v) \<in> set (list_items (fi_d index) (stored_lists index) l)"
  shows "(row, v) \<in> set (list_rows index l)"
proof -
  have len: "length (fi_vectors index ! l) = length (fi_ids index ! l) * fi_d index" using assms(1,2) by (simp add: writable_def)
  have "(l', row, v) \<in> set (row_items (fi_d index) l (fi_ids index ! l) (fi_vectors index ! l))"
    using assms(3) stored_lists_nth[OF assms(1,2)] mset_eq_setD[OF stored_items_mset[OF len, of l]] by simp
  then show ?thesis by (force simp: row_items_def list_rows_def)
qed

text \<open>The search once its queries are prepared and its lists chosen.\<close>

definition range_body ::
  "schedule \<Rightarrow> bool \<Rightarrow> arch \<Rightarrow> DistanceBand \<Rightarrow> f32 list \<Rightarrow> nat \<Rightarrow> row_filter \<Rightarrow> nat list list \<Rightarrow> IVFFlatIndexReader \<Rightarrow>
   (RangeSearchResult \<times> IVFFlatIndexReader) res" where
  "range_body sched big t band queries nq row_filter probe_lists r =
     bind_res (fold_res (\<lambda>(qi, probe). record_lists_probed qi (length probe)) (enumerate 0 probe_lists) (builder_new nq)) (\<lambda>builder.
     bind_res (fan_out (fr_nlist r) probe_lists) (\<lambda>(list_to_queries, unique_lists).
     bind_res (flat_list_loop big flat_range_enter (flat_range_chunk t band queries (fr_d r) (fr_metric r) row_filter list_to_queries)
         (flat_range_lists sched t band queries row_filter list_to_queries) unique_lists r (builder, replicate nq query_merge_default))
       (\<lambda>((builder', merges), r'). bind_res (fold_res flat_range_finish (enumerate 0 merges) builder') (\<lambda>builder''.
         Inr (builder_build builder'', r')))))"

lemma range_body_eq:
  assumes h: "holds r ls" and d: "0 < fr_d r" "length (file_bytes (fr_reader r)) < 2 ^ 63"
    and q: "length queries = nq * fr_d r" "fr_metric r = L2 \<longrightarrow> (\<forall>qi < nq. finite_vec (row_of (fr_d r) queries qi))"
    and ok: "\<forall>qi < nq. \<forall>l \<in> set (pls ! qi). \<forall>(l', row, v) \<in> set (list_items (fr_d r) ls l). scannable t (fr_metric r) (row_of (fr_d r) queries qi) v"
      "lists_streamable (fr_d r) ls"
    and pls: "length pls = nq" "list_all (\<lambda>ps. distinct ps \<and> set ps \<subseteq> {..<length ls}) pls" and sched: "schedules sched"
  shows "\<exists>res rd ms. range_body sched big t band queries nq row_filter pls r = Inr (res, r\<lparr>fr_reader := rd\<rparr>) \<and> length ms = nq
    \<and> (\<forall>qi < nq. result_query res qi = Inr (map fst (qm_rows (ms ! qi)), map snd (qm_rows (ms ! qi)), merge_stats (length (pls ! qi)) (ms ! qi))
      \<and> range_bucket t band queries (fr_d r) (fr_metric r) row_filter qi (concat (map (list_items (fr_d r) ls) (pls ! qi))) (ms ! qi))"
proof -
  have n: "fr_nlist r = length ls" using h by (simp add: holds_def)
  obtain uniq where fan: "fan_out (length ls) pls = Inr (map (probing pls) [0..<length ls], uniq)" "unique_ok (map (probing pls) [0..<length ls]) uniq"
    using fan_out_eq[OF pls(2)] by blast
  obtain b where b: "fold_res (\<lambda>(qi, probe). record_lists_probed qi (length probe)) (enumerate 0 pls) (builder_new nq) = Inr b"
    "builder_stage nq (\<lambda>qi. length (pls ! qi)) b" using probed_stage[OF pls(1)] by blast
  obtain b' ms rd where loop: "flat_list_loop big flat_range_enter (flat_range_chunk t band queries (fr_d r) (fr_metric r) row_filter (map (probing pls) [0..<length ls]))
      (flat_range_lists sched t band queries row_filter (map (probing pls) [0..<length ls])) uniq r (b, replicate nq query_merge_default) = Inr ((b', ms), r\<lparr>fr_reader := rd\<rparr>)"
    "builder_stage nq (\<lambda>qi. length (pls ! qi)) b'" "length ms = nq"
    "\<And>qi. qi < nq \<Longrightarrow> range_bucket t band queries (fr_d r) (fr_metric r) row_filter qi (concat (map (list_items (fr_d r) ls) (pls ! qi))) (ms ! qi)"
    using range_search_loop[where big = big and band = band and row_filter = row_filter and t = t and pls = pls and queries = queries,
        OF h d q ok pls fan(2) sched b(2)] by blast
  obtain b'' where fin: "fold_res flat_range_finish (enumerate 0 ms) b' = Inr b''"
    "\<And>qi. qi < nq \<Longrightarrow> result_query (builder_build b'') qi = Inr (map fst (qm_rows (ms ! qi)), map snd (qm_rows (ms ! qi)), merge_stats (length (pls ! qi)) (ms ! qi))"
    using finish_stage[OF loop(2,3)] by blast
  have "range_body sched big t band queries nq row_filter pls r = Inr (builder_build b'', r\<lparr>fr_reader := rd\<rparr>)"
    unfolding range_body_def b(1) n fan(1) bind_res_Inr prod.case loop(1) fin(1) by simp
  then show ?thesis using loop(3,4) fin(2) by (intro exI[of _ "builder_build b''"] exI[of _ rd] exI[of _ ms]) blast
qed

lemma range_lists_ok:
  assumes w: "writable index" and ready: "range_ready t sel gemm index queries nq nprobe" "0 < nprobe" and s: "selects sel" "gemm_fills gemm"
  shows "\<exists>pls. range_lists t sel gemm index queries nq nprobe = Inr pls \<and> length pls = nq
    \<and> (\<forall>qi < nq. range_choice t index queries nq nprobe qi (pls ! qi))"
proof -
  let ?d = "fi_d index" and ?m = "fi_metric index" and ?n = "fi_nlist index" and ?C = "fi_quantizer_centroids index"
    and ?P = "batch_queries t (fi_metric index) queries nq (fi_d index)"
  have W: "0 < ?d" "length ?C = ?n * ?d" "0 < ?n" using w by (auto simp: writable_def)
  have B: "length queries = nq * ?d" "nq * ?d < 2 ^ 64" "?n * ?d < 2 ^ 64" "?d \<le> I64_MAX" "ranking_ok t ?m ?P nq ?C ?n ?d"
    using ready(1) by (auto simp: range_ready_def)
  have n: "0 < min nprobe ?n" using ready(2) W(3) by simp
  obtain pls where pls: "range_lists t sel gemm index queries nq nprobe = Inr pls" "length pls = nq"
    "\<And>qi. qi < nq \<Longrightarrow> probe_choice t ?m ?P nq ?C ?n ?d (min nprobe ?n) qi (pls ! qi)"
    using range_probe_lists_ok[OF s(1) batch_queries_rows(1)[OF B(1)] W(2,1) B(4,2,3) s(2) n B(5)] unfolding range_lists_def by blast
  have min: "chosen t q ?C ?n ?d (min nprobe ?n) = chosen t q ?C ?n ?d nprobe" "nearest_of t q ?C ?n ?d (min nprobe ?n) = nearest_of t q ?C ?n ?d nprobe" for q
    by (simp_all add: chosen_def fun_eq_iff nearest_of_def ranked_pairs min_def)
  have "range_choice t index queries nq nprobe qi (pls ! qi)" if "qi < nq" for qi
    using pls(3)[OF that] batch_queries_rows(2)[OF B(1) that] by (simp add: probe_choice_def range_choice_def query_row_def Let_def min)
  then show ?thesis using pls(1,2) by blast
qed

lemma range_front:
  assumes r: "reads_index r index" and ready: "range_ready t sel gemm index queries nq (rp_nprobe params)" "band_ready params index"
    and pls: "range_lists t sel gemm index queries nq (rp_nprobe params) = Inr pls" and r0: "flat_ensure_loaded r0 = Inr r"
  shows "flat_range_search_batch_with_filter sched big t sel gemm queries nq params row_filter r0
    = range_body sched big t (rp_band params) (batch_queries t (fi_metric index) queries nq (fi_d index)) nq row_filter pls r"
proof -
  let ?d = "fi_d index" and ?m = "fi_metric index" and ?n = "fi_nlist index" and ?np = "rp_nprobe params"
    and ?P = "batch_queries t (fi_metric index) queries nq (fi_d index)"
  have R: "fr_d r = ?d" "fr_metric r = ?m" "fr_quantizer_centroids r = fi_quantizer_centroids index" "fr_nlist r = ?n" "0 < ?d"
    using r length_stored_lists[of index] by (auto simp: reads_index_def holds_def writable_def)
  have B: "0 < nq" "length queries = nq * ?d" "nq * ?d < 2 ^ 64" "range_queries_ok t ?m queries nq ?d" using ready(1) by (auto simp: range_ready_def)
  have band: "band_metric (rp_band params) = ?m" "\<not> band_is_empty (rp_band params)" "0 < ?np" using ready(2) by (auto simp: band_ready_def)
  have valid: "validate_queries queries nq ?d = Inr ()"
    using B by (simp add: validate_queries_def checked_mul_def validate_finite_values_def range_queries_ok_def finite_vec_def subslice_def slice_def)
  have prep: "prepare_range_queries t queries ?d ?m = Inr ?P" by (rule prepare_range_queries_eq[OF R(5) B(2,4)])
  have rv: "range_validate params ?n = Inr (min ?np ?n)" using band(3) by (simp add: range_validate_def range_validate_shape_def)
  have r0': "fr_d r0 = ?d" "fr_metric r0 = ?m" "fr_nlist r0 = ?n" using loaded_keeps[OF r0] R by simp_all
  show ?thesis using band(1,2)
    unfolding flat_range_search_batch_with_filter_def range_body_def r0' valid bind_res_Inr rv r0 R(1-4) prep pls[unfolded range_lists_def] by simp
qed

lemma index_range:
  assumes r: "reads_index r index" and ready: "range_ready t sel gemm index queries nq (rp_nprobe params)" "band_ready params index"
    and s: "schedules sched" and r0: "flat_ensure_loaded r0 = Inr r"
    and top: "range_lists t sel gemm index queries nq (rp_nprobe params) = Inr pls" "length pls = nq"
      "\<forall>qi < nq. range_choice t index queries nq (rp_nprobe params) qi (pls ! qi)"
  shows "\<exists>res rd ms. flat_range_search_batch_with_filter sched big t sel gemm queries nq params row_filter r0 = Inr (res, r\<lparr>fr_reader := rd\<rparr>)
    \<and> length ms = nq \<and> (\<forall>qi < nq. let offers = probed_offers t row_filter index (query_row t index queries qi) (pls ! qi) in
        result_query res qi = Inr (map fst (qm_rows (ms ! qi)), map snd (qm_rows (ms ! qi)), merge_stats (min (rp_nprobe params) (fi_nlist index)) (ms ! qi))
      \<and> mset (qm_rows (ms ! qi)) = mset (range_hits (rp_band params) offers) \<and> qm_scanned (ms ! qi) = length offers
      \<and> length (qm_rows (ms ! qi)) + qm_early_abandoned (ms ! qi) \<le> qm_scanned (ms ! qi))"
proof -
  let ?d = "fi_d index" and ?m = "fi_metric index" and ?n = "fi_nlist index" and ?P = "batch_queries t (fi_metric index) queries nq (fi_d index)"
    and ?ls = "stored_lists index" and ?Q = "query_row t index queries"
  have R: "writable index" "holds r ?ls" "fr_d r = ?d" "fr_metric r = ?m" "length (file_bytes (fr_reader r)) < 2 ^ 63" "0 < ?d"
    using r by (auto simp: reads_index_def writable_def)
  have n: "length ?ls = ?n" by (rule length_stored_lists[OF R(1)])
  have B: "length queries = nq * ?d" "range_queries_ok t ?m queries nq ?d" "lists_streamable ?d ?ls" using ready(1) by (auto simp: range_ready_def)
  have rows: "row_of ?d ?P qi = ?Q qi" if "qi < nq" for qi using batch_queries_rows(2)[OF B(1) that] by (simp add: query_row_def)
  have each: "distinct (pls ! qi)" "set (pls ! qi) \<subseteq> {..<?n}" "length (pls ! qi) = min (rp_nprobe params) ?n" if "qi < nq" for qi
    using top(3) that by (auto simp: range_choice_def Let_def chosen_def list_all_iff)
  have pls: "list_all (\<lambda>ps. distinct ps \<and> set ps \<subseteq> {..<?n}) pls" using each top(2) by (auto simp: list_all_length)
  have "scannable t ?m (row_of ?d ?P qi) v" if q: "qi < nq" and l: "l \<in> set (pls ! qi)" and v: "(l', row, v) \<in> set (list_items ?d ?ls l)" for qi l l' row v
  proof -
    have "list_all (\<lambda>(row, v). scannable t ?m (?Q qi) v) (list_rows index l)" using ready(1) q l top(1) by (simp add: range_ready_def)
    moreover have "l < ?n" using each(2)[OF q] l by auto
    ultimately show ?thesis using stored_rows[OF R(1) _ v] rows[OF q] by (auto simp: list_all_iff)
  qed
  then have scan: "\<forall>qi < nq. \<forall>l \<in> set (pls ! qi). \<forall>(l', row, v) \<in> set (list_items ?d ?ls l). scannable t ?m (row_of ?d ?P qi) v" by blast
  have fin: "?m = L2 \<longrightarrow> (\<forall>qi < nq. finite_vec (row_of ?d ?P qi))"
    using B(2) finite_vec_row_of by (auto simp: batch_queries_def range_queries_ok_def)
  obtain res rd ms where body: "range_body sched big t (rp_band params) ?P nq row_filter pls r = Inr (res, r\<lparr>fr_reader := rd\<rparr>)" "length ms = nq"
    "\<And>qi. qi < nq \<Longrightarrow> result_query res qi = Inr (map fst (qm_rows (ms ! qi)), map snd (qm_rows (ms ! qi)), merge_stats (length (pls ! qi)) (ms ! qi))
      \<and> range_bucket t (rp_band params) ?P ?d ?m row_filter qi (concat (map (list_items ?d ?ls) (pls ! qi))) (ms ! qi)"
    using range_body_eq[where big = big and band = "rp_band params" and row_filter = row_filter and t = t and pls = pls and queries = ?P, OF R(2),
        unfolded R n, OF R(6,5) batch_queries_rows(1)[OF B(1)] fin scan B(3) top(2) pls s] by blast
  have "let offers = probed_offers t row_filter index (?Q qi) (pls ! qi) in
        result_query res qi = Inr (map fst (qm_rows (ms ! qi)), map snd (qm_rows (ms ! qi)), merge_stats (min (rp_nprobe params) ?n) (ms ! qi))
      \<and> mset (qm_rows (ms ! qi)) = mset (range_hits (rp_band params) offers) \<and> qm_scanned (ms ! qi) = length offers
      \<and> length (qm_rows (ms ! qi)) + qm_early_abandoned (ms ! qi) \<le> qm_scanned (ms ! qi)" if q: "qi < nq" for qi
  proof -
    have "\<forall>l \<in> set (pls ! qi). l < ?n" using each(2)[OF q] by blast
    from stored_offers_mset[OF R(1) this, of t "?Q qi" row_filter]
    have off: "mset (item_offers t (?Q qi) ?m row_filter (concat (map (list_items ?d ?ls) (pls ! qi)))) = mset (probed_offers t row_filter index (?Q qi) (pls ! qi))"
      by (simp add: probed_offers_def)
    show ?thesis using body(3)[OF q] range_hits_mset[OF off, of "rp_band params"] mset_eq_length[OF off] each(3)[OF q]
      unfolding range_bucket_def rows[OF q] Let_def by simp
  qed
  then show ?thesis using body(1,2) unfolding range_front[OF r ready top(1) r0] by blast
qed

section \<open>Property\<close>

text \<open>C10: a range search over a written and reopened index returns for every query exactly the rows of its probed
  lists that the filter lets through and whose distance the band admits, each with its distance and as often as
  it is stored, whatever the order in which parallel tasks merge. The probed lists are those that
  \<open>range_probe_lists\<close> returned: \<open>nprobe\<close> different lists, or all of them, in the order of their exact distances, and
  the nearest ones unless several queries are ranked by a matrix product under L2. Of the statistics the numbers of
  probed lists, of scanned rows and of returned rows are exact; of the number of rows given up early it is shown
  that together with the returned rows it is at most the number of scanned rows. The queries, the rows of the
  probed lists and their distances are finite; of the matrix product only the size of its result is used.\<close>

theorem flat_range_search_exact:
  assumes "write_ivfflat_index index [] = Inr bs" "file_bytes rd = bs" "length bs < 2 ^ 63"
    and "range_ready t sel gemm index queries nq (rp_nprobe params)" "band_ready params index" "selects sel" "gemm_fills gemm" "schedules sched"
  shows "\<exists>r res r' pls. flat_open rd = Inr r
    \<and> range_lists t sel gemm index queries nq (rp_nprobe params) = Inr pls \<and> length pls = nq
    \<and> flat_range_search_batch_with_filter sched big t sel gemm queries nq params row_filter r = Inr (res, r')
    \<and> (\<forall>qi < nq. let offers = probed_offers t row_filter index (query_row t index queries qi) (pls ! qi) in
        range_choice t index queries nq (rp_nprobe params) qi (pls ! qi)
        \<and> (\<exists>labels dists stats. result_query res qi = Inr (labels, dists, stats) \<and> length dists = length labels
          \<and> mset (zip labels dists) = mset (filter (\<lambda>(row, v). admit_raw (rp_band params) v) (map prod.swap offers))
          \<and> lists_probed stats = min (rp_nprobe params) (fi_nlist index) \<and> rows_scanned stats = length offers
          \<and> rows_committed stats = length labels \<and> rows_committed stats + early_abandoned stats \<le> rows_scanned stats))"
proof -
  have w: "writable index" using assms(1) by (simp add: write_ivfflat_index_iff)
  obtain r r' where r: "flat_open rd = Inr r" "flat_ensure_loaded r = Inr r'" "reads_index r' index" using written_reads[OF assms(1-3)] by blast
  have np: "0 < rp_nprobe params" using assms(5) by (simp add: band_ready_def)
  obtain pls where pls: "range_lists t sel gemm index queries nq (rp_nprobe params) = Inr pls" "length pls = nq"
    "\<forall>qi < nq. range_choice t index queries nq (rp_nprobe params) qi (pls ! qi)" using range_lists_ok[OF w assms(4) np assms(6,7)] by blast
  obtain res rd' ms where S: "flat_range_search_batch_with_filter sched big t sel gemm queries nq params row_filter r = Inr (res, r'\<lparr>fr_reader := rd'\<rparr>)"
    "\<And>qi. qi < nq \<Longrightarrow> let offers = probed_offers t row_filter index (query_row t index queries qi) (pls ! qi) in
        result_query res qi = Inr (map fst (qm_rows (ms ! qi)), map snd (qm_rows (ms ! qi)), merge_stats (min (rp_nprobe params) (fi_nlist index)) (ms ! qi))
      \<and> mset (qm_rows (ms ! qi)) = mset (range_hits (rp_band params) offers) \<and> qm_scanned (ms ! qi) = length offers
      \<and> length (qm_rows (ms ! qi)) + qm_early_abandoned (ms ! qi) \<le> qm_scanned (ms ! qi)"
    using index_range[OF r(3) assms(4,5,8) r(2) pls, of big row_filter] by blast
  have "let offers = probed_offers t row_filter index (query_row t index queries qi) (pls ! qi) in
        range_choice t index queries nq (rp_nprobe params) qi (pls ! qi)
        \<and> (\<exists>labels dists stats. result_query res qi = Inr (labels, dists, stats) \<and> length dists = length labels
          \<and> mset (zip labels dists) = mset (filter (\<lambda>(row, v). admit_raw (rp_band params) v) (map prod.swap offers))
          \<and> lists_probed stats = min (rp_nprobe params) (fi_nlist index) \<and> rows_scanned stats = length offers
          \<and> rows_committed stats = length labels \<and> rows_committed stats + early_abandoned stats \<le> rows_scanned stats)" if "qi < nq" for qi
    using S(2)[OF that] pls(3) that by (auto simp: Let_def zip_map_fst_snd merge_stats_def range_hits_def)
  then show ?thesis using r(1) pls(1,2) S(1) by blast
qed

definition pair_params :: VectorRangeSearchParams where
  "pair_params = \<lparr>rp_band = \<lparr>band_lower = Unbounded, band_upper = Finite f32_one, band_metric = L2\<rparr>, rp_nprobe = 1\<rparr>"

lemma pair_range_lists:
  "range_lists OtherArch (\<lambda>n. sort) product_of_columns pair_index [f32_one, f32_one] 2 1 = Inr [[1], [1]]"
  using pair_ranking(1) by (simp add: range_lists_def range_probe_lists_def index_ranking_def pair_index_def batch_queries_def numeral_2_eq_2)

lemma pair_range_ready: "range_ready OtherArch (\<lambda>n. sort) product_of_columns pair_index [f32_one, f32_one] 2 1"
proof -
  have "list_rows pair_index 1 = [(7, [f32_one])]" by (simp add: list_rows_def pair_index_def row_of_def slice_def)
  moreover have "row_distance OtherArch [f32_one] L2 [f32_one] = f32_zero" by (simp add: row_distance_def fvec_distance_def l2_eval f32_eval)
  ultimately have "list_all (\<lambda>(row, v). scannable OtherArch L2 [f32_one] v) (list_rows pair_index 1)"
    by (simp add: scannable_def finite_vec_def)
  then have "\<forall>qi < 2. \<forall>l \<in> set ([[1], [1]] ! qi). list_all (\<lambda>(row, v).
      scannable OtherArch (fi_metric pair_index) (query_row OtherArch pair_index [f32_one, f32_one] qi) v) (list_rows pair_index l)"
    using pair_row by (auto simp: less_2_cases_iff pair_index_def)
  then show ?thesis using pair_facts(4) unfolding range_ready_def pair_range_lists
    by (simp add: batch_ready_def) (simp add: pair_index_def range_queries_ok_def ranking_ok_def)
qed

theorem flat_range_search_exact_witness:
  "\<exists>r res r' stats. flat_open pair_reader = Inr r
    \<and> flat_range_search_batch_with_filter rev False OtherArch (\<lambda>n. sort) product_of_columns [f32_one, f32_one] 2 pair_params None r = Inr (res, r')
    \<and> result_query res 1 = Inr ([7], [f32_zero], stats) \<and> rows_scanned stats = 1"
proof -
  have S: "rp_nprobe pair_params = 1" "rp_band pair_params = \<lparr>band_lower = Unbounded, band_upper = Finite f32_one, band_metric = L2\<rparr>"
    by (simp_all add: pair_params_def)
  have band: "band_ready pair_params pair_index" by (simp add: band_ready_def S pair_index_def band_is_empty_def)
  have hits: "filter (\<lambda>(row, v). admit_raw (rp_band pair_params) v) (map prod.swap [(f32_zero, 7 :: i64)]) = [(7, f32_zero)]"
    by (simp add: S admit_raw_def f32_cmp_defs)
  have sched: "schedules rev" by (simp add: schedules_def)
  obtain r res r' where R: "flat_open pair_reader = Inr r"
    "flat_range_search_batch_with_filter rev False OtherArch (\<lambda>n. sort) product_of_columns [f32_one, f32_one] 2 pair_params None r = Inr (res, r')"
    and each: "\<forall>qi < 2. let offers = probed_offers OtherArch None pair_index (query_row OtherArch pair_index [f32_one, f32_one] qi) ([[1], [1]] ! qi) in
        range_choice OtherArch pair_index [f32_one, f32_one] 2 1 qi ([[1], [1]] ! qi)
        \<and> (\<exists>labels dists stats. result_query res qi = Inr (labels, dists, stats) \<and> length dists = length labels
          \<and> mset (zip labels dists) = mset (filter (\<lambda>(row, v). admit_raw (rp_band pair_params) v) (map prod.swap offers))
          \<and> lists_probed stats = min 1 (fi_nlist pair_index) \<and> rows_scanned stats = length offers
          \<and> rows_committed stats = length labels \<and> rows_committed stats + early_abandoned stats \<le> rows_scanned stats)"
    using flat_range_search_exact[OF pair_facts(1-3), of OtherArch "\<lambda>n. sort" product_of_columns "[f32_one, f32_one]" 2 pair_params rev False None,
        unfolded S(1) pair_range_lists, OF pair_range_ready band selects_sort product_fills sched] by auto
  have off: "probed_offers OtherArch None pair_index (query_row OtherArch pair_index [f32_one, f32_one] 1) ([[1], [1]] ! 1) = [(f32_zero, 7)]"
    using pair_row[of 1] pair_offers by simp
  have "(1 :: nat) < 2" by simp
  from each[rule_format, OF this, unfolded off Let_def hits]
  obtain labels dists stats where L: "result_query res 1 = Inr (labels, dists, stats)" "length dists = length labels"
    "mset (zip labels dists) = mset [(7, f32_zero)]" "rows_scanned stats = length [(f32_zero, 7 :: i64)]" by blast
  have "zip labels dists = [(7, f32_zero)]" using L(3) by simp
  then have "labels = [7] \<and> dists = [f32_zero]" using L(2) by (cases labels; cases dists) auto
  then show ?thesis using R L(1,4) by auto
qed

end
