(* ===== verification/Adjacency.thy ===== *)
theory Adjacency
  imports Prelude
begin

text \<open>
  The stores of a Vamana graph in \<open>core/src/vamana.rs\<close>: \<open>AdjacencyShard\<close>, \<open>CompactAdjacency\<close> and
  \<open>ParallelAdjacency\<close>. A shard keeps the neighbours of up to 256 nodes in one flat vector with a fixed number
  of slots per node and a 16-bit degree; the parallel store holds each shard behind a lock, which only
  one thread writes at a time. Both refine a list of neighbour lists.
\<close>

definition PARALLEL_ADJACENCY_NODES_PER_SHARD :: nat where
  "PARALLEL_ADJACENCY_NODES_PER_SHARD = 256"

record AdjacencyShard =
  sh_start_node :: nat
  sh_node_count :: nat
  sh_slots :: "u32 list"
  sh_degrees :: "u16 list"

section \<open>A shard\<close>

definition local_node_of :: "nat \<Rightarrow> AdjacencyShard \<Rightarrow> nat res" where
  "local_node_of node sh = ok_or Panic (checked_sub node (sh_start_node sh))"

definition shard_neighbors :: "nat \<Rightarrow> nat \<Rightarrow> AdjacencyShard \<Rightarrow> u32 list res" where
  "shard_neighbors node max_degree sh =
     bind_res (local_node_of node sh) (\<lambda>local_node.
     let start = local_node * max_degree in
     bind_res (idx (sh_degrees sh) local_node) (\<lambda>degree.
       subslice start (start + unat degree) (sh_slots sh)))"

text \<open>\<open>neighbors_mut\<close> followed by a write of \<open>f\<close> of the neighbours through the slice it returns.\<close>

definition shard_neighbors_mut :: "nat \<Rightarrow> nat \<Rightarrow> (u32 list \<Rightarrow> u32 list res) \<Rightarrow> AdjacencyShard \<Rightarrow> AdjacencyShard res" where
  "shard_neighbors_mut node max_degree f sh =
     bind_res (local_node_of node sh) (\<lambda>local_node.
     let start = local_node * max_degree in
     bind_res (idx (sh_degrees sh) local_node) (\<lambda>degree.
     bind_res (subslice start (start + unat degree) (sh_slots sh)) (\<lambda>neighbors.
     bind_res (f neighbors) (\<lambda>neighbors'.
     bind_res (copy_from_slice start (start + unat degree) neighbors' (sh_slots sh)) (\<lambda>slots.
       Inr (sh\<lparr>sh_slots := slots\<rparr>))))))"

definition shard_replace :: "nat \<Rightarrow> nat \<Rightarrow> u32 list \<Rightarrow> AdjacencyShard \<Rightarrow> AdjacencyShard res" where
  "shard_replace node max_degree neighbors sh =
     bind_res (local_node_of node sh) (\<lambda>local_node.
     let start = local_node * max_degree in
     bind_res (copy_from_slice start (start + length neighbors) neighbors (sh_slots sh)) (\<lambda>slots.
     bind_res (set_idx (sh_degrees sh) local_node (word_of_nat (length neighbors))) (\<lambda>degrees.
       Inr (sh\<lparr>sh_slots := slots, sh_degrees := degrees\<rparr>))))"

definition shard_push :: "nat \<Rightarrow> nat \<Rightarrow> u32 \<Rightarrow> AdjacencyShard \<Rightarrow> AdjacencyShard res" where
  "shard_push node max_degree neighbor sh =
     bind_res (local_node_of node sh) (\<lambda>local_node.
     bind_res (idx (sh_degrees sh) local_node) (\<lambda>degree.
     if \<not> unat degree < max_degree then Inl Panic
     else bind_res (set_idx (sh_slots sh) (local_node * max_degree + unat degree) neighbor) (\<lambda>slots.
       Inr (sh\<lparr>sh_slots := slots, sh_degrees := (sh_degrees sh)[local_node := degree + 1]\<rparr>))))"

definition shard_swap_remove :: "nat \<Rightarrow> nat \<Rightarrow> nat \<Rightarrow> AdjacencyShard \<Rightarrow> AdjacencyShard res" where
  "shard_swap_remove node max_degree slot sh =
     bind_res (local_node_of node sh) (\<lambda>local_node.
     bind_res (idx (sh_degrees sh) local_node) (\<lambda>degree.
     if \<not> slot < unat degree then Inl Panic
     else let start = local_node * max_degree in
       bind_res (idx (sh_slots sh) (start + unat degree - 1)) (\<lambda>moved.
       bind_res (set_idx (sh_slots sh) (start + slot) moved) (\<lambda>slots.
         Inr (sh\<lparr>sh_slots := slots, sh_degrees := (sh_degrees sh)[local_node := degree - 1]\<rparr>)))))"

text \<open>The slots and the degree of a node change places with a buffer.\<close>

definition shard_swap_node_with_buffer ::
  "nat \<Rightarrow> nat \<Rightarrow> u32 list \<times> u16 \<Rightarrow> AdjacencyShard \<Rightarrow> ((u32 list \<times> u16) \<times> AdjacencyShard) res" where
  "shard_swap_node_with_buffer node max_degree = (\<lambda>(slots, degree) sh.
     bind_res (local_node_of node sh) (\<lambda>local_node.
     let start = local_node * max_degree in
     bind_res (subslice start (start + max_degree) (sh_slots sh)) (\<lambda>stored.
     let n = min (length stored) (length slots) in
     bind_res (copy_from_slice start (start + max_degree) (take n slots @ drop n stored) (sh_slots sh)) (\<lambda>slots'.
     bind_res (idx (sh_degrees sh) local_node) (\<lambda>degree'.
       Inr ((take n stored @ drop n slots, degree'),
            sh\<lparr>sh_slots := slots', sh_degrees := (sh_degrees sh)[local_node := degree]\<rparr>))))))"

section \<open>The compact store\<close>

record CompactAdjacency =
  ca_shards :: "AdjacencyShard list"
  ca_node_count :: nat
  ca_max_degree :: nat

definition shard_index :: "nat \<Rightarrow> nat" where
  "shard_index node = node div PARALLEL_ADJACENCY_NODES_PER_SHARD"

text \<open>The first nodes of the shards: \<open>(0..node_count).step_by(256)\<close>.\<close>

definition shard_starts :: "nat \<Rightarrow> nat list" where
  "shard_starts node_count = map (\<lambda>i. i * PARALLEL_ADJACENCY_NODES_PER_SHARD) [0..<div_ceil node_count PARALLEL_ADJACENCY_NODES_PER_SHARD]"

definition ca_empty :: "nat \<Rightarrow> nat \<Rightarrow> CompactAdjacency" where
  "ca_empty node_count max_degree =
     \<lparr>ca_shards = map (\<lambda>start_node.
        let shard_node_count = min PARALLEL_ADJACENCY_NODES_PER_SHARD (node_count - start_node) in
        \<lparr>sh_start_node = start_node, sh_node_count = shard_node_count,
         sh_slots = replicate (shard_node_count * max_degree) 0, sh_degrees = replicate shard_node_count 0\<rparr>) (shard_starts node_count),
      ca_node_count = node_count, ca_max_degree = max_degree\<rparr>"

definition nested_row :: "nat \<Rightarrow> u32 list list \<Rightarrow> nat \<Rightarrow> nat \<Rightarrow> u32 list \<times> u16 list \<Rightarrow> (u32 list \<times> u16 list) res" where
  "nested_row max_degree adjacency start_node local_node = (\<lambda>(slots, degrees).
     bind_res (idx adjacency (start_node + local_node)) (\<lambda>neighbors.
     if \<not> length neighbors \<le> max_degree then Inl Panic
     else let slot_start = local_node * max_degree in
     bind_res (copy_from_slice slot_start (slot_start + length neighbors) neighbors slots) (\<lambda>slots'.
     if \<not> length neighbors < 2 ^ 16 then Inl Panic
     else bind_res (set_idx degrees local_node (word_of_nat (length neighbors))) (\<lambda>degrees'.
       Inr (slots', degrees')))))"

definition ca_from_nested :: "u32 list list \<Rightarrow> nat \<Rightarrow> CompactAdjacency res" where
  "ca_from_nested adjacency max_degree =
     (let node_count = length adjacency in
      bind_res (map_res (\<lambda>start_node.
        let shard_node_count = min PARALLEL_ADJACENCY_NODES_PER_SHARD (node_count - start_node) in
        bind_res (fold_res (nested_row max_degree adjacency start_node) [0..<shard_node_count]
            (replicate (shard_node_count * max_degree) 0, replicate shard_node_count 0)) (\<lambda>(slots, degrees).
          Inr \<lparr>sh_start_node = start_node, sh_node_count = shard_node_count, sh_slots = slots, sh_degrees = degrees\<rparr>))
        (shard_starts node_count)) (\<lambda>shards.
        Inr \<lparr>ca_shards = shards, ca_node_count = node_count, ca_max_degree = max_degree\<rparr>))"

text \<open>One call on the shard of a node.\<close>

definition on_shard :: "nat \<Rightarrow> (AdjacencyShard \<Rightarrow> AdjacencyShard res) \<Rightarrow> AdjacencyShard list \<Rightarrow> AdjacencyShard list res" where
  "on_shard node f shards =
     bind_res (idx shards (shard_index node)) (\<lambda>sh.
     bind_res (f sh) (\<lambda>sh'. Inr (shards[shard_index node := sh'])))"

definition ca_neighbors :: "nat \<Rightarrow> CompactAdjacency \<Rightarrow> u32 list res" where
  "ca_neighbors node ca =
     bind_res (idx (ca_shards ca) (shard_index node)) (\<lambda>sh. shard_neighbors node (ca_max_degree ca) sh)"

definition ca_iter :: "CompactAdjacency \<Rightarrow> u32 list list res" where
  "ca_iter ca = map_res (\<lambda>node. ca_neighbors node ca) [0..<ca_node_count ca]"

definition ca_update :: "nat \<Rightarrow> (nat \<Rightarrow> AdjacencyShard \<Rightarrow> AdjacencyShard res) \<Rightarrow> CompactAdjacency \<Rightarrow> CompactAdjacency res" where
  "ca_update node f ca =
     bind_res (on_shard node (f (ca_max_degree ca)) (ca_shards ca)) (\<lambda>shards. Inr (ca\<lparr>ca_shards := shards\<rparr>))"

definition ca_replace :: "nat \<Rightarrow> u32 list \<Rightarrow> CompactAdjacency \<Rightarrow> CompactAdjacency res" where
  "ca_replace node neighbors = ca_update node (\<lambda>max_degree. shard_replace node max_degree neighbors)"

definition ca_push :: "nat \<Rightarrow> u32 \<Rightarrow> CompactAdjacency \<Rightarrow> CompactAdjacency res" where
  "ca_push node neighbor = ca_update node (\<lambda>max_degree. shard_push node max_degree neighbor)"

definition ca_swap_remove :: "nat \<Rightarrow> nat \<Rightarrow> CompactAdjacency \<Rightarrow> CompactAdjacency res" where
  "ca_swap_remove node slot = ca_update node (\<lambda>max_degree. shard_swap_remove node max_degree slot)"

definition ca_neighbors_mut :: "nat \<Rightarrow> (u32 list \<Rightarrow> u32 list res) \<Rightarrow> CompactAdjacency \<Rightarrow> CompactAdjacency res" where
  "ca_neighbors_mut node f = ca_update node (\<lambda>max_degree. shard_neighbors_mut node max_degree f)"

definition ca_node_slots :: "nat \<Rightarrow> CompactAdjacency \<Rightarrow> u32 list res" where
  "ca_node_slots node ca =
     bind_res (idx (ca_shards ca) (shard_index node)) (\<lambda>sh.
     bind_res (local_node_of node sh) (\<lambda>local_node.
     let start = local_node * ca_max_degree ca in subslice start (start + ca_max_degree ca) (sh_slots sh)))"

definition ca_node_degree :: "nat \<Rightarrow> CompactAdjacency \<Rightarrow> u16 res" where
  "ca_node_degree node ca =
     bind_res (idx (ca_shards ca) (shard_index node)) (\<lambda>sh.
     bind_res (local_node_of node sh) (\<lambda>local_node. idx (sh_degrees sh) local_node))"

definition ca_swap_node_with_buffer ::
  "nat \<Rightarrow> u32 list \<times> u16 \<Rightarrow> CompactAdjacency \<Rightarrow> ((u32 list \<times> u16) \<times> CompactAdjacency) res" where
  "ca_swap_node_with_buffer node buffer ca =
     bind_res (idx (ca_shards ca) (shard_index node)) (\<lambda>sh.
     bind_res (shard_swap_node_with_buffer node (ca_max_degree ca) buffer sh) (\<lambda>(buffer', sh').
       Inr (buffer', ca\<lparr>ca_shards := (ca_shards ca)[shard_index node := sh']\<rparr>)))"

text \<open>\<open>permute_and_map_neighbors\<close>: the rows move along the cycles of the mapping through one buffer, then the
  neighbours are renamed and sorted. A cycle passes each node once, so as many rounds as there are
  nodes are enough.\<close>

fun permute_cycle ::
  "nat \<Rightarrow> u32 list \<Rightarrow> nat \<Rightarrow> nat \<Rightarrow> u32 list \<times> u16 \<Rightarrow> bool list \<times> CompactAdjacency \<Rightarrow> (bool list \<times> CompactAdjacency) res" where
  "permute_cycle 0 old_to_new start current buffer s = Inl Diverge"
| "permute_cycle (Suc fuel) old_to_new start current buffer (visited, ca) =
     bind_res (set_idx visited current True) (\<lambda>visited'.
     bind_res (idx old_to_new current) (\<lambda>dest.
     if \<not> unat dest < ca_node_count ca then Inl Panic
     else bind_res (ca_swap_node_with_buffer (unat dest) buffer ca) (\<lambda>(buffer', ca').
       if unat dest = start then Inr (visited', ca')
       else bind_res (idx visited' (unat dest)) (\<lambda>seen.
         if seen then Inl Panic else permute_cycle fuel old_to_new start (unat dest) buffer' (visited', ca')))))"

definition permute_from :: "u32 list \<Rightarrow> nat \<Rightarrow> bool list \<times> CompactAdjacency \<Rightarrow> (bool list \<times> CompactAdjacency) res" where
  "permute_from old_to_new start = (\<lambda>(visited, ca).
     bind_res (idx visited start) (\<lambda>seen.
     if seen then Inr (visited, ca)
     else bind_res (ca_node_slots start ca) (\<lambda>slots.
     bind_res (ca_node_degree start ca) (\<lambda>degree.
       permute_cycle (ca_node_count ca) old_to_new start start (slots, degree) (visited, ca)))))"

definition rename_neighbors :: "u32 list \<Rightarrow> u32 list \<Rightarrow> u32 list res" where
  "rename_neighbors old_to_new neighbors =
     bind_res (map_res (\<lambda>neighbor. idx old_to_new (unat neighbor)) neighbors) (\<lambda>renamed. Inr (sort renamed))"

definition ca_permute_and_map_neighbors :: "u32 list \<Rightarrow> CompactAdjacency \<Rightarrow> CompactAdjacency res" where
  "ca_permute_and_map_neighbors old_to_new ca =
     (if length old_to_new \<noteq> ca_node_count ca then Inl Panic
      else bind_res (fold_res (permute_from old_to_new) [0..<ca_node_count ca] (replicate (ca_node_count ca) False, ca)) (\<lambda>(_, ca').
        fold_res (\<lambda>node. ca_neighbors_mut node (rename_neighbors old_to_new)) [0..<ca_node_count ca'] ca'))"

section \<open>The parallel store\<close>

record ParallelAdjacency =
  pa_shards :: "AdjacencyShard list"
  pa_node_count :: nat
  pa_max_degree :: nat

definition pa_copy_neighbors :: "nat \<Rightarrow> ParallelAdjacency \<Rightarrow> u32 list \<Rightarrow> u32 list res" where
  "pa_copy_neighbors node pa target =
     bind_res (idx (pa_shards pa) (shard_index node)) (\<lambda>shard.
     bind_res (shard_neighbors node (pa_max_degree pa) shard) (\<lambda>neighbors. Inr (target @ neighbors)))"

definition pa_replace :: "nat \<Rightarrow> u32 list \<Rightarrow> ParallelAdjacency \<Rightarrow> ParallelAdjacency res" where
  "pa_replace node neighbors pa =
     bind_res (on_shard node (shard_replace node (pa_max_degree pa) neighbors) (pa_shards pa)) (\<lambda>shards.
       Inr (pa\<lparr>pa_shards := shards\<rparr>))"

text \<open>\<open>update_from_buffer\<close>: the replacement is computed from the neighbours under the lock of the shard.\<close>

definition pa_update_from_buffer :: "nat \<Rightarrow> (u32 list \<Rightarrow> u32 list res) \<Rightarrow> ParallelAdjacency \<Rightarrow> ParallelAdjacency res" where
  "pa_update_from_buffer node update pa =
     bind_res (on_shard node (\<lambda>shard.
       bind_res (shard_neighbors node (pa_max_degree pa) shard) (\<lambda>neighbors.
       bind_res (update neighbors) (\<lambda>replacement. shard_replace node (pa_max_degree pa) replacement shard))) (pa_shards pa)) (\<lambda>shards.
       Inr (pa\<lparr>pa_shards := shards\<rparr>))"

definition pa_into_adjacency :: "ParallelAdjacency \<Rightarrow> CompactAdjacency" where
  "pa_into_adjacency pa = \<lparr>ca_shards = pa_shards pa, ca_node_count = pa_node_count pa, ca_max_degree = pa_max_degree pa\<rparr>"

section \<open>A shard as rows\<close>

definition shard_ok :: "nat \<Rightarrow> AdjacencyShard \<Rightarrow> bool" where
  "shard_ok md sh \<longleftrightarrow> md < 2 ^ 16 \<and> length (sh_degrees sh) = sh_node_count sh \<and> length (sh_slots sh) = sh_node_count sh * md
     \<and> list_all (\<lambda>g. unat g \<le> md) (sh_degrees sh)"

definition shard_row :: "nat \<Rightarrow> AdjacencyShard \<Rightarrow> nat \<Rightarrow> u32 list" where
  "shard_row md sh l = take (unat (sh_degrees sh ! l)) (row_of md (sh_slots sh) l)"

lemma row_bound: "l < n \<Longrightarrow> length xs = n * md \<Longrightarrow> l * md + md \<le> length xs" for xs :: "'a list"
  by (metis add.commute mult_Suc mult_le_mono1 Suc_leI)

lemma nth_row_of: "l < n \<Longrightarrow> length xs = n * md \<Longrightarrow> k < md \<Longrightarrow> row_of md xs l ! k = xs ! (l * md + k)"
  using row_bound[of l n xs md] by (simp add: row_of_def nth_slice)

lemma other_row_same:
  assumes "length xs = n * md" "length ys = n * md" "j < n" "j \<noteq> l"
    and "\<And>i. i < n * md \<Longrightarrow> i < l * md \<or> l * md + md \<le> i \<Longrightarrow> ys ! i = xs ! i"
  shows "row_of md ys j = row_of md xs j"
proof (rule nth_equalityI)
  fix k assume "k < length (row_of md ys j)"
  then have k: "k < md" using length_row_of[OF assms(2,3)] by simp
  have b: "j * md + k < n * md" using row_bound[OF assms(3,1)] k assms(1) by linarith
  have "j * md + k < l * md \<or> l * md + md \<le> j * md + k"
  proof (cases "j < l")
    case True
    then have "j * md + md \<le> l * md" by (metis add.commute mult_Suc mult_le_mono1 Suc_leI)
    then show ?thesis using k by linarith
  next
    case False
    then have "l * md + md \<le> j * md" using assms(4) by (metis add.commute mult_Suc mult_le_mono1 Suc_leI linorder_neqE_nat)
    then show ?thesis by linarith
  qed
  then have "ys ! (j * md + k) = xs ! (j * md + k)" using assms(5)[OF b] by blast
  then show "row_of md ys j ! k = row_of md xs j ! k" using nth_row_of[OF assms(3,2) k] nth_row_of[OF assms(3,1) k] by simp
qed (use length_row_of[OF assms(1,3)] length_row_of[OF assms(2,3)] in simp)

lemma shard_row_length:
  assumes "shard_ok md sh" "l < sh_node_count sh"
  shows "length (shard_row md sh l) = unat (sh_degrees sh ! l)" and "unat (sh_degrees sh ! l) \<le> md"
proof -
  show "unat (sh_degrees sh ! l) \<le> md" using assms by (simp add: shard_ok_def list_all_length)
  moreover have "length (row_of md (sh_slots sh) l) = md"
    using assms by (intro length_row_of[of _ "sh_node_count sh"]) (simp_all add: shard_ok_def)
  ultimately show "length (shard_row md sh l) = unat (sh_degrees sh ! l)" by (simp add: shard_row_def)
qed

lemma shard_slot:
  assumes "shard_ok md sh" "l < sh_node_count sh" "k < unat (sh_degrees sh ! l)"
  shows "l * md + k < length (sh_slots sh)" and "sh_slots sh ! (l * md + k) = shard_row md sh l ! k"
proof -
  have k: "k < md" "length (sh_slots sh) = sh_node_count sh * md" using assms shard_row_length(2)[OF assms(1,2)] by (auto simp: shard_ok_def)
  show "l * md + k < length (sh_slots sh)" using row_bound[OF assms(2) k(2)] k(1) by linarith
  show "sh_slots sh ! (l * md + k) = shard_row md sh l ! k" using nth_row_of[OF assms(2) k(2,1)] assms(3) by (simp add: shard_row_def)
qed

text \<open>A shard in which the row of one node is \<open>ns\<close> and all else is as it was.\<close>

definition row_set :: "nat \<Rightarrow> nat \<Rightarrow> u32 list \<Rightarrow> AdjacencyShard \<Rightarrow> AdjacencyShard \<Rightarrow> bool" where
  "row_set md l ns sh sh' \<longleftrightarrow> shard_ok md sh' \<and> sh_start_node sh' = sh_start_node sh \<and> sh_node_count sh' = sh_node_count sh
     \<and> (\<forall>j < sh_node_count sh. shard_row md sh' j = (if j = l then ns else shard_row md sh j))"

lemma row_setI:
  assumes ok: "shard_ok md sh" and l: "l < sh_node_count sh" and ns: "length ns \<le> md"
    and slots: "length slots = length (sh_slots sh)" "\<And>k. k < length ns \<Longrightarrow> slots ! (l * md + k) = ns ! k"
    and frame: "\<And>i. i < length (sh_slots sh) \<Longrightarrow> i < l * md \<or> l * md + md \<le> i \<Longrightarrow> slots ! i = sh_slots sh ! i"
  shows "row_set md l ns sh (sh\<lparr>sh_slots := slots, sh_degrees := (sh_degrees sh)[l := word_of_nat (length ns)]\<rparr>)"
proof -
  have S: "md < 2 ^ 16" "length (sh_degrees sh) = sh_node_count sh" "length (sh_slots sh) = sh_node_count sh * md"
    "list_all (\<lambda>g. unat g \<le> md) (sh_degrees sh)" using ok by (auto simp: shard_ok_def)
  have deg: "unat (word_of_nat (length ns) :: u16) = length ns" using S(1) ns by (simp add: unat_of_nat)
  have "list_all (\<lambda>g. unat g \<le> md) ((sh_degrees sh)[l := word_of_nat (length ns)])"
    using S(2,4) l deg ns by (auto simp: list_all_length nth_list_update)
  moreover have "take (length ns) (row_of md slots l) = ns"
  proof (rule nth_equalityI)
    show "length (take (length ns) (row_of md slots l)) = length ns" using length_row_of[of slots "sh_node_count sh" md l] l ns S(3) slots(1) by simp
    show "take (length ns) (row_of md slots l) ! k = ns ! k" if "k < length (take (length ns) (row_of md slots l))" for k
      using that nth_row_of[OF l, of slots md k] slots S(3) ns by simp
  qed
  moreover have "row_of md slots j = row_of md (sh_slots sh) j" if "j < sh_node_count sh" "j \<noteq> l" for j
    using other_row_same[of "sh_slots sh" "sh_node_count sh" md slots j l] S(3) slots(1) frame that by simp
  ultimately show ?thesis using S slots(1) l deg by (auto simp: row_set_def shard_ok_def shard_row_def nth_list_update)
qed

lemma local_node_eq: "local_node_of (sh_start_node sh + l) sh = Inr l"
  by (simp add: local_node_of_def checked_sub_def)

lemma shard_neighbors_eq:
  assumes ok: "shard_ok md sh" and l: "l < sh_node_count sh"
  shows "shard_neighbors (sh_start_node sh + l) md sh = Inr (shard_row md sh l)"
proof -
  have S: "length (sh_degrees sh) = sh_node_count sh" "length (sh_slots sh) = sh_node_count sh * md" using ok by (auto simp: shard_ok_def)
  have "slice (l * md) (l * md + unat (sh_degrees sh ! l)) (sh_slots sh) = shard_row md sh l"
    using shard_row_length(2)[OF ok l] by (simp add: shard_row_def row_of_def slice_def min_def)
  then show ?thesis using row_bound[OF l S(2)] shard_row_length(2)[OF ok l] S l
    by (simp add: shard_neighbors_def local_node_eq Let_def idx_def subslice_def)
qed

lemma copied_nth:
  assumes "a + length ys \<le> length xs"
  shows "length (take a xs @ ys @ drop (a + length ys) xs) = length xs"
    and "k < length ys \<Longrightarrow> (take a xs @ ys @ drop (a + length ys) xs) ! (a + k) = ys ! k"
    and "i < a \<or> a + length ys \<le> i \<Longrightarrow> i < length xs \<Longrightarrow> (take a xs @ ys @ drop (a + length ys) xs) ! i = xs ! i"
  using assms by (auto simp: nth_append)

text \<open>Writing a whole row.\<close>

lemma copied_row:
  assumes "length xs = n * md" "l < n" "length ys = md"
  defines "zs \<equiv> take (l * md) xs @ ys @ drop (l * md + md) xs"
  shows "copy_from_slice (l * md) (l * md + md) ys xs = Inr zs" "length zs = n * md" "row_of md zs l = ys" "j < n \<Longrightarrow> j \<noteq> l \<Longrightarrow> row_of md zs j = row_of md xs j"
proof -
  have b: "l * md + length ys \<le> length xs" using row_bound[OF assms(2,1)] assms(3) by simp
  then show "copy_from_slice (l * md) (l * md + md) ys xs = Inr zs" using assms(3) by (simp add: copy_from_slice_def zs_def)
  show len: "length zs = n * md" using copied_nth(1)[OF b] assms(1,3) by (simp add: zs_def)
  show "row_of md zs l = ys"
    using length_row_of[OF len assms(2)] nth_row_of[OF assms(2) len] copied_nth(2)[OF b] assms(3) by (intro nth_equalityI) (auto simp: zs_def)
  show "row_of md zs j = row_of md xs j" if "j < n" "j \<noteq> l"
    using other_row_same[OF assms(1) len that] copied_nth(3)[OF b] assms(1,3) by (simp add: zs_def)
qed

lemma shard_replace_eq:
  assumes ok: "shard_ok md sh" and l: "l < sh_node_count sh" and ns: "length ns \<le> md"
  shows "\<exists>sh'. shard_replace (sh_start_node sh + l) md ns sh = Inr sh' \<and> row_set md l ns sh sh'"
proof -
  have S: "length (sh_degrees sh) = sh_node_count sh" "length (sh_slots sh) = sh_node_count sh * md" using ok by (auto simp: shard_ok_def)
  have b: "l * md + length ns \<le> length (sh_slots sh)" using row_bound[OF l S(2)] ns by linarith
  let ?slots = "take (l * md) (sh_slots sh) @ ns @ drop (l * md + length ns) (sh_slots sh)"
  have "row_set md l ns sh (sh\<lparr>sh_slots := ?slots, sh_degrees := (sh_degrees sh)[l := word_of_nat (length ns)]\<rparr>)"
    by (rule row_setI[OF ok l ns]) (use copied_nth[OF b] ns in auto)
  then show ?thesis using b S(1) l by (simp add: shard_replace_def local_node_eq Let_def copy_from_slice_def set_idx_def)
qed

lemma shard_push_eq:
  assumes ok: "shard_ok md sh" and l: "l < sh_node_count sh" and room: "length (shard_row md sh l) < md"
  shows "\<exists>sh'. shard_push (sh_start_node sh + l) md x sh = Inr sh' \<and> row_set md l (shard_row md sh l @ [x]) sh sh'"
proof -
  let ?g = "unat (sh_degrees sh ! l)" and ?ns = "shard_row md sh l @ [x]"
  have S: "length (sh_degrees sh) = sh_node_count sh" "length (sh_slots sh) = sh_node_count sh * md" using ok by (auto simp: shard_ok_def)
  have g: "length (shard_row md sh l) = ?g" "?g < md" using shard_row_length[OF ok l] room by auto
  have b: "l * md + ?g < length (sh_slots sh)" using row_bound[OF l S(2)] g(2) by linarith
  have "row_set md l ?ns sh (sh\<lparr>sh_slots := (sh_slots sh)[l * md + ?g := x], sh_degrees := (sh_degrees sh)[l := word_of_nat (length ?ns)]\<rparr>)"
  proof (rule row_setI[OF ok l])
    fix k assume "k < length ?ns"
    then show "(sh_slots sh)[l * md + ?g := x] ! (l * md + k) = ?ns ! k"
      using shard_slot(2)[OF ok l, of k] b g(1) by (cases "k = ?g") (auto simp: nth_append)
  qed (use g in auto)
  moreover have "word_of_nat (length ?ns) = sh_degrees sh ! l + 1" using g(1) by (simp add: add.commute)
  moreover have "shard_push (sh_start_node sh + l) md x sh
      = Inr (sh\<lparr>sh_slots := (sh_slots sh)[l * md + ?g := x], sh_degrees := (sh_degrees sh)[l := sh_degrees sh ! l + 1]\<rparr>)"
    using b S(1) l g(2) by (simp add: shard_push_def local_node_eq idx_def set_idx_def)
  ultimately show ?thesis by metis
qed

text \<open>\<open>Vec::swap_remove\<close> on the neighbours of a node.\<close>

definition swap_remove :: "nat \<Rightarrow> 'a list \<Rightarrow> 'a list" where
  "swap_remove i xs = butlast (xs[i := last xs])"

lemma shard_swap_remove_eq:
  assumes ok: "shard_ok md sh" and l: "l < sh_node_count sh" and slot: "slot < length (shard_row md sh l)"
  shows "\<exists>sh'. shard_swap_remove (sh_start_node sh + l) md slot sh = Inr sh' \<and> row_set md l (swap_remove slot (shard_row md sh l)) sh sh'"
proof -
  let ?g = "unat (sh_degrees sh ! l)" and ?row = "shard_row md sh l" and ?ns = "swap_remove slot (shard_row md sh l)"
  have S: "length (sh_degrees sh) = sh_node_count sh" "length (sh_slots sh) = sh_node_count sh * md" using ok by (auto simp: shard_ok_def)
  have g: "length ?row = ?g" "?g \<le> md" using shard_row_length[OF ok l] by auto
  have pos: "0 < ?g" "slot < ?g" using slot g(1) by auto
  have last: "sh_slots sh ! (l * md + ?g - 1) = last ?row" "l * md + ?g - 1 < length (sh_slots sh)"
    using shard_slot[OF ok l, of "?g - 1"] pos g(1) last_conv_nth[of ?row] by (fastforce simp: Nat.add_diff_assoc)+
  let ?slots = "(sh_slots sh)[l * md + slot := last ?row]"
  have len: "length ?ns = ?g - 1" using g(1) by (simp add: swap_remove_def)
  have "row_set md l ?ns sh (sh\<lparr>sh_slots := ?slots, sh_degrees := (sh_degrees sh)[l := word_of_nat (length ?ns)]\<rparr>)"
  proof (rule row_setI[OF ok l])
    fix k assume "k < length ?ns"
    then show "?slots ! (l * md + k) = ?ns ! k"
      using shard_slot[OF ok l, of k] shard_slot(1)[OF ok l, of slot] slot len g(1) pos
      by (cases "k = slot") (auto simp: swap_remove_def nth_butlast)
  qed (use g pos len in auto)
  moreover have "word_of_nat (length ?ns) = sh_degrees sh ! l - 1" using len pos by (simp add: of_nat_diff)
  ultimately show ?thesis using last S(1) l pos shard_slot(1)[OF ok l pos(2)]
    by (simp add: shard_swap_remove_def local_node_eq idx_def set_idx_def Let_def)
qed

section \<open>The stores as lists of neighbours\<close>

definition shards_ok :: "nat \<Rightarrow> nat \<Rightarrow> AdjacencyShard list \<Rightarrow> bool" where
  "shards_ok n md shards \<longleftrightarrow> length shards = div_ceil n 256
     \<and> (\<forall>s < length shards. sh_start_node (shards ! s) = s * 256 \<and> sh_node_count (shards ! s) = min 256 (n - s * 256) \<and> shard_ok md (shards ! s))"

definition shards_adj :: "nat \<Rightarrow> nat \<Rightarrow> AdjacencyShard list \<Rightarrow> u32 list list" where
  "shards_adj n md shards = map (\<lambda>node. shard_row md (shards ! (node div 256)) (node mod 256)) [0..<n]"

lemma length_shards_adj [simp]: "length (shards_adj n md shards) = n"
  by (simp add: shards_adj_def)

lemma shard_of_node:
  assumes "shards_ok n md shards" "node < n"
  shows "shard_index node < length shards" "shard_ok md (shards ! shard_index node)"
    "sh_start_node (shards ! shard_index node) + node mod 256 = node" "node mod 256 < sh_node_count (shards ! shard_index node)"
    "shards_adj n md shards ! node = shard_row md (shards ! shard_index node) (node mod 256)"
proof -
  have "n \<le> length shards * 256" using div_ceil_mult_ge[of 256 n] assms(1) by (simp add: shards_ok_def)
  then have "node div 256 < length shards" using assms(2) by (simp add: div_less_iff_less_mult)
  then show i: "shard_index node < length shards" by (simp add: shard_index_def PARALLEL_ADJACENCY_NODES_PER_SHARD_def)
  then have S: "sh_start_node (shards ! shard_index node) = node div 256 * 256" "sh_node_count (shards ! shard_index node) = min 256 (n - node div 256 * 256)"
    and ok: "shard_ok md (shards ! shard_index node)"
    using assms(1) by (auto simp: shards_ok_def shard_index_def PARALLEL_ADJACENCY_NODES_PER_SHARD_def)
  show "shard_ok md (shards ! shard_index node)" by (rule ok)
  show "sh_start_node (shards ! shard_index node) + node mod 256 = node" by (simp add: S)
  have "node div 256 * 256 + node mod 256 = node" "node mod 256 < 256" by simp_all
  then show "node mod 256 < sh_node_count (shards ! shard_index node)" unfolding S(2) using assms(2) by linarith
  show "shards_adj n md shards ! node = shard_row md (shards ! shard_index node) (node mod 256)"
    using assms(2) by (simp add: shards_adj_def shard_index_def PARALLEL_ADJACENCY_NODES_PER_SHARD_def)
qed

lemma on_shard_eq:
  assumes ok: "shards_ok n md shards" and node: "node < n"
    and f: "f (shards ! shard_index node) = Inr sh'" "row_set md (node mod 256) ns (shards ! shard_index node) sh'"
  shows "\<exists>shards'. on_shard node f shards = Inr shards' \<and> shards_ok n md shards' \<and> shards_adj n md shards' = (shards_adj n md shards)[node := ns]"
proof -
  let ?i = "shard_index node" and ?new = "shards[shard_index node := sh']"
  have i: "?i < length shards" by (rule shard_of_node(1)[OF ok node])
  have R: "shard_ok md sh'" "sh_start_node sh' = sh_start_node (shards ! ?i)" "sh_node_count sh' = sh_node_count (shards ! ?i)"
    "\<And>j. j < sh_node_count (shards ! ?i) \<Longrightarrow> shard_row md sh' j = (if j = node mod 256 then ns else shard_row md (shards ! ?i) j)"
    using f(2) by (auto simp: row_set_def)
  have ok': "shards_ok n md ?new" using ok R(1-3) i by (auto simp: shards_ok_def nth_list_update)
  have "shards_adj n md ?new = (shards_adj n md shards)[node := ns]"
  proof (rule nth_equalityI)
    fix m assume "m < length (shards_adj n md ?new)"
    then have m: "m < n" by simp
    have "?new ! shard_index m = (if shard_index m = ?i then sh' else shards ! shard_index m)" using i by (simp add: nth_list_update)
    moreover have "m = node" if "shard_index m = ?i" "m mod 256 = node mod 256"
      using that unfolding shard_index_def PARALLEL_ADJACENCY_NODES_PER_SHARD_def by (metis div_mult_mod_eq)
    ultimately show "shards_adj n md ?new ! m = (shards_adj n md shards)[node := ns] ! m"
      using shard_of_node(4,5)[OF ok m] shard_of_node(5)[OF ok' m] R(4)[of "m mod 256"] m node by (auto simp: nth_list_update)
  qed simp
  then show ?thesis using f(1) i ok' by (simp add: on_shard_def idx_def)
qed

lemma shards_row_length: "shards_ok n md shards \<Longrightarrow> node < n \<Longrightarrow> length (shards_adj n md shards ! node) \<le> md"
  using shard_row_length shard_of_node by metis

lemma store_neighbors:
  "shards_ok n md shards \<Longrightarrow> node < n \<Longrightarrow> shard_neighbors node md (shards ! shard_index node) = Inr (shards_adj n md shards ! node)"
  using shard_neighbors_eq[OF shard_of_node(2,4), of n md shards node] shard_of_node(3,5)[of n md shards node] by simp

lemma store_replace:
  assumes "shards_ok n md shards" "node < n" "length ns \<le> md"
  shows "\<exists>shards'. on_shard node (shard_replace node md ns) shards = Inr shards' \<and> shards_ok n md shards'
    \<and> shards_adj n md shards' = (shards_adj n md shards)[node := ns]"
  using shard_replace_eq[OF shard_of_node(2,4)[OF assms(1,2)] assms(3)] on_shard_eq[OF assms(1,2)] shard_of_node(3)[OF assms(1,2)] by metis

text \<open>What the graph builder relies on in a store: it reads the neighbours of a node, and a replacement
  that fits changes the neighbours of its node and nothing else.\<close>

locale adjacency_store =
  fixes ok :: "'s \<Rightarrow> bool" and adj :: "'s \<Rightarrow> u32 list list" and bound :: "'s \<Rightarrow> nat"
    and neighbors :: "nat \<Rightarrow> 's \<Rightarrow> u32 list res" and replace :: "nat \<Rightarrow> u32 list \<Rightarrow> 's \<Rightarrow> 's res"
  assumes bounded: "ok s \<Longrightarrow> node < length (adj s) \<Longrightarrow> length (adj s ! node) \<le> bound s"
    and reads: "ok s \<Longrightarrow> node < length (adj s) \<Longrightarrow> neighbors node s = Inr (adj s ! node)"
    and replaces: "ok s \<Longrightarrow> node < length (adj s) \<Longrightarrow> length ns \<le> bound s \<Longrightarrow>
      \<exists>s'. replace node ns s = Inr s' \<and> ok s' \<and> adj s' = (adj s)[node := ns] \<and> bound s' = bound s"
begin

lemma read_all: "ok s \<Longrightarrow> map_res (\<lambda>node. neighbors node s) [0..<length (adj s)] = Inr (adj s)"
  using map_res_Inr_map[of "[0..<length (adj s)]" "\<lambda>node. neighbors node s" "\<lambda>node. adj s ! node"] reads by (simp add: map_nth)

lemma replace_all:
  assumes "ok s" "list_all (\<lambda>(node, ns). node < length (adj s) \<and> length ns \<le> bound s) xs"
  shows "\<exists>s'. fold_res (\<lambda>(node, ns). replace node ns) xs s = Inr s' \<and> ok s' \<and> bound s' = bound s
    \<and> adj s' = fold (\<lambda>(node, ns) a. a[node := ns]) xs (adj s)"
  using assms
proof (induction xs arbitrary: s)
  case (Cons x xs)
  obtain node ns where x: "x = (node, ns)" by (cases x)
  obtain s1 where s1: "replace node ns s = Inr s1" "ok s1" "adj s1 = (adj s)[node := ns]" "bound s1 = bound s"
    using replaces[of s node ns] Cons.prems x by auto
  have "list_all (\<lambda>(node, ns). node < length (adj s1) \<and> length ns \<le> bound s1) xs" using Cons.prems(2) s1(3,4) by simp
  from Cons.IH[OF s1(2) this] show ?case using s1 x by simp
qed simp

end

definition ca_ok :: "CompactAdjacency \<Rightarrow> bool" where
  "ca_ok ca \<longleftrightarrow> shards_ok (ca_node_count ca) (ca_max_degree ca) (ca_shards ca)"

definition ca_adj :: "CompactAdjacency \<Rightarrow> u32 list list" where
  "ca_adj ca = shards_adj (ca_node_count ca) (ca_max_degree ca) (ca_shards ca)"

definition pa_ok :: "ParallelAdjacency \<Rightarrow> bool" where
  "pa_ok pa \<longleftrightarrow> shards_ok (pa_node_count pa) (pa_max_degree pa) (pa_shards pa)"

definition pa_adj :: "ParallelAdjacency \<Rightarrow> u32 list list" where
  "pa_adj pa = shards_adj (pa_node_count pa) (pa_max_degree pa) (pa_shards pa)"

lemma length_ca_adj [simp]: "length (ca_adj ca) = ca_node_count ca"
  by (simp add: ca_adj_def)

lemma length_pa_adj [simp]: "length (pa_adj pa) = pa_node_count pa"
  by (simp add: pa_adj_def)

interpretation compact: adjacency_store ca_ok ca_adj ca_max_degree ca_neighbors ca_replace
proof
  fix ca node ns assume a: "ca_ok ca" "node < length (ca_adj ca)"
  then have ok: "shards_ok (ca_node_count ca) (ca_max_degree ca) (ca_shards ca)" "node < ca_node_count ca" by (simp_all add: ca_ok_def)
  show "length (ca_adj ca ! node) \<le> ca_max_degree ca" using shards_row_length[OF ok] by (simp add: ca_adj_def)
  show "ca_neighbors node ca = Inr (ca_adj ca ! node)"
    using store_neighbors[OF ok] shard_of_node(1)[OF ok] by (simp add: ca_neighbors_def ca_adj_def idx_def)
  show "\<exists>ca'. ca_replace node ns ca = Inr ca' \<and> ca_ok ca' \<and> ca_adj ca' = (ca_adj ca)[node := ns] \<and> ca_max_degree ca' = ca_max_degree ca"
    if "length ns \<le> ca_max_degree ca" using store_replace[OF ok that] by (auto simp: ca_replace_def ca_update_def ca_ok_def ca_adj_def)
qed

interpretation parallel: adjacency_store pa_ok pa_adj pa_max_degree "\<lambda>node pa. pa_copy_neighbors node pa []" pa_replace
proof
  fix pa node ns assume a: "pa_ok pa" "node < length (pa_adj pa)"
  then have ok: "shards_ok (pa_node_count pa) (pa_max_degree pa) (pa_shards pa)" "node < pa_node_count pa" by (simp_all add: pa_ok_def)
  show "length (pa_adj pa ! node) \<le> pa_max_degree pa" using shards_row_length[OF ok] by (simp add: pa_adj_def)
  show "pa_copy_neighbors node pa [] = Inr (pa_adj pa ! node)"
    using store_neighbors[OF ok] shard_of_node(1)[OF ok] by (simp add: pa_copy_neighbors_def pa_adj_def idx_def)
  show "\<exists>pa'. pa_replace node ns pa = Inr pa' \<and> pa_ok pa' \<and> pa_adj pa' = (pa_adj pa)[node := ns] \<and> pa_max_degree pa' = pa_max_degree pa"
    if "length ns \<le> pa_max_degree pa" using store_replace[OF ok that] by (auto simp: pa_replace_def pa_ok_def pa_adj_def)
qed

text \<open>An update under the lock of a shard is a replacement by what it computes from the neighbours.\<close>

lemma pa_update_eq:
  assumes "pa_ok pa" "node < pa_node_count pa"
  shows "pa_update_from_buffer node f pa = bind_res (f (pa_adj pa ! node)) (\<lambda>ns. pa_replace node ns pa)"
proof -
  have ok: "shards_ok (pa_node_count pa) (pa_max_degree pa) (pa_shards pa)" using assms(1) by (simp add: pa_ok_def)
  show ?thesis using store_neighbors[OF ok assms(2)] shard_of_node(1)[OF ok assms(2)]
    by (cases "f (pa_adj pa ! node)") (simp_all add: pa_update_from_buffer_def pa_replace_def on_shard_def idx_def pa_adj_def bind_res_assoc)
qed

lemma into_adjacency: "pa_ok pa \<Longrightarrow> ca_ok (pa_into_adjacency pa)" "ca_adj (pa_into_adjacency pa) = pa_adj pa"
  "ca_max_degree (pa_into_adjacency pa) = pa_max_degree pa" "ca_node_count (pa_into_adjacency pa) = pa_node_count pa"
  by (simp_all add: pa_ok_def ca_ok_def pa_adj_def ca_adj_def pa_into_adjacency_def)

lemma ca_on_shard:
  assumes "ca_ok ca" "node < ca_node_count ca"
    and "\<exists>sh'. f (ca_max_degree ca) (ca_shards ca ! shard_index node) = Inr sh' \<and> row_set (ca_max_degree ca) (node mod 256) ns (ca_shards ca ! shard_index node) sh'"
  shows "\<exists>ca'. ca_update node f ca = Inr ca' \<and> ca_ok ca' \<and> ca_adj ca' = (ca_adj ca)[node := ns] \<and> ca_max_degree ca' = ca_max_degree ca"
proof -
  obtain sh' where "f (ca_max_degree ca) (ca_shards ca ! shard_index node) = Inr sh'"
    "row_set (ca_max_degree ca) (node mod 256) ns (ca_shards ca ! shard_index node) sh'" using assms(3) by blast
  from on_shard_eq[OF assms(1)[unfolded ca_ok_def] assms(2), of "f (ca_max_degree ca)", OF this]
  show ?thesis by (auto simp: ca_update_def ca_ok_def ca_adj_def)
qed

lemma ca_push_eq:
  assumes "ca_ok ca" "node < ca_node_count ca" "length (ca_adj ca ! node) < ca_max_degree ca"
  shows "\<exists>ca'. ca_push node x ca = Inr ca' \<and> ca_ok ca' \<and> ca_adj ca' = (ca_adj ca)[node := ca_adj ca ! node @ [x]] \<and> ca_max_degree ca' = ca_max_degree ca"
proof -
  note S = shard_of_node[OF assms(1)[unfolded ca_ok_def] assms(2)]
  have row: "ca_adj ca ! node = shard_row (ca_max_degree ca) (ca_shards ca ! shard_index node) (node mod 256)" using S(5) by (simp add: ca_adj_def)
  show ?thesis unfolding ca_push_def
    by (rule ca_on_shard[OF assms(1,2)]) (use shard_push_eq[OF S(2,4), of x] assms(3) row S(3) in simp)
qed

lemma ca_swap_remove_eq:
  assumes "ca_ok ca" "node < ca_node_count ca" "slot < length (ca_adj ca ! node)"
  shows "\<exists>ca'. ca_swap_remove node slot ca = Inr ca' \<and> ca_ok ca' \<and> ca_adj ca' = (ca_adj ca)[node := swap_remove slot (ca_adj ca ! node)]
    \<and> ca_max_degree ca' = ca_max_degree ca"
proof -
  note S = shard_of_node[OF assms(1)[unfolded ca_ok_def] assms(2)]
  have row: "ca_adj ca ! node = shard_row (ca_max_degree ca) (ca_shards ca ! shard_index node) (node mod 256)" using S(5) by (simp add: ca_adj_def)
  show ?thesis unfolding ca_swap_remove_def
    by (rule ca_on_shard[OF assms(1,2)]) (use shard_swap_remove_eq[OF S(2,4), of slot] assms(3) row S(3) in simp)
qed

section \<open>Creating a store\<close>

definition zero_shard :: "nat \<Rightarrow> nat \<Rightarrow> nat \<Rightarrow> AdjacencyShard" where
  "zero_shard n md start = (let c = min 256 (n - start) in
     \<lparr>sh_start_node = start, sh_node_count = c, sh_slots = replicate (c * md) 0, sh_degrees = replicate c 0\<rparr>)"

lemma zero_shard_ok: "md < 2 ^ 16 \<Longrightarrow> shard_ok md (zero_shard n md start)"
  by (simp add: zero_shard_def Let_def shard_ok_def list_all_length)

lemma nth_shard_starts: "s < div_ceil n 256 \<Longrightarrow> shard_starts n ! s = s * 256" "length (shard_starts n) = div_ceil n 256"
  by (simp_all add: shard_starts_def PARALLEL_ADJACENCY_NODES_PER_SHARD_def)

lemma ca_empty_eq:
  assumes "md < 2 ^ 16"
  shows "ca_ok (ca_empty n md)" "ca_adj (ca_empty n md) = replicate n []" "ca_max_degree (ca_empty n md) = md" "ca_node_count (ca_empty n md) = n"
proof -
  have shards: "ca_shards (ca_empty n md) = map (zero_shard n md) (shard_starts n)"
    by (simp add: ca_empty_def zero_shard_def PARALLEL_ADJACENCY_NODES_PER_SHARD_def)
  show n: "ca_max_degree (ca_empty n md) = md" "ca_node_count (ca_empty n md) = n" by (simp_all add: ca_empty_def)
  show ok: "ca_ok (ca_empty n md)" using zero_shard_ok[OF assms]
    by (auto simp: ca_ok_def n shards_ok_def shards nth_shard_starts) (simp_all add: zero_shard_def Let_def)
  show "ca_adj (ca_empty n md) = replicate n []"
  proof (rule nth_equalityI)
    fix m assume "m < length (ca_adj (ca_empty n md))"
    then have m: "m < n" by (simp add: n)
    note S = shard_of_node[OF ok[unfolded ca_ok_def n] m]
    have "sh_degrees (ca_shards (ca_empty n md) ! shard_index m) ! (m mod 256) = 0"
      using S(1,4) unfolding shards by (simp add: zero_shard_def Let_def)
    then show "ca_adj (ca_empty n md) ! m = replicate n [] ! m" using S(5) m by (simp add: ca_adj_def n shard_row_def)
  qed (simp add: n)
qed

lemma nested_row_eq:
  assumes ok: "shard_ok md sh" and l: "l < sh_node_count sh" and row: "sh_start_node sh + l < length adjacency" "length (adjacency ! (sh_start_node sh + l)) \<le> md"
  shows "\<exists>sh'. nested_row md adjacency (sh_start_node sh) l (sh_slots sh, sh_degrees sh) = Inr (sh_slots sh', sh_degrees sh')
    \<and> row_set md l (adjacency ! (sh_start_node sh + l)) sh sh'"
proof -
  have "md < 2 ^ 16" using ok by (simp add: shard_ok_def)
  then have small: "length (adjacency ! (sh_start_node sh + l)) < 2 ^ 16" using row(2) by linarith
  obtain sh' where sh': "shard_replace (sh_start_node sh + l) md (adjacency ! (sh_start_node sh + l)) sh = Inr sh'"
    "row_set md l (adjacency ! (sh_start_node sh + l)) sh sh'" using shard_replace_eq[OF ok l row(2)] by blast
  then show ?thesis using row small
    by (intro exI[of _ sh']) (auto simp: nested_row_def shard_replace_def local_node_eq idx_def Let_def bind_res_eq_Inr)
qed

lemma nested_shard:
  assumes ok: "shard_ok md sh" and rows: "list_all (\<lambda>ns. length ns \<le> md) adjacency" and b: "sh_start_node sh + sh_node_count sh \<le> length adjacency"
    and k: "k \<le> sh_node_count sh"
  shows "\<exists>sh'. fold_res (nested_row md adjacency (sh_start_node sh)) [0..<k] (sh_slots sh, sh_degrees sh) = Inr (sh_slots sh', sh_degrees sh')
    \<and> shard_ok md sh' \<and> sh_start_node sh' = sh_start_node sh \<and> sh_node_count sh' = sh_node_count sh
    \<and> (\<forall>j < k. shard_row md sh' j = adjacency ! (sh_start_node sh + j))"
  using k
proof (induction k)
  case 0
  then show ?case using ok by (intro exI[of _ sh]) simp
next
  case (Suc k)
  then obtain sh1 where sh1: "fold_res (nested_row md adjacency (sh_start_node sh)) [0..<k] (sh_slots sh, sh_degrees sh) = Inr (sh_slots sh1, sh_degrees sh1)"
    "shard_ok md sh1" "sh_start_node sh1 = sh_start_node sh" "sh_node_count sh1 = sh_node_count sh" "\<forall>j < k. shard_row md sh1 j = adjacency ! (sh_start_node sh + j)"
    by auto
  have l: "k < sh_node_count sh1" "sh_start_node sh1 + k < length adjacency" "length (adjacency ! (sh_start_node sh1 + k)) \<le> md"
    using Suc.prems b rows sh1(3,4) by (auto simp: list_all_length)
  obtain sh2 where sh2: "nested_row md adjacency (sh_start_node sh1) k (sh_slots sh1, sh_degrees sh1) = Inr (sh_slots sh2, sh_degrees sh2)"
    "row_set md k (adjacency ! (sh_start_node sh1 + k)) sh1 sh2" using nested_row_eq[OF sh1(2) l] by blast
  have "fold_res (nested_row md adjacency (sh_start_node sh)) [0..<Suc k] (sh_slots sh, sh_degrees sh) = Inr (sh_slots sh2, sh_degrees sh2)"
    using sh1(1,3) sh2(1) by (simp add: fold_res_append)
  then show ?case using sh2(2) sh1(3-5) Suc.prems by (intro exI[of _ sh2]) (auto simp: row_set_def less_Suc_eq)
qed

lemma ca_from_nested_eq:
  assumes rows: "list_all (\<lambda>ns. length ns \<le> md) adjacency" and md: "md < 2 ^ 16"
  shows "\<exists>ca. ca_from_nested adjacency md = Inr ca \<and> ca_ok ca \<and> ca_adj ca = adjacency \<and> ca_max_degree ca = md \<and> ca_node_count ca = length adjacency"
proof -
  let ?n = "length adjacency"
  let ?make = "\<lambda>start. bind_res (fold_res (nested_row md adjacency start) [0..<min 256 (?n - start)] (replicate (min 256 (?n - start) * md) 0, replicate (min 256 (?n - start)) 0))
      (\<lambda>(slots, degrees). Inr \<lparr>sh_start_node = start, sh_node_count = min 256 (?n - start), sh_slots = slots, sh_degrees = degrees\<rparr>)"
  have "\<exists>sh. ?make (s * 256) = Inr sh \<and> shard_ok md sh \<and> sh_start_node sh = s * 256 \<and> sh_node_count sh = min 256 (?n - s * 256)
      \<and> (\<forall>j < sh_node_count sh. shard_row md sh j = adjacency ! (s * 256 + j))" if "s < div_ceil ?n 256" for s
  proof -
    have b: "s * 256 + min 256 (?n - s * 256) \<le> ?n" using that div_ceil_le[of 256 ?n s] by (cases "?n \<le> s * 256") auto
    let ?z = "zero_shard ?n md (s * 256)"
    have z: "sh_start_node ?z = s * 256" "sh_node_count ?z = min 256 (?n - s * 256)" "sh_slots ?z = replicate (min 256 (?n - s * 256) * md) 0"
      "sh_degrees ?z = replicate (min 256 (?n - s * 256)) 0" by (simp_all add: zero_shard_def Let_def)
    from nested_shard[OF zero_shard_ok[OF md, of ?n "s * 256"] rows, unfolded z, OF b order.refl] obtain sh where
      sh: "fold_res (nested_row md adjacency (s * 256)) [0..<min 256 (?n - s * 256)] (replicate (min 256 (?n - s * 256) * md) 0, replicate (min 256 (?n - s * 256)) 0) = Inr (sh_slots sh, sh_degrees sh)"
      "shard_ok md sh" "sh_start_node sh = s * 256" "sh_node_count sh = min 256 (?n - s * 256)" "\<forall>j < min 256 (?n - s * 256). shard_row md sh j = adjacency ! (s * 256 + j)" by blast
    have "?make (s * 256) = Inr sh" unfolding sh(1) bind_res_Inr prod.case using sh(3,4) by (cases sh) simp
    then show ?thesis using sh(2-5) by (intro exI[of _ sh]) simp
  qed
  then obtain F where F: "\<And>s. s < div_ceil ?n 256 \<Longrightarrow> ?make (s * 256) = Inr (F s) \<and> shard_ok md (F s) \<and> sh_start_node (F s) = s * 256 \<and> sh_node_count (F s) = min 256 (?n - s * 256)
      \<and> (\<forall>j < sh_node_count (F s). shard_row md (F s) j = adjacency ! (s * 256 + j))" by metis
  define ca where "ca = \<lparr>ca_shards = map F [0..<div_ceil ?n 256], ca_node_count = ?n, ca_max_degree = md\<rparr>"
  have ok: "ca_ok ca" using F by (auto simp: ca_ok_def ca_def shards_ok_def)
  have "map_res ?make (shard_starts ?n) = map_res (\<lambda>s. ?make (s * 256)) [0..<div_ceil ?n 256]"
    unfolding shard_starts_def PARALLEL_ADJACENCY_NODES_PER_SHARD_def by (rule map_res_map)
  then have "ca_from_nested adjacency md = Inr ca"
    using map_res_Inr_map[of "[0..<div_ceil ?n 256]" "\<lambda>s. ?make (s * 256)" F] F
    by (simp add: ca_from_nested_def Let_def PARALLEL_ADJACENCY_NODES_PER_SHARD_def ca_def)
  moreover have "ca_adj ca = adjacency"
  proof (rule nth_equalityI)
    fix m assume "m < length (ca_adj ca)"
    then have m: "m < ?n" by (simp add: ca_def)
    have S: "ca_node_count ca = ?n" "ca_max_degree ca = md" "ca_shards ca = map F [0..<div_ceil ?n 256]" by (simp_all add: ca_def)
    note N = shard_of_node[OF ok[unfolded ca_ok_def S(1,2)] m]
    have i: "shard_index m < div_ceil ?n 256" using N(1) S(3) by simp
    have "ca_adj ca ! m = shard_row md (F (shard_index m)) (m mod 256)" using N(5) i by (simp add: ca_adj_def S)
    then show "ca_adj ca ! m = adjacency ! m" using F[OF i] N(3,4) i by (simp add: S(3))
  qed (simp add: ca_def)
  ultimately show ?thesis using ok by (auto simp: ca_def)
qed

section \<open>Permuting a store\<close>

text \<open>The stored row and degree of a node.\<close>

definition ca_cell :: "CompactAdjacency \<Rightarrow> nat \<Rightarrow> u32 list \<times> u16" where
  "ca_cell ca node = (row_of (ca_max_degree ca) (sh_slots (ca_shards ca ! shard_index node)) (node mod 256),
     sh_degrees (ca_shards ca ! shard_index node) ! (node mod 256))"

definition cell_ok :: "nat \<Rightarrow> u32 list \<times> u16 \<Rightarrow> bool" where
  "cell_ok md = (\<lambda>(slots, degree). length slots = md \<and> unat degree \<le> md)"

definition cell_row :: "u32 list \<times> u16 \<Rightarrow> u32 list" where
  "cell_row = (\<lambda>(slots, degree). take (unat degree) slots)"

lemma ca_cell_facts:
  assumes "ca_ok ca" "node < ca_node_count ca"
  shows "cell_ok (ca_max_degree ca) (ca_cell ca node)" "cell_row (ca_cell ca node) = ca_adj ca ! node"
    "ca_node_slots node ca = Inr (fst (ca_cell ca node))" "ca_node_degree node ca = Inr (snd (ca_cell ca node))"
proof -
  note S = shard_of_node[OF assms(1)[unfolded ca_ok_def] assms(2)]
  let ?sh = "ca_shards ca ! shard_index node" and ?md = "ca_max_degree ca" and ?l = "node mod 256"
  have len: "length (sh_slots ?sh) = sh_node_count ?sh * ?md" "length (sh_degrees ?sh) = sh_node_count ?sh" using S(2) by (auto simp: shard_ok_def)
  show "cell_ok ?md (ca_cell ca node)" using shard_row_length(2)[OF S(2,4)] length_row_of[OF len(1) S(4)] by (simp add: cell_ok_def ca_cell_def)
  show "cell_row (ca_cell ca node) = ca_adj ca ! node" using S(5) by (simp add: cell_row_def ca_cell_def ca_adj_def shard_row_def)
  have l: "local_node_of node ?sh = Inr ?l" using local_node_eq[of ?sh ?l] S(3) by simp
  show "ca_node_slots node ca = Inr (fst (ca_cell ca node))" using S(1) l row_bound[OF S(4) len(1)]
    by (simp add: ca_node_slots_def idx_def Let_def subslice_def ca_cell_def row_of_def add.commute)
  show "ca_node_degree node ca = Inr (snd (ca_cell ca node))" using S(1,4) l len(2) by (simp add: ca_node_degree_def idx_def ca_cell_def)
qed

lemma ca_swap_eq:
  assumes ok: "ca_ok ca" and node: "node < ca_node_count ca" and buf: "cell_ok (ca_max_degree ca) buffer"
  shows "\<exists>ca'. ca_swap_node_with_buffer node buffer ca = Inr (ca_cell ca node, ca') \<and> ca_ok ca' \<and> ca_max_degree ca' = ca_max_degree ca
    \<and> ca_node_count ca' = ca_node_count ca \<and> (\<forall>m < ca_node_count ca. ca_cell ca' m = (if m = node then buffer else ca_cell ca m))"
proof -
  let ?i = "shard_index node" and ?sh = "ca_shards ca ! shard_index node" and ?md = "ca_max_degree ca" and ?l = "node mod 256"
  obtain slots degree where b: "buffer = (slots, degree)" by (cases buffer)
  have buf: "length slots = ?md" "unat degree \<le> ?md" using buf by (auto simp: b cell_ok_def)
  note S = shard_of_node[OF ok[unfolded ca_ok_def] node]
  have len: "length (sh_slots ?sh) = sh_node_count ?sh * ?md" "length (sh_degrees ?sh) = sh_node_count ?sh" "?md < 2 ^ 16"
    "list_all (\<lambda>g. unat g \<le> ?md) (sh_degrees ?sh)" using S(2) by (auto simp: shard_ok_def)
  have l: "local_node_of node ?sh = Inr ?l" using local_node_eq[of ?sh ?l] S(3) by simp
  let ?new = "take (?l * ?md) (sh_slots ?sh) @ slots @ drop (?l * ?md + ?md) (sh_slots ?sh)"
  note C = copied_row[OF len(1) S(4) buf(1)]
  let ?sh' = "?sh\<lparr>sh_slots := ?new, sh_degrees := (sh_degrees ?sh)[?l := degree]\<rparr>"
  define ca' where "ca' = ca\<lparr>ca_shards := (ca_shards ca)[?i := ?sh']\<rparr>"
  have "ca_swap_node_with_buffer node buffer ca = Inr (ca_cell ca node, ca')"
    using S(1,4) l row_bound[OF S(4) len(1)] len(2) buf(1)
    by (simp add: b ca_swap_node_with_buffer_def shard_swap_node_with_buffer_def idx_def Let_def subslice_def copy_from_slice_def ca_cell_def row_of_def ca'_def add.commute)
  moreover have "shard_ok ?md ?sh'" using len C(2) buf(2) S(4) by (auto simp: shard_ok_def list_all_length nth_list_update)
  then have "ca_ok ca'" using ok S(1) by (auto simp: ca_ok_def ca'_def shards_ok_def nth_list_update)
  moreover have "ca_cell ca' m = (if m = node then buffer else ca_cell ca m)" if m: "m < ca_node_count ca" for m
  proof (cases "shard_index m = ?i")
    case True
    have ne: "m mod 256 \<noteq> ?l" if "m \<noteq> node" using that True unfolding shard_index_def PARALLEL_ADJACENCY_NODES_PER_SHARD_def by (metis div_mult_mod_eq)
    have "m mod 256 < sh_node_count ?sh" using shard_of_node(4)[OF ok[unfolded ca_ok_def] m] True by simp
    then show ?thesis using True S(1,4) C(3) C(4)[of "m mod 256"] len(2) b ne by (cases "m = node") (auto simp: ca_cell_def ca'_def)
  next
    case False
    then have "m \<noteq> node" by auto
    then show ?thesis using False by (simp add: ca_cell_def ca'_def)
  qed
  ultimately show ?thesis by (intro exI[of _ ca']) (simp add: ca'_def)
qed

text \<open>The mapping renames the nodes of the store.\<close>

definition renames :: "u32 list \<Rightarrow> nat \<Rightarrow> bool" where
  "renames old_to_new n \<longleftrightarrow> length old_to_new = n \<and> distinct old_to_new \<and> (\<forall>x \<in> set old_to_new. unat x < n)"

abbreviation new_of :: "u32 list \<Rightarrow> nat \<Rightarrow> nat" where
  "new_of old_to_new i \<equiv> unat (old_to_new ! i)"

lemma new_of_less: "renames p n \<Longrightarrow> i < n \<Longrightarrow> new_of p i < n"
  by (auto simp: renames_def)

lemma new_of_inj: "renames p n \<Longrightarrow> i < n \<Longrightarrow> j < n \<Longrightarrow> new_of p i = new_of p j \<Longrightarrow> i = j"
  using unsigned_word_eqI[of "p ! i" "p ! j"] by (auto simp: renames_def nth_eq_iff_index_eq)

text \<open>The rows of the nodes in \<open>V\<close> have moved; every place not yet written holds its old row.\<close>

definition moved :: "u32 list \<Rightarrow> (nat \<Rightarrow> u32 list \<times> u16) \<Rightarrow> nat \<Rightarrow> nat \<Rightarrow> nat set \<Rightarrow> bool list \<times> CompactAdjacency \<Rightarrow> bool" where
  "moved p cells n md V = (\<lambda>(visited, ca). ca_ok ca \<and> ca_node_count ca = n \<and> ca_max_degree ca = md \<and> length visited = n
     \<and> V \<subseteq> {..<n} \<and> (\<forall>i < n. visited ! i \<longleftrightarrow> i \<in> V) \<and> (\<forall>i \<in> V. ca_cell ca (new_of p i) = cells i)
     \<and> (\<forall>j < n. j \<notin> new_of p ` V \<longrightarrow> ca_cell ca j = cells j))"

lemma moved_step:
  assumes p: "renames p n" and s: "moved p cells n md V (visited, ca)" and c: "c < n" "c \<notin> V" and cells: "cell_ok md (cells c)"
  shows "\<exists>ca'. ca_swap_node_with_buffer (new_of p c) (cells c) ca = Inr (cells (new_of p c), ca') \<and> moved p cells n md (insert c V) (visited[c := True], ca')"
proof -
  let ?d = "new_of p c"
  have S: "ca_ok ca" "ca_node_count ca = n" "ca_max_degree ca = md" "length visited = n" "V \<subseteq> {..<n}" "\<forall>i < n. visited ! i \<longleftrightarrow> i \<in> V"
    "\<forall>i \<in> V. ca_cell ca (new_of p i) = cells i" "\<forall>j < n. j \<notin> new_of p ` V \<longrightarrow> ca_cell ca j = cells j" using s by (auto simp: moved_def)
  have d: "?d < n" by (rule new_of_less[OF p c(1)])
  have fresh: "?d \<noteq> new_of p i" if "i \<in> V" for i using new_of_inj[OF p c(1), of i] that S(5) c(2) by auto
  then have old: "ca_cell ca ?d = cells ?d" using S(8) d by blast
  obtain ca' where ca': "ca_swap_node_with_buffer ?d (cells c) ca = Inr (ca_cell ca ?d, ca')" "ca_ok ca'" "ca_max_degree ca' = md" "ca_node_count ca' = n"
    "\<forall>m < n. ca_cell ca' m = (if m = ?d then cells c else ca_cell ca m)" using ca_swap_eq[OF S(1), of ?d "cells c"] S(2,3) d cells by auto
  have "\<forall>i \<in> insert c V. ca_cell ca' (new_of p i) = cells i" using ca'(5) S(5,7) fresh new_of_less[OF p] d by fastforce
  moreover have "\<forall>j < n. j \<notin> new_of p ` insert c V \<longrightarrow> ca_cell ca' j = cells j" using ca'(5) S(8) by auto
  moreover have "\<forall>i < n. visited[c := True] ! i \<longleftrightarrow> i \<in> insert c V" using S(4,6) c(1) by (auto simp: nth_list_update)
  ultimately show ?thesis using ca' S(4,5) c(1) old by (auto simp: moved_def)
qed

lemma permute_cycle_eq:
  assumes p: "renames p n" and cells: "\<forall>i < n. cell_ok md (cells i)"
    and s: "moved p cells n md V (visited, ca)" and c: "c < n" "c \<notin> V" "start < n" "c = start \<or> start \<in> V"
    and path: "new_of p ` V = insert c V - {start}" and fuel: "n - card V \<le> fuel"
  shows "\<exists>V' s'. permute_cycle fuel p start c (cells c) (visited, ca) = Inr s' \<and> moved p cells n md V' s'
    \<and> new_of p ` V' = V' \<and> V \<subseteq> V' \<and> start \<in> V'"
  using s c path fuel
proof (induction fuel arbitrary: V visited ca c)
  case 0
  have "V \<subseteq> {..<n} - {c}" "finite ({..<n} - {c})" using "0.prems"(1,3) by (auto simp: moved_def)
  from card_mono[OF this(2,1)] show ?case using "0.prems"(2,7) by simp
next
  case (Suc fuel)
  let ?d = "new_of p c" and ?V = "insert c V"
  have len: "length visited = n" "ca_node_count ca = n" "finite V" "V \<subseteq> {..<n}" using Suc.prems(1) finite_subset[of V "{..<n}"] by (auto simp: moved_def)
  have d: "?d < n" by (rule new_of_less[OF p Suc.prems(2)])
  obtain ca' where ca': "ca_swap_node_with_buffer ?d (cells c) ca = Inr (cells ?d, ca')" "moved p cells n md ?V (visited[c := True], ca')"
    using moved_step[OF p Suc.prems(1-3)] cells Suc.prems(2) by blast
  have fresh: "?d \<notin> new_of p ` V" using new_of_inj[OF p Suc.prems(2)] Suc.prems(3) len(4) by fastforce
  have img: "new_of p ` ?V = insert ?d (?V - {start})" using Suc.prems(6) by simp
  have op: "length p = n" using p by (simp add: renames_def)
  show ?case
  proof (cases "?d = start")
    case True
    have "start \<in> ?V" using Suc.prems(5) by auto
    then have closed: "new_of p ` ?V = ?V" unfolding img True by (rule insert_Diff)
    have run: "permute_cycle (Suc fuel) p start c (cells c) (visited, ca) = Inr (visited[c := True], ca')"
      using True ca'(1) len d Suc.prems(2) op by (simp add: set_idx_def idx_def)
    show ?thesis by (rule exI[of _ ?V], rule exI[of _ "(visited[c := True], ca')"]) (use run ca'(2) closed Suc.prems(5) in auto)
  next
    case False
    have notin: "?d \<notin> ?V" using fresh Suc.prems(6) False by auto
    have "visited[c := True] ! ?d \<longleftrightarrow> ?d \<in> ?V" using ca'(2) d unfolding moved_def by blast
    then have seen: "\<not> visited[c := True] ! ?d" using notin by blast
    have step: "permute_cycle (Suc fuel) p start c (cells c) (visited, ca) = permute_cycle fuel p start ?d (cells ?d) (visited[c := True], ca')"
      using False ca'(1) len d Suc.prems(2) op seen by (simp add: set_idx_def idx_def)
    have "n - card ?V \<le> fuel" using Suc.prems(3,7) len(3) by simp
    moreover have "new_of p ` ?V = insert ?d ?V - {start}" unfolding img using False by auto
    moreover have "start \<in> ?V" using Suc.prems(5) by auto
    ultimately obtain V' s' where "permute_cycle fuel p start ?d (cells ?d) (visited[c := True], ca') = Inr s'" "moved p cells n md V' s'"
      "new_of p ` V' = V'" "?V \<subseteq> V'" "start \<in> V'" using Suc.IH[OF ca'(2) d notin c(3)] by blast
    then show ?thesis using step by auto
  qed
qed

lemma permute_all:
  assumes p: "renames p n" and cells: "\<forall>i < n. cell_ok md (cells i)" and s: "moved p cells n md {} s" and k: "k \<le> n"
  shows "\<exists>V s'. fold_res (permute_from p) [0..<k] s = Inr s' \<and> moved p cells n md V s' \<and> new_of p ` V = V \<and> {..<k} \<subseteq> V"
  using k
proof (induction k)
  case 0
  then show ?case using s by auto
next
  case (Suc k)
  then obtain V visited ca where IH: "fold_res (permute_from p) [0..<k] s = Inr (visited, ca)" "moved p cells n md V (visited, ca)" "new_of p ` V = V" "{..<k} \<subseteq> V"
    by fastforce
  have S: "ca_ok ca" "ca_node_count ca = n" "length visited = n" "visited ! k \<longleftrightarrow> k \<in> V" "ca_max_degree ca = md" "V \<subseteq> {..<n}"
    "k \<notin> V \<Longrightarrow> ca_cell ca k = cells k" using IH(2,3) Suc.prems by (auto simp: moved_def)
  have fold: "fold_res (permute_from p) [0..<Suc k] s = permute_from p k (visited, ca)" using IH(1) by (simp add: fold_res_append)
  show ?case
  proof (cases "k \<in> V")
    case True
    then have "permute_from p k (visited, ca) = Inr (visited, ca)" using S(3,4) Suc.prems by (simp add: permute_from_def idx_def)
    moreover have "{..<Suc k} \<subseteq> V" using IH(4) True by (auto simp: less_Suc_eq)
    ultimately show ?thesis using fold IH(2,3) by (intro exI[of _ V] exI[of _ "(visited, ca)"]) simp
  next
    case False
    have "permute_from p k (visited, ca) = permute_cycle n p k k (cells k) (visited, ca)"
      using False S Suc.prems ca_cell_facts(3,4)[OF S(1), of k] by (simp add: permute_from_def idx_def)
    moreover have "new_of p ` V = insert k V - {k}" using IH(3) False by simp
    moreover have "k < n" using Suc.prems by simp
    ultimately obtain V' s' where "permute_from p k (visited, ca) = Inr s'" "moved p cells n md V' s'" "new_of p ` V' = V'" "V \<subseteq> V'" "k \<in> V'"
      using permute_cycle_eq[OF p cells IH(2), of k k n] False by auto
    moreover have "{..<Suc k} \<subseteq> V'" using IH(4) calculation(4,5) by (auto simp: less_Suc_eq)
    ultimately show ?thesis using fold by (intro exI[of _ V'] exI[of _ s']) simp
  qed
qed

lemma shard_neighbors_mut_eq:
  assumes ok: "shard_ok md sh" and l: "l < sh_node_count sh" and f: "f (shard_row md sh l) = Inr ns" "length ns = length (shard_row md sh l)"
  shows "\<exists>sh'. shard_neighbors_mut (sh_start_node sh + l) md f sh = Inr sh' \<and> row_set md l ns sh sh'"
proof -
  have len: "length (shard_row md sh l) = unat (sh_degrees sh ! l)" "length ns \<le> md" using shard_row_length[OF ok l] f(2) by auto
  obtain sh' where sh': "shard_replace (sh_start_node sh + l) md ns sh = Inr sh'" "row_set md l ns sh sh'" using shard_replace_eq[OF ok l len(2)] by blast
  have "sh_degrees sh' = (sh_degrees sh)[l := sh_degrees sh ! l]" using sh'(1) f(2) len(1)
    by (auto simp: shard_replace_def local_node_eq Let_def bind_res_eq_Inr set_idx_def split: if_splits)
  moreover have "subslice (l * md) (l * md + unat (sh_degrees sh ! l)) (sh_slots sh) = Inr (shard_row md sh l)" "l < length (sh_degrees sh)"
    using shard_neighbors_eq[OF ok l] ok l by (auto simp: shard_neighbors_def local_node_eq Let_def bind_res_eq_Inr idx_def shard_ok_def)
  ultimately have "shard_neighbors_mut (sh_start_node sh + l) md f sh = Inr sh'" using sh'(1) f len(1)
    by (auto simp: shard_neighbors_mut_def shard_replace_def local_node_eq Let_def bind_res_eq_Inr idx_def set_idx_def)
  then show ?thesis using sh'(2) by blast
qed

lemma ca_neighbors_mut_eq:
  assumes "ca_ok ca" "node < ca_node_count ca" "f (ca_adj ca ! node) = Inr ns" "length ns = length (ca_adj ca ! node)"
  shows "\<exists>ca'. ca_neighbors_mut node f ca = Inr ca' \<and> ca_ok ca' \<and> ca_adj ca' = (ca_adj ca)[node := ns] \<and> ca_max_degree ca' = ca_max_degree ca"
proof -
  note S = shard_of_node[OF assms(1)[unfolded ca_ok_def] assms(2)]
  have row: "ca_adj ca ! node = shard_row (ca_max_degree ca) (ca_shards ca ! shard_index node) (node mod 256)" using S(5) by (simp add: ca_adj_def)
  show ?thesis unfolding ca_neighbors_mut_def
    by (rule ca_on_shard[OF assms(1,2)]) (use shard_neighbors_mut_eq[OF S(2,4), of f ns] assms(3,4) row S(3) in simp)
qed

definition renamed :: "u32 list \<Rightarrow> u32 list \<Rightarrow> u32 list" where
  "renamed p ns = sort (map (\<lambda>x. p ! unat x) ns)"

lemma rename_rows:
  assumes ok: "ca_ok ca" and rows: "\<forall>i < ca_node_count ca. \<forall>x \<in> set (ca_adj ca ! i). unat x < length p" and k: "k \<le> ca_node_count ca"
  shows "\<exists>ca'. fold_res (\<lambda>node. ca_neighbors_mut node (rename_neighbors p)) [0..<k] ca = Inr ca' \<and> ca_ok ca' \<and> ca_max_degree ca' = ca_max_degree ca
    \<and> ca_node_count ca' = ca_node_count ca \<and> (\<forall>i < ca_node_count ca. ca_adj ca' ! i = (if i < k then renamed p (ca_adj ca ! i) else ca_adj ca ! i))"
  using k
proof (induction k)
  case 0
  then show ?case using ok by simp
next
  case (Suc k)
  then obtain ca1 where IH: "fold_res (\<lambda>node. ca_neighbors_mut node (rename_neighbors p)) [0..<k] ca = Inr ca1" "ca_ok ca1" "ca_max_degree ca1 = ca_max_degree ca"
    "ca_node_count ca1 = ca_node_count ca" "\<forall>i < ca_node_count ca. ca_adj ca1 ! i = (if i < k then renamed p (ca_adj ca ! i) else ca_adj ca ! i)" by auto
  have k: "k < ca_node_count ca" "ca_adj ca1 ! k = ca_adj ca ! k" using IH(5) Suc.prems by auto
  have "rename_neighbors p (ca_adj ca1 ! k) = Inr (renamed p (ca_adj ca1 ! k))"
    using rows k map_res_Inr_map[of "ca_adj ca ! k" "\<lambda>x. idx p (unat x)" "\<lambda>x. p ! unat x"] by (simp add: rename_neighbors_def renamed_def idx_def)
  then obtain ca2 where ca2: "ca_neighbors_mut k (rename_neighbors p) ca1 = Inr ca2" "ca_ok ca2" "ca_adj ca2 = (ca_adj ca1)[k := renamed p (ca_adj ca1 ! k)]"
    "ca_max_degree ca2 = ca_max_degree ca1" using ca_neighbors_mut_eq[OF IH(2), of k "rename_neighbors p" "renamed p (ca_adj ca1 ! k)"] k IH(4) by (auto simp: renamed_def)
  have "length (ca_adj ca2) = length (ca_adj ca1)" using ca2(3) by simp
  then have "ca_node_count ca2 = ca_node_count ca" using IH(4) by simp
  moreover have "\<forall>i < ca_node_count ca. ca_adj ca2 ! i = (if i < Suc k then renamed p (ca_adj ca ! i) else ca_adj ca ! i)"
    using ca2(3) IH(4,5) k by (auto simp: nth_list_update less_Suc_eq)
  moreover have "fold_res (\<lambda>node. ca_neighbors_mut node (rename_neighbors p)) [0..<Suc k] ca = Inr ca2" using IH(1) ca2(1) by (simp add: fold_res_append)
  ultimately show ?case using ca2(2,4) IH(3) by (intro exI[of _ ca2]) simp
qed

section \<open>Property\<close>

text \<open>C16: permuting a store in place by a renaming of its nodes never panics and ends: the row of every node is found
  under its new name, with its neighbours renamed and sorted, although all rows move along the cycles
  of the renaming through a buffer of one row.\<close>

theorem permute_renames_graph:
  assumes "ca_ok ca" "renames p (ca_node_count ca)" "\<forall>ns \<in> set (ca_adj ca). \<forall>x \<in> set ns. unat x < ca_node_count ca"
  shows "\<exists>ca'. ca_permute_and_map_neighbors p ca = Inr ca' \<and> ca_ok ca' \<and> length (ca_adj ca') = length (ca_adj ca)
    \<and> (\<forall>i < ca_node_count ca. ca_adj ca' ! unat (p ! i) = sort (map (\<lambda>x. p ! unat x) (ca_adj ca ! i)))"
proof -
  let ?n = "ca_node_count ca" and ?md = "ca_max_degree ca" and ?start = "(replicate (ca_node_count ca) False, ca)"
  have cells: "\<forall>i < ?n. cell_ok ?md (ca_cell ca i)" using ca_cell_facts(1)[OF assms(1)] by blast
  have start: "moved p (ca_cell ca) ?n ?md {} ?start" using assms(1) by (simp add: moved_def)
  obtain V visited ca1 where m: "fold_res (permute_from p) [0..<?n] ?start = Inr (visited, ca1)" "moved p (ca_cell ca) ?n ?md V (visited, ca1)" "{..<?n} \<subseteq> V"
    using permute_all[OF assms(2) cells start order.refl] by fastforce
  have S: "ca_ok ca1" "ca_node_count ca1 = ?n" "\<And>i. i < ?n \<Longrightarrow> ca_cell ca1 (new_of p i) = ca_cell ca i"
    using m(2,3) by (auto simp: moved_def)
  have row: "ca_adj ca1 ! new_of p i = ca_adj ca ! i" if i: "i < ?n" for i
    using ca_cell_facts(2)[OF assms(1) i] ca_cell_facts(2)[OF S(1), of "new_of p i"] S(2,3) new_of_less[OF assms(2) i] i by simp
  have len: "length p = ?n" using assms(2) by (simp add: renames_def)
  have surj: "new_of p ` {..<?n} = {..<?n}"
    by (rule card_subset_eq) (use new_of_less[OF assms(2)] new_of_inj[OF assms(2)] in \<open>auto simp: card_image inj_on_def\<close>)
  have "\<forall>x \<in> set (ca_adj ca1 ! j). unat x < length p" if j: "j < ?n" for j
  proof -
    have "j \<in> new_of p ` {..<?n}" unfolding surj using j by simp
    then obtain i where "i < ?n" "j = new_of p i" by blast
    then have "ca_adj ca1 ! j \<in> set (ca_adj ca)" using row by simp
    then show ?thesis using assms(3) len by simp
  qed
  then obtain ca2 where ca2: "fold_res (\<lambda>node. ca_neighbors_mut node (rename_neighbors p)) [0..<?n] ca1 = Inr ca2" "ca_ok ca2" "ca_node_count ca2 = ?n"
    "\<forall>i < ?n. ca_adj ca2 ! i = renamed p (ca_adj ca1 ! i)" using rename_rows[OF S(1), of p ?n] S(2) by auto
  have "ca_permute_and_map_neighbors p ca = Inr ca2" using m(1) len S(2) ca2(1) by (simp add: ca_permute_and_map_neighbors_def)
  moreover have "ca_adj ca2 ! unat (p ! i) = sort (map (\<lambda>x. p ! unat x) (ca_adj ca ! i))" if i: "i < ?n" for i
    using ca2(4) new_of_less[OF assms(2) i] row[OF i] by (simp add: renamed_def)
  ultimately show ?thesis using ca2(2,3) by (intro exI[of _ ca2]) simp
qed

theorem permute_renames_graph_witness:
  "\<exists>ca ca'. ca_from_nested [[1, 2], [0], [1]] 2 = Inr ca \<and> ca_permute_and_map_neighbors [2, 0, 1] ca = Inr ca' \<and> ca_adj ca' ! 2 = [0, 1]"
proof -
  obtain ca where ca: "ca_from_nested [[1, 2], [0], [1 :: u32]] 2 = Inr ca" "ca_ok ca" "ca_adj ca = [[1, 2], [0], [1]]" "ca_node_count ca = 3"
    using ca_from_nested_eq[of 2 "[[1, 2], [0], [1 :: u32]]"] by auto
  have p: "renames [2, 0, 1] (ca_node_count ca)" by (simp add: renames_def ca(4))
  obtain ca' where ca': "ca_permute_and_map_neighbors [2, 0, 1] ca = Inr ca'"
    "\<forall>i < 3. ca_adj ca' ! unat ([2, 0, 1 :: u32] ! i) = sort (map (\<lambda>x. [2, 0, 1] ! unat x) ([[1, 2], [0], [1 :: u32]] ! i))"
    using permute_renames_graph[OF ca(2) p] ca(3,4) by auto
  have "ca_adj ca' ! 2 = [0, 1]" using ca'(2)[rule_format, of 0] by simp
  then show ?thesis using ca(1) ca'(1) by blast
qed

end
