(* ===== verification/Vamana_Prune.thy ===== *)
theory Vamana_Prune
  imports Distance Adjacency
begin

text \<open>
  Scored nodes, the distances between nodes and the robust pruning of \<open>core/src/vamana.rs\<close>. Pruning
  compacts its pool of candidates in place, four distances at a time, one at a time, or with an early
  exit on long vectors. A short recursive definition says what it selects; the loop is shown to
  select just that.
\<close>

datatype ScoredNode = ScoredNode (sn_id: u32) (sn_distance: f32)

text \<open>\<open>scored_node_order\<close>: by distance, then by id.\<close>

instantiation ScoredNode :: linorder
begin

definition less_eq_ScoredNode :: "ScoredNode \<Rightarrow> ScoredNode \<Rightarrow> bool" where
  "less_eq_ScoredNode a b \<longleftrightarrow> sn_distance a < sn_distance b \<or> sn_distance a = sn_distance b \<and> sn_id a \<le> sn_id b"

definition less_ScoredNode :: "ScoredNode \<Rightarrow> ScoredNode \<Rightarrow> bool" where
  "less_ScoredNode a b \<longleftrightarrow> sn_distance a < sn_distance b \<or> sn_distance a = sn_distance b \<and> sn_id a < sn_id b"

instance
  by standard (auto simp: less_eq_ScoredNode_def less_ScoredNode_def ScoredNode.expand)

end

section \<open>Distances of nodes\<close>

definition node_distance :: "arch \<Rightarrow> f32 list \<Rightarrow> nat \<Rightarrow> nat \<Rightarrow> f32 list \<Rightarrow> MetricType \<Rightarrow> f32 res" where
  "node_distance t vectors dimension node query metric =
     (let start = node * dimension in
      bind_res (subslice start (start + dimension) vectors) (\<lambda>v. fvec_distance t v query metric))"

definition distance_between :: "arch \<Rightarrow> f32 list \<Rightarrow> nat \<Rightarrow> nat \<Rightarrow> nat \<Rightarrow> MetricType \<Rightarrow> f32 res" where
  "distance_between t vectors dimension left right metric =
     (let left_start = left * dimension; right_start = right * dimension in
      bind_res (subslice left_start (left_start + dimension) vectors) (\<lambda>a.
      bind_res (subslice right_start (right_start + dimension) vectors) (\<lambda>b. fvec_distance t a b metric)))"

definition distance_between_four :: "arch \<Rightarrow> f32 list \<Rightarrow> nat \<Rightarrow> nat \<Rightarrow> nat list \<Rightarrow> f32 list res" where
  "distance_between_four t vectors dimension left rights =
     (let left_start = left * dimension in
      bind_res (subslice left_start (left_start + dimension) vectors) (\<lambda>a.
      bind_res (map_res (\<lambda>right. subslice (right * dimension) (right * dimension + dimension) vectors) rights) (\<lambda>bs.
      bind_res (idx bs 0) (\<lambda>b0. bind_res (idx bs 1) (\<lambda>b1. bind_res (idx bs 2) (\<lambda>b2. bind_res (idx bs 3) (\<lambda>b3.
        fvec_l2sqr_four t a b0 b1 b2 b3)))))))"

definition distance_between_exceeds :: "arch \<Rightarrow> f32 list \<Rightarrow> nat \<Rightarrow> nat \<Rightarrow> nat \<Rightarrow> f32 \<Rightarrow> f32 \<Rightarrow> bool res" where
  "distance_between_exceeds t vectors dimension left right scale threshold =
     (let left_start = left * dimension; right_start = right * dimension in
      bind_res (subslice left_start (left_start + dimension) vectors) (\<lambda>a.
      bind_res (subslice right_start (right_start + dimension) vectors) (\<lambda>b. fvec_l2sqr_scaled_exceeds t a b scale threshold)))"

section \<open>Robust pruning\<close>

definition retain_after_prune :: "MetricType \<Rightarrow> f32 \<Rightarrow> f32 \<Rightarrow> f32 \<Rightarrow> bool" where
  "retain_after_prune metric selected_to_candidate source_to_candidate alpha =
     (case metric of
        InnerProduct \<Rightarrow> f32_le (f32_mul alpha source_to_candidate) selected_to_candidate
      | L2 \<Rightarrow> f32_lt source_to_candidate (f32_mul alpha selected_to_candidate)
      | Cosine \<Rightarrow> f32_lt source_to_candidate (f32_mul alpha selected_to_candidate))"

text \<open>\<open>if keep { pool[retained] = candidate; retained += 1 }\<close>.\<close>

definition keep_candidate :: "ScoredNode \<Rightarrow> bool \<Rightarrow> ScoredNode list \<times> nat \<Rightarrow> (ScoredNode list \<times> nat) res" where
  "keep_candidate candidate keep = (\<lambda>(pool, retained).
     if keep then bind_res (set_idx pool retained candidate) (\<lambda>pool'. Inr (pool', retained + 1)) else Inr (pool, retained))"

definition prune_four ::
  "arch \<Rightarrow> f32 list \<Rightarrow> nat \<Rightarrow> MetricType \<Rightarrow> f32 \<Rightarrow> ScoredNode \<Rightarrow> nat \<Rightarrow> ScoredNode list \<times> nat \<Rightarrow> (ScoredNode list \<times> nat) res" where
  "prune_four t vectors dimension metric alpha pivot candidate_index = (\<lambda>(pool, retained).
     bind_res (subslice candidate_index (candidate_index + 4) pool) (\<lambda>candidates.
     bind_res (distance_between_four t vectors dimension (unat (sn_id pivot)) (map (\<lambda>c. unat (sn_id c)) candidates)) (\<lambda>distances.
       fold_res (\<lambda>(candidate, distance). keep_candidate candidate (retain_after_prune metric distance (sn_distance candidate) alpha))
         (zip candidates distances) (pool, retained))))"

definition prune_one ::
  "arch \<Rightarrow> f32 list \<Rightarrow> nat \<Rightarrow> MetricType \<Rightarrow> f32 \<Rightarrow> ScoredNode \<Rightarrow> nat \<Rightarrow> ScoredNode list \<times> nat \<Rightarrow> (ScoredNode list \<times> nat) res" where
  "prune_one t vectors dimension metric alpha pivot candidate_index = (\<lambda>(pool, retained).
     bind_res (idx pool candidate_index) (\<lambda>candidate.
     bind_res (distance_between t vectors dimension (unat (sn_id pivot)) (unat (sn_id candidate)) metric) (\<lambda>distance.
       keep_candidate candidate (retain_after_prune metric distance (sn_distance candidate) alpha) (pool, retained))))"

definition prune_exceeds ::
  "arch \<Rightarrow> f32 list \<Rightarrow> nat \<Rightarrow> f32 \<Rightarrow> ScoredNode \<Rightarrow> nat \<Rightarrow> ScoredNode list \<times> nat \<Rightarrow> (ScoredNode list \<times> nat) res" where
  "prune_exceeds t vectors dimension alpha pivot candidate_index = (\<lambda>(pool, retained).
     bind_res (idx pool candidate_index) (\<lambda>candidate.
     bind_res (distance_between_exceeds t vectors dimension (unat (sn_id pivot)) (unat (sn_id candidate)) alpha (sn_distance candidate)) (\<lambda>keep.
       keep_candidate candidate keep (pool, retained))))"

text \<open>One round for a pivot. The length of the pool does not change in it, so the number of groups of four
  is known at its start.\<close>

definition prune_round ::
  "arch \<Rightarrow> f32 list \<Rightarrow> nat \<Rightarrow> MetricType \<Rightarrow> f32 \<Rightarrow> ScoredNode \<Rightarrow> nat \<Rightarrow> ScoredNode list \<Rightarrow> (ScoredNode list \<times> nat) res" where
  "prune_round t vectors dimension metric alpha pivot next pool =
     (if metric = L2 \<and> dimension < 256 then
        (let fours = (length pool - next) div 4 in
         bind_res (fold_res (prune_four t vectors dimension metric alpha pivot) (map (\<lambda>k. next + 4 * k) [0..<fours]) (pool, next)) (\<lambda>s.
           fold_res (prune_one t vectors dimension metric alpha pivot) [next + 4 * fours..<length pool] s))
      else if metric = L2 then fold_res (prune_exceeds t vectors dimension alpha pivot) [next..<length pool] (pool, next)
      else fold_res (prune_one t vectors dimension metric alpha pivot) [next..<length pool] (pool, next))"

fun prune_loop ::
  "nat \<Rightarrow> arch \<Rightarrow> f32 list \<Rightarrow> nat \<Rightarrow> nat \<Rightarrow> MetricType \<Rightarrow> f32 \<Rightarrow> nat \<Rightarrow> ScoredNode list \<Rightarrow> u32 list \<Rightarrow> (ScoredNode list \<times> u32 list) res" where
  "prune_loop 0 t vectors dimension max_degree metric alpha next pool selected = Inl Diverge"
| "prune_loop (Suc fuel) t vectors dimension max_degree metric alpha next pool selected =
     (if next < length pool \<and> length selected < max_degree then
        (let pivot = pool ! next in
         bind_res (prune_round t vectors dimension metric alpha pivot (next + 1) pool) (\<lambda>(pool', retained).
           prune_loop fuel t vectors dimension max_degree metric alpha (next + 1) (take retained pool') (selected @ [sn_id pivot])))
      else Inr (pool, selected))"

text \<open>Returns the contents of \<open>unique\<close>, \<open>pool\<close> and \<open>selected\<close>, all three cleared first. A round drops at least its
  pivot from what is left, so one round more than the pool is long is never reached.\<close>

definition robust_prune_candidates_into ::
  "arch \<Rightarrow> f32 list \<Rightarrow> nat \<Rightarrow> nat \<Rightarrow> u32 list \<Rightarrow> u32 list \<Rightarrow> nat \<Rightarrow> nat \<Rightarrow> f32 \<Rightarrow> MetricType \<Rightarrow> (u32 list \<times> ScoredNode list \<times> u32 list) res" where
  "robust_prune_candidates_into t vectors dimension node candidates current_neighbors node_count max_degree alpha metric =
     (let unique = remdups_adj (sort (filter (\<lambda>c. unat c \<noteq> node \<and> unat c < node_count) (candidates @ current_neighbors))) in
      bind_res (map_res (\<lambda>c. bind_res (distance_between t vectors dimension node (unat c) metric) (\<lambda>distance. Inr (ScoredNode c distance))) unique) (\<lambda>scored.
      let pool = sort scored in
      bind_res (prune_loop (length pool + 1) t vectors dimension max_degree metric alpha 0 pool []) (\<lambda>(pool', selected).
        Inr (unique, pool', selected))))"

definition robust_prune_candidates ::
  "arch \<Rightarrow> f32 list \<Rightarrow> nat \<Rightarrow> nat \<Rightarrow> u32 list \<Rightarrow> u32 list \<Rightarrow> nat \<Rightarrow> nat \<Rightarrow> f32 \<Rightarrow> MetricType \<Rightarrow> u32 list res" where
  "robust_prune_candidates t vectors dimension node candidates current_neighbors node_count max_degree alpha metric =
     bind_res (robust_prune_candidates_into t vectors dimension node candidates current_neighbors node_count max_degree alpha metric)
       (\<lambda>(_, _, selected). Inr selected)"

section \<open>What pruning selects\<close>

fun prune_spec :: "('a \<Rightarrow> 'a \<Rightarrow> bool) \<Rightarrow> nat \<Rightarrow> 'a list \<Rightarrow> 'a list" where
  "prune_spec keep 0 pool = []"
| "prune_spec keep (Suc k) [] = []"
| "prune_spec keep (Suc k) (p # rest) = p # prune_spec keep k (filter (keep p) rest)"

lemma prune_spec_Nil [simp]: "prune_spec keep k [] = []"
  by (cases k) simp_all

lemma prune_spec_set: "set (prune_spec keep k pool) \<subseteq> set pool"
  by (induction keep k pool rule: prune_spec.induct) auto

lemma prune_spec_length: "length (prune_spec keep k pool) \<le> k"
  by (induction keep k pool rule: prune_spec.induct) auto

lemma prune_spec_distinct: "distinct pool \<Longrightarrow> distinct (prune_spec keep k pool)"
proof (induction keep k pool rule: prune_spec.induct)
  case (3 keep k p rest)
  then show ?case using prune_spec_set[of keep k "filter (keep p) rest"] by auto
qed simp_all

lemma prune_spec_sorted: "sorted pool \<Longrightarrow> sorted (prune_spec keep k pool)"
proof (induction keep k pool rule: prune_spec.induct)
  case (3 keep k p rest)
  then show ?case using prune_spec_set[of keep k "filter (keep p) rest"] by (auto simp: sorted_wrt_filter)
qed simp_all

text \<open>What is left out is occluded by something nearer that was selected, unless the result is full.\<close>

lemma prune_spec_covers:
  assumes "c \<in> set pool" "sorted pool"
  shows "c \<in> set (prune_spec keep k pool) \<or> length (prune_spec keep k pool) = k
    \<or> (\<exists>p \<in> set (prune_spec keep k pool). p \<le> c \<and> \<not> keep p c)"
  using assms
proof (induction keep k pool rule: prune_spec.induct)
  case (3 keep k p rest)
  have IH: "c \<in> set (prune_spec keep k (filter (keep p) rest)) \<or> length (prune_spec keep k (filter (keep p) rest)) = k
    \<or> (\<exists>p' \<in> set (prune_spec keep k (filter (keep p) rest)). p' \<le> c \<and> \<not> keep p' c)" if "c \<in> set rest" "keep p c"
    using 3 that by (simp add: sorted_wrt_filter)
  show ?case
  proof (cases "c = p")
    case False
    then have "c \<in> set rest" "p \<le> c" using 3 by auto
    then show ?thesis using IH by (cases "keep p c") auto
  qed simp
qed simp_all

lemma prune_spec_no_occlusion:
  assumes "prune_spec keep k pool = xs @ p # ys @ c # zs"
  shows "keep p c"
  using assms
proof (induction keep k pool arbitrary: xs rule: prune_spec.induct)
  case (3 keep k q rest)
  show ?case
  proof (cases xs)
    case Nil
    then have "q = p" "c \<in> set (prune_spec keep k (filter (keep p) rest))" using 3 by auto
    then show ?thesis using prune_spec_set[of keep k "filter (keep p) rest"] by auto
  next
    case (Cons x xs')
    then show ?thesis using 3 by auto
  qed
qed simp_all

section \<open>The loop selects it\<close>

lemma fvec_distance_total: "length a = length b \<Longrightarrow> \<exists>x. fvec_distance t a b metric = Inr x"
  by (cases metric) (simp_all add: fvec_distance_def fvec_l2sqr_def fvec_inner_product_def fvec_cosine_distance_with_norms_def Let_def)

text \<open>The distance of two nodes where both exist.\<close>

definition gap :: "arch \<Rightarrow> f32 list \<Rightarrow> nat \<Rightarrow> MetricType \<Rightarrow> nat \<Rightarrow> nat \<Rightarrow> f32" where
  "gap t vectors d metric a b = (case fvec_distance t (row_of d vectors a) (row_of d vectors b) metric of Inr x \<Rightarrow> x | Inl _ \<Rightarrow> f32_NAN)"

lemma subslice_row: "length vectors = n * d \<Longrightarrow> i < n \<Longrightarrow> subslice (i * d) (i * d + d) vectors = Inr (row_of d vectors i)"
  using subslice_row_of[of vectors n d i] by (simp add: add.commute)

lemma distance_between_eq:
  assumes "length vectors = n * d" "a < n" "b < n"
  shows "distance_between t vectors d a b metric = Inr (gap t vectors d metric a b)"
proof -
  have "length (row_of d vectors a) = length (row_of d vectors b)" using length_row_of[OF assms(1)] assms(2,3) by simp
  then obtain x where "fvec_distance t (row_of d vectors a) (row_of d vectors b) metric = Inr x" using fvec_distance_total by blast
  then show ?thesis using subslice_row[OF assms(1,2)] subslice_row[OF assms(1,3)] by (simp add: distance_between_def gap_def)
qed

lemma distance_between_four_eq:
  assumes "length vectors = n * d" "a < n" "length bs = 4" "\<forall>b \<in> set bs. b < n"
  shows "distance_between_four t vectors d a bs = Inr (map (gap t vectors d L2 a) bs)"
proof -
  obtain b0 b1 b2 b3 where bs: "bs = [b0, b1, b2, b3]"
  proof -
    have "length bs = Suc (Suc (Suc (Suc 0)))" using assms(3) by simp
    then show ?thesis using that by (auto simp: length_Suc_conv)
  qed
  have "fvec_l2sqr t (row_of d vectors a) (row_of d vectors b) = Inr (gap t vectors d L2 a b)" if "b \<in> set bs" for b
    using distance_between_eq[OF assms(1,2), of b t L2] subslice_row[OF assms(1)] assms(2,4) that by (simp add: distance_between_def fvec_distance_def)
  then show ?thesis using subslice_row[OF assms(1)] assms(2,4) by (simp add: distance_between_four_def bs four_eq_singles idx_def)
qed

definition prune_keep :: "arch \<Rightarrow> f32 list \<Rightarrow> nat \<Rightarrow> MetricType \<Rightarrow> f32 \<Rightarrow> ScoredNode \<Rightarrow> ScoredNode \<Rightarrow> bool" where
  "prune_keep t vectors d metric alpha p c =
     (if metric = L2 \<and> 256 \<le> d
      then (case fvec_l2sqr_scaled_exceeds t (row_of d vectors (unat (sn_id p))) (row_of d vectors (unat (sn_id c))) alpha (sn_distance c) of Inr b \<Rightarrow> b | Inl _ \<Rightarrow> False)
      else retain_after_prune metric (gap t vectors d metric (unat (sn_id p)) (unat (sn_id c))) (sn_distance c) alpha)"

definition alpha_ok :: "MetricType \<Rightarrow> nat \<Rightarrow> f32 \<Rightarrow> bool" where
  "alpha_ok metric d alpha \<longleftrightarrow> (metric = L2 \<and> 256 \<le> d \<longrightarrow> is_finite alpha \<and> f32_le f32_zero alpha)"

lemma distance_between_exceeds_eq:
  assumes "length vectors = n * d" "unat (sn_id p) < n" "unat (sn_id c) < n" "alpha_ok L2 d alpha" "256 \<le> d"
  shows "distance_between_exceeds t vectors d (unat (sn_id p)) (unat (sn_id c)) alpha (sn_distance c) = Inr (prune_keep t vectors d L2 alpha p c)"
proof -
  have "length (row_of d vectors (unat (sn_id p))) = length (row_of d vectors (unat (sn_id c)))" using length_row_of[OF assms(1)] assms(2,3) by simp
  then show ?thesis using subslice_row[OF assms(1,2)] subslice_row[OF assms(1,3)] assms(4,5)
    by (simp add: distance_between_exceeds_def prune_keep_def alpha_ok_def fvec_l2sqr_scaled_exceeds_def)
qed

text \<open>A pool whose entries up to \<open>i\<close> have been looked at: those that stay moved to the front, the rest is untouched.\<close>

definition compacted :: "(ScoredNode \<Rightarrow> bool) \<Rightarrow> ScoredNode list \<Rightarrow> nat \<Rightarrow> nat \<Rightarrow> ScoredNode list \<times> nat \<Rightarrow> bool" where
  "compacted K pool0 next i = (\<lambda>(pool, r). length pool = length pool0 \<and> r \<le> i
     \<and> take r pool = take next pool0 @ filter K (slice next i pool0) \<and> drop i pool = drop i pool0)"

lemma keep_step:
  assumes c: "compacted K pool0 next i (pool, r)" and i: "next \<le> i" "i < length pool0"
  shows "\<exists>s. keep_candidate (pool0 ! i) (K (pool0 ! i)) (pool, r) = Inr s \<and> compacted K pool0 next (Suc i) s"
proof -
  have C: "length pool = length pool0" "r \<le> i" "take r pool = take next pool0 @ filter K (slice next i pool0)" "drop i pool = drop i pool0"
    using c by (auto simp: compacted_def)
  have d: "drop (Suc i) pool = drop (Suc i) pool0" using C(4) by (metis drop_Suc drop_drop plus_1_eq_Suc)
  show ?thesis
  proof (cases "K (pool0 ! i)")
    case True
    have "take (Suc r) (pool[r := pool0 ! i]) = take r pool @ [pool0 ! i]" using C(1,2) i by (simp add: take_Suc_conv_app_nth)
    moreover have "drop (Suc i) (pool[r := pool0 ! i]) = drop (Suc i) pool" using C(2) by simp
    ultimately show ?thesis using True C i d by (simp add: keep_candidate_def set_idx_def compacted_def slice_Suc)
  next
    case False
    then show ?thesis using C i d by (simp add: keep_candidate_def compacted_def slice_Suc)
  qed
qed

lemma compacted_nth: "compacted K pool0 next i (pool, r) \<Longrightarrow> i \<le> j \<Longrightarrow> j < length pool0 \<Longrightarrow> pool ! j = pool0 ! j"
proof -
  assume a: "compacted K pool0 next i (pool, r)" "i \<le> j" "j < length pool0"
  then have "drop i pool ! (j - i) = drop i pool0 ! (j - i)" "length pool = length pool0" by (simp_all add: compacted_def)
  then show ?thesis using a(2,3) by simp
qed

lemma compacted_slice: "compacted K pool0 next i (pool, r) \<Longrightarrow> slice i j pool = slice i j pool0"
  by (simp add: compacted_def slice_def)

lemma compact_loop:
  assumes "compacted K pool0 next i s" "next \<le> i" "i \<le> j" "j \<le> length pool0"
    and step: "\<And>k pool r. i \<le> k \<Longrightarrow> k < j \<Longrightarrow> compacted K pool0 next k (pool, r) \<Longrightarrow> f k (pool, r) = keep_candidate (pool0 ! k) (K (pool0 ! k)) (pool, r)"
  shows "\<exists>s'. fold_res f [i..<j] s = Inr s' \<and> compacted K pool0 next j s'"
  using assms(3,4)
proof (induction j rule: dec_induct)
  case base
  then show ?case using assms(1) by simp
next
  case (step k)
  then obtain pool r where s: "fold_res f [i..<k] s = Inr (pool, r)" "compacted K pool0 next k (pool, r)" by auto
  obtain s' where "keep_candidate (pool0 ! k) (K (pool0 ! k)) (pool, r) = Inr s'" "compacted K pool0 next (Suc k) s'"
    using keep_step[OF s(2)] step assms(2) by auto
  then show ?case using s assms(5)[of k pool r] step by (simp add: fold_res_append)
qed

lemma prune_one_keeps:
  assumes len: "length vectors = n * d" and ids: "unat (sn_id pivot) < n" "\<forall>c \<in> set pool0. unat (sn_id c) < n"
    and m: "\<not> (metric = L2 \<and> 256 \<le> d)" and k: "k < length pool0" "compacted K pool0 next k (pool, r)"
  shows "prune_one t vectors d metric alpha pivot k (pool, r) = keep_candidate (pool0 ! k) (prune_keep t vectors d metric alpha pivot (pool0 ! k)) (pool, r)"
proof -
  have p: "pool ! k = pool0 ! k" "k < length pool" using compacted_nth[OF k(2) order.refl k(1)] k by (auto simp: compacted_def)
  have "unat (sn_id (pool0 ! k)) < n" using ids(2) k(1) by simp
  from distance_between_eq[OF len ids(1) this] show ?thesis using p m by (auto simp: prune_one_def idx_def prune_keep_def)
qed

lemma prune_exceeds_keeps:
  assumes len: "length vectors = n * d" and ids: "unat (sn_id pivot) < n" "\<forall>c \<in> set pool0. unat (sn_id c) < n"
    and m: "256 \<le> d" "alpha_ok L2 d alpha" and k: "k < length pool0" "compacted K pool0 next k (pool, r)"
  shows "prune_exceeds t vectors d alpha pivot k (pool, r) = keep_candidate (pool0 ! k) (prune_keep t vectors d L2 alpha pivot (pool0 ! k)) (pool, r)"
proof -
  have p: "pool ! k = pool0 ! k" "k < length pool" using compacted_nth[OF k(2) order.refl k(1)] k by (auto simp: compacted_def)
  have "unat (sn_id (pool0 ! k)) < n" using ids(2) k(1) by simp
  from distance_between_exceeds_eq[OF len ids(1) this m(2,1)] show ?thesis using p by (simp add: prune_exceeds_def idx_def)
qed

lemma prune_four_keeps:
  assumes len: "length vectors = n * d" and ids: "unat (sn_id pivot) < n" "\<forall>c \<in> set pool0. unat (sn_id c) < n"
    and d: "d < 256" and i: "next \<le> i" "i + 4 \<le> length pool0" "compacted (prune_keep t vectors d L2 alpha pivot) pool0 next i (pool, r)"
  shows "\<exists>s. prune_four t vectors d L2 alpha pivot i (pool, r) = Inr s \<and> compacted (prune_keep t vectors d L2 alpha pivot) pool0 next (i + 4) s"
proof -
  let ?K = "prune_keep t vectors d L2 alpha pivot" and ?cs = "map ((!) pool0) [i..<i + 4]"
  let ?g = "\<lambda>c. gap t vectors d L2 (unat (sn_id pivot)) (unat (sn_id c))"
  have len0: "length pool = length pool0" using i(3) by (simp add: compacted_def)
  have cs: "slice i (i + 4) pool0 = ?cs" using i(2) by (intro nth_equalityI) (simp_all add: nth_slice)
  have "unat (sn_id c) < n" if "c \<in> set ?cs" for c using that ids(2) i(2) by auto
  then have four: "distance_between_four t vectors d (unat (sn_id pivot)) (map (\<lambda>c. unat (sn_id c)) ?cs) = Inr (map ?g ?cs)"
    using distance_between_four_eq[OF len ids(1), of "map (\<lambda>c. unat (sn_id c)) ?cs" t] by (simp add: comp_def)
  have "zip ?cs (map ?g ?cs) = map (\<lambda>k. (pool0 ! k, ?g (pool0 ! k))) [i..<i + 4]" by (simp add: zip_map2 zip_map1 zip_same_conv_map comp_def)
  then have "prune_four t vectors d L2 alpha pivot i (pool, r) = fold_res (\<lambda>k. keep_candidate (pool0 ! k) (?K (pool0 ! k))) [i..<i + 4] (pool, r)"
    using d i(2) len0 compacted_slice[OF i(3), of "i + 4"] cs four
    by (simp add: prune_four_def subslice_def fold_res_map prune_keep_def del: upt_Suc)
  moreover have "\<exists>s. fold_res (\<lambda>k. keep_candidate (pool0 ! k) (?K (pool0 ! k))) [i..<i + 4] (pool, r) = Inr s \<and> compacted ?K pool0 next (i + 4) s"
    by (rule compact_loop[OF i(3,1)]) (use i(2) in auto)
  ultimately show ?thesis by simp
qed

lemma prune_fours_keep:
  assumes len: "length vectors = n * d" and ids: "unat (sn_id pivot) < n" "\<forall>c \<in> set pool. unat (sn_id c) < n"
    and d: "d < 256" and m: "next + 4 * m \<le> length pool"
  shows "\<exists>s. fold_res (prune_four t vectors d L2 alpha pivot) (map (\<lambda>k. next + 4 * k) [0..<m]) (pool, next) = Inr s
    \<and> compacted (prune_keep t vectors d L2 alpha pivot) pool next (next + 4 * m) s"
  using m
proof (induction m)
  case 0
  then show ?case by (simp add: compacted_def)
next
  case (Suc m)
  then obtain pool' r where s: "fold_res (prune_four t vectors d L2 alpha pivot) (map (\<lambda>k. next + 4 * k) [0..<m]) (pool, next) = Inr (pool', r)"
    "compacted (prune_keep t vectors d L2 alpha pivot) pool next (next + 4 * m) (pool', r)" by auto
  obtain s' where "prune_four t vectors d L2 alpha pivot (next + 4 * m) (pool', r) = Inr s'"
    "compacted (prune_keep t vectors d L2 alpha pivot) pool next (next + 4 * m + 4) s'"
    using prune_four_keeps[OF len ids d _ _ s(2)] Suc.prems by auto
  then show ?case using s(1) by (simp add: fold_res_append ac_simps)
qed

lemma prune_round_eq:
  assumes len: "length vectors = n * d" and ids: "unat (sn_id pivot) < n" "\<forall>c \<in> set pool. unat (sn_id c) < n"
    and a: "alpha_ok metric d alpha" and nx: "next \<le> length pool"
  shows "\<exists>pool' r. prune_round t vectors d metric alpha pivot next pool = Inr (pool', r)
    \<and> take r pool' = take next pool @ filter (prune_keep t vectors d metric alpha pivot) (drop next pool)"
proof -
  let ?K = "prune_keep t vectors d metric alpha pivot"
  have start: "compacted ?K pool next next (pool, next)" by (simp add: compacted_def)
  have "\<exists>s. prune_round t vectors d metric alpha pivot next pool = Inr s \<and> compacted ?K pool next (length pool) s"
  proof (cases "metric = L2")
    case True
    show ?thesis
    proof (cases "d < 256")
      case d: True
      define m where "m = (length pool - next) div 4"
      have m: "next + 4 * m \<le> length pool" using nx by (simp add: m_def)
      obtain s where s: "fold_res (prune_four t vectors d L2 alpha pivot) (map (\<lambda>k. next + 4 * k) [0..<m]) (pool, next) = Inr s"
        "compacted ?K pool next (next + 4 * m) s" using prune_fours_keep[OF len ids d m] True by blast
      have "\<exists>s'. fold_res (prune_one t vectors d L2 alpha pivot) [next + 4 * m..<length pool] s = Inr s' \<and> compacted ?K pool next (length pool) s'"
        by (rule compact_loop[OF s(2) _ m order.refl]) (use prune_one_keeps[OF len ids] d True in auto)
      then show ?thesis using s(1) d True by (simp add: prune_round_def m_def)
    next
      case d: False
      have "\<exists>s'. fold_res (prune_exceeds t vectors d alpha pivot) [next..<length pool] (pool, next) = Inr s' \<and> compacted ?K pool next (length pool) s'"
        by (rule compact_loop[OF start order.refl nx order.refl]) (use prune_exceeds_keeps[OF len ids] d True a in auto)
      then show ?thesis using d True by (simp add: prune_round_def)
    qed
  next
    case False
    have "\<exists>s'. fold_res (prune_one t vectors d metric alpha pivot) [next..<length pool] (pool, next) = Inr s' \<and> compacted ?K pool next (length pool) s'"
      by (rule compact_loop[OF start order.refl nx order.refl]) (use prune_one_keeps[OF len ids] False in auto)
    then show ?thesis using False by (simp add: prune_round_def)
  qed
  then show ?thesis by (auto simp: compacted_def slice_def)
qed

lemma prune_loop_eq:
  assumes len: "length vectors = n * d" and a: "alpha_ok metric d alpha"
    and "\<forall>c \<in> set pool. unat (sn_id c) < n" "next \<le> length pool" "length pool - next < fuel"
  shows "\<exists>pool'. prune_loop fuel t vectors d max_degree metric alpha next pool selected
    = Inr (pool', selected @ map sn_id (prune_spec (prune_keep t vectors d metric alpha) (max_degree - length selected) (drop next pool)))"
  using assms(3-5)
proof (induction fuel arbitrary: "next" pool selected)
  case (Suc fuel)
  let ?K = "prune_keep t vectors d metric alpha"
  show ?case
  proof (cases "next < length pool \<and> length selected < max_degree")
    case True
    let ?p = "pool ! next"
    have p: "unat (sn_id ?p) < n" using Suc.prems(1) True by simp
    obtain pool' r where R: "prune_round t vectors d metric alpha ?p (next + 1) pool = Inr (pool', r)"
      "take r pool' = take (next + 1) pool @ filter (?K ?p) (drop (next + 1) pool)"
      using prune_round_eq[OF len p Suc.prems(1) a, of "next + 1" t] True by auto
    have ids: "\<forall>c \<in> set (take r pool'). unat (sn_id c) < n" unfolding R(2) using Suc.prems(1) by (auto dest: in_set_takeD in_set_dropD)
    have l: "length (take r pool') \<le> length pool" "next + 1 \<le> length (take r pool')" unfolding R(2) using True length_filter_le[of "?K ?p" "drop (next + 1) pool"]
      by (auto simp del: length_filter_le)
    have dr: "drop (next + 1) (take r pool') = filter (?K ?p) (drop (next + 1) pool)" unfolding R(2) using True by simp
    have fuel: "length (take r pool') - (next + 1) < fuel" using Suc.prems(3) l(1) True by linarith
    obtain k where k: "max_degree - length selected = Suc k" using True by (metis Suc_diff_Suc)
    then have k': "max_degree - length (selected @ [sn_id ?p]) = k" by simp
    have "drop next pool = ?p # drop (next + 1) pool" using True by (simp add: Cons_nth_drop_Suc)
    then have "prune_spec ?K (max_degree - length selected) (drop next pool) = ?p # prune_spec ?K k (filter (?K ?p) (drop (next + 1) pool))"
      by (simp add: k)
    then show ?thesis using Suc.IH[OF ids l(2) fuel, of "selected @ [sn_id ?p]"] True R(1) unfolding dr k' by (simp add: Let_def)
  next
    case False
    then have "prune_spec ?K (max_degree - length selected) (drop next pool) = []" using Suc.prems(2) by auto
    then show ?thesis using False by auto
  qed
qed simp

lemma distinct_remdups_adj_sort: "distinct (remdups_adj (sort xs))"
proof -
  have "sorted ys \<Longrightarrow> distinct (remdups_adj ys)" for ys :: "'a list" by (induction ys rule: remdups_adj.induct) auto
  then show ?thesis by simp
qed

text \<open>The candidates of a node: everything offered except itself and ids that are out of range, nearest first.\<close>

definition prune_pool :: "arch \<Rightarrow> f32 list \<Rightarrow> nat \<Rightarrow> MetricType \<Rightarrow> nat \<Rightarrow> nat \<Rightarrow> u32 list \<Rightarrow> ScoredNode list" where
  "prune_pool t vectors d metric node n offered =
     sort (map (\<lambda>c. ScoredNode c (gap t vectors d metric node (unat c))) (remdups_adj (sort (filter (\<lambda>c. unat c \<noteq> node \<and> unat c < n) offered))))"

lemma prune_pool_facts:
  "sorted (prune_pool t vectors d metric node n offered)" "distinct (map sn_id (prune_pool t vectors d metric node n offered))"
  "set (prune_pool t vectors d metric node n offered)
    = (\<lambda>c. ScoredNode c (gap t vectors d metric node (unat c))) ` {c \<in> set offered. unat c \<noteq> node \<and> unat c < n}"
proof -
  let ?u = "remdups_adj (sort (filter (\<lambda>c. unat c \<noteq> node \<and> unat c < n) offered))" and ?f = "\<lambda>c. ScoredNode c (gap t vectors d metric node (unat c))"
  show "sorted (prune_pool t vectors d metric node n offered)" by (simp add: prune_pool_def)
  have "mset (map sn_id (sort (map ?f ?u))) = mset ?u" by (simp add: multiset.map_comp comp_def)
  then have "distinct (map sn_id (sort (map ?f ?u))) \<longleftrightarrow> distinct ?u" by (rule mset_eq_imp_distinct_iff)
  then show "distinct (map sn_id (prune_pool t vectors d metric node n offered))" by (simp add: prune_pool_def distinct_remdups_adj_sort)
  show "set (prune_pool t vectors d metric node n offered) = ?f ` {c \<in> set offered. unat c \<noteq> node \<and> unat c < n}"
    by (auto simp: prune_pool_def)
qed

lemma prune_into_eq:
  assumes len: "length vectors = n * d" "node < n" and a: "alpha_ok metric d alpha"
  shows "\<exists>unique pool. robust_prune_candidates_into t vectors d node candidates current n max_degree alpha metric
    = Inr (unique, pool, map sn_id (prune_spec (prune_keep t vectors d metric alpha) max_degree (prune_pool t vectors d metric node n (candidates @ current))))"
proof -
  define u where "u = remdups_adj (sort (filter (\<lambda>c. unat c \<noteq> node \<and> unat c < n) (candidates @ current)))"
  let ?pool = "prune_pool t vectors d metric node n (candidates @ current)"
  have "\<forall>c \<in> set u. unat c < n" by (auto simp: u_def)
  then have scored: "map_res (\<lambda>c. bind_res (distance_between t vectors d node (unat c) metric) (\<lambda>distance. Inr (ScoredNode c distance))) u
      = Inr (map (\<lambda>c. ScoredNode c (gap t vectors d metric node (unat c))) u)"
    by (intro map_res_Inr_map) (simp add: distance_between_eq[OF len])
  have sorted: "sort (map (\<lambda>c. ScoredNode c (gap t vectors d metric node (unat c))) u) = ?pool" by (simp add: prune_pool_def u_def)
  have ids: "\<forall>c \<in> set ?pool. unat (sn_id c) < n" using prune_pool_facts(3)[of t vectors d metric node n "candidates @ current"] by auto
  obtain pool' where "prune_loop (length ?pool + 1) t vectors d max_degree metric alpha 0 ?pool []
      = Inr (pool', map sn_id (prune_spec (prune_keep t vectors d metric alpha) max_degree ?pool))"
    using prune_loop_eq[OF len(1) a ids, of 0 "length ?pool + 1" t max_degree "[]"] by auto
  then show ?thesis unfolding robust_prune_candidates_into_def u_def[symmetric] Let_def scored bind_res_Inr sorted by simp
qed

text \<open>The selection as a function of what it depends on.\<close>

definition pruned :: "arch \<Rightarrow> f32 list \<Rightarrow> nat \<Rightarrow> MetricType \<Rightarrow> f32 \<Rightarrow> nat \<Rightarrow> nat \<Rightarrow> nat \<Rightarrow> u32 list \<Rightarrow> u32 list" where
  "pruned t vectors d metric alpha n max_degree node offered =
     map sn_id (prune_spec (prune_keep t vectors d metric alpha) max_degree (prune_pool t vectors d metric node n offered))"

lemma pruned_facts:
  "length (pruned t vectors d metric alpha n max_degree node offered) \<le> max_degree"
  "distinct (pruned t vectors d metric alpha n max_degree node offered)"
  "x \<in> set (pruned t vectors d metric alpha n max_degree node offered) \<Longrightarrow> x \<in> set offered \<and> unat x \<noteq> node \<and> unat x < n"
proof -
  let ?pool = "prune_pool t vectors d metric node n offered" and ?K = "prune_keep t vectors d metric alpha"
  show "length (pruned t vectors d metric alpha n max_degree node offered) \<le> max_degree" using prune_spec_length by (simp add: pruned_def)
  have "distinct ?pool" "inj_on sn_id (set ?pool)" using prune_pool_facts(2)[of t vectors d metric node n offered] by (simp_all add: distinct_map)
  then show "distinct (pruned t vectors d metric alpha n max_degree node offered)"
    using prune_spec_distinct[of ?pool ?K max_degree] inj_on_subset[OF _ prune_spec_set[of ?K max_degree ?pool]] by (simp add: pruned_def distinct_map)
  show "x \<in> set offered \<and> unat x \<noteq> node \<and> unat x < n" if mem: "x \<in> set (pruned t vectors d metric alpha n max_degree node offered)"
  proof -
    obtain c where c: "c \<in> set ?pool" "x = sn_id c" using mem prune_spec_set[of ?K max_degree ?pool] by (auto simp: pruned_def)
    then show ?thesis unfolding prune_pool_facts(3) by auto
  qed
qed

lemma pruned_mset: "set xs = set ys \<Longrightarrow> pruned t vectors d metric alpha n max_degree node xs = pruned t vectors d metric alpha n max_degree node ys"
proof -
  assume eq: "set xs = set ys"
  have "remdups_adj (sort (filter P xs)) = remdups_adj (sort (filter P ys))" for P
    by (rule sorted_distinct_set_unique) (simp_all add: eq distinct_remdups_adj_sort sorted_remdups_adj)
  then show ?thesis by (simp add: pruned_def prune_pool_def)
qed

section \<open>Property\<close>

text \<open>C15: robust pruning never panics and ends, with at most \<open>max_degree\<close> neighbours, all different, none of them the node
  itself or out of range, nearest first. It selects as the textbook rule does: no selected node is
  occluded by one selected before it, and a candidate is left out only when a nearer selected node
  occludes it or the selection is full. Compacting the pool in place, four distances at a time and
  early exits on long vectors change nothing.\<close>

theorem robust_prune_selects:
  assumes "length vectors = n * d" "node < n" "alpha_ok metric d alpha"
  shows "\<exists>chosen. robust_prune_candidates t vectors d node candidates current n max_degree alpha metric = Inr (map sn_id chosen)
    \<and> sorted chosen \<and> distinct (map sn_id chosen) \<and> length chosen \<le> max_degree
    \<and> (\<forall>c \<in> set chosen. sn_id c \<in> set (candidates @ current) \<and> unat (sn_id c) \<noteq> node \<and> unat (sn_id c) < n
          \<and> sn_distance c = gap t vectors d metric node (unat (sn_id c)))
    \<and> (\<forall>i j. i < j \<longrightarrow> j < length chosen \<longrightarrow> prune_keep t vectors d metric alpha (chosen ! i) (chosen ! j))
    \<and> (\<forall>x \<in> set (candidates @ current). unat x \<noteq> node \<longrightarrow> unat x < n \<longrightarrow> x \<in> sn_id ` set chosen \<or> length chosen = max_degree
          \<or> (\<exists>p \<in> set chosen. let c = ScoredNode x (gap t vectors d metric node (unat x)) in p \<le> c \<and> \<not> prune_keep t vectors d metric alpha p c))"
proof -
  let ?pool = "prune_pool t vectors d metric node n (candidates @ current)" and ?K = "prune_keep t vectors d metric alpha"
  define chosen where "chosen = prune_spec ?K max_degree ?pool"
  note P = prune_pool_facts[of t vectors d metric node n "candidates @ current"]
  have run: "robust_prune_candidates t vectors d node candidates current n max_degree alpha metric = Inr (map sn_id chosen)"
    using prune_into_eq[OF assms, of t candidates current max_degree] by (auto simp: robust_prune_candidates_def chosen_def)
  have dist: "distinct (map sn_id chosen)"
    using pruned_facts(2)[of t vectors d metric alpha n max_degree node "candidates @ current"] by (simp add: pruned_def chosen_def)
  have occ: "?K (chosen ! i) (chosen ! j)" if "i < j" "j < length chosen" for i j
  proof -
    have "chosen = take i chosen @ chosen ! i # drop (Suc i) chosen" using that by (simp add: id_take_nth_drop)
    moreover have "drop (Suc i) chosen = take (j - Suc i) (drop (Suc i) chosen) @ chosen ! j # drop (Suc j) chosen"
      using that id_take_nth_drop[of "j - Suc i" "drop (Suc i) chosen"] by (simp add: add.commute)
    ultimately have "prune_spec ?K max_degree ?pool = take i chosen @ chosen ! i # take (j - Suc i) (drop (Suc i) chosen) @ chosen ! j # drop (Suc j) chosen"
      unfolding chosen_def[symmetric] by simp
    from prune_spec_no_occlusion[OF this] show ?thesis .
  qed
  have cover: "x \<in> sn_id ` set chosen \<or> length chosen = max_degree \<or> (\<exists>p \<in> set chosen. p \<le> c \<and> \<not> ?K p c)"
    if "x \<in> set (candidates @ current)" "unat x \<noteq> node" "unat x < n" "c = ScoredNode x (gap t vectors d metric node (unat x))" for x c
  proof -
    have "c \<in> set ?pool" using that P(3) by auto
    from prune_spec_covers[OF this P(1), of ?K max_degree] show ?thesis using that(4) by (force simp: chosen_def)
  qed
  have each: "\<forall>c \<in> set chosen. sn_id c \<in> set (candidates @ current) \<and> unat (sn_id c) \<noteq> node \<and> unat (sn_id c) < n
      \<and> sn_distance c = gap t vectors d metric node (unat (sn_id c))"
  proof
    fix c assume "c \<in> set chosen"
    then have "c \<in> set ?pool" using prune_spec_set[of ?K max_degree ?pool] unfolding chosen_def by (rule rev_subsetD)
    then obtain x where "c = ScoredNode x (gap t vectors d metric node (unat x))" "x \<in> set (candidates @ current)" "unat x \<noteq> node" "unat x < n"
      unfolding P(3) by blast
    then show "sn_id c \<in> set (candidates @ current) \<and> unat (sn_id c) \<noteq> node \<and> unat (sn_id c) < n
        \<and> sn_distance c = gap t vectors d metric node (unat (sn_id c))" by simp
  qed
  show ?thesis using run dist occ cover each prune_spec_sorted[OF P(1), of ?K max_degree] prune_spec_length[of ?K max_degree ?pool]
    unfolding chosen_def[symmetric] Let_def by (intro exI[of _ chosen]) blast
qed

theorem robust_prune_selects_witness:
  "\<exists>chosen. robust_prune_candidates OtherArch [f32_zero, f32_one, f32_one] 1 0 [1, 2, 1] [] 3 2 f32_one L2 = Inr (map sn_id chosen)
     \<and> length chosen \<le> 2 \<and> distinct (map sn_id chosen)"
  using robust_prune_selects[of "[f32_zero, f32_one, f32_one]" 3 1 0 L2 f32_one OtherArch "[1, 2, 1]" "[]" 2] by (auto simp: alpha_ok_def)

end
