(* ===== verification/Sparse_Table.thy ===== *)
theory Sparse_Table
  imports Prelude
begin

text \<open>
  \<open>core/src/sparse_table.rs\<close>: the open-addressing table from \<open>u32\<close> keys used by the graph
  builder. Probing is linear from the mixed key; a list of the touched slots makes \<open>clear\<close> cost
  only what was inserted. Slots are stored truncated to 32 bits, as in the code. Allocation always
  succeeds in the model.
\<close>

definition EMPTY_KEY :: u32 where
  "EMPTY_KEY = 0xFFFFFFFF"

definition MIN_CAPACITY :: nat where
  "MIN_CAPACITY = 8"

text \<open>\<open>usize::checked_next_power_of_two\<close>.\<close>

function pow2_from :: "nat \<Rightarrow> nat \<Rightarrow> nat" where
  "pow2_from n p = (if 0 < p \<and> p < n then pow2_from n (2 * p) else p)"
  by pat_completeness auto
termination
  by (relation "measure (\<lambda>(n, p). n - p)") auto

declare pow2_from.simps [simp del]

definition checked_next_power_of_two :: "nat \<Rightarrow> nat option" where
  "checked_next_power_of_two n = (let c = pow2_from n 1 in if c < 2 ^ 64 then Some c else None)"

definition table_capacity :: "nat \<Rightarrow> nat option" where
  "table_capacity expected_entries =
     Option.bind (checked_mul expected_entries 2) (\<lambda>c. checked_next_power_of_two (max c MIN_CAPACITY))"

definition estimated_memory_bytes :: "nat \<Rightarrow> nat \<Rightarrow> nat option" where
  "estimated_memory_bytes expected_entries value_size =
     Option.bind (table_capacity expected_entries) (\<lambda>capacity.
     Option.bind (checked_add 4 value_size) (\<lambda>entry.
     Option.bind (checked_mul capacity entry) (\<lambda>table.
     Option.bind (checked_mul expected_entries 4) (\<lambda>touched. checked_add table touched))))"

record 'v SparseTable =
  st_keys :: "u32 list"
  st_values :: "'v list"
  st_touched_slots :: "u32 list"

definition mix_u32 :: "u32 \<Rightarrow> u32" where
  "mix_u32 value0 =
     (let value1 = value0 XOR drop_bit 16 value0;
          value2 = value1 * 0x7FEB352D;
          value3 = value2 XOR drop_bit 15 value2;
          value4 = value3 * 0x846CA68B
      in value4 XOR drop_bit 16 value4)"

definition table_of_capacity :: "nat \<Rightarrow> 'v \<Rightarrow> 'v SparseTable" where
  "table_of_capacity capacity dflt =
     \<lparr>st_keys = replicate capacity EMPTY_KEY, st_values = replicate capacity dflt, st_touched_slots = []\<rparr>"

definition try_with_capacity :: "'v \<Rightarrow> nat \<Rightarrow> 'v SparseTable option" where
  "try_with_capacity dflt expected_entries =
     map_option (\<lambda>capacity. table_of_capacity capacity dflt) (table_capacity expected_entries)"

definition with_capacity :: "'v \<Rightarrow> nat \<Rightarrow> 'v SparseTable res" where
  "with_capacity dflt expected_entries = ok_or Panic (try_with_capacity dflt expected_entries)"

fun probe :: "u32 list \<Rightarrow> u32 \<Rightarrow> nat \<Rightarrow> nat \<Rightarrow> nat option" where
  "probe keys key 0 slot = None"
| "probe keys key (Suc n) slot =
     (let stored = keys ! slot in
      if stored = EMPTY_KEY \<or> stored = key then Some slot
      else probe keys key n ((slot + 1) AND (length keys - 1)))"

definition find_slot :: "u32 list \<Rightarrow> u32 \<Rightarrow> nat option" where
  "find_slot keys key = probe keys key (length keys) (unat (mix_u32 key) AND (length keys - 1))"

definition table_get :: "u32 \<Rightarrow> 'v SparseTable \<Rightarrow> 'v option res" where
  "table_get key t =
     (if key = EMPTY_KEY then Inl Panic
      else case find_slot (st_keys t) key of
        None \<Rightarrow> Inr None
      | Some slot \<Rightarrow> Inr (if st_keys t ! slot = key then Some (st_values t ! slot) else None))"

text \<open>\<open>get_mut\<close> followed by a write of \<open>f\<close> through the reference it returns.\<close>

definition table_get_mut :: "u32 \<Rightarrow> ('v \<Rightarrow> 'v) \<Rightarrow> 'v SparseTable \<Rightarrow> ('v option \<times> 'v SparseTable) res" where
  "table_get_mut key f t =
     (if key = EMPTY_KEY then Inl Panic
      else case find_slot (st_keys t) key of
        None \<Rightarrow> Inr (None, t)
      | Some slot \<Rightarrow>
          if st_keys t ! slot = key
          then Inr (Some (st_values t ! slot), t\<lparr>st_values := (st_values t)[slot := f (st_values t ! slot)]\<rparr>)
          else Inr (None, t))"

text \<open>Writing a key into the slot it probes to.\<close>

definition place :: "u32 \<Rightarrow> 'v \<Rightarrow> 'v SparseTable \<Rightarrow> 'v SparseTable res" where
  "place key v t =
     bind_res (ok_or Panic (find_slot (st_keys t) key)) (\<lambda>slot.
       Inr \<lparr>st_keys = (st_keys t)[slot := key], st_values = (st_values t)[slot := v],
            st_touched_slots = st_touched_slots t @ [word_of_nat slot]\<rparr>)"

definition table_grow :: "'v \<Rightarrow> 'v SparseTable \<Rightarrow> 'v SparseTable res" where
  "table_grow dflt t =
     bind_res (ok_or Panic (checked_mul (length (st_keys t)) 2)) (\<lambda>capacity.
       fold_res (\<lambda>old_slot g.
           bind_res (idx (st_keys t) (unat old_slot)) (\<lambda>key.
           bind_res (idx (st_values t) (unat old_slot)) (\<lambda>v. place key v g)))
         (st_touched_slots t) (table_of_capacity capacity dflt))"

definition table_insert :: "'v \<Rightarrow> u32 \<Rightarrow> 'v \<Rightarrow> 'v SparseTable \<Rightarrow> ('v option \<times> 'v SparseTable) res" where
  "table_insert dflt key v t =
     (if key = EMPTY_KEY then Inl Panic
      else bind_res (ok_or Panic (find_slot (st_keys t) key)) (\<lambda>slot.
        if st_keys t ! slot = key
        then Inr (Some (st_values t ! slot), t\<lparr>st_values := (st_values t)[slot := v]\<rparr>)
        else bind_res
          (if length (st_keys t) * 7 div 10 < length (st_touched_slots t) + 1 then table_grow dflt t else Inr t)
          (\<lambda>t'. bind_res (place key v t') (\<lambda>t''. Inr (None, t'')))))"

definition table_clear :: "'v SparseTable \<Rightarrow> 'v SparseTable res" where
  "table_clear t =
     bind_res (fold_res (\<lambda>slot keys.
         if unat slot < length keys then Inr (keys[unat slot := EMPTY_KEY]) else Inl Panic)
       (st_touched_slots t) (st_keys t))
       (\<lambda>keys. Inr (t\<lparr>st_keys := keys, st_touched_slots := []\<rparr>))"

definition entry_capacity :: "'v SparseTable \<Rightarrow> nat" where
  "entry_capacity t = length (st_keys t) * 7 div 10"

section \<open>Probe paths\<close>

definition path :: "nat \<Rightarrow> u32 \<Rightarrow> nat \<Rightarrow> nat" where
  "path n key i = (unat (mix_u32 key) + i) mod n"

lemma mask_mod: "x AND (2 ^ p - 1 :: nat) = x mod 2 ^ p"
  using take_bit_eq_mask[of p x] by (simp add: take_bit_eq_mod mask_eq_exp_minus_1)

lemma path_less: "0 < n \<Longrightarrow> path n key i < n"
  by (simp add: path_def)

lemma path_Suc: "(path n key i + 1) mod n = path n key (Suc i)"
  by (simp add: path_def mod_simps)

lemma path_inj_le:
  assumes "path n key i = path n key j" "i \<le> j" "j < n"
  shows "i = j"
proof -
  have "n dvd unat (mix_u32 key) + j - (unat (mix_u32 key) + i)"
    using assms(1,2) by (intro mod_eq_dvd_iff_nat[THEN iffD1]) (simp_all add: path_def)
  then have "n dvd j - i" by simp
  then have "j - i = 0 \<or> n \<le> j - i" by (auto dest: dvd_imp_le)
  then show ?thesis using assms(2,3) by linarith
qed

lemma path_inj: "path n key i = path n key j \<Longrightarrow> i < n \<Longrightarrow> j < n \<Longrightarrow> i = j"
  using path_inj_le[of n key i j] path_inj_le[of n key j i] by (metis nat_le_linear)

lemma path_covers:
  assumes "s < n"
  shows "\<exists>i < n. path n key i = s"
proof -
  have "path n key ` {..<n} \<subseteq> {..<n}" using assms by (auto simp: path_less)
  moreover have "card (path n key ` {..<n}) = card {..<n}"
    by (intro card_image inj_onI) (auto intro: path_inj)
  ultimately have "path n key ` {..<n} = {..<n}" by (intro card_subset_eq) auto
  then have "s \<in> path n key ` {..<n}" using assms by simp
  then show ?thesis by auto
qed

text \<open>The loop stops at the first slot of the path that is empty or holds the key.\<close>

definition stops :: "u32 list \<Rightarrow> u32 \<Rightarrow> nat \<Rightarrow> bool" where
  "stops keys key s \<longleftrightarrow> keys ! s = EMPTY_KEY \<or> keys ! s = key"

lemma probe_path:
  assumes len: "length keys = 2 ^ p" and "n = length keys - i"
  shows "case probe keys key n (path (length keys) key i) of
      None \<Rightarrow> \<forall>j. i \<le> j \<and> j < length keys \<longrightarrow> \<not> stops keys key (path (length keys) key j)
    | Some s \<Rightarrow> \<exists>j \<ge> i. j < length keys \<and> s = path (length keys) key j \<and> stops keys key s
        \<and> (\<forall>l. i \<le> l \<and> l < j \<longrightarrow> \<not> stops keys key (path (length keys) key l))"
  using assms(2)
proof (induction n arbitrary: i)
  case (Suc n)
  let ?N = "length keys" let ?s = "path ?N key i"
  have i: "i < ?N" using Suc.prems by simp
  show ?case
  proof (cases "stops keys key ?s")
    case True
    then show ?thesis using i by (auto simp: stops_def Let_def)
  next
    case False
    have "(?s + 1) AND (?N - 1) = path ?N key (Suc i)" unfolding len mask_mod using path_Suc[of "2 ^ p" key i] by simp
    then have eq: "probe keys key (Suc n) ?s = probe keys key n (path ?N key (Suc i))"
      using False by (simp add: stops_def Let_def)
    have IH: "case probe keys key n (path ?N key (Suc i)) of
        None \<Rightarrow> \<forall>j. Suc i \<le> j \<and> j < ?N \<longrightarrow> \<not> stops keys key (path ?N key j)
      | Some s \<Rightarrow> \<exists>j \<ge> Suc i. j < ?N \<and> s = path ?N key j \<and> stops keys key s
          \<and> (\<forall>l. Suc i \<le> l \<and> l < j \<longrightarrow> \<not> stops keys key (path ?N key l))"
      by (rule Suc.IH) (use Suc.prems in linarith)
    have rest: "\<not> stops keys key (path ?N key l)" if "i \<le> l" "Suc i \<le> l \<Longrightarrow> \<not> stops keys key (path ?N key l)" for l
      using that False by (cases "l = i") auto
    show ?thesis
    proof (cases "probe keys key n (path ?N key (Suc i))")
      case None
      then show ?thesis unfolding eq using IH rest by (simp only: option.case) blast
    next
      case (Some s)
      then obtain j where "Suc i \<le> j" "j < ?N" "s = path ?N key j" "stops keys key s"
        "\<forall>l. Suc i \<le> l \<and> l < j \<longrightarrow> \<not> stops keys key (path ?N key l)" using IH by auto
      then show ?thesis unfolding eq Some option.case using rest by (intro exI[of _ j]) auto
    qed
  qed
qed auto

lemma find_slot_cases:
  assumes len: "length keys = 2 ^ p"
  shows "case find_slot keys key of
      None \<Rightarrow> \<forall>j < length keys. \<not> stops keys key (path (length keys) key j)
    | Some s \<Rightarrow> \<exists>j < length keys. s = path (length keys) key j \<and> stops keys key s
        \<and> (\<forall>l < j. \<not> stops keys key (path (length keys) key l))"
proof -
  have "unat (mix_u32 key) AND (length keys - 1) = path (length keys) key 0"
    unfolding len mask_mod by (simp add: path_def)
  then show ?thesis using probe_path[OF len, of "length keys" 0 key] by (simp add: find_slot_def split: option.splits)
qed

section \<open>The invariant\<close>

text \<open>Every stored key is reached along its path through occupied slots, keys are stored once, and
  the touched slots are exactly the occupied ones.\<close>

definition occupied :: "u32 list \<Rightarrow> nat set" where
  "occupied keys = {s. s < length keys \<and> keys ! s \<noteq> EMPTY_KEY}"

definition on_path :: "u32 list \<Rightarrow> nat \<Rightarrow> bool" where
  "on_path keys s \<longleftrightarrow> (\<exists>i < length keys. path (length keys) (keys ! s) i = s
     \<and> (\<forall>j < i. path (length keys) (keys ! s) j \<in> occupied keys))"

definition table_core :: "'v SparseTable \<Rightarrow> bool" where
  "table_core t \<longleftrightarrow>
     (\<exists>p. length (st_keys t) = 2 ^ p) \<and> length (st_keys t) \<le> 2 ^ 32
   \<and> length (st_values t) = length (st_keys t)
   \<and> inj_on (\<lambda>s. st_keys t ! s) (occupied (st_keys t))
   \<and> (\<forall>s \<in> occupied (st_keys t). on_path (st_keys t) s)
   \<and> distinct (st_touched_slots t) \<and> unat ` set (st_touched_slots t) = occupied (st_keys t)"

text \<open>The map a table stands for, as a relation between keys and values.\<close>

definition holds :: "'v SparseTable \<Rightarrow> u32 \<Rightarrow> 'v \<Rightarrow> bool" where
  "holds t key v \<longleftrightarrow> (\<exists>s \<in> occupied (st_keys t). st_keys t ! s = key \<and> st_values t ! s = v)"

definition stored :: "'v SparseTable \<Rightarrow> u32 \<Rightarrow> bool" where
  "stored t key \<longleftrightarrow> (\<exists>s \<in> occupied (st_keys t). st_keys t ! s = key)"

lemma table_coreD:
  assumes "table_core t"
  shows "\<exists>p. length (st_keys t) = 2 ^ p" "length (st_keys t) \<le> 2 ^ 32" "0 < length (st_keys t)"
    "length (st_values t) = length (st_keys t)" "inj_on (\<lambda>s. st_keys t ! s) (occupied (st_keys t))"
    "s \<in> occupied (st_keys t) \<Longrightarrow> on_path (st_keys t) s"
    "distinct (st_touched_slots t)" "unat ` set (st_touched_slots t) = occupied (st_keys t)"
  using assms by (auto simp: table_core_def)

lemma find_slot_stored:
  assumes core: "table_core t" and s: "s \<in> occupied (st_keys t)"
  shows "find_slot (st_keys t) (st_keys t ! s) = Some s"
proof -
  let ?keys = "st_keys t" let ?N = "length ?keys" let ?key = "?keys ! s"
  note D = table_coreD[OF core]
  obtain p where p: "?N = 2 ^ p" using D(1) by blast
  obtain i where i: "i < ?N" "path ?N ?key i = s" "\<forall>j < i. path ?N ?key j \<in> occupied ?keys"
    using D(6)[OF s] by (auto simp: on_path_def)
  have before: "\<not> stops ?keys ?key (path ?N ?key j)" if "j < i" for j
  proof
    assume st: "stops ?keys ?key (path ?N ?key j)"
    have o: "path ?N ?key j \<in> occupied ?keys" using i(3) that by blast
    then have "?keys ! path ?N ?key j = ?key" using st by (auto simp: stops_def occupied_def)
    then have "path ?N ?key j = s" using inj_onD[OF D(5) _ o s] by simp
    then have "j = i" using path_inj[of ?N ?key j i] i that by simp
    then show False using that by simp
  qed
  have at: "stops ?keys ?key (path ?N ?key i)" using i(2) by (simp add: stops_def)
  show ?thesis
  proof (cases "find_slot ?keys ?key")
    case None
    then show ?thesis using find_slot_cases[OF p, of ?key] at i(1) by auto
  next
    case (Some s')
    then obtain j where j: "j < ?N" "s' = path ?N ?key j" "stops ?keys ?key s'" "\<forall>l < j. \<not> stops ?keys ?key (path ?N ?key l)"
      using find_slot_cases[OF p, of ?key] by auto
    have "j = i" using before j at by (metis linorder_neqE_nat)
    then show ?thesis using Some j(2) i(2) by simp
  qed
qed

lemma find_slot_fresh:
  assumes core: "table_core t" and fresh: "\<not> stored t key" and e: "e < length (st_keys t)" "st_keys t ! e = EMPTY_KEY"
  shows "\<exists>s i. find_slot (st_keys t) key = Some s \<and> s < length (st_keys t) \<and> st_keys t ! s = EMPTY_KEY
    \<and> i < length (st_keys t) \<and> s = path (length (st_keys t)) key i
    \<and> (\<forall>j < i. path (length (st_keys t)) key j \<in> occupied (st_keys t))"
proof -
  let ?keys = "st_keys t" let ?N = "length ?keys"
  obtain p where p: "?N = 2 ^ p" using table_coreD(1)[OF core] by blast
  obtain k where k: "k < ?N" "path ?N key k = e" using path_covers[OF e(1)] by blast
  then have "stops ?keys key (path ?N key k)" using e(2) by (simp add: stops_def)
  then obtain s where s: "find_slot ?keys key = Some s" using find_slot_cases[OF p, of key] k(1) by (cases "find_slot ?keys key") auto
  then obtain i where i: "i < ?N" "s = path ?N key i" "stops ?keys key s" "\<forall>l < i. \<not> stops ?keys key (path ?N key l)"
    using find_slot_cases[OF p, of key] by auto
  have l: "path ?N key j < ?N" for j using p by (simp add: path_less)
  have "?keys ! s = EMPTY_KEY" using i(3) fresh l[of i] i(2) by (auto simp: stops_def stored_def occupied_def)
  moreover have "path ?N key j \<in> occupied ?keys" if "j < i" for j using i(4) that l[of j] by (auto simp: stops_def occupied_def)
  ultimately show ?thesis using s i l[of i] by blast
qed

lemma occupied_update:
  "s < length keys \<Longrightarrow> key \<noteq> EMPTY_KEY \<Longrightarrow> occupied (keys[s := key]) = insert s (occupied keys)"
  by (auto simp: occupied_def nth_list_update)

lemma place_core:
  assumes core: "table_core t" and key: "key \<noteq> EMPTY_KEY" and fresh: "\<not> stored t key"
    and e: "e < length (st_keys t)" "st_keys t ! e = EMPTY_KEY"
  shows "\<exists>t'. place key v t = Inr t' \<and> table_core t' \<and> length (st_keys t') = length (st_keys t)
    \<and> length (st_touched_slots t') = Suc (length (st_touched_slots t))
    \<and> (\<forall>k w. holds t' k w \<longleftrightarrow> (if k = key then w = v else holds t k w))"
proof -
  let ?keys = "st_keys t" let ?N = "length ?keys"
  note D = table_coreD[OF core]
  obtain s i where s: "find_slot ?keys key = Some s" "s < ?N" "?keys ! s = EMPTY_KEY"
    and i: "i < ?N" "s = path ?N key i" "\<forall>j < i. path ?N key j \<in> occupied ?keys"
    using find_slot_fresh[OF core fresh e] by blast
  define t' where "t' = \<lparr>st_keys = ?keys[s := key], st_values = (st_values t)[s := v],
    st_touched_slots = st_touched_slots t @ [word_of_nat s]\<rparr>"
  have free: "s \<notin> occupied ?keys" using s(3) by (simp add: occupied_def)
  have occ: "occupied (st_keys t') = insert s (occupied ?keys)" using s(2) key by (simp add: t'_def occupied_update)
  have nth: "st_keys t' ! s = key" "\<And>x. x \<in> occupied ?keys \<Longrightarrow> st_keys t' ! x = ?keys ! x"
    using s(2) free by (auto simp: t'_def nth_list_update)
  have len: "length (st_keys t') = ?N" by (simp add: t'_def)
  have slot: "unat (word_of_nat s :: u32) = s" using s(2) D(2) by (simp add: unat_of_nat)
  have "table_core t'" unfolding table_core_def
  proof (intro conjI)
    show "inj_on ((!) (st_keys t')) (occupied (st_keys t'))"
      unfolding occ inj_on_insert using D(5) free fresh nth by (auto simp: inj_on_def stored_def)
    show "\<forall>x \<in> occupied (st_keys t'). on_path (st_keys t') x"
    proof
      fix x assume "x \<in> occupied (st_keys t')"
      then consider "x = s" | "x \<in> occupied ?keys" using occ by blast
      then show "on_path (st_keys t') x"
      proof cases
        case 1
        then show ?thesis using i nth(1) by (auto simp: on_path_def len occ)
      next
        case 2
        then show ?thesis using D(6)[OF 2] nth(2)[OF 2] by (auto simp: on_path_def len occ)
      qed
    qed
    have "(word_of_nat s :: u32) \<notin> set (st_touched_slots t)" using D(8) free slot by (metis imageI)
    then show "distinct (st_touched_slots t')" using D(7) by (simp add: t'_def)
    show "unat ` set (st_touched_slots t') = occupied (st_keys t')" using D(8) slot occ by (simp add: t'_def)
  qed (use D(1,2,4) len in \<open>simp_all add: t'_def\<close>)
  moreover have val: "st_values t' ! s = v" "\<And>x. x \<in> occupied ?keys \<Longrightarrow> st_values t' ! x = st_values t ! x"
    using s(2) free D(4) by (auto simp: t'_def nth_list_update)
  have "holds t' k w \<longleftrightarrow> (if k = key then w = v else holds t k w)" for k w
    using nth val fresh unfolding holds_def occ stored_def by auto
  ultimately show ?thesis using s(1) by (intro exI[of _ t']) (simp add: place_def t'_def)
qed

lemma card_occupied: "table_core t \<Longrightarrow> card (occupied (st_keys t)) = length (st_touched_slots t)"
  using table_coreD(7,8)[of t] by (metis card_image distinct_card inj_on_def word_unat_eq_iff)

lemma empty_slot:
  assumes "table_core t" "length (st_touched_slots t) < length (st_keys t)"
  shows "\<exists>e < length (st_keys t). st_keys t ! e = EMPTY_KEY"
proof (rule ccontr)
  assume "\<not> ?thesis"
  then have "occupied (st_keys t) = {..<length (st_keys t)}" by (auto simp: occupied_def)
  then show False using card_occupied[OF assms(1)] assms(2) by simp
qed

lemma table_of_capacity_core:
  "n = 2 ^ p \<Longrightarrow> n \<le> 2 ^ 32 \<Longrightarrow> table_core (table_of_capacity n dflt)
     \<and> occupied (st_keys (table_of_capacity n dflt)) = {} \<and> length (st_keys (table_of_capacity n dflt)) = n
     \<and> st_touched_slots (table_of_capacity n dflt) = []"
  by (auto simp: table_core_def table_of_capacity_def occupied_def inj_on_def)

lemma stored_holds: "stored t k \<longleftrightarrow> (\<exists>w. holds t k w)"
  by (auto simp: stored_def holds_def)

lemma table_grow_core:
  assumes core: "table_core t" and room: "2 * length (st_keys t) \<le> 2 ^ 32"
    and load: "length (st_touched_slots t) \<le> length (st_keys t)"
  shows "\<exists>g. table_grow dflt t = Inr g \<and> table_core g \<and> length (st_keys g) = 2 * length (st_keys t)
    \<and> length (st_touched_slots g) = length (st_touched_slots t) \<and> (\<forall>k w. holds g k w \<longleftrightarrow> holds t k w)"
proof -
  let ?N = "length (st_keys t)" let ?T = "st_touched_slots t"
  let ?step = "\<lambda>old_slot g. bind_res (idx (st_keys t) (unat old_slot)) (\<lambda>key.
      bind_res (idx (st_values t) (unat old_slot)) (\<lambda>v. place key v g))"
  note D = table_coreD[OF core]
  obtain p where p: "?N = 2 ^ p" using D(1) by blast
  have occ: "unat s \<in> occupied (st_keys t)" if "s \<in> set ?T" for s using D(8) that by blast
  have "\<exists>g. fold_res ?step (take n ?T) (table_of_capacity (2 * ?N) dflt) = Inr g \<and> table_core g
      \<and> length (st_keys g) = 2 * ?N \<and> length (st_touched_slots g) = n
      \<and> (\<forall>k w. holds g k w \<longleftrightarrow> (\<exists>s \<in> set (take n ?T). st_keys t ! unat s = k \<and> st_values t ! unat s = w))"
    if "n \<le> length ?T" for n
    using that
  proof (induction n)
    case 0
    have "2 * ?N = 2 ^ Suc p" using p by simp
    from table_of_capacity_core[OF this room, of dflt] show ?case by (auto simp: holds_def)
  next
    case (Suc n)
    let ?s = "?T ! n" let ?k = "st_keys t ! unat ?s" let ?v = "st_values t ! unat ?s"
    obtain g where g: "fold_res ?step (take n ?T) (table_of_capacity (2 * ?N) dflt) = Inr g" "table_core g"
      "length (st_keys g) = 2 * ?N" "length (st_touched_slots g) = n"
      "\<And>k w. holds g k w \<longleftrightarrow> (\<exists>s \<in> set (take n ?T). st_keys t ! unat s = k \<and> st_values t ! unat s = w)"
      using Suc by auto
    have s: "?s \<in> set ?T" "unat ?s < ?N" "?k \<noteq> EMPTY_KEY" "unat ?s < length (st_values t)"
      using Suc.prems occ[of ?s] D(4) by (auto simp: occupied_def)
    have fresh: "\<not> stored g ?k"
    proof
      assume "stored g ?k"
      then obtain s' where s': "s' \<in> set (take n ?T)" "st_keys t ! unat s' = ?k" using g(5) by (auto simp: stored_holds)
      then have "unat s' = unat ?s" using inj_onD[OF D(5)] occ[of s'] occ[OF s(1)] in_set_takeD by metis
      then have "?s \<in> set (take n ?T)" using s'(1) by (metis word_unat_eq_iff)
      then show False using D(7) Suc.prems by (metis Suc_le_lessD distinct_take id_take_nth_drop not_distinct_conv_prefix take_Suc_conv_app_nth)
    qed
    obtain e where e: "e < length (st_keys g)" "st_keys g ! e = EMPTY_KEY"
      using empty_slot[OF g(2)] g(3,4) load Suc.prems D(3) by auto
    obtain g' where "place ?k ?v g = Inr g'" "table_core g'" "length (st_keys g') = length (st_keys g)"
      "length (st_touched_slots g') = Suc (length (st_touched_slots g))"
      "\<forall>k w. holds g' k w \<longleftrightarrow> (if k = ?k then w = ?v else holds g k w)"
      using place_core[OF g(2) s(3) fresh e] by blast
    moreover have "fold_res ?step (take (Suc n) ?T) (table_of_capacity (2 * ?N) dflt) = place ?k ?v g"
      using Suc.prems g(1) s by (simp add: take_Suc_conv_app_nth fold_res_append idx_def bind_fold_Nil)
    ultimately show ?case using g fresh Suc.prems
      by (auto simp: take_Suc_conv_app_nth stored_holds)
  qed
  from this[OF order_refl] obtain g where g: "fold_res ?step ?T (table_of_capacity (2 * ?N) dflt) = Inr g" "table_core g"
    "length (st_keys g) = 2 * ?N" "length (st_touched_slots g) = length ?T"
    "\<forall>k w. holds g k w \<longleftrightarrow> (\<exists>s \<in> set ?T. st_keys t ! unat s = k \<and> st_values t ! unat s = w)" by auto
  have "holds g k w \<longleftrightarrow> holds t k w" for k w using g(5) D(8)[symmetric] by (auto simp: holds_def)
  moreover have cap: "checked_mul ?N 2 = Some (2 * ?N)" using room by (simp add: checked_mul_def mult.commute)
  have "table_grow dflt t = Inr g" unfolding table_grow_def cap using g(1) by simp
  ultimately show ?thesis using g(2-4) by (intro exI[of _ g]) blast
qed

section \<open>The table as a map\<close>

definition table_inv :: "'v SparseTable \<Rightarrow> bool" where
  "table_inv t \<longleftrightarrow> table_core t \<and> 8 \<le> length (st_keys t)
     \<and> length (st_touched_slots t) \<le> length (st_keys t) * 7 div 10"

lemma holds_unique: "table_core t \<Longrightarrow> holds t k v \<Longrightarrow> holds t k w \<Longrightarrow> v = w"
  unfolding holds_def by (metis inj_onD table_coreD(5))

lemma table_get_holds:
  assumes "table_core t" "key \<noteq> EMPTY_KEY"
  shows "table_get key t = Inr (Some v) \<longleftrightarrow> holds t key v"
proof
  assume "holds t key v"
  then show "table_get key t = Inr (Some v)"
    using find_slot_stored[OF assms(1)] assms(2) unfolding table_get_def holds_def by auto
next
  assume g: "table_get key t = Inr (Some v)"
  then obtain s where s: "find_slot (st_keys t) key = Some s" "st_keys t ! s = key" "st_values t ! s = v"
    using assms(2) by (auto simp: table_get_def split: option.splits if_splits)
  obtain p where "length (st_keys t) = 2 ^ p" using table_coreD(1)[OF assms(1)] by blast
  from find_slot_cases[OF this, of key] have "s < length (st_keys t)" using s(1) by auto (metis gr_zeroI less_nat_zero_code path_less)
  then show "holds t key v" using s assms(2) by (auto simp: holds_def occupied_def)
qed

lemma table_get_total: "key \<noteq> EMPTY_KEY \<Longrightarrow> \<exists>r. table_get key t = Inr r"
  by (auto simp: table_get_def split: option.splits)

lemma table_get_eqI:
  assumes "table_core t" "table_core t'" "key \<noteq> EMPTY_KEY" "\<And>v. holds t key v \<longleftrightarrow> holds t' key v"
  shows "table_get key t = table_get key t'"
proof -
  obtain r r' where r: "table_get key t = Inr r" "table_get key t' = Inr r'" using table_get_total[OF assms(3)] by blast
  have "r = Some v \<longleftrightarrow> r' = Some v" for v
    using table_get_holds[OF assms(1,3), of v] table_get_holds[OF assms(2,3), of v] assms(4) r by auto
  then have "r = r'" by (cases r) (metis option.exhaust)+
  then show ?thesis using r by simp
qed

lemma table_set_value:
  fixes v :: 'v
  assumes core: "table_core t" and s: "s \<in> occupied (st_keys t)"
  defines "t' \<equiv> t\<lparr>st_values := (st_values t)[s := v]\<rparr>"
  shows "table_core t'" "holds t' k w \<longleftrightarrow> (if k = st_keys t ! s then w = v else holds t k w)"
proof -
  note D = table_coreD[OF core]
  show "table_core t'" using core by (simp add: table_core_def t'_def)
  have val: "st_values t' ! x = (if x = s then v else st_values t ! x)" if "x \<in> occupied (st_keys t)" for x
    using s that D(4) by (auto simp: t'_def occupied_def)
  have keys: "st_keys t' = st_keys t" by (simp add: t'_def)
  show "holds t' k w \<longleftrightarrow> (if k = st_keys t ! s then w = v else holds t k w)"
    using val s D(5) unfolding holds_def keys inj_on_def by auto metis
qed

lemma load_room: "8 \<le> n \<Longrightarrow> n * 7 div 10 + 1 \<le> 2 * n * 7 div (10::nat)"
  using div_le_mono[of "n * 7 + 10" "2 * n * 7" 10] by simp

lemma load_bound: "n * 7 div 10 \<le> m \<Longrightarrow> m < 2 ^ 30 \<Longrightarrow> 2 * n \<le> (2::nat) ^ 32"
  by simp

lemma insert_makes_room:
  assumes inv: "table_inv t" and small: "length (st_touched_slots t) < 2 ^ 30"
  shows "\<exists>g. (if length (st_keys t) * 7 div 10 < length (st_touched_slots t) + 1 then table_grow dflt t else Inr t) = Inr g
    \<and> table_core g \<and> 8 \<le> length (st_keys g) \<and> length (st_touched_slots g) = length (st_touched_slots t)
    \<and> length (st_touched_slots t) + 1 \<le> length (st_keys g) * 7 div 10 \<and> (\<forall>k w. holds g k w \<longleftrightarrow> holds t k w)"
proof (cases "length (st_keys t) * 7 div 10 < length (st_touched_slots t) + 1")
  case True
  have I: "table_core t" "8 \<le> length (st_keys t)" "length (st_touched_slots t) \<le> length (st_keys t) * 7 div 10"
    using inv by (auto simp: table_inv_def)
  have "2 * length (st_keys t) \<le> 2 ^ 32" using load_bound[OF _ small] True by simp
  moreover have "length (st_touched_slots t) \<le> length (st_keys t)" using I(3) by simp
  ultimately obtain g where "table_grow dflt t = Inr g" "table_core g" "length (st_keys g) = 2 * length (st_keys t)"
    "length (st_touched_slots g) = length (st_touched_slots t)" "\<forall>k w. holds g k w \<longleftrightarrow> holds t k w"
    using table_grow_core[OF I(1)] by blast
  then show ?thesis using True I(2,3) load_room[OF I(2)] by (intro exI[of _ g]) auto
qed (use inv in \<open>auto simp: table_inv_def\<close>)

theorem table_insert_spec:
  assumes inv: "table_inv t" and key: "key \<noteq> EMPTY_KEY" and small: "length (st_touched_slots t) < 2 ^ 30"
  shows "\<exists>old t'. table_insert dflt key v t = Inr (old, t') \<and> table_get key t = Inr old \<and> table_inv t'
    \<and> length (st_touched_slots t') = length (st_touched_slots t) + (if old = None then 1 else 0)
    \<and> (\<forall>k w. holds t' k w \<longleftrightarrow> (if k = key then w = v else holds t k w))"
proof (cases "stored t key")
  case True
  have core: "table_core t" using inv by (simp add: table_inv_def)
  obtain s where s: "s \<in> occupied (st_keys t)" "st_keys t ! s = key" using True by (auto simp: stored_def)
  have f: "find_slot (st_keys t) key = Some s" using find_slot_stored[OF core s(1)] s(2) by simp
  show ?thesis using table_set_value[OF core s(1), of v] inv f s key
    by (intro exI[of _ "Some (st_values t ! s)"] exI[of _ "t\<lparr>st_values := (st_values t)[s := v]\<rparr>"])
      (simp add: table_insert_def table_get_def table_inv_def)
next
  case False
  have core: "table_core t" and N: "8 \<le> length (st_keys t)"
    and len: "length (st_touched_slots t) < length (st_keys t)" using inv by (auto simp: table_inv_def)
  obtain s where s: "find_slot (st_keys t) key = Some s" "st_keys t ! s = EMPTY_KEY"
    using empty_slot[OF core len] find_slot_fresh[OF core False] by blast
  obtain g where g: "(if length (st_keys t) * 7 div 10 < length (st_touched_slots t) + 1 then table_grow dflt t else Inr t) = Inr g"
    "table_core g" "8 \<le> length (st_keys g)" "length (st_touched_slots g) = length (st_touched_slots t)"
    "length (st_touched_slots t) + 1 \<le> length (st_keys g) * 7 div 10" "\<forall>k w. holds g k w \<longleftrightarrow> holds t k w"
    using insert_makes_room[OF inv small] by blast
  have "length (st_touched_slots g) < length (st_keys g)" using g(3-5) by simp
  from empty_slot[OF g(2) this] obtain e where e: "e < length (st_keys g)" "st_keys g ! e = EMPTY_KEY" by blast
  have fresh: "\<not> stored g key" using False g(6) by (simp add: stored_holds)
  obtain t' where t': "place key v g = Inr t'" "table_core t'" "length (st_keys t') = length (st_keys g)"
    "length (st_touched_slots t') = Suc (length (st_touched_slots g))"
    "\<forall>k w. holds t' k w \<longleftrightarrow> (if k = key then w = v else holds g k w)"
    using place_core[OF g(2) key fresh e] by blast
  have "table_insert dflt key v t = Inr (None, t')"
    unfolding table_insert_def using key s g(1) t'(1) by simp
  moreover have "table_get key t = Inr None" using s key by (simp add: table_get_def)
  moreover have "table_inv t'" using t' g(3-5) by (simp add: table_inv_def)
  ultimately show ?thesis using t'(4,5) g(4,6) by (intro exI[of _ None] exI[of _ t']) simp
qed

lemma table_get_insert:
  assumes "table_inv t" "key \<noteq> EMPTY_KEY" "length (st_touched_slots t) < 2 ^ 30"
  shows "\<exists>old t'. table_insert dflt key v t = Inr (old, t') \<and> table_get key t = Inr old \<and> table_inv t'
    \<and> length (st_touched_slots t') \<le> Suc (length (st_touched_slots t))
    \<and> (\<forall>k. k \<noteq> EMPTY_KEY \<longrightarrow> table_get k t' = (if k = key then Inr (Some v) else table_get k t))"
proof -
  obtain old t' where t': "table_insert dflt key v t = Inr (old, t')" "table_get key t = Inr old" "table_inv t'"
    "length (st_touched_slots t') = length (st_touched_slots t) + (if old = None then 1 else 0)"
    "\<And>k w. holds t' k w \<longleftrightarrow> (if k = key then w = v else holds t k w)"
    using table_insert_spec[OF assms] by blast
  have core: "table_core t" "table_core t'" using assms(1) t'(3) by (auto simp: table_inv_def)
  have "table_get k t' = (if k = key then Inr (Some v) else table_get k t)" if "k \<noteq> EMPTY_KEY" for k
    using table_get_holds[OF core(2) that, of v] table_get_eqI[OF core(2,1) that] t'(5) by (cases "k = key") simp_all
  then show ?thesis using t'(1-4) by (intro exI[of _ old] exI[of _ t']) auto
qed

lemma clear_keys:
  assumes "\<forall>s \<in> set slots. unat s < length keys"
  shows "\<exists>keys'. fold_res (\<lambda>slot ks. if unat slot < length ks then Inr (ks[unat slot := EMPTY_KEY]) else Inl Panic) slots keys
      = Inr keys' \<and> length keys' = length keys
      \<and> (\<forall>i < length keys. keys' ! i = (if i \<in> unat ` set slots then EMPTY_KEY else keys ! i))"
  using assms
proof (induction slots arbitrary: keys)
  case (Cons s slots)
  from Cons.IH[of "keys[unat s := EMPTY_KEY]"] Cons.prems show ?case
    by (auto simp: nth_list_update)
qed simp

lemma table_clear_spec:
  assumes "table_inv t"
  shows "\<exists>t'. table_clear t = Inr t' \<and> table_inv t' \<and> st_touched_slots t' = []
    \<and> length (st_keys t') = length (st_keys t) \<and> occupied (st_keys t') = {}"
proof -
  have core: "table_core t" and N: "8 \<le> length (st_keys t)" using assms by (auto simp: table_inv_def)
  note D = table_coreD[OF core]
  have "\<forall>s \<in> set (st_touched_slots t). unat s < length (st_keys t)" using D(8) by (auto simp: occupied_def)
  from clear_keys[OF this] obtain keys' where keys':
    "fold_res (\<lambda>slot ks. if unat slot < length ks then Inr (ks[unat slot := EMPTY_KEY]) else Inl Panic)
       (st_touched_slots t) (st_keys t) = Inr keys'" "length keys' = length (st_keys t)"
    "\<forall>i < length (st_keys t). keys' ! i = (if i \<in> occupied (st_keys t) then EMPTY_KEY else st_keys t ! i)"
    using D(8) by auto
  let ?t = "t\<lparr>st_keys := keys', st_touched_slots := []\<rparr>"
  have "occupied keys' = {}" using keys'(2,3) by (auto simp: occupied_def)
  moreover from this have "table_inv ?t" using core N keys'(2) by (auto simp: table_inv_def table_core_def)
  moreover have "table_clear t = Inr ?t" using keys'(1) by (simp add: table_clear_def)
  ultimately show ?thesis using keys'(2) by (intro exI[of _ ?t]) simp
qed

lemma table_get_unoccupied:
  "table_core t \<Longrightarrow> occupied (st_keys t) = {} \<Longrightarrow> k \<noteq> EMPTY_KEY \<Longrightarrow> table_get k t = Inr None"
  using table_get_holds[of t k] table_get_total[of k t] by (auto simp: holds_def) (metis not_Some_eq)

lemma table_get_mut_spec:
  assumes "table_inv t" "key \<noteq> EMPTY_KEY"
  shows "\<exists>old t'. table_get_mut key f t = Inr (old, t') \<and> table_get key t = Inr old \<and> table_inv t'
    \<and> length (st_touched_slots t') = length (st_touched_slots t)
    \<and> (\<forall>k. k \<noteq> EMPTY_KEY \<longrightarrow> table_get k t' = (if k = key then Inr (map_option f old) else table_get k t))"
proof (cases "stored t key")
  case True
  have core: "table_core t" using assms(1) by (simp add: table_inv_def)
  obtain s where s: "s \<in> occupied (st_keys t)" "st_keys t ! s = key" using True by (auto simp: stored_def)
  have slot: "find_slot (st_keys t) key = Some s" using find_slot_stored[OF core s(1)] s(2) by simp
  let ?v = "f (st_values t ! s)" let ?t = "t\<lparr>st_values := (st_values t)[s := ?v]\<rparr>"
  note new = table_set_value[OF core s(1), of ?v]
  have "table_get k ?t = (if k = key then Inr (Some ?v) else table_get k t)" if "k \<noteq> EMPTY_KEY" for k
    using table_get_holds[OF new(1) that, of ?v] table_get_eqI[OF new(1) core that] new(2) s(2) by (cases "k = key") simp_all
  moreover have "table_get key t = Inr (Some (st_values t ! s))" using slot s(2) assms(2) by (simp add: table_get_def)
  moreover have "table_get_mut key f t = Inr (Some (st_values t ! s), ?t)"
    using slot s(2) assms(2) by (simp add: table_get_mut_def)
  moreover have "table_inv ?t" using assms(1) new(1) by (simp add: table_inv_def)
  ultimately show ?thesis by (intro exI[of _ "Some (st_values t ! s)"] exI[of _ ?t]) simp
next
  case False
  have "table_core t" using assms(1) by (simp add: table_inv_def)
  with False have "table_get key t = Inr None"
    using table_get_holds[OF _ assms(2)] table_get_total[OF assms(2), of t] unfolding stored_holds by (metis not_Some_eq)
  moreover from this have "table_get_mut key f t = Inr (None, t)"
    by (auto simp: table_get_mut_def table_get_def split: option.splits if_splits)
  ultimately show ?thesis using assms(1) by (intro exI[of _ None] exI[of _ t]) auto
qed

section \<open>Capacity\<close>

lemma pow2_from_pow: "\<exists>e. pow2_from n (2 ^ i) = 2 ^ (i + e)"
proof (induction n "2 ^ i :: nat" arbitrary: i rule: pow2_from.induct)
  case (1 n)
  show ?case
  proof (cases "2 ^ i < n")
    case True
    from 1[OF _ _, of "Suc i"] True obtain e where "pow2_from n (2 ^ Suc i) = 2 ^ (Suc i + e)" by auto
    then show ?thesis using True by (subst pow2_from.simps) (auto intro: exI[of _ "Suc e"])
  qed (auto simp: pow2_from.simps[of n] intro: exI[of _ 0])
qed

lemma pow2_from_bounds: "0 < p \<Longrightarrow> n \<le> pow2_from n p \<and> (p < n \<longrightarrow> pow2_from n p < 2 * n)"
proof (induction n p rule: pow2_from.induct)
  case (1 n p)
  then show ?case
    by (cases "p < n"; cases "2 * p < n") (simp_all add: pow2_from.simps[of n p] pow2_from.simps[of n "2 * p"])
qed

lemma table_capacity_spec:
  assumes "table_capacity n = Some c"
  shows "\<exists>p. c = 2 ^ p" "8 \<le> c" "2 * n \<le> c" "c < max 9 (4 * n)"
proof -
  have c: "c = pow2_from (max (2 * n) 8) 1"
    using assms by (auto simp: table_capacity_def checked_next_power_of_two_def checked_mul_def MIN_CAPACITY_def Let_def
        mult.commute split: if_splits)
  show "\<exists>p. c = 2 ^ p" using pow2_from_pow[of "max (2 * n) 8" 0] c by auto
  have "max (2 * n) 8 \<le> c" using pow2_from_bounds[of 1 "max (2 * n) 8"] c by simp
  then show "8 \<le> c" "2 * n \<le> c" by auto
  show "c < max 9 (4 * n)"
  proof (cases "n \<le> 4")
    case True
    then have "max (2 * n) 8 = 8" by simp
    then have "c = 8" using c by (simp add: pow2_from.simps)
    then show ?thesis by simp
  next
    case False
    then show ?thesis using pow2_from_bounds[of 1 "max (2 * n) 8"] c by simp
  qed
qed

lemma table_capacity_defined: "n < 2 ^ 62 \<Longrightarrow> \<exists>c. table_capacity n = Some c"
  using pow2_from_bounds[of 1 "max (n * 2) 8"]
  by (auto simp: table_capacity_def checked_next_power_of_two_def checked_mul_def MIN_CAPACITY_def Let_def)

lemma with_capacity_inv:
  assumes "n < 2 ^ 30"
  shows "\<exists>t. with_capacity dflt n = Inr t \<and> table_inv t \<and> st_touched_slots t = []
    \<and> occupied (st_keys t) = {} \<and> n \<le> entry_capacity t"
proof -
  obtain c where c: "table_capacity n = Some c" using table_capacity_defined[of n] assms by auto
  note C = table_capacity_spec[OF c]
  obtain p where p: "c = 2 ^ p" using C(1) by blast
  have "c \<le> 2 ^ 32" using C(4) assms by simp
  from table_of_capacity_core[OF p this, of dflt] show ?thesis using C(2,3) c
    by (intro exI[of _ "table_of_capacity c dflt"])
      (auto simp: with_capacity_def try_with_capacity_def table_inv_def entry_capacity_def)
qed

section \<open>The interface its clients use\<close>

text \<open>
  What the graph builder relies on: below \<open>limit\<close> entries an insertion never panics, returns what
  the key held before and changes that key only.
\<close>

locale u32_table =
  fixes inv :: "'t \<Rightarrow> bool" and entries :: "'t \<Rightarrow> nat" and reserved :: u32 and limit :: nat
    and get :: "u32 \<Rightarrow> 't \<Rightarrow> 'v option res"
    and ins :: "u32 \<Rightarrow> 'v \<Rightarrow> 't \<Rightarrow> ('v option \<times> 't) res"
    and wipe :: "'t \<Rightarrow> 't res"
  assumes get_ins: "inv t \<Longrightarrow> k \<noteq> reserved \<Longrightarrow> entries t < limit \<Longrightarrow>
      \<exists>old t'. ins k v t = Inr (old, t') \<and> get k t = Inr old \<and> inv t' \<and> entries t' \<le> Suc (entries t)
        \<and> (\<forall>k'. k' \<noteq> reserved \<longrightarrow> get k' t' = (if k' = k then Inr (Some v) else get k' t))"
    and get_wipe: "inv t \<Longrightarrow> \<exists>t'. wipe t = Inr t' \<and> inv t' \<and> entries t' = 0
        \<and> (\<forall>k. k \<noteq> reserved \<longrightarrow> get k t' = Inr None)"
begin

lemma ins_all:
  assumes "inv t" "\<forall>(k, v) \<in> set kvs. k \<noteq> reserved" "entries t + length kvs \<le> limit"
  shows "\<exists>t'. fold_res (\<lambda>(k, v) t. bind_res (ins k v t) (\<lambda>r. Inr (snd r))) kvs t = Inr t' \<and> inv t'
    \<and> entries t' \<le> entries t + length kvs
    \<and> (\<forall>k. k \<noteq> reserved \<longrightarrow>
         get k t' = (case map_of (rev kvs) k of None \<Rightarrow> get k t | Some v \<Rightarrow> Inr (Some v)))"
  using assms
proof (induction kvs arbitrary: t)
  case (Cons kv kvs)
  obtain k v where kv: "kv = (k, v)" by force
  have k: "k \<noteq> reserved" "entries t < limit" using Cons.prems kv by auto
  obtain old t1 where t1: "ins k v t = Inr (old, t1)" "inv t1" "entries t1 \<le> Suc (entries t)"
    "\<And>k'. k' \<noteq> reserved \<Longrightarrow> get k' t1 = (if k' = k then Inr (Some v) else get k' t)"
    using get_ins[OF Cons.prems(1) k, of v] by blast
  have pre: "\<forall>(k, v) \<in> set kvs. k \<noteq> reserved" "entries t1 + length kvs \<le> limit" using Cons.prems t1(3) by auto
  obtain t2 where t2: "fold_res (\<lambda>(k, v) t. bind_res (ins k v t) (\<lambda>r. Inr (snd r))) kvs t1 = Inr t2" "inv t2"
    "entries t2 \<le> entries t1 + length kvs"
    "\<And>k. k \<noteq> reserved \<Longrightarrow> get k t2 = (case map_of (rev kvs) k of None \<Rightarrow> get k t1 | Some v \<Rightarrow> Inr (Some v))"
    using Cons.IH[OF t1(2) pre] by blast
  have "get k' t2 = (case map_of (rev (kv # kvs)) k' of None \<Rightarrow> get k' t | Some v \<Rightarrow> Inr (Some v))"
    if "k' \<noteq> reserved" for k'
    using t2(4)[OF that] t1(4)[OF that] kv by (auto simp: map_add_def split: option.splits)
  then show ?case using t1 t2(1-3) kv by (intro exI[of _ t2]) auto
qed auto

end

interpretation sparse_table: u32_table table_inv "\<lambda>t. length (st_touched_slots t)" EMPTY_KEY "2 ^ 30"
  table_get "table_insert dflt" table_clear for dflt
proof unfold_locales
  fix t :: "'a SparseTable"
  assume inv: "table_inv t"
  obtain t' where t': "table_clear t = Inr t'" "table_inv t'" "st_touched_slots t' = []" "occupied (st_keys t') = {}"
    using table_clear_spec[OF inv] by blast
  then show "\<exists>t'. table_clear t = Inr t' \<and> table_inv t' \<and> length (st_touched_slots t') = 0
      \<and> (\<forall>k. k \<noteq> EMPTY_KEY \<longrightarrow> table_get k t' = Inr None)"
    using table_get_unoccupied[of t'] by (auto simp: table_inv_def)
qed (rule table_get_insert)

section \<open>Properties\<close>

text \<open>C40: A sparse table created for n entries takes any sequence of fewer than 2^30 insertions of
  unreserved keys without panicking, growing as needed; afterwards a lookup returns the last value
  inserted under its key, and none for a key that was not inserted.\<close>

theorem sparse_table_is_a_map:
  assumes "n < 2 ^ 30" "length kvs \<le> 2 ^ 30" "\<forall>(k, v) \<in> set kvs. k \<noteq> EMPTY_KEY" "k \<noteq> EMPTY_KEY"
  shows "\<exists>t. bind_res (with_capacity dflt n) (fold_res (\<lambda>(k, v) t. bind_res (table_insert dflt k v t) (\<lambda>r. Inr (snd r))) kvs) = Inr t
    \<and> table_inv t \<and> table_get k t = Inr (map_of (rev kvs) k)"
proof -
  obtain t0 where t0: "with_capacity dflt n = Inr t0" "table_inv t0" "st_touched_slots t0 = []" "occupied (st_keys t0) = {}"
    using with_capacity_inv[OF assms(1), of dflt] by blast
  have none: "table_get k t0 = Inr None" using table_get_unoccupied[OF _ t0(4) assms(4)] t0(2) by (simp add: table_inv_def)
  have room: "length (st_touched_slots t0) + length kvs \<le> 2 ^ 30" using t0(3) assms(2) by simp
  obtain t where t: "fold_res (\<lambda>(k, v) t. bind_res (table_insert dflt k v t) (\<lambda>r. Inr (snd r))) kvs t0 = Inr t"
    "table_inv t" "table_get k t = (case map_of (rev kvs) k of None \<Rightarrow> table_get k t0 | Some v \<Rightarrow> Inr (Some v))"
    using sparse_table.ins_all[OF t0(2) assms(3) room, of dflt] assms(4) by blast
  have "table_get k t = Inr (map_of (rev kvs) k)" unfolding t(3) none by (cases "map_of (rev kvs) k") simp_all
  then show ?thesis unfolding t0(1) bind_res_Inr using t(1,2) by blast
qed

theorem sparse_table_is_a_map_witness:
  "\<exists>t. bind_res (with_capacity (0::nat) 4) (fold_res (\<lambda>(k, v) t. bind_res (table_insert 0 k v t) (\<lambda>r. Inr (snd r))) [(7, 5), (9, 2), (7, 3)]) = Inr t
    \<and> table_inv t \<and> table_get 7 t = Inr (Some 3)"
  using sparse_table_is_a_map[of 4 "[(7, 5::nat), (9, 2), (7, 3)]" 7 0] by (simp add: EMPTY_KEY_def)

text \<open>The table never loses an entry when it is reused: clearing it leaves every key absent, the
  capacity unchanged and the invariant intact, so that as many insertions as before fit again.\<close>

theorem table_clear_empties:
  assumes "table_inv t"
  shows "\<exists>t'. table_clear t = Inr t' \<and> table_inv t' \<and> entry_capacity t' = entry_capacity t
    \<and> (\<forall>k. k \<noteq> EMPTY_KEY \<longrightarrow> table_get k t' = Inr None)"
proof -
  obtain t' where "table_clear t = Inr t'" "table_inv t'" "length (st_keys t') = length (st_keys t)"
    "occupied (st_keys t') = {}" using table_clear_spec[OF assms] by blast
  then show ?thesis using table_get_unoccupied[of t'] by (auto simp: table_inv_def entry_capacity_def)
qed

lemma empty_table_inv: "table_inv (table_of_capacity 8 dflt)"
  using table_of_capacity_core[of 8 3 dflt] by (simp add: table_inv_def)

theorem table_clear_empties_witness:
  "\<exists>t'. table_clear (table_of_capacity 8 (0::nat)) = Inr t' \<and> table_inv t'
    \<and> entry_capacity t' = 5 \<and> table_get 7 t' = Inr None"
  using table_clear_empties[OF empty_table_inv[of "0::nat"]]
  by (auto simp: entry_capacity_def table_of_capacity_def EMPTY_KEY_def)

text \<open>Writing through \<open>get_mut\<close> changes the value of its own key and nothing else, and reports
  exactly what \<open>get\<close> reports; an absent key leaves the table as it was.\<close>

theorem table_get_mut_frame:
  assumes "table_inv t" "key \<noteq> EMPTY_KEY"
  shows "\<exists>old t'. table_get_mut key f t = Inr (old, t') \<and> table_get key t = Inr old \<and> table_inv t'
    \<and> (\<forall>k. k \<noteq> EMPTY_KEY \<longrightarrow> table_get k t' = (if k = key then Inr (map_option f old) else table_get k t))"
  using table_get_mut_spec[OF assms] by blast

theorem table_get_mut_frame_witness:
  "\<exists>old t'. table_get_mut 7 Suc (table_of_capacity 8 0) = Inr (old, t')
    \<and> table_get 7 (table_of_capacity 8 0) = Inr old \<and> table_inv t'
    \<and> table_get 9 t' = table_get 9 (table_of_capacity 8 0)"
  using table_get_mut_frame[OF empty_table_inv[of "0::nat"], of 7 Suc] by (auto simp: EMPTY_KEY_def)

end
