(* ===== verification/Vamana_Search.thy ===== *)
theory Vamana_Search
  imports Vamana_Prune Sparse_Table
begin

text \<open>
  The best-first search of \<open>core/src/vamana.rs\<close>: the reusable scratch of a search, with its visit states in
  a dense vector or in a sparse table, and the loop that expands the nearest retained node until none
  is left. A locale states what the search needs of the visit states. The scratch buffers that are
  cleared before every use and hold nothing between calls are passed as values instead.
\<close>

definition SPARSE_BUILD_VISITED_MIN_MEMORY_SAVINGS :: nat where
  "SPARSE_BUILD_VISITED_MIN_MEMORY_SAVINGS = 16"

section \<open>Heaps of the standard library\<close>

text \<open>\<open>BinaryHeap\<close> as the list of its elements; the order of the list stands for the unspecified order of its
  iterator. The order of scored nodes is total, so what \<open>pop\<close> returns is determined.\<close>

definition heap_peek :: "'a::linorder list \<Rightarrow> 'a option" where
  "heap_peek h = (if h = [] then None else Some (Max (set h)))"

definition heap_pop :: "'a::linorder list \<Rightarrow> ('a \<times> 'a list) option" where
  "heap_pop h = (if h = [] then None else let m = Max (set h) in Some (m, remove1 m h))"

text \<open>A heap of \<open>Reverse\<close> pops its least element.\<close>

definition heap_pop_least :: "'a::linorder list \<Rightarrow> ('a \<times> 'a list) option" where
  "heap_pop_least h = (if h = [] then None else let m = Min (set h) in Some (m, remove1 m h))"

section \<open>Visit states\<close>

datatype BuildVisitStates = Dense "u8 list" "u32 list" | Sparse "u8 SparseTable"

definition dense_get :: "nat \<Rightarrow> u8 list \<times> u32 list \<Rightarrow> u8 res" where
  "dense_get node = (\<lambda>(states, touched). idx states node)"

definition dense_visit :: "nat \<Rightarrow> u8 list \<times> u32 list \<Rightarrow> (u8 list \<times> u32 list) res" where
  "dense_visit node = (\<lambda>(states, touched).
     bind_res (idx states node) (\<lambda>s.
       Inr (states[node := 1], if s = 0 then touched @ [word_of_nat node] else touched)))"

definition dense_put :: "u8 \<Rightarrow> nat \<Rightarrow> u8 list \<times> u32 list \<Rightarrow> (u8 list \<times> u32 list) res" where
  "dense_put v node = (\<lambda>(states, touched). bind_res (set_idx states node v) (\<lambda>states'. Inr (states', touched)))"

definition dense_clear :: "u8 list \<times> u32 list \<Rightarrow> (u8 list \<times> u32 list) res" where
  "dense_clear = (\<lambda>(states, touched).
     bind_res (fold_res (\<lambda>node states. set_idx states (unat node) 0) touched states) (\<lambda>states'. Inr (states', [])))"

definition sparse_put :: "u8 \<Rightarrow> nat \<Rightarrow> u8 SparseTable \<Rightarrow> u8 SparseTable res" where
  "sparse_put v node t = bind_res (table_insert 0 (word_of_nat node) v t) (\<lambda>(old, t'). Inr t')"

text \<open>\<open>is_visited\<close> asks a dense state for a value other than 0 and a sparse one for a present key.\<close>

definition is_visited :: "nat \<Rightarrow> BuildVisitStates \<Rightarrow> bool res" where
  "is_visited node vs = (case vs of
     Dense states touched \<Rightarrow> bind_res (dense_get node (states, touched)) (\<lambda>s. Inr (s \<noteq> 0))
   | Sparse t \<Rightarrow> bind_res (table_get (word_of_nat node) t) (\<lambda>v. Inr (v \<noteq> None)))"

definition is_retained_unexpanded :: "nat \<Rightarrow> BuildVisitStates \<Rightarrow> bool res" where
  "is_retained_unexpanded node vs = (case vs of
     Dense states touched \<Rightarrow> bind_res (dense_get node (states, touched)) (\<lambda>s. Inr (s = 2))
   | Sparse t \<Rightarrow> bind_res (table_get (word_of_nat node) t) (\<lambda>v. Inr (v = Some 2)))"

definition mark_visited :: "nat \<Rightarrow> BuildVisitStates \<Rightarrow> BuildVisitStates res" where
  "mark_visited node vs = (case vs of
     Dense states touched \<Rightarrow> bind_res (dense_visit node (states, touched)) (\<lambda>(s, tn). Inr (Dense s tn))
   | Sparse t \<Rightarrow> bind_res (sparse_put 1 node t) (\<lambda>t'. Inr (Sparse t')))"

definition mark_state :: "u8 \<Rightarrow> nat \<Rightarrow> BuildVisitStates \<Rightarrow> BuildVisitStates res" where
  "mark_state v node vs = (case vs of
     Dense states touched \<Rightarrow> bind_res (dense_put v node (states, touched)) (\<lambda>(s, tn). Inr (Dense s tn))
   | Sparse t \<Rightarrow> bind_res (sparse_put v node t) (\<lambda>t'. Inr (Sparse t')))"

definition mark_expanded :: "nat \<Rightarrow> BuildVisitStates \<Rightarrow> BuildVisitStates res" where
  "mark_expanded = mark_state 3"

definition mark_retained :: "nat \<Rightarrow> BuildVisitStates \<Rightarrow> BuildVisitStates res" where
  "mark_retained = mark_state 2"

definition clear_states :: "BuildVisitStates \<Rightarrow> BuildVisitStates res" where
  "clear_states vs = (case vs of
     Dense states touched \<Rightarrow> bind_res (dense_clear (states, touched)) (\<lambda>(s, tn). Inr (Dense s tn))
   | Sparse t \<Rightarrow> bind_res (table_clear t) (\<lambda>t'. Inr (Sparse t')))"

section \<open>The scratch of a search\<close>

record GreedySearchScratch =
  gs_visit_states :: BuildVisitStates
  gs_results :: "ScoredNode list"
  gs_frontier :: "ScoredNode list"

definition scratch_new :: "nat \<Rightarrow> nat \<Rightarrow> nat \<Rightarrow> GreedySearchScratch res" where
  "scratch_new node_count max_degree search_list_size =
     (let expected_visited = min (saturating_add (saturating_mul search_list_size max_degree) 1) node_count;
          dense_bytes = saturating_add (saturating_mul node_count 1) (saturating_mul expected_visited 4);
          sparse_bytes = (case estimated_memory_bytes expected_visited 1 of None \<Rightarrow> USIZE_MAX | Some b \<Rightarrow> b) in
      bind_res (if (case checked_mul sparse_bytes SPARSE_BUILD_VISITED_MIN_MEMORY_SAVINGS of None \<Rightarrow> False | Some threshold \<Rightarrow> threshold < dense_bytes)
          then bind_res (with_capacity 0 expected_visited) (\<lambda>t. Inr (Sparse t))
          else Inr (Dense (replicate node_count 0) [])) (\<lambda>visit_states.
        Inr \<lparr>gs_visit_states = visit_states, gs_results = [], gs_frontier = []\<rparr>))"

definition begin_search :: "GreedySearchScratch \<Rightarrow> GreedySearchScratch res" where
  "begin_search s = bind_res (clear_states (gs_visit_states s)) (\<lambda>vs.
     Inr \<lparr>gs_visit_states = vs, gs_results = [], gs_frontier = []\<rparr>)"

definition on_states :: "(BuildVisitStates \<Rightarrow> BuildVisitStates res) \<Rightarrow> GreedySearchScratch \<Rightarrow> GreedySearchScratch res" where
  "on_states f s = bind_res (f (gs_visit_states s)) (\<lambda>vs. Inr (s\<lparr>gs_visit_states := vs\<rparr>))"

text \<open>\<open>BinaryHeap::retain\<close> on the frontier.\<close>

fun retain_frontier :: "BuildVisitStates \<Rightarrow> ScoredNode list \<Rightarrow> ScoredNode list res" where
  "retain_frontier vs [] = Inr []"
| "retain_frontier vs (c # cs) =
     bind_res (is_retained_unexpanded (unat (sn_id c)) vs) (\<lambda>keep.
     bind_res (retain_frontier vs cs) (\<lambda>rest. Inr (if keep then c # rest else rest)))"

definition compact_frontier :: "nat \<Rightarrow> GreedySearchScratch \<Rightarrow> GreedySearchScratch res" where
  "compact_frontier search_list_size s =
     (if saturating_mul search_list_size 2 < length (gs_frontier s)
      then bind_res (retain_frontier (gs_visit_states s) (gs_frontier s)) (\<lambda>frontier. Inr (s\<lparr>gs_frontier := frontier\<rparr>))
      else Inr s)"

definition evict_worst :: "nat \<Rightarrow> GreedySearchScratch \<Rightarrow> GreedySearchScratch res" where
  "evict_worst search_list_size s =
     (if length (gs_results s) = search_list_size
      then (case heap_pop (gs_results s) of
          None \<Rightarrow> Inl Panic
        | Some (evicted, results) \<Rightarrow> on_states (mark_visited (unat (sn_id evicted))) (s\<lparr>gs_results := results\<rparr>))
      else Inr s)"

definition insert_candidate :: "ScoredNode \<Rightarrow> nat \<Rightarrow> GreedySearchScratch \<Rightarrow> GreedySearchScratch res" where
  "insert_candidate candidate search_list_size s0 =
     bind_res (on_states (mark_visited (unat (sn_id candidate))) s0) (\<lambda>s.
     if search_list_size = 0 then Inr s
     else if length (gs_results s) = search_list_size
        \<and> (case heap_peek (gs_results s) of None \<Rightarrow> False | Some worst \<Rightarrow> worst \<le> candidate) then Inr s
     else bind_res (evict_worst search_list_size s) (\<lambda>s1.
       bind_res (on_states (mark_retained (unat (sn_id candidate)))
           (s1\<lparr>gs_results := candidate # gs_results s1, gs_frontier := candidate # gs_frontier s1\<rparr>)) (\<lambda>s2.
         compact_frontier search_list_size s2)))"

text \<open>The loop pops at most as often as the frontier is long.\<close>

fun pop_nearest :: "nat \<Rightarrow> GreedySearchScratch \<Rightarrow> (ScoredNode option \<times> GreedySearchScratch) res" where
  "pop_nearest 0 s = Inr (None, s)"
| "pop_nearest (Suc n) s =
     (case heap_pop_least (gs_frontier s) of
        None \<Rightarrow> Inr (None, s)
      | Some (candidate, frontier) \<Rightarrow>
          let s' = s\<lparr>gs_frontier := frontier\<rparr> in
          bind_res (is_retained_unexpanded (unat (sn_id candidate)) (gs_visit_states s')) (\<lambda>open.
            if open then Inr (Some candidate, s') else pop_nearest n s'))"

definition pop_nearest_unexpanded :: "GreedySearchScratch \<Rightarrow> (ScoredNode option \<times> GreedySearchScratch) res" where
  "pop_nearest_unexpanded s = pop_nearest (length (gs_frontier s)) s"

section \<open>The search\<close>

definition visit_neighbor ::
  "nat \<Rightarrow> (nat \<Rightarrow> f32 res) \<Rightarrow> nat \<Rightarrow> u32 \<Rightarrow> GreedySearchScratch \<Rightarrow> GreedySearchScratch res" where
  "visit_neighbor node_count distance search_list_size neighbor s =
     (if node_count \<le> unat neighbor then Inr s
      else bind_res (is_visited (unat neighbor) (gs_visit_states s)) (\<lambda>visited.
        if visited then Inr s
        else bind_res (distance (unat neighbor)) (\<lambda>dist. insert_candidate (ScoredNode neighbor dist) search_list_size s)))"

text \<open>The loop, over the store's neighbours and a distance to the query. Every round expands another node, so
  as many rounds as there are nodes, and one that finds the frontier empty, are enough.\<close>

fun expand_loop ::
  "nat \<Rightarrow> nat \<Rightarrow> (nat \<Rightarrow> u32 list res) \<Rightarrow> (nat \<Rightarrow> f32 res) \<Rightarrow> nat \<Rightarrow> GreedySearchScratch \<Rightarrow> GreedySearchScratch res" where
  "expand_loop 0 node_count neighbors distance search_list_size s = Inl Diverge"
| "expand_loop (Suc fuel) node_count neighbors distance search_list_size s =
     bind_res (pop_nearest_unexpanded s) (\<lambda>(current, s1).
       case current of
         None \<Rightarrow> Inr s1
       | Some c \<Rightarrow>
           bind_res (on_states (mark_expanded (unat (sn_id c))) s1) (\<lambda>s2.
           bind_res (neighbors (unat (sn_id c))) (\<lambda>ns.
           bind_res (fold_res (visit_neighbor node_count distance search_list_size) ns s2) (\<lambda>s3.
             expand_loop fuel node_count neighbors distance search_list_size s3))))"

definition search_from ::
  "u32 \<Rightarrow> nat \<Rightarrow> (nat \<Rightarrow> u32 list res) \<Rightarrow> (nat \<Rightarrow> f32 res) \<Rightarrow> nat \<Rightarrow> GreedySearchScratch \<Rightarrow> GreedySearchScratch res" where
  "search_from entry_node node_count neighbors distance search_list_size s =
     bind_res (distance (unat entry_node)) (\<lambda>dist.
     bind_res (insert_candidate (ScoredNode entry_node dist) search_list_size s) (\<lambda>s1.
       expand_loop (node_count + 1) node_count neighbors distance search_list_size s1))"

record VamanaGraph =
  vg_entry_node :: u32
  vg_adjacency :: CompactAdjacency

definition greedy_search_with_scratch ::
  "arch \<Rightarrow> f32 list \<Rightarrow> nat \<Rightarrow> MetricType \<Rightarrow> f32 list \<Rightarrow> nat \<Rightarrow> GreedySearchScratch \<Rightarrow> VamanaGraph \<Rightarrow> GreedySearchScratch res" where
  "greedy_search_with_scratch t vectors dimension metric query search_list_size s0 g =
     bind_res (begin_search s0) (\<lambda>s.
     if search_list_size = 0 \<or> ca_node_count (vg_adjacency g) = 0 then Inr s
     else search_from (vg_entry_node g) (ca_node_count (vg_adjacency g)) (\<lambda>node. ca_neighbors node (vg_adjacency g))
       (\<lambda>node. node_distance t vectors dimension node query metric) search_list_size s)"

definition search_scratch :: "nat \<Rightarrow> VamanaGraph \<Rightarrow> GreedySearchScratch res" where
  "search_scratch search_list_size g =
     scratch_new (ca_node_count (vg_adjacency g)) (ca_max_degree (vg_adjacency g)) (min search_list_size (ca_node_count (vg_adjacency g)))"

definition greedy_search_with_metric ::
  "arch \<Rightarrow> f32 list \<Rightarrow> nat \<Rightarrow> MetricType \<Rightarrow> f32 list \<Rightarrow> nat \<Rightarrow> VamanaGraph \<Rightarrow> ScoredNode list res" where
  "greedy_search_with_metric t vectors dimension metric query search_list_size g =
     bind_res (search_scratch search_list_size g) (\<lambda>scratch.
     bind_res (greedy_search_with_scratch t vectors dimension metric query search_list_size scratch g) (\<lambda>s.
       Inr (sort (gs_results s))))"

definition greedy_search :: "arch \<Rightarrow> f32 list \<Rightarrow> nat \<Rightarrow> f32 list \<Rightarrow> nat \<Rightarrow> VamanaGraph \<Rightarrow> ScoredNode list res" where
  "greedy_search t vectors dimension query search_list_size g =
     greedy_search_with_metric t vectors dimension L2 query search_list_size g"

definition greedy_search_best_with_scratch ::
  "arch \<Rightarrow> f32 list \<Rightarrow> nat \<Rightarrow> f32 list \<Rightarrow> nat \<Rightarrow> GreedySearchScratch \<Rightarrow> VamanaGraph \<Rightarrow> (ScoredNode option \<times> GreedySearchScratch) res" where
  "greedy_search_best_with_scratch t vectors dimension query search_list_size scratch g =
     bind_res (greedy_search_with_scratch t vectors dimension L2 query search_list_size scratch g) (\<lambda>s.
       Inr (if gs_results s = [] then None else Some (Min (set (gs_results s))), s))"

section \<open>Visit states as a function\<close>

text \<open>What a search needs of its visit states: each node has a state, reading and marking never fail, and
  clearing forgets every search before. A state other than visited is only written to a visited node.\<close>

locale visit_map =
  fixes n :: nat and ok :: "'s \<Rightarrow> bool" and look :: "'s \<Rightarrow> nat \<Rightarrow> u8"
    and visit :: "nat \<Rightarrow> 's \<Rightarrow> 's res" and put :: "u8 \<Rightarrow> nat \<Rightarrow> 's \<Rightarrow> 's res" and clear :: "'s \<Rightarrow> 's res"
  assumes visit_law: "ok s \<Longrightarrow> node < n \<Longrightarrow> \<exists>s'. visit node s = Inr s' \<and> ok s' \<and> (\<forall>m < n. look s' m = (if m = node then 1 else look s m))"
    and put_law: "ok s \<Longrightarrow> node < n \<Longrightarrow> look s node \<noteq> 0 \<Longrightarrow> v \<noteq> 0 \<Longrightarrow>
      \<exists>s'. put v node s = Inr s' \<and> ok s' \<and> (\<forall>m < n. look s' m = (if m = node then v else look s m))"
    and clear_law: "ok s \<Longrightarrow> \<exists>s'. clear s = Inr s' \<and> ok s' \<and> (\<forall>m < n. look s' m = 0)"
begin

lemma visit_put:
  assumes "ok s" "node < n" "v \<noteq> 0"
  shows "\<exists>s' s''. visit node s = Inr s' \<and> put v node s' = Inr s'' \<and> ok s'' \<and> (\<forall>m < n. look s'' m = (if m = node then v else look s m))"
proof -
  obtain s' where s': "visit node s = Inr s'" "ok s'" "\<forall>m < n. look s' m = (if m = node then 1 else look s m)" using visit_law[OF assms(1,2)] by blast
  have "look s' node \<noteq> 0" using s'(3) assms(2) by simp
  from put_law[OF s'(2) assms(2) this assms(3)] show ?thesis using s'(1,3) by auto
qed

end

definition dense_ok :: "nat \<Rightarrow> u8 list \<times> u32 list \<Rightarrow> bool" where
  "dense_ok n = (\<lambda>(states, touched). n < 2 ^ 32 \<and> length states = n \<and> (\<forall>i < n. states ! i \<noteq> 0 \<longrightarrow> i \<in> unat ` set touched)
     \<and> (\<forall>x \<in> set touched. unat x < n))"

definition dense_look :: "u8 list \<times> u32 list \<Rightarrow> nat \<Rightarrow> u8" where
  "dense_look = (\<lambda>(states, touched) node. states ! node)"

lemma unat_node: "node < 2 ^ 32 \<Longrightarrow> unat (word_of_nat node :: u32) = node"
  by (simp add: unat_of_nat)

lemma reset_touched:
  "\<forall>x \<in> set touched. unat x < length states \<Longrightarrow>
   \<exists>states'. fold_res (\<lambda>node states. set_idx states (unat node) 0) touched states = Inr states' \<and> length states' = length states
     \<and> (\<forall>i < length states. states' ! i = (if i \<in> unat ` set touched then 0 else states ! i))"
proof (induction touched arbitrary: states)
  case (Cons x touched)
  from Cons.IH[of "states[unat x := 0]"] Cons.prems show ?case by (auto simp: set_idx_def nth_list_update)
qed simp

interpretation dense: visit_map n "dense_ok n" dense_look dense_visit dense_put dense_clear for n
proof
  fix s node v assume a: "dense_ok n s"
  obtain states touched where s: "s = (states, touched)" by (cases s)
  have D: "n < 2 ^ 32" "length states = n" "\<forall>i < n. states ! i \<noteq> 0 \<longrightarrow> i \<in> unat ` set touched" "\<forall>x \<in> set touched. unat x < n"
    using a by (auto simp: dense_ok_def s)
  show "\<exists>s'. dense_visit node s = Inr s' \<and> dense_ok n s' \<and> (\<forall>m < n. dense_look s' m = (if m = node then 1 else dense_look s m))" if "node < n"
    using D that unat_node[of node] by (auto simp: s dense_visit_def dense_ok_def dense_look_def idx_def nth_list_update)
  show "\<exists>s'. dense_put v node s = Inr s' \<and> dense_ok n s' \<and> (\<forall>m < n. dense_look s' m = (if m = node then v else dense_look s m))"
    if "node < n" "dense_look s node \<noteq> 0" using D that by (auto simp: s dense_put_def dense_ok_def dense_look_def set_idx_def nth_list_update)
  have len: "\<forall>x \<in> set touched. unat x < length states" using D(2,4) by simp
  show "\<exists>s'. dense_clear s = Inr s' \<and> dense_ok n s' \<and> (\<forall>m < n. dense_look s' m = 0)"
    using reset_touched[OF len] D by (auto simp: s dense_clear_def dense_ok_def dense_look_def)
qed

definition sparse_ok :: "nat \<Rightarrow> u8 SparseTable \<Rightarrow> bool" where
  "sparse_ok n t \<longleftrightarrow> n < 2 ^ 30 \<and> table_inv t \<and> (\<forall>k w. holds t k w \<longrightarrow> unat k < n \<and> w \<noteq> 0)"

definition sparse_look :: "u8 SparseTable \<Rightarrow> nat \<Rightarrow> u8" where
  "sparse_look t node = (case table_get (word_of_nat node) t of Inr (Some s) \<Rightarrow> s | _ \<Rightarrow> 0)"

lemma node_key: "node < n \<Longrightarrow> n < 2 ^ 30 \<Longrightarrow> (word_of_nat node :: u32) \<noteq> EMPTY_KEY"
proof
  assume "node < n" "n < 2 ^ 30" "word_of_nat node = EMPTY_KEY"
  then have "unat (word_of_nat node :: u32) = 2 ^ 32 - 1" "unat (word_of_nat node :: u32) = node" using unat_node[of node] by (simp_all add: EMPTY_KEY_def)
  then show False using \<open>node < n\<close> \<open>n < 2 ^ 30\<close> by simp
qed

lemma entries_below:
  assumes "table_core t" "\<forall>k w. holds t k w \<longrightarrow> unat k < n"
  shows "length (st_touched_slots t) \<le> n"
proof -
  let ?keys = "(\<lambda>s. st_keys t ! s) ` occupied (st_keys t)"
  have "unat k < n" if "k \<in> ?keys" for k using that assms(2) by (auto simp: holds_def)
  then have "unat ` ?keys \<subseteq> {..<n}" by blast
  then have "card (unat ` ?keys) \<le> n" using card_mono[of "{..<n}" "unat ` ?keys"] by simp
  moreover have "card (unat ` ?keys) = card ?keys" by (intro card_image inj_onI) (simp add: word_unat_eq_iff)
  moreover have "card ?keys = card (occupied (st_keys t))" by (rule card_image[OF table_coreD(5)[OF assms(1)]])
  ultimately show ?thesis using card_occupied[OF assms(1)] by simp
qed

lemma sparse_put_eq:
  assumes "sparse_ok n t" "node < n" "v \<noteq> 0"
  shows "\<exists>t'. sparse_put v node t = Inr t' \<and> sparse_ok n t' \<and> (\<forall>m < n. sparse_look t' m = (if m = node then v else sparse_look t m))"
proof -
  let ?k = "word_of_nat node :: u32"
  have S: "n < 2 ^ 30" "table_inv t" "\<forall>k w. holds t k w \<longrightarrow> unat k < n \<and> w \<noteq> 0" using assms(1) by (auto simp: sparse_ok_def)
  have core: "table_core t" using S(2) by (simp add: table_inv_def)
  have small: "length (st_touched_slots t) < 2 ^ 30" using entries_below[OF core, of n] S(1,3) by fastforce
  have key: "?k \<noteq> EMPTY_KEY" by (rule node_key[OF assms(2) S(1)])
  obtain old t' where t': "table_insert 0 ?k v t = Inr (old, t')" "table_inv t'" "\<forall>k w. holds t' k w \<longleftrightarrow> (if k = ?k then w = v else holds t k w)"
    using table_insert_spec[OF S(2) key small, of 0 v] by blast
  have core': "table_core t'" using t'(2) by (simp add: table_inv_def)
  have un: "unat ?k = node" using unat_node[of node] assms(2) S(1) by simp
  have ok: "sparse_ok n t'" using t'(2,3) S un assms(2,3) by (auto simp: sparse_ok_def split: if_splits)
  have "sparse_look t' m = (if m = node then v else sparse_look t m)" if m: "m < n" for m
  proof (cases "m = node")
    case True
    then show ?thesis using table_get_holds[OF core' key, of v] t'(3) by (simp add: sparse_look_def)
  next
    case False
    have k: "(word_of_nat m :: u32) \<noteq> EMPTY_KEY" by (rule node_key[OF m S(1)])
    have "(word_of_nat m :: u32) \<noteq> ?k" using False un unat_node[of m] m S(1) by auto
    then have "table_get (word_of_nat m) t' = table_get (word_of_nat m) t" using table_get_eqI[OF core' core k] t'(3) by simp
    then show ?thesis using False by (simp add: sparse_look_def)
  qed
  then show ?thesis using t'(1) ok by (auto simp: sparse_put_def)
qed

interpretation sparse: visit_map n "sparse_ok n" sparse_look "sparse_put 1" sparse_put table_clear for n
proof
  fix t node and v :: u8 assume a: "sparse_ok n t"
  show "\<exists>t'. sparse_put 1 node t = Inr t' \<and> sparse_ok n t' \<and> (\<forall>m < n. sparse_look t' m = (if m = node then 1 else sparse_look t m))" if "node < n"
    using sparse_put_eq[OF a that, of 1] by simp
  show "\<exists>t'. sparse_put v node t = Inr t' \<and> sparse_ok n t' \<and> (\<forall>m < n. sparse_look t' m = (if m = node then v else sparse_look t m))"
    if "node < n" "v \<noteq> 0" using sparse_put_eq[OF a that] .
  have inv: "table_inv t" using a by (simp add: sparse_ok_def)
  obtain t' where t': "table_clear t = Inr t'" "table_inv t'" "occupied (st_keys t') = {}" using table_clear_spec[OF inv] by blast
  have "table_get (word_of_nat m) t' = Inr None" if "m < n" for m
    using table_get_unoccupied[OF _ t'(3) node_key[OF that]] t'(2) a by (simp add: table_inv_def sparse_ok_def)
  then show "\<exists>t'. table_clear t = Inr t' \<and> sparse_ok n t' \<and> (\<forall>m < n. sparse_look t' m = 0)"
    using t' a by (intro exI[of _ t']) (auto simp: sparse_ok_def sparse_look_def holds_def)
qed

definition states_ok :: "nat \<Rightarrow> BuildVisitStates \<Rightarrow> bool" where
  "states_ok n vs = (case vs of Dense states touched \<Rightarrow> dense_ok n (states, touched) | Sparse t \<Rightarrow> sparse_ok n t)"

definition look_state :: "BuildVisitStates \<Rightarrow> nat \<Rightarrow> u8" where
  "look_state vs = (case vs of Dense states touched \<Rightarrow> dense_look (states, touched) | Sparse t \<Rightarrow> sparse_look t)"

interpretation states: visit_map n "states_ok n" look_state mark_visited mark_state clear_states for n
proof
  fix vs node v assume a: "states_ok n vs"
  show "\<exists>vs'. mark_visited node vs = Inr vs' \<and> states_ok n vs' \<and> (\<forall>m < n. look_state vs' m = (if m = node then 1 else look_state vs m))" if "node < n"
    using dense.visit_law[of n _ node] sparse.visit_law[of n _ node] a that
    by (cases vs) (fastforce simp: mark_visited_def states_ok_def look_state_def)+
  show "\<exists>vs'. mark_state v node vs = Inr vs' \<and> states_ok n vs' \<and> (\<forall>m < n. look_state vs' m = (if m = node then v else look_state vs m))"
    if "node < n" "look_state vs node \<noteq> 0" "v \<noteq> 0"
    using dense.put_law[of n _ node v] sparse.put_law[of n _ node v] a that
    by (cases vs) (fastforce simp: mark_state_def states_ok_def look_state_def)+
  show "\<exists>vs'. clear_states vs = Inr vs' \<and> states_ok n vs' \<and> (\<forall>m < n. look_state vs' m = 0)"
    using dense.clear_law[of n] sparse.clear_law[of n] a by (cases vs) (fastforce simp: clear_states_def states_ok_def look_state_def)+
qed

lemma read_states:
  assumes "states_ok n vs" "node < n"
  shows "is_visited node vs = Inr (look_state vs node \<noteq> 0)" "is_retained_unexpanded node vs = Inr (look_state vs node = 2)"
proof -
  show "is_visited node vs = Inr (look_state vs node \<noteq> 0)"
  proof (cases vs)
    case (Sparse t)
    then have S: "n < 2 ^ 30" "table_core t" "\<forall>k w. holds t k w \<longrightarrow> w \<noteq> 0" using assms(1) by (auto simp: states_ok_def sparse_ok_def table_inv_def)
    have key: "(word_of_nat node :: u32) \<noteq> EMPTY_KEY" by (rule node_key[OF assms(2) S(1)])
    obtain r where r: "table_get (word_of_nat node) t = Inr r" using table_get_total[OF key] by blast
    then have "r = Some w \<Longrightarrow> w \<noteq> 0" for w using table_get_holds[OF S(2) key, of w] S(3) by simp
    then show ?thesis using r Sparse by (cases r) (auto simp: is_visited_def look_state_def sparse_look_def)
  qed (use assms in \<open>auto simp: is_visited_def look_state_def dense_get_def dense_look_def idx_def states_ok_def dense_ok_def\<close>)
  show "is_retained_unexpanded node vs = Inr (look_state vs node = 2)"
  proof (cases vs)
    case (Sparse t)
    then have "n < 2 ^ 30" using assms(1) by (simp add: states_ok_def sparse_ok_def)
    then obtain r where "table_get (word_of_nat node) t = Inr r" using table_get_total[OF node_key[OF assms(2)]] by blast
    then show ?thesis using Sparse by (cases r) (auto simp: is_retained_unexpanded_def look_state_def sparse_look_def)
  qed (use assms in \<open>auto simp: is_retained_unexpanded_def look_state_def dense_get_def dense_look_def idx_def states_ok_def dense_ok_def\<close>)
qed

section \<open>What a search keeps\<close>

definition scored :: "(nat \<Rightarrow> f32) \<Rightarrow> nat \<Rightarrow> ScoredNode" where
  "scored dist node = ScoredNode (word_of_nat node) (dist node)"

lemma scored_node: "node < 2 ^ 32 \<Longrightarrow> unat (sn_id (scored dist node)) = node" "sn_distance (scored dist node) = dist node"
  by (simp_all add: scored_def unat_node)

lemma scored_inj: "a < 2 ^ 32 \<Longrightarrow> b < 2 ^ 32 \<Longrightarrow> scored dist a = scored dist b \<longleftrightarrow> a = b"
  using scored_node(1) by metis

text \<open>States: 0 not visited, 1 visited and not retained, 2 retained and waiting, 3 retained and expanded. The
  results are the retained nodes; the frontier holds at least the waiting ones. A node that was turned
  away or evicted is not better than any result of a full list.\<close>

definition found :: "nat \<Rightarrow> nat \<Rightarrow> (nat \<Rightarrow> f32) \<Rightarrow> (nat \<Rightarrow> u8) \<Rightarrow> ScoredNode list \<Rightarrow> ScoredNode list \<Rightarrow> bool" where
  "found n L dist st results frontier \<longleftrightarrow> distinct results \<and> length results \<le> L
     \<and> set results = scored dist ` {m. m < n \<and> (st m = 2 \<or> st m = 3)} \<and> set frontier \<subseteq> scored dist ` {..<n}
     \<and> (\<forall>m < n. st m = 0 \<or> st m = 1 \<or> st m = 2 \<or> st m = 3)
     \<and> (\<forall>m < n. st m = 2 \<longrightarrow> scored dist m \<in> set frontier)
     \<and> (\<forall>m < n. st m = 1 \<longrightarrow> length results = L \<and> (\<forall>c \<in> set results. c \<le> scored dist m))"

lemma foundD:
  assumes "found n L dist st results frontier"
  shows "distinct results" "length results \<le> L" "set results = scored dist ` {m. m < n \<and> (st m = 2 \<or> st m = 3)}"
    "set frontier \<subseteq> scored dist ` {..<n}" "\<forall>m < n. st m = 0 \<or> st m = 1 \<or> st m = 2 \<or> st m = 3"
    "\<forall>m < n. st m = 2 \<longrightarrow> scored dist m \<in> set frontier"
    "\<forall>m < n. st m = 1 \<longrightarrow> length results = L \<and> (\<forall>c \<in> set results. c \<le> scored dist m)"
  using assms by (simp_all add: found_def)

lemma found_states: "found n L dist st results frontier \<Longrightarrow> \<forall>m < n. st' m = st m \<Longrightarrow> found n L dist st' results frontier"
  by (auto simp: found_def image_iff)

lemma found_frontier:
  "found n L dist st results frontier \<Longrightarrow> set frontier' \<subseteq> set frontier \<Longrightarrow> \<forall>m < n. st m = 2 \<longrightarrow> scored dist m \<in> set frontier' \<Longrightarrow>
   found n L dist st results frontier'"
  by (auto simp: found_def)

text \<open>A candidate that a full list turns away.\<close>

lemma found_reject:
  assumes f: "found n L dist st results frontier" and m: "m < n" "st m = 0" and full: "length results = L" "\<forall>c \<in> set results. c \<le> scored dist m"
  shows "found n L dist (st(m := 1)) results frontier"
proof -
  have "{k. k < n \<and> ((st(m := 1)) k = 2 \<or> (st(m := 1)) k = 3)} = {k. k < n \<and> (st k = 2 \<or> st k = 3)}" using m by auto
  then show ?thesis using foundD[OF f] full by (simp add: found_def)
qed

text \<open>A candidate for which there is room.\<close>

lemma found_room:
  assumes f: "found n L dist st results frontier" and n: "n \<le> 2 ^ 32" and m: "m < n" "st m = 0" and room: "length results < L"
  shows "found n L dist (st(m := 2)) (scored dist m # results) (scored dist m # frontier)"
proof -
  have set: "{k. k < n \<and> ((st(m := 2)) k = 2 \<or> (st(m := 2)) k = 3)} = insert m {k. k < n \<and> (st k = 2 \<or> st k = 3)}" using m by auto
  have "scored dist m \<notin> set results"
  proof
    assume "scored dist m \<in> set results"
    then obtain k where "k < n" "st k = 2 \<or> st k = 3" "scored dist m = scored dist k" using foundD(3)[OF f] by auto
    then show False using scored_inj[of m k dist] m n by auto
  qed
  moreover have "st k \<noteq> 1" if "k < n" for k using foundD(7)[OF f] that room by auto
  ultimately show ?thesis using foundD(1-6)[OF f] m room unfolding found_def set by auto
qed

text \<open>A candidate that evicts the worst result of a full list.\<close>

lemma found_evict:
  assumes f: "found n L dist st results frontier" and n: "n \<le> 2 ^ 32" and m: "m < n" "st m = 0" and full: "length results = L"
    and w: "w < n" "scored dist w \<in> set results" "\<forall>c \<in> set results. c \<le> scored dist w" "scored dist m < scored dist w"
  shows "found n L dist (st(w := 1, m := 2)) (scored dist m # remove1 (scored dist w) results) (scored dist m # frontier)"
proof -
  let ?st = "st(w := 1, m := 2)" and ?rest = "remove1 (scored dist w) results"
  note F = foundD[OF f]
  obtain k where k: "k < n" "st k = 2 \<or> st k = 3" "scored dist w = scored dist k" using F(3) w(2) by auto
  then have stw: "st w = 2 \<or> st w = 3" using scored_inj[of w k dist] w(1) n by auto
  then have wm: "w \<noteq> m" using m(2) by auto
  have states: "{k. k < n \<and> (?st k = 2 \<or> ?st k = 3)} = insert m ({k. k < n \<and> (st k = 2 \<or> st k = 3)} - {w})" using m wm by auto
  have "inj_on (scored dist) {..<n}" using scored_inj n by (intro inj_onI) auto
  then have "scored dist ` ({k. k < n \<and> (st k = 2 \<or> st k = 3)} - {w}) = scored dist ` {k. k < n \<and> (st k = 2 \<or> st k = 3)} - scored dist ` {w}"
    using w(1) by (intro inj_on_image_set_diff) auto
  then have set: "set (scored dist m # ?rest) = scored dist ` {k. k < n \<and> (?st k = 2 \<or> ?st k = 3)}" unfolding states using F(1,3) by simp
  have m_new: "scored dist m \<notin> set results"
  proof
    assume "scored dist m \<in> set results"
    then obtain k where "k < n" "st k = 2 \<or> st k = 3" "scored dist m = scored dist k" using F(3) by auto
    then show False using scored_inj[of m k dist] m n by auto
  qed
  have len: "length (scored dist m # ?rest) = L" using full w(2) length_remove1[of "scored dist w" results] by (cases results) auto
  have below: "c \<le> scored dist k" if c: "c \<in> set (scored dist m # ?rest)" and k: "k < n" "?st k = 1" for c k
  proof -
    have cw: "c \<le> scored dist w" using c w(3,4) F(1) by auto
    show ?thesis
    proof (cases "k = w")
      case False
      then have "st k = 1" using k by (auto split: if_splits)
      then have "scored dist w \<le> scored dist k" using F(7) k(1) w(2) by blast
      then show ?thesis using cw by simp
    qed (use cw in simp)
  qed
  have "distinct (scored dist m # ?rest)" using F(1) m_new by auto
  moreover have "set (scored dist m # frontier) \<subseteq> scored dist ` {..<n}" using F(4) m(1) by auto
  moreover have "\<forall>k < n. ?st k = 2 \<longrightarrow> scored dist k \<in> set (scored dist m # frontier)" using F(6) by auto
  moreover have "\<forall>k < n. ?st k = 0 \<or> ?st k = 1 \<or> ?st k = 2 \<or> ?st k = 3" using F(5) by auto
  ultimately show ?thesis unfolding found_def using set len below by blast
qed

section \<open>The operations keep it\<close>

abbreviation node_state :: "GreedySearchScratch \<Rightarrow> nat \<Rightarrow> u8" where
  "node_state s \<equiv> look_state (gs_visit_states s)"

definition search_inv :: "nat \<Rightarrow> nat \<Rightarrow> (nat \<Rightarrow> f32) \<Rightarrow> GreedySearchScratch \<Rightarrow> bool" where
  "search_inv n L dist s \<longleftrightarrow> n \<le> 2 ^ 32 \<and> states_ok n (gs_visit_states s) \<and> found n L dist (node_state s) (gs_results s) (gs_frontier s)"

text \<open>What adding candidates does to the states: nothing is forgotten, nothing becomes expanded, and no node
  becomes waiting that was neither waiting nor new.\<close>

definition grows :: "nat \<Rightarrow> GreedySearchScratch \<Rightarrow> GreedySearchScratch \<Rightarrow> bool" where
  "grows n s s' \<longleftrightarrow> (\<forall>k < n. (node_state s k \<noteq> 0 \<longrightarrow> node_state s' k \<noteq> 0) \<and> (node_state s' k = 3 \<longrightarrow> node_state s k = 3)
     \<and> (node_state s' k = 2 \<longrightarrow> node_state s k = 2 \<or> node_state s k = 0))"

lemma grows_refl [simp]: "grows n s s"
  by (simp add: grows_def)

lemma grows_trans: "grows n a b \<Longrightarrow> grows n b c \<Longrightarrow> grows n a c"
  by (simp add: grows_def) blast

lemma retain_frontier_eq:
  "states_ok n vs \<Longrightarrow> \<forall>c \<in> set frontier. unat (sn_id c) < n \<Longrightarrow>
   retain_frontier vs frontier = Inr (filter (\<lambda>c. look_state vs (unat (sn_id c)) = 2) frontier)"
  by (induction frontier) (simp_all add: read_states(2))

lemma found_ids: "found n L dist st results frontier \<Longrightarrow> n \<le> 2 ^ 32 \<Longrightarrow> c \<in> set frontier \<Longrightarrow> unat (sn_id c) < n \<and> c = scored dist (unat (sn_id c))"
  by (auto dest!: foundD(4) simp: scored_node(1))

lemma compact_keeps:
  assumes "search_inv n L dist s"
  shows "\<exists>s'. compact_frontier L s = Inr s' \<and> search_inv n L dist s' \<and> gs_visit_states s' = gs_visit_states s \<and> gs_results s' = gs_results s"
proof -
  have I: "n \<le> 2 ^ 32" "states_ok n (gs_visit_states s)" "found n L dist (node_state s) (gs_results s) (gs_frontier s)" using assms by (auto simp: search_inv_def)
  let ?fr = "filter (\<lambda>c. node_state s (unat (sn_id c)) = 2) (gs_frontier s)"
  have "\<forall>c \<in> set (gs_frontier s). unat (sn_id c) < n" using found_ids[OF I(3,1)] by blast
  note retain = retain_frontier_eq[OF I(2) this]
  have "found n L dist (node_state s) (gs_results s) ?fr"
  proof (rule found_frontier[OF I(3)])
    show "\<forall>m < n. node_state s m = 2 \<longrightarrow> scored dist m \<in> set ?fr" using foundD(6)[OF I(3)] I(1) by (auto simp: scored_node(1))
  qed auto
  then show ?thesis using retain I assms by (auto simp: compact_frontier_def search_inv_def)
qed

lemma heap_pop_max:
  fixes h :: "'a::linorder list"
  assumes "h \<noteq> []"
  obtains m where "heap_peek h = Some m" "heap_pop h = Some (m, remove1 m h)" "m \<in> set h" "\<forall>c \<in> set h. c \<le> m"
proof (rule that)
  show "Max (set h) \<in> set h" "\<forall>c \<in> set h. c \<le> Max (set h)" using assms by simp_all
qed (use assms in \<open>simp_all add: heap_peek_def heap_pop_def Let_def\<close>)

lemma retain_candidate:
  assumes "n \<le> 2 ^ 32" "states_ok n (gs_visit_states s)" "m < n" "node_state s m \<noteq> 0"
    and "found n L dist ((node_state s)(m := 2)) (scored dist m # gs_results s) (scored dist m # gs_frontier s)"
  shows "\<exists>s'. bind_res (on_states (mark_retained (unat (sn_id (scored dist m))))
      (s\<lparr>gs_results := scored dist m # gs_results s, gs_frontier := scored dist m # gs_frontier s\<rparr>)) (compact_frontier L) = Inr s'
    \<and> search_inv n L dist s' \<and> (\<forall>k < n. node_state s' k = (if k = m then 2 else node_state s k))"
proof -
  obtain vs where vs: "mark_state 2 m (gs_visit_states s) = Inr vs" "states_ok n vs" "\<forall>k < n. look_state vs k = (if k = m then 2 else node_state s k)"
    using states.put_law[OF assms(2-4), of 2] by auto
  let ?s = "s\<lparr>gs_results := scored dist m # gs_results s, gs_frontier := scored dist m # gs_frontier s, gs_visit_states := vs\<rparr>"
  have "found n L dist (look_state vs) (gs_results ?s) (gs_frontier ?s)" using found_states[OF assms(5), of "look_state vs"] vs(3) by simp
  then have "search_inv n L dist ?s" using vs(2) assms(1) by (simp add: search_inv_def)
  from compact_keeps[OF this] obtain s' where "compact_frontier L ?s = Inr s'" "search_inv n L dist s'" "gs_visit_states s' = vs" by auto
  then show ?thesis using vs assms(1,3) by (simp add: on_states_def mark_retained_def scored_node(1))
qed

text \<open>Adding a node that was not visited.\<close>

lemma insert_candidate_keeps:
  assumes inv: "search_inv n L dist s" and m: "m < n" "node_state s m = 0" and L: "0 < L"
  shows "\<exists>s'. insert_candidate (scored dist m) L s = Inr s' \<and> search_inv n L dist s' \<and> grows n s s' \<and> (\<forall>k < n. node_state s' k \<noteq> 0 \<longleftrightarrow> k = m \<or> node_state s k \<noteq> 0)"
proof -
  let ?st = "node_state s" and ?c = "scored dist m"
  have I: "n \<le> 2 ^ 32" "states_ok n (gs_visit_states s)" "found n L dist ?st (gs_results s) (gs_frontier s)" using inv by (auto simp: search_inv_def)
  have cm: "unat (sn_id ?c) = m" using m(1) I(1) by (simp add: scored_node(1))
  obtain vs1 where vs1: "mark_visited m (gs_visit_states s) = Inr vs1" "states_ok n vs1" "\<forall>k < n. look_state vs1 k = (if k = m then 1 else ?st k)"
    using states.visit_law[OF I(2) m(1)] by blast
  let ?s1 = "s\<lparr>gs_visit_states := vs1\<rparr>"
  have run1: "on_states (mark_visited (unat (sn_id ?c))) s = Inr ?s1" using vs1(1) cm by (simp add: on_states_def)
  consider (room) "length (gs_results s) < L" | (full) "length (gs_results s) = L" using foundD(2)[OF I(3)] by linarith
  then show ?thesis
  proof cases
    case room
    have "found n L dist ((node_state ?s1)(m := 2)) (?c # gs_results ?s1) (?c # gs_frontier ?s1)"
      using found_states[OF found_room[OF I(3,1) m room], of "(look_state vs1)(m := 2)"] vs1(3) by simp
    from retain_candidate[OF I(1) _ m(1) _ this] obtain s' where s': "bind_res (on_states (mark_retained (unat (sn_id ?c)))
        (?s1\<lparr>gs_results := ?c # gs_results ?s1, gs_frontier := ?c # gs_frontier ?s1\<rparr>)) (compact_frontier L) = Inr s'"
      "search_inv n L dist s'" "\<forall>k < n. node_state s' k = (if k = m then 2 else node_state ?s1 k)" using vs1(2,3) m(1) by auto
    have "insert_candidate ?c L s = Inr s'" using run1 L room s'(1) by (simp add: insert_candidate_def evict_worst_def)
    then show ?thesis using s'(2,3) vs1(3) m by (intro exI[of _ s']) (auto simp: grows_def)
  next
    case full
    then have "gs_results s \<noteq> []" using L by auto
    then obtain w where w: "heap_peek (gs_results s) = Some w" "heap_pop (gs_results s) = Some (w, remove1 w (gs_results s))"
      "w \<in> set (gs_results s)" "\<forall>c \<in> set (gs_results s). c \<le> w" by (rule heap_pop_max)
    show ?thesis
    proof (cases "w \<le> ?c")
      case True
      have "found n L dist (?st(m := 1)) (gs_results s) (gs_frontier s)" using full w(4) True by (intro found_reject[OF I(3) m]) auto
      then have "found n L dist (look_state vs1) (gs_results s) (gs_frontier s)" by (rule found_states) (use vs1(3) in auto)
      moreover have "insert_candidate ?c L s = Inr ?s1" using run1 L full w(1) True by (simp add: insert_candidate_def)
      ultimately show ?thesis using vs1 I(1) m by (intro exI[of _ ?s1]) (auto simp: search_inv_def grows_def)
    next
      case False
      obtain e where e: "e < n" "?st e = 2 \<or> ?st e = 3" "w = scored dist e" using foundD(3)[OF I(3)] w(3) by auto
      have em: "e \<noteq> m" "unat (sn_id w) = e" using e m(2) I(1) by (auto simp: scored_node(1))
      obtain vs2 where vs2: "mark_visited e vs1 = Inr vs2" "states_ok n vs2" "\<forall>k < n. look_state vs2 k = (if k = e then 1 else look_state vs1 k)"
        using states.visit_law[OF vs1(2) e(1)] by blast
      let ?s2 = "s\<lparr>gs_results := remove1 w (gs_results s), gs_visit_states := vs2\<rparr>"
      have "found n L dist ((node_state ?s2)(m := 2)) (?c # gs_results ?s2) (?c # gs_frontier ?s2)"
        using found_states[OF found_evict[OF I(3,1) m full e(1)], of "(look_state vs2)(m := 2)"] w(3,4) e(3) False vs1(3) vs2(3) by simp
      from retain_candidate[OF I(1) _ m(1) _ this] obtain s' where s': "bind_res (on_states (mark_retained (unat (sn_id ?c)))
          (?s2\<lparr>gs_results := ?c # gs_results ?s2, gs_frontier := ?c # gs_frontier ?s2\<rparr>)) (compact_frontier L) = Inr s'"
        "search_inv n L dist s'" "\<forall>k < n. node_state s' k = (if k = m then 2 else node_state ?s2 k)" using vs1(3) vs2(2,3) m(1) em(1) by auto
      have "insert_candidate ?c L s = Inr s'"
        using run1 L full w(1,2) False s'(1) vs2(1) em(2) by (simp add: insert_candidate_def evict_worst_def on_states_def)
      then show ?thesis using s'(2,3) vs1(3) vs2(3) m e by (intro exI[of _ s']) (auto simp: grows_def)
    qed
  qed
qed

section \<open>The loop\<close>

text \<open>The nodes reached from a node along neighbours that exist.\<close>

inductive reaches :: "u32 list list \<Rightarrow> nat \<Rightarrow> nat \<Rightarrow> bool" for adj and entry where
  reaches_entry: "entry < length adj \<Longrightarrow> reaches adj entry entry"
| reaches_step: "reaches adj entry a \<Longrightarrow> x \<in> set (adj ! a) \<Longrightarrow> unat x < length adj \<Longrightarrow> reaches adj entry (unat x)"

lemma reaches_less: "reaches adj entry a \<Longrightarrow> a < length adj"
  by (induction rule: reaches.induct) auto

lemma visit_neighbor_keeps:
  assumes inv: "search_inv n L dist s" and L: "0 < L" and d: "\<forall>k < n. distance k = Inr (dist k)"
  shows "\<exists>s'. visit_neighbor n distance L x s = Inr s' \<and> search_inv n L dist s' \<and> grows n s s' \<and> (unat x < n \<longrightarrow> node_state s' (unat x) \<noteq> 0)
    \<and> (\<forall>k < n. node_state s' k \<noteq> 0 \<longrightarrow> node_state s k \<noteq> 0 \<or> k = unat x)"
proof (cases "unat x < n \<and> node_state s (unat x) = 0")
  case True
  have ok: "states_ok n (gs_visit_states s)" using inv by (simp add: search_inv_def)
  have "ScoredNode x (dist (unat x)) = scored dist (unat x)" by (simp add: scored_def)
  then show ?thesis using insert_candidate_keeps[OF inv _ _ L, of "unat x"] True read_states(1)[OF ok, of "unat x"] d by (auto simp: visit_neighbor_def)
next
  case False
  have "states_ok n (gs_visit_states s)" using inv by (simp add: search_inv_def)
  then have "visit_neighbor n distance L x s = Inr s" using False read_states(1)[of n "gs_visit_states s" "unat x"] by (auto simp: visit_neighbor_def not_less)
  then show ?thesis using inv False by (intro exI[of _ s]) auto
qed

lemma visit_neighbors_keep:
  assumes "search_inv n L dist s" "0 < L" "\<forall>k < n. distance k = Inr (dist k)"
  shows "\<exists>s'. fold_res (visit_neighbor n distance L) xs s = Inr s' \<and> search_inv n L dist s' \<and> grows n s s'
    \<and> (\<forall>x \<in> set xs. unat x < n \<longrightarrow> node_state s' (unat x) \<noteq> 0) \<and> (\<forall>k < n. node_state s' k \<noteq> 0 \<longrightarrow> node_state s k \<noteq> 0 \<or> k \<in> unat ` set xs)"
  using assms(1)
proof (induction xs arbitrary: s)
  case (Cons x xs)
  obtain s1 where s1: "visit_neighbor n distance L x s = Inr s1" "search_inv n L dist s1" "grows n s s1" "unat x < n \<longrightarrow> node_state s1 (unat x) \<noteq> 0"
    "\<forall>k < n. node_state s1 k \<noteq> 0 \<longrightarrow> node_state s k \<noteq> 0 \<or> k = unat x" using visit_neighbor_keeps[OF Cons.prems assms(2,3)] by blast
  obtain s2 where s2: "fold_res (visit_neighbor n distance L) xs s1 = Inr s2" "search_inv n L dist s2" "grows n s1 s2"
    "\<forall>x \<in> set xs. unat x < n \<longrightarrow> node_state s2 (unat x) \<noteq> 0" "\<forall>k < n. node_state s2 k \<noteq> 0 \<longrightarrow> node_state s1 k \<noteq> 0 \<or> k \<in> unat ` set xs"
    using Cons.IH[OF s1(2)] by blast
  have "unat x < n \<longrightarrow> node_state s2 (unat x) \<noteq> 0" using s1(4) s2(3) by (simp add: grows_def)
  then show ?case using s1(1,5) s2 grows_trans[OF s1(3) s2(3)] by (intro exI[of _ s2]) auto
qed auto

lemma heap_pop_min:
  fixes h :: "'a::linorder list"
  assumes "h \<noteq> []"
  obtains m where "heap_pop_least h = Some (m, remove1 m h)" "m \<in> set h"
  by (rule that[of "Min (set h)"]) (use assms in \<open>simp_all add: heap_pop_least_def Let_def\<close>)

definition popped :: "nat \<Rightarrow> (nat \<Rightarrow> f32) \<Rightarrow> (nat \<Rightarrow> u8) \<Rightarrow> ScoredNode option \<Rightarrow> ScoredNode list \<Rightarrow> bool" where
  "popped n dist st r frontier = (case r of
     None \<Rightarrow> \<forall>m < n. st m \<noteq> 2
   | Some c \<Rightarrow> \<exists>m < n. c = scored dist m \<and> st m = 2 \<and> (\<forall>j < n. st j = 2 \<longrightarrow> j \<noteq> m \<longrightarrow> scored dist j \<in> set frontier))"

text \<open>Popping leaves the results and states; it returns a waiting node, which leaves the frontier, or there is none.\<close>

lemma pop_nearest_keeps:
  assumes "search_inv n L dist s" "length (gs_frontier s) \<le> k"
  shows "\<exists>r fr. pop_nearest k s = Inr (r, s\<lparr>gs_frontier := fr\<rparr>) \<and> set fr \<subseteq> set (gs_frontier s) \<and> popped n dist (node_state s) r fr"
  using assms
proof (induction k arbitrary: s)
  case 0
  then show ?case by (intro exI[of _ None] exI[of _ "[]"]) (auto simp: search_inv_def found_def popped_def)
next
  case (Suc k)
  let ?fr = "gs_frontier s"
  have I: "n \<le> 2 ^ 32" "states_ok n (gs_visit_states s)" "found n L dist (node_state s) (gs_results s) ?fr" using Suc.prems(1) by (auto simp: search_inv_def)
  show ?case
  proof (cases "?fr = []")
    case True
    have "s = s\<lparr>gs_frontier := []\<rparr>" using True by (cases s) simp
    then show ?thesis using True foundD(6)[OF I(3)] by (intro exI[of _ None] exI[of _ "[]"]) (auto simp: heap_pop_least_def popped_def)
  next
    case False
    then obtain c where c: "heap_pop_least ?fr = Some (c, remove1 c ?fr)" "c \<in> set ?fr" by (rule heap_pop_min)
    let ?m = "unat (sn_id c)" and ?s = "s\<lparr>gs_frontier := remove1 c ?fr\<rparr>"
    have m: "?m < n" "c = scored dist ?m" using found_ids[OF I(3,1) c(2)] by auto
    note read = read_states(2)[OF I(2) m(1)]
    have sub: "set (remove1 c ?fr) \<subseteq> set ?fr" by (rule set_remove1_subset)
    have rest: "scored dist j \<in> set (remove1 c ?fr)" if "j < n" "node_state s j = 2" "j \<noteq> ?m" for j
    proof -
      have "scored dist j \<noteq> c" using scored_inj[of j ?m dist] that m I(1) by auto
      then show ?thesis using foundD(6)[OF I(3)] that by simp
    qed
    show ?thesis
    proof (cases "node_state s ?m = 2")
      case True
      then show ?thesis using c(1) read sub rest m by (intro exI[of _ "Some c"] exI[of _ "remove1 c ?fr"]) (auto simp: popped_def)
    next
      case False
      have "found n L dist (node_state s) (gs_results s) (remove1 c ?fr)" by (rule found_frontier[OF I(3) sub]) (use rest False in auto)
      then have "search_inv n L dist ?s" using I by (simp add: search_inv_def)
      moreover have "length (gs_frontier ?s) \<le> k" using c(2) Suc.prems(2) by (simp add: length_remove1)
      ultimately obtain r fr where r: "pop_nearest k ?s = Inr (r, s\<lparr>gs_frontier := fr\<rparr>)" "set fr \<subseteq> set (remove1 c ?fr)"
        "popped n dist (node_state s) r fr"
        using Suc.IH[of ?s] by auto
      then show ?thesis using c(1) read False sub by (intro exI[of _ r] exI[of _ fr]) (auto simp: Let_def)
    qed
  qed
qed

definition open_nodes :: "nat \<Rightarrow> GreedySearchScratch \<Rightarrow> nat set" where
  "open_nodes n s = {k. k < n \<and> (node_state s k = 0 \<or> node_state s k = 2)}"

lemma finite_open [simp]: "finite (open_nodes n s)" and card_open: "card (open_nodes n s) \<le> n"
  using card_mono[of "{..<n}" "open_nodes n s"] by (auto simp: open_nodes_def)

lemma grows_open: "grows n s s' \<Longrightarrow> open_nodes n s' \<subseteq> open_nodes n s"
  by (auto simp: grows_def open_nodes_def)

text \<open>Between rounds: every node visited is reached from the entry node, which is visited, and the neighbours
  of an expanded node are visited.\<close>

definition explored :: "u32 list list \<Rightarrow> nat \<Rightarrow> GreedySearchScratch \<Rightarrow> bool" where
  "explored adj entry s \<longleftrightarrow> node_state s entry \<noteq> 0 \<and> (\<forall>m < length adj. node_state s m \<noteq> 0 \<longrightarrow> reaches adj entry m)
     \<and> (\<forall>m < length adj. node_state s m = 3 \<longrightarrow> (\<forall>x \<in> set (adj ! m). unat x < length adj \<longrightarrow> node_state s (unat x) \<noteq> 0))"

lemma mark_expanded_keeps:
  assumes inv: "search_inv n L dist s" and p: "popped n dist (node_state s) (Some c) fr" "set fr \<subseteq> set (gs_frontier s)"
  shows "\<exists>m s'. m < n \<and> unat (sn_id c) = m \<and> node_state s m = 2 \<and> on_states (mark_expanded m) (s\<lparr>gs_frontier := fr\<rparr>) = Inr s' \<and> search_inv n L dist s'
    \<and> (\<forall>k < n. node_state s' k = (if k = m then 3 else node_state s k))"
proof -
  have I: "n \<le> 2 ^ 32" "states_ok n (gs_visit_states s)" "found n L dist (node_state s) (gs_results s) (gs_frontier s)" using inv by (auto simp: search_inv_def)
  obtain m where m: "m < n" "c = scored dist m" "node_state s m = 2" "\<forall>j < n. node_state s j = 2 \<longrightarrow> j \<noteq> m \<longrightarrow> scored dist j \<in> set fr"
    using p(1) by (auto simp: popped_def)
  obtain vs where vs: "mark_state 3 m (gs_visit_states s) = Inr vs" "states_ok n vs" "\<forall>k < n. look_state vs k = (if k = m then 3 else node_state s k)"
    using states.put_law[OF I(2) m(1), of 3] m(3) by auto
  have same: "{k. k < n \<and> (look_state vs k = 2 \<or> look_state vs k = 3)} = {k. k < n \<and> (node_state s k = 2 \<or> node_state s k = 3)}" using vs(3) m(1,3) by (auto split: if_splits)
  have "found n L dist (look_state vs) (gs_results s) fr" unfolding found_def same using foundD[OF I(3)] m(4) vs(3) p(2) by auto
  then show ?thesis using m(1-3) vs I(1)
    by (intro exI[of _ m] exI[of _ "s\<lparr>gs_frontier := fr, gs_visit_states := vs\<rparr>"]) (simp add: on_states_def mark_expanded_def search_inv_def scored_node(1))
qed

lemma expand_round:
  fixes adj :: "u32 list list"
  defines "n \<equiv> length adj"
  assumes inv: "search_inv n L dist s" and L: "0 < L" and d: "\<forall>k < n. distance k = Inr (dist k)" and ex: "explored adj entry s" "entry < n"
    and p: "popped n dist (node_state s) (Some c) fr" "set fr \<subseteq> set (gs_frontier s)"
  shows "\<exists>s2 s3. unat (sn_id c) < n \<and> on_states (mark_expanded (unat (sn_id c))) (s\<lparr>gs_frontier := fr\<rparr>) = Inr s2
    \<and> fold_res (visit_neighbor n distance L) (adj ! unat (sn_id c)) s2 = Inr s3
    \<and> search_inv n L dist s3 \<and> explored adj entry s3 \<and> card (open_nodes n s3) < card (open_nodes n s)"
proof -
  obtain m s2 where s2: "m < n" "unat (sn_id c) = m" "node_state s m = 2" "on_states (mark_expanded m) (s\<lparr>gs_frontier := fr\<rparr>) = Inr s2"
    "search_inv n L dist s2" "\<forall>k < n. node_state s2 k = (if k = m then 3 else node_state s k)" using mark_expanded_keeps[OF inv p] by blast
  obtain s3 where s3: "fold_res (visit_neighbor n distance L) (adj ! m) s2 = Inr s3" "search_inv n L dist s3" "grows n s2 s3"
    "\<forall>x \<in> set (adj ! m). unat x < n \<longrightarrow> node_state s3 (unat x) \<noteq> 0" "\<forall>k < n. node_state s3 k \<noteq> 0 \<longrightarrow> node_state s2 k \<noteq> 0 \<or> k \<in> unat ` set (adj ! m)"
    using visit_neighbors_keep[OF s2(5) L d] by blast
  note ex' = ex(1)[unfolded explored_def, folded n_def]
  have reach_m: "reaches adj entry m" using ex' s2(1,3) by simp
  have vis: "node_state s3 k \<noteq> 0" if "k < n" "node_state s k \<noteq> 0" for k using s3(3) s2(6) that by (auto simp: grows_def split: if_splits)
  have reach: "reaches adj entry k" if "k < n" "node_state s3 k \<noteq> 0" for k
  proof (cases "node_state s2 k \<noteq> 0")
    case True
    then show ?thesis using s2(6) ex' that reach_m by (cases "k = m") auto
  next
    case False
    then have "k \<in> unat ` set (adj ! m)" using s3(5) that by blast
    then obtain x where "x \<in> set (adj ! m)" "k = unat x" by auto
    then show ?thesis using reaches_step[OF reach_m] that by (simp add: n_def)
  qed
  have exp: "node_state s3 (unat x) \<noteq> 0" if "k < n" "node_state s3 k = 3" "x \<in> set (adj ! k)" "unat x < n" for k x
  proof (cases "k = m")
    case True
    then show ?thesis using s3(4) that by simp
  next
    case False
    then have "node_state s k = 3" using s3(3) s2(6) that by (auto simp: grows_def)
    then show ?thesis using ex' that vis by simp
  qed
  have "explored adj entry s3" using reach exp vis[OF ex(2)] ex' by (simp add: explored_def n_def)
  moreover have "card (open_nodes n s3) < card (open_nodes n s)"
  proof (rule psubset_card_mono)
    have "open_nodes n s2 = open_nodes n s - {m}" using s2(6) by (auto simp: open_nodes_def split: if_splits)
    moreover have "m \<in> open_nodes n s" using s2(1,3) by (simp add: open_nodes_def)
    ultimately show "open_nodes n s3 \<subset> open_nodes n s" using grows_open[OF s3(3)] by blast
  qed simp
  ultimately show ?thesis using s2(1,2,4) s3(1,2) by auto
qed

lemma expand_loop_ends:
  fixes adj :: "u32 list list"
  defines "n \<equiv> length adj"
  assumes inv: "search_inv n L dist s" and L: "0 < L" and d: "\<forall>k < n. distance k = Inr (dist k)" and nb: "\<forall>k < n. neighbors k = Inr (adj ! k)"
    and ex: "explored adj entry s" "entry < n" and fuel: "card (open_nodes n s) < fuel"
  shows "\<exists>s'. expand_loop fuel n neighbors distance L s = Inr s' \<and> search_inv n L dist s' \<and> explored adj entry s' \<and> (\<forall>m < n. node_state s' m \<noteq> 2)"
  using inv ex(1) fuel
proof (induction fuel arbitrary: s)
  case (Suc fuel)
  obtain r fr where r: "pop_nearest_unexpanded s = Inr (r, s\<lparr>gs_frontier := fr\<rparr>)" "set fr \<subseteq> set (gs_frontier s)" "popped n dist (node_state s) r fr"
    using pop_nearest_keeps[OF Suc.prems(1) order.refl] by (auto simp: pop_nearest_unexpanded_def)
  show ?case
  proof (cases r)
    case None
    have I: "n \<le> 2 ^ 32" "states_ok n (gs_visit_states s)" "found n L dist (node_state s) (gs_results s) (gs_frontier s)" using Suc.prems(1) by (auto simp: search_inv_def)
    have "\<forall>m < n. node_state s m \<noteq> 2" using r(3) None by (simp add: popped_def)
    moreover from this have "found n L dist (node_state s) (gs_results s) fr" by (intro found_frontier[OF I(3) r(2)]) simp
    ultimately show ?thesis using r(1) None Suc.prems(2) I by (auto simp: search_inv_def explored_def)
  next
    case (Some c)
    obtain s2 s3 where s3: "unat (sn_id c) < n" "on_states (mark_expanded (unat (sn_id c))) (s\<lparr>gs_frontier := fr\<rparr>) = Inr s2"
      "fold_res (visit_neighbor n distance L) (adj ! unat (sn_id c)) s2 = Inr s3" "search_inv n L dist s3" "explored adj entry s3" "card (open_nodes n s3) < card (open_nodes n s)"
      using expand_round[of adj L dist s distance entry c fr, folded n_def, OF Suc.prems(1) L d Suc.prems(2) ex(2) r(3)[unfolded Some] r(2)] by blast
    have "card (open_nodes n s3) < fuel" using s3(6) Suc.prems(3) by simp
    then show ?thesis using Suc.IH[OF s3(4,5)] r(1) Some s3(1-3) nb by auto
  qed
qed simp

section \<open>The scratch does not matter\<close>

text \<open>Two scratches that agree on the state of every node, on the results and on the frontier, whatever table
  holds the states, are taken to such scratches by every operation.\<close>

definition alike :: "nat \<Rightarrow> GreedySearchScratch \<Rightarrow> GreedySearchScratch \<Rightarrow> bool" where
  "alike n s s' \<longleftrightarrow> states_ok n (gs_visit_states s) \<and> states_ok n (gs_visit_states s') \<and> (\<forall>k < n. node_state s k = node_state s' k)
     \<and> gs_results s = gs_results s' \<and> gs_frontier s = gs_frontier s' \<and> (\<forall>c \<in> set (gs_results s) \<union> set (gs_frontier s). unat (sn_id c) < n)"

abbreviation both :: "('a \<Rightarrow> 'b \<Rightarrow> bool) \<Rightarrow> 'a res \<Rightarrow> 'b res \<Rightarrow> bool" where
  "both \<equiv> rel_sum (=)"

lemma both_bind: "both R x y \<Longrightarrow> (\<And>a b. R a b \<Longrightarrow> both S (f a) (g b)) \<Longrightarrow> both S (bind_res x f) (bind_res y g)"
  by (cases x; cases y) auto

lemma both_same: "both R x y \<Longrightarrow> x = Inr a \<Longrightarrow> \<exists>b. y = Inr b \<and> R a b"
  by (cases y) auto

lemma alike_visit:
  assumes "alike n s s'" "node < n"
  shows "both (\<lambda>a b. alike n a b \<and> node_state a node = 1) (on_states (mark_visited node) s) (on_states (mark_visited node) s')"
proof -
  have ok: "states_ok n (gs_visit_states s)" "states_ok n (gs_visit_states s')" using assms(1) by (simp_all add: alike_def)
  from states.visit_law[OF ok(1) assms(2)] states.visit_law[OF ok(2) assms(2)] show ?thesis using assms by (auto simp: on_states_def alike_def)
qed

lemma alike_put:
  assumes "alike n s s'" "node < n" "node_state s node \<noteq> 0" "v \<noteq> 0"
  shows "both (alike n) (on_states (mark_state v node) s) (on_states (mark_state v node) s')"
proof -
  have "node_state s' node \<noteq> 0" using assms(1-3) by (simp add: alike_def)
  moreover have ok: "states_ok n (gs_visit_states s)" "states_ok n (gs_visit_states s')" using assms(1) by (simp_all add: alike_def)
  ultimately show ?thesis using states.put_law[OF ok(1) assms(2-4)] states.put_law[OF ok(2) assms(2) _ assms(4)] assms(1) by (auto simp: on_states_def alike_def)
qed

lemma alike_compact:
  assumes "alike n s s'"
  shows "both (alike n) (compact_frontier L s) (compact_frontier L s')"
proof -
  have fr: "\<forall>c \<in> set (gs_frontier s). unat (sn_id c) < n" and A: "states_ok n (gs_visit_states s)" "states_ok n (gs_visit_states s')" "gs_frontier s' = gs_frontier s"
    "\<forall>k < n. node_state s k = node_state s' k" using assms by (auto simp: alike_def)
  have "filter (\<lambda>c. node_state s' (unat (sn_id c)) = 2) (gs_frontier s) = filter (\<lambda>c. node_state s (unat (sn_id c)) = 2) (gs_frontier s)"
    using fr A(4) by (intro filter_cong) auto
  then show ?thesis using retain_frontier_eq[OF A(1) fr] retain_frontier_eq[OF A(2) fr] assms by (auto simp: compact_frontier_def alike_def)
qed

lemma alike_evict:
  assumes "alike n s s'" "0 < L" "node_state s node \<noteq> 0" "node < n"
  shows "both (\<lambda>a b. alike n a b \<and> node_state a node \<noteq> 0) (evict_worst L s) (evict_worst L s')"
proof (cases "length (gs_results s) = L")
  case True
  then have "gs_results s \<noteq> []" using assms(2) by auto
  then obtain w where w: "heap_pop (gs_results s) = Some (w, remove1 w (gs_results s))" "w \<in> set (gs_results s)" by (rule heap_pop_max)
  let ?t = "s\<lparr>gs_results := remove1 w (gs_results s)\<rparr>" and ?t' = "s'\<lparr>gs_results := remove1 w (gs_results s')\<rparr>"
  have t: "alike n ?t ?t'" "unat (sn_id w) < n" using assms(1) w(2) set_remove1_subset[of w "gs_results s"] by (auto simp: alike_def)
  obtain v where "mark_visited (unat (sn_id w)) (gs_visit_states s) = Inr v" "\<forall>m < n. look_state v m = (if m = unat (sn_id w) then 1 else node_state s m)"
    using states.visit_law[of n "gs_visit_states s" "unat (sn_id w)"] t(2) assms(1) by (auto simp: alike_def)
  moreover have "gs_results s' = gs_results s" using assms(1) by (simp add: alike_def)
  ultimately show ?thesis using alike_visit[OF t] True w(1) assms(3,4) by (auto simp: evict_worst_def on_states_def elim!: rel_sum.cases)
next
  case False
  then show ?thesis using assms by (auto simp: evict_worst_def alike_def)
qed

lemma alike_insert:
  assumes "alike n s s'" "unat (sn_id c) < n"
  shows "both (alike n) (insert_candidate c L s) (insert_candidate c L s')"
  unfolding insert_candidate_def
proof (rule both_bind[OF alike_visit[OF assms]])
  fix a b assume ab: "alike n a b \<and> node_state a (unat (sn_id c)) = 1"
  then have res: "gs_results b = gs_results a" "gs_frontier b = gs_frontier a" by (simp_all add: alike_def)
  have retain: "both (alike n) (bind_res (on_states (mark_retained (unat (sn_id c))) (x\<lparr>gs_results := c # gs_results x, gs_frontier := c # gs_frontier x\<rparr>)) (compact_frontier L))
      (bind_res (on_states (mark_retained (unat (sn_id c))) (y\<lparr>gs_results := c # gs_results y, gs_frontier := c # gs_frontier y\<rparr>)) (compact_frontier L))"
    if xy: "alike n x y \<and> node_state x (unat (sn_id c)) \<noteq> 0" for x y
  proof (rule both_bind)
    have "alike n (x\<lparr>gs_results := c # gs_results x, gs_frontier := c # gs_frontier x\<rparr>) (y\<lparr>gs_results := c # gs_results y, gs_frontier := c # gs_frontier y\<rparr>)"
      using xy assms(2) by (simp add: alike_def)
    from alike_put[OF this assms(2), of 2] xy
    show "both (alike n) (on_states (mark_retained (unat (sn_id c))) (x\<lparr>gs_results := c # gs_results x, gs_frontier := c # gs_frontier x\<rparr>))
      (on_states (mark_retained (unat (sn_id c))) (y\<lparr>gs_results := c # gs_results y, gs_frontier := c # gs_frontier y\<rparr>))" by (simp add: mark_retained_def)
  qed (rule alike_compact)
  show "both (alike n)
     (if L = 0 then Inr a else if length (gs_results a) = L \<and> (case heap_peek (gs_results a) of None \<Rightarrow> False | Some worst \<Rightarrow> worst \<le> c) then Inr a
      else bind_res (evict_worst L a) (\<lambda>s1. bind_res (on_states (mark_retained (unat (sn_id c))) (s1\<lparr>gs_results := c # gs_results s1, gs_frontier := c # gs_frontier s1\<rparr>)) (compact_frontier L)))
     (if L = 0 then Inr b else if length (gs_results b) = L \<and> (case heap_peek (gs_results b) of None \<Rightarrow> False | Some worst \<Rightarrow> worst \<le> c) then Inr b
      else bind_res (evict_worst L b) (\<lambda>s1. bind_res (on_states (mark_retained (unat (sn_id c))) (s1\<lparr>gs_results := c # gs_results s1, gs_frontier := c # gs_frontier s1\<rparr>)) (compact_frontier L)))"
  proof (cases "L = 0 \<or> length (gs_results a) = L \<and> (case heap_peek (gs_results a) of None \<Rightarrow> False | Some worst \<Rightarrow> worst \<le> c)")
    case False
    have "both (alike n) (bind_res (evict_worst L a) (\<lambda>s1. bind_res (on_states (mark_retained (unat (sn_id c))) (s1\<lparr>gs_results := c # gs_results s1, gs_frontier := c # gs_frontier s1\<rparr>)) (compact_frontier L)))
      (bind_res (evict_worst L b) (\<lambda>s1. bind_res (on_states (mark_retained (unat (sn_id c))) (s1\<lparr>gs_results := c # gs_results s1, gs_frontier := c # gs_frontier s1\<rparr>)) (compact_frontier L)))"
      by (rule both_bind[OF alike_evict retain]) (use ab assms(2) False in auto)
    then show ?thesis using False res by auto
  qed (use ab res in auto)
qed

lemma alike_neighbors:
  assumes "alike n s s'"
  shows "both (alike n) (fold_res (visit_neighbor n distance L) xs s) (fold_res (visit_neighbor n distance L) xs s')"
  using assms
proof (induction xs arbitrary: s s')
  case (Cons x xs)
  have "both (alike n) (visit_neighbor n distance L x s) (visit_neighbor n distance L x s')"
  proof (cases "unat x < n")
    case True
    have ok: "states_ok n (gs_visit_states s)" "states_ok n (gs_visit_states s')" "node_state s (unat x) = node_state s' (unat x)" using Cons.prems True by (simp_all add: alike_def)
    show ?thesis using read_states(1)[OF ok(1) True] read_states(1)[OF ok(2) True] ok(3) Cons.prems True alike_insert[OF Cons.prems, of "ScoredNode x _" L]
      by (cases "distance (unat x)") (auto simp: visit_neighbor_def)
  qed (use Cons.prems in \<open>simp add: visit_neighbor_def not_less\<close>)
  then show ?case using Cons.IH by (auto intro: both_bind)
qed simp

lemma alike_pop:
  assumes "alike n s s'"
  shows "both (\<lambda>(r, a) (r', b). r = r' \<and> alike n a b \<and> (\<forall>c. r = Some c \<longrightarrow> unat (sn_id c) < n \<and> node_state a (unat (sn_id c)) \<noteq> 0)) (pop_nearest k s) (pop_nearest k s')"
  using assms
proof (induction k arbitrary: s s')
  case (Suc k)
  have fr: "gs_frontier s' = gs_frontier s" using Suc.prems by (simp add: alike_def)
  show ?case
  proof (cases "gs_frontier s = []")
    case False
    then obtain c where c: "heap_pop_least (gs_frontier s) = Some (c, remove1 c (gs_frontier s))" "c \<in> set (gs_frontier s)" by (rule heap_pop_min)
    let ?t = "s\<lparr>gs_frontier := remove1 c (gs_frontier s)\<rparr>" and ?t' = "s'\<lparr>gs_frontier := remove1 c (gs_frontier s)\<rparr>"
    have m: "unat (sn_id c) < n" using Suc.prems c(2) by (auto simp: alike_def)
    have t: "alike n ?t ?t'" using Suc.prems set_remove1_subset[of c "gs_frontier s"] by (auto simp: alike_def)
    have read: "is_retained_unexpanded (unat (sn_id c)) (gs_visit_states s) = Inr (node_state s (unat (sn_id c)) = 2)"
      "is_retained_unexpanded (unat (sn_id c)) (gs_visit_states s') = Inr (node_state s (unat (sn_id c)) = 2)"
      using read_states(2)[OF _ m] Suc.prems m by (simp_all add: alike_def)
    show ?thesis using c(1) fr read m t Suc.IH[OF t] by (cases "node_state s (unat (sn_id c)) = 2") (simp_all add: Let_def)
  qed (use Suc.prems fr in \<open>simp add: heap_pop_least_def\<close>)
qed simp

lemma alike_expand:
  assumes "alike n s s'"
  shows "both (alike n) (expand_loop fuel n neighbors distance L s) (expand_loop fuel n neighbors distance L s')"
  using assms
proof (induction fuel arbitrary: s s')
  case (Suc fuel)
  have fr: "length (gs_frontier s') = length (gs_frontier s)" using Suc.prems by (simp add: alike_def)
  show ?case unfolding expand_loop.simps pop_nearest_unexpanded_def fr
  proof (rule both_bind[OF alike_pop[OF Suc.prems]])
    fix p q assume pq: "(\<lambda>(r, a) (r', b). r = r' \<and> alike n a b \<and> (\<forall>c. r = Some c \<longrightarrow> unat (sn_id c) < n \<and> node_state a (unat (sn_id c)) \<noteq> 0)) p q"
    obtain r a b where r: "p = (r, a)" "q = (r, b)" "alike n a b" "\<forall>c. r = Some c \<longrightarrow> unat (sn_id c) < n \<and> node_state a (unat (sn_id c)) \<noteq> 0"
      using pq by (cases p; cases q) auto
    show "both (alike n) (case p of (None, s1) \<Rightarrow> Inr s1 | (Some c, s1) \<Rightarrow> bind_res (on_states (mark_expanded (unat (sn_id c))) s1) (\<lambda>s2. bind_res (neighbors (unat (sn_id c)))
          (\<lambda>ns. bind_res (fold_res (visit_neighbor n distance L) ns s2) (expand_loop fuel n neighbors distance L))))
        (case q of (None, s1) \<Rightarrow> Inr s1 | (Some c, s1) \<Rightarrow> bind_res (on_states (mark_expanded (unat (sn_id c))) s1) (\<lambda>s2. bind_res (neighbors (unat (sn_id c)))
          (\<lambda>ns. bind_res (fold_res (visit_neighbor n distance L) ns s2) (expand_loop fuel n neighbors distance L))))"
    proof (cases r)
      case (Some c)
      have "both (alike n) (on_states (mark_expanded (unat (sn_id c))) a) (on_states (mark_expanded (unat (sn_id c))) b)"
        using alike_put[OF r(3), of "unat (sn_id c)" 3] r(4) Some by (simp add: mark_expanded_def)
      then show ?thesis unfolding r(1,2) Some prod.case option.case
        by (rule both_bind) (cases "neighbors (unat (sn_id c))"; auto intro!: both_bind[OF alike_neighbors] Suc.IH)
    qed (use r in simp)
  qed
qed simp

lemma alike_search:
  assumes "alike n s s'" "unat entry < n"
  shows "both (alike n) (search_from entry n neighbors distance L s) (search_from entry n neighbors distance L s')"
  unfolding search_from_def
  by (cases "distance (unat entry)") (auto intro!: both_bind[OF alike_insert[OF assms(1)]] alike_expand simp: assms(2))

lemma begin_search_eq:
  assumes "states_ok n (gs_visit_states s)"
  shows "\<exists>a. begin_search s = Inr a \<and> states_ok n (gs_visit_states a) \<and> (\<forall>k < n. node_state a k = 0) \<and> gs_results a = [] \<and> gs_frontier a = []"
  using states.clear_law[OF assms] by (auto simp: begin_search_def)

text \<open>What earlier searches left in a scratch, and how it holds its states, does not change what a search finds.\<close>

lemma begin_search_alike:
  assumes "states_ok n (gs_visit_states s)" "states_ok n (gs_visit_states s')"
  shows "both (alike n) (begin_search s) (begin_search s')"
  using begin_search_eq[OF assms(1)] begin_search_eq[OF assms(2)] by (auto simp: alike_def)

section \<open>The result\<close>

text \<open>What a search promises: at most \<open>L\<close> different nodes reached from the entry node, with their distances. The
  entry node and every neighbour of a result are among them, unless \<open>L\<close> results are at least as near. When
  \<open>L\<close> nodes at most can be reached, all of them are found.\<close>

definition search_result :: "u32 list list \<Rightarrow> nat \<Rightarrow> (nat \<Rightarrow> f32) \<Rightarrow> nat \<Rightarrow> ScoredNode list \<Rightarrow> bool" where
  "search_result adj L dist entry results \<longleftrightarrow> distinct results \<and> length results \<le> L \<and> set results \<subseteq> scored dist ` {m. reaches adj entry m}
     \<and> (\<forall>m < length adj. m = entry \<or> (\<exists>c \<in> set results. word_of_nat m \<in> set (adj ! unat (sn_id c))) \<longrightarrow>
          scored dist m \<in> set results \<or> length results = L \<and> (\<forall>c \<in> set results. c \<le> scored dist m))
     \<and> (card {m. reaches adj entry m} \<le> L \<longrightarrow> set results = scored dist ` {m. reaches adj entry m})"

lemma finite_reaches [simp]: "finite {m. reaches adj entry m}"
  by (rule finite_subset[of _ "{..<length adj}"]) (auto dest: reaches_less)

lemma search_ended:
  fixes adj :: "u32 list list"
  defines "n \<equiv> length adj"
  assumes inv: "search_inv n L dist s" and ex: "explored adj entry s" "entry < n" and fin: "\<forall>m < n. node_state s m \<noteq> 2"
  shows "search_result adj L dist entry (gs_results s)"
proof -
  let ?st = "node_state s" and ?R = "{m. reaches adj entry m}"
  have n: "n \<le> 2 ^ 32" and f: "found n L dist ?st (gs_results s) (gs_frontier s)" using inv by (auto simp: search_inv_def)
  note F = foundD[OF f]
  note E = ex(1)[unfolded explored_def, folded n_def]
  have res: "set (gs_results s) = scored dist ` {m. m < n \<and> ?st m = 3}" using F(3) fin by auto
  have kept: "scored dist m \<in> set (gs_results s) \<or> length (gs_results s) = L \<and> (\<forall>c \<in> set (gs_results s). c \<le> scored dist m)" if "m < n" "?st m \<noteq> 0" for m
    using F(5,7) res fin that by blast
  have near: "?st m \<noteq> 0" if m: "m < n" and nr: "m = entry \<or> (\<exists>c \<in> set (gs_results s). word_of_nat m \<in> set (adj ! unat (sn_id c)))" for m
  proof (cases "m = entry")
    case False
    then obtain k where k: "k < n" "?st k = 3" "word_of_nat m \<in> set (adj ! k)" using nr res n by (auto simp: scored_node(1))
    have "unat (word_of_nat m :: u32) = m" using m n unat_node[of m] by simp
    then show ?thesis using E k m by fastforce
  qed (use E in simp)
  have sub: "{m. m < n \<and> ?st m = 3} \<subseteq> ?R" using E by auto
  have all: "?R \<subseteq> {m. m < n \<and> ?st m = 3}" if card: "card ?R \<le> L"
  proof -
    have inj: "inj_on (scored dist) {..<n}" using scored_inj n by (intro inj_onI) auto
    have len: "length (gs_results s) = card {m. m < n \<and> ?st m = 3}"
      using distinct_card[OF F(1)] res card_image[OF inj_on_subset[OF inj], of "{m. m < n \<and> ?st m = 3}"] by auto
    have no1: "?st m \<noteq> 1" if "m < n" for m
    proof
      assume one: "?st m = 1"
      then have "m \<in> ?R" "m \<notin> {m. m < n \<and> ?st m = 3}" "length (gs_results s) = L" using E F(7) that by auto
      then have "card {m. m < n \<and> ?st m = 3} < card ?R" using sub by (intro psubset_card_mono) auto
      then show False using len card \<open>length (gs_results s) = L\<close> by simp
    qed
    have "m < n \<and> ?st m = 3" if "reaches adj entry m" for m using that
    proof (induction rule: reaches.induct)
      case reaches_entry
      then show ?case using E F(5) no1 fin ex(2) by metis
    next
      case (reaches_step a x)
      then have "?st (unat x) \<noteq> 0" "unat x < n" using E by (auto simp: n_def)
      then show ?case using F(5) no1 fin by metis
    qed
    then show ?thesis by blast
  qed
  show ?thesis unfolding search_result_def n_def[symmetric]
  proof (intro conjI)
    show "card ?R \<le> L \<longrightarrow> set (gs_results s) = scored dist ` ?R" using all sub res by (metis subset_antisym)
  qed (use F(1,2) res sub kept near in blast)+
qed

lemma search_from_result:
  fixes adj :: "u32 list list"
  defines "n \<equiv> length adj"
  assumes n: "n \<le> 2 ^ 32" and L: "0 < L" and d: "\<forall>k < n. distance k = Inr (dist k)" and nb: "\<forall>k < n. neighbors k = Inr (adj ! k)"
    and s: "states_ok n (gs_visit_states s)" "\<forall>k < n. node_state s k = 0" "gs_results s = []" "gs_frontier s = []" and e: "unat entry < n"
  shows "\<exists>s'. search_from entry n neighbors distance L s = Inr s' \<and> states_ok n (gs_visit_states s') \<and> search_result adj L dist (unat entry) (gs_results s')"
proof -
  have inv: "search_inv n L dist s" using n s by (auto simp: search_inv_def found_def)
  have c: "ScoredNode entry (dist (unat entry)) = scored dist (unat entry)" by (simp add: scored_def)
  obtain s1 where s1: "insert_candidate (scored dist (unat entry)) L s = Inr s1" "search_inv n L dist s1" "grows n s s1"
    "\<forall>k < n. node_state s1 k \<noteq> 0 \<longleftrightarrow> k = unat entry \<or> node_state s k \<noteq> 0" using insert_candidate_keeps[OF inv e _ L] s(2) e by blast
  have "node_state s1 m \<noteq> 3" if "m < n" for m using s1(3) s(2) that by (auto simp: grows_def)
  then have ex: "explored adj (unat entry) s1" using s1(4) s(2) e reaches_entry[of "unat entry" adj] by (auto simp: explored_def n_def)
  have fuel: "card (open_nodes n s1) < n + 1" using card_open[of n s1] by simp
  obtain s' where s': "expand_loop (n + 1) n neighbors distance L s1 = Inr s'" "search_inv n L dist s'" "explored adj (unat entry) s'" "\<forall>m < n. node_state s' m \<noteq> 2"
    using expand_loop_ends[of adj L dist s1 distance neighbors "unat entry" "n + 1", folded n_def, OF s1(2) L d nb ex e fuel] by blast
  have "search_result adj L dist (unat entry) (gs_results s')" using search_ended[of adj L dist s' "unat entry", folded n_def] s'(2-4) e by simp
  then show ?thesis using s'(1,2) s1(1) d e c by (simp add: search_from_def search_inv_def)
qed

definition query_gap :: "arch \<Rightarrow> f32 list \<Rightarrow> nat \<Rightarrow> MetricType \<Rightarrow> f32 list \<Rightarrow> nat \<Rightarrow> f32" where
  "query_gap t vectors d metric query node = (case fvec_distance t (row_of d vectors node) query metric of Inr x \<Rightarrow> x | Inl _ \<Rightarrow> f32_NAN)"

lemma node_distance_eq:
  assumes "length vectors = n * d" "node < n" "length query = d"
  shows "node_distance t vectors d node query metric = Inr (query_gap t vectors d metric query node)"
proof -
  have "length (row_of d vectors node) = length query" using length_row_of[OF assms(1,2)] assms(3) by simp
  then obtain x where "fvec_distance t (row_of d vectors node) query metric = Inr x" using fvec_distance_total by blast
  then show ?thesis using subslice_row[OF assms(1,2)] by (simp add: node_distance_def query_gap_def)
qed

lemma scratch_new_ok:
  assumes "n < 2 ^ 30"
  shows "\<exists>s. scratch_new n max_degree L = Inr s \<and> states_ok n (gs_visit_states s)"
proof -
  let ?e = "min (saturating_add (saturating_mul L max_degree) 1) n"
  have dense: "states_ok n (Dense (replicate n 0) [])" using assms by (simp add: states_ok_def dense_ok_def)
  have "?e < 2 ^ 30" using assms by simp
  from with_capacity_inv[OF this, of 0] obtain t :: "u8 SparseTable" where t: "with_capacity 0 ?e = Inr t" "table_inv t" "occupied (st_keys t) = {}" by blast
  then have "states_ok n (Sparse t)" using assms by (auto simp: states_ok_def sparse_ok_def holds_def)
  then show ?thesis using dense t(1) by (simp add: scratch_new_def Let_def)
qed

lemma search_with_scratch:
  assumes ok: "ca_ok (vg_adjacency g)" and n: "ca_node_count (vg_adjacency g) = n" "n < 2 ^ 30" and e: "unat (vg_entry_node g) < n"
    and v: "length vectors = n * d" "length query = d" and L: "0 < L" and s: "states_ok n (gs_visit_states s)"
  shows "\<exists>s'. greedy_search_with_scratch t vectors d metric query L s g = Inr s' \<and> states_ok n (gs_visit_states s')
    \<and> search_result (ca_adj (vg_adjacency g)) L (query_gap t vectors d metric query) (unat (vg_entry_node g)) (gs_results s')"
proof -
  obtain a where a: "begin_search s = Inr a" "states_ok n (gs_visit_states a)" "\<forall>k < n. node_state a k = 0" "gs_results a = []" "gs_frontier a = []"
    using begin_search_eq[OF s] by blast
  have len: "length (ca_adj (vg_adjacency g)) = n" using n(1) by simp
  have "\<exists>s'. search_from (vg_entry_node g) n (\<lambda>node. ca_neighbors node (vg_adjacency g)) (\<lambda>node. node_distance t vectors d node query metric) L a = Inr s'
    \<and> states_ok n (gs_visit_states s') \<and> search_result (ca_adj (vg_adjacency g)) L (query_gap t vectors d metric query) (unat (vg_entry_node g)) (gs_results s')"
    unfolding len[symmetric]
  proof (rule search_from_result)
    show "\<forall>k < length (ca_adj (vg_adjacency g)). ca_neighbors k (vg_adjacency g) = Inr (ca_adj (vg_adjacency g) ! k)" using compact.reads[OF ok] by simp
    show "\<forall>k < length (ca_adj (vg_adjacency g)). node_distance t vectors d k query metric = Inr (query_gap t vectors d metric query k)"
      using node_distance_eq[OF v(1) _ v(2)] len by simp
  qed (use n e L a in auto)
  then show ?thesis using n e L a(1) by (simp add: greedy_search_with_scratch_def)
qed

lemma hd_sort_Min: "xs \<noteq> [] \<Longrightarrow> sort xs \<noteq> [] \<and> hd (sort xs) = Min (set xs)"
proof -
  assume "xs \<noteq> []"
  then obtain y ys where y: "sort xs = y # ys" by (cases "sort xs") (auto dest: arg_cong[where f = length])
  then have "set xs = insert y (set ys)" "\<forall>z \<in> set ys. y \<le> z" using set_sort[of "\<lambda>x. x" xs] sorted_sort[of xs] by auto
  then show ?thesis using y by (simp add: Min_insert2)
qed

lemma search_result_sort: "search_result adj L dist entry results \<Longrightarrow> search_result adj L dist entry (sort results)"
  by (simp add: search_result_def)

lemma search_same_results:
  assumes "ca_node_count (vg_adjacency g) = n" "unat (vg_entry_node g) < n" "states_ok n (gs_visit_states s)" "states_ok n (gs_visit_states s')"
  shows "both (alike n) (greedy_search_with_scratch t vectors d metric query L s g) (greedy_search_with_scratch t vectors d metric query L s' g)"
  unfolding greedy_search_with_scratch_def assms(1) by (rule both_bind[OF begin_search_alike[OF assms(3,4)]]) (simp add: alike_search assms(2))

text \<open>C14: On a well-formed graph a greedy search ends without an error. It returns, nearest first, at most L different
  nodes that are reached from the entry node, each with its distance to the query. The entry node and
  every neighbour of a returned node is returned too, unless L returned nodes are at least as near; and
  when no more than L nodes can be reached, all of them are returned. A search that reuses a scratch, in
  whatever state earlier searches left it, returns the nearest node of what a fresh search returns.\<close>
theorem greedy_search_finds:
  assumes "ca_ok (vg_adjacency g)" "ca_node_count (vg_adjacency g) = n" "n < 2 ^ 30" "unat (vg_entry_node g) < n"
    and "length vectors = n * d" "length query = d" "0 < L" "states_ok n (gs_visit_states scratch)"
  shows "\<exists>r. greedy_search_with_metric t vectors d metric query L g = Inr r \<and> sorted r \<and> r \<noteq> []
    \<and> search_result (ca_adj (vg_adjacency g)) L (query_gap t vectors d metric query) (unat (vg_entry_node g)) r
    \<and> (metric = L2 \<longrightarrow> (\<exists>s'. greedy_search_best_with_scratch t vectors d query L scratch g = Inr (Some (hd r), s') \<and> states_ok n (gs_visit_states s')))"
proof -
  obtain s where s: "search_scratch L g = Inr s" "states_ok n (gs_visit_states s)"
    using scratch_new_ok[OF assms(3), of "ca_max_degree (vg_adjacency g)" "min L n"] assms(2) by (auto simp: search_scratch_def)
  obtain s1 where s1: "greedy_search_with_scratch t vectors d metric query L s g = Inr s1"
    "search_result (ca_adj (vg_adjacency g)) L (query_gap t vectors d metric query) (unat (vg_entry_node g)) (gs_results s1)"
    using search_with_scratch[OF assms(1-7) s(2), of t metric] by blast
  have ne: "gs_results s1 \<noteq> []"
  proof
    assume empty: "gs_results s1 = []"
    have "unat (vg_entry_node g) < length (ca_adj (vg_adjacency g))" using assms(2,4) by simp
    then show False using s1(2) assms(7) unfolding search_result_def empty by auto
  qed
  have run: "greedy_search_with_metric t vectors d metric query L g = Inr (sort (gs_results s1))" using s(1) s1(1) by (simp add: greedy_search_with_metric_def)
  obtain s2 where s2: "greedy_search_with_scratch t vectors d metric query L scratch g = Inr s2" "alike n s1 s2"
    using both_same[OF search_same_results[OF assms(2,4) s(2) assms(8), of t vectors d metric query L] s1(1)] by blast
  have "gs_results s2 = gs_results s1" "states_ok n (gs_visit_states s2)" using s2(2) by (simp_all add: alike_def)
  then have best: "metric = L2 \<longrightarrow> (\<exists>s'. greedy_search_best_with_scratch t vectors d query L scratch g = Inr (Some (hd (sort (gs_results s1))), s') \<and> states_ok n (gs_visit_states s'))"
    using s2(1) ne hd_sort_Min[OF ne] by (auto simp: greedy_search_best_with_scratch_def)
  show ?thesis using run best search_result_sort[OF s1(2)] hd_sort_Min[OF ne] by (intro exI[of _ "sort (gs_results s1)"]) simp
qed

theorem greedy_search_finds_witness:
  "\<exists>ca r. ca_from_nested [[1], [0]] 1 = Inr ca
     \<and> greedy_search_with_metric OtherArch [f32_zero, f32_one] 1 L2 [f32_one] 2 \<lparr>vg_entry_node = 0, vg_adjacency = ca\<rparr> = Inr r \<and> sorted r \<and> length r = 2"
proof -
  obtain ca where ca: "ca_from_nested [[1], [0 :: u32]] 1 = Inr ca" "ca_ok ca" "ca_adj ca = [[1], [0]]" "ca_node_count ca = 2"
    using ca_from_nested_eq[of 1 "[[1], [0 :: u32]]"] by auto
  let ?g = "\<lparr>vg_entry_node = 0, vg_adjacency = ca\<rparr>" and ?R = "{m. reaches [[1], [0]] 0 m}" and ?D = "query_gap OtherArch [f32_zero, f32_one] 1 L2 [f32_one]"
  have ok: "states_ok 2 (Dense [0, 0] [])" by (auto simp: states_ok_def dense_ok_def less_2_cases_iff)
  obtain r where r: "greedy_search_with_metric OtherArch [f32_zero, f32_one] 1 L2 [f32_one] 2 ?g = Inr r" "sorted r" "search_result [[1], [0]] 2 ?D 0 r"
    using greedy_search_finds[of ?g 2 "[f32_zero, f32_one]" 1 "[f32_one]" 2 "\<lparr>gs_visit_states = Dense [0, 0] [], gs_results = [], gs_frontier = []\<rparr>" OtherArch L2] ca ok by auto
  have zero: "reaches [[1], [0]] 0 0" by (rule reaches_entry) simp
  have "reaches [[1], [0]] 0 1" using reaches_step[OF zero, of 1] by simp
  moreover have "x = 0 \<or> x = 1" if "reaches [[1], [0]] 0 x" for x using reaches_less[OF that] by auto
  ultimately have R: "?R = {0, 1}" using zero by auto
  have "card (scored ?D ` ?R) = 2" unfolding R using scored_inj[of 0 1 ?D] by simp
  moreover have "set r = scored ?D ` ?R" "distinct r" using r(3) unfolding search_result_def R by auto
  ultimately have "length r = 2" using distinct_card[of r] by simp
  then show ?thesis using ca(1) r(1,2) by blast
qed

end
