(* ===== verification/Vamana_Repair.thy ===== *)
theory Vamana_Repair
  imports Vamana_Search
begin

text \<open>
  Reachability in a Vamana graph and the repair of its connectivity (\<open>core/src/vamana.rs\<close>): breadth-first
  traversals, the choice of a source with a free or replaceable edge, and the loop that links every
  unreachable node. The repair is shown to succeed on every valid graph and to keep it valid.
\<close>

section \<open>Traversals\<close>

text \<open>One neighbour in the traversal of \<open>is_fully_reachable\<close>, which passes over ids out of range.\<close>

definition reach_neighbor :: "u32 \<Rightarrow> bool list \<times> nat list \<Rightarrow> (bool list \<times> nat list) res" where
  "reach_neighbor neighbor = (\<lambda>(visited, queue).
     if unat neighbor < length visited \<and> \<not> visited ! unat neighbor
     then Inr (visited[unat neighbor := True], queue @ [unat neighbor]) else Inr (visited, queue))"

fun reach_loop :: "nat \<Rightarrow> CompactAdjacency \<Rightarrow> bool list \<times> nat list \<Rightarrow> bool list res" where
  "reach_loop 0 ca s = Inl Diverge"
| "reach_loop (Suc fuel) ca (visited, []) = Inr visited"
| "reach_loop (Suc fuel) ca (visited, node # queue) =
     bind_res (ca_neighbors node ca) (\<lambda>ns.
     bind_res (fold_res reach_neighbor ns (visited, queue)) (\<lambda>s. reach_loop fuel ca s))"

text \<open>A node enters a queue when it is first visited, so the traversals below take from it at most as often as
  there are nodes.\<close>

definition is_fully_reachable :: "VamanaGraph \<Rightarrow> bool res" where
  "is_fully_reachable g =
     (let n = ca_node_count (vg_adjacency g); entry = unat (vg_entry_node g) in
      if n = 0 \<or> n \<le> entry then Inr False
      else bind_res (reach_loop (n + 1) (vg_adjacency g) ((replicate n False)[entry := True], [entry])) (\<lambda>visited. Inr (list_all (\<lambda>v. v) visited)))"

text \<open>The traversal that keeps parents, with the list of nodes it visited. An id out of range panics.\<close>

definition tree_neighbor :: "nat \<Rightarrow> u32 \<Rightarrow> bool list \<times> nat option list \<times> nat list \<times> nat list \<Rightarrow> (bool list \<times> nat option list \<times> nat list \<times> nat list) res" where
  "tree_neighbor node neighbor = (\<lambda>(visited, parent, queue, newly_reachable).
     bind_res (idx visited (unat neighbor)) (\<lambda>seen.
     if seen then Inr (visited, parent, queue, newly_reachable)
     else bind_res (set_idx parent (unat neighbor) (Some node)) (\<lambda>parent'.
       Inr (visited[unat neighbor := True], parent', queue @ [unat neighbor], newly_reachable @ [unat neighbor]))))"

fun tree_loop :: "nat \<Rightarrow> CompactAdjacency \<Rightarrow> bool list \<times> nat option list \<times> nat list \<times> nat list \<Rightarrow> (bool list \<times> nat option list \<times> nat list) res" where
  "tree_loop 0 ca s = Inl Diverge"
| "tree_loop (Suc fuel) ca (visited, parent, [], newly_reachable) = Inr (visited, parent, newly_reachable)"
| "tree_loop (Suc fuel) ca (visited, parent, node # queue, newly_reachable) =
     bind_res (ca_neighbors node ca) (\<lambda>ns.
     bind_res (fold_res (tree_neighbor node) ns (visited, parent, queue, newly_reachable)) (\<lambda>s. tree_loop fuel ca s))"

text \<open>The traversal from the entry node keeps no list of visited nodes; it is dropped here.\<close>

definition reachability_tree :: "VamanaGraph \<Rightarrow> (bool list \<times> nat option list) res" where
  "reachability_tree g =
     (let n = ca_node_count (vg_adjacency g); entry = unat (vg_entry_node g) in
      bind_res (set_idx (replicate n False) entry True) (\<lambda>visited.
      bind_res (tree_loop (n + 1) (vg_adjacency g) (visited, replicate n None, [entry], [])) (\<lambda>(visited', parent, _). Inr (visited', parent))))"

section \<open>Repair\<close>

definition CONNECTIVITY_SOURCE_SAMPLE_SIZE :: nat where
  "CONNECTIVITY_SOURCE_SAMPLE_SIZE = 64"

record ConnectivityRepairStats =
  cr_full_reachability_traversals :: nat
  cr_source_distance_evaluations :: nat
  cr_edges_added :: nat

definition derived_seed :: "u64 \<Rightarrow> u64 \<Rightarrow> u64" where
  "derived_seed seed stream =
     (let v0 = seed XOR (stream * 0x9E3779B97F4A7C15);
          v1 = (v0 XOR drop_bit 30 v0) * 0xBF58476D1CE4E5B9;
          v2 = (v1 XOR drop_bit 27 v1) * 0x94D049BB133111EB in
      v2 XOR drop_bit 31 v2)"

fun any_res :: "('a \<Rightarrow> bool res) \<Rightarrow> 'a list \<Rightarrow> bool res" where
  "any_res f [] = Inr False"
| "any_res f (x # xs) = bind_res (f x) (\<lambda>b. if b then Inr True else any_res f xs)"

definition is_repair_source :: "nat \<Rightarrow> nat \<Rightarrow> nat option list \<Rightarrow> CompactAdjacency \<Rightarrow> bool res" where
  "is_repair_source source max_degree parent ca =
     bind_res (ca_neighbors source ca) (\<lambda>ns.
     if length ns < max_degree then Inr True
     else any_res (\<lambda>neighbor. bind_res (idx parent (unat neighbor)) (\<lambda>p. Inr (p \<noteq> Some source))) ns)"

text \<open>One sampled source: the best so far and the number of distances evaluated.\<close>

definition repair_sample ::
  "arch \<Rightarrow> f32 list \<Rightarrow> nat \<Rightarrow> f32 list \<Rightarrow> nat \<Rightarrow> nat option list \<Rightarrow> nat list \<Rightarrow> MetricType \<Rightarrow> CompactAdjacency \<Rightarrow> nat \<Rightarrow> nat
   \<Rightarrow> (nat \<times> nat \<times> f32) option \<times> nat \<Rightarrow> ((nat \<times> nat \<times> f32) option \<times> nat) res" where
  "repair_sample t vectors dimension target_vector max_degree parent eligible_sources metric ca start offset = (\<lambda>(best, evaluations).
     let index = (start + offset) mod length eligible_sources in
     bind_res (idx eligible_sources index) (\<lambda>source.
     bind_res (is_repair_source source max_degree parent ca) (\<lambda>eligible.
     if \<not> eligible then Inr (best, evaluations)
     else bind_res (node_distance t vectors dimension source target_vector metric) (\<lambda>distance.
       let better = (case best of None \<Rightarrow> True
         | Some (_, best_source, best_distance) \<Rightarrow> distance < best_distance \<or> distance = best_distance \<and> source < best_source) in
       Inr (if better then Some (index, source, distance) else best, evaluations + 1)))))"

fun first_repair_source :: "nat \<Rightarrow> nat option list \<Rightarrow> CompactAdjacency \<Rightarrow> nat \<Rightarrow> nat list \<Rightarrow> (nat \<times> nat) option res" where
  "first_repair_source max_degree parent ca index [] = Inr None"
| "first_repair_source max_degree parent ca index (source # sources) =
     bind_res (is_repair_source source max_degree parent ca) (\<lambda>eligible.
     if eligible then Inr (Some (index, source)) else first_repair_source max_degree parent ca (index + 1) sources)"

definition select_repair_source ::
  "arch \<Rightarrow> f32 list \<Rightarrow> nat \<Rightarrow> nat \<Rightarrow> f32 list \<Rightarrow> nat \<Rightarrow> nat option list \<Rightarrow> nat list \<Rightarrow> ConnectivityRepairStats \<Rightarrow> MetricType \<Rightarrow> CompactAdjacency
   \<Rightarrow> ((nat \<times> nat) \<times> ConnectivityRepairStats) res" where
  "select_repair_source t vectors dimension target target_vector max_degree parent eligible_sources stats metric ca =
     (if eligible_sources = [] then Inl (Err InvalidData)
      else let sample_size = min CONNECTIVITY_SOURCE_SAMPLE_SIZE (length eligible_sources);
               start = unat (derived_seed (word_of_nat target) (word_of_nat (cr_edges_added stats))) mod length eligible_sources in
        bind_res (fold_res (repair_sample t vectors dimension target_vector max_degree parent eligible_sources metric ca start)
            [0..<sample_size] (None, cr_source_distance_evaluations stats)) (\<lambda>(best, evaluations).
        let stats' = stats\<lparr>cr_source_distance_evaluations := evaluations\<rparr> in
        case best of
          Some (index, source, _) \<Rightarrow> Inr ((index, source), stats')
        | None \<Rightarrow>
            bind_res (first_repair_source max_degree parent ca 0 eligible_sources) (\<lambda>r.
            bind_res (ok_or (Err InvalidData) r) (\<lambda>chosen. Inr (chosen, stats')))))"

text \<open>The edge to give up: of the neighbours that do not have the source as parent, the farthest one, and of
  those the one in the last slot.\<close>

definition farther_edge ::
  "arch \<Rightarrow> f32 list \<Rightarrow> nat \<Rightarrow> MetricType \<Rightarrow> nat option list \<Rightarrow> nat \<Rightarrow> nat \<times> u32 \<Rightarrow> (nat \<times> f32) option \<Rightarrow> (nat \<times> f32) option res" where
  "farther_edge t vectors dimension metric parent source = (\<lambda>(slot, neighbor) best.
     bind_res (idx parent (unat neighbor)) (\<lambda>p.
     if p = Some source then Inr best
     else bind_res (subslice (source * dimension) (source * dimension + dimension) vectors) (\<lambda>source_vector.
       bind_res (node_distance t vectors dimension (unat neighbor) source_vector metric) (\<lambda>distance.
         Inr (case best of None \<Rightarrow> Some (slot, distance)
            | Some (best_slot, best_distance) \<Rightarrow>
                if best_distance < distance \<or> best_distance = distance \<and> best_slot \<le> slot then Some (slot, distance) else best)))))"

definition drop_farthest_edge ::
  "arch \<Rightarrow> f32 list \<Rightarrow> nat \<Rightarrow> MetricType \<Rightarrow> nat option list \<Rightarrow> nat \<Rightarrow> CompactAdjacency \<Rightarrow> CompactAdjacency res" where
  "drop_farthest_edge t vectors dimension metric parent source ca =
     bind_res (ca_neighbors source ca) (\<lambda>ns.
     bind_res (fold_res (farther_edge t vectors dimension metric parent source) (enumerate 0 ns) None) (\<lambda>best.
     bind_res (ok_or Panic best) (\<lambda>(removable, _). ca_swap_remove source removable ca)))"

definition vec_swap_remove :: "nat \<Rightarrow> 'a list \<Rightarrow> 'a list res" where
  "vec_swap_remove i xs = (if i < length xs then Inr (swap_remove i xs) else Inl Panic)"

text \<open>The variables of the repair loop.\<close>

record repair_state =
  rp_adjacency :: CompactAdjacency
  rp_visited :: "bool list"
  rp_parent :: "nat option list"
  rp_eligible_sources :: "nat list"
  rp_stats :: ConnectivityRepairStats

fun keep_sources :: "nat \<Rightarrow> nat option list \<Rightarrow> CompactAdjacency \<Rightarrow> nat list \<Rightarrow> nat list res" where
  "keep_sources max_degree parent ca [] = Inr []"
| "keep_sources max_degree parent ca (node # nodes) =
     bind_res (is_repair_source node max_degree parent ca) (\<lambda>eligible.
     bind_res (keep_sources max_degree parent ca nodes) (\<lambda>rest. Inr (if eligible then node # rest else rest)))"

text \<open>One round, which links the unvisited node \<open>target\<close> from the best sampled source.\<close>

definition repair_round ::
  "arch \<Rightarrow> f32 list \<Rightarrow> nat \<Rightarrow> nat \<Rightarrow> MetricType \<Rightarrow> nat \<Rightarrow> repair_state \<Rightarrow> repair_state res" where
  "repair_round t vectors dimension max_degree metric target s =
     (let ca = rp_adjacency s; parent = rp_parent s in
      bind_res (subslice (target * dimension) (target * dimension + dimension) vectors) (\<lambda>target_vector.
      bind_res (select_repair_source t vectors dimension target target_vector max_degree parent (rp_eligible_sources s) (rp_stats s) metric ca) (\<lambda>((source_index, source), stats).
      bind_res (vec_swap_remove source_index (rp_eligible_sources s)) (\<lambda>eligible_sources.
      bind_res (ca_neighbors source ca) (\<lambda>ns.
      bind_res (if length ns = max_degree then drop_farthest_edge t vectors dimension metric parent source ca else Inr ca) (\<lambda>ca1.
      bind_res (ca_push source (word_of_nat target) ca1) (\<lambda>ca2.
      bind_res (set_idx (rp_visited s) target True) (\<lambda>visited.
      bind_res (set_idx parent target (Some source)) (\<lambda>parent'.
      bind_res (tree_loop (length visited + 1) ca2 (visited, parent', [target], [target])) (\<lambda>(visited', parent'', newly_reachable).
      bind_res (keep_sources max_degree parent'' ca2 (source # newly_reachable)) (\<lambda>fresh.
        Inr \<lparr>rp_adjacency = ca2, rp_visited = visited', rp_parent = parent'', rp_eligible_sources = eligible_sources @ fresh,
             rp_stats = stats\<lparr>cr_edges_added := cr_edges_added stats + 1\<rparr>\<rparr>)))))))))))"

text \<open>\<open>while target_cursor < visited.len() && visited[target_cursor]\<close>.\<close>

definition next_unvisited :: "bool list \<Rightarrow> nat \<Rightarrow> nat" where
  "next_unvisited visited cursor = cursor + length (takeWhile (\<lambda>v. v) (drop cursor visited))"

fun repair_loop ::
  "nat \<Rightarrow> arch \<Rightarrow> f32 list \<Rightarrow> nat \<Rightarrow> nat \<Rightarrow> MetricType \<Rightarrow> nat \<Rightarrow> repair_state \<Rightarrow> repair_state res" where
  "repair_loop 0 t vectors dimension max_degree metric cursor s = Inl Diverge"
| "repair_loop (Suc fuel) t vectors dimension max_degree metric cursor s =
     (let target = next_unvisited (rp_visited s) cursor in
      if target = length (rp_visited s) then Inr s
      else bind_res (repair_round t vectors dimension max_degree metric target s) (\<lambda>s'.
        repair_loop fuel t vectors dimension max_degree metric target s'))"

text \<open>Every round visits another node.\<close>

definition repair_connectivity_with_stats ::
  "arch \<Rightarrow> f32 list \<Rightarrow> nat \<Rightarrow> nat \<Rightarrow> MetricType \<Rightarrow> VamanaGraph \<Rightarrow> (ConnectivityRepairStats \<times> VamanaGraph) res" where
  "repair_connectivity_with_stats t vectors dimension max_degree metric g =
     (let ca = vg_adjacency g in
      bind_res (reachability_tree g) (\<lambda>(visited, parent).
      bind_res (keep_sources max_degree parent ca (filter (\<lambda>node. visited ! node) [0..<length visited])) (\<lambda>eligible_sources.
      bind_res (repair_loop (length visited + 1) t vectors dimension max_degree metric 0
          \<lparr>rp_adjacency = ca, rp_visited = visited, rp_parent = parent, rp_eligible_sources = eligible_sources,
           rp_stats = \<lparr>cr_full_reachability_traversals = 1, cr_source_distance_evaluations = 0, cr_edges_added = 0\<rparr>\<rparr>) (\<lambda>s.
        Inr (rp_stats s, g\<lparr>vg_adjacency := rp_adjacency s\<rparr>)))))"

definition repair_connectivity ::
  "arch \<Rightarrow> f32 list \<Rightarrow> nat \<Rightarrow> nat \<Rightarrow> MetricType \<Rightarrow> VamanaGraph \<Rightarrow> VamanaGraph res" where
  "repair_connectivity t vectors dimension max_degree metric g =
     bind_res (repair_connectivity_with_stats t vectors dimension max_degree metric g) (\<lambda>(_, g'). Inr g')"

definition robust_prune_with_metric ::
  "arch \<Rightarrow> f32 list \<Rightarrow> nat \<Rightarrow> MetricType \<Rightarrow> nat \<Rightarrow> u32 list \<Rightarrow> nat \<Rightarrow> f32 \<Rightarrow> VamanaGraph \<Rightarrow> u32 list res" where
  "robust_prune_with_metric t vectors dimension metric node candidates max_degree alpha g =
     bind_res (ca_neighbors node (vg_adjacency g)) (\<lambda>current.
       robust_prune_candidates t vectors dimension node candidates current (ca_node_count (vg_adjacency g)) max_degree alpha metric)"

definition robust_prune :: "arch \<Rightarrow> f32 list \<Rightarrow> nat \<Rightarrow> nat \<Rightarrow> u32 list \<Rightarrow> nat \<Rightarrow> f32 \<Rightarrow> VamanaGraph \<Rightarrow> u32 list res" where
  "robust_prune t vectors dimension node candidates max_degree alpha g =
     robust_prune_with_metric t vectors dimension L2 node candidates max_degree alpha g"

text \<open>The checks of \<open>validate\<close> on one node.\<close>

definition validate_node :: "nat \<Rightarrow> nat \<Rightarrow> nat \<times> u32 list \<Rightarrow> unit \<Rightarrow> unit res" where
  "validate_node node_count max_degree = (\<lambda>(node, neighbors) _.
     if max_degree < length neighbors then Inl (Err InvalidInput)
     else let sorted = sort neighbors in
       if list_ex (\<lambda>(a, b). a = b) (zip sorted (drop 1 sorted)) then Inl (Err InvalidInput)
       else if list_ex (\<lambda>neighbor. node_count \<le> unat neighbor \<or> unat neighbor = node) sorted then Inl (Err InvalidInput)
       else Inr ())"

definition validate_graph :: "nat \<Rightarrow> VamanaGraph \<Rightarrow> unit res" where
  "validate_graph max_degree g =
     bind_res (ca_iter (vg_adjacency g)) (\<lambda>rows.
       fold_res (validate_node (ca_node_count (vg_adjacency g)) max_degree) (enumerate 0 rows) ())"

section \<open>Trees of parents\<close>

definition valid_adj :: "nat \<Rightarrow> u32 list list \<Rightarrow> bool" where
  "valid_adj md adj \<longleftrightarrow> (\<forall>a < length adj. length (adj ! a) \<le> md \<and> distinct (adj ! a) \<and> (\<forall>x \<in> set (adj ! a). unat x < length adj \<and> unat x \<noteq> a))"

text \<open>The nodes that hang from the entry node by their parents.\<close>

inductive hangs :: "nat option list \<Rightarrow> nat \<Rightarrow> nat \<Rightarrow> bool" for parent and entry where
  hangs_entry: "hangs parent entry entry"
| hangs_step: "hangs parent entry a \<Longrightarrow> v < length parent \<Longrightarrow> parent ! v = Some a \<Longrightarrow> hangs parent entry v"

definition tree_ok :: "nat \<Rightarrow> u32 list list \<Rightarrow> bool list \<Rightarrow> nat option list \<Rightarrow> bool" where
  "tree_ok entry adj visited parent \<longleftrightarrow> length visited = length adj \<and> length parent = length adj \<and> entry < length adj \<and> visited ! entry \<and> parent ! entry = None
     \<and> (\<forall>v < length adj. v \<noteq> entry \<longrightarrow> (visited ! v \<longleftrightarrow> parent ! v \<noteq> None))
     \<and> (\<forall>v < length adj. \<forall>p. parent ! v = Some p \<longrightarrow> p < length adj \<and> visited ! p \<and> word_of_nat v \<in> set (adj ! p))
     \<and> (\<forall>v < length adj. visited ! v \<longrightarrow> hangs parent entry v)"

lemma tree_okD:
  assumes "tree_ok entry adj visited parent"
  shows "length visited = length adj" "length parent = length adj" "entry < length adj" "visited ! entry" "parent ! entry = None"
    "\<And>v. v < length adj \<Longrightarrow> v \<noteq> entry \<Longrightarrow> visited ! v \<longleftrightarrow> parent ! v \<noteq> None"
    "\<And>v p. v < length adj \<Longrightarrow> parent ! v = Some p \<Longrightarrow> p < length adj \<and> visited ! p \<and> word_of_nat v \<in> set (adj ! p)"
    "\<And>v. v < length adj \<Longrightarrow> visited ! v \<Longrightarrow> hangs parent entry v"
  using assms unfolding tree_ok_def by blast+

lemma tree_reaches:
  assumes T: "tree_ok entry adj visited parent" and n: "length adj \<le> 2 ^ 32" and h: "hangs parent entry v"
  shows "reaches adj entry v"
  using h
proof (induction rule: hangs.induct)
  case hangs_entry
  show ?case by (rule reaches_entry) (rule tree_okD(3)[OF T])
next
  case (hangs_step a v)
  then have v: "v < length adj" using tree_okD(2)[OF T] by simp
  then have "word_of_nat v \<in> set (adj ! a)" "unat (word_of_nat v :: u32) = v" using tree_okD(7)[OF T v] hangs_step(3) n unat_node[of v] by auto
  then show ?case using reaches_step[OF hangs_step.IH, of "word_of_nat v"] v by simp
qed

lemma hangs_extend: "hangs parent entry a \<Longrightarrow> v < length parent \<Longrightarrow> parent ! v = None \<Longrightarrow> hangs (parent[v := p]) entry a"
proof (induction rule: hangs.induct)
  case (hangs_step a w)
  then have "w \<noteq> v" by auto
  then show ?case using hangs_step by (auto intro: hangs.hangs_step)
qed (rule hangs_entry)

lemma tree_visit:
  assumes T: "tree_ok entry adj visited parent" and p: "p < length adj" "visited ! p" and v: "v < length adj" "\<not> visited ! v" "word_of_nat v \<in> set (adj ! p)"
  shows "tree_ok entry adj (visited[v := True]) (parent[v := Some p])"
proof -
  note D = tree_okD[OF T]
  have ve: "v \<noteq> entry" using D(4) v(2) by auto
  have none: "parent ! v = None" using D(6)[OF v(1) ve] v(2) by simp
  have ext: "hangs (parent[v := Some p]) entry a" if "hangs parent entry a" for a using hangs_extend[OF that] none v(1) D(2) by simp
  have "hangs (parent[v := Some p]) entry v" using hangs_step[OF ext[OF D(8)[OF p]], of v] v(1) D(2) by simp
  then show ?thesis unfolding tree_ok_def using D ve p v ext by (auto simp: nth_list_update)
qed

text \<open>The visited nodes, apart from some, have only visited neighbours.\<close>

definition closed_but :: "nat set \<Rightarrow> u32 list list \<Rightarrow> bool list \<Rightarrow> bool" where
  "closed_but Q adj visited \<longleftrightarrow> (\<forall>v < length adj. visited ! v \<longrightarrow> v \<notin> Q \<longrightarrow> (\<forall>x \<in> set (adj ! v). unat x < length adj \<and> visited ! unat x))"

lemma visited_reaches:
  assumes T: "tree_ok entry adj visited parent" and c: "closed_but {} adj visited" and n: "length adj \<le> 2 ^ 32" and v: "v < length adj"
  shows "visited ! v \<longleftrightarrow> reaches adj entry v"
proof
  assume "reaches adj entry v"
  then show "visited ! v"
  proof (induction rule: reaches.induct)
    case (reaches_step a x)
    then show ?case using c reaches_less[OF reaches_step(1)] by (simp add: closed_but_def)
  qed (rule tree_okD(4)[OF T])
qed (use tree_okD(8)[OF T v] tree_reaches[OF T n] in blast)

section \<open>Traversals build them\<close>

text \<open>Visiting more nodes, and what that leaves of the visited nodes and parents.\<close>

definition spreads :: "bool list \<Rightarrow> nat option list \<Rightarrow> nat list \<Rightarrow> bool list \<Rightarrow> nat option list \<Rightarrow> bool" where
  "spreads visited parent new visited' parent' \<longleftrightarrow> length visited' = length visited \<and> distinct new \<and> (\<forall>v \<in> set new. v < length visited \<and> \<not> visited ! v)
     \<and> (\<forall>v < length visited. (visited' ! v \<longleftrightarrow> visited ! v \<or> v \<in> set new) \<and> (visited ! v \<longrightarrow> parent' ! v = parent ! v))"

lemma spreads_refl [simp]: "spreads visited parent [] visited parent"
  by (simp add: spreads_def)

lemma spreads_trans:
  assumes "spreads a pa xs b pb" "spreads b pb ys c pc"
  shows "spreads a pa (xs @ ys) c pc"
  using assms unfolding spreads_def by auto

lemma spreads_card:
  assumes "spreads visited parent new visited' parent'"
  shows "card {v. v < length visited \<and> \<not> visited' ! v} + length new = card {v. v < length visited \<and> \<not> visited ! v}"
proof -
  have S: "distinct new" "\<forall>v \<in> set new. v < length visited \<and> \<not> visited ! v" "\<forall>v < length visited. visited' ! v \<longleftrightarrow> visited ! v \<or> v \<in> set new"
    using assms by (auto simp: spreads_def)
  have "{v. v < length visited \<and> \<not> visited ! v} = {v. v < length visited \<and> \<not> visited' ! v} \<union> set new" using S(2,3) by blast
  moreover have "{v. v < length visited \<and> \<not> visited' ! v} \<inter> set new = {}" using S(3) by blast
  ultimately show ?thesis using distinct_card[OF S(1)] by (simp add: card_Un_disjoint)
qed

lemma tree_neighbors_visit:
  assumes "tree_ok entry adj visited parent" "node < length adj" "visited ! node" "set xs \<subseteq> set (adj ! node)" "\<forall>x \<in> set xs. unat x < length adj"
  shows "\<exists>visited' parent' new. fold_res (tree_neighbor node) xs (visited, parent, q, fresh) = Inr (visited', parent', q @ new, fresh @ new)
    \<and> tree_ok entry adj visited' parent' \<and> spreads visited parent new visited' parent' \<and> (\<forall>x \<in> set xs. visited' ! unat x)"
  using assms
proof (induction xs arbitrary: visited parent q fresh)
  case (Cons x xs)
  let ?v = "unat x"
  note D = tree_okD[OF Cons.prems(1)]
  have v: "?v < length adj" "word_of_nat ?v \<in> set (adj ! node)" using Cons.prems(4,5) by auto
  show ?case
  proof (cases "visited ! ?v")
    case True
    then have run: "tree_neighbor node x (visited, parent, q, fresh) = Inr (visited, parent, q, fresh)" using v(1) D(1) by (simp add: tree_neighbor_def idx_def)
    obtain visited' parent' new where IH: "fold_res (tree_neighbor node) xs (visited, parent, q, fresh) = Inr (visited', parent', q @ new, fresh @ new)"
      "tree_ok entry adj visited' parent'" "spreads visited parent new visited' parent'" "\<forall>x \<in> set xs. visited' ! unat x"
      using Cons.IH[OF Cons.prems(1-3)] Cons.prems(4,5) by fastforce
    have "visited' ! ?v" using IH(3) True v(1) D(1) by (simp add: spreads_def)
    then show ?thesis using run IH by auto
  next
    case False
    let ?vis = "visited[?v := True]" and ?par = "parent[?v := Some node]"
    have run: "tree_neighbor node x (visited, parent, q, fresh) = Inr (?vis, ?par, q @ [?v], fresh @ [?v])"
      using v(1) D(1,2) False by (simp add: tree_neighbor_def idx_def set_idx_def)
    have T: "tree_ok entry adj ?vis ?par" by (rule tree_visit[OF Cons.prems(1-3) v(1) False v(2)])
    have "?vis ! node" using Cons.prems(3) v(1) D(1) by (simp add: nth_list_update)
    from Cons.IH[OF T Cons.prems(2) this, of "q @ [?v]" "fresh @ [?v]"] Cons.prems(4,5)
    obtain visited' parent' new where IH: "fold_res (tree_neighbor node) xs (?vis, ?par, q @ [?v], fresh @ [?v]) = Inr (visited', parent', (q @ [?v]) @ new, (fresh @ [?v]) @ new)"
      "tree_ok entry adj visited' parent'" "spreads ?vis ?par new visited' parent'" "\<forall>x \<in> set xs. visited' ! unat x" by fastforce
    have one: "spreads visited parent [?v] ?vis ?par" using False v(1) D(1,2) by (auto simp: spreads_def nth_list_update)
    have "visited' ! ?v" using IH(3) v(1) D(1) by (simp add: spreads_def)
    then show ?thesis using run IH spreads_trans[OF one IH(3)] by (intro exI[of _ visited'] exI[of _ parent'] exI[of _ "?v # new"]) auto
  qed
qed auto

lemma tree_loop_ends:
  assumes ca: "ca_ok ca" and T: "tree_ok entry (ca_adj ca) visited parent" and c: "closed_but (set q) (ca_adj ca) visited"
    and q: "\<forall>v \<in> set q. v < length (ca_adj ca) \<and> visited ! v" and val: "\<forall>a < length (ca_adj ca). \<forall>x \<in> set (ca_adj ca ! a). unat x < length (ca_adj ca)"
    and fuel: "length q + card {v. v < length visited \<and> \<not> visited ! v} < fuel"
  shows "\<exists>visited' parent' new. tree_loop fuel ca (visited, parent, q, fresh) = Inr (visited', parent', fresh @ new)
    \<and> tree_ok entry (ca_adj ca) visited' parent' \<and> closed_but {} (ca_adj ca) visited' \<and> spreads visited parent new visited' parent'"
  using T c q fuel
proof (induction fuel arbitrary: visited parent q fresh)
  case (Suc fuel)
  let ?adj = "ca_adj ca"
  show ?case
  proof (cases q)
    case Nil
    then show ?thesis using Suc.prems by (intro exI[of _ visited] exI[of _ parent] exI[of _ "[]"]) simp
  next
    case (Cons node q')
    have node: "node < length ?adj" "visited ! node" using Suc.prems(3) Cons by auto
    obtain vis par new where s: "fold_res (tree_neighbor node) (?adj ! node) (visited, parent, q', fresh) = Inr (vis, par, q' @ new, fresh @ new)"
      "tree_ok entry ?adj vis par" "spreads visited parent new vis par" "\<forall>x \<in> set (?adj ! node). vis ! unat x"
      using tree_neighbors_visit[OF Suc.prems(1) node, of "?adj ! node" q' fresh] val node(1) by auto
    have len: "length visited = length ?adj" by (rule tree_okD(1)[OF Suc.prems(1)])
    have vis: "vis ! v \<longleftrightarrow> visited ! v \<or> v \<in> set new" if "v < length ?adj" for v using s(3) that len by (simp add: spreads_def)
    have new: "\<forall>v \<in> set new. v < length ?adj" using s(3) len by (simp add: spreads_def)
    have "closed_but (set (q' @ new)) ?adj vis"
      using Suc.prems(2) vis s(4) val node(1) Cons by (auto simp: closed_but_def)
    moreover have "\<forall>v \<in> set (q' @ new). v < length ?adj \<and> vis ! v" using Suc.prems(3) vis new Cons by auto
    moreover have "length (q' @ new) + card {v. v < length vis \<and> \<not> vis ! v} < fuel"
      using spreads_card[OF s(3)] Suc.prems(4) Cons len tree_okD(1)[OF s(2)] by simp
    ultimately obtain vis' par' new' where r: "tree_loop fuel ca (vis, par, q' @ new, fresh @ new) = Inr (vis', par', (fresh @ new) @ new')"
      "tree_ok entry ?adj vis' par'" "closed_but {} ?adj vis'" "spreads vis par new' vis' par'" using Suc.IH[OF s(2), of "q' @ new" "fresh @ new"] by blast
    have "tree_loop (Suc fuel) ca (visited, parent, q, fresh) = Inr (vis', par', fresh @ (new @ new'))"
      using compact.reads[OF ca node(1)] s(1) r(1) Cons by simp
    then show ?thesis using r(2,3) spreads_trans[OF s(3) r(4)] by blast
  qed
qed simp

text \<open>The test without parents follows the same traversal.\<close>

lemma reach_neighbors_follow:
  "fold_res (tree_neighbor node) xs (visited, parent, q, fresh) = Inr (visited', parent', q', fresh') \<Longrightarrow>
   fold_res reach_neighbor xs (visited, q) = Inr (visited', q')"
proof (induction xs arbitrary: visited parent q fresh)
  case (Cons x xs)
  obtain vis par q1 fr where s: "tree_neighbor node x (visited, parent, q, fresh) = Inr (vis, par, q1, fr)"
    "fold_res (tree_neighbor node) xs (vis, par, q1, fr) = Inr (visited', parent', q', fresh')" using Cons.prems by (auto simp: bind_res_eq_Inr)
  have "reach_neighbor x (visited, q) = Inr (vis, q1)" using s(1) by (auto simp: tree_neighbor_def reach_neighbor_def idx_def set_idx_def split: if_splits)
  then show ?case using Cons.IH[OF s(2)] by simp
qed simp

lemma reach_loop_follows:
  "tree_loop fuel ca (visited, parent, q, fresh) = Inr (visited', parent', fresh') \<Longrightarrow> reach_loop fuel ca (visited, q) = Inr visited'"
proof (induction fuel arbitrary: visited parent q fresh)
  case (Suc fuel)
  show ?case
  proof (cases q)
    case (Cons node q1)
    obtain ns vis par q2 fr where s: "ca_neighbors node ca = Inr ns" "fold_res (tree_neighbor node) ns (visited, parent, q1, fresh) = Inr (vis, par, q2, fr)"
      "tree_loop fuel ca (vis, par, q2, fr) = Inr (visited', parent', fresh')" using Suc.prems Cons by (auto simp: bind_res_eq_Inr)
    then show ?thesis using Suc.IH[OF s(3)] reach_neighbors_follow[OF s(2)] Cons by simp
  qed (use Suc.prems in simp)
qed simp

lemma unvisited_fuel:
  assumes "target < n" "length visited = n"
  shows "length [target] + card {v. v < n \<and> \<not> visited[target := True] ! v} < n + 1"
proof -
  have "{v. v < n \<and> \<not> visited[target := True] ! v} \<subset> {..<n}" using assms by (auto simp: nth_list_update)
  then show ?thesis using psubset_card_mono[of "{..<n}"] by simp
qed

lemma tree_start: "entry < length adj \<Longrightarrow> tree_ok entry adj ((replicate (length adj) False)[entry := True]) (replicate (length adj) None)"
  by (auto simp: tree_ok_def nth_list_update intro: hangs_entry)

lemma reachability_tree_eq:
  assumes ca: "ca_ok (vg_adjacency g)" and e: "unat (vg_entry_node g) < ca_node_count (vg_adjacency g)" and val: "valid_adj md (ca_adj (vg_adjacency g))"
  defines "adj \<equiv> ca_adj (vg_adjacency g)"
  shows "\<exists>visited parent. reachability_tree g = Inr (visited, parent) \<and> tree_ok (unat (vg_entry_node g)) adj visited parent \<and> closed_but {} adj visited
    \<and> is_fully_reachable g = Inr (list_all (\<lambda>v. v) visited)"
proof -
  let ?n = "length adj" and ?e = "unat (vg_entry_node g)"
  have e': "?e < ?n" using e by (simp add: adj_def)
  let ?vis = "(replicate ?n False)[?e := True]" and ?par = "replicate ?n None :: nat option list"
  have T: "tree_ok ?e adj ?vis ?par" by (rule tree_start[OF e'])
  have c: "closed_but (set [?e]) adj ?vis" using e' by (auto simp: closed_but_def nth_list_update)
  have v: "\<forall>a < ?n. \<forall>x \<in> set (adj ! a). unat x < ?n" using val by (simp add: valid_adj_def adj_def)
  have fuel: "length [?e] + card {v. v < length ?vis \<and> \<not> ?vis ! v} < ?n + 1" using unvisited_fuel[OF e', of "replicate ?n False"] by simp
  obtain visited parent new where r: "tree_loop (?n + 1) (vg_adjacency g) (?vis, ?par, [?e], []) = Inr (visited, parent, new)" "tree_ok ?e adj visited parent" "closed_but {} adj visited"
    using tree_loop_ends[OF ca T[unfolded adj_def] c[unfolded adj_def] _ v[unfolded adj_def] fuel[unfolded adj_def], of "[]"] e' by (auto simp: adj_def)
  have "reachability_tree g = Inr (visited, parent)" using r(1) e by (simp add: reachability_tree_def set_idx_def adj_def)
  moreover have "is_fully_reachable g = Inr (list_all (\<lambda>v. v) visited)" using reach_loop_follows[OF r(1)] e by (simp add: is_fully_reachable_def adj_def Let_def)
  ultimately show ?thesis using r(2,3) by blast
qed

text \<open>The test decides whether every node is reached from the entry node.\<close>

lemma is_fully_reachable_eq:
  assumes "ca_ok (vg_adjacency g)" "unat (vg_entry_node g) < ca_node_count (vg_adjacency g)" "valid_adj md (ca_adj (vg_adjacency g))" "ca_node_count (vg_adjacency g) \<le> 2 ^ 32"
  shows "is_fully_reachable g = Inr (\<forall>v < ca_node_count (vg_adjacency g). reaches (ca_adj (vg_adjacency g)) (unat (vg_entry_node g)) v)"
proof -
  obtain visited parent where r: "tree_ok (unat (vg_entry_node g)) (ca_adj (vg_adjacency g)) visited parent" "closed_but {} (ca_adj (vg_adjacency g)) visited"
    "is_fully_reachable g = Inr (list_all (\<lambda>v. v) visited)" using reachability_tree_eq[OF assms(1-3)] by blast
  then show ?thesis using visited_reaches[OF r(1,2)] assms(4) tree_okD(1)[OF r(1)] by (auto simp: list_all_length)
qed

section \<open>Sources\<close>

definition spare :: "nat \<Rightarrow> nat option list \<Rightarrow> u32 list list \<Rightarrow> nat \<Rightarrow> bool" where
  "spare md parent adj v \<longleftrightarrow> length (adj ! v) < md \<or> (\<exists>x \<in> set (adj ! v). parent ! unat x \<noteq> Some v)"

lemma any_res_eq: "\<forall>x \<in> set xs. f x = Inr (P x) \<Longrightarrow> any_res f xs = Inr (\<exists>x \<in> set xs. P x)"
  by (induction xs) auto

lemma is_repair_source_eq:
  assumes "ca_ok ca" "valid_adj md (ca_adj ca)" "length parent = ca_node_count ca" "v < ca_node_count ca"
  shows "is_repair_source v md' parent ca = Inr (spare md' parent (ca_adj ca) v)"
proof -
  have "\<forall>x \<in> set (ca_adj ca ! v). unat x < length parent" using assms(2-4) by (simp add: valid_adj_def)
  then have "any_res (\<lambda>x. bind_res (idx parent (unat x)) (\<lambda>p. Inr (p \<noteq> Some v))) (ca_adj ca ! v) = Inr (\<exists>x \<in> set (ca_adj ca ! v). parent ! unat x \<noteq> Some v)"
    by (intro any_res_eq) (simp add: idx_def)
  then show ?thesis using compact.reads[OF assms(1), of v] assms(4) by (simp add: is_repair_source_def spare_def)
qed

lemma keep_sources_eq:
  assumes "ca_ok ca" "valid_adj md (ca_adj ca)" "length parent = ca_node_count ca" "\<forall>v \<in> set vs. v < ca_node_count ca"
  shows "keep_sources md' parent ca vs = Inr (filter (spare md' parent (ca_adj ca)) vs)"
  using assms(4) by (induction vs) (simp_all add: is_repair_source_eq[OF assms(1-3)])

text \<open>A tree has fewer edges than nodes, so some visited node has a free slot or an edge outside the tree.\<close>

lemma some_spare:
  assumes T: "tree_ok entry adj visited parent" and c: "closed_but {} adj visited" and md: "0 < md"
  shows "\<exists>v < length adj. visited ! v \<and> spare md parent adj v"
proof (rule ccontr)
  assume none: "\<not> ?thesis"
  let ?V = "{v. v < length adj \<and> visited ! v}" and ?f = "\<lambda>v. unat (hd (adj ! v))"
  have child: "?f v \<in> ?V" "parent ! ?f v = Some v" if "v \<in> ?V" for v
  proof -
    have "md \<le> length (adj ! v)" "\<forall>x \<in> set (adj ! v). parent ! unat x = Some v" using none that by (auto simp: spare_def not_less)
    moreover from this have "hd (adj ! v) \<in> set (adj ! v)" using md by (intro hd_in_set) auto
    ultimately show "?f v \<in> ?V" "parent ! ?f v = Some v" using c that by (auto simp: closed_but_def)
  qed
  have e: "entry \<in> ?V" "parent ! entry = None" using tree_okD(3-5)[OF T] by auto
  have "?f ` ?V \<subseteq> ?V - {entry}" using child e(2) by fastforce
  moreover have "inj_on ?f ?V" using child(2) by (intro inj_onI) (metis option.inject)
  ultimately have "card ?V \<le> card (?V - {entry})" using card_inj_on_le[of ?f ?V "?V - {entry}"] by simp
  moreover have "card (?V - {entry}) < card ?V" using e(1) by (intro psubset_card_mono) auto
  ultimately show False by simp
qed

lemma repair_samples:
  assumes "\<forall>i < length sources. is_repair_source (sources ! i) md parent ca = Inr True \<and> (\<exists>x. node_distance t vectors d (sources ! i) tv metric = Inr x)"
    and "sources \<noteq> []" "case best of None \<Rightarrow> ks \<noteq> [] | Some (i, src, _) \<Rightarrow> i < length sources \<and> src = sources ! i"
  shows "\<exists>i x. fold_res (repair_sample t vectors d tv md parent sources metric ca start) ks (best, ev) = Inr (Some (i, sources ! i, x), ev + length ks) \<and> i < length sources"
  using assms(3)
proof (induction ks arbitrary: best ev)
  case (Cons k ks)
  let ?i = "(start + k) mod length sources"
  have i: "?i < length sources" using assms(2) by simp
  obtain x where x: "node_distance t vectors d (sources ! ?i) tv metric = Inr x" using assms(1) i by blast
  define better where "better = (case best of None \<Rightarrow> True | Some (_, b, bd) \<Rightarrow> x < bd \<or> x = bd \<and> sources ! ?i < b)"
  have step: "repair_sample t vectors d tv md parent sources metric ca start k (best, ev) = Inr (if better then Some (?i, sources ! ?i, x) else best, ev + 1)"
    using assms(1) i x by (simp add: repair_sample_def idx_def Let_def better_def)
  have "case (if better then Some (?i, sources ! ?i, x) else best) of None \<Rightarrow> ks \<noteq> [] | Some (i, src, _) \<Rightarrow> i < length sources \<and> src = sources ! i"
    using Cons.prems i by (cases best) (auto simp: better_def)
  from Cons.IH[OF this, of "ev + 1"] show ?case using step by (simp add: add.commute add.left_commute)
qed (auto split: option.splits)

lemma select_repair_source_eq:
  assumes "\<forall>v \<in> set sources. is_repair_source v md parent ca = Inr True \<and> (\<exists>x. node_distance t vectors d v tv metric = Inr x)" "sources \<noteq> []"
  shows "\<exists>i ev. select_repair_source t vectors d target tv md parent sources stats metric ca = Inr ((i, sources ! i), stats\<lparr>cr_source_distance_evaluations := ev\<rparr>) \<and> i < length sources"
proof -
  let ?start = "unat (derived_seed (word_of_nat target) (word_of_nat (cr_edges_added stats))) mod length sources"
    and ?ks = "[0..<min CONNECTIVITY_SOURCE_SAMPLE_SIZE (length sources)]"
  have "?ks \<noteq> []" using assms(2) by (simp add: CONNECTIVITY_SOURCE_SAMPLE_SIZE_def)
  then obtain i x where "fold_res (repair_sample t vectors d tv md parent sources metric ca ?start) ?ks (None, cr_source_distance_evaluations stats)
      = Inr (Some (i, sources ! i, x), cr_source_distance_evaluations stats + length ?ks)" "i < length sources"
    using repair_samples[of sources md parent ca t vectors d tv metric ?ks None ?start "cr_source_distance_evaluations stats"] assms by auto
  then have "select_repair_source t vectors d target tv md parent sources stats metric ca
      = Inr ((i, sources ! i), stats\<lparr>cr_source_distance_evaluations := cr_source_distance_evaluations stats + length ?ks\<rparr>)" "i < length sources"
    using assms(2) by (simp_all add: select_repair_source_def Let_def)
  then show ?thesis by blast
qed

lemma farthest_edges:
  assumes v: "length vectors = n * d" "source < n" and p: "length parent = n" and ps: "\<forall>(i, x) \<in> set ps. unat x < n \<and> i < length ns \<and> ns ! i = x"
    and b: "case best of None \<Rightarrow> \<exists>(i, x) \<in> set ps. parent ! unat x \<noteq> Some source | Some (i, _) \<Rightarrow> i < length ns \<and> parent ! unat (ns ! i) \<noteq> Some source"
  shows "\<exists>i x. fold_res (farther_edge t vectors d metric parent source) ps best = Inr (Some (i, x)) \<and> i < length ns \<and> parent ! unat (ns ! i) \<noteq> Some source"
  using ps b
proof (induction ps arbitrary: best)
  case (Cons q ps)
  obtain i x where q: "q = (i, x)" by (cases q)
  have x: "unat x < n" "i < length ns" "ns ! i = x" using Cons.prems(1) q by auto
  obtain y where y: "node_distance t vectors d (unat x) (row_of d vectors source) metric = Inr y"
    using node_distance_eq[OF v(1) x(1), of "row_of d vectors source"] length_row_of[OF v] by blast
  show ?case
  proof (cases "parent ! unat x = Some source")
    case True
    then have "farther_edge t vectors d metric parent source q best = Inr best" using x(1) p q by (simp add: farther_edge_def idx_def)
    moreover have "case best of None \<Rightarrow> \<exists>(i, x) \<in> set ps. parent ! unat x \<noteq> Some source | Some (i, _) \<Rightarrow> i < length ns \<and> parent ! unat (ns ! i) \<noteq> Some source"
      using Cons.prems(2) q True by (cases best) auto
    ultimately show ?thesis using Cons.IH[of best] Cons.prems(1) by simp
  next
    case False
    define best' where "best' = (case best of None \<Rightarrow> Some (i, y) | Some (bi, bd) \<Rightarrow> if bd < y \<or> bd = y \<and> bi \<le> i then Some (i, y) else best)"
    have "farther_edge t vectors d metric parent source q best = Inr best'"
      using x(1) p q False y subslice_row[OF v] by (simp add: farther_edge_def idx_def best'_def)
    moreover have "case best' of None \<Rightarrow> \<exists>(i, x) \<in> set ps. parent ! unat x \<noteq> Some source | Some (i, _) \<Rightarrow> i < length ns \<and> parent ! unat (ns ! i) \<noteq> Some source"
      using Cons.prems(2) x False by (cases best) (auto simp: best'_def)
    ultimately show ?thesis using Cons.IH[of best'] Cons.prems(1) by simp
  qed
qed (auto split: option.splits)

lemma mset_swap_remove:
  assumes "i < length xs"
  shows "mset (swap_remove i xs) = mset xs - {#xs ! i#}"
proof (cases xs rule: rev_cases)
  case (snoc ys z)
  show ?thesis
  proof (cases "i < length ys")
    case True
    then have "ys ! i \<in># mset ys" by simp
    then show ?thesis using True snoc by (simp add: swap_remove_def list_update_append nth_append mset_update)
  next
    case False
    then have "i = length ys" using assms snoc by simp
    then show ?thesis using snoc by (simp add: swap_remove_def)
  qed
qed (use assms in simp)

lemma swap_remove_distinct:
  assumes "i < length xs" "distinct xs"
  shows "distinct (swap_remove i xs)" "set (swap_remove i xs) = set xs - {xs ! i}" "length (swap_remove i xs) = length xs - 1"
proof -
  have m: "mset (swap_remove i xs) = mset (remove1 (xs ! i) xs)" using mset_swap_remove[OF assms(1)] by simp
  show "distinct (swap_remove i xs)" using mset_eq_imp_distinct_iff[OF m] assms(2) by simp
  show "set (swap_remove i xs) = set xs - {xs ! i}" using mset_eq_setD[OF m] assms(2) by simp
qed (simp add: swap_remove_def)

text \<open>A full source gives up an edge that is not of the tree.\<close>

lemma drop_farthest_eq:
  assumes ca: "ca_ok ca" "valid_adj md (ca_adj ca)" and v: "length vectors = ca_node_count ca * d" "source < ca_node_count ca" and p: "length parent = ca_node_count ca"
    and x: "\<exists>x \<in> set (ca_adj ca ! source). parent ! unat x \<noteq> Some source"
  shows "\<exists>i ca'. drop_farthest_edge t vectors d metric parent source ca = Inr ca' \<and> ca_ok ca' \<and> i < length (ca_adj ca ! source) \<and> parent ! unat (ca_adj ca ! source ! i) \<noteq> Some source
    \<and> ca_adj ca' = (ca_adj ca)[source := swap_remove i (ca_adj ca ! source)] \<and> ca_max_degree ca' = ca_max_degree ca"
proof -
  let ?ns = "ca_adj ca ! source"
  have ps: "\<forall>(i, x) \<in> set (enumerate 0 ?ns). unat x < ca_node_count ca \<and> i < length ?ns \<and> ?ns ! i = x"
    using ca(2) v(2) nth_mem by (fastforce simp: in_set_enumerate_eq valid_adj_def)
  have "\<exists>(i, x) \<in> set (enumerate 0 ?ns). parent ! unat x \<noteq> Some source" 
  proof -
    obtain i where "i < length ?ns" "parent ! unat (?ns ! i) \<noteq> Some source" using x by (auto simp: in_set_conv_nth)
    then show ?thesis by (intro bexI[of _ "(i, ?ns ! i)"]) (auto simp: in_set_enumerate_eq)
  qed
  then obtain i y where i: "fold_res (farther_edge t vectors d metric parent source) (enumerate 0 ?ns) None = Inr (Some (i, y))" "i < length ?ns" "parent ! unat (?ns ! i) \<noteq> Some source"
    using farthest_edges[OF v p ps, of None t metric] by auto
  then show ?thesis using ca_swap_remove_eq[OF ca(1) v(2) i(2)] compact.reads[OF ca(1), of source] v(2) by (auto simp: drop_farthest_edge_def)
qed

section \<open>A round of repair\<close>

text \<open>The neighbours a source keeps when it makes room for another one.\<close>

definition keeps_tree :: "nat \<Rightarrow> nat option list \<Rightarrow> nat \<Rightarrow> u32 list \<Rightarrow> u32 list \<Rightarrow> bool" where
  "keeps_tree md parent source ns kept \<longleftrightarrow> set kept \<subseteq> set ns \<and> distinct kept \<and> length kept < md \<and> (\<forall>x \<in> set ns. parent ! unat x = Some source \<longrightarrow> x \<in> set kept)"

lemma make_room:
  assumes ca: "ca_ok ca" "valid_adj md (ca_adj ca)" "ca_max_degree ca = min md (ca_node_count ca - 1)" and v: "length vectors = ca_node_count ca * d" "source < ca_node_count ca"
    and p: "length parent = ca_node_count ca" and sp: "spare md parent (ca_adj ca) source" and room: "length (ca_adj ca ! source) < ca_node_count ca - 1"
  shows "\<exists>ca1 ca2 kept. (if length (ca_adj ca ! source) = md then drop_farthest_edge t vectors d metric parent source ca else Inr ca) = Inr ca1
    \<and> ca_push source x ca1 = Inr ca2 \<and> ca_ok ca2 \<and> ca_max_degree ca2 = ca_max_degree ca \<and> ca_adj ca2 = (ca_adj ca)[source := kept @ [x]]
    \<and> keeps_tree md parent source (ca_adj ca ! source) kept"
proof -
  let ?ns = "ca_adj ca ! source"
  have ns: "length ?ns \<le> md" "distinct ?ns" using ca(2) v(2) by (auto simp: valid_adj_def)
  obtain ca1 kept where ca1: "(if length ?ns = md then drop_farthest_edge t vectors d metric parent source ca else Inr ca) = Inr ca1" "ca_ok ca1" "ca_max_degree ca1 = ca_max_degree ca"
    "ca_adj ca1 = (ca_adj ca)[source := kept]" "keeps_tree md parent source ?ns kept" "length kept \<le> length ?ns"
  proof (cases "length ?ns = md")
    case True
    then obtain i ca1 where i: "drop_farthest_edge t vectors d metric parent source ca = Inr ca1" "ca_ok ca1" "i < length ?ns" "parent ! unat (?ns ! i) \<noteq> Some source"
      "ca_adj ca1 = (ca_adj ca)[source := swap_remove i ?ns]" "ca_max_degree ca1 = ca_max_degree ca"
      using drop_farthest_eq[OF ca(1,2) v p, of t metric] sp unfolding spare_def by blast
    note R = swap_remove_distinct[OF i(3) ns(2)]
    have "keeps_tree md parent source ?ns (swap_remove i ?ns)" using R i(3,4) True by (auto simp: keeps_tree_def)
    then show ?thesis using that[of ca1] i R(3) True by simp
  next
    case False
    then have "keeps_tree md parent source ?ns ?ns" using ns by (simp add: keeps_tree_def)
    then show ?thesis using that[of ca ?ns] ca False by simp
  qed
  have n: "ca_node_count ca1 = ca_node_count ca" using ca1(4) by (metis length_ca_adj length_list_update)
  have row: "ca_adj ca1 ! source = kept" using ca1(4) v(2) by simp
  have "length kept < ca_max_degree ca" using ca1(5,6) room ca(3) by (simp add: keeps_tree_def)
  then obtain ca2 where "ca_push source x ca1 = Inr ca2" "ca_ok ca2" "ca_adj ca2 = (ca_adj ca1)[source := kept @ [x]]" "ca_max_degree ca2 = ca_max_degree ca"
    using ca_push_eq[OF ca1(2), of source x] n row v(2) ca1(3) by auto
  then show ?thesis using ca1(1,4,5) by (intro exI[of _ ca1] exI[of _ ca2] exI[of _ kept]) simp
qed

text \<open>A visited node has an edge to every other node only when every node is visited.\<close>

lemma row_room:
  assumes val: "valid_adj md adj" and c: "closed_but {} adj visited" and s: "source < length adj" "visited ! source" and t: "target < length adj" "\<not> visited ! target"
  shows "length (adj ! source) < length adj - 1"
proof -
  have d: "distinct (adj ! source)" using val s(1) by (simp add: valid_adj_def)
  have sub: "unat ` set (adj ! source) \<subseteq> {..<length adj} - {source, target}" using val c s t by (auto simp: valid_adj_def closed_but_def)
  have st: "source \<noteq> target" using s t by auto
  have "card (unat ` set (adj ! source)) = length (adj ! source)" using distinct_card[OF d] card_image[of unat "set (adj ! source)"] by (simp add: inj_on_def unsigned_word_eqI)
  moreover have "card (unat ` set (adj ! source)) \<le> card ({..<length adj} - {source, target})" by (rule card_mono[OF _ sub]) simp
  moreover have "card ({..<length adj} - {source, target}) = length adj - 2" using s t st by (simp add: card_Diff_subset)
  moreover have "2 \<le> length adj" using s(1) t(1) st by linarith
  ultimately show ?thesis by linarith
qed

lemma link_target:
  assumes val: "valid_adj md adj" and n: "length adj \<le> 2 ^ 32" and T: "tree_ok entry adj visited parent" and c: "closed_but {} adj visited"
    and s: "source < length adj" "visited ! source" and t: "target < length adj" "\<not> visited ! target" and k: "keeps_tree md parent source (adj ! source) kept"
  defines "adj' \<equiv> adj[source := kept @ [word_of_nat target]]"
  shows "valid_adj md adj' \<and> tree_ok entry adj' (visited[target := True]) (parent[target := Some source]) \<and> closed_but {target} adj' (visited[target := True])"
proof (intro conjI)
  note D = tree_okD[OF T]
  have tn: "unat (word_of_nat target :: u32) = target" using t(1) n unat_node[of target] by simp
  have K: "set kept \<subseteq> set (adj ! source)" "distinct kept" "length kept < md" "\<And>x. x \<in> set (adj ! source) \<Longrightarrow> parent ! unat x = Some source \<Longrightarrow> x \<in> set kept"
    using k by (auto simp: keeps_tree_def)
  have seen: "unat x < length adj \<and> visited ! unat x" if "v < length adj" "visited ! v" "x \<in> set (adj ! v)" for v x using c that by (simp add: closed_but_def)
  have st: "source \<noteq> target" using s t by auto
  have new: "word_of_nat target \<notin> set kept" using K(1) seen[OF s] tn t(2) by fastforce
  have old: "unat x < length adj \<and> unat x \<noteq> source" if "x \<in> set kept" for x using K(1) val s(1) that by (auto simp: valid_adj_def)
  show "valid_adj md adj'" unfolding valid_adj_def
  proof (intro allI impI)
    fix a assume a: "a < length adj'"
    show "length (adj' ! a) \<le> md \<and> distinct (adj' ! a) \<and> (\<forall>x \<in> set (adj' ! a). unat x < length adj' \<and> unat x \<noteq> a)"
      using a val old new K(2,3) tn st t(1) by (cases "a = source") (auto simp: adj'_def valid_adj_def)
  qed
  have "tree_ok entry adj' visited parent" unfolding tree_ok_def
  proof (intro conjI allI impI)
    fix v p assume v: "v < length adj'" "parent ! v = Some p"
    then have v': "v < length adj" by (simp add: adj'_def)
    note P = D(7)[OF v' v(2)]
    show "p < length adj'" "visited ! p" using P by (simp_all add: adj'_def)
    have "unat (word_of_nat v :: u32) = v" using v' n unat_node[of v] by simp
    then show "word_of_nat v \<in> set (adj' ! p)" using P K(4)[of "word_of_nat v"] v(2) s(1) by (cases "p = source") (auto simp: adj'_def)
  qed (use D in \<open>auto simp: adj'_def\<close>)
  moreover have "word_of_nat target \<in> set (adj' ! source)" using s(1) by (simp add: adj'_def)
  ultimately show "tree_ok entry adj' (visited[target := True]) (parent[target := Some source])" using s t by (intro tree_visit) (simp_all add: adj'_def)
  show "closed_but {target} adj' (visited[target := True])" unfolding closed_but_def
  proof (intro allI impI ballI)
    fix v x assume v: "v < length adj'" "visited[target := True] ! v" "v \<notin> {target}" "x \<in> set (adj' ! v)"
    then have "v < length adj" "visited ! v" by (simp_all add: adj'_def)
    moreover have "x \<in> set (adj ! v) \<or> unat x = target" using v(4) K(1) tn s(1) by (cases "v = source") (auto simp: adj'_def)
    ultimately show "unat x < length adj' \<and> visited[target := True] ! unat x" using seen[of v x] t(1) D(1) by (auto simp: adj'_def nth_list_update)
  qed
qed

text \<open>Between rounds the eligible sources are just the visited nodes with a free or replaceable edge.\<close>

definition repair_inv :: "nat \<Rightarrow> nat \<Rightarrow> nat \<Rightarrow> repair_state \<Rightarrow> bool" where
  "repair_inv n md entry s \<longleftrightarrow> (let ca = rp_adjacency s; adj = ca_adj ca in ca_ok ca \<and> ca_max_degree ca = min md (n - 1) \<and> ca_node_count ca = n \<and> valid_adj md adj
     \<and> tree_ok entry adj (rp_visited s) (rp_parent s) \<and> closed_but {} adj (rp_visited s) \<and> distinct (rp_eligible_sources s)
     \<and> set (rp_eligible_sources s) = {v. v < n \<and> rp_visited s ! v \<and> spare md (rp_parent s) adj v})"

lemma repair_invD:
  assumes "repair_inv n md entry s"
  shows "ca_ok (rp_adjacency s)" "ca_max_degree (rp_adjacency s) = min md (n - 1)" "ca_node_count (rp_adjacency s) = n" "valid_adj md (ca_adj (rp_adjacency s))"
    "tree_ok entry (ca_adj (rp_adjacency s)) (rp_visited s) (rp_parent s)" "closed_but {} (ca_adj (rp_adjacency s)) (rp_visited s)" "distinct (rp_eligible_sources s)"
    "set (rp_eligible_sources s) = {v. v < n \<and> rp_visited s ! v \<and> spare md (rp_parent s) (ca_adj (rp_adjacency s)) v}"
    "length (rp_visited s) = n" "length (rp_parent s) = n"
  using assms tree_okD(1,2)[of entry "ca_adj (rp_adjacency s)" "rp_visited s" "rp_parent s"] by (auto simp: repair_inv_def Let_def)

text \<open>Visiting more nodes leaves the other visited nodes as eligible as they were.\<close>

lemma spare_kept:
  assumes c: "closed_but {} adj visited" and sp: "spreads visited parent new visited' parent'" and len: "length visited = length adj"
    and v: "v < length adj" "visited ! v" "v \<noteq> source"
  shows "spare md parent' (adj[source := ns]) v \<longleftrightarrow> spare md parent adj v"
proof -
  have "parent' ! unat x = parent ! unat x" if "x \<in> set (adj ! v)" for x using c sp len v that by (simp add: closed_but_def spreads_def)
  then show ?thesis using v by (simp add: spare_def)
qed

lemma eligible_after:
  fixes ns :: "u32 list"
  assumes c: "closed_but {} adj visited" and sp: "spreads visited parent new visited' parent'" and len: "length visited = length adj"
    and el: "distinct sources" "set sources = {v. v < length adj \<and> visited ! v \<and> spare md parent adj v}" and i: "i < length sources"
  defines "adj' \<equiv> adj[sources ! i := ns]"
  defines "next \<equiv> swap_remove i sources @ filter (spare md parent' adj') (sources ! i # new)"
  shows "distinct next \<and> set next = {v. v < length adj \<and> visited' ! v \<and> spare md parent' adj' v}"
proof -
  let ?s = "sources ! i"
  note R = swap_remove_distinct[OF i el(1)]
  have s: "?s < length adj" "visited ! ?s" using el(2) nth_mem[OF i] by auto
  have N: "distinct new" "\<forall>v \<in> set new. v < length adj \<and> \<not> visited ! v" "\<forall>v < length adj. visited' ! v \<longleftrightarrow> visited ! v \<or> v \<in> set new"
    using sp len by (auto simp: spreads_def)
  have keep: "spare md parent' adj' v \<longleftrightarrow> spare md parent adj v" if "v < length adj" "visited ! v" "v \<noteq> ?s" for v
    using spare_kept[OF c sp len that] by (simp add: adj'_def)
  have "distinct next" unfolding next_def using R(1,2) N(1,2) s el(2) by auto
  moreover have "v \<in> set next \<longleftrightarrow> v < length adj \<and> visited' ! v \<and> spare md parent' adj' v" for v
    using R(2) el(2) N(2,3) s keep[of v] by (cases "v = ?s") (auto simp: next_def)
  ultimately show ?thesis by blast
qed

lemma repair_round_keeps:
  assumes inv: "repair_inv n md entry s" and md: "0 < md" and n: "n \<le> 2 ^ 32" and vec: "length vectors = n * d" and t: "target < n" "\<not> rp_visited s ! target"
  shows "\<exists>s'. repair_round a vectors d md metric target s = Inr s' \<and> repair_inv n md entry s' \<and> rp_visited s' ! target \<and> (\<forall>v < n. rp_visited s ! v \<longrightarrow> rp_visited s' ! v)
    \<and> cr_edges_added (rp_stats s') = cr_edges_added (rp_stats s) + 1 \<and> cr_full_reachability_traversals (rp_stats s') = cr_full_reachability_traversals (rp_stats s)"
proof -
  let ?ca = "rp_adjacency s" and ?vis = "rp_visited s" and ?par = "rp_parent s" and ?el = "rp_eligible_sources s"
  note I = repair_invD[OF inv]
  let ?tv = "row_of d vectors target"
  have tv: "length ?tv = d" "subslice (target * d) (target * d + d) vectors = Inr ?tv" using length_row_of[OF vec t(1)] subslice_row[OF vec t(1)] by auto
  obtain v where "v < n" "?vis ! v" "spare md ?par (ca_adj ?ca) v" using some_spare[OF I(5,6) md] I(3) by auto
  then have "v \<in> set ?el" unfolding I(8) by simp
  then have el: "?el \<noteq> []" by (metis length_pos_if_in_set list.size(3) not_less0)
  have "\<forall>v \<in> set ?el. is_repair_source v md ?par ?ca = Inr True \<and> (\<exists>x. node_distance a vectors d v ?tv metric = Inr x)"
    using I(8) is_repair_source_eq[OF I(1,4), of ?par] I(3,10) node_distance_eq[OF vec _ tv(1)] by auto
  from select_repair_source_eq[OF this el, of target "rp_stats s"] obtain i ev where sel: "i < length ?el"
    "select_repair_source a vectors d target ?tv md ?par ?el (rp_stats s) metric ?ca = Inr ((i, ?el ! i), rp_stats s\<lparr>cr_source_distance_evaluations := ev\<rparr>)" by blast
  let ?s = "?el ! i"
  have s: "?s < n" "?vis ! ?s" "spare md ?par (ca_adj ?ca) ?s" using nth_mem[OF sel(1)] I(8) by auto
  obtain ca1 ca2 kept where ca: "(if length (ca_adj ?ca ! ?s) = md then drop_farthest_edge a vectors d metric ?par ?s ?ca else Inr ?ca) = Inr ca1"
    "ca_push ?s (word_of_nat target) ca1 = Inr ca2" "ca_ok ca2" "ca_max_degree ca2 = min md (n - 1)" "ca_adj ca2 = (ca_adj ?ca)[?s := kept @ [word_of_nat target]]" "keeps_tree md ?par ?s (ca_adj ?ca ! ?s) kept"
    using make_room[OF I(1,4) _ _ _ _ s(3), of vectors d a metric "word_of_nat target"] row_room[OF I(4,6) _ s(2) _ t(2)] vec s(1) t(1) I(2,3,10) by auto
  have len: "length (ca_adj ca2) = n" using ca(5) I(3) by simp
  have L: "valid_adj md (ca_adj ca2)" "tree_ok entry (ca_adj ca2) (?vis[target := True]) (?par[target := Some ?s])" "closed_but {target} (ca_adj ca2) (?vis[target := True])"
    using link_target[OF I(4) _ I(5,6) _ s(2) _ t(2) ca(6)] n s(1) t(1) I(3) ca(5) by auto
  note fuel = unvisited_fuel[OF t(1) I(9)]
  obtain vis' par' new where W: "tree_loop (n + 1) ca2 (?vis[target := True], ?par[target := Some ?s], [target], [target]) = Inr (vis', par', [target] @ new)"
    "tree_ok entry (ca_adj ca2) vis' par'" "closed_but {} (ca_adj ca2) vis'" "spreads (?vis[target := True]) (?par[target := Some ?s]) new vis' par'"
    using tree_loop_ends[OF ca(3) L(2), of "[target]" "n + 1" "[target]"] L(1,3) fuel len t(1) I(9) by (auto simp: valid_adj_def)
  have one: "spreads ?vis ?par [target] (?vis[target := True]) (?par[target := Some ?s])" using t I(9,10) by (auto simp: spreads_def nth_list_update)
  have sp: "spreads ?vis ?par (target # new) vis' par'" using spreads_trans[OF one W(4)] by simp
  have below: "\<forall>v \<in> set (?s # target # new). v < ca_node_count ca2" using sp s(1) t(1) I(9) len by (auto simp: spreads_def)
  have fresh: "keep_sources md par' ca2 (?s # target # new) = Inr (filter (spare md par' (ca_adj ca2)) (?s # target # new))"
    using keep_sources_eq[OF ca(3) L(1) _ below] tree_okD(2)[OF W(2)] len by simp
  let ?next = "swap_remove i ?el @ filter (spare md par' (ca_adj ca2)) (?s # target # new)"
  have "set ?el = {v. v < length (ca_adj ?ca) \<and> ?vis ! v \<and> spare md ?par (ca_adj ?ca) v}" "length ?vis = length (ca_adj ?ca)" using I(3,8,9) by auto
  then have E: "distinct ?next \<and> set ?next = {v. v < n \<and> vis' ! v \<and> spare md par' (ca_adj ca2) v}"
    using eligible_after[OF I(6) sp _ I(7) _ sel(1), of md "kept @ [word_of_nat target]"] ca(5) I(3) by simp
  let ?s' = "\<lparr>rp_adjacency = ca2, rp_visited = vis', rp_parent = par', rp_eligible_sources = ?next,
    rp_stats = rp_stats s\<lparr>cr_source_distance_evaluations := ev, cr_edges_added := cr_edges_added (rp_stats s) + 1\<rparr>\<rparr>"
  have "repair_round a vectors d md metric target s = Inr ?s'"
    using tv(2) sel ca(1,2) compact.reads[OF I(1), of ?s] s(1) t(1) I(3,9,10) W(1) fresh
    by (simp add: repair_round_def Let_def vec_swap_remove_def set_idx_def)
  moreover have "repair_inv n md entry ?s'" using ca(3,4) len L(1) W(2,3) E by (simp add: repair_inv_def Let_def)
  moreover have "vis' ! target" "\<forall>v < n. ?vis ! v \<longrightarrow> vis' ! v" using sp t(1) I(9) by (auto simp: spreads_def)
  ultimately show ?thesis by auto
qed

section \<open>Validation\<close>

lemma adjacent_equal: "list_ex (\<lambda>(a, b). a = b) (zip xs (drop (Suc 0) xs)) \<longleftrightarrow> \<not> distinct_adj xs"
  by (induction xs rule: induct_list012) auto

lemma sorted_distinct_adj: "sorted xs \<Longrightarrow> distinct_adj xs \<longleftrightarrow> distinct xs" for xs :: "'a::linorder list"
  by (induction xs rule: induct_list012) (auto simp: order.antisym)

lemma validate_node_eq:
  "validate_node n md (a, ns) u = (if length ns \<le> md \<and> distinct ns \<and> (\<forall>x \<in> set ns. unat x < n \<and> unat x \<noteq> a) then Inr () else Inl (Err InvalidInput))"
proof -
  have "distinct_adj (sort ns) \<longleftrightarrow> distinct ns" using sorted_distinct_adj[OF sorted_sort[of ns]] by simp
  moreover have "list_ex (\<lambda>x. n \<le> unat x \<or> unat x = a) (sort ns) \<longleftrightarrow> \<not> (\<forall>x \<in> set ns. unat x < n \<and> unat x \<noteq> a)"
    unfolding list_ex_iff set_sort by (meson leD leI)
  ultimately show ?thesis by (auto simp: validate_node_def adjacent_equal Let_def)
qed

lemma validate_rows:
  "fold_res (validate_node n md) (enumerate k rows) () =
     (if \<forall>i < length rows. length (rows ! i) \<le> md \<and> distinct (rows ! i) \<and> (\<forall>x \<in> set (rows ! i). unat x < n \<and> unat x \<noteq> k + i) then Inr () else Inl (Err InvalidInput))"
proof (induction rows arbitrary: k)
  case (Cons r rows)
  have "(\<forall>i < length (r # rows). P ((r # rows) ! i) (k + i)) \<longleftrightarrow> P r k \<and> (\<forall>i < length rows. P (rows ! i) (Suc k + i))" for P
    by (auto simp: less_Suc_eq_0_disj)
  note split = this[of "\<lambda>ns a. length ns \<le> md \<and> distinct ns \<and> (\<forall>x \<in> set ns. unat x < n \<and> unat x \<noteq> a)"]
  show ?case unfolding split enumerate_simps fold_res.simps validate_node_eq by (auto simp: Cons.IH)
qed simp

lemma validate_graph_eq:
  assumes "ca_ok (vg_adjacency g)"
  shows "validate_graph md g = (if valid_adj md (ca_adj (vg_adjacency g)) then Inr () else Inl (Err InvalidInput))"
  using compact.read_all[OF assms] by (simp add: validate_graph_def ca_iter_def validate_rows valid_adj_def)

section \<open>Repair connects the graph\<close>

lemma next_unvisited_facts:
  assumes "cursor \<le> length visited" "\<forall>v < cursor. visited ! v"
  shows "next_unvisited visited cursor \<le> length visited" "\<forall>v < next_unvisited visited cursor. visited ! v"
    "next_unvisited visited cursor < length visited \<Longrightarrow> \<not> visited ! next_unvisited visited cursor"
proof -
  let ?w = "takeWhile (\<lambda>v. v) (drop cursor visited)"
  have w: "length ?w \<le> length visited - cursor" using length_takeWhile_le[of "\<lambda>v. v" "drop cursor visited"] by simp
  then show "next_unvisited visited cursor \<le> length visited" using assms(1) by (simp add: next_unvisited_def)
  show "\<forall>v < next_unvisited visited cursor. visited ! v"
  proof (intro allI impI)
    fix v assume v: "v < next_unvisited visited cursor"
    show "visited ! v"
    proof (cases "v < cursor")
      case False
      then have "v - cursor < length ?w" using v by (simp add: next_unvisited_def)
      then have "?w ! (v - cursor) \<in> set ?w" "?w ! (v - cursor) = drop cursor visited ! (v - cursor)" by (rule nth_mem, rule takeWhile_nth)
      then show ?thesis using set_takeWhileD[of _ "\<lambda>v. v" "drop cursor visited"] False assms(1) by fastforce
    qed (use assms(2) in simp)
  qed
  show "\<not> visited ! next_unvisited visited cursor" if "next_unvisited visited cursor < length visited"
  proof -
    have "length ?w < length (drop cursor visited)" using that by (simp add: next_unvisited_def)
    then have "\<not> drop cursor visited ! length ?w" using nth_length_takeWhile[of "\<lambda>v. v" "drop cursor visited"] by simp
    then show ?thesis using assms(1) by (simp add: next_unvisited_def)
  qed
qed

lemma repair_loop_ends:
  assumes "repair_inv n md entry s" "0 < md" "n \<le> 2 ^ 32" "length vectors = n * d" "cursor \<le> n" "\<forall>v < cursor. rp_visited s ! v"
    and "card {v. v < n \<and> \<not> rp_visited s ! v} < fuel"
  shows "\<exists>s'. repair_loop fuel a vectors d md metric cursor s = Inr s' \<and> repair_inv n md entry s' \<and> (\<forall>v < n. rp_visited s' ! v)
    \<and> cr_edges_added (rp_stats s') \<le> cr_edges_added (rp_stats s) + card {v. v < n \<and> \<not> rp_visited s ! v}
    \<and> cr_full_reachability_traversals (rp_stats s') = cr_full_reachability_traversals (rp_stats s) \<and> ((\<forall>v < n. rp_visited s ! v) \<longrightarrow> s' = s)"
  using assms(1,5,6,7)
proof (induction fuel arbitrary: cursor s)
  case (Suc fuel)
  let ?t = "next_unvisited (rp_visited s) cursor"
  have len: "length (rp_visited s) = n" by (rule repair_invD(9)[OF Suc.prems(1)])
  note N = next_unvisited_facts[of cursor "rp_visited s", unfolded len, OF Suc.prems(2,3)]
  show ?case
  proof (cases "?t = n")
    case True
    then have "\<forall>v < n. rp_visited s ! v" using N(2) by simp
    then show ?thesis using True len Suc.prems(1) by (intro exI[of _ s]) simp
  next
    case False
    then have t: "?t < n" "\<not> rp_visited s ! ?t" using N(1,3) by auto
    obtain s1 where s1: "repair_round a vectors d md metric ?t s = Inr s1" "repair_inv n md entry s1" "rp_visited s1 ! ?t" "\<forall>v < n. rp_visited s ! v \<longrightarrow> rp_visited s1 ! v"
      "cr_edges_added (rp_stats s1) = cr_edges_added (rp_stats s) + 1" "cr_full_reachability_traversals (rp_stats s1) = cr_full_reachability_traversals (rp_stats s)"
      using repair_round_keeps[OF Suc.prems(1) assms(2-4) t] by blast
    have "{v. v < n \<and> \<not> rp_visited s1 ! v} \<subset> {v. v < n \<and> \<not> rp_visited s ! v}" using s1(3,4) t by blast
    then have card: "card {v. v < n \<and> \<not> rp_visited s1 ! v} < card {v. v < n \<and> \<not> rp_visited s ! v}" by (rule psubset_card_mono[rotated]) simp
    moreover have "\<forall>v < ?t. rp_visited s1 ! v" using N(1,2) s1(4) by simp
    ultimately obtain s' where s': "repair_loop fuel a vectors d md metric ?t s1 = Inr s'" "repair_inv n md entry s'" "\<forall>v < n. rp_visited s' ! v"
      "cr_edges_added (rp_stats s') \<le> cr_edges_added (rp_stats s1) + card {v. v < n \<and> \<not> rp_visited s1 ! v}"
      "cr_full_reachability_traversals (rp_stats s') = cr_full_reachability_traversals (rp_stats s1)" using Suc.IH[OF s1(2) N(1)] Suc.prems(4) by fastforce
    have "repair_loop (Suc fuel) a vectors d md metric cursor s = Inr s'" using False len s1(1) s'(1) by (simp add: Let_def)
    then show ?thesis using s' s1(5,6) card t by auto
  qed
qed simp

lemma repair_ends:
  assumes g: "ca_ok (vg_adjacency g)" "ca_node_count (vg_adjacency g) = n" "ca_max_degree (vg_adjacency g) = min md (n - 1)" "0 < md" "n \<le> 2 ^ 32"
    and valid: "validate_graph md g = Inr ()" and entry: "unat (vg_entry_node g) < n" and vec: "length vectors = n * d"
  shows "\<exists>stats g'. repair_connectivity_with_stats t vectors d md metric g = Inr (stats, g') \<and> repair_connectivity t vectors d md metric g = Inr g'
    \<and> vg_entry_node g' = vg_entry_node g \<and> ca_ok (vg_adjacency g') \<and> ca_node_count (vg_adjacency g') = n \<and> ca_max_degree (vg_adjacency g') = min md (n - 1)
    \<and> validate_graph md g' = Inr () \<and> is_fully_reachable g' = Inr True \<and> (\<forall>v < n. reaches (ca_adj (vg_adjacency g')) (unat (vg_entry_node g)) v)
    \<and> cr_full_reachability_traversals stats = 1 \<and> cr_edges_added stats \<le> card {v. v < n \<and> \<not> reaches (ca_adj (vg_adjacency g)) (unat (vg_entry_node g)) v}
    \<and> (is_fully_reachable g = Inr True \<longrightarrow> g' = g)"
proof -
  let ?e = "unat (vg_entry_node g)" and ?adj = "ca_adj (vg_adjacency g)"
  have val: "valid_adj md ?adj" using valid validate_graph_eq[OF g(1)] by (auto split: if_splits)
  obtain vis par where T: "reachability_tree g = Inr (vis, par)" "tree_ok ?e ?adj vis par" "closed_but {} ?adj vis" "is_fully_reachable g = Inr (list_all (\<lambda>v. v) vis)"
    using reachability_tree_eq[OF g(1) _ val] entry g(2) by auto
  have len: "length vis = n" "length par = n" using tree_okD(1,2)[OF T(2)] g(2) by simp_all
  let ?el = "filter (spare md par ?adj) (filter (\<lambda>v. vis ! v) [0..<n])"
  have el: "keep_sources md par (vg_adjacency g) (filter (\<lambda>v. vis ! v) [0..<length vis]) = Inr ?el" using keep_sources_eq[OF g(1) val, of par] len g(2) by simp
  let ?s = "\<lparr>rp_adjacency = vg_adjacency g, rp_visited = vis, rp_parent = par, rp_eligible_sources = ?el,
    rp_stats = \<lparr>cr_full_reachability_traversals = 1, cr_source_distance_evaluations = 0, cr_edges_added = 0\<rparr>\<rparr>"
  have inv: "repair_inv n md ?e ?s" using g val T(2,3) by (auto simp: repair_inv_def Let_def)
  have "card {v. v < n \<and> \<not> vis ! v} \<le> n" using card_mono[of "{..<n}" "{v. v < n \<and> \<not> vis ! v}"] by auto
  then obtain s' where s': "repair_loop (n + 1) t vectors d md metric 0 ?s = Inr s'" "repair_inv n md ?e s'" "\<forall>v < n. rp_visited s' ! v"
    "cr_edges_added (rp_stats s') \<le> card {v. v < n \<and> \<not> vis ! v}" "cr_full_reachability_traversals (rp_stats s') = 1" "(\<forall>v < n. vis ! v) \<longrightarrow> s' = ?s"
    using repair_loop_ends[OF inv g(4,5) vec, of 0 "n + 1" t metric] by auto
  let ?g = "g\<lparr>vg_adjacency := rp_adjacency s'\<rparr>"
  note I = repair_invD[OF s'(2)]
  have run: "repair_connectivity_with_stats t vectors d md metric g = Inr (rp_stats s', ?g)" using T(1) el len s'(1)
    by (simp add: repair_connectivity_with_stats_def Let_def del: repair_loop.simps)
  have reach: "\<forall>v < n. reaches (ca_adj (rp_adjacency s')) ?e v" using visited_reaches[OF I(5,6)] I(3) g(5) s'(3) by simp
  have full: "is_fully_reachable ?g = Inr True" using is_fully_reachable_eq[of ?g md] I(1,3,4) entry g(5) reach by simp
  have old: "{v. v < n \<and> \<not> vis ! v} = {v. v < n \<and> \<not> reaches ?adj ?e v}" using visited_reaches[OF T(2,3)] g(2,5) by auto
  have same: "?g = g" if "is_fully_reachable g = Inr True"
  proof -
    have "s' = ?s" using that T(4) s'(6) len by (simp add: list_all_length)
    then show ?thesis by simp
  qed
  show ?thesis using run full reach same s'(4,5) I(1-4) validate_graph_eq[of ?g md] unfolding old
    by (intro exI[of _ "rp_stats s'"] exI[of _ ?g]) (simp add: repair_connectivity_def)
qed

text \<open>C13: Repair of a valid graph never fails, although the code has two errors for it: among the reachable nodes
  there is always one with a free slot or an edge outside the tree of parents. It ends with every node
  reachable from the entry node and a graph that still validates, after one full traversal and with at
  most one new edge for each node that was unreachable. A graph that was connected is left as it was.\<close>
theorem repair_connects:
  assumes g: "ca_ok (vg_adjacency g)" "ca_node_count (vg_adjacency g) = n" "ca_max_degree (vg_adjacency g) = min md (n - 1)" "0 < md" "n \<le> 2 ^ 32"
    and valid: "validate_graph md g = Inr ()" and entry: "unat (vg_entry_node g) < n" and vec: "length vectors = n * d"
  shows "\<exists>stats g'. repair_connectivity_with_stats t vectors d md metric g = Inr (stats, g') \<and> repair_connectivity t vectors d md metric g = Inr g'
    \<and> vg_entry_node g' = vg_entry_node g \<and> ca_ok (vg_adjacency g') \<and> ca_node_count (vg_adjacency g') = n \<and> ca_max_degree (vg_adjacency g') = min md (n - 1)
    \<and> validate_graph md g' = Inr () \<and> is_fully_reachable g' = Inr True \<and> (\<forall>v < n. reaches (ca_adj (vg_adjacency g')) (unat (vg_entry_node g)) v)
    \<and> cr_full_reachability_traversals stats = 1 \<and> cr_edges_added stats \<le> card {v. v < n \<and> \<not> reaches (ca_adj (vg_adjacency g)) (unat (vg_entry_node g)) v}
    \<and> (is_fully_reachable g = Inr True \<longrightarrow> g' = g)"
  using repair_ends[OF assms] .

theorem repair_connects_witness:
  "\<exists>ca stats g'. ca_from_nested [[1], [0], [1]] 1 = Inr ca \<and> repair_connectivity_with_stats OtherArch [f32_zero, f32_one, f32_one] 1 1 L2 \<lparr>vg_entry_node = 0, vg_adjacency = ca\<rparr> = Inr (stats, g')
     \<and> is_fully_reachable g' = Inr True \<and> validate_graph 1 g' = Inr ()"
proof -
  obtain ca where ca: "ca_from_nested [[1], [0], [1 :: u32]] 1 = Inr ca" "ca_ok ca" "ca_adj ca = [[1], [0], [1]]" "ca_node_count ca = 3" "ca_max_degree ca = 1"
    using ca_from_nested_eq[of 1 "[[1], [0], [1 :: u32]]"] by auto
  have "validate_graph 1 \<lparr>vg_entry_node = 0, vg_adjacency = ca\<rparr> = Inr ()"
    using validate_graph_eq[of "\<lparr>vg_entry_node = 0, vg_adjacency = ca\<rparr>" 1] ca(2,3) by (auto simp: valid_adj_def nth_Cons less_Suc_eq)
  then show ?thesis using repair_connects[of "\<lparr>vg_entry_node = 0, vg_adjacency = ca\<rparr>" 3 1 "[f32_zero, f32_one, f32_one]" 1 OtherArch L2] ca by auto
qed

end
