(* ===== verification/Vamana_Random.thy ===== *)
theory Vamana_Random
  imports Vamana_Repair
begin

text \<open>
  The random graph a build starts from (\<open>core/src/vamana.rs\<close>). Neighbours are drawn without replacement by a
  Fisher-Yates shuffle whose array exists only as a table of the places that were swapped. The \<open>rand\<close>
  crate is an argument; its documentation is the hypothesis \<open>rng_ok\<close>. Every node is shown to get as
  many different neighbours as asked for, none of them itself.
\<close>

text \<open>The generator of the \<open>rand\<close> crate: \<open>StdRng::seed_from_u64\<close>, \<open>gen_range\<close> on a half-open range of \<open>usize\<close>,
  and \<open>SliceRandom::shuffle\<close> as the order in which it leaves the places of a slice.\<close>

record 'r rng_api =
  seed_from_u64 :: "u64 \<Rightarrow> 'r"
  gen_range :: "nat \<Rightarrow> nat \<Rightarrow> 'r \<Rightarrow> nat \<times> 'r"
  shuffle_places :: "nat \<Rightarrow> 'r \<Rightarrow> nat list \<times> 'r"

definition rng_ok :: "'r rng_api \<Rightarrow> bool" where
  "rng_ok R \<longleftrightarrow> (\<forall>lo hi r. lo < hi \<longrightarrow> lo \<le> fst (gen_range R lo hi r) \<and> fst (gen_range R lo hi r) < hi)
     \<and> (\<forall>k r. mset (fst (shuffle_places R k r)) = mset [0..<k])"

section \<open>Sampling\<close>

text \<open>The value at a place of the array that was never stored.\<close>

definition swapped :: "nat \<Rightarrow> u32 SparseTable \<Rightarrow> u32 res" where
  "swapped i swaps = bind_res (table_get (word_of_nat i) swaps) (\<lambda>v. Inr (case v of None \<Rightarrow> word_of_nat i | Some x \<Rightarrow> x))"

text \<open>One iteration. \<open>gen_range\<close> panics on an empty range.\<close>

definition sample_step ::
  "'r rng_api \<Rightarrow> nat \<Rightarrow> nat \<Rightarrow> nat \<Rightarrow> u32 list \<times> u32 SparseTable \<times> 'r \<Rightarrow> (u32 list \<times> u32 SparseTable \<times> 'r) res" where
  "sample_step R population node index = (\<lambda>(neighbors, swaps, rng).
     if \<not> index < population then Inl Panic
     else let (selected_index, rng') = gen_range R index population rng in
       bind_res (swapped selected_index swaps) (\<lambda>selected.
       bind_res (swapped index swaps) (\<lambda>replacement.
       bind_res (if selected_index \<noteq> index then bind_res (table_insert 0 (word_of_nat selected_index) replacement swaps) (\<lambda>(_, t). Inr t) else Inr swaps) (\<lambda>swaps'.
         Inr (neighbors @ [if node \<le> unat selected then selected + 1 else selected], swaps', rng')))))"

text \<open>The slice of neighbours is written from its first place to its last; \<open>degree\<close> is its length.\<close>

definition sample_random_neighbors_into ::
  "'r rng_api \<Rightarrow> nat \<Rightarrow> nat \<Rightarrow> nat \<Rightarrow> u32 SparseTable \<Rightarrow> 'r \<Rightarrow> (u32 list \<times> u32 SparseTable \<times> 'r) res" where
  "sample_random_neighbors_into R node_count node degree swaps rng =
     bind_res (table_clear swaps) (\<lambda>swaps'.
     bind_res (ok_or Panic (checked_sub node_count 1)) (\<lambda>population.
       fold_res (sample_step R population node) [0..<degree] ([], swaps', rng)))"

section \<open>The first graph\<close>

definition random_node ::
  "'r rng_api \<Rightarrow> nat \<Rightarrow> nat \<Rightarrow> nat \<Rightarrow> nat \<Rightarrow> u32 list \<times> u32 SparseTable \<times> 'r \<Rightarrow> (u32 list \<times> u32 SparseTable \<times> 'r) res" where
  "random_node R node_count max_degree start_node local_node = (\<lambda>(slots, swaps, rng).
     let slot_start = local_node * max_degree in
     bind_res (sample_random_neighbors_into R node_count (start_node + local_node) max_degree swaps rng) (\<lambda>(neighbors, swaps', rng').
     bind_res (copy_from_slice slot_start (slot_start + max_degree) neighbors slots) (\<lambda>slots'. Inr (slots', swaps', rng'))))"

definition random_shard :: "'r rng_api \<Rightarrow> nat \<Rightarrow> nat \<Rightarrow> u64 \<Rightarrow> nat \<Rightarrow> AdjacencyShard res" where
  "random_shard R node_count max_degree seed index =
     (let start_node = index * PARALLEL_ADJACENCY_NODES_PER_SHARD;
          shard_node_count = min PARALLEL_ADJACENCY_NODES_PER_SHARD (node_count - start_node);
          rng = seed_from_u64 R (derived_seed seed (word_of_nat index)) in
      bind_res (with_capacity 0 max_degree) (\<lambda>swaps.
      bind_res (fold_res (random_node R node_count max_degree start_node) [0..<shard_node_count] (replicate (shard_node_count * max_degree) 0, swaps, rng)) (\<lambda>(slots, _, _).
        Inr \<lparr>sh_start_node = start_node, sh_node_count = shard_node_count, sh_slots = slots, sh_degrees = replicate shard_node_count (word_of_nat max_degree)\<rparr>)))"

text \<open>The shards are filled in parallel; each has a generator of its own and no other shared state.\<close>

definition pa_new_random :: "'r rng_api \<Rightarrow> nat \<Rightarrow> nat \<Rightarrow> u64 \<Rightarrow> ParallelAdjacency res" where
  "pa_new_random R node_count max_degree seed =
     (if \<not> max_degree \<le> node_count - 1 then Inl Panic
      else bind_res (map_res (random_shard R node_count max_degree seed) [0..<div_ceil node_count PARALLEL_ADJACENCY_NODES_PER_SHARD]) (\<lambda>shards.
        Inr \<lparr>pa_shards = shards, pa_node_count = node_count, pa_max_degree = max_degree\<rparr>))"

section \<open>Draws without replacement\<close>

text \<open>The values drawn so far and the part of the array not yet passed make up the population.\<close>

definition drawn :: "nat \<Rightarrow> nat \<Rightarrow> nat list \<Rightarrow> (nat \<Rightarrow> nat) \<Rightarrow> bool" where
  "drawn P k outs a \<longleftrightarrow> mset (outs @ map a [k..<P]) = mset [0..<P]"

lemma drawn_step:
  assumes "drawn P k outs a" "k \<le> j" "j < P"
  shows "drawn P (Suc k) (outs @ [a j]) (a(j := a k))"
proof -
  let ?rest = "map a [Suc k..<P]"
  have upt: "[k..<P] = k # [Suc k..<P]" using assms(2,3) by (simp add: upt_conv_Cons)
  have "add_mset (a j) (mset (map (a(j := a k)) [Suc k..<P])) = add_mset (a k) (mset ?rest)"
  proof (cases "j = k")
    case False
    then have i: "j - Suc k < length ?rest" "?rest ! (j - Suc k) = a j" using assms(2,3) by auto
    have "map (a(j := a k)) [Suc k..<P] = ?rest[j - Suc k := a k]" using False assms(2,3) by (intro nth_equalityI) (auto simp: nth_list_update)
    moreover have "a j \<in># mset ?rest" using i nth_mem[of "j - Suc k" ?rest] by simp
    ultimately show ?thesis using mset_update[OF i(1), of "a k"] i(2) by simp
  qed simp
  then show ?thesis using assms(1) upt by (simp add: drawn_def)
qed

definition array_of :: "nat \<Rightarrow> (nat \<Rightarrow> nat) \<Rightarrow> u32 SparseTable \<Rightarrow> bool" where
  "array_of P a t \<longleftrightarrow> table_inv t \<and> (\<forall>i < P. swapped i t = Inr (word_of_nat (a i)) \<and> a i < P)"

lemma array_start:
  assumes "table_inv t" "P < 2 ^ 30"
  shows "\<exists>t'. table_clear t = Inr t' \<and> array_of P (\<lambda>i. i) t' \<and> st_touched_slots t' = []"
proof -
  obtain t' where t': "table_clear t = Inr t'" "table_inv t'" "st_touched_slots t' = []" "occupied (st_keys t') = {}" using table_clear_spec[OF assms(1)] by blast
  have "table_get (word_of_nat i) t' = Inr None" if "i < P" for i
    using table_get_unoccupied[OF _ t'(4) node_key[OF that assms(2)]] t'(2) by (simp add: table_inv_def)
  then show ?thesis using t' by (auto simp: array_of_def swapped_def)
qed

lemma array_put:
  assumes A: "array_of P a t" and P: "P < 2 ^ 30" and j: "j < P" "x < P" and len: "length (st_touched_slots t) < 2 ^ 30"
  shows "\<exists>old t'. table_insert 0 (word_of_nat j) (word_of_nat x) t = Inr (old, t') \<and> array_of P (a(j := x)) t' \<and> length (st_touched_slots t') \<le> Suc (length (st_touched_slots t))"
proof -
  have inv: "table_inv t" using A by (simp add: array_of_def)
  obtain old t' where t': "table_insert 0 (word_of_nat j) (word_of_nat x) t = Inr (old, t')" "table_inv t'" "length (st_touched_slots t') \<le> Suc (length (st_touched_slots t))"
    "\<forall>k. k \<noteq> EMPTY_KEY \<longrightarrow> table_get k t' = (if k = word_of_nat j then Inr (Some (word_of_nat x)) else table_get k t)"
    using table_get_insert[OF inv node_key[OF j(1) P] len, of 0 "word_of_nat x"] by blast
  have "swapped i t' = Inr (word_of_nat ((a(j := x)) i)) \<and> (a(j := x)) i < P" if i: "i < P" for i
  proof -
    have "unat (word_of_nat i :: u32) = i" "unat (word_of_nat j :: u32) = j" using unat_node[of i] unat_node[of j] i j(1) P by simp_all
    then have "(word_of_nat i :: u32) = word_of_nat j \<longleftrightarrow> i = j" by metis
    then show ?thesis using t'(4) node_key[OF i P] A i j(2) by (auto simp: array_of_def swapped_def)
  qed
  then show ?thesis using t'(1-3) by (auto simp: array_of_def)
qed

text \<open>The id of a drawn value: the node itself is passed over.\<close>

definition neighbor_id :: "nat \<Rightarrow> nat \<Rightarrow> u32" where
  "neighbor_id node s = word_of_nat (if node \<le> s then s + 1 else s)"

lemma sample_step_draws:
  assumes R: "rng_ok R" and P: "P < 2 ^ 30" and k: "k < P" and A: "array_of P a t" "length (st_touched_slots t) \<le> k" and D: "drawn P k outs a"
  shows "\<exists>x a' t' r'. sample_step R P node k (ns, t, r) = Inr (ns @ [neighbor_id node x], t', r') \<and> array_of P a' t' \<and> length (st_touched_slots t') \<le> Suc k
    \<and> drawn P (Suc k) (outs @ [x]) a'"
proof -
  obtain j r' where g: "gen_range R k P r = (j, r')" by (cases "gen_range R k P r")
  have j: "k \<le> j" "j < P" using R k g unfolding rng_ok_def by (metis fst_conv)+
  have get: "swapped j t = Inr (word_of_nat (a j))" "a j < P" "swapped k t = Inr (word_of_nat (a k))" "a k < P" using A(1) j k by (auto simp: array_of_def)
  obtain t' where t': "(if j \<noteq> k then bind_res (table_insert 0 (word_of_nat j) (word_of_nat (a k)) t) (\<lambda>(_, t). Inr t) else Inr t) = Inr t'" "array_of P (a(j := a k)) t'" "length (st_touched_slots t') \<le> Suc k"
    using array_put[OF A(1) P j(2) get(4)] A k P by (cases "j = k") fastforce+
  have "(if node \<le> unat (word_of_nat (a j) :: u32) then word_of_nat (a j) + 1 else word_of_nat (a j)) = neighbor_id node (a j)"
    using unat_node[of "a j"] get(2) P by (simp add: neighbor_id_def)
  then have "sample_step R P node k (ns, t, r) = Inr (ns @ [neighbor_id node (a j)], t', r')" using get k g t'(1) by (simp add: sample_step_def Let_def)
  then show ?thesis using drawn_step[OF D j] t'(2,3) by blast
qed

lemma sample_draws:
  assumes R: "rng_ok R" and P: "P < 2 ^ 30" and k: "k + c \<le> P" and A: "array_of P a t" "length (st_touched_slots t) \<le> k" and D: "drawn P k outs a"
  shows "\<exists>outs' a' t' r'. fold_res (sample_step R P node) [k..<k + c] (map (neighbor_id node) outs, t, r) = Inr (map (neighbor_id node) outs', t', r')
    \<and> length outs' = length outs + c \<and> table_inv t' \<and> drawn P (k + c) outs' a'"
  using k A D
proof (induction c arbitrary: k a t outs r)
  case (Suc c)
  have k: "k < P" using Suc.prems(1) by simp
  obtain x a1 t1 r1 where s: "sample_step R P node k (map (neighbor_id node) outs, t, r) = Inr (map (neighbor_id node) outs @ [neighbor_id node x], t1, r1)"
    "array_of P a1 t1" "length (st_touched_slots t1) \<le> Suc k" "drawn P (Suc k) (outs @ [x]) a1" using sample_step_draws[OF R P k Suc.prems(2-4)] by blast
  obtain outs' a' t' r' where IH: "fold_res (sample_step R P node) [Suc k..<Suc k + c] (map (neighbor_id node) (outs @ [x]), t1, r1) = Inr (map (neighbor_id node) outs', t', r')"
    "length outs' = length (outs @ [x]) + c" "table_inv t'" "drawn P (Suc k + c) outs' a'" using Suc.IH[OF _ s(2-4), of r1] Suc.prems(1) by auto
  have "[k..<k + Suc c] = k # [Suc k..<Suc k + c]" by (simp add: upt_conv_Cons)
  then have "fold_res (sample_step R P node) [k..<k + Suc c] (map (neighbor_id node) outs, t, r) = Inr (map (neighbor_id node) outs', t', r')" using s(1) IH(1) by simp
  then show ?case using IH(2-4) by (intro exI[of _ outs'] exI[of _ a'] exI[of _ t'] exI[of _ r']) simp
qed (use A in \<open>auto simp: array_of_def\<close>)

definition fresh_row :: "nat \<Rightarrow> nat \<Rightarrow> nat \<Rightarrow> u32 list \<Rightarrow> bool" where
  "fresh_row n md node ns \<longleftrightarrow> length ns = md \<and> distinct ns \<and> (\<forall>x \<in> set ns. unat x < n \<and> unat x \<noteq> node)"

lemma sample_random_neighbors:
  assumes R: "rng_ok R" and n: "n < 2 ^ 30" "0 < n" "md \<le> n - 1" and t: "table_inv t"
  shows "\<exists>ns t' r'. sample_random_neighbors_into R n node md t r = Inr (ns, t', r') \<and> table_inv t' \<and> fresh_row n md node ns"
proof -
  let ?P = "n - 1"
  have P: "?P < 2 ^ 30" using n(1) by simp
  obtain t0 where t0: "table_clear t = Inr t0" "array_of ?P (\<lambda>i. i) t0" "st_touched_slots t0 = []" using array_start[OF t P] by blast
  have D: "drawn ?P 0 [] (\<lambda>i. i)" by (simp add: drawn_def)
  obtain outs a' t' r' where f: "fold_res (sample_step R ?P node) [0..<md] ([], t0, r) = Inr (map (neighbor_id node) outs, t', r')" "length outs = md" "table_inv t'" "drawn ?P md outs a'"
    using sample_draws[OF R P _ t0(2) _ D, of md node r] t0(3) n(3) by auto
  have "distinct (outs @ map a' [md..<?P])" "set (outs @ map a' [md..<?P]) = {0..<?P}"
    using f(4) mset_eq_imp_distinct_iff[of "outs @ map a' [md..<?P]" "[0..<?P]"] mset_eq_setD[of "outs @ map a' [md..<?P]" "[0..<?P]"] unfolding drawn_def by auto
  then have o: "distinct outs" "\<forall>s \<in> set outs. s < ?P" by auto
  have id: "unat (neighbor_id node s) = (if node \<le> s then s + 1 else s)" if "s \<in> set outs" for s
    using o(2) that n(1) unat_node[of "if node \<le> s then s + 1 else s"] by (auto simp: neighbor_id_def)
  have "inj_on (neighbor_id node) (set outs)"
  proof (rule inj_onI)
    fix x y assume xy: "x \<in> set outs" "y \<in> set outs" "neighbor_id node x = neighbor_id node y"
    have "(if node \<le> x then x + 1 else x) = (if node \<le> y then y + 1 else y)" using id[OF xy(1)] id[OF xy(2)] unfolding xy(3) by simp
    then show "x = y" by (simp split: if_splits)
  qed
  then have "fresh_row n md node (map (neighbor_id node) outs)" using f(2) o id n(2) by (auto simp: fresh_row_def distinct_map split: if_splits)
  moreover have "sample_random_neighbors_into R n node md t r = Inr (map (neighbor_id node) outs, t', r')"
    using f(1) t0(1) n(2) by (simp add: sample_random_neighbors_into_def checked_sub_def)
  ultimately show ?thesis using f(3) by blast
qed

lemma random_nodes:
  assumes R: "rng_ok R" and n: "n < 2 ^ 30" "0 < n" "md \<le> n - 1" and slots: "length slots = c * md" "k \<le> c" "\<forall>l < k. fresh_row n md (start + l) (row_of md slots l)" and t: "table_inv t"
  shows "\<exists>slots' t' r'. fold_res (random_node R n md start) [k..<c] (slots, t, r) = Inr (slots', t', r') \<and> length slots' = c * md
    \<and> (\<forall>l < c. fresh_row n md (start + l) (row_of md slots' l))"
  using slots t
proof (induction "c - k" arbitrary: k slots t r)
  case (Suc m)
  then have k: "k < c" by simp
  obtain ns t1 r1 where s: "sample_random_neighbors_into R n (start + k) md t r = Inr (ns, t1, r1)" "table_inv t1" "fresh_row n md (start + k) ns"
    using sample_random_neighbors[OF R n Suc.prems(4)] by blast
  have len: "length ns = md" using s(3) by (simp add: fresh_row_def)
  note C = copied_row[OF Suc.prems(1) k len]
  let ?zs = "take (k * md) slots @ ns @ drop (k * md + md) slots"
  have "fresh_row n md (start + l) (row_of md ?zs l)" if "l < Suc k" for l
    using that k Suc.prems(3) s(3) C(3) C(4)[of l] by (cases "l = k") auto
  then have rows: "\<forall>l < Suc k. fresh_row n md (start + l) (row_of md ?zs l)" by blast
  have m: "m = c - Suc k" "Suc k \<le> c" using Suc.hyps(2) k by simp_all
  obtain slots' t' r' where IH: "fold_res (random_node R n md start) [Suc k..<c] (?zs, t1, r1) = Inr (slots', t', r')" "length slots' = c * md" "\<forall>l < c. fresh_row n md (start + l) (row_of md slots' l)"
    using Suc.hyps(1)[OF m(1) C(2) m(2) rows s(2)] by blast
  have "random_node R n md start k (slots, t, r) = Inr (?zs, t1, r1)" using s(1) C(1) by (simp add: random_node_def Let_def)
  then have "fold_res (random_node R n md start) [k..<c] (slots, t, r) = Inr (slots', t', r')" using IH(1) k by (simp add: upt_conv_Cons)
  then show ?case using IH(2,3) by blast
qed auto

lemma random_shard_eq:
  assumes R: "rng_ok R" and n: "n < 2 ^ 30" "0 < n" "md \<le> n - 1" "md < 2 ^ 16"
  shows "\<exists>sh. random_shard R n md seed i = Inr sh \<and> sh_start_node sh = i * 256 \<and> sh_node_count sh = min 256 (n - i * 256) \<and> shard_ok md sh
    \<and> (\<forall>l < sh_node_count sh. fresh_row n md (i * 256 + l) (shard_row md sh l))"
proof -
  let ?c = "min 256 (n - i * 256)" and ?r = "seed_from_u64 R (derived_seed seed (word_of_nat i))"
  obtain t :: "u32 SparseTable" where t: "with_capacity 0 md = Inr t" "table_inv t" using with_capacity_inv[of md 0] n(4) by auto
  obtain slots t' r' where s: "fold_res (random_node R n md (i * 256)) [0..<?c] (replicate (?c * md) 0, t, ?r) = Inr (slots, t', r')" "length slots = ?c * md"
    "\<forall>l < ?c. fresh_row n md (i * 256 + l) (row_of md slots l)" using random_nodes[OF R n(1-3), of "replicate (?c * md) 0" ?c 0 "i * 256" t ?r] t(2) by auto
  let ?sh = "\<lparr>sh_start_node = i * 256, sh_node_count = ?c, sh_slots = slots, sh_degrees = replicate ?c (word_of_nat md)\<rparr>"
  have u: "unat (word_of_nat md :: u16) = md" using n(4) by (simp add: unat_of_nat)
  have "random_shard R n md seed i = Inr ?sh" using t(1) s(1) by (simp add: random_shard_def Let_def PARALLEL_ADJACENCY_NODES_PER_SHARD_def)
  moreover have "shard_ok md ?sh" using s(2) u n(4) by (auto simp: shard_ok_def list_all_iff)
  moreover have "shard_row md ?sh l = row_of md slots l" if "l < ?c" for l using length_row_of[OF s(2) that] that u by (simp add: shard_row_def)
  ultimately show ?thesis using s(3) by auto
qed

lemma random_rows:
  assumes "rng_ok R" "n < 2 ^ 30" "0 < n" "md \<le> n - 1" "md < 2 ^ 16"
  shows "\<exists>pa. pa_new_random R n md seed = Inr pa \<and> pa_ok pa \<and> pa_node_count pa = n \<and> pa_max_degree pa = md
    \<and> (\<forall>v < n. length (pa_adj pa ! v) = md \<and> distinct (pa_adj pa ! v) \<and> (\<forall>x \<in> set (pa_adj pa ! v). unat x < n \<and> unat x \<noteq> v))"
proof -
  have "\<forall>i. \<exists>sh. random_shard R n md seed i = Inr sh \<and> sh_start_node sh = i * 256 \<and> sh_node_count sh = min 256 (n - i * 256) \<and> shard_ok md sh
    \<and> (\<forall>l < sh_node_count sh. fresh_row n md (i * 256 + l) (shard_row md sh l))" using random_shard_eq[OF assms] by blast
  then obtain F where F: "random_shard R n md seed i = Inr (F i)" "sh_start_node (F i) = i * 256" "sh_node_count (F i) = min 256 (n - i * 256)" "shard_ok md (F i)"
    "\<forall>l < sh_node_count (F i). fresh_row n md (i * 256 + l) (shard_row md (F i) l)" for i by metis
  let ?k = "div_ceil n 256"
  let ?pa = "\<lparr>pa_shards = map F [0..<?k], pa_node_count = n, pa_max_degree = md\<rparr>"
  have run: "pa_new_random R n md seed = Inr ?pa"
    using map_res_Inr_map[of "[0..<?k]" "random_shard R n md seed" F] F(1) assms(4) by (simp add: pa_new_random_def PARALLEL_ADJACENCY_NODES_PER_SHARD_def)
  have ok: "shards_ok n md (map F [0..<?k])" using F(2-4) by (simp add: shards_ok_def)
  have "fresh_row n md v (pa_adj ?pa ! v)" if v: "v < n" for v
  proof -
    note S = shard_of_node[OF ok v]
    have i: "shard_index v < ?k" using S(1) by simp
    have "fresh_row n md (shard_index v * 256 + v mod 256) (shard_row md (F (shard_index v)) (v mod 256))" using F(5) S(4) i by simp
    moreover have "shard_index v * 256 + v mod 256 = v" using S(3) F(2) i by simp
    ultimately show ?thesis using S(5) i by (simp add: pa_adj_def)
  qed
  then show ?thesis using run ok by (intro exI[of _ ?pa]) (simp add: pa_ok_def fresh_row_def)
qed

text \<open>C18: The random graph of a build is regular: whatever the generator draws, within its documentation, filling the
  shards succeeds and gives every node exactly the requested number of neighbours, all different, all
  existing, and never the node itself.\<close>
theorem random_graph_regular:
  assumes "rng_ok R" "n < 2 ^ 30" "0 < n" "md \<le> n - 1" "md < 2 ^ 16"
  shows "\<exists>pa. pa_new_random R n md seed = Inr pa \<and> pa_ok pa \<and> pa_node_count pa = n \<and> pa_max_degree pa = md
    \<and> (\<forall>v < n. length (pa_adj pa ! v) = md \<and> distinct (pa_adj pa ! v) \<and> (\<forall>x \<in> set (pa_adj pa ! v). unat x < n \<and> unat x \<noteq> v))"
  using random_rows[OF assms] .

text \<open>A generator that always draws the least value and leaves slices in order.\<close>

definition first_rng :: "unit rng_api" where
  "first_rng = \<lparr>seed_from_u64 = (\<lambda>_. ()), gen_range = (\<lambda>lo hi r. (lo, r)), shuffle_places = (\<lambda>k r. ([0..<k], r))\<rparr>"

lemma first_rng_ok: "rng_ok first_rng"
  by (simp add: rng_ok_def first_rng_def)

theorem random_graph_regular_witness: "\<exists>pa. pa_new_random first_rng 5 3 7 = Inr pa \<and> length (pa_adj pa ! 4) = 3"
  using random_graph_regular[OF first_rng_ok, of 5 3 7] by auto

end
