(* ===== verification/Pq_Layout.thy ===== *)
theory Pq_Layout
  imports Distance
begin

text \<open>
  The layout of a product quantiser (\<open>core/src/pq.rs\<close>): chunks of the dimension, their codebooks, and the packing
  of codes into bytes. The balanced constructor is shown to give a valid layout, and a valid layout to
  keep each access to the codebook in range.
\<close>

text \<open>The transposed codebook is a cache that the modelled operations do not read.\<close>

record ProductQuantizer =
  pq_d :: nat
  pq_m :: nat
  pq_nbits :: nat
  pq_dsub :: nat
  pq_ksub :: nat
  pq_chunk_offsets :: "nat list"
  pq_centroids :: "f32 list"
  pq_centroids_are_finite :: bool
  pq_centroid_norms_cache :: "f32 list"

text \<open>\<open>windows(2)\<close>.\<close>

definition windows2 :: "'a list \<Rightarrow> ('a \<times> 'a) list" where
  "windows2 xs = zip xs (drop 1 xs)"

definition with_validated_chunk_offsets :: "nat \<Rightarrow> nat \<Rightarrow> nat list \<Rightarrow> ProductQuantizer res" where
  "with_validated_chunk_offsets d nbits chunk_offsets =
     (if nbits \<noteq> 4 \<and> nbits \<noteq> 8 then Inl Panic
      else bind_res (ok_or Panic (checked_sub (length chunk_offsets) 1)) (\<lambda>m.
      bind_res (map_res (\<lambda>(a, b). ok_or Panic (checked_sub b a)) (windows2 chunk_offsets)) (\<lambda>widths.
      if widths = [] then Inl Panic
      else Inr \<lparr>pq_d = d, pq_m = m, pq_nbits = nbits, pq_dsub = Max (set widths), pq_ksub = 2 ^ nbits, pq_chunk_offsets = chunk_offsets,
        pq_centroids = [], pq_centroids_are_finite = True, pq_centroid_norms_cache = []\<rparr>)))"

definition pq_with_nbits :: "nat \<Rightarrow> nat \<Rightarrow> nat \<Rightarrow> ProductQuantizer res" where
  "pq_with_nbits d m nbits =
     (if m = 0 \<or> d mod m \<noteq> 0 then Inl Panic
      else with_validated_chunk_offsets d nbits (map (\<lambda>chunk. chunk * (d div m)) [0..<m + 1]))"

definition pq_new :: "nat \<Rightarrow> nat \<Rightarrow> ProductQuantizer res" where
  "pq_new d m = pq_with_nbits d m 8"

fun balanced_offsets :: "nat \<Rightarrow> nat \<Rightarrow> nat \<Rightarrow> nat list \<Rightarrow> nat list" where
  "balanced_offsets base remainder offset [] = []"
| "balanced_offsets base remainder offset (chunk # chunks) =
     (let offset' = offset + (base + (if chunk < remainder then 1 else 0)) in
      offset' # balanced_offsets base remainder offset' chunks)"

definition pq_with_nbits_balanced :: "nat \<Rightarrow> nat \<Rightarrow> nat \<Rightarrow> ProductQuantizer res" where
  "pq_with_nbits_balanced d m nbits =
     (if d = 0 then Inl Panic
      else if \<not> (0 < m \<and> m \<le> d) then Inl Panic
      else with_validated_chunk_offsets d nbits (0 # balanced_offsets (d div m) (d mod m) 0 [0..<m]))"

text \<open>The errors are only messages, so they are one value here.\<close>

definition try_with_chunk_offsets :: "nat \<Rightarrow> nat \<Rightarrow> nat list \<Rightarrow> ProductQuantizer option res" where
  "try_with_chunk_offsets d nbits chunk_offsets =
     (if d = 0 \<or> nbits \<noteq> 4 \<and> nbits \<noteq> 8 \<or> length chunk_offsets < 2 then Inr None
      else if hd chunk_offsets \<noteq> 0 \<or> last chunk_offsets \<noteq> d then Inr None
      else if list_ex (\<lambda>(a, b). b \<le> a) (windows2 chunk_offsets) then Inr None
      else bind_res (with_validated_chunk_offsets d nbits chunk_offsets) (\<lambda>pq. Inr (Some pq)))"

definition pq_chunk_range :: "nat \<Rightarrow> ProductQuantizer \<Rightarrow> (nat \<times> nat) res" where
  "pq_chunk_range sub pq = bind_res (idx (pq_chunk_offsets pq) sub) (\<lambda>a. bind_res (idx (pq_chunk_offsets pq) (sub + 1)) (\<lambda>b. Inr (a, b)))"

definition pq_chunk_dim :: "nat \<Rightarrow> ProductQuantizer \<Rightarrow> nat res" where
  "pq_chunk_dim sub pq =
     bind_res (idx (pq_chunk_offsets pq) (sub + 1)) (\<lambda>b. bind_res (idx (pq_chunk_offsets pq) sub) (\<lambda>a. ok_or Panic (checked_sub b a)))"

definition pq_centroid_chunk_base :: "nat \<Rightarrow> ProductQuantizer \<Rightarrow> nat res" where
  "pq_centroid_chunk_base sub pq = bind_res (idx (pq_chunk_offsets pq) sub) (\<lambda>a. Inr (a * pq_ksub pq))"

definition pq_has_valid_layout :: "ProductQuantizer \<Rightarrow> bool res" where
  "pq_has_valid_layout pq =
     bind_res (try_with_chunk_offsets (pq_d pq) (pq_nbits pq) (pq_chunk_offsets pq)) (\<lambda>r.
       Inr (case r of None \<Rightarrow> False
         | Some layout \<Rightarrow> pq_m layout = pq_m pq \<and> pq_dsub layout = pq_dsub pq \<and> pq_ksub layout = pq_ksub pq
             \<and> length (pq_centroids pq) = pq_d pq * pq_ksub pq))"

text \<open>One codebook entry: row \<open>j\<close> of the chunk.\<close>

definition pq_centroid :: "f32 list \<Rightarrow> nat \<Rightarrow> nat \<Rightarrow> nat \<Rightarrow> f32 list res" where
  "pq_centroid centroids c_base chunk_dim j = (let c_off = c_base + j * chunk_dim in subslice c_off (c_off + chunk_dim) centroids)"

definition try_compute_centroid_norms :: "arch \<Rightarrow> f32 list \<Rightarrow> ProductQuantizer \<Rightarrow> f32 list res" where
  "try_compute_centroid_norms t centroids pq =
     bind_res (map_res (\<lambda>sub.
       bind_res (pq_chunk_dim sub pq) (\<lambda>chunk_dim.
       bind_res (pq_centroid_chunk_base sub pq) (\<lambda>c_base.
         map_res (\<lambda>j. bind_res (pq_centroid centroids c_base chunk_dim j) (\<lambda>c. Inr (fvec_norm_l2sqr t c))) [0..<pq_ksub pq]))) [0..<pq_m pq]) (\<lambda>norms.
     Inr (concat norms))"

definition pq_set_centroids :: "arch \<Rightarrow> f32 list \<Rightarrow> ProductQuantizer \<Rightarrow> ProductQuantizer res" where
  "pq_set_centroids t centroids pq =
     (if length centroids \<noteq> pq_d pq * pq_ksub pq then Inl Panic
      else bind_res (try_compute_centroid_norms t centroids pq) (\<lambda>norms.
        Inr (pq\<lparr>pq_centroids_are_finite := list_all is_finite centroids, pq_centroids := centroids, pq_centroid_norms_cache := norms\<rparr>)))"

definition pq_code_size :: "ProductQuantizer \<Rightarrow> nat" where
  "pq_code_size pq = (if pq_nbits pq = 4 then div_ceil (pq_m pq) 2 else pq_m pq)"

text \<open>The code of one chunk, as \<open>decode\<close> reads it.\<close>

definition pq_code_at :: "nat \<Rightarrow> u8 list \<Rightarrow> nat \<Rightarrow> nat res" where
  "pq_code_at nbits codes sub =
     (if nbits = 4 then bind_res (idx codes (sub div 2)) (\<lambda>byte. Inr (unat (if sub mod 2 = 0 then byte AND 0x0F else drop_bit 4 byte)))
      else bind_res (idx codes sub) (\<lambda>byte. Inr (unat byte)))"

definition decode_chunk :: "ProductQuantizer \<Rightarrow> u8 list \<Rightarrow> nat \<Rightarrow> f32 list \<Rightarrow> f32 list res" where
  "decode_chunk pq codes sub x =
     bind_res (pq_code_at (pq_nbits pq) codes sub) (\<lambda>code.
     bind_res (pq_chunk_range sub pq) (\<lambda>(a, b).
     bind_res (pq_centroid_chunk_base sub pq) (\<lambda>c_base.
     bind_res (pq_centroid (pq_centroids pq) c_base (b - a) code) (\<lambda>c. copy_from_slice a b c x))))"

definition pq_decode :: "u8 list \<Rightarrow> f32 list \<Rightarrow> ProductQuantizer \<Rightarrow> f32 list res" where
  "pq_decode codes x pq = fold_res (decode_chunk pq codes) [0..<pq_m pq] x"

section \<open>Valid layouts\<close>

definition layout_ok :: "ProductQuantizer \<Rightarrow> bool" where
  "layout_ok pq \<longleftrightarrow> (pq_nbits pq = 4 \<or> pq_nbits pq = 8) \<and> pq_ksub pq = 2 ^ pq_nbits pq \<and> 0 < pq_m pq \<and> length (pq_chunk_offsets pq) = pq_m pq + 1
     \<and> pq_chunk_offsets pq ! 0 = 0 \<and> pq_chunk_offsets pq ! pq_m pq = pq_d pq \<and> (\<forall>i < pq_m pq. pq_chunk_offsets pq ! i < pq_chunk_offsets pq ! (i + 1))
     \<and> length (pq_centroids pq) = pq_d pq * pq_ksub pq"

lemma windows2_set: "set (windows2 xs) = {(xs ! i, xs ! (i + 1)) | i. i + 1 < length xs}"
  unfolding windows2_def set_zip by auto

lemma with_validated_eq:
  assumes "nbits = 4 \<or> nbits = 8" "length offs = m + 1" "0 < m" "\<forall>i < m. offs ! i \<le> offs ! (i + 1)"
  shows "\<exists>w. with_validated_chunk_offsets d nbits offs = Inr \<lparr>pq_d = d, pq_m = m, pq_nbits = nbits, pq_dsub = w, pq_ksub = 2 ^ nbits, pq_chunk_offsets = offs,
    pq_centroids = [], pq_centroids_are_finite = True, pq_centroid_norms_cache = []\<rparr>"
proof -
  have "\<forall>p \<in> set (windows2 offs). (\<lambda>(a, b). ok_or Panic (checked_sub b a)) p = Inr (snd p - fst p)"
    using assms(2,4) by (auto simp: windows2_set checked_sub_def)
  then have "map_res (\<lambda>(a, b). ok_or Panic (checked_sub b a)) (windows2 offs) = Inr (map (\<lambda>p. snd p - fst p) (windows2 offs))"
    by (intro map_res_Inr_map) blast
  moreover have "windows2 offs \<noteq> []" using assms(2,3) by (cases offs) (auto simp: windows2_def)
  ultimately show ?thesis using assms(1,2) by (auto simp: with_validated_chunk_offsets_def checked_sub_def)
qed

lemma valid_layout: "pq_has_valid_layout pq = Inr True \<Longrightarrow> layout_ok pq"
proof -
  assume v: "pq_has_valid_layout pq = Inr True"
  let ?o = "pq_chunk_offsets pq"
  obtain layout where l: "try_with_chunk_offsets (pq_d pq) (pq_nbits pq) ?o = Inr (Some layout)" "pq_m layout = pq_m pq" "pq_ksub layout = pq_ksub pq"
    "length (pq_centroids pq) = pq_d pq * pq_ksub pq" using v by (auto simp: pq_has_valid_layout_def bind_res_eq_Inr split: option.splits)
  have t: "pq_nbits pq = 4 \<or> pq_nbits pq = 8" "2 \<le> length ?o" "hd ?o = 0" "last ?o = pq_d pq" "\<forall>(a, b) \<in> set (windows2 ?o). a < b"
    "with_validated_chunk_offsets (pq_d pq) (pq_nbits pq) ?o = Inr layout"
    using l(1) by (auto simp: try_with_chunk_offsets_def list_ex_iff not_le bind_res_eq_Inr split: if_splits)
  obtain m where m: "length ?o = m + 1" "0 < m" using t(2) by (cases "length ?o - 1") (auto intro: that[of "length ?o - 1"])
  have inc: "\<forall>i < m. ?o ! i < ?o ! (i + 1)" using t(5) m(1) by (auto simp: windows2_set)
  have "pq_m layout = m" "pq_ksub layout = 2 ^ pq_nbits pq" using with_validated_eq[OF t(1) m, of "pq_d pq"] inc t(6) by (auto simp: less_imp_le)
  moreover have "?o \<noteq> []" using t(2) by auto
  then have "?o ! 0 = 0" "?o ! m = pq_d pq" using t(3,4) m by (simp_all add: hd_conv_nth last_conv_nth)
  ultimately show ?thesis using t(1) l(2-4) m inc by (simp add: layout_ok_def)
qed

lemma offsets_mono:
  assumes "layout_ok pq" "i \<le> j" "j \<le> pq_m pq"
  shows "pq_chunk_offsets pq ! i \<le> pq_chunk_offsets pq ! j"
  using assms(2,3)
proof (induction j)
  case (Suc j)
  show ?case
  proof (cases "i = Suc j")
    case False
    then have "pq_chunk_offsets pq ! i \<le> pq_chunk_offsets pq ! j" using Suc by simp
    moreover have "pq_chunk_offsets pq ! j < pq_chunk_offsets pq ! Suc j" using assms(1) Suc.prems(2) by (simp add: layout_ok_def)
    ultimately show ?thesis by simp
  qed simp
qed simp

definition chunk_width :: "ProductQuantizer \<Rightarrow> nat \<Rightarrow> nat" where
  "chunk_width pq sub = pq_chunk_offsets pq ! (sub + 1) - pq_chunk_offsets pq ! sub"

definition codebook_row :: "ProductQuantizer \<Rightarrow> nat \<Rightarrow> nat \<Rightarrow> f32 list" where
  "codebook_row pq sub j = slice (pq_chunk_offsets pq ! sub * pq_ksub pq + j * chunk_width pq sub) (pq_chunk_offsets pq ! sub * pq_ksub pq + j * chunk_width pq sub + chunk_width pq sub) (pq_centroids pq)"

text \<open>In a valid layout every chunk and every codebook row is in range.\<close>

lemma layout_chunk:
  assumes ok: "layout_ok pq" and sub: "sub < pq_m pq"
  shows "pq_chunk_range sub pq = Inr (pq_chunk_offsets pq ! sub, pq_chunk_offsets pq ! (sub + 1))" "pq_chunk_dim sub pq = Inr (chunk_width pq sub)"
    "pq_centroid_chunk_base sub pq = Inr (pq_chunk_offsets pq ! sub * pq_ksub pq)" "0 < chunk_width pq sub"
    "pq_chunk_offsets pq ! sub + chunk_width pq sub = pq_chunk_offsets pq ! (sub + 1)" "pq_chunk_offsets pq ! (sub + 1) \<le> pq_d pq"
proof -
  have o: "length (pq_chunk_offsets pq) = pq_m pq + 1" "pq_chunk_offsets pq ! sub < pq_chunk_offsets pq ! (sub + 1)" "pq_chunk_offsets pq ! pq_m pq = pq_d pq"
    using ok sub by (auto simp: layout_ok_def)
  then show "pq_chunk_range sub pq = Inr (pq_chunk_offsets pq ! sub, pq_chunk_offsets pq ! (sub + 1))" "pq_chunk_dim sub pq = Inr (chunk_width pq sub)"
    "pq_centroid_chunk_base sub pq = Inr (pq_chunk_offsets pq ! sub * pq_ksub pq)" "0 < chunk_width pq sub" "pq_chunk_offsets pq ! sub + chunk_width pq sub = pq_chunk_offsets pq ! (sub + 1)"
    using sub by (simp_all add: pq_chunk_range_def pq_chunk_dim_def pq_centroid_chunk_base_def idx_def checked_sub_def chunk_width_def)
  show "pq_chunk_offsets pq ! (sub + 1) \<le> pq_d pq" using offsets_mono[OF ok, of "sub + 1" "pq_m pq"] sub o(3) by simp
qed

lemma codebook_row_eq:
  assumes ok: "layout_ok pq" and sub: "sub < pq_m pq" and j: "j < pq_ksub pq" and c: "length centroids = pq_d pq * pq_ksub pq"
  defines "b \<equiv> pq_chunk_offsets pq ! sub * pq_ksub pq + j * chunk_width pq sub"
  shows "b + chunk_width pq sub \<le> length centroids"
    "pq_centroid centroids (pq_chunk_offsets pq ! sub * pq_ksub pq) (chunk_width pq sub) j = Inr (slice b (b + chunk_width pq sub) centroids)"
proof -
  note L = layout_chunk[OF ok sub]
  have "j * chunk_width pq sub + chunk_width pq sub = Suc j * chunk_width pq sub" by simp
  also have "\<dots> \<le> pq_ksub pq * chunk_width pq sub" using j by (intro mult_le_mono1) simp
  finally have "b + chunk_width pq sub \<le> (pq_chunk_offsets pq ! sub + chunk_width pq sub) * pq_ksub pq" by (simp add: b_def algebra_simps)
  also have "\<dots> \<le> pq_d pq * pq_ksub pq" using L(5,6) by (intro mult_le_mono1) simp
  finally show "b + chunk_width pq sub \<le> length centroids" using c by simp
  then show "pq_centroid centroids (pq_chunk_offsets pq ! sub * pq_ksub pq) (chunk_width pq sub) j = Inr (slice b (b + chunk_width pq sub) centroids)"
    by (simp add: pq_centroid_def subslice_def b_def Let_def)
qed

section \<open>The balanced layout\<close>

lemma balanced_offsets_closed:
  "k \<le> m \<Longrightarrow> balanced_offsets b r (k * b + min k r) [k..<m] = map (\<lambda>i. i * b + min i r) [Suc k..<Suc m]"
proof (induction "m - k" arbitrary: k)
  case (Suc x)
  then have k: "k < m" "x = m - Suc k" "Suc k \<le> m" by auto
  have step: "k * b + min k r + (b + (if k < r then 1 else 0)) = Suc k * b + min (Suc k) r" by auto
  have l: "[k..<m] = k # [Suc k..<m]" using k(1) by (simp add: upt_conv_Cons)
  have "[Suc k..<Suc m] = Suc k # [Suc (Suc k)..<Suc m]" using k(1) by (intro upt_conv_Cons) simp
  then show ?case unfolding l balanced_offsets.simps Let_def step using Suc.hyps(1)[OF k(2,3)] by simp
qed simp

lemma balanced_plan: "0 # balanced_offsets b r 0 [0..<m] = map (\<lambda>i. i * b + min i r) [0..<Suc m]"
proof -
  have "[0..<Suc m] = 0 # [Suc 0..<Suc m]" by (simp add: upt_conv_Cons del: upt_Suc)
  then show ?thesis using balanced_offsets_closed[of 0 m b r] by (simp del: upt_Suc)
qed

lemma set_centroids_eq:
  assumes "layout_ok (pq\<lparr>pq_centroids := centroids\<rparr>)"
  shows "\<exists>norms. pq_set_centroids t centroids pq = Inr (pq\<lparr>pq_centroids_are_finite := list_all is_finite centroids, pq_centroids := centroids, pq_centroid_norms_cache := norms\<rparr>)
    \<and> length norms = pq_m pq * pq_ksub pq"
proof -
  let ?p = "pq\<lparr>pq_centroids := centroids\<rparr>"
  have len: "length centroids = pq_d pq * pq_ksub pq" using assms by (simp add: layout_ok_def)
  have same: "pq_chunk_dim sub pq = pq_chunk_dim sub ?p" "pq_centroid_chunk_base sub pq = pq_centroid_chunk_base sub ?p" for sub by (simp_all add: pq_chunk_dim_def pq_centroid_chunk_base_def)
  let ?row = "\<lambda>sub. map (\<lambda>j. fvec_norm_l2sqr t (codebook_row ?p sub j)) [0..<pq_ksub pq]"
  have row: "map_res (\<lambda>j. bind_res (pq_centroid centroids (pq_chunk_offsets ?p ! sub * pq_ksub ?p) (chunk_width ?p sub) j) (\<lambda>c. Inr (fvec_norm_l2sqr t c))) [0..<pq_ksub pq] = Inr (?row sub)"
    if "sub < pq_m pq" for sub
    using codebook_row_eq(2)[OF assms, of sub _ centroids] that len by (intro map_res_Inr_map) (simp add: codebook_row_def)
  have "map_res (\<lambda>sub. bind_res (pq_chunk_dim sub pq) (\<lambda>chunk_dim. bind_res (pq_centroid_chunk_base sub pq) (\<lambda>c_base.
      map_res (\<lambda>j. bind_res (pq_centroid centroids c_base chunk_dim j) (\<lambda>c. Inr (fvec_norm_l2sqr t c))) [0..<pq_ksub pq]))) [0..<pq_m pq] = Inr (map ?row [0..<pq_m pq])"
    using layout_chunk(2,3)[OF assms] row by (intro map_res_Inr_map) (simp add: same)
  moreover have "length (concat (map ?row [0..<pq_m pq])) = pq_m pq * pq_ksub pq" by (simp add: length_concat comp_def sum_list_triv)
  ultimately show ?thesis using len by (intro exI[of _ "concat (map ?row [0..<pq_m pq])"]) (simp add: pq_set_centroids_def try_compute_centroid_norms_def)
qed

text \<open>C19: A balanced layout is well typed. For every dimension and number of chunks between one and the dimension,
  the constructor succeeds, its chunks cover the dimension without gaps, their widths differ by at most
  one with the wider ones first, and once a codebook of the right size is set the quantiser passes
  \<open>has_valid_layout\<close> with one norm per codebook entry.\<close>

theorem balanced_layout_valid:
  assumes m: "0 < m" "m \<le> d" and nbits: "nbits = 4 \<or> nbits = 8" and len: "length centroids = d * 2 ^ nbits"
  shows "\<exists>pq pq'. pq_with_nbits_balanced d m nbits = Inr pq \<and> pq_set_centroids t centroids pq = Inr pq' \<and> pq_has_valid_layout pq' = Inr True
    \<and> length (pq_centroid_norms_cache pq') = m * 2 ^ nbits \<and> pq_chunk_range 0 pq' = Inr (0, chunk_width pq' 0) \<and> pq_chunk_offsets pq' ! m = d
    \<and> (\<forall>sub < m. pq_chunk_dim sub pq' = Inr (d div m + (if sub < d mod m then 1 else 0)))"
proof -
  let ?o = "map (\<lambda>i. i * (d div m) + min i (d mod m)) [0..<Suc m]"
  have at: "?o ! i = i * (d div m) + min i (d mod m)" if "i \<le> m" for i using that nth_map_upt[of i "Suc m" 0] by simp
  have inc: "\<forall>i < m. ?o ! i < ?o ! (i + 1)" 
  proof (intro allI impI)
    fix i assume i: "i < m"
    have "0 < d div m" using m by (simp add: div_greater_zero_iff)
    moreover have "min i (d mod m) \<le> min (i + 1) (d mod m)" by simp
    ultimately show "?o ! i < ?o ! (i + 1)" using i by (simp add: at del: upt_Suc)
  qed
  have end_: "?o ! m = d" using m(1) by (simp add: at less_imp_le min_absorb2 del: upt_Suc)
  have lo: "length ?o = m + 1" "?o ! 0 = 0" by (simp_all add: at del: upt_Suc)
  obtain w where w: "with_validated_chunk_offsets d nbits ?o = Inr \<lparr>pq_d = d, pq_m = m, pq_nbits = nbits, pq_dsub = w, pq_ksub = 2 ^ nbits, pq_chunk_offsets = ?o,
    pq_centroids = [], pq_centroids_are_finite = True, pq_centroid_norms_cache = []\<rparr>" (is "_ = Inr ?pq")
    using with_validated_eq[OF nbits lo(1) m(1), of d] inc less_imp_le by blast
  have new: "pq_with_nbits_balanced d m nbits = Inr ?pq" using m w by (simp add: pq_with_nbits_balanced_def balanced_plan del: upt_Suc)
  have "layout_ok (?pq\<lparr>pq_centroids := centroids\<rparr>)" using nbits m(1) lo end_ inc len by (simp add: layout_ok_def del: upt_Suc)
  from set_centroids_eq[OF this] obtain norms where set: "pq_set_centroids t centroids ?pq = Inr (?pq\<lparr>pq_centroids_are_finite := list_all is_finite centroids, pq_centroids := centroids, pq_centroid_norms_cache := norms\<rparr>)"
    (is "_ = Inr ?q") "length norms = m * 2 ^ nbits" by auto
  have ok: "layout_ok ?q" using nbits m(1) lo end_ inc len by (simp add: layout_ok_def del: upt_Suc)
  have "?o \<noteq> []" by simp
  then have "hd ?o = 0" "last ?o = d" using lo end_ by (simp_all add: hd_conv_nth last_conv_nth del: upt_Suc)
  moreover have "\<not> list_ex (\<lambda>(a, b). b \<le> a) (windows2 ?o)" using inc lo(1) by (auto simp: list_ex_iff windows2_set not_le simp del: upt_Suc)
  ultimately have "try_with_chunk_offsets d nbits ?o = Inr (Some ?pq)" using m nbits w lo(1) by (auto simp: try_with_chunk_offsets_def simp del: upt_Suc)
  then have valid: "pq_has_valid_layout ?q = Inr True" using len by (simp add: pq_has_valid_layout_def del: upt_Suc)
  have dims: "pq_chunk_dim sub ?q = Inr (d div m + (if sub < d mod m then 1 else 0))" if "sub < m" for sub
    using layout_chunk(2)[OF ok, of sub] that by (auto simp: chunk_width_def at simp del: upt_Suc)
  have first: "pq_chunk_range 0 ?q = Inr (0, chunk_width ?q 0)" using layout_chunk(1,5)[OF ok, of 0] m(1) lo(2) by (simp del: upt_Suc)
  have "pq_chunk_offsets ?q ! m = d" "length (pq_centroid_norms_cache ?q) = m * 2 ^ nbits" using end_ set(2) by simp_all
  then show ?thesis using new set(1) valid dims first by blast
qed

theorem balanced_layout_valid_witness:
  "\<exists>pq pq'. pq_with_nbits_balanced 7 3 4 = Inr pq \<and> pq_set_centroids OtherArch (replicate 112 f32_one) pq = Inr pq' \<and> pq_has_valid_layout pq' = Inr True \<and> pq_chunk_dim 0 pq' = Inr 3 \<and> pq_chunk_dim 2 pq' = Inr 2"
proof -
  have two: "(0::nat) < 3" "(2::nat) < 3" by simp_all
  show ?thesis using balanced_layout_valid[of 3 7 4 "replicate 112 f32_one" OtherArch] two by fastforce
qed

end
