(* ===== verification/Vamana_Distance.thy ===== *)
theory Vamana_Distance
  imports Pq_Layout Vamana_Prune
begin

text \<open>
  The distances that guide the search of a build (\<open>BuildSearchDistance\<close> of \<open>core/src/vamana.rs\<close>): full precision, or
  sums of precomputed distances between codebook entries. The copied rows of a prepared query are shown
  to give the same sum as the whole table, in either direction.
\<close>

record PqBuildDistance =
  pd_codes :: "u8 list"
  pd_code_size :: nat
  pd_m :: nat
  pd_ksub :: nat
  pd_nbits :: nat
  pd_centroid_distances :: "f32 list"

text \<open>The body of the three nested loops of \<open>new\<close>.\<close>

definition centroid_pair ::
  "arch \<Rightarrow> MetricType \<Rightarrow> ProductQuantizer \<Rightarrow> nat \<times> nat \<times> nat \<Rightarrow> f32 list \<Rightarrow> f32 list res" where
  "centroid_pair t metric pq = (\<lambda>(sub, left, right) table.
     bind_res (pq_chunk_dim sub pq) (\<lambda>chunk_dim.
     bind_res (pq_centroid_chunk_base sub pq) (\<lambda>sub_base.
     let table_base = sub * pq_ksub pq * pq_ksub pq in
     bind_res (pq_centroid (pq_centroids pq) sub_base chunk_dim left) (\<lambda>a.
     bind_res (pq_centroid (pq_centroids pq) sub_base chunk_dim right) (\<lambda>b.
     bind_res (fvec_distance t a b metric) (\<lambda>distance.
     bind_res (set_idx table (table_base + left * pq_ksub pq + right) distance) (\<lambda>table1.
       set_idx table1 (table_base + right * pq_ksub pq + left) distance)))))))"

definition centroid_triples :: "nat \<Rightarrow> nat \<Rightarrow> (nat \<times> nat \<times> nat) list" where
  "centroid_triples m ksub = concat (map (\<lambda>sub. concat (map (\<lambda>left. map (\<lambda>right. (sub, left, right)) [left..<ksub]) [0..<ksub])) [0..<m])"

text \<open>The failure of an allocation is not modelled.\<close>

definition pd_new :: "arch \<Rightarrow> ProductQuantizer \<Rightarrow> u8 list \<Rightarrow> nat \<Rightarrow> MetricType \<Rightarrow> PqBuildDistance res" where
  "pd_new t pq codes vector_count metric =
     bind_res (ok_or (Err InvalidInput) (case checked_mul (pq_m pq) (pq_ksub pq) of None \<Rightarrow> None | Some x \<Rightarrow> checked_mul x (pq_ksub pq))) (\<lambda>table_len.
     bind_res (fold_res (centroid_pair t metric pq) (centroid_triples (pq_m pq) (pq_ksub pq)) (replicate table_len f32_zero)) (\<lambda>centroid_distances.
     let code_size = pq_code_size pq in
     if length codes \<noteq> saturating_mul vector_count code_size then Inl (Err InvalidInput)
     else Inr \<lparr>pd_codes = codes, pd_code_size = code_size, pd_m = pq_m pq, pd_ksub = pq_ksub pq, pd_nbits = pq_nbits pq,
       pd_centroid_distances = centroid_distances\<rparr>))"

definition pd_code :: "PqBuildDistance \<Rightarrow> nat \<Rightarrow> nat \<Rightarrow> nat res" where
  "pd_code pd node sub =
     bind_res (subslice (node * pd_code_size pd) ((node + 1) * pd_code_size pd) (pd_codes pd)) (\<lambda>codes.
     if pd_nbits pd = 4
     then bind_res (idx codes (sub div 2)) (\<lambda>byte. Inr (unat (if sub mod 2 = 0 then byte AND 0x0F else drop_bit 4 byte)))
     else bind_res (idx codes sub) (\<lambda>byte. Inr (unat byte)))"

definition pd_row :: "PqBuildDistance \<Rightarrow> nat \<Rightarrow> nat \<Rightarrow> f32 list \<Rightarrow> f32 list res" where
  "pd_row pd query_node sub table =
     bind_res (pd_code pd query_node sub) (\<lambda>code.
     let row = (sub * pd_ksub pd + code) * pd_ksub pd in
     bind_res (subslice row (row + pd_ksub pd) (pd_centroid_distances pd)) (\<lambda>r. Inr (table @ r)))"

definition pd_prepare_query :: "PqBuildDistance \<Rightarrow> nat \<Rightarrow> f32 list res" where
  "pd_prepare_query pd query_node = fold_res (pd_row pd query_node) [0..<pd_m pd] []"

definition pd_to_query :: "PqBuildDistance \<Rightarrow> nat \<Rightarrow> f32 list \<Rightarrow> f32 res" where
  "pd_to_query pd node table =
     fold_res (\<lambda>sub distance. bind_res (pd_code pd node sub) (\<lambda>code. bind_res (idx table (sub * pd_ksub pd + code)) (\<lambda>x. Inr (f32_add distance x))))
       [0..<pd_m pd] f32_zero"

definition pd_between :: "PqBuildDistance \<Rightarrow> nat \<Rightarrow> nat \<Rightarrow> f32 res" where
  "pd_between pd left right =
     fold_res (\<lambda>sub distance.
       bind_res (pd_code pd left sub) (\<lambda>left_code.
       bind_res (pd_code pd right sub) (\<lambda>right_code.
       bind_res (idx (pd_centroid_distances pd) (sub * pd_ksub pd * pd_ksub pd + left_code * pd_ksub pd + right_code)) (\<lambda>x. Inr (f32_add distance x)))))
       [0..<pd_m pd] f32_zero"

datatype BuildSearchDistance = FullPrecision "f32 list" nat MetricType | ProductQuantized PqBuildDistance

text \<open>The prepared table; full precision leaves the buffer alone and never reads it.\<close>

definition prepare_query :: "BuildSearchDistance \<Rightarrow> nat \<Rightarrow> f32 list \<Rightarrow> f32 list res" where
  "prepare_query sd query_node table = (case sd of
     FullPrecision vectors dimension metric \<Rightarrow> Inr table
   | ProductQuantized pd \<Rightarrow> pd_prepare_query pd query_node)"

definition to_query :: "arch \<Rightarrow> BuildSearchDistance \<Rightarrow> nat \<Rightarrow> nat \<Rightarrow> f32 list \<Rightarrow> f32 res" where
  "to_query t sd node query_node table = (case sd of
     FullPrecision vectors dimension metric \<Rightarrow> distance_between t vectors dimension node query_node metric
   | ProductQuantized pd \<Rightarrow> pd_to_query pd node table)"

section \<open>The table is symmetric\<close>

definition pd_ok :: "nat \<Rightarrow> PqBuildDistance \<Rightarrow> bool" where
  "pd_ok n pd \<longleftrightarrow> (pd_nbits pd = 4 \<or> pd_nbits pd = 8) \<and> pd_ksub pd = 2 ^ pd_nbits pd \<and> pd_code_size pd = (if pd_nbits pd = 4 then div_ceil (pd_m pd) 2 else pd_m pd)
     \<and> length (pd_codes pd) = n * pd_code_size pd \<and> length (pd_centroid_distances pd) = pd_m pd * pd_ksub pd * pd_ksub pd
     \<and> (\<forall>sub < pd_m pd. \<forall>a < pd_ksub pd. \<forall>b < pd_ksub pd.
          pd_centroid_distances pd ! (sub * pd_ksub pd * pd_ksub pd + a * pd_ksub pd + b) = pd_centroid_distances pd ! (sub * pd_ksub pd * pd_ksub pd + b * pd_ksub pd + a))"

abbreviation cell_of :: "nat \<Rightarrow> nat \<Rightarrow> nat \<Rightarrow> nat \<Rightarrow> nat" where
  "cell_of k sub a b \<equiv> sub * k * k + a * k + b"

lemma cell_less:
  assumes "sub < m" "a < k" "b < k"
  shows "cell_of k sub a b < m * k * k"
proof -
  have "cell_of k sub a b < sub * k * k + Suc a * k" using assms(3) by simp
  also have "\<dots> \<le> sub * k * k + k * k" using mult_le_mono1[of "Suc a" k k] assms(2) by simp
  also have "\<dots> = Suc sub * (k * k)" by simp
  also have "\<dots> \<le> m * (k * k)" using assms(1) by (intro mult_le_mono1) simp
  finally show ?thesis by (simp add: mult.assoc)
qed

lemma cell_inj:
  assumes "a < k" "b < k" "a' < k" "b' < k" "cell_of k sub a b = cell_of k sub' a' b'"
  shows "sub = sub' \<and> a = a' \<and> b = b'"
proof -
  have eq: "(sub * k + a) * k + b = (sub' * k + a') * k + b'" using assms(5) by (simp add: algebra_simps)
  have k: "0 < k" using assms(1) by simp
  have "((sub * k + a) * k + b) mod k = b" "((sub' * k + a') * k + b') mod k = b'" using assms(2,4) by simp_all
  then have b: "b = b'" using eq by simp
  then have "(sub * k + a) * k = (sub' * k + a') * k" using eq by simp
  then have e: "sub * k + a = sub' * k + a'" using k by simp
  have "(sub * k + a) mod k = a" "(sub' * k + a') mod k = a'" using assms(1,3) by simp_all
  then have "a = a'" using e by simp
  then show ?thesis using e b k by simp
qed

definition centroid_gap :: "arch \<Rightarrow> MetricType \<Rightarrow> ProductQuantizer \<Rightarrow> nat \<Rightarrow> nat \<Rightarrow> nat \<Rightarrow> f32" where
  "centroid_gap t metric pq sub a b = (case fvec_distance t (codebook_row pq sub a) (codebook_row pq sub b) metric of Inr x \<Rightarrow> x | Inl _ \<Rightarrow> f32_NAN)"

lemma centroid_pair_eq:
  assumes ok: "layout_ok pq" and s: "sub < pq_m pq" "a < pq_ksub pq" "b < pq_ksub pq" and len: "length table = pq_m pq * pq_ksub pq * pq_ksub pq"
  shows "centroid_pair t metric pq (sub, a, b) table = Inr (table[cell_of (pq_ksub pq) sub a b := centroid_gap t metric pq sub a b, cell_of (pq_ksub pq) sub b a := centroid_gap t metric pq sub a b])"
proof -
  have c: "length (pq_centroids pq) = pq_d pq * pq_ksub pq" using ok by (simp add: layout_ok_def)
  note R = codebook_row_eq[OF ok s(1) _ c]
  have "length (codebook_row pq sub a) = length (codebook_row pq sub b)" using R(1)[OF s(2)] R(1)[OF s(3)] by (simp add: codebook_row_def)
  then obtain x where "fvec_distance t (codebook_row pq sub a) (codebook_row pq sub b) metric = Inr x" using fvec_distance_total by blast
  then show ?thesis using R(2)[OF s(2)] R(2)[OF s(3)] layout_chunk(2,3)[OF ok s(1)] cell_less[OF s] cell_less[OF s(1,3,2)] len
    by (simp add: centroid_pair_def set_idx_def centroid_gap_def codebook_row_def Let_def)
qed

text \<open>Both cells of every pair that was passed hold the distance of the pair.\<close>

definition pair_written :: "arch \<Rightarrow> MetricType \<Rightarrow> ProductQuantizer \<Rightarrow> f32 list \<Rightarrow> nat \<times> nat \<times> nat \<Rightarrow> bool" where
  "pair_written t metric pq table = (\<lambda>(sub, a, b). table ! cell_of (pq_ksub pq) sub a b = centroid_gap t metric pq sub a b \<and> table ! cell_of (pq_ksub pq) sub b a = centroid_gap t metric pq sub a b)"

lemma centroid_pairs_eq:
  assumes ok: "layout_ok pq" and len: "length table = pq_m pq * pq_ksub pq * pq_ksub pq"
    and ps: "\<forall>(sub, a, b) \<in> set ps \<union> old. sub < pq_m pq \<and> a \<le> b \<and> b < pq_ksub pq" and w: "\<forall>p \<in> old. pair_written t metric pq table p"
  shows "\<exists>table'. fold_res (centroid_pair t metric pq) ps table = Inr table' \<and> length table' = length table \<and> (\<forall>p \<in> set ps \<union> old. pair_written t metric pq table' p)"
  using len ps w
proof (induction ps arbitrary: table old)
  case (Cons p ps)
  obtain sub a b where p: "p = (sub, a, b)" by (cases p)
  let ?k = "pq_ksub pq" and ?g = "centroid_gap t metric pq sub a b"
  have s: "sub < pq_m pq" "a \<le> b" "b < ?k" "a < ?k" using Cons.prems(2) p by auto
  let ?t = "table[cell_of ?k sub a b := ?g, cell_of ?k sub b a := ?g]"
  have run: "centroid_pair t metric pq p table = Inr ?t" using centroid_pair_eq[OF ok s(1,4,3) Cons.prems(1)] p by simp
  have L: "cell_of ?k sub a b < length table" "cell_of ?k sub b a < length table" using cell_less[OF s(1,4,3)] cell_less[OF s(1,3,4)] Cons.prems(1) by simp_all
  have "pair_written t metric pq ?t q" if q: "q \<in> insert p old" for q
  proof -
    obtain sub' a' b' where q': "q = (sub', a', b')" by (cases q)
    show ?thesis
    proof (cases "q = p")
      case True
      then show ?thesis using L p by (simp add: pair_written_def nth_list_update)
    next
      case False
      then have old: "q \<in> old" using q by blast
      have "(\<lambda>(sub, a, b). sub < pq_m pq \<and> a \<le> b \<and> b < ?k) q" using Cons.prems(2) old by blast
      then have o: "sub' < pq_m pq" "a' \<le> b'" "b' < ?k" "a' < ?k" using q' by auto
      have ne: "\<not> (sub' = sub \<and> a' = a \<and> b' = b)" "\<not> (sub' = sub \<and> a' = b \<and> b' = a)" using False p q' o(2) s(2) by auto
      have "cell_of ?k sub' a' b' \<noteq> cell_of ?k sub a b" using cell_inj[OF o(4,3) s(4,3)] ne(1) by blast
      moreover have "cell_of ?k sub' a' b' \<noteq> cell_of ?k sub b a" using cell_inj[OF o(4,3) s(3,4)] ne(2) by blast
      moreover have "cell_of ?k sub' b' a' \<noteq> cell_of ?k sub a b" using cell_inj[OF o(3,4) s(4,3)] ne(2) by blast
      moreover have "cell_of ?k sub' b' a' \<noteq> cell_of ?k sub b a" using cell_inj[OF o(3,4) s(3,4)] ne(1) by blast
      ultimately show ?thesis using Cons.prems(3) old q' L by (auto simp: pair_written_def nth_list_update)
    qed
  qed
  then obtain table' where "fold_res (centroid_pair t metric pq) ps ?t = Inr table'" "length table' = length ?t" "\<forall>q \<in> set ps \<union> insert p old. pair_written t metric pq table' q"
    using Cons.IH[of ?t "insert p old"] Cons.prems(1,2) by auto
  then show ?case using run by auto
qed auto

lemma centroid_triples_set: "(sub, a, b) \<in> set (centroid_triples m k) \<longleftrightarrow> sub < m \<and> a \<le> b \<and> b < k"
  by (auto simp: centroid_triples_def image_iff intro!: bexI[of _ sub] bexI[of _ a])

lemma pd_new_ok:
  assumes ok: "layout_ok pq" and codes: "length codes = n * pq_code_size pq" "n * pq_code_size pq < 2 ^ 64" and size: "pq_m pq * pq_ksub pq * pq_ksub pq < 2 ^ 64"
  shows "\<exists>pd. pd_new t pq codes n metric = Inr pd \<and> pd_ok n pd"
proof -
  let ?m = "pq_m pq" and ?k = "pq_ksub pq"
  have pos: "0 < ?k" using ok by (simp add: layout_ok_def)
  have "?m * ?k < 2 ^ 64" using size by (rule le_less_trans[rotated]) (use pos in simp)
  then have mul: "checked_mul ?m ?k = Some (?m * ?k)" "checked_mul (?m * ?k) ?k = Some (?m * ?k * ?k)" using size by (simp_all add: checked_mul_def)
  have in_range: "\<forall>(sub, a, b) \<in> set (centroid_triples ?m ?k) \<union> {}. sub < ?m \<and> a \<le> b \<and> b < ?k" by (auto simp: centroid_triples_set)
  obtain table where t: "fold_res (centroid_pair t metric pq) (centroid_triples ?m ?k) (replicate (?m * ?k * ?k) f32_zero) = Inr table" "length table = ?m * ?k * ?k"
    "\<forall>p \<in> set (centroid_triples ?m ?k). pair_written t metric pq table p"
    using centroid_pairs_eq[OF ok _ in_range, of "replicate (?m * ?k * ?k) f32_zero" t metric] by auto
  have sym: "table ! cell_of ?k sub a b = table ! cell_of ?k sub b a" if "sub < ?m" "a < ?k" "b < ?k" for sub a b
  proof -
    have "(sub, min a b, max a b) \<in> set (centroid_triples ?m ?k)" unfolding centroid_triples_set using that by auto
    then have "pair_written t metric pq table (sub, min a b, max a b)" using t(3) by blast
    then show ?thesis by (cases "a \<le> b") (simp_all add: pair_written_def)
  qed
  have sat: "saturating_mul n (pq_code_size pq) = n * pq_code_size pq" using codes(2) by (simp add: saturating_mul_def)
  let ?pd = "\<lparr>pd_codes = codes, pd_code_size = pq_code_size pq, pd_m = ?m, pd_ksub = ?k, pd_nbits = pq_nbits pq, pd_centroid_distances = table\<rparr>"
  have size_eq: "(case checked_mul ?m ?k of None \<Rightarrow> None | Some x \<Rightarrow> checked_mul x ?k) = Some (?m * ?k * ?k)" by (simp only: mul option.case)
  have "pd_new t pq codes n metric = Inr ?pd" unfolding pd_new_def size_eq using t(1) codes(1) sat by (simp add: Let_def)
  moreover have "pd_ok n ?pd" using ok codes(1) t(2) sym by (simp add: pd_ok_def layout_ok_def pq_code_size_def)
  ultimately show ?thesis by blast
qed

section \<open>Prepared queries\<close>

lemma byte_codes: "unat (byte AND 0x0F) < 16" "unat (drop_bit 4 byte) < 16" "unat byte < 256" for byte :: u8
proof -
  have "byte AND 0x0F \<le> 0x0F" by (rule word_and_le1)
  then have "unat (byte AND 0x0F) \<le> unat (0x0F :: u8)" unfolding word_le_nat_alt .
  then show "unat (byte AND 0x0F) < 16" by simp
  show "unat byte < 256" using unsigned_less[of byte] by simp
  moreover have "unat (drop_bit 4 byte) = unat byte div 16" by (simp add: drop_bit_eq_div unat_div)
  ultimately show "unat (drop_bit 4 byte) < 16" by linarith
qed

definition code_value :: "PqBuildDistance \<Rightarrow> nat \<Rightarrow> nat \<Rightarrow> nat" where
  "code_value pd node sub = (case pd_code pd node sub of Inr c \<Rightarrow> c | Inl _ \<Rightarrow> 0)"

lemma pd_code_eq:
  assumes ok: "pd_ok n pd" and node: "node < n" and sub: "sub < pd_m pd"
  shows "pd_code pd node sub = Inr (code_value pd node sub)" "code_value pd node sub < pd_ksub pd"
proof -
  let ?cs = "pd_code_size pd"
  have cs: "?cs = (if pd_nbits pd = 4 then div_ceil (pd_m pd) 2 else pd_m pd)" "length (pd_codes pd) = n * ?cs" using ok by (simp_all add: pd_ok_def)
  have "(node + 1) * ?cs \<le> n * ?cs" using node by (intro mult_le_mono1) simp
  then have row: "subslice (node * ?cs) ((node + 1) * ?cs) (pd_codes pd) = Inr (slice (node * ?cs) ((node + 1) * ?cs) (pd_codes pd))"
    and len: "length (slice (node * ?cs) ((node + 1) * ?cs) (pd_codes pd)) = ?cs" using cs(2) by (simp_all add: subslice_def)
  have "sub div 2 < div_ceil (pd_m pd) 2" using sub div_ceil_mult_ge[of 2 "pd_m pd"] by linarith
  moreover have "sub < ?cs" if "pd_nbits pd \<noteq> 4" using sub cs(1) that by simp
  ultimately have c: "\<exists>c. pd_code pd node sub = Inr c \<and> c < 2 ^ pd_nbits pd"
    using row len cs(1) byte_codes ok by (cases "pd_nbits pd = 4") (auto simp: pd_code_def idx_def pd_ok_def)
  then show "pd_code pd node sub = Inr (code_value pd node sub)" "code_value pd node sub < pd_ksub pd" using ok by (auto simp: code_value_def pd_ok_def)
qed

lemma pd_rows:
  assumes ok: "pd_ok n pd" and q: "query_node < n" and k: "k \<le> pd_m pd"
  shows "\<exists>table. fold_res (pd_row pd query_node) [0..<k] [] = Inr table \<and> length table = k * pd_ksub pd
    \<and> (\<forall>sub < k. \<forall>c < pd_ksub pd. table ! (sub * pd_ksub pd + c) = pd_centroid_distances pd ! cell_of (pd_ksub pd) sub (code_value pd query_node sub) c)"
  using k
proof (induction k)
  case (Suc k)
  let ?ks = "pd_ksub pd"
  obtain table where t: "fold_res (pd_row pd query_node) [0..<k] [] = Inr table" "length table = k * ?ks"
    "\<forall>sub < k. \<forall>c < ?ks. table ! (sub * ?ks + c) = pd_centroid_distances pd ! cell_of ?ks sub (code_value pd query_node sub) c" using Suc by auto
  have km: "k < pd_m pd" using Suc.prems by simp
  note C = pd_code_eq[OF ok q km]
  let ?r = "(k * ?ks + code_value pd query_node k) * ?ks"
  have "cell_of ?ks k (code_value pd query_node k) (?ks - 1) < pd_m pd * ?ks * ?ks" using C(2) by (intro cell_less[OF km]) auto
  then have "?r + ?ks \<le> length (pd_centroid_distances pd)" using ok C(2) by (simp add: pd_ok_def algebra_simps)
  then have row: "pd_row pd query_node k table = Inr (table @ slice ?r (?r + ?ks) (pd_centroid_distances pd))" "?r + ?ks \<le> length (pd_centroid_distances pd)"
    using C(1) by (simp_all add: pd_row_def subslice_def Let_def)
  let ?t = "table @ slice ?r (?r + ?ks) (pd_centroid_distances pd)"
  have "?t ! (sub * ?ks + c) = pd_centroid_distances pd ! cell_of ?ks sub (code_value pd query_node sub) c" if "sub < Suc k" "c < ?ks" for sub c
  proof (cases "sub = k")
    case True
    then show ?thesis using that(2) t(2) row(2) by (simp add: nth_append nth_slice algebra_simps)
  next
    case False
    then have "sub < k" using that(1) by simp
    moreover from this have "sub * ?ks + c < length table" using that(2) t(2) mult_le_mono1[of "Suc sub" k ?ks] by simp
    ultimately show ?thesis using t(3) that(2) by (simp add: nth_append)
  qed
  then show ?case using t(1,2) row by (intro exI[of _ ?t]) (simp add: fold_res_append)
qed simp

text \<open>C17: A prepared query gives the distance of the whole table: summing the copied rows of one node over the codes
  of another, in the order of the subspaces, gives bit for bit the sum that reads the table of pairwise
  distances, and that sum is the same in both directions. Neither panics on codes of a valid quantiser.\<close>
theorem prepared_query_is_between:
  assumes ok: "layout_ok pq" and codes: "length codes = n * pq_code_size pq" "n * pq_code_size pq < 2 ^ 64" and size: "pq_m pq * pq_ksub pq * pq_ksub pq < 2 ^ 64"
    and nodes: "node < n" "query_node < n"
  shows "\<exists>pd table x. pd_new t pq codes n metric = Inr pd \<and> pd_prepare_query pd query_node = Inr table \<and> pd_to_query pd node table = Inr x
    \<and> pd_between pd node query_node = Inr x \<and> pd_between pd query_node node = Inr x"
proof -
  obtain pd where pd: "pd_new t pq codes n metric = Inr pd" "pd_ok n pd" using pd_new_ok[OF ok codes size] by blast
  let ?ks = "pd_ksub pd" and ?v = "code_value pd node" and ?q = "code_value pd query_node"
  obtain table where t: "pd_prepare_query pd query_node = Inr table" "length table = pd_m pd * ?ks"
    "\<forall>sub < pd_m pd. \<forall>c < ?ks. table ! (sub * ?ks + c) = pd_centroid_distances pd ! cell_of ?ks sub (?q sub) c"
    using pd_rows[OF pd(2) nodes(2) order.refl] by (auto simp: pd_prepare_query_def)
  let ?x = "foldl (\<lambda>d sub. f32_add d (pd_centroid_distances pd ! cell_of ?ks sub (?q sub) (?v sub))) f32_zero [0..<pd_m pd]"
  have sums: "fold_res (\<lambda>sub d. f sub d) xs d0 = Inr (foldl (\<lambda>d sub. f32_add d (g sub)) d0 xs)" if "\<forall>sub \<in> set xs. \<forall>d. f sub d = Inr (f32_add d (g sub))" for f g xs d0
    using that by (induction xs arbitrary: d0) simp_all
  have C: "pd_code pd node sub = Inr (?v sub)" "?v sub < ?ks" "pd_code pd query_node sub = Inr (?q sub)" "?q sub < ?ks" if "sub < pd_m pd" for sub
    using pd_code_eq[OF pd(2) nodes(1) that] pd_code_eq[OF pd(2) nodes(2) that] by auto
  have len: "length (pd_centroid_distances pd) = pd_m pd * ?ks * ?ks" and sym: "pd_centroid_distances pd ! cell_of ?ks sub (?v sub) (?q sub) = pd_centroid_distances pd ! cell_of ?ks sub (?q sub) (?v sub)"
    if "sub < pd_m pd" for sub using pd(2) C[OF that] that by (auto simp: pd_ok_def)
  have "pd_to_query pd node table = Inr ?x" unfolding pd_to_query_def
  proof (rule sums, intro ballI allI)
    fix sub d assume "sub \<in> set [0..<pd_m pd]"
    then have s: "sub < pd_m pd" by simp
    have "sub * ?ks + ?v sub < length table" using t(2) C(2)[OF s] mult_le_mono1[of "Suc sub" "pd_m pd" ?ks] s by simp
    then show "bind_res (pd_code pd node sub) (\<lambda>code. bind_res (idx table (sub * ?ks + code)) (\<lambda>x. Inr (f32_add d x))) = Inr (f32_add d (pd_centroid_distances pd ! cell_of ?ks sub (?q sub) (?v sub)))"
      using C[OF s] t(3) s by (simp add: idx_def)
  qed
  moreover have "pd_between pd node query_node = Inr ?x" "pd_between pd query_node node = Inr ?x" unfolding pd_between_def
    using C len sym cell_less[of _ "pd_m pd" _ ?ks] by (intro sums; simp add: idx_def)+
  ultimately show ?thesis using pd(1) t(1) by blast
qed

definition tiny_pq :: ProductQuantizer where
  "tiny_pq = \<lparr>pq_d = 1, pq_m = 1, pq_nbits = 4, pq_dsub = 1, pq_ksub = 16, pq_chunk_offsets = [0, 1], pq_centroids = f32_one # replicate 15 f32_zero,
     pq_centroids_are_finite = True, pq_centroid_norms_cache = []\<rparr>"

lemma tiny_pq_ok: "layout_ok tiny_pq" "pq_code_size tiny_pq = 1"
  by (simp_all add: layout_ok_def tiny_pq_def pq_code_size_def div_ceil_def)

theorem prepared_query_is_between_witness:
  "\<exists>pd table x. pd_new OtherArch tiny_pq [3, 0] 2 L2 = Inr pd \<and> pd_prepare_query pd 1 = Inr table \<and> pd_to_query pd 0 table = Inr x \<and> pd_between pd 0 1 = Inr x"
  using prepared_query_is_between[OF tiny_pq_ok(1), of "[3, 0]" 2 0 1 OtherArch L2] tiny_pq_ok(2) by (auto simp: tiny_pq_def)

end
