(* ===== verification/Vamana_Build.thy ===== *)
theory Vamana_Build
  imports Vamana_Random Vamana_Distance "HOL-Library.Product_Lexorder"
begin

text \<open>
  The parallel build of a Vamana graph (\<open>core/src/vamana.rs\<close>): two passes over the nodes in shuffled batches, each
  batch searching one snapshot and then committing its edges and the reverse edges, followed by repair and
  validation. The order in which parallel tasks run and the worker each one uses are arguments, and so
  are the sizes of types whose layout the language leaves open.
\<close>

section \<open>Parameters and checks\<close>

datatype DiskAnnStorageLayout = Compact | Interleaved
datatype DiskAnnRawVectorEncoding = RawF32 | RawF16
datatype DiskAnnBuildDistance = BuildFullPrecision | BuildProductQuantized

record DiskAnnBuildParams =
  bp_max_degree :: nat
  bp_build_search_list_size :: nat
  bp_alpha :: f32
  bp_seed :: u64
  bp_memory_budget_bytes :: nat
  bp_storage_layout :: DiskAnnStorageLayout
  bp_raw_vector_encoding :: DiskAnnRawVectorEncoding
  bp_build_distance :: DiskAnnBuildDistance

definition PARALLEL_BUILD_BATCH_NODES :: nat where
  "PARALLEL_BUILD_BATCH_NODES = 128"

definition validate_build_inputs :: "f32 list \<Rightarrow> nat \<Rightarrow> nat \<Rightarrow> DiskAnnBuildParams \<Rightarrow> unit res" where
  "validate_build_inputs vectors node_count dimension params =
     (if node_count = 0 \<or> dimension = 0 \<or> bp_max_degree params = 0 then Inl (Err InvalidInput)
      else if 2 ^ 32 - 1 < node_count then Inl (Err InvalidInput)
      else if 2 ^ 16 - 1 < bp_max_degree params then Inl (Err InvalidInput)
      else bind_res (ok_or (Err InvalidInput) (checked_mul node_count dimension)) (\<lambda>expected.
        if length vectors \<noteq> expected then Inl (Err InvalidInput) else Inr ()))"

definition validate_build_memory_budget :: "nat option \<Rightarrow> nat \<Rightarrow> unit res" where
  "validate_build_memory_budget estimated_peak budget =
     (if (case estimated_peak of None \<Rightarrow> False | Some peak \<Rightarrow> peak \<le> budget) then Inr () else Inl (Err OutOfMemory))"

record VamanaMemoryEstimate =
  me_build_peak_bytes :: nat
  me_remap_peak_bytes :: nat

text \<open>\<open>size_of\<close> for the types whose size the language leaves open: a shard in its lock and a shard.\<close>

record type_sizes =
  size_RwLock_AdjacencyShard :: nat
  size_AdjacencyShard :: nat

text \<open>The bytes of the states of one worker, for the estimate.\<close>

definition estimate_worker_states :: "nat \<Rightarrow> nat \<Rightarrow> nat option" where
  "estimate_worker_states node_count expected_visited =
     Option.bind (checked_mul node_count 1) (\<lambda>a.
     Option.bind (checked_mul expected_visited 4) (\<lambda>b.
     Option.bind (checked_add a b) (\<lambda>dense.
     Option.bind (estimated_memory_bytes expected_visited 1) (\<lambda>sparse.
       Some (if (case checked_mul sparse SPARSE_BUILD_VISITED_MIN_MEMORY_SAVINGS of None \<Rightarrow> False | Some threshold \<Rightarrow> threshold < dense)
             then sparse else dense)))))"

text \<open>A chain of \<open>checked_add\<close>.\<close>

definition checked_sum :: "nat \<Rightarrow> nat list \<Rightarrow> nat option" where
  "checked_sum x xs = foldl (\<lambda>acc y. Option.bind acc (\<lambda>a. checked_add a y)) (Some x) xs"

definition estimate_vamana_memory_bytes :: "type_sizes \<Rightarrow> nat \<Rightarrow> nat \<Rightarrow> nat \<Rightarrow> nat \<Rightarrow> VamanaMemoryEstimate option" where
  "estimate_vamana_memory_bytes sz node_count max_degree search_list_size workers =
     Option.bind (checked_mul max_degree 4) (\<lambda>edge_bytes.
     Option.bind (checked_mul node_count edge_bytes) (\<lambda>builder_edges.
     Option.bind (checked_mul node_count 2) (\<lambda>builder_degrees.
     Option.bind (checked_mul (div_ceil node_count PARALLEL_ADJACENCY_NODES_PER_SHARD) (size_RwLock_AdjacencyShard sz)) (\<lambda>builder_shards.
     Option.bind (checked_sum builder_edges [builder_degrees, builder_shards]) (\<lambda>builder_graph.
     Option.bind (checked_mul node_count 8) (\<lambda>build_order.
     Option.bind (Option.bind (checked_mul search_list_size max_degree) (\<lambda>x. checked_add x 1)) (\<lambda>visits.
     Option.bind (estimate_worker_states node_count (min visits node_count)) (\<lambda>worker_states.
     Option.bind (Option.bind (checked_mul search_list_size 3) (\<lambda>x. checked_mul x 8)) (\<lambda>worker_candidates.
     Option.bind (Option.bind (checked_add search_list_size max_degree) (\<lambda>x. checked_mul x 12)) (\<lambda>worker_prune.
     Option.bind (checked_mul search_list_size 4) (\<lambda>worker_candidate_ids.
     Option.bind (checked_mul max_degree 8) (\<lambda>worker_neighbors.
     Option.bind (checked_sum worker_states [worker_candidates, worker_prune, worker_candidate_ids, worker_neighbors]) (\<lambda>worker_bytes.
     Option.bind (checked_mul (max workers 1) worker_bytes) (\<lambda>worker_scratch.
     Option.bind (Option.bind (checked_mul PARALLEL_BUILD_BATCH_NODES max_degree) (\<lambda>x. checked_mul x 12)) (\<lambda>reverse_edge_batch.
     Option.bind (checked_sum builder_graph [build_order, worker_scratch, reverse_edge_batch]) (\<lambda>build_peak_bytes.
     Option.bind (checked_mul (div_ceil node_count PARALLEL_ADJACENCY_NODES_PER_SHARD) (size_AdjacencyShard sz)) (\<lambda>final_shards.
     Option.bind (checked_sum builder_edges [builder_degrees, final_shards]) (\<lambda>compact_graph.
     Option.bind (checked_mul node_count 8) (\<lambda>permutations.
     Option.bind (checked_mul node_count 1) (\<lambda>permutation_visited.
     Option.bind (checked_add edge_bytes 2) (\<lambda>permutation_scratch.
     Option.bind (checked_sum compact_graph [permutations, permutation_visited, permutation_scratch]) (\<lambda>remap_peak_bytes.
       Some \<lparr>me_build_peak_bytes = build_peak_bytes, me_remap_peak_bytes = remap_peak_bytes\<rparr>))))))))))))))))))))))"

section \<open>The entry node\<close>

definition add_vector :: "f32 list \<Rightarrow> f32 list \<Rightarrow> f32 list" where
  "add_vector centroid vector = map (\<lambda>(a, b). f32_add a b) (zip centroid vector)"

definition nearer_entry :: "arch \<Rightarrow> f32 list \<Rightarrow> nat \<Rightarrow> f32 list \<Rightarrow> MetricType \<Rightarrow> nat \<Rightarrow> (nat \<times> f32) option \<Rightarrow> (nat \<times> f32) option res" where
  "nearer_entry t vectors dimension centroid metric node best =
     bind_res (node_distance t vectors dimension node centroid metric) (\<lambda>distance.
       Inr (case best of None \<Rightarrow> Some (node, distance)
          | Some (best_node, best_distance) \<Rightarrow>
              if distance < best_distance \<or> distance = best_distance \<and> node < best_node then Some (node, distance) else best))"

text \<open>\<open>min_by\<close> on the nodes; the distances it compares are those of the two nodes to the centroid.\<close>

definition centroid_entry :: "arch \<Rightarrow> f32 list \<Rightarrow> nat \<Rightarrow> nat \<Rightarrow> MetricType \<Rightarrow> nat res" where
  "centroid_entry t vectors node_count dimension metric =
     (let sums = foldl add_vector (replicate dimension f32_zero) (chunks_exact dimension vectors);
          centroid = map (\<lambda>value. f32_div value (f32_of_nat node_count)) sums in
      bind_res (fold_res (nearer_entry t vectors dimension centroid metric) [0..<node_count] None) (\<lambda>best.
      bind_res (ok_or Panic best) (\<lambda>(node, _). Inr node)))"

section \<open>Reverse edges\<close>

text \<open>The inner loop of \<open>group_reverse_edges\<close>: the end of the run of one target.\<close>

function group_end :: "(u32 \<times> u32) list \<Rightarrow> u32 \<Rightarrow> nat \<Rightarrow> nat" where
  "group_end edges target stop =
     (if stop < length edges \<and> fst (edges ! stop) = target then group_end edges target (stop + 1) else stop)"
  by pat_completeness auto
termination by (relation "measure (\<lambda>(edges, _, stop). length edges - stop)") auto

declare group_end.simps [simp del]

lemma group_end_ge: "stop \<le> group_end edges target stop"
proof (induction edges target stop rule: group_end.induct)
  case (1 edges target stop)
  then show ?case by (subst group_end.simps) (auto simp: Suc_le_eq)
qed

function group_loop :: "(u32 \<times> u32) list \<Rightarrow> nat \<Rightarrow> (nat \<times> nat) list" where
  "group_loop edges start =
     (if start < length edges
      then let stop = group_end edges (fst (edges ! start)) (start + 1) in (start, stop) # group_loop edges stop
      else [])"
  by pat_completeness auto
termination
proof (relation "measure (\<lambda>(edges, start). length edges - start)")
  fix edges start x assume a: "start < length edges" "x = group_end edges (fst (edges ! start)) (start + 1)"
  have "start < x" using group_end_ge[of "start + 1" edges "fst (edges ! start)"] a(2) by simp
  then show "((edges, x), (edges, start)) \<in> measure (\<lambda>(edges, start). length edges - start)" using a(1) by simp
qed simp

declare group_loop.simps [simp del]

definition group_reverse_edges :: "(u32 \<times> u32) list \<Rightarrow> (u32 \<times> u32) list \<times> (nat \<times> nat) list" where
  "group_reverse_edges reverse_edges = (let edges = remdups_adj (sort reverse_edges) in (edges, group_loop edges 0))"

section \<open>The parallel builder\<close>

record ParallelVamanaBuilder =
  vb_vectors :: "f32 list"
  vb_dimension :: nat
  vb_metric :: MetricType
  vb_entry_node :: u32
  vb_adjacency :: ParallelAdjacency
  vb_search_distance :: BuildSearchDistance

definition builder_greedy_search ::
  "arch \<Rightarrow> ParallelVamanaBuilder \<Rightarrow> nat \<Rightarrow> nat \<Rightarrow> GreedySearchScratch \<Rightarrow> GreedySearchScratch res" where
  "builder_greedy_search t b query_node search_list_size s0 =
     bind_res (begin_search s0) (\<lambda>s.
     bind_res (prepare_query (vb_search_distance b) query_node []) (\<lambda>query_distances.
       search_from (vb_entry_node b) (pa_node_count (vb_adjacency b)) (\<lambda>node. pa_copy_neighbors node (vb_adjacency b) [])
         (\<lambda>node. to_query t (vb_search_distance b) node query_node query_distances) search_list_size s))"

text \<open>The closure that \<open>run_pass\<close> runs for each node of a batch. The results are taken in the order of the heap;
  pruning sorts them.\<close>

definition select_neighbors ::
  "arch \<Rightarrow> ParallelVamanaBuilder \<Rightarrow> DiskAnnBuildParams \<Rightarrow> f32 \<Rightarrow> nat \<Rightarrow> GreedySearchScratch \<Rightarrow> (u32 list \<times> GreedySearchScratch) res" where
  "select_neighbors t b params alpha node s =
     bind_res (builder_greedy_search t b node (bp_build_search_list_size params) s) (\<lambda>s'.
     bind_res (pa_copy_neighbors node (vb_adjacency b) []) (\<lambda>current.
     bind_res (robust_prune_candidates_into t (vb_vectors b) (vb_dimension b) node (map sn_id (gs_results s')) current
         (pa_node_count (vb_adjacency b)) (bp_max_degree params) alpha (vb_metric b)) (\<lambda>(_, _, selected).
       Inr (selected, s'))))"

text \<open>A task runs on a thread of the pool and holds the lock of that thread's scratch until it ends.\<close>

definition search_task ::
  "arch \<Rightarrow> ParallelVamanaBuilder \<Rightarrow> DiskAnnBuildParams \<Rightarrow> f32 \<Rightarrow> nat list \<Rightarrow> nat \<times> nat
     \<Rightarrow> GreedySearchScratch list \<times> u32 list list \<Rightarrow> (GreedySearchScratch list \<times> u32 list list) res" where
  "search_task t b params alpha batch = (\<lambda>(task, thread) (scratches, selected_by_node).
     let worker = thread mod length scratches in
     bind_res (idx batch task) (\<lambda>node.
     bind_res (idx scratches worker) (\<lambda>scratch.
     bind_res (select_neighbors t b params alpha node scratch) (\<lambda>(selected, scratch').
     bind_res (set_idx selected_by_node task selected) (\<lambda>selected_by_node'.
       Inr (scratches[worker := scratch'], selected_by_node'))))))"

definition commit_node :: "nat \<times> u32 list \<Rightarrow> ParallelAdjacency \<times> (u32 \<times> u32) list \<Rightarrow> (ParallelAdjacency \<times> (u32 \<times> u32) list) res" where
  "commit_node = (\<lambda>(node, selected) (pa, reverse_edges).
     bind_res (pa_replace node selected pa) (\<lambda>pa'.
       Inr (pa', reverse_edges @ map (\<lambda>neighbor. (neighbor, word_of_nat node)) selected)))"

text \<open>The closure that \<open>insert_reverse_edges\<close> hands to \<open>update_from_buffer\<close>.\<close>

definition reverse_row ::
  "arch \<Rightarrow> ParallelVamanaBuilder \<Rightarrow> nat \<Rightarrow> u32 list \<Rightarrow> nat \<Rightarrow> f32 \<Rightarrow> u32 list \<Rightarrow> u32 list res" where
  "reverse_row t b node incoming max_degree alpha neighbors =
     (let fresh = filter (\<lambda>neighbor. neighbor \<notin> set neighbors) incoming; missing = length fresh in
      if missing = 0 then Inr neighbors
      else if saturating_add (length neighbors) missing \<le> max_degree then Inr (neighbors @ fresh)
      else bind_res (robust_prune_candidates_into t (vb_vectors b) (vb_dimension b) node incoming neighbors
          (pa_node_count (vb_adjacency b)) max_degree alpha (vb_metric b)) (\<lambda>(_, _, selected). Inr selected))"

definition insert_reverse_edges ::
  "arch \<Rightarrow> nat \<Rightarrow> (u32 \<times> u32) list \<Rightarrow> nat \<Rightarrow> f32 \<Rightarrow> ParallelVamanaBuilder \<Rightarrow> ParallelVamanaBuilder res" where
  "insert_reverse_edges t node reverse_edges max_degree alpha b =
     bind_res (pa_update_from_buffer node (reverse_row t b node (map snd reverse_edges) max_degree alpha) (vb_adjacency b)) (\<lambda>pa.
       Inr (b\<lparr>vb_adjacency := pa\<rparr>))"

text \<open>The scratch that a task of this phase locks only lends it buffers, which it clears first.\<close>

definition reverse_task ::
  "arch \<Rightarrow> DiskAnnBuildParams \<Rightarrow> f32 \<Rightarrow> (u32 \<times> u32) list \<Rightarrow> (nat \<times> nat) list \<Rightarrow> nat \<times> nat \<Rightarrow> ParallelVamanaBuilder \<Rightarrow> ParallelVamanaBuilder res" where
  "reverse_task t params alpha edges groups = (\<lambda>(task, thread) b.
     bind_res (idx groups task) (\<lambda>(start, stop).
     bind_res (idx edges start) (\<lambda>(target, _).
     bind_res (subslice start stop edges) (\<lambda>group.
       insert_reverse_edges t (unat target) group (bp_max_degree params) alpha b))))"

text \<open>\<open>slice::chunks\<close> for a positive size.\<close>

function chunks :: "nat \<Rightarrow> 'a list \<Rightarrow> 'a list list" where
  "chunks k xs = (if k = 0 \<or> xs = [] then [] else take k xs # chunks k (drop k xs))"
  by pat_completeness auto
termination by (relation "measure (\<lambda>(k, xs). length xs)") auto

declare chunks.simps [simp del]

text \<open>The order in which the tasks of a parallel loop get the locks they need, and the thread of the pool that
  runs each: for a batch, one of its two loops and the number of tasks.\<close>

type_synonym build_schedule = "nat \<Rightarrow> bool \<Rightarrow> nat \<Rightarrow> (nat \<times> nat) list"

definition run_batch ::
  "arch \<Rightarrow> build_schedule \<Rightarrow> DiskAnnBuildParams \<Rightarrow> f32 \<Rightarrow> nat \<times> nat list
     \<Rightarrow> ParallelVamanaBuilder \<times> GreedySearchScratch list \<Rightarrow> (ParallelVamanaBuilder \<times> GreedySearchScratch list) res" where
  "run_batch t sched params alpha = (\<lambda>(number, batch) (b, scratches).
     bind_res (fold_res (search_task t b params alpha batch) (sched number False (length batch)) (scratches, replicate (length batch) [])) (\<lambda>(scratches', selected_by_node).
     bind_res (fold_res commit_node (zip batch selected_by_node) (vb_adjacency b, [])) (\<lambda>(pa, reverse_edges).
     let (edges, groups) = group_reverse_edges reverse_edges in
     bind_res (fold_res (reverse_task t params alpha edges groups) (sched number True (length groups)) (b\<lparr>vb_adjacency := pa\<rparr>)) (\<lambda>b'.
       Inr (b', scratches')))))"

text \<open>\<open>threads\<close> is \<open>rayon::current_num_threads()\<close>.\<close>

definition run_pass ::
  "'r rng_api \<Rightarrow> arch \<Rightarrow> build_schedule \<Rightarrow> nat \<Rightarrow> DiskAnnBuildParams \<Rightarrow> f32 \<Rightarrow> ParallelVamanaBuilder \<times> 'r \<Rightarrow> (ParallelVamanaBuilder \<times> 'r) res" where
  "run_pass R t sched threads params alpha = (\<lambda>(b, rng).
     let node_count = pa_node_count (vb_adjacency b); (order, rng') = shuffle_places R node_count rng; worker_count = max threads 1 in
     bind_res (map_res (\<lambda>_. scratch_new node_count (bp_max_degree params) (bp_build_search_list_size params)) [0..<worker_count]) (\<lambda>scratches.
     bind_res (fold_res (run_batch t sched params alpha) (enumerate 0 (chunks PARALLEL_BUILD_BATCH_NODES order)) (b, scratches)) (\<lambda>(b', _).
       Inr (b', rng'))))"

text \<open>\<open>finish\<close>; the error of a poisoned lock needs a panic of another task.\<close>

definition builder_finish :: "ParallelVamanaBuilder \<Rightarrow> VamanaGraph" where
  "builder_finish b = \<lparr>vg_entry_node = vb_entry_node b, vg_adjacency = pa_into_adjacency (vb_adjacency b)\<rparr>"

section \<open>The builds\<close>

text \<open>The durations of the stages, which the source returns beside the graph, are left out.\<close>

definition build_with_search_distance ::
  "type_sizes \<Rightarrow> 'r rng_api \<Rightarrow> arch \<Rightarrow> (bool \<Rightarrow> build_schedule) \<Rightarrow> nat \<Rightarrow> f32 list \<Rightarrow> nat \<Rightarrow> nat \<Rightarrow> MetricType \<Rightarrow> DiskAnnBuildParams \<Rightarrow> BuildSearchDistance \<Rightarrow> VamanaGraph res" where
  "build_with_search_distance sz R t sched threads vectors node_count dimension metric params search_distance =
     bind_res (validate_build_inputs vectors node_count dimension params) (\<lambda>_.
     bind_res (validate_build_memory_budget
         (map_option (\<lambda>estimate. max (me_build_peak_bytes estimate) (me_remap_peak_bytes estimate))
           (estimate_vamana_memory_bytes sz node_count (bp_max_degree params) (bp_build_search_list_size params) threads))
         (bp_memory_budget_bytes params)) (\<lambda>_.
     bind_res (centroid_entry t vectors node_count dimension metric) (\<lambda>entry.
     let degree = min (bp_max_degree params) (node_count - 1) in
     bind_res (pa_new_random R node_count degree (bp_seed params)) (\<lambda>adjacency.
     let rng = seed_from_u64 R (derived_seed (bp_seed params) (- 1));
         builder = \<lparr>vb_vectors = vectors, vb_dimension = dimension, vb_metric = metric, vb_entry_node = word_of_nat entry,
           vb_adjacency = adjacency, vb_search_distance = search_distance\<rparr> in
     bind_res (run_pass R t (sched False) threads params f32_one (builder, rng)) (\<lambda>(builder1, rng1).
     bind_res (run_pass R t (sched True) threads params (bp_alpha params) (builder1, rng1)) (\<lambda>(builder2, _).
     bind_res (repair_connectivity t vectors dimension (bp_max_degree params) metric (builder_finish builder2)) (\<lambda>graph.
     bind_res (validate_graph (bp_max_degree params) graph) (\<lambda>_.
     bind_res (is_fully_reachable graph) (\<lambda>reachable.
       if \<not> reachable then Inl (Err InvalidData) else Inr graph)))))))))"

definition build_with_stats ::
  "type_sizes \<Rightarrow> 'r rng_api \<Rightarrow> arch \<Rightarrow> (bool \<Rightarrow> build_schedule) \<Rightarrow> nat \<Rightarrow> f32 list \<Rightarrow> nat \<Rightarrow> nat \<Rightarrow> MetricType \<Rightarrow> DiskAnnBuildParams \<Rightarrow> VamanaGraph res" where
  "build_with_stats sz R t sched threads vectors node_count dimension metric params =
     build_with_search_distance sz R t sched threads vectors node_count dimension metric params (FullPrecision vectors dimension metric)"

definition build ::
  "type_sizes \<Rightarrow> 'r rng_api \<Rightarrow> arch \<Rightarrow> (bool \<Rightarrow> build_schedule) \<Rightarrow> nat \<Rightarrow> f32 list \<Rightarrow> nat \<Rightarrow> nat \<Rightarrow> DiskAnnBuildParams \<Rightarrow> VamanaGraph res" where
  "build sz R t sched threads vectors node_count dimension params = build_with_stats sz R t sched threads vectors node_count dimension L2 params"

definition build_with_pq_stats ::
  "type_sizes \<Rightarrow> 'r rng_api \<Rightarrow> arch \<Rightarrow> (bool \<Rightarrow> build_schedule) \<Rightarrow> nat \<Rightarrow> f32 list \<Rightarrow> ProductQuantizer \<Rightarrow> u8 list \<Rightarrow> nat \<Rightarrow> nat \<Rightarrow> MetricType \<Rightarrow> DiskAnnBuildParams \<Rightarrow> VamanaGraph res" where
  "build_with_pq_stats sz R t sched threads vectors pq pq_codes node_count dimension metric params =
     bind_res (validate_build_inputs vectors node_count dimension params) (\<lambda>_.
     bind_res (pq_has_valid_layout pq) (\<lambda>valid.
     if pq_d pq \<noteq> dimension \<or> \<not> (pq_nbits pq = 4 \<or> pq_nbits pq = 8) \<or> \<not> valid \<or> length pq_codes \<noteq> saturating_mul node_count (pq_code_size pq)
     then Inl (Err InvalidInput)
     else bind_res (pd_new t pq pq_codes node_count metric) (\<lambda>distance.
       build_with_search_distance sz R t sched threads vectors node_count dimension metric params (ProductQuantized distance))))"

end
