(* ===== verification/Vamana_Schedule.thy ===== *)
theory Vamana_Schedule
  imports Vamana_Build
begin

text \<open>
  The parallel build of a graph does not depend on its schedule. A store is the function from its nodes to
  their slots and degrees; the searches of a batch do not depend on the scratch they run in; the
  updates of a batch write different nodes, so that every order leaves the same store.
\<close>

section \<open>A store is its cells\<close>

definition pa_cell :: "ParallelAdjacency \<Rightarrow> nat \<Rightarrow> u32 list \<times> u16" where
  "pa_cell pa = ca_cell (pa_into_adjacency pa)"

lemma rows_ext:
  assumes "length xs = n * md" "length ys = n * md" "\<forall>l < n. row_of md xs l = row_of md ys l"
  shows "xs = ys"
proof (rule nth_equalityI)
  fix i assume "i < length xs"
  then have i: "i < n * md" using assms(1) by simp
  then have md: "0 < md" by (cases md) auto
  have l: "i div md < n" "i mod md < md" using i md by (simp_all add: less_mult_imp_div_less)
  have "xs ! (i div md * md + i mod md) = ys ! (i div md * md + i mod md)"
    using nth_row_of[OF l(1) assms(1) l(2)] nth_row_of[OF l(1) assms(2) l(2)] assms(3) l(1) by simp
  then show "xs ! i = ys ! i" by simp
qed (use assms in simp)

lemma shards_ext:
  assumes A: "shards_ok n md A" and B: "shards_ok n md B"
    and eq: "\<forall>node < n. row_of md (sh_slots (A ! shard_index node)) (node mod 256) = row_of md (sh_slots (B ! shard_index node)) (node mod 256)
      \<and> sh_degrees (A ! shard_index node) ! (node mod 256) = sh_degrees (B ! shard_index node) ! (node mod 256)"
  shows "A = B"
proof (rule nth_equalityI)
  show len: "length A = length B" using A B by (simp add: shards_ok_def)
  fix s assume s: "s < length A"
  have a: "sh_start_node (A ! s) = s * 256" "sh_node_count (A ! s) = min 256 (n - s * 256)" "shard_ok md (A ! s)" using A s by (auto simp: shards_ok_def)
  have b: "sh_start_node (B ! s) = s * 256" "sh_node_count (B ! s) = min 256 (n - s * 256)" "shard_ok md (B ! s)" using B s len by (auto simp: shards_ok_def)
  have cell: "row_of md (sh_slots (A ! s)) l = row_of md (sh_slots (B ! s)) l" "sh_degrees (A ! s) ! l = sh_degrees (B ! s) ! l" if l: "l < min 256 (n - s * 256)" for l
  proof -
    have "shard_index (s * 256 + l) = s" "(s * 256 + l) mod 256 = l" "s * 256 + l < n" using l by (auto simp: shard_index_def PARALLEL_ADJACENCY_NODES_PER_SHARD_def)
    then show "row_of md (sh_slots (A ! s)) l = row_of md (sh_slots (B ! s)) l" "sh_degrees (A ! s) ! l = sh_degrees (B ! s) ! l" using eq by metis+
  qed
  have "sh_slots (A ! s) = sh_slots (B ! s)" 
    by (rule rows_ext[of _ "min 256 (n - s * 256)" md]) (use a(2,3) b(2,3) cell(1) in \<open>auto simp: shard_ok_def\<close>)
  moreover have "sh_degrees (A ! s) = sh_degrees (B ! s)" using a(2,3) b(2,3) cell(2) by (intro nth_equalityI) (simp_all add: shard_ok_def)
  ultimately show "A ! s = B ! s" using a(1,2) b(1,2) by (cases "A ! s"; cases "B ! s") simp
qed

lemma pa_ext:
  assumes "pa_ok a" "pa_ok b" "pa_node_count a = pa_node_count b" "pa_max_degree a = pa_max_degree b" "\<forall>node < pa_node_count a. pa_cell a node = pa_cell b node"
  shows "a = b"
proof -
  have "pa_shards a = pa_shards b" using shards_ext[of "pa_node_count a" "pa_max_degree a" "pa_shards a" "pa_shards b"] assms
    by (simp add: pa_ok_def pa_cell_def ca_cell_def pa_into_adjacency_def)
  then show ?thesis using assms(3,4) by (cases a; cases b) simp
qed

lemma pa_cell_adj: "pa_ok pa \<Longrightarrow> node < pa_node_count pa \<Longrightarrow> cell_row (pa_cell pa node) = pa_adj pa ! node \<and> cell_ok (pa_max_degree pa) (pa_cell pa node)"
  using ca_cell_facts(1,2)[of "pa_into_adjacency pa" node] into_adjacency[of pa] by (simp add: pa_cell_def)

text \<open>Writing a list into a cell leaves what was behind it.\<close>

definition put_cell :: "u32 list \<Rightarrow> u32 list \<times> u16 \<Rightarrow> u32 list \<times> u16" where
  "put_cell ns = (\<lambda>(slots, _). (ns @ drop (length ns) slots, word_of_nat (length ns)))"

lemma pa_replace_cell:
  assumes ok: "pa_ok pa" and node: "node < pa_node_count pa" and ns: "length ns \<le> pa_max_degree pa"
  shows "\<exists>pa'. pa_replace node ns pa = Inr pa' \<and> pa_ok pa' \<and> pa_node_count pa' = pa_node_count pa \<and> pa_max_degree pa' = pa_max_degree pa
    \<and> pa_adj pa' = (pa_adj pa)[node := ns] \<and> (\<forall>m < pa_node_count pa. pa_cell pa' m = (if m = node then put_cell ns (pa_cell pa m) else pa_cell pa m))"
proof -
  let ?n = "pa_node_count pa" and ?md = "pa_max_degree pa" and ?i = "shard_index node" and ?l = "node mod 256"
  let ?sh = "pa_shards pa ! ?i"
  obtain pa' where run: "pa_replace node ns pa = Inr pa'" "pa_ok pa'" "pa_adj pa' = (pa_adj pa)[node := ns]" "pa_max_degree pa' = ?md"
    using parallel.replaces[OF ok, of node ns] node ns by auto
  note S = shard_of_node[OF ok[unfolded pa_ok_def] node]
  have len: "length (sh_slots ?sh) = sh_node_count ?sh * ?md" "length (sh_degrees ?sh) = sh_node_count ?sh" using S(2) by (auto simp: shard_ok_def)
  define row where "row = row_of ?md (sh_slots ?sh) ?l"
  have row: "length row = ?md" using length_row_of[OF len(1) S(4)] by (simp add: row_def)
  let ?new = "take (?l * ?md) (sh_slots ?sh) @ (ns @ drop (length ns) row) @ drop (?l * ?md + ?md) (sh_slots ?sh)"
  have b: "?l * ?md + ?md \<le> length (sh_slots ?sh)" using row_bound[OF S(4) len(1)] .
  have "drop (length ns) row = take (?md - length ns) (drop (?l * ?md + length ns) (sh_slots ?sh))" using b ns
    by (simp add: row_def row_of_def slice_def drop_take add.commute)
  then have new: "take (?l * ?md) (sh_slots ?sh) @ ns @ drop (?l * ?md + length ns) (sh_slots ?sh) = ?new"
    using ns append_take_drop_id[of "?md - length ns" "drop (?l * ?md + length ns) (sh_slots ?sh)"] by (simp add: add.commute add.left_commute)
  have l: "local_node_of node ?sh = Inr ?l" using local_node_eq[of ?sh ?l] S(3) by simp
  let ?sh' = "?sh\<lparr>sh_slots := ?new, sh_degrees := (sh_degrees ?sh)[?l := word_of_nat (length ns)]\<rparr>"
  have pa': "pa' = pa\<lparr>pa_shards := (pa_shards pa)[?i := ?sh']\<rparr>" using run(1) S(1,4) l b ns len(2) new
    by (simp add: pa_replace_def on_shard_def shard_replace_def idx_def Let_def copy_from_slice_def set_idx_def)
  have "length (ns @ drop (length ns) row) = ?md" using row ns by simp
  note C = copied_row[OF len(1) S(4) this]
  have "pa_cell pa' m = (if m = node then put_cell ns (pa_cell pa m) else pa_cell pa m)" if m: "m < ?n" for m
  proof (cases "shard_index m = ?i")
    case True
    have ne: "m mod 256 \<noteq> ?l" if "m \<noteq> node" using that True unfolding shard_index_def PARALLEL_ADJACENCY_NODES_PER_SHARD_def by (metis div_mult_mod_eq)
    have "m mod 256 < sh_node_count ?sh" using shard_of_node(4)[OF ok[unfolded pa_ok_def] m] True by simp
    then show ?thesis using True S(1,4) C(3) C(4)[of "m mod 256"] len(2) ne
      by (cases "m = node") (auto simp: pa_cell_def ca_cell_def pa_into_adjacency_def pa' put_cell_def row_def)
  next
    case False
    then have "m \<noteq> node" by auto
    then show ?thesis using False by (simp add: pa_cell_def ca_cell_def pa_into_adjacency_def pa')
  qed
  then show ?thesis using run pa' by (intro exI[of _ pa']) simp
qed

section \<open>The searches of a batch\<close>

definition search_ok :: "nat \<Rightarrow> BuildSearchDistance \<Rightarrow> bool" where
  "search_ok n sd \<longleftrightarrow> (case sd of FullPrecision vectors d metric \<Rightarrow> length vectors = n * d | ProductQuantized pd \<Rightarrow> pd_ok n pd)"

lemma query_total:
  assumes "search_ok n sd" "q < n"
  shows "\<exists>table dist. prepare_query sd q [] = Inr table \<and> (\<forall>k < n. to_query t sd k q table = Inr (dist k))"
proof (cases sd)
  case (FullPrecision vectors d metric)
  then show ?thesis using assms distance_between_eq[of vectors n d _ q t metric] by (auto simp: search_ok_def prepare_query_def to_query_def)
next
  case (ProductQuantized pd)
  then have pd: "pd_ok n pd" using assms(1) by (simp add: search_ok_def)
  let ?ks = "pd_ksub pd"
  obtain table where t: "pd_prepare_query pd q = Inr table" "length table = pd_m pd * ?ks" using pd_rows[OF pd assms(2) order.refl] by (auto simp: pd_prepare_query_def)
  have "\<exists>x. pd_to_query pd k table = Inr x" if k: "k < n" for k
  proof -
    have step: "bind_res (pd_code pd k sub) (\<lambda>code. bind_res (idx table (sub * ?ks + code)) (\<lambda>x. Inr (f32_add d x))) = Inr (f32_add d (table ! (sub * ?ks + code_value pd k sub)))"
      if "sub \<in> set [0..<pd_m pd]" for sub d
    proof -
      have s: "sub < pd_m pd" using that by simp
      have "sub * ?ks + code_value pd k sub < length table" using t(2) pd_code_eq(2)[OF pd k s] mult_le_mono1[of "Suc sub" "pd_m pd" ?ks] s by simp
      then show ?thesis using pd_code_eq(1)[OF pd k s] by (simp add: idx_def)
    qed
    show ?thesis unfolding pd_to_query_def by (rule exI, rule fold_res_Inr, rule step)
  qed
  then have "\<exists>dist. \<forall>k < n. pd_to_query pd k table = Inr (dist k)" by metis
  then show ?thesis using t(1) ProductQuantized by (auto simp: prepare_query_def to_query_def)
qed

text \<open>A search for no candidates looks at the entry node and stops.\<close>

lemma search_from_none:
  assumes "\<forall>k < n. distance k = Inr (dist k)" "states_ok n (gs_visit_states s)" "gs_results s = []" "gs_frontier s = []" "unat entry < n"
  shows "\<exists>s'. search_from entry n neighbors distance 0 s = Inr s' \<and> states_ok n (gs_visit_states s')"
proof -
  obtain v where "mark_visited (unat entry) (gs_visit_states s) = Inr v" "states_ok n v" using states.visit_law[OF assms(2,5)] by blast
  then show ?thesis using assms(1,4,5) by (simp add: search_from_def insert_candidate_def on_states_def pop_nearest_unexpanded_def)
qed

definition row_ok :: "nat \<Rightarrow> nat \<Rightarrow> nat \<Rightarrow> u32 list \<Rightarrow> bool" where
  "row_ok n md node ns \<longleftrightarrow> length ns \<le> md \<and> distinct ns \<and> (\<forall>x \<in> set ns. unat x < n \<and> unat x \<noteq> node)"

lemma row_fits:
  assumes "row_ok n md node ns" "node < n"
  shows "length ns \<le> min md (n - 1)"
proof -
  have "inj_on unat (set ns)" by (auto intro: inj_onI simp: word_unat_eq_iff)
  then have "length ns = card (unat ` set ns)" using assms(1) by (simp add: card_image distinct_card row_ok_def)
  also have "\<dots> \<le> card ({..<n} - {node})" using assms(1) by (intro card_mono) (auto simp: row_ok_def)
  finally show ?thesis using assms by (simp add: row_ok_def)
qed

definition builder_ok :: "nat \<Rightarrow> nat \<Rightarrow> ParallelVamanaBuilder \<Rightarrow> bool" where
  "builder_ok n md b \<longleftrightarrow> pa_ok (vb_adjacency b) \<and> pa_node_count (vb_adjacency b) = n \<and> pa_max_degree (vb_adjacency b) = min md (n - 1)
     \<and> (\<forall>v < n. row_ok n md v (pa_adj (vb_adjacency b) ! v)) \<and> length (vb_vectors b) = n * vb_dimension b \<and> unat (vb_entry_node b) < n
     \<and> search_ok n (vb_search_distance b) \<and> n < 2 ^ 30"

lemma builder_search_ends:
  assumes b: "builder_ok n md b" and q: "q < n" and s: "states_ok n (gs_visit_states s)"
  shows "\<exists>s'. builder_greedy_search t b q L s = Inr s' \<and> states_ok n (gs_visit_states s')"
proof -
  let ?pa = "vb_adjacency b"
  have B: "pa_ok ?pa" "pa_node_count ?pa = n" "unat (vb_entry_node b) < n" "search_ok n (vb_search_distance b)" "n < 2 ^ 30" using b by (simp_all add: builder_ok_def)
  obtain table dist where d: "prepare_query (vb_search_distance b) q [] = Inr table" "\<forall>k < n. to_query t (vb_search_distance b) k q table = Inr (dist k)"
    using query_total[OF B(4) q] by blast
  obtain a where a: "begin_search s = Inr a" "states_ok n (gs_visit_states a)" "\<forall>k < n. node_state a k = 0" "gs_results a = []" "gs_frontier a = []"
    using begin_search_eq[OF s] by blast
  have len: "length (pa_adj ?pa) = n" using B(2) by simp
  have nb: "\<forall>k < n. pa_copy_neighbors k ?pa [] = Inr (pa_adj ?pa ! k)" using parallel.reads[OF B(1)] B(2) by simp
  have "\<exists>s'. search_from (vb_entry_node b) n (\<lambda>node. pa_copy_neighbors node ?pa []) (\<lambda>node. to_query t (vb_search_distance b) node q table) L a = Inr s' \<and> states_ok n (gs_visit_states s')"
  proof (cases "L = 0")
    case True
    then show ?thesis using search_from_none[OF d(2) a(2,4,5) B(3)] by simp
  next
    case False
    have "n \<le> 2 ^ 32" "0 < L" using B(5) False by simp_all
    from search_from_result[where adj = "pa_adj ?pa", unfolded len, OF this d(2) nb a(2-5) B(3)] show ?thesis by blast
  qed
  then show ?thesis using a(1) d(1) B(2) by (simp add: builder_greedy_search_def)
qed

text \<open>What a node selects is the same in every scratch.\<close>

lemma select_neighbors_same:
  assumes b: "builder_ok n md b" and q: "q < n" and a: "alpha_ok (vb_metric b) (vb_dimension b) alpha" and md: "bp_max_degree params = md"
  shows "\<exists>selected. row_ok n md q selected \<and> (\<forall>s. states_ok n (gs_visit_states s) \<longrightarrow> (\<exists>s'. select_neighbors t b params alpha q s = Inr (selected, s') \<and> states_ok n (gs_visit_states s')))"
proof -
  let ?pa = "vb_adjacency b" and ?L = "bp_build_search_list_size params"
  have B: "pa_ok ?pa" "pa_node_count ?pa = n" "unat (vb_entry_node b) < n" "length (vb_vectors b) = n * vb_dimension b" "n < 2 ^ 30" using b by (simp_all add: builder_ok_def)
  obtain s0 :: GreedySearchScratch where s0: "states_ok n (gs_visit_states s0)" using scratch_new_ok[OF B(5), of 0 0] by blast
  obtain r0 where r0: "builder_greedy_search t b q ?L s0 = Inr r0" using builder_search_ends[OF b q s0] by blast
  define offered where "offered = map sn_id (gs_results r0) @ pa_adj ?pa ! q"
  let ?sel = "pruned t (vb_vectors b) (vb_dimension b) (vb_metric b) alpha n md q offered"
  have row: "row_ok n md q ?sel" using pruned_facts(1,2)[of t "vb_vectors b" "vb_dimension b" "vb_metric b" alpha n md q offered] pruned_facts(3)[of _ t "vb_vectors b" "vb_dimension b" "vb_metric b" alpha n md q offered] by (auto simp: row_ok_def)
  have "\<exists>s'. select_neighbors t b params alpha q s = Inr (?sel, s') \<and> states_ok n (gs_visit_states s')" if s: "states_ok n (gs_visit_states s)" for s
  proof -
    have same: "both (alike n) (builder_greedy_search t b q ?L s0) (builder_greedy_search t b q ?L s)" unfolding builder_greedy_search_def B(2)
      by (rule both_bind[OF begin_search_alike[OF s0 s]]) (cases "prepare_query (vb_search_distance b) q []"; simp add: alike_search B(3))
    obtain r where r: "builder_greedy_search t b q ?L s = Inr r" "alike n r0 r" using both_same[OF same r0] by blast
    have "gs_results r = gs_results r0" "states_ok n (gs_visit_states r)" using r(2) by (simp_all add: alike_def)
    moreover have "pa_copy_neighbors q ?pa [] = Inr (pa_adj ?pa ! q)" using parallel.reads[OF B(1)] B(2) q by simp
    ultimately show ?thesis using r(1) prune_into_eq[OF B(4) q a, of t "map sn_id (gs_results r0)" "pa_adj ?pa ! q" md] B(2) md
      by (auto simp: select_neighbors_def pruned_def offered_def)
  qed
  then show ?thesis using row by blast
qed

lemma selections_exist:
  assumes "builder_ok n md b" "alpha_ok (vb_metric b) (vb_dimension b) alpha" "bp_max_degree params = md"
  shows "\<exists>sel. \<forall>q < n. row_ok n md q (sel q) \<and> (\<forall>s. states_ok n (gs_visit_states s) \<longrightarrow> (\<exists>s'. select_neighbors t b params alpha q s = Inr (sel q, s') \<and> states_ok n (gs_visit_states s')))"
  using select_neighbors_same[OF assms(1) _ assms(2,3), of _ t] by metis

definition scratches_ok :: "nat \<Rightarrow> GreedySearchScratch list \<Rightarrow> bool" where
  "scratches_ok n scratches \<longleftrightarrow> scratches \<noteq> [] \<and> (\<forall>s \<in> set scratches. states_ok n (gs_visit_states s))"

lemma search_tasks_run:
  assumes sel: "\<forall>q < n. \<forall>s. states_ok n (gs_visit_states s) \<longrightarrow> (\<exists>s'. select_neighbors t b params alpha q s = Inr (sel q, s') \<and> states_ok n (gs_visit_states s'))"
    and batch: "\<forall>q \<in> set batch. q < n" and ord: "\<forall>x \<in> set order. fst x < length batch" and scr: "scratches_ok n scratches" and acc: "length acc = length batch"
  shows "\<exists>scratches'. scratches_ok n scratches' \<and> fold_res (search_task t b params alpha batch) order (scratches, acc) = Inr (scratches', fold (\<lambda>x acc. acc[fst x := sel (batch ! fst x)]) order acc)"
  using ord scr acc
proof (induction order arbitrary: scratches acc)
  case (Cons x order)
  obtain task thread where x: "x = (task, thread)" by (cases x)
  let ?w = "thread mod length scratches"
  have w: "?w < length scratches" using Cons.prems(2) by (simp add: scratches_ok_def)
  then have "states_ok n (gs_visit_states (scratches ! ?w))" using Cons.prems(2) nth_mem by (auto simp: scratches_ok_def)
  moreover have k: "task < length batch" "batch ! task < n" using Cons.prems(1) x batch by auto
  ultimately obtain s' where s': "select_neighbors t b params alpha (batch ! task) (scratches ! ?w) = Inr (sel (batch ! task), s')" "states_ok n (gs_visit_states s')" using sel by blast
  have step: "search_task t b params alpha batch x (scratches, acc) = Inr (scratches[?w := s'], acc[task := sel (batch ! task)])"
    using s'(1) w k Cons.prems(3) x by (simp add: search_task_def Let_def idx_def set_idx_def)
  have "scratches_ok n (scratches[?w := s'])" using Cons.prems(2) s'(2) set_update_subset_insert[of scratches ?w s'] by (auto simp: scratches_ok_def)
  from Cons.IH[OF _ this, of "acc[task := sel (batch ! task)]"] Cons.prems(1,3) step x show ?case by simp
qed simp

definition runs_all :: "nat \<Rightarrow> (nat \<times> nat) list \<Rightarrow> bool" where
  "runs_all k order \<longleftrightarrow> mset (map fst order) = mset [0..<k]"

lemma runs_allD: "runs_all k order \<Longrightarrow> fst ` set order = {..<k} \<and> distinct (map fst order)"
proof
  assume a: "runs_all k order"
  then have m: "mset (map fst order) = mset [0..<k]" by (simp add: runs_all_def)
  have "set (map fst order) = set [0..<k]" using mset_eq_setD[OF m] .
  then show "fst ` set order = {..<k}" by auto
  show "distinct (map fst order)" using mset_eq_imp_distinct_iff[OF m] by simp
qed

lemma fold_updates:
  fixes f :: "nat \<Rightarrow> 'a"
  shows "length (fold (\<lambda>x acc. acc[fst x := f (fst x)]) order acc) = length acc"
    "i < length acc \<Longrightarrow> fold (\<lambda>x acc. acc[fst x := f (fst x)]) order acc ! i = (if i \<in> fst ` set order then f i else acc ! i)"
  by (induction order arbitrary: acc) (auto simp: nth_list_update)

lemma search_phase:
  assumes "\<forall>q < n. \<forall>s. states_ok n (gs_visit_states s) \<longrightarrow> (\<exists>s'. select_neighbors t b params alpha q s = Inr (sel q, s') \<and> states_ok n (gs_visit_states s'))"
    and "\<forall>q \<in> set batch. q < n" "runs_all (length batch) order" "scratches_ok n scratches"
  shows "\<exists>scratches'. scratches_ok n scratches' \<and> fold_res (search_task t b params alpha batch) order (scratches, replicate (length batch) []) = Inr (scratches', map sel batch)"
proof -
  note R = runs_allD[OF assms(3)]
  have ord: "\<forall>x \<in> set order. fst x < length batch" using R by blast
  have "fold (\<lambda>x acc. acc[fst x := sel (batch ! fst x)]) order (replicate (length batch) []) = map sel batch"
    using fold_updates[where f = "\<lambda>i. sel (batch ! i)" and order = order and acc = "replicate (length batch) []"] R by (intro nth_equalityI) auto
  then show ?thesis using search_tasks_run[OF assms(1,2) ord assms(4), of "replicate (length batch) []"] by simp
qed

section \<open>Committing a batch\<close>

lemma commit_phase:
  assumes "pa_ok pa" "pa_node_count pa = n" "pa_max_degree pa = min md (n - 1)" "\<forall>v < n. row_ok n md v (pa_adj pa ! v)"
    and "\<forall>q \<in> set batch. q < n \<and> row_ok n md q (sel q)"
  shows "\<exists>pa'. fold_res commit_node (zip batch (map sel batch)) (pa, es) = Inr (pa', es @ concat (map (\<lambda>q. map (\<lambda>x. (x, word_of_nat q)) (sel q)) batch))
    \<and> pa_ok pa' \<and> pa_node_count pa' = n \<and> pa_max_degree pa' = min md (n - 1) \<and> (\<forall>v < n. row_ok n md v (pa_adj pa' ! v))"
  using assms
proof (induction batch arbitrary: pa es)
  case (Cons q batch)
  have q: "q < pa_node_count pa" "length (sel q) \<le> pa_max_degree pa" using Cons.prems row_fits[of n md q "sel q"] by simp_all
  obtain pa' where pa': "pa_replace q (sel q) pa = Inr pa'" "pa_ok pa'" "pa_node_count pa' = n" "pa_max_degree pa' = min md (n - 1)" "pa_adj pa' = (pa_adj pa)[q := sel q]"
    using pa_replace_cell[OF Cons.prems(1) q] Cons.prems(2,3) by auto
  have "\<forall>v < n. row_ok n md v (pa_adj pa' ! v)" using Cons.prems(2,4,5) pa'(5) by (auto simp: nth_list_update)
  moreover have "commit_node (q, sel q) (pa, es) = Inr (pa', es @ map (\<lambda>x. (x, word_of_nat q)) (sel q))" using pa'(1) by (simp add: commit_node_def)
  ultimately show ?case using Cons.IH[OF pa'(2-4), of "es @ map (\<lambda>x. (x, word_of_nat q)) (sel q)"] Cons.prems(5) by simp
qed simp

section \<open>Groups of reverse edges\<close>

lemma group_end_facts:
  assumes "k \<le> length es"
  shows "group_end es target k \<le> length es" "k \<le> i \<Longrightarrow> i < group_end es target k \<Longrightarrow> fst (es ! i) = target"
    "group_end es target k < length es \<Longrightarrow> fst (es ! group_end es target k) \<noteq> target"
  using assms
proof (induction es target k rule: group_end.induct)
  case (1 es target k)
  { case 1 then show ?case using "1.IH"(1) by (subst group_end.simps) auto }
  { case 2
    show ?case
    proof (cases "k < length es \<and> fst (es ! k) = target")
      case True
      then have "group_end es target k = group_end es target (k + 1)" by (subst group_end.simps) simp
      then show ?thesis using "1.IH"(2)[OF True] 2 True by (cases "i = k") auto
    next
      case False
      then have "group_end es target k = k" by (subst group_end.simps) auto
      then show ?thesis using 2 by simp
    qed }
  { case 3 then show ?case using "1.IH"(3) by (subst (asm) group_end.simps, subst group_end.simps) (auto split: if_splits) }
qed

definition parted :: "(u32 \<times> u32) list \<Rightarrow> nat \<Rightarrow> bool" where
  "parted es k \<longleftrightarrow> (\<forall>i j. i < k \<longrightarrow> k \<le> j \<longrightarrow> j < length es \<longrightarrow> fst (es ! i) < fst (es ! j))"

lemma group_parted:
  assumes sorted: "sorted (map fst es)" and k: "k < length es" "parted es k"
  defines "e \<equiv> group_end es (fst (es ! k)) (k + 1)"
  shows "k < e" "e \<le> length es" "parted es e" "slice k e es = filter (\<lambda>x. fst x = fst (es ! k)) es"
proof -
  let ?t = "fst (es ! k)"
  have le: "fst (es ! i) \<le> fst (es ! j)" if "i \<le> j" "j < length es" for i j using sorted_nth_mono[OF sorted that(1)] that by simp
  have k1: "k + 1 \<le> length es" using k(1) by simp
  note F = group_end_facts[OF k1, where target = ?t, folded e_def]
  show ke: "k < e" using group_end_ge[of "k + 1" es ?t] by (simp add: e_def)
  show el: "e \<le> length es" by (rule F(1))
  have run: "fst (es ! i) = ?t" if "k \<le> i" "i < e" for i using F(2)[of i] that by (cases "i = k") auto
  have after: "?t < fst (es ! j)" if "e \<le> j" "j < length es" for j using F(3) le[of e j] le[of k e] that ke by (auto simp: order.strict_iff_order)
  have before: "fst (es ! i) < ?t" if "i < k" for i using k that by (auto simp: parted_def)
  show "parted es e" unfolding parted_def
  proof (intro allI impI)
    fix i j assume a: "i < e" "e \<le> j" "j < length es"
    have "fst (es ! i) \<le> ?t" using before[of i] run[of i] a(1) by (cases "i < k") (simp_all add: less_imp_le)
    then show "fst (es ! i) < fst (es ! j)" using after[OF a(2,3)] by (rule le_less_trans)
  qed
  have split: "es = take k es @ slice k e es @ drop e es"
    using append_take_drop_id[of k es] append_take_drop_id[of "e - k" "drop k es"] ke by (simp add: slice_def)
  have "filter (\<lambda>x. fst x = ?t) (take k es) = []" using before by (fastforce simp: filter_empty_conv in_set_conv_nth)
  moreover have "fst x \<noteq> ?t" if mem: "x \<in> set (drop e es)" for x
  proof -
    obtain j where "x = es ! (e + j)" "e + j < length es" using mem el by (auto simp: in_set_conv_nth)
    then show ?thesis using after[of "e + j"] by auto
  qed
  then have "filter (\<lambda>x. fst x = ?t) (drop e es) = []" by (simp add: filter_empty_conv)
  moreover have "fst x = ?t" if mem: "x \<in> set (slice k e es)" for x
  proof -
    obtain i where "x = slice k e es ! i" "i < length (slice k e es)" using mem by (metis in_set_conv_nth)
    then have "x = es ! (k + i)" "k + i < e" using ke el by (simp_all add: slice_def)
    then show ?thesis using run[of "k + i"] by simp
  qed
  then have "filter (\<lambda>x. fst x = ?t) (slice k e es) = slice k e es" by (intro filter_True) blast
  ultimately have "filter (\<lambda>x. fst x = ?t) (take k es @ slice k e es @ drop e es) = slice k e es" by simp
  then show "slice k e es = filter (\<lambda>x. fst x = ?t) es" using split by simp
qed

lemma group_loop_facts:
  assumes sorted: "sorted (map fst es)" and "parted es k"
  shows "\<forall>(a, e) \<in> set (group_loop es k). k \<le> a \<and> a < e \<and> e \<le> length es \<and> slice a e es = filter (\<lambda>x. fst x = fst (es ! a)) es"
    and "distinct (map (\<lambda>(a, e). fst (es ! a)) (group_loop es k))"
  using assms
proof (induction es k rule: group_loop.induct)
  case (1 es k)
  let ?e = "group_end es (fst (es ! k)) (k + 1)"
  {
    assume k: "k < length es" and prems: "sorted (map fst es)" "parted es k"
    note G = group_parted[OF prems(1) k prems(2)]
    have loop: "group_loop es k = (k, ?e) # group_loop es ?e" using k by (subst group_loop.simps) (simp add: Let_def)
    note IH = "1.IH"[OF k refl prems(1) G(3)]
    have "\<forall>(a, e) \<in> set (group_loop es k). k \<le> a \<and> a < e \<and> e \<le> length es \<and> slice a e es = filter (\<lambda>x. fst x = fst (es ! a)) es"
      unfolding loop using IH(1) G(1,2,4) by fastforce
    moreover have "fst (es ! k) < fst (es ! a)" if "(a, e) \<in> set (group_loop es ?e)" for a e
    proof -
      have "?e \<le> a" "a < length es" using IH(1) that by fastforce+
      then show ?thesis using G(1,3) by (auto simp: parted_def)
    qed
    then have "fst (es ! k) \<notin> set (map (\<lambda>(a, e). fst (es ! a)) (group_loop es ?e))" by fastforce
    then have "distinct (map (\<lambda>(a, e). fst (es ! a)) (group_loop es k))" unfolding loop using IH(2) by simp
    ultimately have "(\<forall>(a, e) \<in> set (group_loop es k). k \<le> a \<and> a < e \<and> e \<le> length es \<and> slice a e es = filter (\<lambda>x. fst x = fst (es ! a)) es)
      \<and> distinct (map (\<lambda>(a, e). fst (es ! a)) (group_loop es k))" by blast
  }
  moreover have "group_loop es k = []" if "\<not> k < length es" using that by (subst group_loop.simps) simp
  moreover { case 1 with calculation show ?case by (cases "k < length es") auto }
  moreover { case 2 with calculation show ?case by (cases "k < length es") auto }
qed

section \<open>Inserting the reverse edges\<close>

text \<open>Edges between different nodes, each once and sorted.\<close>

definition edges_ok :: "nat \<Rightarrow> (u32 \<times> u32) list \<Rightarrow> bool" where
  "edges_ok n es \<longleftrightarrow> sorted es \<and> distinct es \<and> (\<forall>(x, y) \<in> set es. unat x < n \<and> unat y < n \<and> unat y \<noteq> unat x)"

definition incoming :: "(u32 \<times> u32) list \<Rightarrow> nat \<Rightarrow> u32 list" where
  "incoming es node = map snd (filter (\<lambda>x. unat (fst x) = node) es)"

lemma incoming_facts:
  assumes "edges_ok n es"
  shows "distinct (incoming es node)" "x \<in> set (incoming es node) \<Longrightarrow> unat x < n \<and> unat x \<noteq> node"
proof -
  let ?g = "filter (\<lambda>x. unat (fst x) = node) es"
  have "inj_on snd (set ?g)"
  proof (rule inj_onI)
    fix a b assume ab: "a \<in> set ?g" "b \<in> set ?g" "snd a = snd b"
    then have "unat (fst a) = unat (fst b)" by simp
    then have "fst a = fst b" by (rule word_unat_eq_iff[THEN iffD2])
    then show "a = b" using ab(3) by (rule prod_eqI)
  qed
  moreover have "distinct ?g" using assms unfolding edges_ok_def by (blast intro: distinct_filter)
  ultimately show "distinct (incoming es node)" unfolding incoming_def distinct_map by blast
  assume "x \<in> set (incoming es node)"
  then obtain a where a: "(a, x) \<in> set es" "unat a = node" unfolding incoming_def by force
  have "\<forall>(a, y) \<in> set es. unat a < n \<and> unat y < n \<and> unat y \<noteq> unat a" using assms unfolding edges_ok_def by blast
  then have "unat x < n \<and> unat x \<noteq> unat a" using a(1) by blast
  then show "unat x < n \<and> unat x \<noteq> node" unfolding a(2) .
qed

lemma reverse_row_ok:
  assumes b: "builder_ok n md b" and v: "v < n" and a: "alpha_ok (vb_metric b) (vb_dimension b) alpha" and es: "edges_ok n es"
  shows "\<exists>row. reverse_row t b v (incoming es v) md alpha (pa_adj (vb_adjacency b) ! v) = Inr row \<and> row_ok n md v row"
proof -
  let ?ns = "pa_adj (vb_adjacency b) ! v" and ?in = "incoming es v"
  let ?fresh = "filter (\<lambda>x. x \<notin> set ?ns) ?in"
  have B: "pa_node_count (vb_adjacency b) = n" "length (vb_vectors b) = n * vb_dimension b" "row_ok n md v ?ns" using b v by (simp_all add: builder_ok_def)
  show ?thesis
  proof (cases "length ?fresh = 0 \<or> saturating_add (length ?ns) (length ?fresh) \<le> md")
    case True
    have "row_ok n md v (?ns @ ?fresh)" if fit: "saturating_add (length ?ns) (length ?fresh) \<le> md"
    proof -
      have D: "distinct (?ns @ ?fresh)" "\<forall>x \<in> set (?ns @ ?fresh). unat x < n \<and> unat x \<noteq> v" using B(3) incoming_facts[OF es, where node = v] by (auto simp: row_ok_def)
      then have "row_ok n (length (?ns @ ?fresh)) v (?ns @ ?fresh)" by (simp add: row_ok_def)
      from row_fits[OF this v] have "length (?ns @ ?fresh) \<le> n - 1" by simp
      moreover have "n < 2 ^ 30" using b by (simp add: builder_ok_def)
      ultimately have "length ?ns + length ?fresh \<le> USIZE_MAX" using order_trans[of _ "n - 1" USIZE_MAX] by simp
      then have "length (?ns @ ?fresh) \<le> md" using fit by (simp add: saturating_add_def)
      then show ?thesis using D by (simp add: row_ok_def)
    qed
    then show ?thesis using True B(3) by (auto simp: reverse_row_def Let_def)
  next
    case False
    let ?sel = "pruned t (vb_vectors b) (vb_dimension b) (vb_metric b) alpha n md v (?in @ ?ns)"
    have "reverse_row t b v ?in md alpha ?ns = Inr ?sel" using False B(1) prune_into_eq[OF B(2) v a, of t ?in ?ns md] by (auto simp: reverse_row_def Let_def pruned_def)
    moreover have "row_ok n md v ?sel" using pruned_facts(1,2)[of t "vb_vectors b" "vb_dimension b" "vb_metric b" alpha n md v "?in @ ?ns"]
        pruned_facts(3)[of _ t "vb_vectors b" "vb_dimension b" "vb_metric b" alpha n md v "?in @ ?ns"] by (auto simp: row_ok_def)
    ultimately show ?thesis by blast
  qed
qed

text \<open>A store in which the nodes of \<open>D\<close> have their new rows.\<close>

definition written :: "nat \<Rightarrow> nat \<Rightarrow> ParallelAdjacency \<Rightarrow> (nat \<Rightarrow> u32 list) \<Rightarrow> nat set \<Rightarrow> ParallelAdjacency \<Rightarrow> bool" where
  "written n md pa0 new D pa \<longleftrightarrow> pa_ok pa \<and> pa_node_count pa = n \<and> pa_max_degree pa = min md (n - 1) \<and> (\<forall>v < n. row_ok n md v (pa_adj pa ! v))
     \<and> (\<forall>m < n. pa_cell pa m = (if m \<in> D then put_cell (new m) (pa_cell pa0 m) else pa_cell pa0 m))"

lemma written_same: "written n md pa0 new D a \<Longrightarrow> written n md pa0 new D b \<Longrightarrow> a = b"
  by (rule pa_ext) (simp_all add: written_def)

lemma written_step:
  assumes w: "written n md pa0 new D pa" and v: "v < n" "v \<notin> D" "row_ok n md v (new v)"
  shows "\<exists>pa'. pa_replace v (new v) pa = Inr pa' \<and> written n md pa0 new (insert v D) pa'"
proof -
  have W: "pa_ok pa" "v < pa_node_count pa" "length (new v) \<le> pa_max_degree pa" using w v row_fits[OF v(3,1)] by (simp_all add: written_def)
  from pa_replace_cell[OF W] obtain pa' where "pa_replace v (new v) pa = Inr pa'" "pa_ok pa'" "pa_node_count pa' = n" "pa_max_degree pa' = min md (n - 1)"
    "pa_adj pa' = (pa_adj pa)[v := new v]" "\<forall>m < n. pa_cell pa' m = (if m = v then put_cell (new v) (pa_cell pa m) else pa_cell pa m)" using w by (auto simp: written_def)
  then show ?thesis using w v by (auto simp: written_def nth_list_update)
qed

lemma written_untouched: "written n md pa0 new D pa \<Longrightarrow> pa_ok pa0 \<Longrightarrow> pa_node_count pa0 = n \<Longrightarrow> v < n \<Longrightarrow> v \<notin> D \<Longrightarrow> pa_adj pa ! v = pa_adj pa0 ! v"
  using pa_cell_adj[of pa v] pa_cell_adj[of pa0 v] by (auto simp: written_def)

lemma sorted_targets: "sorted es \<Longrightarrow> sorted (map fst es)" for es :: "(u32 \<times> u32) list"
  unfolding sorted_wrt_map by (erule sorted_wrt_mono_rel[rotated]) (auto simp: less_eq_prod_def)

definition group_target :: "(u32 \<times> u32) list \<Rightarrow> nat \<Rightarrow> nat" where
  "group_target es k = unat (fst (es ! fst (group_loop es 0 ! k)))"

lemma group_facts:
  assumes es: "edges_ok n es" and k: "k < length (group_loop es 0)"
  shows "fst (group_loop es 0 ! k) < length es" "group_target es k < n" "map snd (slice (fst (group_loop es 0 ! k)) (snd (group_loop es 0 ! k)) es) = incoming es (group_target es k)"
    "fst (group_loop es 0 ! k) \<le> snd (group_loop es 0 ! k)" "snd (group_loop es 0 ! k) \<le> length es"
proof -
  obtain a e where ae: "group_loop es 0 ! k = (a, e)" by (cases "group_loop es 0 ! k")
  have "sorted (map fst es)" using es sorted_targets unfolding edges_ok_def by blast
  moreover have "parted es 0" by (simp add: parted_def)
  ultimately have G: "a < e" "e \<le> length es" "slice a e es = filter (\<lambda>x. fst x = fst (es ! a)) es" using group_loop_facts(1)[of es 0] nth_mem[OF k] unfolding ae by fastforce+
  then show "fst (group_loop es 0 ! k) < length es" "fst (group_loop es 0 ! k) \<le> snd (group_loop es 0 ! k)" "snd (group_loop es 0 ! k) \<le> length es" by (simp_all add: ae)
  have "es ! a \<in> set es" using G(1,2) by simp
  moreover have "\<forall>(x, y) \<in> set es. unat x < n" using es unfolding edges_ok_def by blast
  ultimately show "group_target es k < n" by (auto simp: group_target_def ae)
  have "filter (\<lambda>x. fst x = fst (es ! a)) es = filter (\<lambda>x. unat (fst x) = unat (fst (es ! a))) es" by (intro filter_cong refl word_unat_eq_iff)
  then show "map snd (slice (fst (group_loop es 0 ! k)) (snd (group_loop es 0 ! k)) es) = incoming es (group_target es k)" using G(3) unfolding incoming_def group_target_def ae fst_conv snd_conv by metis
qed

lemma group_target_inj: "edges_ok n es \<Longrightarrow> i < length (group_loop es 0) \<Longrightarrow> j < length (group_loop es 0) \<Longrightarrow> group_target es i = group_target es j \<Longrightarrow> i = j"
proof -
  assume a: "edges_ok n es" "i < length (group_loop es 0)" "j < length (group_loop es 0)" "group_target es i = group_target es j"
  have "sorted (map fst es)" using a(1) sorted_targets unfolding edges_ok_def by blast
  moreover have "parted es 0" by (simp add: parted_def)
  ultimately have D: "distinct (map (\<lambda>(a, e). fst (es ! a)) (group_loop es 0))" by (rule group_loop_facts(2))
  have "fst (es ! fst (group_loop es 0 ! i)) = fst (es ! fst (group_loop es 0 ! j))" using a(4) unfolding group_target_def by (rule word_unat_eq_iff[THEN iffD2])
  then show "i = j" using nth_eq_iff_index_eq[OF D, of i j] a(2,3) by (simp add: case_prod_beta)
qed

lemma reverse_row_frame: "pa_node_count pa = pa_node_count (vb_adjacency b) \<Longrightarrow> reverse_row t (b\<lparr>vb_adjacency := pa\<rparr>) v = reverse_row t b v"
  by (intro ext) (simp add: reverse_row_def Let_def)

lemma reverse_task_run:
  assumes b: "builder_ok n md b" and md: "bp_max_degree params = md" and es: "edges_ok n es"
    and new: "\<forall>v < n. reverse_row t b v (incoming es v) md alpha (pa_adj (vb_adjacency b) ! v) = Inr (new v) \<and> row_ok n md v (new v)"
    and w: "written n md (vb_adjacency b) new D pa" and k: "k < length (group_loop es 0)" "group_target es k \<notin> D"
  shows "\<exists>pa'. reverse_task t params alpha es (group_loop es 0) (k, thread) (b\<lparr>vb_adjacency := pa\<rparr>) = Inr (b\<lparr>vb_adjacency := pa'\<rparr>)
    \<and> written n md (vb_adjacency b) new (insert (group_target es k) D) pa'"
proof -
  let ?v = "group_target es k"
  note G = group_facts[OF es k(1)]
  obtain a e where ae: "group_loop es 0 ! k = (a, e)" by (cases "group_loop es 0 ! k")
  have W: "pa_ok pa" "pa_node_count pa = n" using w by (simp_all add: written_def)
  have B: "pa_ok (vb_adjacency b)" "pa_node_count (vb_adjacency b) = n" using b by (simp_all add: builder_ok_def)
  have row: "reverse_row t (b\<lparr>vb_adjacency := pa\<rparr>) ?v (incoming es ?v) md alpha (pa_adj pa ! ?v) = Inr (new ?v)"
    using new G(2) written_untouched[OF w B G(2) k(2)] reverse_row_frame[of pa b t ?v] W(2) B(2) by simp
  obtain pa' where pa': "pa_replace ?v (new ?v) pa = Inr pa'" "written n md (vb_adjacency b) new (insert ?v D) pa'" using written_step[OF w G(2) k(2)] new G(2) by blast
  have "pa_update_from_buffer ?v (reverse_row t (b\<lparr>vb_adjacency := pa\<rparr>) ?v (incoming es ?v) md alpha) pa = Inr pa'" using pa_update_eq[OF W(1)] W(2) G(2) row pa'(1) by simp
  moreover obtain y where "es ! a = (fst (es ! a), y)" by (cases "es ! a") simp
  ultimately have "reverse_task t params alpha es (group_loop es 0) (k, thread) (b\<lparr>vb_adjacency := pa\<rparr>) = Inr (b\<lparr>vb_adjacency := pa'\<rparr>)"
    using k(1) G(1,3,4,5) md unfolding group_target_def ae by (simp add: reverse_task_def idx_def subslice_def insert_reverse_edges_def ae case_prod_beta)
  then show ?thesis using pa'(2) by blast
qed

lemma reverse_tasks_run:
  assumes b: "builder_ok n md b" and md: "bp_max_degree params = md" and es: "edges_ok n es"
    and new: "\<forall>v < n. reverse_row t b v (incoming es v) md alpha (pa_adj (vb_adjacency b) ! v) = Inr (new v) \<and> row_ok n md v (new v)"
    and "written n md (vb_adjacency b) new D pa" "\<forall>x \<in> set order. fst x < length (group_loop es 0)" "distinct (map fst order)" "\<forall>x \<in> set order. group_target es (fst x) \<notin> D"
  shows "\<exists>pa'. fold_res (reverse_task t params alpha es (group_loop es 0)) order (b\<lparr>vb_adjacency := pa\<rparr>) = Inr (b\<lparr>vb_adjacency := pa'\<rparr>)
    \<and> written n md (vb_adjacency b) new (D \<union> group_target es ` fst ` set order) pa'"
  using assms(5-8)
proof (induction order arbitrary: pa D)
  case (Cons x order)
  obtain k thread where x: "x = (k, thread)" by (cases x)
  have k: "k < length (group_loop es 0)" "group_target es k \<notin> D" using Cons.prems(2,4) x by simp_all
  obtain pa1 where pa1: "reverse_task t params alpha es (group_loop es 0) x (b\<lparr>vb_adjacency := pa\<rparr>) = Inr (b\<lparr>vb_adjacency := pa1\<rparr>)"
    "written n md (vb_adjacency b) new (insert (group_target es k) D) pa1" using reverse_task_run[OF b md es new Cons.prems(1) k, of thread] x by blast
  have fresh: "\<forall>y \<in> set order. group_target es (fst y) \<notin> insert (group_target es k) D"
  proof
    fix y assume y: "y \<in> set order"
    have "fst y \<noteq> k" using Cons.prems(3) y x by auto
    then have "group_target es (fst y) \<noteq> group_target es k" using group_target_inj[OF es _ k(1)] Cons.prems(2) y by auto
    then show "group_target es (fst y) \<notin> insert (group_target es k) D" using Cons.prems(4) y by simp
  qed
  have "\<forall>y \<in> set order. fst y < length (group_loop es 0)" "distinct (map fst order)" using Cons.prems(2,3) by simp_all
  from Cons.IH[OF pa1(2) this fresh] show ?case using pa1(1) x by simp
qed auto

section \<open>Batches and passes\<close>

definition schedule_ok :: "build_schedule \<Rightarrow> bool" where
  "schedule_ok sched \<longleftrightarrow> (\<forall>number loop k. runs_all k (sched number loop k))"

lemma builder_written: "builder_ok n md b \<Longrightarrow> written n md (vb_adjacency b) new D pa \<Longrightarrow> builder_ok n md (b\<lparr>vb_adjacency := pa\<rparr>)"
  by (simp add: builder_ok_def written_def)

lemma reverse_phase:
  assumes b: "builder_ok n md b" and md: "bp_max_degree params = md" and a: "alpha_ok (vb_metric b) (vb_dimension b) alpha" and es: "edges_ok n es"
  shows "\<exists>pa'. builder_ok n md (b\<lparr>vb_adjacency := pa'\<rparr>) \<and> (\<forall>order. runs_all (length (group_loop es 0)) order
    \<longrightarrow> fold_res (reverse_task t params alpha es (group_loop es 0)) order b = Inr (b\<lparr>vb_adjacency := pa'\<rparr>))"
proof -
  let ?k = "length (group_loop es 0)" and ?pa = "vb_adjacency b"
  obtain new where new: "\<forall>v < n. reverse_row t b v (incoming es v) md alpha (pa_adj ?pa ! v) = Inr (new v) \<and> row_ok n md v (new v)"
    using reverse_row_ok[OF b _ a es, of _ t] by metis
  have start: "written n md ?pa new {} ?pa" using b by (simp add: builder_ok_def written_def)
  have same: "b\<lparr>vb_adjacency := ?pa\<rparr> = b" by simp
  have run: "\<exists>pa'. fold_res (reverse_task t params alpha es (group_loop es 0)) order b = Inr (b\<lparr>vb_adjacency := pa'\<rparr>) \<and> written n md ?pa new (group_target es ` {..<?k}) pa'"
    if "runs_all ?k order" for order
  proof -
    note R = runs_allD[OF that]
    have "\<forall>x \<in> set order. fst x < ?k" using R by blast
    from reverse_tasks_run[OF b md es new start this] R show ?thesis unfolding same by simp
  qed
  have "runs_all ?k (map (\<lambda>i. (i, 0)) [0..<?k])" by (simp add: runs_all_def comp_def)
  from run[OF this] obtain pa' where pa': "written n md ?pa new (group_target es ` {..<?k}) pa'" by blast
  have "fold_res (reverse_task t params alpha es (group_loop es 0)) order b = Inr (b\<lparr>vb_adjacency := pa'\<rparr>)" if "runs_all ?k order" for order
    using run[OF that] written_same[OF pa'] by metis
  then show ?thesis using builder_written[OF b pa'] by blast
qed

lemma batch_edges_ok:
  assumes "\<forall>q \<in> set batch. q < n \<and> row_ok n md q (sel q)" "n < 2 ^ 30"
  shows "edges_ok n (remdups_adj (sort (concat (map (\<lambda>q. map (\<lambda>x. (x, word_of_nat q)) (sel q)) batch))))"
proof -
  have "unat x < n \<and> unat y < n \<and> unat y \<noteq> unat x" if "q \<in> set batch" "x \<in> set (sel q)" "y = word_of_nat q" for q x and y :: u32
  proof -
    have "q < n" using assms(1) that(1) by blast
    then have "unat y = q" using assms(2) that(3) unat_node[of q] by simp
    moreover have "unat x < n \<and> unat x \<noteq> q" using assms(1) that(1,2) unfolding row_ok_def by blast
    ultimately show ?thesis using \<open>q < n\<close> by auto
  qed
  then show ?thesis unfolding edges_ok_def by (auto simp: distinct_remdups_adj_sort sorted_remdups_adj)
qed

lemma run_batch_same:
  assumes b: "builder_ok n md b" and md: "bp_max_degree params = md" and a: "alpha_ok (vb_metric b) (vb_dimension b) alpha" and batch: "\<forall>q \<in> set batch. q < n"
  shows "\<exists>pa'. builder_ok n md (b\<lparr>vb_adjacency := pa'\<rparr>) \<and> (\<forall>sched number scratches. schedule_ok sched \<longrightarrow> scratches_ok n scratches
    \<longrightarrow> (\<exists>scratches'. run_batch t sched params alpha (number, batch) (b, scratches) = Inr (b\<lparr>vb_adjacency := pa'\<rparr>, scratches') \<and> scratches_ok n scratches'))"
proof -
  let ?pa = "vb_adjacency b"
  have B: "pa_ok ?pa" "pa_node_count ?pa = n" "pa_max_degree ?pa = min md (n - 1)" "\<forall>v < n. row_ok n md v (pa_adj ?pa ! v)" "n < 2 ^ 30" using b by (simp_all add: builder_ok_def)
  obtain sel where sel: "\<forall>q < n. row_ok n md q (sel q)"
    "\<forall>q < n. \<forall>s. states_ok n (gs_visit_states s) \<longrightarrow> (\<exists>s'. select_neighbors t b params alpha q s = Inr (sel q, s') \<and> states_ok n (gs_visit_states s'))"
    using selections_exist[OF b a md, of t] by blast
  have rows: "\<forall>q \<in> set batch. q < n \<and> row_ok n md q (sel q)" using sel(1) batch by blast
  define es where "es = remdups_adj (sort (concat (map (\<lambda>q. map (\<lambda>x. (x, word_of_nat q :: u32)) (sel q)) batch)))"
  have es: "edges_ok n es" unfolding es_def by (rule batch_edges_ok[OF rows B(5)])
  obtain pa1 where pa1: "fold_res commit_node (zip batch (map sel batch)) (?pa, []) = Inr (pa1, concat (map (\<lambda>q. map (\<lambda>x. (x, word_of_nat q)) (sel q)) batch))"
    "pa_ok pa1" "pa_node_count pa1 = n" "pa_max_degree pa1 = min md (n - 1)" "\<forall>v < n. row_ok n md v (pa_adj pa1 ! v)" using commit_phase[OF B(1-4) rows, of "[]"] by auto
  let ?b1 = "b\<lparr>vb_adjacency := pa1\<rparr>"
  have b1: "builder_ok n md ?b1" "alpha_ok (vb_metric ?b1) (vb_dimension ?b1) alpha" using b a pa1(2-5) by (simp_all add: builder_ok_def)
  obtain pa2 where pa2: "builder_ok n md (?b1\<lparr>vb_adjacency := pa2\<rparr>)" "\<forall>order. runs_all (length (group_loop es 0)) order
      \<longrightarrow> fold_res (reverse_task t params alpha es (group_loop es 0)) order ?b1 = Inr (?b1\<lparr>vb_adjacency := pa2\<rparr>)" using reverse_phase[OF b1(1) md b1(2) es, of t] by blast
  have "\<exists>scratches'. run_batch t sched params alpha (number, batch) (b, scratches) = Inr (b\<lparr>vb_adjacency := pa2\<rparr>, scratches') \<and> scratches_ok n scratches'"
    if ok: "schedule_ok sched" "scratches_ok n scratches" for sched number scratches
  proof -
    have "runs_all (length batch) (sched number False (length batch))" using ok(1) by (simp add: schedule_ok_def)
    from search_phase[OF sel(2) batch this ok(2)] obtain scratches' where s: "scratches_ok n scratches'"
      "fold_res (search_task t b params alpha batch) (sched number False (length batch)) (scratches, replicate (length batch) []) = Inr (scratches', map sel batch)" by blast
    have "fold_res (reverse_task t params alpha es (group_loop es 0)) (sched number True (length (group_loop es 0))) ?b1 = Inr (b\<lparr>vb_adjacency := pa2\<rparr>)"
      using pa2(2) ok(1) by (simp add: schedule_ok_def)
    then show ?thesis using s pa1(1) by (simp add: run_batch_def group_reverse_edges_def Let_def es_def[symmetric])
  qed
  then show ?thesis using pa2(1) by (intro exI[of _ pa2]) simp
qed

lemma run_batches_same:
  assumes "builder_ok n md b" "bp_max_degree params = md" "alpha_ok (vb_metric b) (vb_dimension b) alpha" "\<forall>batch \<in> set batches. \<forall>q \<in> set batch. q < n"
  shows "\<exists>pa'. builder_ok n md (b\<lparr>vb_adjacency := pa'\<rparr>) \<and> (\<forall>sched scratches. schedule_ok sched \<longrightarrow> scratches_ok n scratches
    \<longrightarrow> (\<exists>scratches'. fold_res (run_batch t sched params alpha) (enumerate k batches) (b, scratches) = Inr (b\<lparr>vb_adjacency := pa'\<rparr>, scratches') \<and> scratches_ok n scratches'))"
  using assms
proof (induction batches arbitrary: b k)
  case Nil
  then show ?case by (intro exI[of _ "vb_adjacency b"]) simp
next
  case (Cons batch batches)
  have "\<forall>q \<in> set batch. q < n" using Cons.prems(4) by simp
  from run_batch_same[OF Cons.prems(1-3) this, of t] obtain pa1 where pa1: "builder_ok n md (b\<lparr>vb_adjacency := pa1\<rparr>)"
    "\<forall>sched number scratches. schedule_ok sched \<longrightarrow> scratches_ok n scratches
      \<longrightarrow> (\<exists>scratches'. run_batch t sched params alpha (number, batch) (b, scratches) = Inr (b\<lparr>vb_adjacency := pa1\<rparr>, scratches') \<and> scratches_ok n scratches')" by blast
  have "alpha_ok (vb_metric (b\<lparr>vb_adjacency := pa1\<rparr>)) (vb_dimension (b\<lparr>vb_adjacency := pa1\<rparr>)) alpha" using Cons.prems(3) by simp
  from Cons.IH[OF pa1(1) Cons.prems(2) this, of "Suc k"] Cons.prems(4) obtain pa2 where pa2: "builder_ok n md (b\<lparr>vb_adjacency := pa2\<rparr>)"
    "\<forall>sched scratches. schedule_ok sched \<longrightarrow> scratches_ok n scratches
      \<longrightarrow> (\<exists>scratches'. fold_res (run_batch t sched params alpha) (enumerate (Suc k) batches) (b\<lparr>vb_adjacency := pa1\<rparr>, scratches) = Inr (b\<lparr>vb_adjacency := pa2\<rparr>, scratches') \<and> scratches_ok n scratches')"
    by auto
  have "\<exists>scratches'. fold_res (run_batch t sched params alpha) (enumerate k (batch # batches)) (b, scratches) = Inr (b\<lparr>vb_adjacency := pa2\<rparr>, scratches') \<and> scratches_ok n scratches'"
    if ok: "schedule_ok sched" "scratches_ok n scratches" for sched scratches
  proof -
    obtain s1 where s1: "run_batch t sched params alpha (k, batch) (b, scratches) = Inr (b\<lparr>vb_adjacency := pa1\<rparr>, s1)" "scratches_ok n s1" using pa1(2) ok by blast
    then show ?thesis using pa2(2) ok(1) by simp
  qed
  then show ?case using pa2(1) by blast
qed

lemma chunks_subset: "ys \<in> set (chunks k xs) \<Longrightarrow> set ys \<subseteq> set xs"
proof (induction k xs rule: chunks.induct)
  case (1 k xs)
  show ?case
  proof (cases "k = 0 \<or> xs = []")
    case True
    then show ?thesis using "1.prems" by (subst (asm) chunks.simps) simp
  next
    case False
    then have "ys = take k xs \<or> ys \<in> set (chunks k (drop k xs))" using "1.prems" by (subst (asm) chunks.simps) simp
    then show ?thesis using "1.IH"[OF False] set_take_subset[of k xs] set_drop_subset[of k xs] by blast
  qed
qed

lemma run_pass_same:
  assumes R: "rng_ok R" and b: "builder_ok n md b" and md: "bp_max_degree params = md" and a: "alpha_ok (vb_metric b) (vb_dimension b) alpha"
  shows "\<exists>pa' rng'. builder_ok n md (b\<lparr>vb_adjacency := pa'\<rparr>) \<and> (\<forall>sched threads. schedule_ok sched \<longrightarrow> run_pass R t sched threads params alpha (b, rng) = Inr (b\<lparr>vb_adjacency := pa'\<rparr>, rng'))"
proof -
  have n: "pa_node_count (vb_adjacency b) = n" "n < 2 ^ 30" using b by (simp_all add: builder_ok_def)
  obtain order rng' where o: "shuffle_places R n rng = (order, rng')" by (cases "shuffle_places R n rng")
  have "mset (fst (shuffle_places R n rng)) = mset [0..<n]" using R unfolding rng_ok_def by blast
  then have "mset order = mset [0..<n]" using o by simp
  then have "set order = {0..<n}" using mset_eq_setD by fastforce
  then have "\<forall>batch \<in> set (chunks PARALLEL_BUILD_BATCH_NODES order). \<forall>q \<in> set batch. q < n" using chunks_subset by fastforce
  from run_batches_same[OF b md a this, of t 0] obtain pa' where pa': "builder_ok n md (b\<lparr>vb_adjacency := pa'\<rparr>)" "\<forall>sched scratches. schedule_ok sched \<longrightarrow> scratches_ok n scratches
    \<longrightarrow> (\<exists>scratches'. fold_res (run_batch t sched params alpha) (enumerate 0 (chunks PARALLEL_BUILD_BATCH_NODES order)) (b, scratches) = Inr (b\<lparr>vb_adjacency := pa'\<rparr>, scratches') \<and> scratches_ok n scratches')" by blast
  obtain s where s: "scratch_new n md (bp_build_search_list_size params) = Inr s" "states_ok n (gs_visit_states s)" using scratch_new_ok[OF n(2), of md] by blast
  have "run_pass R t sched threads params alpha (b, rng) = Inr (b\<lparr>vb_adjacency := pa'\<rparr>, rng')" if sok: "schedule_ok sched" for sched threads
  proof -
    have new: "map_res (\<lambda>_. scratch_new n md (bp_build_search_list_size params)) [0..<max threads 1] = Inr (map (\<lambda>_. s) [0..<max threads 1])" using s(1) by (intro map_res_Inr_map)
    have "scratches_ok n (map (\<lambda>_. s) [0..<max threads 1])" using s(2) by (auto simp: scratches_ok_def)
    then obtain scratches' where "fold_res (run_batch t sched params alpha) (enumerate 0 (chunks PARALLEL_BUILD_BATCH_NODES order)) (b, map (\<lambda>_. s) [0..<max threads 1]) = Inr (b\<lparr>vb_adjacency := pa'\<rparr>, scratches')"
      using pa'(2) sok by blast
    then show ?thesis unfolding run_pass_def Let_def prod.case n(1) o md new bind_res_Inr by simp
  qed
  then show ?thesis using pa'(1) by blast
qed

section \<open>The build\<close>

lemma chunk_lengths: "c \<in> set (chunks_exact d xs) \<Longrightarrow> length c = d"
proof (induction d xs rule: chunks_exact.induct)
  case (1 d xs)
  show ?case
  proof (cases "d = 0 \<or> length xs < d")
    case True
    then show ?thesis using "1.prems" by (subst (asm) chunks_exact.simps) simp
  next
    case False
    then have "c = take d xs \<or> c \<in> set (chunks_exact d (drop d xs))" using "1.prems" by (subst (asm) chunks_exact.simps) simp
    then show ?thesis using "1.IH"[OF False] False by auto
  qed
qed

lemma sums_length: "\<forall>c \<in> set cs. length c = length acc \<Longrightarrow> length (foldl add_vector acc cs) = length acc"
  by (induction cs arbitrary: acc) (simp_all add: add_vector_def)

text \<open>Node \<open>e\<close> is nearest to a point, the first of the nearest.\<close>

definition nearest_node :: "(nat \<Rightarrow> f32) \<Rightarrow> nat \<Rightarrow> nat \<Rightarrow> bool" where
  "nearest_node dist n e \<longleftrightarrow> e < n \<and> (\<forall>k < n. dist e < dist k \<or> dist e = dist k \<and> e \<le> k)"

lemma nearest_loop:
  assumes "\<forall>k < n. node_distance t vectors d k centroid metric = Inr (dist k)" "k < n"
  shows "\<exists>e. fold_res (nearer_entry t vectors d centroid metric) [0..<Suc k] None = Inr (Some (e, dist e)) \<and> nearest_node dist (Suc k) e"
  using assms(2)
proof (induction k)
  case 0
  then show ?case using assms(1) by (simp add: nearer_entry_def nearest_node_def)
next
  case (Suc k)
  then obtain e where e: "fold_res (nearer_entry t vectors d centroid metric) [0..<Suc k] None = Inr (Some (e, dist e))" "nearest_node dist (Suc k) e" by auto
  let ?k = "Suc k" and ?better = "dist (Suc k) < dist e"
  have ne: "\<not> Suc k < e" using e(2) by (simp add: nearest_node_def)
  have "nearer_entry t vectors d centroid metric ?k (Some (e, dist e)) = Inr (Some (if ?better then (?k, dist ?k) else (e, dist e)))"
    using assms(1) Suc.prems ne by (simp add: nearer_entry_def)
  then have run: "fold_res (nearer_entry t vectors d centroid metric) [0..<Suc ?k] None = Inr (Some (if ?better then (?k, dist ?k) else (e, dist e)))"
    using e(1) unfolding upt_Suc_append[of 0 "Suc k", OF le0] fold_res_append by simp
  have near: "dist e \<le> dist j" if "j < Suc k" for j using e(2) that by (auto simp: nearest_node_def)
  show ?case
  proof (cases ?better)
    case True
    have "nearest_node dist (Suc ?k) ?k" unfolding nearest_node_def using near True by (auto simp: less_Suc_eq intro: less_le_trans)
    then show ?thesis using run True by (intro exI[of _ ?k]) simp
  next
    case False
    have "nearest_node dist (Suc ?k) e" using e(2) False ne by (auto simp: nearest_node_def less_Suc_eq not_less)
    then show ?thesis using run False by (intro exI[of _ e]) simp
  qed
qed

lemma centroid_entry_ends:
  assumes "length vectors = n * d" "0 < n"
  shows "\<exists>e. centroid_entry t vectors n d metric = Inr e \<and> e < n"
proof -
  define centroid where "centroid = map (\<lambda>value. f32_div value (f32_of_nat n)) (foldl add_vector (replicate d f32_zero) (chunks_exact d vectors))"
  have "\<forall>c \<in> set (chunks_exact d vectors). length c = length (replicate d f32_zero)" using chunk_lengths[of _ d vectors] by simp
  from sums_length[OF this] have "length centroid = d" by (simp add: centroid_def)
  then have D: "\<forall>k < n. node_distance t vectors d k centroid metric = Inr (query_gap t vectors d metric centroid k)" using node_distance_eq[OF assms(1)] by blast
  obtain k where k: "n = Suc k" using assms(2) by (cases n) auto
  obtain e where "fold_res (nearer_entry t vectors d centroid metric) [0..<n] None = Inr (Some (e, query_gap t vectors d metric centroid e))" "e < n"
    using nearest_loop[OF D, of k] unfolding k nearest_node_def by blast
  then show ?thesis unfolding centroid_entry_def Let_def centroid_def[symmetric] by (simp add: ok_or_def)
qed

lemma alpha_one: "alpha_ok metric d f32_one"
  by (simp add: alpha_ok_def f32_lt_zero_one)

text \<open>A graph that a build may hand out.\<close>

definition built :: "arch \<Rightarrow> f32 list \<Rightarrow> nat \<Rightarrow> nat \<Rightarrow> MetricType \<Rightarrow> nat \<Rightarrow> VamanaGraph \<Rightarrow> bool" where
  "built t vectors n d metric md g \<longleftrightarrow> ca_ok (vg_adjacency g) \<and> ca_node_count (vg_adjacency g) = n \<and> centroid_entry t vectors n d metric = Inr (unat (vg_entry_node g))
     \<and> validate_graph md g = Inr () \<and> is_fully_reachable g = Inr True \<and> (\<forall>v < n. reaches (ca_adj (vg_adjacency g)) (unat (vg_entry_node g)) v)"

text \<open>The estimate for a number of threads is within the budget.\<close>

definition within_budget :: "type_sizes \<Rightarrow> nat \<Rightarrow> DiskAnnBuildParams \<Rightarrow> nat \<Rightarrow> bool" where
  "within_budget sz n params threads \<longleftrightarrow> (\<exists>e. estimate_vamana_memory_bytes sz n (bp_max_degree params) (bp_build_search_list_size params) threads = Some e
     \<and> me_build_peak_bytes e \<le> bp_memory_budget_bytes params \<and> me_remap_peak_bytes e \<le> bp_memory_budget_bytes params)"

lemma budget_eq:
  "validate_build_memory_budget (map_option (\<lambda>e. max (me_build_peak_bytes e) (me_remap_peak_bytes e)) (estimate_vamana_memory_bytes sz n (bp_max_degree params) (bp_build_search_list_size params) threads))
     (bp_memory_budget_bytes params) = (if within_budget sz n params threads then Inr () else Inl (Err OutOfMemory))"
  by (cases "estimate_vamana_memory_bytes sz n (bp_max_degree params) (bp_build_search_list_size params) threads") (simp_all add: validate_build_memory_budget_def within_budget_def)

definition inputs_ok :: "f32 list \<Rightarrow> nat \<Rightarrow> nat \<Rightarrow> MetricType \<Rightarrow> DiskAnnBuildParams \<Rightarrow> bool" where
  "inputs_ok vectors n d metric params \<longleftrightarrow> 0 < n \<and> n < 2 ^ 30 \<and> 0 < d \<and> n * d < 2 ^ 64 \<and> length vectors = n * d
     \<and> 0 < bp_max_degree params \<and> bp_max_degree params < 2 ^ 16 \<and> alpha_ok metric d (bp_alpha params)"

lemma inputs_valid: "inputs_ok vectors n d metric params \<Longrightarrow> validate_build_inputs vectors n d params = Inr ()"
  by (simp add: inputs_ok_def validate_build_inputs_def checked_mul_def ok_or_def)

lemma first_builder_ok:
  assumes R: "rng_ok R" and I: "inputs_ok vectors n d metric params" and sd: "search_ok n sd" and e: "e < n"
  shows "\<exists>pa. pa_new_random R n (min (bp_max_degree params) (n - 1)) seed = Inr pa
    \<and> builder_ok n (bp_max_degree params) \<lparr>vb_vectors = vectors, vb_dimension = d, vb_metric = metric, vb_entry_node = word_of_nat e, vb_adjacency = pa, vb_search_distance = sd\<rparr>"
proof -
  let ?md = "bp_max_degree params"
  have J: "0 < n" "n < 2 ^ 30" "length vectors = n * d" "?md < 2 ^ 16" using I by (simp_all add: inputs_ok_def)
  have "min ?md (n - 1) \<le> n - 1" "min ?md (n - 1) < 2 ^ 16" using J(4) by simp_all
  from random_rows[OF R J(2,1) this, of seed] obtain pa where pa: "pa_new_random R n (min ?md (n - 1)) seed = Inr pa" "pa_ok pa" "pa_node_count pa = n" "pa_max_degree pa = min ?md (n - 1)"
    "\<forall>v < n. length (pa_adj pa ! v) = min ?md (n - 1) \<and> distinct (pa_adj pa ! v) \<and> (\<forall>x \<in> set (pa_adj pa ! v). unat x < n \<and> unat x \<noteq> v)" by blast
  have rows: "\<forall>v < n. row_ok n ?md v (pa_adj pa ! v)" using pa(5) by (simp add: row_ok_def)
  have "unat (word_of_nat e :: u32) = e" using e J(2) unat_node[of e] by simp
  then show ?thesis using pa(1-4) rows J sd e by (simp add: builder_ok_def)
qed

lemma finished_valid:
  assumes b: "builder_ok n md b" and d: "0 < md"
  shows "\<exists>g. repair_connectivity t (vb_vectors b) (vb_dimension b) md metric (builder_finish b) = Inr g \<and> vg_entry_node g = vb_entry_node b \<and> ca_ok (vg_adjacency g) \<and> ca_node_count (vg_adjacency g) = n
    \<and> validate_graph md g = Inr () \<and> is_fully_reachable g = Inr True \<and> (\<forall>v < n. reaches (ca_adj (vg_adjacency g)) (unat (vb_entry_node b)) v)"
proof -
  let ?g = "builder_finish b"
  have B: "pa_ok (vb_adjacency b)" "pa_node_count (vb_adjacency b) = n" "pa_max_degree (vb_adjacency b) = min md (n - 1)" "\<forall>v < n. row_ok n md v (pa_adj (vb_adjacency b) ! v)"
    "length (vb_vectors b) = n * vb_dimension b" "unat (vb_entry_node b) < n" "n < 2 ^ 30" using b by (simp_all add: builder_ok_def)
  have G: "ca_ok (vg_adjacency ?g)" "ca_node_count (vg_adjacency ?g) = n" "ca_max_degree (vg_adjacency ?g) = min md (n - 1)" "vg_entry_node ?g = vb_entry_node b"
    using into_adjacency[of "vb_adjacency b"] B by (simp_all add: builder_finish_def)
  have "valid_adj md (ca_adj (vg_adjacency ?g))" using B(2,4) into_adjacency(2)[of "vb_adjacency b"] by (simp add: valid_adj_def row_ok_def builder_finish_def)
  then have "validate_graph md ?g = Inr ()" using validate_graph_eq[OF G(1)] by simp
  moreover have "n \<le> 2 ^ 32" using B(7) by simp
  ultimately show ?thesis using repair_ends[OF G(1-3) d _ _ _ B(5), of t metric] B(6) G(4) by auto
qed

lemma build_same:
  assumes R: "rng_ok R" and I: "inputs_ok vectors n d metric params" and sd: "search_ok n sd"
  shows "\<exists>g. built t vectors n d metric (bp_max_degree params) g \<and> (\<forall>sched threads. (\<forall>p. schedule_ok (sched p))
    \<longrightarrow> build_with_search_distance sz R t sched threads vectors n d metric params sd = (if within_budget sz n params threads then Inr g else Inl (Err OutOfMemory)))"
proof -
  let ?md = "bp_max_degree params"
  have J: "0 < n" "n < 2 ^ 30" "length vectors = n * d" "0 < ?md" "alpha_ok metric d (bp_alpha params)" using I by (simp_all add: inputs_ok_def)
  obtain e where e: "centroid_entry t vectors n d metric = Inr e" "e < n" using centroid_entry_ends[OF J(3,1)] by blast
  let ?mk = "\<lambda>pa. \<lparr>vb_vectors = vectors, vb_dimension = d, vb_metric = metric, vb_entry_node = word_of_nat e, vb_adjacency = pa, vb_search_distance = sd\<rparr>"
  obtain pa0 where pa0: "pa_new_random R n (min ?md (n - 1)) (bp_seed params) = Inr pa0" "builder_ok n ?md (?mk pa0)" using first_builder_ok[OF R I sd e(2)] by blast
  let ?rng = "seed_from_u64 R (derived_seed (bp_seed params) (- 1))"
  obtain pa1 rng1 where pa1: "builder_ok n ?md (?mk pa1)" "\<forall>sched threads. schedule_ok sched \<longrightarrow> run_pass R t sched threads params f32_one (?mk pa0, ?rng) = Inr (?mk pa1, rng1)"
    using run_pass_same[OF R pa0(2) refl, of f32_one t ?rng] alpha_one by auto
  obtain pa2 rng2 where pa2: "builder_ok n ?md (?mk pa2)" "\<forall>sched threads. schedule_ok sched \<longrightarrow> run_pass R t sched threads params (bp_alpha params) (?mk pa1, rng1) = Inr (?mk pa2, rng2)"
    using run_pass_same[OF R pa1(1) refl, of "bp_alpha params" t rng1] J(5) by auto
  obtain g where g: "repair_connectivity t vectors d ?md metric (builder_finish (?mk pa2)) = Inr g" "vg_entry_node g = word_of_nat e" "ca_ok (vg_adjacency g)" "ca_node_count (vg_adjacency g) = n"
    "validate_graph ?md g = Inr ()" "is_fully_reachable g = Inr True" "\<forall>v < n. reaches (ca_adj (vg_adjacency g)) (unat (word_of_nat e :: u32)) v"
    using finished_valid[OF pa2(1) J(4), of t metric] by auto
  have "unat (word_of_nat e :: u32) = e" using e(2) J(2) unat_node[of e] by simp
  then have "built t vectors n d metric ?md g" using g(2-7) e(1) by (simp add: built_def)
  moreover have "build_with_search_distance sz R t sched threads vectors n d metric params sd = (if within_budget sz n params threads then Inr g else Inl (Err OutOfMemory))"
    if "\<forall>p. schedule_ok (sched p)" for sched threads
    unfolding build_with_search_distance_def inputs_valid[OF I] budget_eq e(1) pa0(1) Let_def bind_res_Inr using pa1(2) pa2(2) that g(1,5,6) by simp
  ultimately show ?thesis by blast
qed

section \<open>Property\<close>

text \<open>C12: The graph of a parallel build is independent of scheduling and worker count, as the source promises. For valid
  inputs there is one graph for full-precision search and one for search by quantised codes such that
  in whatever order the tasks of every batch run, on whatever threads and with any number of workers, the
  build returns that graph, bit for bit, whenever the memory estimate for that number of workers is within the
  budget, and refuses with OutOfMemory otherwise. The graph starts at the node that centroid_entry picks, passes
  validation and every node is reachable in it.\<close>

theorem build_ignores_schedule:
  assumes R: "rng_ok R" and I: "inputs_ok vectors n d metric params"
    and pq: "pq_has_valid_layout pq = Inr True" "pq_d pq = d" "length pq_codes = n * pq_code_size pq" "n * pq_code_size pq < 2 ^ 64" "pq_m pq * pq_ksub pq * pq_ksub pq < 2 ^ 64"
  shows "\<exists>g g'. built t vectors n d metric (bp_max_degree params) g \<and> built t vectors n d metric (bp_max_degree params) g'
    \<and> (\<forall>sched threads. (\<forall>second number loop k. runs_all k (sched second number loop k))
        \<longrightarrow> build_with_stats sz R t sched threads vectors n d metric params = (if within_budget sz n params threads then Inr g else Inl (Err OutOfMemory))
          \<and> build_with_pq_stats sz R t sched threads vectors pq pq_codes n d metric params = (if within_budget sz n params threads then Inr g' else Inl (Err OutOfMemory)))"
proof -
  have ok: "layout_ok pq" by (rule valid_layout[OF pq(1)])
  obtain pd where pd: "pd_new t pq pq_codes n metric = Inr pd" "pd_ok n pd" using pd_new_ok[OF ok pq(3-5)] by blast
  have full: "search_ok n (FullPrecision vectors d metric)" using I by (simp add: search_ok_def inputs_ok_def)
  have quant: "search_ok n (ProductQuantized pd)" using pd(2) by (simp add: search_ok_def)
  obtain g where g: "built t vectors n d metric (bp_max_degree params) g" "\<forall>sched threads. (\<forall>p. schedule_ok (sched p)) \<longrightarrow>
    build_with_search_distance sz R t sched threads vectors n d metric params (FullPrecision vectors d metric) = (if within_budget sz n params threads then Inr g else Inl (Err OutOfMemory))"
    using build_same[OF R I full, of t sz] by blast
  obtain g' where g': "built t vectors n d metric (bp_max_degree params) g'" "\<forall>sched threads. (\<forall>p. schedule_ok (sched p)) \<longrightarrow>
    build_with_search_distance sz R t sched threads vectors n d metric params (ProductQuantized pd) = (if within_budget sz n params threads then Inr g' else Inl (Err OutOfMemory))"
    using build_same[OF R I quant, of t sz] by blast
  have "length pq_codes = saturating_mul n (pq_code_size pq)" "pq_nbits pq = 4 \<or> pq_nbits pq = 8" using pq(3,4) ok by (simp_all add: saturating_mul_def layout_ok_def)
  then have "build_with_pq_stats sz R t sched threads vectors pq pq_codes n d metric params = build_with_search_distance sz R t sched threads vectors n d metric params (ProductQuantized pd)" for sched threads
    unfolding build_with_pq_stats_def inputs_valid[OF I] pq(1,2) bind_res_Inr pd(1) by simp
  then show ?thesis using g g' by (intro exI[of _ g] exI[of _ g']) (simp add: build_with_stats_def schedule_ok_def)
qed

definition small_params :: DiskAnnBuildParams where
  "small_params = \<lparr>bp_max_degree = 2, bp_build_search_list_size = 4, bp_alpha = f32_one, bp_seed = 42, bp_memory_budget_bytes = 100000,
     bp_storage_layout = Compact, bp_raw_vector_encoding = RawF16, bp_build_distance = BuildProductQuantized\<rparr>"

lemma small_inputs: "inputs_ok [f32_zero, f32_one] 2 1 L2 small_params"
  by (simp add: inputs_ok_def small_params_def alpha_one)

lemma tiny_layout: "pq_has_valid_layout tiny_pq = Inr True"
  by (simp add: pq_has_valid_layout_def try_with_chunk_offsets_def with_validated_chunk_offsets_def tiny_pq_def windows2_def checked_sub_def ok_or_def)

theorem build_ignores_schedule_witness:
  "\<exists>g. build_with_pq_stats \<lparr>size_RwLock_AdjacencyShard = 80, size_AdjacencyShard = 64\<rparr> first_rng OtherArch (\<lambda>_ _ _ k. rev (map (\<lambda>i. (i, i)) [0..<k])) 3
       [f32_zero, f32_one] tiny_pq [3, 0] 2 1 L2 small_params = Inr g
     \<and> build_with_pq_stats \<lparr>size_RwLock_AdjacencyShard = 80, size_AdjacencyShard = 64\<rparr> first_rng OtherArch (\<lambda>_ _ _ k. map (\<lambda>i. (i, 0)) [0..<k]) 1
       [f32_zero, f32_one] tiny_pq [3, 0] 2 1 L2 small_params = Inr g \<and> is_fully_reachable g = Inr True"
proof -
  let ?sz = "\<lparr>size_RwLock_AdjacencyShard = 80, size_AdjacencyShard = 64\<rparr>"
  have q: "pq_d tiny_pq = 1" "length [3, 0 :: u8] = 2 * pq_code_size tiny_pq" "2 * pq_code_size tiny_pq < 2 ^ 64" "pq_m tiny_pq * pq_ksub tiny_pq * pq_ksub tiny_pq < 2 ^ 64"
    unfolding tiny_pq_ok(2) by (simp_all add: tiny_pq_def)
  have "pow2_from 8 1 = 8" by (simp add: pow2_from.simps)
  then have table: "estimated_memory_bytes 2 (Suc 0) = Some 48"
    by (simp add: estimated_memory_bytes_def table_capacity_def checked_next_power_of_two_def checked_mul_def checked_add_def MIN_CAPACITY_def)
  have fit: "within_budget ?sz 2 small_params 3" "within_budget ?sz 2 small_params 1"
    by (simp_all add: within_budget_def estimate_vamana_memory_bytes_def estimate_worker_states_def checked_sum_def small_params_def PARALLEL_ADJACENCY_NODES_PER_SHARD_def
      PARALLEL_BUILD_BATCH_NODES_def SPARSE_BUILD_VISITED_MIN_MEMORY_SAVINGS_def checked_mul_def checked_add_def div_ceil_def table)
  have runs: "runs_all k (rev (map (\<lambda>i. (i, i)) [0..<k]))" "runs_all k (map (\<lambda>i. (i, 0)) [0..<k])" for k by (simp_all add: runs_all_def comp_def rev_map[symmetric])
  show ?thesis using build_ignores_schedule[OF first_rng_ok small_inputs tiny_layout q, of OtherArch ?sz] fit runs unfolding built_def by fastforce
qed

end
