(* ===== verification/Spec2Isabelle.thy ===== *)
theory Spec2Isabelle
  imports Flat_Range Vamana_Schedule
begin

text \<open>
  A verification library for the core of Paimon's vector index (\<open>src/core/src\<close>).

  The program. A vector index partitions vectors into inverted lists around coarse centroids. An
  index is built in memory (\<open>ivfflat.rs\<close>), written to one file and searched from that file
  (\<open>ivfflat_io.rs\<close>). A search ranks the centroids for a query (\<open>kmeans.rs\<close>, with the matrix product
  of \<open>blas.rs\<close> for batches), reads the nearest lists within memory budgets (\<open>index_io_util.rs\<close>),
  scans their rows with a distance kernel that gives up early on rows that cannot qualify
  (\<open>distance.rs\<close>), and hands the rest to a collector: a bounded heap (\<open>topk.rs\<close> and the heaps of
  \<open>ivfflat.rs\<close> and \<open>ivfflat_io.rs\<close>) or the collector of a distance range (\<open>collect.rs\<close>, \<open>range.rs\<close>).
  The DiskANN index instead walks a graph over the vectors: \<open>vamana.rs\<close> starts from random neighbours, searches
  the graph greedily for each node, prunes what it finds to a bounded degree, adds the reverse edges and
  repairs reachability; \<open>pq.rs\<close> holds the quantiser whose codes can stand in for the vectors meanwhile.

  Theories, in the order they build on each other:

  \<^item> \<open>Prelude\<close>: results with errors, panics and divergence (\<open>res\<close>), checked arithmetic of \<open>usize\<close>, slices,
    rows of a flat matrix, and the lemmas the rest shares.
  \<^item> \<open>Float32\<close>: IEEE single precision as bit patterns, with exact rounding of sums, products, quotients
    and square roots, the IEEE order and the total order of \<open>f32::total_cmp\<close>.
  \<^item> \<open>Codec\<close>: \<open>index_io_util.rs\<close>. Varints and delta-coded ids round trip; batched reads, payload batches
    and stream chunks keep to their limits.
  \<^item> \<open>Distance\<close>: \<open>distance.rs\<close>. The scalar, AVX2 and NEON kernels, lane by lane. Early abandoning decides
    as the plain kernel does; four candidates at once equal four single calls.
  \<^item> \<open>TopK\<close>: \<open>topk.rs\<close>. The heap refines a collection of distinct ids and ends with the k best.
  \<^item> \<open>Range\<close>: \<open>range.rs\<close>. A band admits exactly the raw scores whose public distance meets the predicate;
    the compressed result gives every query its rows.
  \<^item> \<open>Sparse_Table\<close>: \<open>sparse_table.rs\<close>. Open addressing with growth is a finite map.
  \<^item> \<open>Collect\<close>, \<open>Flat_Heap\<close>, \<open>Flat_Scan\<close>: \<open>collect.rs\<close> and the heaps and row scan of the IVF-FLAT files. The
    locale of a collector states what a scan relies on; both collectors interpret it, so one proof
    shows that abandoning rows early changes neither top-k nor range results.
  \<^item> \<open>Probe\<close>: ranking of centroids in \<open>kmeans.rs\<close>, \<open>sgemm_a_bt\<close> of \<open>blas.rs\<close>, \<open>range_probe_lists\<close>.
  \<^item> \<open>Batch_Rank\<close>: the batched ranking. Whatever the matrix product returns, a query gets as many different centroids
    as it asked for, in the order of their exact distances. The refinement near the boundary finds the nearest
    ones when the approximate distances are within the error bound; an example of subnormal magnitudes shows that
    the bound the code computes is not always one.
  \<^item> \<open>Flat_Index\<close>: \<open>ivfflat.rs\<close>. Adding keeps the index well formed; the search is exact on probed lists.
  \<^item> \<open>Flat_IO\<close>, \<open>Flat_Roundtrip\<close>: writer and reader of \<open>ivfflat_io.rs\<close>. The writer succeeds exactly on the
    indexes the format can hold; what it writes opens and reads back, batched or streamed.
  \<^item> \<open>Flat_Search\<close>, \<open>Flat_TopK\<close>: the searches over a file. The locale \<open>list_consumer\<close> states what a search
    does with the lists it reads; top-k search of a file is exact.
  \<^item> \<open>Fan_Out\<close>, \<open>Flat_Batch\<close>, \<open>Flat_Range\<close>: searches of many queries, which read each list once for all queries
    that selected it. Batched top-k search is exact per query on the lists ranked for it, agrees with the search of
    the index in memory, and can be continued from its own result; range search returns exactly the rows in the band, in whatever order its parallel tasks merge.
  \<^item> \<open>Adjacency\<close>: the compact and the lock-striped store of neighbours in \<open>vamana.rs\<close>. The lemmas read a store as a
    function from node and slot; renumbering in place along cycles gives the renamed graph.
  \<^item> \<open>Vamana_Prune\<close>: robust pruning, whose blocked, single and early-exit loops all select what one
    specification selects.
  \<^item> \<open>Vamana_Search\<close>: the greedy search with its reusable scratch. The locale \<open>visit_map\<close> is the contract of the visit
    states, interpreted by the dense array, the sparse table and their sum; a simulation between two
    scratches shows that what an earlier search left behind has no influence.
  \<^item> \<open>Vamana_Repair\<close>: traversals, repair and validation. Repair always succeeds and connects every node.
  \<^item> \<open>Vamana_Random\<close>: sampling without replacement; every node of the first graph has distinct neighbours.
  \<^item> \<open>Pq_Layout\<close>: chunk plans, codebook and decoding of \<open>pq.rs\<close>. The balanced constructor gives a valid layout.
  \<^item> \<open>Vamana_Distance\<close>: the distances that guide a build; a prepared query agrees with the whole table.
  \<^item> \<open>Vamana_Build\<close>, \<open>Vamana_Schedule\<close>: the parallel build, its input checks and its memory estimate. One graph results
    from every order of the tasks, every assignment to threads and every number of workers.

  Correspondence. A struct is a record with the fields of the source, an enum a datatype. A method
  that changes its receiver returns it; \<open>io::Result\<close> is \<open>res\<close>, whose failures are \<open>Err\<close> with the error
  kind, \<open>Panic\<close> for what panics in Rust, and \<open>Diverge\<close> for a loop that runs out of fuel. Fixed-width
  integers are words; \<open>usize\<close> is \<open>nat\<close>, with the bound \<open>2 ^ 64\<close> in the checked operations. Definitions keep
  the source's names, with a prefix (\<open>flat_\<close>, \<open>topk_\<close>, \<open>table_\<close>, \<open>reader_heap_\<close>, \<open>ca_\<close> and \<open>pa_\<close> for the compact and the
  parallel adjacency, \<open>pq_\<close> and \<open>pd_\<close> for the quantiser and its build distance) where two files share one.

  Arguments for code outside the repository: \<open>gemm\<close> (the \<open>matrixmultiply\<close> crate; \<open>gemm_fills\<close> states that it fills the
  matrix it is given, and nothing is assumed of the numbers), \<open>roaring\<close> (decoding and
  membership of the \<open>roaring\<close> crate), \<open>rng_api\<close> (the generator of the \<open>rand\<close> crate, with \<open>rng_ok\<close> for its documentation). Arguments for what the language leaves open: \<open>sel\<close>, the order
  \<open>select_nth_unstable_by\<close> leaves (\<open>selects\<close> states its documentation); \<open>arch\<close>, the target and its CPU
  features; \<open>big\<close>, the endianness; \<open>sched\<close>, the order in which parallel tasks merge or
  get their locks, and for the graph build the thread of each task; \<open>threads\<close>, the size of the \<open>rayon\<close> pool; \<open>type_sizes\<close>,
  the sizes of two types in the memory estimate.

  Fuel. \<open>flat_stream_chunks\<close> is given as much fuel as the list has rows; each chunk holds at least one row, and
  \<open>flat_stream_delivers_list\<close> shows that the loop ends with every row delivered. The loops over a graph get
  fuel from its size: \<open>expand_loop\<close>, \<open>reach_loop\<close> and \<open>tree_loop\<close> handle each node at most once, \<open>repair_loop\<close> connects a
  node in each round, \<open>permute_cycle\<close> visits a new node in each step, and \<open>prune_loop\<close> takes one candidate
  from its pool in each round. The theorems on these operations show that the fuel is enough.

  Not modelled: the training of centroids (random draws of the \<open>rand\<close> crate), the IVF-PQ, IVF-SQ and
  IVF-RQ indexes with their quantisers and formats, the file and the disk search of DiskANN, the
  sharded and sequential drivers of the graph build, the training, encoding and distance tables of \<open>pq.rs\<close>, the facade \<open>index.rs\<close> apart from \<open>validate_queries\<close>,
  the tuning of parameters, logging, and the C, JNI, Java and Python bindings, which marshal foreign
  objects around the core.
\<close>

end
